(* ===== verification/Prelude.thy ===== *)
theory Prelude
  imports
    Main
    "HOL-Library.AList"
    "HOL-Library.Multiset"
    "HOL-Library.Signed_Division"
    "HOL-Library.Product_Lexorder"
begin

text \<open>
  What every component of the development shares: the reading of BigInt division, of strings
  compared without case, of a JavaScript \<^verbatim>\<open>Map\<close> and \<^verbatim>\<open>Array.sort\<close>, the result type of code that
  throws, the two binary searches of the code, and the generic lemmas on sums and floor
  divisions that the component proofs rewrite with.
\<close>

named_theorems floor_laws \<open>floor and ceiling divisions of non negative integers\<close>
named_theorems sum_laws \<open>sums over lists\<close>
named_theorems store_laws \<open>reads after writes of an insertion ordered map\<close>

section \<open>Results of code that throws\<close>

text \<open>
  An exception is the left side of a sum. \<open>RangeError\<close> is what BigInt division by zero throws;
  \<open>Thrown\<close> carries the message of an explicit \<^verbatim>\<open>throw new Error(...)\<close>, without the values the
  message interpolates.
\<close>

datatype js_error = RangeError | TypeError | Thrown string

fun bindE :: "'e + 'a \<Rightarrow> ('a \<Rightarrow> 'e + 'b) \<Rightarrow> 'e + 'b" where
  "bindE (Inl e) f = Inl e"
| "bindE (Inr x) f = f x"

lemma bindE_Inr_iff [simp]: "bindE m f = Inr y \<longleftrightarrow> (\<exists>x. m = Inr x \<and> f x = Inr y)"
  by (cases m) auto

lemma bindE_Inl_iff: "bindE m f = Inl e \<longleftrightarrow> m = Inl e \<or> (\<exists>x. m = Inr x \<and> f x = Inl e)"
  by (cases m) auto

text \<open>\<^verbatim>\<open>for (const x of xs)\<close> whose body may throw, and which collects one value per element.\<close>

fun mapE :: "('a \<Rightarrow> 'e + 'b) \<Rightarrow> 'a list \<Rightarrow> 'e + 'b list" where
  "mapE f [] = Inr []"
| "mapE f (x # xs) = bindE (f x) (\<lambda>y. bindE (mapE f xs) (\<lambda>ys. Inr (y # ys)))"

lemma mapE_Inr_length: "mapE f xs = Inr ys \<Longrightarrow> length ys = length xs"
  by (induction xs arbitrary: ys) auto

lemma mapE_Inr_nth:
  "mapE f xs = Inr ys \<Longrightarrow> i < length xs \<Longrightarrow> f (xs ! i) = Inr (ys ! i)"
  by (induction xs arbitrary: ys i) (auto simp: nth_Cons split: nat.splits)

lemma mapE_total: "(\<And>x. x \<in> set xs \<Longrightarrow> \<exists>y. f x = Inr y) \<Longrightarrow> \<exists>ys. mapE f xs = Inr ys"
proof (induction xs)
  case (Cons x xs)
  obtain y where "f x = Inr y" using Cons.prems [of x] by auto
  moreover obtain ys where "mapE f xs = Inr ys" using Cons.IH Cons.prems by (meson list.set_intros(2))
  ultimately have "mapE f (x # xs) = Inr (y # ys)" by simp
  then show ?case by blast
qed simp

text \<open>The same loop threading an accumulator.\<close>

fun foldE :: "('b \<Rightarrow> 'a \<Rightarrow> 'e + 'b) \<Rightarrow> 'b \<Rightarrow> 'a list \<Rightarrow> 'e + 'b" where
  "foldE f s [] = Inr s"
| "foldE f s (x # xs) = bindE (f s x) (\<lambda>s'. foldE f s' xs)"

lemma foldE_append: "foldE f s (xs @ ys) = bindE (foldE f s xs) (\<lambda>s'. foldE f s' ys)"
proof (induction xs arbitrary: s)
  case (Cons x xs)
  then show ?case by (cases "f s x") simp_all
qed simp

lemma foldE_inv:
  assumes "foldE f s xs = Inr t" and "P s"
    and "\<And>s x s'. P s \<Longrightarrow> x \<in> set xs \<Longrightarrow> f s x = Inr s' \<Longrightarrow> P s'"
  shows "P t"
  using assms
proof (induction xs arbitrary: s)
  case (Cons x xs)
  obtain s' where s': "f s x = Inr s'" "foldE f s' xs = Inr t" using Cons.prems(1) by auto
  have "P s'" using Cons.prems(3) [OF Cons.prems(2) _ s'(1)] by simp
  with s'(2) show ?case by (rule Cons.IH) (rule Cons.prems(3), simp_all)
qed simp

lemma foldE_sum:
  "foldE (\<lambda>s x. bindE (g x) (\<lambda>v. Inr (s + v))) (a::int) xs = bindE (mapE g xs) (\<lambda>vs. Inr (a + sum_list vs))"
proof (induction xs arbitrary: a)
  case (Cons x xs)
  then show ?case by (cases "g x"; cases "mapE g xs") (simp_all add: algebra_simps)
qed simp

section \<open>Strings\<close>

text \<open>
  Addresses are hexadecimal strings that the code compares after \<^verbatim>\<open>toLowerCase()\<close>. They are
  ASCII, so lower casing is the shift of the letters A to Z.
\<close>

definition lower_char :: "char \<Rightarrow> char" where
  "lower_char c = (let n = (of_char c :: nat) in if 65 \<le> n \<and> n \<le> 90 then char_of (n + 32) else c)"

definition lower :: "string \<Rightarrow> string" where
  "lower s = map lower_char s"

definition same :: "string \<Rightarrow> string \<Rightarrow> bool" where
  "same a b \<longleftrightarrow> lower a = lower b"

lemma lower_char_idem [simp]: "lower_char (lower_char c) = lower_char c"
proof -
  have "of_char (char_of (n + 32) :: char) = n + 32" if "65 \<le> n" "n \<le> 90" for n :: nat
    using that by (simp add: of_char_of)
  then show ?thesis by (auto simp: lower_char_def Let_def)
qed

lemma lower_idem [simp]: "lower (lower s) = lower s"
  by (simp add: lower_def comp_def)

lemma same_refl [simp]: "same a a"
  by (simp add: same_def)

lemma same_sym: "same a b \<Longrightarrow> same b a"
  by (simp add: same_def)

lemma same_trans: "same a b \<Longrightarrow> same b c \<Longrightarrow> same a c"
  by (simp add: same_def)

text \<open>\<^verbatim>\<open>BigInt(address)\<close>, the value of the hexadecimal digits after the prefix \<^verbatim>\<open>0x\<close>.\<close>

definition hex_digit :: "char \<Rightarrow> int" where
  "hex_digit c = (let n = int (of_char (lower_char c)) in if n \<ge> 97 then n - 87 else n - 48)"

definition hex_value :: "string \<Rightarrow> int" where
  "hex_value s = foldl (\<lambda>acc c. 16 * acc + hex_digit c) 0 (drop 2 s)"

section \<open>Floor division\<close>

text \<open>
  BigInt division truncates towards zero, which is \<open>sdiv\<close> of HOL-Library.Signed_Division. On
  non negative operands it is the floor that the contracts compute.
\<close>

lemma sdiv_floor [floor_laws, simp]: "0 \<le> a \<Longrightarrow> 0 \<le> b \<Longrightarrow> a sdiv b = a div (b :: int)"
  by (cases "a = 0"; cases "b = 0") (auto simp: signed_divide_int_def sgn_if)

lemma smod_floor [floor_laws, simp]: "0 \<le> a \<Longrightarrow> 0 \<le> b \<Longrightarrow> a smod b = a mod (b :: int)"
  by (simp add: smod_int_alt_def sgn_if abs_if)

lemma sdiv_nonneg [simp]: "0 \<le> a \<Longrightarrow> 0 \<le> b \<Longrightarrow> 0 \<le> a sdiv (b :: int)"
  by (simp add: div_int_pos_iff)

lemma floor_mult_le [floor_laws]: "0 < d \<Longrightarrow> (n div d) * d \<le> (n::int)"
  by (metis minus_mod_eq_div_mult pos_mod_sign diff_ge_0_iff_ge diff_diff_eq2 add_diff_cancel_left'
      diff_left_mono diff_zero)

lemma floor_le_iff [floor_laws]: "0 < d \<Longrightarrow> (k::int) \<le> n div d \<longleftrightarrow> k * d \<le> n"
proof
  assume d: "0 < d" and "k \<le> n div d"
  then have "k * d \<le> n div d * d" by (simp add: mult_right_mono)
  then show "k * d \<le> n" using floor_mult_le [OF d, of n] by linarith
next
  assume d: "0 < d" and "k * d \<le> n"
  then have "(k * d) div d \<le> n div d" by (intro zdiv_mono1)
  then show "k \<le> n div d" using d by simp
qed

lemma floor_less_iff [floor_laws]: "0 < d \<Longrightarrow> n div d < (k::int) \<longleftrightarrow> n < k * d"
  using floor_le_iff [of d k n] by linarith

lemma ceil_le_iff [floor_laws]: "0 < d \<Longrightarrow> (n + d - 1) div d \<le> (k::int) \<longleftrightarrow> n \<le> k * d"
proof -
  assume d: "0 < d"
  have "(n + d - 1) div d \<le> k \<longleftrightarrow> (n + d - 1) div d < k + 1" by linarith
  also have "\<dots> \<longleftrightarrow> n + d - 1 < (k + 1) * d" by (rule floor_less_iff [OF d])
  also have "\<dots> \<longleftrightarrow> n \<le> k * d" by (simp add: algebra_simps) linarith
  finally show ?thesis .
qed

lemma ceil_greater_iff [floor_laws]: "0 < d \<Longrightarrow> (k::int) < (n + d - 1) div d \<longleftrightarrow> k * d < n"
  using ceil_le_iff [of d n k] by linarith

lemma ceil_mult_ge [floor_laws]: "0 < d \<Longrightarrow> (n::int) \<le> (n + d - 1) div d * d"
  using ceil_le_iff [of d n "(n + d - 1) div d"] by simp

lemma floor_nonneg [simp]: "0 \<le> a \<Longrightarrow> 0 \<le> b \<Longrightarrow> 0 \<le> a div (b::int)"
  by (cases "b = 0") (simp_all add: div_int_pos_iff)

lemma floor_share_le: "0 \<le> x \<Longrightarrow> 0 \<le> a \<Longrightarrow> a \<le> t \<Longrightarrow> x * a div t \<le> (x::int)"
proof (cases "t = 0")
  case False
  assume "0 \<le> x" "0 \<le> a" "a \<le> t"
  then have "x * a \<le> x * t" "0 < t" using False by (simp_all add: mult_left_mono)
  then show ?thesis using floor_less_iff [of t "x * a" "x + 1"] by (simp add: algebra_simps)
qed simp

lemma sdiv_ceil [simp]: "0 \<le> a \<Longrightarrow> 0 < b \<Longrightarrow> (a + b - 1) sdiv b = (a + b - 1) div (b::int)"
  by simp

section \<open>Sums\<close>

lemma sum_list_nonneg_int [sum_laws]: "(\<And>x. x \<in> set xs \<Longrightarrow> 0 \<le> f x) \<Longrightarrow> 0 \<le> (\<Sum>x\<leftarrow>xs. f x :: int)"
  by (induction xs) auto

lemma sum_list_mono_int [sum_laws]:
  "(\<And>x. x \<in> set xs \<Longrightarrow> f x \<le> g x) \<Longrightarrow> (\<Sum>x\<leftarrow>xs. f x) \<le> (\<Sum>x\<leftarrow>xs. g x :: int)"
  by (rule sum_list_mono)

lemma sum_list_floor_le [sum_laws]:
  "0 < d \<Longrightarrow> (\<Sum>x\<leftarrow>xs. f x div d) \<le> (\<Sum>x\<leftarrow>xs. f x) div (d::int)"
proof (induction xs)
  case (Cons x xs)
  then have "(f x div d + (\<Sum>x\<leftarrow>xs. f x div d)) * d \<le> f x + (\<Sum>x\<leftarrow>xs. f x)"
    using floor_mult_le [of d "f x"] floor_le_iff [of d "\<Sum>x\<leftarrow>xs. f x div d" "\<Sum>x\<leftarrow>xs. f x"]
    by (simp add: algebra_simps)
  then show ?case using Cons.prems by (simp add: floor_le_iff)
qed simp

lemma sum_list_filter_split [sum_laws]:
  "(\<Sum>x\<leftarrow>filter P xs. f x) + (\<Sum>x\<leftarrow>filter (\<lambda>x. \<not> P x) xs. f x) = (\<Sum>x\<leftarrow>xs. f x :: int)"
  by (induction xs) auto

lemma sum_list_filter_mono [sum_laws]:
  "(\<And>x. x \<in> set xs \<Longrightarrow> 0 \<le> f x) \<Longrightarrow> (\<And>x. x \<in> set xs \<Longrightarrow> P x \<Longrightarrow> Q x)
    \<Longrightarrow> (\<Sum>x\<leftarrow>filter P xs. f x) \<le> (\<Sum>x\<leftarrow>filter Q xs. f x :: int)"
  by (induction xs) (auto simp: add_increasing)

lemma member_le_sum_int [sum_laws]:
  "(\<And>x. x \<in> set xs \<Longrightarrow> 0 \<le> f x) \<Longrightarrow> x \<in> set xs \<Longrightarrow> f x \<le> (\<Sum>x\<leftarrow>xs. f x :: int)"
  by (induction xs) (auto intro: add_increasing add_increasing2 sum_list_nonneg_int)

lemma sum_list_mset_cong [sum_laws]:
  "mset xs = mset ys \<Longrightarrow> (\<Sum>x\<leftarrow>xs. f x) = (\<Sum>x\<leftarrow>ys. f x :: int)"
  by (metis mset_map sum_mset_sum_list)

section \<open>Array.sort\<close>

text \<open>
  \<^verbatim>\<open>Array.prototype.sort\<close> is stable and calls its comparator for the sign of the answer. Insertion
  from the right, each element before the first one it does not exceed, is that order for every
  comparator that is consistent on the elements it is given.
\<close>

fun js_insert :: "('a \<Rightarrow> 'a \<Rightarrow> int) \<Rightarrow> 'a \<Rightarrow> 'a list \<Rightarrow> 'a list" where
  "js_insert cmp x [] = [x]"
| "js_insert cmp x (y # ys) = (if cmp x y \<le> 0 then x # y # ys else y # js_insert cmp x ys)"

definition js_sort :: "('a \<Rightarrow> 'a \<Rightarrow> int) \<Rightarrow> 'a list \<Rightarrow> 'a list" where
  "js_sort cmp xs = foldr (js_insert cmp) xs []"

lemma mset_js_insert [simp]: "mset (js_insert cmp x xs) = add_mset x (mset xs)"
  by (induction xs) auto

lemma mset_js_sort [simp]: "mset (js_sort cmp xs) = mset xs"
  unfolding js_sort_def by (induction xs) auto

lemma set_js_sort [simp]: "set (js_sort cmp xs) = set xs"
  by (metis mset_js_sort set_mset_mset)

lemma length_js_sort [simp]: "length (js_sort cmp xs) = length xs"
  by (metis mset_js_sort size_mset)

lemma distinct_map_js_sort [simp]: "distinct (map f (js_sort cmp xs)) \<longleftrightarrow> distinct (map f xs)"
  by (metis mset_js_sort mset_map mset_eq_imp_distinct_iff)

lemma distinct_js_sort [simp]: "distinct (js_sort cmp xs) \<longleftrightarrow> distinct xs"
  by (metis mset_js_sort mset_eq_imp_distinct_iff)

lemma sum_js_sort [simp]: "(\<Sum>x\<leftarrow>js_sort cmp xs. f x) = (\<Sum>x\<leftarrow>xs. f x :: int)"
  by (rule sum_list_mset_cong) simp

text \<open>
  The interface a comparator offers its sort: it agrees with a linear key wherever two keys
  differ. What it answers on equal keys is left open, because several comparators of the code
  answer 1 there.
\<close>

locale keyed_comparator =
  fixes cmp :: "'a \<Rightarrow> 'a \<Rightarrow> int" and key :: "'a \<Rightarrow> 'k::linorder"
  assumes cmp_less: "key a < key b \<Longrightarrow> cmp a b \<le> 0"
    and cmp_greater: "key b < key a \<Longrightarrow> 0 < cmp a b"
begin

lemma sorted_insert: "sorted (map key xs) \<Longrightarrow> sorted (map key (js_insert cmp x xs))"
proof (induction xs)
  case (Cons y ys)
  have "set (map key (js_insert cmp x ys)) = insert (key x) (set (map key ys))"
    by (metis list.set_map mset_js_insert set_mset_add_mset_insert set_mset_mset image_insert)
  moreover have "cmp x y \<le> 0 \<Longrightarrow> key x \<le> key y" "\<not> cmp x y \<le> 0 \<Longrightarrow> key y \<le> key x"
    using cmp_less [of x y] cmp_greater [of y x] by (meson leI not_less)+
  ultimately show ?case using Cons by (auto intro: order_trans)
qed simp

lemma sorted_sort: "sorted (map key (js_sort cmp xs))"
  unfolding js_sort_def by (induction xs) (auto intro: sorted_insert)

lemma sort_unique:
  assumes "inj_on key (set xs)" and "mset ys = mset xs"
  shows "js_sort cmp ys = js_sort cmp xs"
proof (rule map_inj_on)
  show "map key (js_sort cmp ys) = map key (js_sort cmp xs)"
    by (metis assms(2) mset_js_sort mset_map properties_for_sort sorted_sort)
  show "inj_on key (set (js_sort cmp ys) \<union> set (js_sort cmp xs))"
    using assms by (metis set_js_sort set_mset_mset sup.idem)
qed

end

section \<open>Keeping the best of a list\<close>

text \<open>
  The loop \<^verbatim>\<open>for (x of xs) { if (!ok(x)) continue; const c = f(x); if (!best || better(c, best)) best = c; }\<close>.
\<close>

definition keep_better ::
  "('b \<Rightarrow> 'b \<Rightarrow> bool) \<Rightarrow> ('a \<Rightarrow> bool) \<Rightarrow> ('a \<Rightarrow> 'b) \<Rightarrow> 'b option \<Rightarrow> 'a \<Rightarrow> 'b option" where
  "keep_better better ok f best x =
     (if \<not> ok x then best
      else case best of None \<Rightarrow> Some (f x) | Some b \<Rightarrow> if better (f x) b then Some (f x) else best)"

locale keyed_preference =
  fixes better :: "'b \<Rightarrow> 'b \<Rightarrow> bool" and key :: "'b \<Rightarrow> 'k::linorder"
  assumes better_iff: "better a b \<longleftrightarrow> key a < key b"
begin

lemma keep_better_fold:
  assumes "foldl (keep_better better ok f) best xs = r"
  shows "(r = None \<longleftrightarrow> best = None \<and> (\<forall>x\<in>set xs. \<not> ok x))
    \<and> (\<forall>c. r = Some c \<longrightarrow> (best = Some c \<or> (\<exists>x\<in>set xs. ok x \<and> c = f x))
         \<and> (\<forall>b. best = Some b \<longrightarrow> key c \<le> key b) \<and> (\<forall>x\<in>set xs. ok x \<longrightarrow> key c \<le> key (f x)))"
  using assms
proof (induction xs arbitrary: best)
  case (Cons x xs)
  then have "foldl (keep_better better ok f) (keep_better better ok f best x) xs = r" by simp
  note IH = Cons.IH [OF this]
  show ?case
  proof (cases "ok x")
    case False
    then show ?thesis using IH by (simp add: keep_better_def)
  next
    case True
    then have kb: "keep_better better ok f best x = (case best of None \<Rightarrow> Some (f x)
        | Some b \<Rightarrow> if key (f x) < key b then Some (f x) else Some b)"
      by (simp add: keep_better_def better_iff split: option.splits)
    show ?thesis using IH True unfolding kb
      by (cases best) (auto split: if_splits intro: order_trans)
  qed
qed auto

lemma keep_better_best:
  assumes "foldl (keep_better better ok f) None xs = Some c"
  shows "\<exists>x\<in>set xs. ok x \<and> c = f x" "x \<in> set xs \<Longrightarrow> ok x \<Longrightarrow> key c \<le> key (f x)"
  using keep_better_fold [OF assms] by auto

lemma keep_better_none:
  "foldl (keep_better better ok f) None xs = None \<longleftrightarrow> (\<forall>x\<in>set xs. \<not> ok x)"
  using keep_better_fold [of ok f None xs] by auto

end

section \<open>The two binary searches\<close>

text \<open>
  \<open>search_least\<close> keeps the middle as its upper end when the predicate holds there,
  \<open>search_greatest\<close> as its lower end. The first is the loop of \<^verbatim>\<open>balancingPrice\<close>, the second
  the loop of \<^verbatim>\<open>getTickAtSqrtPrice\<close>.
\<close>

function search_least :: "(int \<Rightarrow> bool) \<Rightarrow> int \<Rightarrow> int \<Rightarrow> int" where
  "search_least p lo hi =
     (if lo < hi
      then let mid = (lo + hi) div 2
           in if p mid then search_least p lo mid else search_least p (mid + 1) hi
      else lo)"
  by pat_completeness auto
termination
  by (relation "measure (\<lambda>(p, lo, hi). nat (hi - lo))") auto

function search_greatest :: "(int \<Rightarrow> bool) \<Rightarrow> int \<Rightarrow> int \<Rightarrow> int" where
  "search_greatest q lo hi =
     (if lo < hi
      then let mid = (lo + hi + 1) div 2
           in if q mid then search_greatest q mid hi else search_greatest q lo (mid - 1)
      else lo)"
  by pat_completeness auto
termination
  by (relation "measure (\<lambda>(q, lo, hi). nat (hi - lo))") auto

declare search_least.simps [simp del] search_greatest.simps [simp del]

locale ascending =
  fixes p :: "int \<Rightarrow> bool" and bot top :: int
  assumes ascend: "bot \<le> x \<Longrightarrow> x \<le> y \<Longrightarrow> y \<le> top \<Longrightarrow> p x \<Longrightarrow> p y"
begin

lemma search_least_spec:
  "bot \<le> lo \<Longrightarrow> lo \<le> hi \<Longrightarrow> hi \<le> top \<Longrightarrow> p hi \<Longrightarrow> lo \<le> search_least p lo hi \<and> search_least p lo hi \<le> hi \<and> p (search_least p lo hi)
    \<and> (\<forall>x. lo \<le> x \<longrightarrow> x < search_least p lo hi \<longrightarrow> \<not> p x)"
proof (induction "nat (hi - lo)" arbitrary: lo hi rule: less_induct)
  case less
  show ?case
  proof (cases "lo < hi")
    case False
    then show ?thesis using less.prems by (simp add: search_least.simps [of p hi hi])
  next
    case True
    let ?m = "(lo + hi) div 2"
    have m: "lo \<le> ?m" "?m < hi" using True by auto
    show ?thesis
    proof (cases "p ?m")
      case True
      then show ?thesis using less.hyps [of ?m lo] less.prems m \<open>lo < hi\<close>
        by (simp add: search_least.simps [of p lo hi] Let_def)
    next
      case False
      have below: "\<not> p x" if "lo \<le> x" "x \<le> ?m" for x
        using that False ascend [of x ?m] less.prems m by auto
      show ?thesis using less.hyps [of hi "?m + 1"] less.prems m below False \<open>lo < hi\<close>
        by (simp add: search_least.simps [of p lo hi] Let_def) (smt (verit))
    qed
  qed
qed

end

locale descending =
  fixes q :: "int \<Rightarrow> bool" and bot top :: int
  assumes descend: "bot \<le> x \<Longrightarrow> x \<le> y \<Longrightarrow> y \<le> top \<Longrightarrow> q y \<Longrightarrow> q x"
begin

lemma search_greatest_spec:
  "bot \<le> lo \<Longrightarrow> lo \<le> hi \<Longrightarrow> hi \<le> top \<Longrightarrow> q lo \<Longrightarrow> lo \<le> search_greatest q lo hi \<and> search_greatest q lo hi \<le> hi
    \<and> q (search_greatest q lo hi) \<and> (\<forall>x. x \<le> hi \<longrightarrow> search_greatest q lo hi < x \<longrightarrow> \<not> q x)"
proof (induction "nat (hi - lo)" arbitrary: lo hi rule: less_induct)
  case less
  show ?case
  proof (cases "lo < hi")
    case False
    then show ?thesis using less.prems by (simp add: search_greatest.simps [of q hi hi])
  next
    case True
    let ?m = "(lo + hi + 1) div 2"
    have m: "lo < ?m" "?m \<le> hi" using True by auto
    show ?thesis
    proof (cases "q ?m")
      case True
      then show ?thesis using less.hyps [of hi ?m] less.prems m \<open>lo < hi\<close>
        by (auto simp: search_greatest.simps [of q lo hi] Let_def)
    next
      case False
      have above: "\<not> q x" if "?m \<le> x" "x \<le> hi" for x
        using that False descend [of ?m x] less.prems m by auto
      show ?thesis using less.hyps [of "?m - 1" lo] m above less.prems False \<open>lo < hi\<close>
        by (simp add: search_greatest.simps [of q lo hi] Let_def) (smt (verit))
    qed
  qed
qed

end

section \<open>Insertion ordered maps\<close>

text \<open>
  A JavaScript \<^verbatim>\<open>Map\<close> iterates in insertion order, and setting an existing key keeps its place.
  That is \<open>AList.update\<close>. Deleting is \<open>AList.delete\<close>, reading is \<open>map_of\<close>.
\<close>

lemma map_of_update [store_laws, simp]: "map_of (AList.update k v m) = (map_of m)(k \<mapsto> v)"
  by (rule update_conv')

lemma map_of_delete [store_laws, simp]: "map_of (AList.delete k m) = (map_of m)(k := None)"
  by (rule delete_conv')

lemma distinct_keys_update [store_laws]: "distinct (map fst m) \<Longrightarrow> distinct (map fst (AList.update k v m))"
  by (rule distinct_update)

lemma distinct_keys_delete [store_laws]: "distinct (map fst m) \<Longrightarrow> distinct (map fst (AList.delete k m))"
  by (rule distinct_delete)

lemma set_update_subset_insert: "set (AList.update k v m) \<subseteq> insert (k, v) (set m)"
  by (induction m) auto

lemma fst_set_update [store_laws]: "fst ` set (AList.update k v m) = insert k (fst ` set m)"
  by (induction m) auto

lemma distinct_keys_filter [store_laws]: "distinct (map fst m) \<Longrightarrow> distinct (map fst (filter P m))"
  by (rule distinct_map_filter)

lemma map_of_filter_key [store_laws]:
  "distinct (map fst m) \<Longrightarrow> map_of (filter P m) k = (case map_of m k of None \<Rightarrow> None
     | Some v \<Rightarrow> if P (k, v) then Some v else None)"
  by (induction m) (auto split: option.splits simp: map_of_eq_None_iff image_iff intro!: fst_conv)

section \<open>Reading an array\<close>

text \<open>
  \<^verbatim>\<open>xs[k]\<close> is \<^verbatim>\<open>undefined\<close> outside the array, so reading is partial. \<open>read_at\<close> is the read whose
  result is used as a number or an object at once, where \<^verbatim>\<open>undefined\<close> throws a TypeError.
\<close>

definition js_at :: "'a list \<Rightarrow> int \<Rightarrow> 'a option" where
  "js_at xs k = (if 0 \<le> k \<and> k < int (length xs) then Some (xs ! nat k) else None)"

definition read_at :: "'a list \<Rightarrow> nat \<Rightarrow> js_error + 'a" where
  "read_at xs k = (if k < length xs then Inr (xs ! k) else Inl TypeError)"

lemma js_at_Some_iff [simp]: "js_at xs k = Some x \<longleftrightarrow> 0 \<le> k \<and> nat k < length xs \<and> xs ! nat k = x"
  by (auto simp: js_at_def)

lemma js_at_None_iff [simp]: "js_at xs k = None \<longleftrightarrow> k < 0 \<or> length xs \<le> nat k"
  by (auto simp: js_at_def)

lemma read_at_Inr_iff [simp]: "read_at xs k = Inr x \<longleftrightarrow> k < length xs \<and> xs ! k = x"
  by (auto simp: read_at_def)

text \<open>\<^verbatim>\<open>Array.findIndex\<close>, with None for -1.\<close>

fun find_index :: "('a \<Rightarrow> bool) \<Rightarrow> 'a list \<Rightarrow> nat option" where
  "find_index P [] = None"
| "find_index P (x # xs) = (if P x then Some 0 else map_option Suc (find_index P xs))"

lemma find_index_Some: "find_index P xs = Some k \<Longrightarrow> k < length xs \<and> P (xs ! k) \<and> (\<forall>j<k. \<not> P (xs ! j))"
  by (induction xs arbitrary: k) (auto split: if_splits simp: less_Suc_eq_0_disj)

lemma find_index_None_iff: "find_index P xs = None \<longleftrightarrow> (\<forall>x\<in>set xs. \<not> P x)"
  by (induction xs) auto

text \<open>Adding to one cell of an array of BigInts.\<close>

lemma sum_list_bump [sum_laws]:
  "k < length xs \<Longrightarrow> sum_list (xs[k := xs ! k + d]) = sum_list xs + (d::int)"
  by (induction xs arbitrary: k) (auto split: nat.splits)

lemma sum_list_write [sum_laws]:
  "k < length xs \<Longrightarrow> sum_list (xs[k := v]) = sum_list xs - xs ! k + (v::int)"
  using sum_list_bump [of k xs "v - xs ! k"] by simp

end
