(* ===== verification/Solution.thy ===== *)
theory Solution
  imports Prelude
begin

text \<open>
  solver/src/solution.ts: the records a solution is made of, the place of a token in the
  solution's token list, and the canonical order of that list.
\<close>

type_synonym address = string
type_synonym hex = string

record intent =
  i_owner :: address
  i_receiver :: address
  i_sellToken :: address
  i_buyToken :: address
  i_sellAmount :: int
  i_minBuyAmount :: int
  i_validAfter :: int
  i_validUntil :: int
  i_flags :: int
  i_kind :: int
  i_maxDevFromRefBps :: int
  i_allowedSessions :: int
  i_batchSpan :: int
  i_nonce :: int

record execution =
  e_intentIndex :: int
  e_executedSell :: int
  e_executedBuy :: int

record venue_call =
  v_adapter :: address
  v_tokenIn :: address
  v_tokenOut :: address
  v_amountIn :: int
  v_minOut :: int

record solution =
  s_batchId :: int
  s_intents :: "intent list"
  s_signatures :: "hex list"
  s_tokens :: "address list"
  s_prices :: "int list"
  s_executions :: "execution list"
  s_venueCalls :: "venue_call list"
  s_baselineQuotes :: "int list"
  s_claimedSavings :: int
  s_solver :: address

text \<open>\<^verbatim>\<open>flags & PARTIAL_FILL\<close>, with PARTIAL_FILL the lowest bit.\<close>

definition partial_fill :: "int \<Rightarrow> bool" where
  "partial_fill flags \<longleftrightarrow> odd flags"

definition token_index :: "address list \<Rightarrow> address \<Rightarrow> js_error + nat" where
  "token_index tokens token =
     (case find_index (\<lambda>t. same t token) tokens of
        None \<Rightarrow> Inl (Thrown ''token is not in the solution's token list'')
      | Some k \<Rightarrow> Inr k)"

definition address_order :: "address \<Rightarrow> address \<Rightarrow> int" where
  "address_order a b = (if hex_value a < hex_value b then -1 else 1)"

definition other_tokens :: "intent list \<Rightarrow> address \<Rightarrow> (string \<times> address) list" where
  "other_tokens intents quote =
     foldl (\<lambda>others t. if same t quote then others else AList.update (lower t) t others) []
       (concat (map (\<lambda>i. [i_sellToken i, i_buyToken i]) intents))"

definition order_tokens :: "intent list \<Rightarrow> address \<Rightarrow> address list" where
  "order_tokens intents quote = quote # js_sort address_order (map snd (other_tokens intents quote))"

text \<open>
  \<^verbatim>\<open>encodePacked\<close> belongs to viem, so the two packings take the encoder of one row as a
  parameter and only the concatenation is modelled.
\<close>

definition concat_hex :: "hex list \<Rightarrow> hex" where
  "concat_hex parts = ''0x'' @ concat (map (drop 2) parts)"

definition pack_intents ::
  "(nat \<Rightarrow> nat \<Rightarrow> int \<Rightarrow> int \<Rightarrow> int \<Rightarrow> hex) \<Rightarrow> intent list \<Rightarrow> address list \<Rightarrow> js_error + hex" where
  "pack_intents encode intents tokens =
     bindE (mapE (\<lambda>i. bindE (token_index tokens (i_sellToken i)) (\<lambda>s.
              bindE (token_index tokens (i_buyToken i)) (\<lambda>b.
                Inr (encode s b (i_flags i) (i_sellAmount i) (i_minBuyAmount i))))) intents)
       (\<lambda>parts. Inr (concat_hex parts))"

definition pack_executions :: "(int \<Rightarrow> int \<Rightarrow> int \<Rightarrow> hex) \<Rightarrow> execution list \<Rightarrow> hex" where
  "pack_executions encode executions =
     concat_hex (map (\<lambda>e. encode (e_intentIndex e) (e_executedSell e) (e_executedBuy e)) executions)"

section \<open>The place of a token\<close>

lemma token_index_Inr:
  assumes "token_index tokens t = Inr k"
  shows "k < length tokens" "same (tokens ! k) t" "\<forall>j<k. \<not> same (tokens ! j) t"
  using assms find_index_Some [of "\<lambda>u. same u t" tokens k]
  by (auto simp: token_index_def split: option.splits)

lemma token_index_total: "\<exists>u\<in>set tokens. same u t \<Longrightarrow> \<exists>k. token_index tokens t = Inr k"
  using find_index_None_iff [of "\<lambda>u. same u t" tokens]
  by (auto simp: token_index_def split: option.splits)

lemma token_index_unique:
  assumes "distinct (map lower tokens)" "k < length tokens" "same (tokens ! k) t"
  shows "token_index tokens t = Inr k"
proof -
  obtain j where j: "token_index tokens t = Inr j"
    using token_index_total assms(2,3) nth_mem by blast
  have "map lower tokens ! j = map lower tokens ! k"
    using token_index_Inr [OF j] assms by (simp add: same_def)
  then have "j = k"
    using assms token_index_Inr [OF j] by (metis length_map nth_eq_iff_index_eq)
  then show ?thesis using j by simp
qed

section \<open>The order of the token list\<close>

lemma other_tokens_fold:
  assumes "\<forall>(k, t)\<in>set m. k = lower t \<and> \<not> same t quote" "distinct (map fst m)"
  shows "(\<forall>(k, t)\<in>set (foldl (\<lambda>m t. if same t quote then m else AList.update (lower t) t m) m ts).
           k = lower t \<and> \<not> same t quote)
    \<and> distinct (map fst (foldl (\<lambda>m t. if same t quote then m else AList.update (lower t) t m) m ts))
    \<and> fst ` set (foldl (\<lambda>m t. if same t quote then m else AList.update (lower t) t m) m ts)
        = fst ` set m \<union> lower ` {t\<in>set ts. \<not> same t quote}"
  using assms
proof (induction ts arbitrary: m)
  case (Cons t ts)
  show ?case
  proof (cases "same t quote")
    case True
    then show ?thesis using Cons.IH [of m] Cons.prems by auto
  next
    case False
    let ?m = "AList.update (lower t) t m"
    have "\<forall>(k, u)\<in>set ?m. k = lower u \<and> \<not> same u quote"
      using set_update_subset_insert [of "lower t" t m] Cons.prems(1) False by fastforce
    moreover have "distinct (map fst ?m)" using Cons.prems(2) by (rule distinct_keys_update)
    moreover have "fst ` set ?m = insert (lower t) (fst ` set m)"
      by (rule fst_set_update)
    ultimately show ?thesis using Cons.IH [of ?m] False by auto
  qed
qed auto

abbreviation tokens_named :: "intent list \<Rightarrow> address list" where
  "tokens_named intents \<equiv> concat (map (\<lambda>i. [i_sellToken i, i_buyToken i]) intents)"

lemma other_tokens_keys: "(k, t) \<in> set (other_tokens intents quote) \<Longrightarrow> k = lower t \<and> \<not> same t quote"
  using other_tokens_fold [of "[]" quote "tokens_named intents"] unfolding other_tokens_def by auto

lemma other_tokens_distinct: "distinct (map fst (other_tokens intents quote))"
  using other_tokens_fold [of "[]" quote "tokens_named intents"] unfolding other_tokens_def by simp

lemma other_tokens_dom:
  "fst ` set (other_tokens intents quote) = lower ` {t\<in>set (tokens_named intents). \<not> same t quote}"
  using other_tokens_fold [of "[]" quote "tokens_named intents"] unfolding other_tokens_def by simp

lemma fst_other_tokens: "map fst (other_tokens intents quote) = map lower (map snd (other_tokens intents quote))"
  using other_tokens_keys by (auto simp: comp_def)

lemma order_tokens_distinct: "distinct (map lower (order_tokens intents quote))"
proof -
  have "lower quote \<notin> lower ` set (map snd (other_tokens intents quote))"
    using other_tokens_keys by (fastforce simp: same_def)
  then show ?thesis
    using other_tokens_distinct [of intents quote] fst_other_tokens [of intents quote]
    by (simp add: order_tokens_def)
qed

lemma order_tokens_complete:
  assumes "t \<in> set (tokens_named intents) \<or> same t quote"
  shows "\<exists>u\<in>set (order_tokens intents quote). same u t"
proof (cases "same t quote")
  case True
  then show ?thesis by (auto simp: order_tokens_def intro: same_sym)
next
  case False
  then have "lower t \<in> fst ` set (other_tokens intents quote)"
    using assms other_tokens_dom by blast
  then obtain u where "(lower t, u) \<in> set (other_tokens intents quote)" by auto
  then show ?thesis
    using other_tokens_keys by (force simp: order_tokens_def same_def)
qed

interpretation by_address: keyed_comparator address_order hex_value
  by unfold_locales (auto simp: address_order_def)

lemma order_tokens_sorted:
  "order_tokens intents quote = quote # rest \<Longrightarrow> sorted (map hex_value rest)"
  by (auto simp: order_tokens_def by_address.sorted_sort)

end
