(* ===== verification/SolverMath.thy ===== *)
theory SolverMath
  imports Solution
begin

text \<open>
  solver/src/math.ts: the contracts' predicates and sums, floor for floor. The lemmas read the
  predicates as intervals, give the loops over arrays their closed sums, and bound the savings
  a solution claims.
\<close>

definition WAD :: int where "WAD = 10 ^ 18"
definition BPS :: int where "BPS = 10000"
definition FEE_CAP_SHARE_BPS :: int where "FEE_CAP_SHARE_BPS = 2000"
definition FEE_CAP_NOTIONAL_BPS :: int where "FEE_CAP_NOTIONAL_BPS = 3"

lemma WAD_pos [simp]: "0 < WAD" "0 \<le> WAD" "WAD \<noteq> 0"
  by (simp_all add: WAD_def)

lemma BPS_pos [simp]: "0 < BPS" "0 \<le> BPS" "BPS \<noteq> 0"
  by (simp_all add: BPS_def)

section \<open>The predicates\<close>

definition limit_respected :: "int \<Rightarrow> int \<Rightarrow> int \<Rightarrow> int \<Rightarrow> bool" where
  "limit_respected executedBuy sellAmount minBuyAmount executedSell
     \<longleftrightarrow> executedBuy * sellAmount \<ge> minBuyAmount * executedSell"

definition fee_within_band :: "int \<Rightarrow> int \<Rightarrow> int \<Rightarrow> bool" where
  "fee_within_band valueIn valueOut maxFeeBps =
     (if valueOut > valueIn then False
      else (valueIn - valueOut) * BPS \<le> valueIn * maxFeeBps)"

definition within_band :: "int \<Rightarrow> int \<Rightarrow> int \<Rightarrow> bool" where
  "within_band price ref maxDeviationBps =
     (let diff = (if price > ref then price - ref else ref - price)
      in diff * BPS \<le> ref * maxDeviationBps)"

definition conserved :: "int \<Rightarrow> int \<Rightarrow> int \<Rightarrow> int" where
  "conserved pulled venueDelta delivered = pulled + venueDelta - delivered"

definition fee_cap :: "int \<Rightarrow> int \<Rightarrow> int \<Rightarrow> int \<Rightarrow> int" where
  "fee_cap surplusUsd notionalUsd shareBps notionalBps =
     (let byShare = (surplusUsd * shareBps) sdiv BPS;
          byNotional = (notionalUsd * notionalBps) sdiv BPS
      in if byShare < byNotional then byShare else byNotional)"

definition uniform_price_holds :: "int \<Rightarrow> int \<Rightarrow> int \<Rightarrow> int \<Rightarrow> int \<Rightarrow> bool" where
  "uniform_price_holds executedSell executedBuy sellPrice buyPrice maxFeeBps =
     fee_within_band (executedSell * sellPrice) (executedBuy * buyPrice) maxFeeBps"

lemma within_band_iff:
  "within_band price ref dev \<longleftrightarrow> ref - ref * dev div BPS \<le> price \<and> price \<le> ref + ref * dev div BPS"
proof -
  have "within_band price ref dev \<longleftrightarrow>
      (price - ref) * BPS \<le> ref * dev \<and> (ref - price) * BPS \<le> ref * dev"
  proof (cases "price > ref")
    case True
    have "(ref - price) * BPS \<le> (price - ref) * BPS" using True by (intro mult_right_mono) simp_all
    moreover have "within_band price ref dev \<longleftrightarrow> (price - ref) * BPS \<le> ref * dev"
      using True by (simp only: within_band_def Let_def if_True)
    ultimately show ?thesis by (meson order_trans)
  next
    case False
    have "(price - ref) * BPS \<le> (ref - price) * BPS" using False by (intro mult_right_mono) simp_all
    moreover have "within_band price ref dev \<longleftrightarrow> (ref - price) * BPS \<le> ref * dev"
      using False by (simp only: within_band_def Let_def if_False)
    ultimately show ?thesis by (meson order_trans)
  qed
  also have "\<dots> \<longleftrightarrow> price - ref \<le> ref * dev div BPS \<and> ref - price \<le> ref * dev div BPS"
    by (simp only: floor_le_iff [OF BPS_pos(1)])
  finally show ?thesis by auto
qed

lemma fee_within_band_value: "fee_within_band vin vout fee \<Longrightarrow> vout \<le> vin"
  by (simp add: fee_within_band_def split: if_splits)

section \<open>raiseToFloor\<close>

definition room_order :: "int list \<Rightarrow> int list \<Rightarrow> nat \<Rightarrow> nat \<Rightarrow> int" where
  "room_order executedBuys out a b =
     (let d = executedBuys ! b - out ! b - (executedBuys ! a - out ! a)
      in if d > 0 then 1 else if d < 0 then -1 else int a - int b)"

definition raise_step :: "int list \<Rightarrow> int list \<times> int \<Rightarrow> nat \<Rightarrow> int list \<times> int" where
  "raise_step executedBuys acc k =
     (case acc of (out, short) \<Rightarrow>
        if short \<le> 0 then (out, short)
        else let room = executedBuys ! k - out ! k;
                 add = (if room < short then room else short)
             in if add > 0 then (out[k := out ! k + add], short - add) else (out, short))"

definition raise_to_floor :: "int list \<Rightarrow> int list \<Rightarrow> int \<Rightarrow> js_error + int list option" where
  "raise_to_floor baselines executedBuys floor =
     (let out = baselines;
          short = floor - sum_list out
      in if length executedBuys < length out \<and> (2 \<le> length out \<or> 0 < short) then Inl TypeError
         else let byRoom = js_sort (room_order executedBuys out) [0..<length out];
                  (out', short') = foldl (raise_step executedBuys) (out, short) byRoom
              in Inr (if short' > 0 then None else Some out'))"

text \<open>
  One step writes only the place it is at, never past the executed amount, and moves what it
  adds from the shortfall to the sum.
\<close>

lemma raise_step_cases:
  assumes "raise_step es (out, short) k = (out', short')" "k < length out"
  shows "length out' = length out" "sum_list out' + short' = sum_list out + short"
    "\<forall>j. j \<noteq> k \<longrightarrow> out' ! j = out ! j" "out ! k \<le> out' ! k"
    "out' ! k \<le> max (out ! k) (es ! k)"
    "0 < short' \<Longrightarrow> out' ! k = max (out ! k) (es ! k)" "short' \<le> short" "0 \<le> short \<Longrightarrow> 0 \<le> short'"
  using assms by (auto simp: raise_step_def Let_def sum_list_write split: if_splits)

lemma raise_fold:
  assumes "distinct ks" "\<forall>k\<in>set ks. k < length out" "length es \<ge> length out"
    "foldl (raise_step es) (out, short) ks = (out', short')"
  shows "length out' = length out \<and> sum_list out' + short' = sum_list out + short
    \<and> (\<forall>j. j \<notin> set ks \<longrightarrow> out' ! j = out ! j)
    \<and> (\<forall>j\<in>set ks. out ! j \<le> out' ! j \<and> out' ! j \<le> max (out ! j) (es ! j))
    \<and> (0 < short' \<longrightarrow> (\<forall>j\<in>set ks. out' ! j = max (out ! j) (es ! j)))
    \<and> short' \<le> short \<and> (0 \<le> short \<longrightarrow> 0 \<le> short')"
  using assms
proof (induction ks arbitrary: out short)
  case (Cons k ks)
  obtain o1 s1 where step: "raise_step es (out, short) k = (o1, s1)" by (cases "raise_step es (out, short) k")
  note one = raise_step_cases [OF step]
  have k: "k < length out" "k \<notin> set ks" using Cons.prems by auto
  have rest: "foldl (raise_step es) (o1, s1) ks = (out', short')" using Cons.prems(4) step by simp
  have "length out' = length o1 \<and> sum_list out' + short' = sum_list o1 + s1
    \<and> (\<forall>j. j \<notin> set ks \<longrightarrow> out' ! j = o1 ! j)
    \<and> (\<forall>j\<in>set ks. o1 ! j \<le> out' ! j \<and> out' ! j \<le> max (o1 ! j) (es ! j))
    \<and> (0 < short' \<longrightarrow> (\<forall>j\<in>set ks. out' ! j = max (o1 ! j) (es ! j)))
    \<and> short' \<le> s1 \<and> (0 \<le> s1 \<longrightarrow> 0 \<le> short')"
    using Cons.prems one(1) [OF k(1)] rest by (intro Cons.IH) auto
  moreover have "o1 ! j = out ! j" if "j \<in> set ks" for j
    using that k(2) one(3) [OF k(1)] by auto
  ultimately show ?case using one [OF k(1)] k(2) by auto
qed simp

text \<open>The places raiseToFloor visits are all places, each once.\<close>

lemma raise_to_floor_spec:
  assumes "length es = length bs" and "raise_to_floor bs es fl = Inr r"
  shows "case r of
      None \<Rightarrow> sum_list bs + (\<Sum>k\<leftarrow>[0..<length bs]. max 0 (es ! k - bs ! k)) < fl
    | Some out \<Rightarrow> length out = length bs \<and> sum_list out = max fl (sum_list bs)
        \<and> (\<forall>k<length bs. bs ! k \<le> out ! k \<and> out ! k \<le> max (bs ! k) (es ! k))"
proof -
  let ?ks = "js_sort (room_order es bs) [0..<length bs]"
  obtain out short where f: "foldl (raise_step es) (bs, fl - sum_list bs) ?ks = (out, short)"
    by (cases "foldl (raise_step es) (bs, fl - sum_list bs) ?ks")
  have r: "r = (if short > 0 then None else Some out)"
    using assms f by (simp add: raise_to_floor_def Let_def)
  note fold = raise_fold [of ?ks bs es "fl - sum_list bs" out short]
  have spec: "length out = length bs \<and> sum_list out + short = fl
    \<and> (\<forall>j<length bs. bs ! j \<le> out ! j \<and> out ! j \<le> max (bs ! j) (es ! j))
    \<and> (0 < short \<longrightarrow> (\<forall>j<length bs. out ! j = max (bs ! j) (es ! j)))
    \<and> short \<le> fl - sum_list bs \<and> (0 \<le> fl - sum_list bs \<longrightarrow> 0 \<le> short)"
    using fold f assms(1) by auto
  show ?thesis
  proof (cases "short > 0")
    case True
    have "out = map (\<lambda>k. bs ! k + max 0 (es ! k - bs ! k)) [0..<length bs]"
      using True spec by (intro nth_equalityI) (auto simp: max_def)
    moreover have "(\<Sum>k\<leftarrow>[0..<length bs]. bs ! k) = sum_list bs"
      by (simp add: map_nth)
    ultimately have "sum_list out = sum_list bs + (\<Sum>k\<leftarrow>[0..<length bs]. max 0 (es ! k - bs ! k))"
      by (simp add: sum_list_addf)
    then show ?thesis using True spec r by simp
  next
    case False
    show ?thesis
    proof (cases "0 \<le> fl - sum_list bs")
      case True
      then show ?thesis using False spec r by auto
    next
      case neg: False
      have "foldl (raise_step es) (bs, s) ks = (bs, s)" if "s \<le> 0" for s ks
        using that by (induction ks) (auto simp: raise_step_def)
      then have "out = bs" using f neg by simp
      then show ?thesis using neg r False by auto
    qed
  qed
qed

lemma raise_to_floor_total: "length es = length bs \<Longrightarrow> \<exists>r. raise_to_floor bs es fl = Inr r"
  by (auto simp: raise_to_floor_def Let_def split: prod.splits)

section \<open>claimedSavings\<close>

definition execution_savings ::
  "int list \<Rightarrow> int list \<Rightarrow> intent list \<Rightarrow> address list \<Rightarrow> nat \<times> execution \<Rightarrow> js_error + int" where
  "execution_savings baselineQuotes prices intents tokens ke =
     (case ke of (k, e) \<Rightarrow>
        case js_at intents (e_intentIndex e) of
          None \<Rightarrow> Inl (Thrown ''execution names an intent which does not exist'')
        | Some i \<Rightarrow>
            bindE (read_at baselineQuotes k) (\<lambda>baseline.
              if e_executedBuy e < baseline
              then Inl (Thrown ''execution is worse than its baseline, WorseThanBaseline'')
              else bindE (token_index tokens (i_buyToken i)) (\<lambda>t.
                     bindE (read_at prices t) (\<lambda>price.
                       Inr ((e_executedBuy e - baseline) * price sdiv WAD)))))"

definition claimed_savings ::
  "execution list \<Rightarrow> int list \<Rightarrow> int list \<Rightarrow> intent list \<Rightarrow> address list \<Rightarrow> js_error + int" where
  "claimed_savings executions baselineQuotes prices intents tokens =
     (if length executions \<noteq> length baselineQuotes then Inl (Thrown ''one baseline per execution'')
      else foldE (\<lambda>savings ke. bindE (execution_savings baselineQuotes prices intents tokens ke)
                    (\<lambda>usd. Inr (savings + usd)))
             0 (enumerate 0 executions))"

lemma execution_savings_Inr:
  assumes "execution_savings bs ps is ts (k, e) = Inr v"
  obtains i t where "js_at is (e_intentIndex e) = Some i" "token_index ts (i_buyToken i) = Inr t"
    "t < length ps" "k < length bs" "bs ! k \<le> e_executedBuy e"
    "v = (e_executedBuy e - bs ! k) * ps ! t sdiv WAD"
  using assms by (auto simp: execution_savings_def split: option.splits if_splits)

lemma claimed_savings_sum:
  "claimed_savings es bs ps is ts = Inr s \<longleftrightarrow>
     length es = length bs
     \<and> (\<exists>vs. mapE (execution_savings bs ps is ts) (enumerate 0 es) = Inr vs \<and> s = sum_list vs)"
  by (auto simp: claimed_savings_def foldE_sum)

section \<open>Conservation\<close>

definition venue_step :: "address list \<Rightarrow> int list \<Rightarrow> venue_call \<Rightarrow> js_error + int list" where
  "venue_step tokens deltas call =
     bindE (token_index tokens (v_tokenIn call)) (\<lambda>a.
       let deltas = deltas[a := deltas ! a - v_amountIn call] in
       bindE (token_index tokens (v_tokenOut call)) (\<lambda>b.
         Inr (deltas[b := deltas ! b + v_minOut call])))"

definition venue_deltas :: "venue_call list \<Rightarrow> address list \<Rightarrow> js_error + int list" where
  "venue_deltas venueCalls tokens = foldE (venue_step tokens) (map (\<lambda>_. 0) tokens) venueCalls"

definition conservation_step ::
  "intent list \<Rightarrow> address list \<Rightarrow> int list \<times> int list \<Rightarrow> execution \<Rightarrow> js_error + int list \<times> int list" where
  "conservation_step intents tokens acc e =
     (case acc of (pulled, delivered) \<Rightarrow>
        case js_at intents (e_intentIndex e) of
          None \<Rightarrow> Inl TypeError
        | Some i \<Rightarrow>
            bindE (token_index tokens (i_sellToken i)) (\<lambda>a.
              bindE (token_index tokens (i_buyToken i)) (\<lambda>b.
                Inr (pulled[a := pulled ! a + e_executedSell e],
                     delivered[b := delivered ! b + e_executedBuy e]))))"

definition conservation ::
  "intent list \<Rightarrow> execution list \<Rightarrow> venue_call list \<Rightarrow> address list \<Rightarrow> js_error + int list" where
  "conservation intents executions venueCalls tokens =
     bindE (foldE (conservation_step intents tokens) (map (\<lambda>_. 0) tokens, map (\<lambda>_. 0) tokens) executions)
       (\<lambda>(pulled, delivered).
         bindE (venue_deltas venueCalls tokens) (\<lambda>deltas.
           Inr (map (\<lambda>t. conserved (pulled ! t) (deltas ! t) (delivered ! t)) [0..<length tokens])))"

text \<open>What the executions and the venue calls move of one token, as sums.\<close>

definition sold_of :: "intent list \<Rightarrow> address list \<Rightarrow> nat \<Rightarrow> execution \<Rightarrow> int" where
  "sold_of intents tokens t e =
     (case js_at intents (e_intentIndex e) of
        None \<Rightarrow> 0
      | Some i \<Rightarrow> if token_index tokens (i_sellToken i) = Inr t then e_executedSell e else 0)"

definition bought_of :: "intent list \<Rightarrow> address list \<Rightarrow> nat \<Rightarrow> execution \<Rightarrow> int" where
  "bought_of intents tokens t e =
     (case js_at intents (e_intentIndex e) of
        None \<Rightarrow> 0
      | Some i \<Rightarrow> if token_index tokens (i_buyToken i) = Inr t then e_executedBuy e else 0)"

definition routed_of :: "address list \<Rightarrow> nat \<Rightarrow> venue_call \<Rightarrow> int" where
  "routed_of tokens t call =
     (if token_index tokens (v_tokenOut call) = Inr t then v_minOut call else 0)
     - (if token_index tokens (v_tokenIn call) = Inr t then v_amountIn call else 0)"

lemma venue_step_nth:
  assumes "venue_step ts ds c = Inr ds'" "length ds = length ts" "t < length ts"
  shows "length ds' = length ts" "ds' ! t = ds ! t + routed_of ts t c"
  using assms by (auto simp: venue_step_def Let_def routed_of_def nth_list_update dest: token_index_Inr)

lemma venue_fold_nth:
  assumes "foldE (venue_step ts) ds cs = Inr ds'" "length ds = length ts" "t < length ts"
  shows "ds' ! t = ds ! t + (\<Sum>c\<leftarrow>cs. routed_of ts t c)"
  using assms
proof (induction cs arbitrary: ds)
  case (Cons c cs)
  then obtain d where d: "venue_step ts ds c = Inr d" "foldE (venue_step ts) d cs = Inr ds'" by auto
  then show ?case using Cons.IH [of d] Cons.prems venue_step_nth [OF d(1)] by simp
qed simp

lemma conservation_step_nth:
  assumes "conservation_step is ts (p, d) e = Inr (p', d')" "length p = length ts" "length d = length ts"
    "t < length ts"
  shows "length p' = length ts" "length d' = length ts"
    "p' ! t = p ! t + sold_of is ts t e" "d' ! t = d ! t + bought_of is ts t e"
  using assms by (auto simp: conservation_step_def sold_of_def bought_of_def nth_list_update
      dest: token_index_Inr split: option.splits)

lemma conservation_fold_nth:
  assumes "foldE (conservation_step is ts) (p, d) es = Inr (p', d')"
    "length p = length ts" "length d = length ts" "t < length ts"
  shows "p' ! t = p ! t + (\<Sum>e\<leftarrow>es. sold_of is ts t e) \<and> d' ! t = d ! t + (\<Sum>e\<leftarrow>es. bought_of is ts t e)"
  using assms
proof (induction es arbitrary: p d)
  case (Cons e es)
  then obtain p1 d1 where s: "conservation_step is ts (p, d) e = Inr (p1, d1)"
    "foldE (conservation_step is ts) (p1, d1) es = Inr (p', d')" by auto
  then show ?case using Cons.IH [of p1 d1] Cons.prems conservation_step_nth [OF s(1)] by simp
qed simp

lemma conservation_nth:
  assumes "conservation is es cs ts = Inr c" "t < length ts"
  shows "length c = length ts"
    "c ! t = (\<Sum>e\<leftarrow>es. sold_of is ts t e) + (\<Sum>x\<leftarrow>cs. routed_of ts t x) - (\<Sum>e\<leftarrow>es. bought_of is ts t e)"
proof -
  obtain p d v where f: "foldE (conservation_step is ts) (map (\<lambda>_. 0) ts, map (\<lambda>_. 0) ts) es = Inr (p, d)"
    "foldE (venue_step ts) (map (\<lambda>_. 0) ts) cs = Inr v"
    "c = map (\<lambda>t. conserved (p ! t) (v ! t) (d ! t)) [0..<length ts]"
    using assms(1) by (auto simp: conservation_def venue_deltas_def)
  show "length c = length ts" using f(3) by simp
  show "c ! t = (\<Sum>e\<leftarrow>es. sold_of is ts t e) + (\<Sum>x\<leftarrow>cs. routed_of ts t x) - (\<Sum>e\<leftarrow>es. bought_of is ts t e)"
    using conservation_fold_nth [OF f(1)] venue_fold_nth [OF f(2)] f(3) assms(2)
    by (simp add: conserved_def)
qed

section \<open>Exposure\<close>

record exposure =
  x_notionalUsd :: int
  x_perToken :: "int list"

definition exposure_step ::
  "intent list \<Rightarrow> address list \<Rightarrow> int list \<Rightarrow> int \<times> int list \<Rightarrow> execution \<Rightarrow> js_error + int \<times> int list" where
  "exposure_step intents tokens prices acc e =
     (case acc of (notionalUsd, perToken) \<Rightarrow>
        case js_at intents (e_intentIndex e) of
          None \<Rightarrow> Inl TypeError
        | Some i \<Rightarrow>
            bindE (token_index tokens (i_sellToken i)) (\<lambda>t.
              bindE (read_at prices t) (\<lambda>price.
                let usd = e_executedSell e * price sdiv WAD
                in Inr (notionalUsd + usd, perToken[t := perToken ! t + usd]))))"

definition exposure_notional ::
  "intent list \<Rightarrow> execution list \<Rightarrow> address list \<Rightarrow> int list \<Rightarrow> js_error + exposure" where
  "exposure_notional intents executions tokens prices =
     bindE (foldE (exposure_step intents tokens prices) (0, map (\<lambda>_. 0) tokens) executions)
       (\<lambda>(notionalUsd, perToken). Inr \<lparr>x_notionalUsd = notionalUsd, x_perToken = perToken\<rparr>)"

lemma exposure_step_sum:
  assumes "exposure_step is ts ps (n, p) e = Inr (n', p')" "length p = length ts" "n = sum_list p"
  shows "length p' = length ts" "n' = sum_list p'"
proof -
  obtain i :: intent and t where "token_index ts (i_sellToken i) = Inr t"
    "n' = n + e_executedSell e * ps ! t sdiv WAD" "p' = p[t := p ! t + e_executedSell e * ps ! t sdiv WAD]"
    using assms(1) by (simp add: exposure_step_def Let_def split: option.splits) metis
  then show "length p' = length ts" "n' = sum_list p'"
    using assms(2,3) token_index_Inr(1) [of ts "i_sellToken i" t] by (simp_all add: sum_list_bump)
qed

lemma exposure_notional_sum:
  assumes "exposure_notional is es ts ps = Inr x"
  shows "x_notionalUsd x = sum_list (x_perToken x)" "length (x_perToken x) = length ts"
proof -
  obtain n p where f: "foldE (exposure_step is ts ps) (0, map (\<lambda>_. 0) ts) es = Inr (n, p)"
    "x = \<lparr>x_notionalUsd = n, x_perToken = p\<rparr>"
    using assms by (auto simp: exposure_notional_def)
  have "(\<lambda>(n, p). length p = length ts \<and> n = sum_list p) (n, p)"
    by (rule foldE_inv [OF f(1)]) (auto dest: exposure_step_sum)
  then show "x_notionalUsd x = sum_list (x_perToken x)" "length (x_perToken x) = length ts"
    using f(2) by simp_all
qed

definition cap_scale :: "int \<Rightarrow> int" where
  "cap_scale session = (if session = 6 \<or> session = 7 \<or> session = 8 then 1 else 2)"

record exposure_state =
  capPerBatchUsd :: int
  capPerTokenDailyUsd :: int
  capGlobalDailyUsd :: int
  globalToday :: int
  perTokenToday :: "int list"

text \<open>The three messages exposureViolations pushes, with the numbers each one prints.\<close>

datatype violation = OverBatch int int | OverGlobal int int | OverToken nat int int

definition exposure_violations :: "exposure \<Rightarrow> int \<Rightarrow> exposure_state \<Rightarrow> violation list" where
  "exposure_violations x session state =
     (let scale = cap_scale session;
          batchCap = capPerBatchUsd state * scale sdiv 2;
          global = globalToday state + x_notionalUsd x;
          globalCap = capGlobalDailyUsd state * scale sdiv 2;
          tokenCap = capPerTokenDailyUsd state * scale sdiv 2
      in (if x_notionalUsd x > batchCap then [OverBatch (x_notionalUsd x) batchCap] else [])
       @ (if global > globalCap then [OverGlobal global globalCap] else [])
       @ concat (map (\<lambda>(t, usd).
            let spent = (case js_at (perTokenToday state) (int t) of None \<Rightarrow> 0 | Some v \<Rightarrow> v) + usd
            in if spent > tokenCap then [OverToken t spent tokenCap] else [])
          (enumerate 0 (x_perToken x))))"

end
