(* ===== verification/ClearingPrice.thy ===== *)
theory ClearingPrice
  imports SolverMath
begin

text \<open>
  The first half of solver/src/clearing.ts: intents split into pairs, the session band as an
  interval of pair prices, executable volume at a price, and the clearing price. The lemmas show
  that the band edges are exact, that the candidate prices carry the volume of the whole band,
  and that the choice among candidates is the least of a linear key.
\<close>

record book_entry =
  b_index :: nat
  b_intent :: intent

record pair =
  p_base :: address
  p_quote :: address
  p_entries :: "book_entry list"

record reference =
  r_quotePrice :: int
  r_basePrice :: int
  r_maxDeviationBps :: int

section \<open>Pairs\<close>

definition pairs_step ::
  "address \<Rightarrow> (string \<times> pair) list \<times> nat list \<Rightarrow> nat \<times> intent \<Rightarrow> (string \<times> pair) list \<times> nat list" where
  "pairs_step quote acc ix =
     (case (acc, ix) of ((byBase, unsupported), (index, intent)) \<Rightarrow>
        let sellsQuote = same (i_sellToken intent) quote;
            buysQuote = same (i_buyToken intent) quote
        in if sellsQuote = buysQuote then (byBase, unsupported @ [index])
           else let base = (if sellsQuote then i_buyToken intent else i_sellToken intent);
                    pair = (case map_of byBase (lower base) of
                              Some p \<Rightarrow> p
                            | None \<Rightarrow> \<lparr>p_base = base, p_quote = quote, p_entries = []\<rparr>);
                    pair' = pair\<lparr>p_entries := p_entries pair @ [\<lparr>b_index = index, b_intent = intent\<rparr>]\<rparr>
                in (AList.update (lower base) pair' byBase, unsupported))"

definition pair_order :: "pair \<Rightarrow> pair \<Rightarrow> int" where
  "pair_order a b = (if hex_value (p_base a) < hex_value (p_base b) then -1 else 1)"

definition pairs_of :: "intent list \<Rightarrow> address \<Rightarrow> pair list \<times> nat list" where
  "pairs_of intents quote =
     (let (byBase, unsupported) = foldl (pairs_step quote) ([], []) (enumerate 0 intents)
      in (js_sort pair_order (map snd byBase), unsupported))"

section \<open>The band\<close>

definition base_unit_price :: "int \<Rightarrow> reference \<Rightarrow> int" where
  "base_unit_price p ref = p * r_quotePrice ref sdiv WAD"

definition in_band :: "int \<Rightarrow> reference \<Rightarrow> bool" where
  "in_band p ref = within_band (base_unit_price p ref) (r_basePrice ref) (r_maxDeviationBps ref)"

definition reference_pair_price :: "reference \<Rightarrow> js_error + int" where
  "reference_pair_price ref =
     (if r_quotePrice ref = 0 then Inl RangeError
      else Inr (r_basePrice ref * WAD sdiv r_quotePrice ref))"

text \<open>\<^verbatim>\<open>for (let n = 0; n < 4 && cond(x); n += 1) x += d\<close>\<close>

fun adjust :: "nat \<Rightarrow> (int \<Rightarrow> bool) \<Rightarrow> int \<Rightarrow> int \<Rightarrow> int" where
  "adjust 0 cond d x = x"
| "adjust (Suc n) cond d x = (if cond x then adjust n cond d (x + d) else x)"

definition band_edges :: "reference \<Rightarrow> js_error + (int \<times> int) option" where
  "band_edges ref =
     (if r_quotePrice ref = 0 then Inl RangeError
      else let slack = r_basePrice ref * r_maxDeviationBps ref sdiv 10000;
               uLo = r_basePrice ref - slack;
               uHi = r_basePrice ref + slack;
               lo = (uLo * WAD + r_quotePrice ref - 1) sdiv r_quotePrice ref;
               hi = ((uHi + 1) * WAD - 1) sdiv r_quotePrice ref;
               lo = adjust 4 (\<lambda>lo. lo > 0 \<and> in_band (lo - 1) ref) (-1) lo;
               lo = adjust 4 (\<lambda>lo. \<not> in_band lo ref) 1 lo;
               hi = adjust 4 (\<lambda>hi. in_band (hi + 1) ref) 1 hi;
               hi = adjust 4 (\<lambda>hi. \<not> in_band hi ref) (-1) hi
           in Inr (if lo > hi \<or> \<not> in_band lo ref \<or> \<not> in_band hi ref then None else Some (lo, hi)))"

section \<open>Volume\<close>

record packed_leg =
  l_sellsQuote :: bool
  l_sellAmount :: int
  l_minBuyAmount :: int

record volume =
  c_demand :: int
  c_supply :: int
  c_executable :: int

record clearing = volume +
  c_price :: int
  c_imbalance :: int

definition volume_step :: "int \<Rightarrow> int \<times> int \<Rightarrow> packed_leg \<Rightarrow> int \<times> int" where
  "volume_step price acc l =
     (case acc of (demand, supply) \<Rightarrow>
        if l_sellsQuote l
        then (if l_sellAmount l * WAD \<ge> l_minBuyAmount l * price
              then (demand + l_minBuyAmount l, supply) else (demand, supply))
        else if l_minBuyAmount l * WAD \<le> l_sellAmount l * price
             then (demand, supply + l_sellAmount l) else (demand, supply))"

definition volume_at :: "packed_leg list \<Rightarrow> int \<Rightarrow> volume" where
  "volume_at legs price =
     (let (demand, supply) = foldl (volume_step price) (0, 0) legs
      in \<lparr>c_demand = demand, c_supply = supply, c_executable = (if demand < supply then demand else supply)\<rparr>)"

definition legs_of :: "pair \<Rightarrow> packed_leg list" where
  "legs_of pair =
     map (\<lambda>e. \<lparr>l_sellsQuote = same (i_sellToken (b_intent e)) (p_quote pair),
               l_sellAmount = i_sellAmount (b_intent e),
               l_minBuyAmount = i_minBuyAmount (b_intent e)\<rparr>) (p_entries pair)"

section \<open>The clearing price\<close>

definition set_add :: "'a \<Rightarrow> 'a list \<Rightarrow> 'a list" where
  "set_add x xs = (if x \<in> set xs then xs else xs @ [x])"

definition add_limit :: "int list \<Rightarrow> packed_leg \<Rightarrow> int list" where
  "add_limit candidates l =
     (if l_sellsQuote l
      then (if l_minBuyAmount l > 0 then set_add (l_sellAmount l * WAD sdiv l_minBuyAmount l) candidates
            else candidates)
      else (if l_sellAmount l > 0
            then set_add ((l_minBuyAmount l * WAD + l_sellAmount l - 1) sdiv l_sellAmount l) candidates
            else candidates))"

definition better :: "clearing \<Rightarrow> clearing \<Rightarrow> int \<Rightarrow> bool" where
  "better a b pRef =
     (if c_executable a \<noteq> c_executable b then c_executable a > c_executable b
      else if c_imbalance a \<noteq> c_imbalance b then c_imbalance a < c_imbalance b
      else let da = \<bar>c_price a - pRef\<bar>; db = \<bar>c_price b - pRef\<bar>
           in if da \<noteq> db then da < db else c_price a < c_price b)"

definition clearing_at :: "packed_leg list \<Rightarrow> int \<Rightarrow> clearing" where
  "clearing_at legs price =
     (let v = volume_at legs price
      in \<lparr>c_demand = c_demand v, c_supply = c_supply v, c_executable = c_executable v,
          c_price = price, c_imbalance = \<bar>c_demand v - c_supply v\<bar>\<rparr>)"

definition consider_price ::
  "packed_leg list \<Rightarrow> reference \<Rightarrow> int \<Rightarrow> int \<Rightarrow> int \<Rightarrow> clearing option \<Rightarrow> int \<Rightarrow> clearing option" where
  "consider_price legs ref pRef lo hi best price =
     (if price \<le> 0 \<or> price < lo \<or> price > hi \<or> \<not> in_band price ref then best
      else let c = clearing_at legs price
           in case best of None \<Rightarrow> Some c | Some b \<Rightarrow> if better c b pRef then Some c else best)"

definition clear :: "pair \<Rightarrow> reference \<Rightarrow> js_error + clearing option" where
  "clear pair ref =
     bindE (band_edges ref) (\<lambda>edges.
       case edges of
         None \<Rightarrow> Inr None
       | Some (lo, hi) \<Rightarrow>
           bindE (reference_pair_price ref) (\<lambda>pRef.
             let legs = legs_of pair;
                 candidates = foldl add_limit (set_add hi (set_add lo (set_add pRef []))) legs
             in Inr (foldl (consider_price legs ref pRef lo hi) None candidates)))"

section \<open>Every intent in one pair or unsupported\<close>

abbreviation indices_of :: "pair \<Rightarrow> nat list" where
  "indices_of pair \<equiv> map b_index (p_entries pair)"

definition book_indices :: "(string \<times> pair) list \<Rightarrow> nat multiset" where
  "book_indices byBase = (\<Sum>kp\<in>#mset byBase. mset (indices_of (snd kp)))"

lemma book_indices_update:
  assumes "distinct (map fst m)"
  shows "book_indices (AList.update k p m) + (case map_of m k of None \<Rightarrow> {#} | Some q \<Rightarrow> mset (indices_of q))
    = book_indices m + mset (indices_of p)"
  using assms
proof (induction m)
  case (Cons kq m)
  then show ?case
  proof (cases "fst kq = k")
    case True
    then show ?thesis by (cases kq) (simp add: book_indices_def)
  next
    case False
    then show ?thesis using Cons by (cases kq) (simp add: book_indices_def add.assoc)
  qed
qed (simp add: book_indices_def)

definition base_token :: "address \<Rightarrow> intent \<Rightarrow> address" where
  "base_token quote i = (if same (i_sellToken i) quote then i_buyToken i else i_sellToken i)"

definition entry_ok :: "address \<Rightarrow> intent list \<Rightarrow> address \<Rightarrow> book_entry \<Rightarrow> bool" where
  "entry_ok quote intents base e \<longleftrightarrow>
     b_index e < length intents \<and> b_intent e = intents ! b_index e
     \<and> same (i_sellToken (b_intent e)) quote \<noteq> same (i_buyToken (b_intent e)) quote
     \<and> same (base_token quote (b_intent e)) base"

definition pair_ok :: "address \<Rightarrow> intent list \<Rightarrow> string \<Rightarrow> pair \<Rightarrow> bool" where
  "pair_ok quote intents k p \<longleftrightarrow> k = lower (p_base p) \<and> p_quote p = quote
     \<and> (\<forall>e\<in>set (p_entries p). entry_ok quote intents (p_base p) e)"

definition pairs_ok :: "address \<Rightarrow> intent list \<Rightarrow> (string \<times> pair) list \<Rightarrow> bool" where
  "pairs_ok quote intents byBase \<longleftrightarrow> distinct (map fst byBase)
     \<and> (\<forall>(k, p)\<in>set byBase. pair_ok quote intents k p)"

lemma pair_ok_add:
  assumes "pair_ok quote intents k p" "n < length intents" "same (base_token quote (intents ! n)) (p_base p)"
    "same (i_sellToken (intents ! n)) quote \<noteq> same (i_buyToken (intents ! n)) quote"
  shows "pair_ok quote intents k (p\<lparr>p_entries := p_entries p @ [\<lparr>b_index = n, b_intent = intents ! n\<rparr>]\<rparr>)"
  using assms by (auto simp: pair_ok_def entry_ok_def)

lemma pairs_ok_update:
  assumes "pairs_ok quote intents m" "pair_ok quote intents k p"
  shows "pairs_ok quote intents (AList.update k p m)"
  using assms set_update_subset_insert [of k p m] distinct_keys_update [of m k p]
  unfolding pairs_ok_def by blast

lemma pairs_step_ok:
  assumes "pairs_ok quote intents m" "n < length intents" "pairs_step quote (m, us) (n, intents ! n) = (m', us')"
  shows "pairs_ok quote intents m' \<and> book_indices m' + mset us' = book_indices m + mset us + {#n#}"
proof -
  let ?i = "intents ! n"
  define base where "base = base_token quote ?i"
  define old where "old = (case map_of m (lower base) of Some p \<Rightarrow> p
      | None \<Rightarrow> \<lparr>p_base = base, p_quote = quote, p_entries = []\<rparr>)"
  define new where "new = old\<lparr>p_entries := p_entries old @ [\<lparr>b_index = n, b_intent = ?i\<rparr>]\<rparr>"
  have cases: "(if same (i_sellToken ?i) quote = same (i_buyToken ?i) quote
      then (m, us @ [n]) else (AList.update (lower base) new m, us)) = (m', us')"
    using assms(3) unfolding pairs_step_def Let_def base_def base_token_def old_def new_def prod.case .
  show ?thesis
  proof (cases "same (i_sellToken ?i) quote = same (i_buyToken ?i) quote")
    case True
    then show ?thesis using cases assms(1) by auto
  next
    case False
    have old: "pair_ok quote intents (lower base) old"
      using assms(1) by (cases "map_of m (lower base)")
        (auto simp: old_def pairs_ok_def pair_ok_def dest: map_of_SomeD)
    then have "same base (p_base old)" by (simp add: pair_ok_def same_def)
    then have "pair_ok quote intents (lower base) new"
      using pair_ok_add [OF old assms(2)] False by (simp add: base_def new_def)
    moreover have "mset (indices_of new) =
        (case map_of m (lower base) of None \<Rightarrow> {#} | Some q \<Rightarrow> mset (indices_of q)) + {#n#}"
      by (simp add: new_def old_def split: option.splits)
    moreover have "distinct (map fst m)" using assms(1) by (simp add: pairs_ok_def)
    ultimately show ?thesis
      using book_indices_update [of m "lower base" new] pairs_ok_update [OF assms(1)] cases False
      by (auto simp: ac_simps)
  qed
qed

lemma pairs_fold_ok:
  assumes "pairs_ok quote intents m" "n + length is \<le> length intents"
    "\<forall>k<length is. is ! k = intents ! (n + k)"
    "foldl (pairs_step quote) (m, us) (enumerate n is) = (m', us')"
  shows "pairs_ok quote intents m' \<and> book_indices m' + mset us' = book_indices m + mset us + mset [n..<n + length is]"
  using assms
proof (induction "is" arbitrary: n m us)
  case (Cons i "is")
  obtain m1 u1 where s: "pairs_step quote (m, us) (n, intents ! n) = (m1, u1)"
    by (cases "pairs_step quote (m, us) (n, intents ! n)")
  have "i = intents ! n" using Cons.prems(3) by force
  then have rest: "foldl (pairs_step quote) (m1, u1) (enumerate (Suc n) is) = (m', us')"
    using Cons.prems(4) s by simp
  have tl: "\<forall>k<length is. is ! k = intents ! (Suc n + k)"
    using Cons.prems(3) by (metis add_Suc_shift length_Cons nth_Cons_Suc Suc_less_eq)
  note one = pairs_step_ok [OF Cons.prems(1) _ s]
  have "[n..<n + length (i # is)] = n # [Suc n..<Suc n + length is]"
    by (simp add: upt_rec)
  then show ?case
    using one Cons.IH [OF _ _ tl rest] Cons.prems(2) by (simp add: ac_simps)
qed simp

interpretation by_base: keyed_comparator pair_order "\<lambda>p. hex_value (p_base p)"
  by unfold_locales (auto simp: pair_order_def)

lemma pairs_of_partition:
  assumes "pairs_of intents quote = (pairs, unsupported)"
  shows "(\<Sum>p\<in>#mset pairs. mset (indices_of p)) + mset unsupported = mset [0..<length intents]"
    "\<forall>p\<in>set pairs. pair_ok quote intents (lower (p_base p)) p"
    "distinct (map (\<lambda>p. lower (p_base p)) pairs)" "sorted (map (\<lambda>p. hex_value (p_base p)) pairs)"
proof -
  obtain m us where f: "foldl (pairs_step quote) ([], []) (enumerate 0 intents) = (m, us)"
    by (cases "foldl (pairs_step quote) ([], []) (enumerate 0 intents)")
  then have p: "pairs = js_sort pair_order (map snd m)" "unsupported = us"
    using assms by (simp_all add: pairs_of_def)
  have "pairs_ok quote intents []" by (simp add: pairs_ok_def)
  then have ok: "pairs_ok quote intents m" "book_indices m + mset us = mset [0..<length intents]"
    using pairs_fold_ok [of quote intents "[]" 0 intents "[]" m us] f by (simp_all add: book_indices_def)
  show "(\<Sum>p\<in>#mset pairs. mset (indices_of p)) + mset unsupported = mset [0..<length intents]"
    using ok(2) p by (simp add: book_indices_def image_mset.compositionality comp_def)
  show "\<forall>p\<in>set pairs. pair_ok quote intents (lower (p_base p)) p"
    using ok(1) p by (auto simp: pairs_ok_def pair_ok_def)
  have "map (\<lambda>p. lower (p_base p)) (map snd m) = map fst m"
    using ok(1) by (auto simp: pairs_ok_def pair_ok_def)
  then show "distinct (map (\<lambda>p. lower (p_base p)) pairs)"
    using ok(1) p by (simp add: pairs_ok_def del: map_map)
  show "sorted (map (\<lambda>p. hex_value (p_base p)) pairs)"
    using p by (simp add: by_base.sorted_sort)
qed

section \<open>The band is an interval\<close>

text \<open>
  What the oracle and the calendar give: a positive quote price, a non negative base price, and
  a deviation that is a share of the price.
\<close>

definition valid_reference :: "reference \<Rightarrow> bool" where
  "valid_reference ref \<longleftrightarrow> 0 < r_quotePrice ref \<and> 0 \<le> r_basePrice ref
     \<and> 0 \<le> r_maxDeviationBps ref \<and> r_maxDeviationBps ref \<le> 10000"

definition band_lo :: "reference \<Rightarrow> int" where
  "band_lo ref = ((r_basePrice ref - r_basePrice ref * r_maxDeviationBps ref div 10000) * WAD
     + r_quotePrice ref - 1) div r_quotePrice ref"

definition band_hi :: "reference \<Rightarrow> int" where
  "band_hi ref = ((r_basePrice ref + r_basePrice ref * r_maxDeviationBps ref div 10000 + 1) * WAD - 1)
     div r_quotePrice ref"

lemma slack_bounds:
  assumes "valid_reference ref"
  shows "0 \<le> r_basePrice ref * r_maxDeviationBps ref div 10000"
    "r_basePrice ref * r_maxDeviationBps ref div 10000 \<le> r_basePrice ref"
  using assms floor_share_le [of "r_basePrice ref" "r_maxDeviationBps ref" 10000]
  by (simp_all add: valid_reference_def)

lemma in_band_iff:
  assumes "valid_reference ref" "0 \<le> p"
  shows "in_band p ref \<longleftrightarrow> band_lo ref \<le> p \<and> p \<le> band_hi ref"
proof -
  let ?q = "r_quotePrice ref"
  let ?s = "r_basePrice ref * r_maxDeviationBps ref div 10000"
  have q: "0 < ?q" using assms by (simp add: valid_reference_def)
  have u: "base_unit_price p ref = p * ?q div WAD"
    using assms q by (simp add: base_unit_price_def)
  have "r_basePrice ref - ?s \<le> p * ?q div WAD \<longleftrightarrow> band_lo ref \<le> p"
    unfolding band_lo_def by (simp only: floor_le_iff [OF WAD_pos(1)] ceil_le_iff [OF q])
  moreover have "p * ?q div WAD \<le> r_basePrice ref + ?s \<longleftrightarrow> p \<le> band_hi ref"
  proof -
    have "p * ?q div WAD \<le> r_basePrice ref + ?s \<longleftrightarrow> p * ?q < (r_basePrice ref + ?s + 1) * WAD"
      using floor_less_iff [OF WAD_pos(1), of "p * ?q" "r_basePrice ref + ?s + 1"] by linarith
    also have "\<dots> \<longleftrightarrow> p \<le> band_hi ref"
      unfolding band_hi_def using floor_le_iff [OF q, of p] by (simp add: algebra_simps) linarith
    finally show ?thesis .
  qed
  ultimately show ?thesis by (simp add: in_band_def u within_band_iff BPS_def)
qed

lemma band_numerators:
  assumes "valid_reference ref"
  shows "0 \<le> (r_basePrice ref - r_basePrice ref * r_maxDeviationBps ref div 10000) * WAD + r_quotePrice ref - 1
    \<and> 0 \<le> (r_basePrice ref + r_basePrice ref * r_maxDeviationBps ref div 10000 + 1) * WAD - 1"
proof
  have "0 \<le> (r_basePrice ref - r_basePrice ref * r_maxDeviationBps ref div 10000) * WAD"
    using slack_bounds [OF assms] by (intro mult_nonneg_nonneg) simp_all
  then show "0 \<le> (r_basePrice ref - r_basePrice ref * r_maxDeviationBps ref div 10000) * WAD + r_quotePrice ref - 1"
    using assms by (simp add: valid_reference_def)
  have "0 \<le> r_basePrice ref" using assms by (simp add: valid_reference_def)
  then have "1 * WAD \<le> (r_basePrice ref + r_basePrice ref * r_maxDeviationBps ref div 10000 + 1) * WAD"
    using slack_bounds [OF assms] by (intro mult_right_mono) simp_all
  moreover have "1 \<le> WAD" by (simp add: WAD_def)
  ultimately show "0 \<le> (r_basePrice ref + r_basePrice ref * r_maxDeviationBps ref div 10000 + 1) * WAD - 1"
    by simp
qed

lemma band_lo_nonneg: "valid_reference ref \<Longrightarrow> 0 \<le> band_lo ref"
  using band_numerators [of ref] unfolding band_lo_def by (intro floor_nonneg) (simp_all add: valid_reference_def)

lemma band_hi_nonneg: "valid_reference ref \<Longrightarrow> 0 \<le> band_hi ref"
  using band_numerators [of ref] unfolding band_hi_def by (intro floor_nonneg) (simp_all add: valid_reference_def)

lemma adjust_id: "\<not> cond x \<Longrightarrow> adjust n cond d x = x"
  by (cases n) auto

lemma adjust_up_le: "x \<le> adjust n cond 1 x"
  by (induction n arbitrary: x) (auto intro: order_trans [OF _ add_increasing2], smt (verit))

lemma band_edges_cases:
  assumes "valid_reference ref"
  shows "band_edges ref = Inr (if band_lo ref \<le> band_hi ref then Some (band_lo ref, band_hi ref) else None)"
proof -
  let ?lo = "band_lo ref" and ?hi = "band_hi ref"
  have q: "0 < r_quotePrice ref" using assms by (simp add: valid_reference_def)
  note inb = in_band_iff [OF assms]
  have pos: "0 \<le> ?lo" "0 \<le> ?hi" using band_lo_nonneg band_hi_nonneg assms by blast+
  have lo1: "adjust 4 (\<lambda>lo. lo > 0 \<and> in_band (lo - 1) ref) (-1) ?lo = ?lo"
    by (rule adjust_id) (use inb [of "?lo - 1"] in auto)
  have hi1: "adjust 4 (\<lambda>hi. in_band (hi + 1) ref) 1 ?hi = ?hi"
    by (rule adjust_id) (use inb [of "?hi + 1"] pos in auto)
  have sd: "r_basePrice ref * r_maxDeviationBps ref sdiv 10000 = r_basePrice ref * r_maxDeviationBps ref div 10000"
    using assms by (simp add: valid_reference_def)
  have num: "0 \<le> (r_basePrice ref - r_basePrice ref * r_maxDeviationBps ref div 10000) * WAD + r_quotePrice ref - 1"
    "0 \<le> (r_basePrice ref + r_basePrice ref * r_maxDeviationBps ref div 10000 + 1) * WAD - 1"
    using band_numerators [OF assms] by blast+
  have closed: "((r_basePrice ref - r_basePrice ref * r_maxDeviationBps ref div 10000) * WAD + r_quotePrice ref - 1)
      sdiv r_quotePrice ref = ?lo"
    "((r_basePrice ref + r_basePrice ref * r_maxDeviationBps ref div 10000 + 1) * WAD - 1) sdiv r_quotePrice ref = ?hi"
    using q num by (simp_all only: band_lo_def band_hi_def sdiv_floor order_less_imp_le)
  have edges: "band_edges ref = (let lo = adjust 4 (\<lambda>lo. \<not> in_band lo ref) 1 ?lo;
      hi = adjust 4 (\<lambda>hi. \<not> in_band hi ref) (-1) ?hi
      in Inr (if lo > hi \<or> \<not> in_band lo ref \<or> \<not> in_band hi ref then None else Some (lo, hi)))"
    using q unfolding band_edges_def Let_def sd closed lo1 hi1 by simp
  show ?thesis
  proof (cases "?lo \<le> ?hi")
    case True
    then have "in_band ?lo ref" "in_band ?hi ref" using inb pos by auto
    then show ?thesis using True by (simp add: edges adjust_id)
  next
    case False
    then have "\<not> in_band p ref" if "0 \<le> p" for p using inb [OF that] by auto
    then have "\<not> in_band (adjust 4 (\<lambda>lo. \<not> in_band lo ref) 1 ?lo) ref"
      using adjust_up_le order_trans [OF pos(1)] by blast
    then show ?thesis using False by (simp add: edges)
  qed
qed

section \<open>Volume at a price as sums\<close>

definition takes :: "packed_leg \<Rightarrow> int \<Rightarrow> bool" where
  "takes l price = (if l_sellsQuote l then l_minBuyAmount l * price \<le> l_sellAmount l * WAD
     else l_minBuyAmount l * WAD \<le> l_sellAmount l * price)"

definition buys_at :: "int \<Rightarrow> packed_leg \<Rightarrow> int" where
  "buys_at price l = (if l_sellsQuote l \<and> takes l price then l_minBuyAmount l else 0)"

definition sells_at :: "int \<Rightarrow> packed_leg \<Rightarrow> int" where
  "sells_at price l = (if \<not> l_sellsQuote l \<and> takes l price then l_sellAmount l else 0)"

lemma volume_fold:
  "foldl (volume_step price) (d, s) legs = (d + (\<Sum>l\<leftarrow>legs. buys_at price l), s + (\<Sum>l\<leftarrow>legs. sells_at price l))"
  by (induction legs arbitrary: d s) (auto simp: volume_step_def buys_at_def sells_at_def takes_def)

lemma volume_at_sums:
  "c_demand (volume_at legs price) = (\<Sum>l\<leftarrow>legs. buys_at price l)"
  "c_supply (volume_at legs price) = (\<Sum>l\<leftarrow>legs. sells_at price l)"
  "c_executable (volume_at legs price) = min (\<Sum>l\<leftarrow>legs. buys_at price l) (\<Sum>l\<leftarrow>legs. sells_at price l)"
  by (simp_all add: volume_at_def volume_fold)

text \<open>Amounts are unsigned in the contract.\<close>

definition valid_legs :: "packed_leg list \<Rightarrow> bool" where
  "valid_legs legs \<longleftrightarrow> (\<forall>l\<in>set legs. 0 \<le> l_sellAmount l \<and> 0 \<le> l_minBuyAmount l)"

lemma supply_mono:
  assumes "valid_legs legs" "p \<le> q"
  shows "(\<Sum>l\<leftarrow>legs. sells_at p l) \<le> (\<Sum>l\<leftarrow>legs. sells_at q l)"
proof (rule sum_list_mono_int)
  fix l assume l: "l \<in> set legs"
  then have "l_sellAmount l * p \<le> l_sellAmount l * q"
    using assms by (auto simp: valid_legs_def intro: mult_left_mono)
  then show "sells_at p l \<le> sells_at q l"
    using assms(1) l by (auto simp: sells_at_def takes_def valid_legs_def)
qed

definition limit_price :: "packed_leg \<Rightarrow> int" where
  "limit_price l = (if l_sellsQuote l then l_sellAmount l * WAD div l_minBuyAmount l
     else (l_minBuyAmount l * WAD + l_sellAmount l - 1) div l_sellAmount l)"

lemma takes_limit:
  assumes "0 \<le> l_sellAmount l" "0 \<le> l_minBuyAmount l"
  shows "l_sellsQuote l \<Longrightarrow> 0 < l_minBuyAmount l \<Longrightarrow> takes l p \<longleftrightarrow> p \<le> limit_price l"
    "\<not> l_sellsQuote l \<Longrightarrow> 0 < l_sellAmount l \<Longrightarrow> takes l p \<longleftrightarrow> limit_price l \<le> p"
  using floor_le_iff [of "l_minBuyAmount l" p "l_sellAmount l * WAD"]
    ceil_le_iff [of "l_sellAmount l" "l_minBuyAmount l * WAD" p]
  by (auto simp: takes_def limit_price_def mult.commute)

lemma demand_up_to_limits:
  assumes "valid_legs legs"
    "\<And>l. l \<in> set legs \<Longrightarrow> l_sellsQuote l \<Longrightarrow> 0 < l_minBuyAmount l \<Longrightarrow> p \<le> limit_price l \<Longrightarrow> q \<le> limit_price l"
  shows "(\<Sum>l\<leftarrow>legs. buys_at p l) \<le> (\<Sum>l\<leftarrow>legs. buys_at q l)"
proof (rule sum_list_mono_int)
  fix l assume l: "l \<in> set legs"
  have v: "0 \<le> l_sellAmount l" "0 \<le> l_minBuyAmount l" using l assms(1) by (auto simp: valid_legs_def)
  show "buys_at p l \<le> buys_at q l"
  proof (cases "l_sellsQuote l \<and> 0 < l_minBuyAmount l")
    case True
    then show ?thesis using takes_limit(1) [OF v] assms(2) [OF l] v by (simp add: buys_at_def)
  next
    case False
    then show ?thesis using v by (auto simp: buys_at_def)
  qed
qed

section \<open>The candidates\<close>

lemma set_set_add [simp]: "set (set_add x xs) = insert x (set xs)"
  by (auto simp: set_add_def)

lemma set_candidates:
  assumes "valid_legs legs"
  shows "set (foldl add_limit cs legs) = set cs \<union>
    limit_price ` {l\<in>set legs. if l_sellsQuote l then 0 < l_minBuyAmount l else 0 < l_sellAmount l}"
  using assms
proof (induction legs arbitrary: cs)
  case (Cons l legs)
  have v: "0 \<le> l_sellAmount l" "0 \<le> l_minBuyAmount l" "valid_legs legs"
    using Cons.prems by (auto simp: valid_legs_def)
  then have "set (add_limit cs l) = set cs \<union>
      (if (if l_sellsQuote l then 0 < l_minBuyAmount l else 0 < l_sellAmount l) then {limit_price l} else {})"
    by (auto simp: add_limit_def limit_price_def)
  then show ?case using Cons.IH [OF v(3), of "add_limit cs l"] by auto
qed auto

definition clearing_key :: "int \<Rightarrow> clearing \<Rightarrow> int \<times> int \<times> int \<times> int" where
  "clearing_key pRef c = (- c_executable c, c_imbalance c, \<bar>c_price c - pRef\<bar>, c_price c)"

interpretation clearing_choice: keyed_preference "\<lambda>a b. better a b pRef" "clearing_key pRef" for pRef
  by unfold_locales (auto simp: better_def clearing_key_def Let_def less_prod_def)

definition eligible :: "reference \<Rightarrow> int \<Rightarrow> int \<Rightarrow> int \<Rightarrow> bool" where
  "eligible ref lo hi price \<longleftrightarrow> \<not> (price \<le> 0 \<or> price < lo \<or> price > hi \<or> \<not> in_band price ref)"

lemma consider_price_keep:
  "consider_price legs ref pRef lo hi = keep_better (\<lambda>a b. better a b pRef) (eligible ref lo hi) (clearing_at legs)"
  by (intro ext) (simp add: consider_price_def keep_better_def eligible_def Let_def)

definition candidates_of :: "reference \<Rightarrow> int \<Rightarrow> packed_leg list \<Rightarrow> int list" where
  "candidates_of ref pRef legs = foldl add_limit (set_add (band_hi ref) (set_add (band_lo ref) (set_add pRef []))) legs"

lemma clear_unfold:
  assumes "valid_reference ref"
  shows "clear pair ref = Inr (if band_lo ref \<le> band_hi ref
     then foldl (keep_better (\<lambda>a b. better a b (r_basePrice ref * WAD div r_quotePrice ref))
            (eligible ref (band_lo ref) (band_hi ref)) (clearing_at (legs_of pair)))
          None (candidates_of ref (r_basePrice ref * WAD div r_quotePrice ref) (legs_of pair))
     else None)"
proof -
  have "reference_pair_price ref = Inr (r_basePrice ref * WAD div r_quotePrice ref)"
    using assms by (simp add: reference_pair_price_def valid_reference_def)
  then show ?thesis
    by (simp add: clear_def band_edges_cases [OF assms] consider_price_keep candidates_of_def Let_def)
qed

lemma eligible_iff:
  assumes "valid_reference ref"
  shows "eligible ref (band_lo ref) (band_hi ref) p \<longleftrightarrow> 0 < p \<and> in_band p ref"
  using in_band_iff [OF assms, of p] by (auto simp: eligible_def)

text \<open>
  From any price of the band, walking up to the nearest buyer limit or the band's edge loses no
  volume, and the walk ends on a candidate.
\<close>

lemma candidate_above:
  assumes "valid_reference ref" "valid_legs legs" "0 < p" "in_band p ref"
  obtains q where "q \<in> set (candidates_of ref pRef legs)" "0 < q" "in_band q ref"
    "c_executable (volume_at legs p) \<le> c_executable (volume_at legs q)"
proof -
  let ?L = "limit_price ` {l\<in>set legs. l_sellsQuote l \<and> 0 < l_minBuyAmount l \<and> p \<le> limit_price l}"
  let ?Q = "insert (band_hi ref) ?L"
  define q where "q = Min ?Q"
  have p: "band_lo ref \<le> p" "p \<le> band_hi ref" using in_band_iff [of ref p] assms by auto
  have q_in: "q \<in> ?Q" unfolding q_def by (rule Min_in) simp_all
  have q_le: "x \<in> ?Q \<Longrightarrow> q \<le> x" for x unfolding q_def by (intro Min_le) simp_all
  have pq: "p \<le> q" using q_in p by auto
  have cand: "q \<in> set (candidates_of ref pRef legs)"
    using q_in set_candidates [OF assms(2)] by (auto simp: candidates_of_def)
  have q_pos: "0 < q" using pq assms(3) by simp
  have "q \<le> band_hi ref" using q_le by simp
  then have band: "in_band q ref" using in_band_iff [of ref q] assms(1) pq p q_pos by auto
  have "(\<Sum>l\<leftarrow>legs. buys_at p l) \<le> (\<Sum>l\<leftarrow>legs. buys_at q l)"
    using q_le by (intro demand_up_to_limits [OF assms(2)]) auto
  moreover have "(\<Sum>l\<leftarrow>legs. sells_at p l) \<le> (\<Sum>l\<leftarrow>legs. sells_at q l)"
    by (rule supply_mono [OF assms(2) pq])
  ultimately have "c_executable (volume_at legs p) \<le> c_executable (volume_at legs q)"
    unfolding volume_at_sums by (intro min.mono)
  then show thesis using that cand q_pos band by blast
qed

section \<open>Properties\<close>

text \<open>
  C4. The clearing price carries the largest executable volume of the whole session band, not
  only of the candidates tried, and there is no clearing exactly when the band holds no
  positive price.
\<close>

theorem clear_maximises_volume:
  assumes "valid_reference ref" and "valid_legs (legs_of pair)"
  shows "case clear pair ref of
      Inl e \<Rightarrow> False
    | Inr None \<Rightarrow> \<forall>p>0. \<not> in_band p ref
    | Inr (Some c) \<Rightarrow> 0 < c_price c \<and> in_band (c_price c) ref \<and> c = clearing_at (legs_of pair) (c_price c)
        \<and> (\<forall>p>0. in_band p ref \<longrightarrow> c_executable (volume_at (legs_of pair) p) \<le> c_executable c)"
proof -
  let ?legs = "legs_of pair" and ?pRef = "r_basePrice ref * WAD div r_quotePrice ref"
  let ?cs = "candidates_of ref ?pRef ?legs"
  let ?best = "foldl (keep_better (\<lambda>a b. better a b ?pRef) (eligible ref (band_lo ref) (band_hi ref))
    (clearing_at ?legs)) None ?cs"
  note above = candidate_above [OF assms, of _ ?pRef]
  show ?thesis
  proof (cases "band_lo ref \<le> band_hi ref")
    case False
    then show ?thesis
      using in_band_iff [OF assms(1)] by (auto simp: clear_unfold [OF assms(1)])
  next
    case True
    show ?thesis
    proof (cases ?best)
      case None
      then have "\<not> in_band p ref" if "0 < p" for p
        using above [OF that] clearing_choice.keep_better_none eligible_iff [OF assms(1)] by metis
      then show ?thesis using None True by (simp add: clear_unfold [OF assms(1)])
    next
      case (Some c)
      note best = clearing_choice.keep_better_best [OF Some]
      obtain x where x: "0 < x" "in_band x ref" "c = clearing_at ?legs x"
        using best(1) eligible_iff [OF assms(1)] by blast
      have "c_executable (volume_at ?legs p) \<le> c_executable c" if p: "0 < p" "in_band p ref" for p
      proof -
        obtain q where q: "q \<in> set ?cs" "0 < q" "in_band q ref"
          "c_executable (volume_at ?legs p) \<le> c_executable (volume_at ?legs q)"
          using above [OF p] by blast
        have "clearing_key ?pRef c \<le> clearing_key ?pRef (clearing_at ?legs q)"
          using best(2) [OF q(1)] eligible_iff [OF assms(1)] q by blast
        then have "c_executable (volume_at ?legs q) \<le> c_executable c"
          by (auto simp: clearing_key_def less_eq_prod_def clearing_at_def Let_def)
        then show ?thesis using q(4) by simp
      qed
      moreover have "c_price c = x" using x(3) by (simp add: clearing_at_def Let_def)
      ultimately show ?thesis using Some True x by (simp add: clear_unfold [OF assms(1)])
    qed
  qed
qed

text \<open>A book of two buyers and two sellers that crosses around a reference of 1000.\<close>

definition sample_intent :: "string \<Rightarrow> string \<Rightarrow> int \<Rightarrow> int \<Rightarrow> intent" where
  "sample_intent sell buy amount least =
     \<lparr>i_owner = ''0x1'', i_receiver = ''0x1'', i_sellToken = sell, i_buyToken = buy,
      i_sellAmount = amount, i_minBuyAmount = least, i_validAfter = 0, i_validUntil = 0, i_flags = 1,
      i_kind = 0, i_maxDevFromRefBps = 0, i_allowedSessions = 0, i_batchSpan = 0, i_nonce = 0\<rparr>"

definition sample_pair :: pair where
  "sample_pair = \<lparr>p_base = ''0xb'', p_quote = ''0xa'', p_entries =
     [\<lparr>b_index = 0, b_intent = sample_intent ''0xa'' ''0xb'' 5025 5\<rparr>,
      \<lparr>b_index = 1, b_intent = sample_intent ''0xa'' ''0xb'' 10150 10\<rparr>,
      \<lparr>b_index = 2, b_intent = sample_intent ''0xb'' ''0xa'' 10 9900\<rparr>,
      \<lparr>b_index = 3, b_intent = sample_intent ''0xb'' ''0xa'' 7 7070\<rparr>]\<rparr>"

definition sample_reference :: reference where
  "sample_reference = \<lparr>r_quotePrice = 10 ^ 18, r_basePrice = 10 ^ 21, r_maxDeviationBps = 200\<rparr>"

lemma sample_ok: "valid_reference sample_reference" "valid_legs (legs_of sample_pair)"
  unfolding valid_reference_def valid_legs_def by code_simp+

lemma sample_clear: "clear sample_pair sample_reference = Inr (Some (clearing_at (legs_of sample_pair) (10 ^ 21)))"
  by code_simp

theorem clear_maximises_volume_witness:
  "in_band (1007 * 10 ^ 18) sample_reference
   \<and> c_executable (volume_at (legs_of sample_pair) (1007 * 10 ^ 18)) \<le>
     c_executable (clearing_at (legs_of sample_pair) (10 ^ 21))"
proof -
  have "in_band (1007 * 10 ^ 18) sample_reference" by code_simp
  then show ?thesis using clear_maximises_volume [OF sample_ok] by (simp add: sample_clear)
qed

text \<open>
  The rule as documented, largest volume and then smallest imbalance over the band, is not
  what the candidates give: they are limit prices and edges only, so inside an interval of equal
  volume a price with a smaller imbalance can be passed over.
\<close>

theorem clear_misses_smaller_imbalance:
  "\<exists>pair ref c p. valid_reference ref \<and> valid_legs (legs_of pair) \<and> clear pair ref = Inr (Some c)
     \<and> 0 < p \<and> in_band p ref \<and> c_executable (clearing_at (legs_of pair) p) = c_executable c
     \<and> c_imbalance (clearing_at (legs_of pair) p) < c_imbalance c"
proof (intro exI conjI)
  show "clear sample_pair sample_reference = Inr (Some (clearing_at (legs_of sample_pair) (10 ^ 21)))"
    by (rule sample_clear)
  show "valid_reference sample_reference" by (rule sample_ok(1))
  show "valid_legs (legs_of sample_pair)" by (rule sample_ok(2))
  show "0 < (1007 * 10 ^ 18 :: int)" by simp
  show "in_band (1007 * 10 ^ 18) sample_reference" by code_simp
  show "c_executable (clearing_at (legs_of sample_pair) (1007 * 10 ^ 18)) =
      c_executable (clearing_at (legs_of sample_pair) (10 ^ 21))" by code_simp
  show "c_imbalance (clearing_at (legs_of sample_pair) (1007 * 10 ^ 18)) <
      c_imbalance (clearing_at (legs_of sample_pair) (10 ^ 21))" by code_simp
qed

end
