(* ===== verification/ClearingFills.thy ===== *)
theory ClearingFills
  imports ClearingPrice
begin

text \<open>
  The second half of solver/src/clearing.ts: fills at one clearing price, the rationing of the
  long side, the residual of a cross and the venue call that closes it. The lemmas follow the
  three loops of the rationing, then the passes of the allocation, and end in the value balance
  of its fills.
\<close>

record candidate =
  k_entry :: book_entry
  k_buys :: bool
  k_size :: int
  k_partial :: bool
  k_better :: bool

record fill =
  f_index :: nat
  f_executedSell :: int
  f_executedBuy :: int

record allocation =
  a_price :: int
  a_quotePrice :: int
  a_basePrice :: int
  a_fills :: "fill list"
  a_excluded :: "(nat \<times> string) list"

abbreviation k_index :: "candidate \<Rightarrow> nat" where
  "k_index c \<equiv> b_index (k_entry c)"

section \<open>Rationing\<close>

definition whole_order :: "candidate \<Rightarrow> candidate \<Rightarrow> int" where
  "whole_order a b =
     (if k_size a = k_size b then int (k_index a) - int (k_index b)
      else if k_size a < k_size b then -1 else 1)"

definition take_whole ::
  "int \<Rightarrow> int \<times> (nat \<rightharpoonup> int) \<Rightarrow> candidate \<Rightarrow> int \<times> (nat \<rightharpoonup> int)" where
  "take_whole wholeShare acc c =
     (case acc of (used, allot) \<Rightarrow>
        let take = (if used + k_size c \<le> wholeShare then k_size c else 0)
        in (used + take, allot(k_index c \<mapsto> take)))"

definition take_split ::
  "int \<Rightarrow> int \<Rightarrow> int \<times> (nat \<rightharpoonup> int) \<Rightarrow> candidate \<Rightarrow> int \<times> (nat \<rightharpoonup> int)" where
  "take_split rest splitTotal acc c =
     (case acc of (used, allot) \<Rightarrow>
        let share = (if splitTotal = 0 then 0 else k_size c * rest sdiv splitTotal);
            take = (if share < k_size c then share else k_size c)
        in (used + take, allot(k_index c \<mapsto> take)))"

definition allotted :: "(nat \<rightharpoonup> int) \<Rightarrow> candidate \<Rightarrow> int" where
  "allotted allot c = (case allot (k_index c) of None \<Rightarrow> 0 | Some a \<Rightarrow> a)"

definition top_up :: "int \<Rightarrow> int \<times> (nat \<rightharpoonup> int) \<Rightarrow> candidate \<Rightarrow> int \<times> (nat \<rightharpoonup> int)" where
  "top_up cap acc c =
     (case acc of (used, allot) \<Rightarrow>
        if used \<ge> cap then (used, allot)
        else let has = allotted allot c;
                 room = k_size c - has;
                 give = (if room < cap - used then room else cap - used)
             in if give \<le> 0 then (used, allot) else (used + give, allot(k_index c \<mapsto> has + give)))"

definition ration_tier ::
  "int \<times> (nat \<rightharpoonup> int) \<Rightarrow> candidate list \<Rightarrow> int \<times> (nat \<rightharpoonup> int)" where
  "ration_tier acc tier =
     (case acc of (remaining, allot) \<Rightarrow>
        let total = (\<Sum>c\<leftarrow>tier. k_size c)
        in if total \<le> remaining
           then (remaining - total, foldl (\<lambda>m c. m(k_index c \<mapsto> k_size c)) allot tier)
           else let cap = remaining;
                    whole = js_sort whole_order (filter (\<lambda>c. \<not> k_partial c) tier);
                    split = filter k_partial tier;
                    wholeShare = cap * (\<Sum>c\<leftarrow>whole. k_size c) sdiv total;
                    (used, allot) = foldl (take_whole wholeShare) (0, allot) whole;
                    rest = cap - used;
                    splitTotal = (\<Sum>c\<leftarrow>split. k_size c);
                    (used, allot) = foldl (take_split rest splitTotal) (used, allot) split;
                    (used, allot) = foldl (top_up cap) (used, allot) split
                in (cap - used, allot))"

definition ration :: "candidate list \<Rightarrow> int \<Rightarrow> (nat \<rightharpoonup> int) \<Rightarrow> (nat \<rightharpoonup> int)" where
  "ration side capacity allot =
     snd (foldl ration_tier (capacity, allot) [filter k_better side, filter (\<lambda>c. \<not> k_better c) side])"

section \<open>Fills\<close>

definition refusal :: "intent \<Rightarrow> fill \<Rightarrow> bool \<Rightarrow> int \<Rightarrow> int \<Rightarrow> string option" where
  "refusal i f buys quotePrice basePrice =
     (if f_executedSell f > i_sellAmount i then Some ''OverfilledIntent''
      else if f_executedSell f \<noteq> i_sellAmount i \<and> \<not> partial_fill (i_flags i) then Some ''PartialFillNotAllowed''
      else if f_executedBuy f = 0 then Some ''receives nothing after rounding''
      else if \<not> limit_respected (f_executedBuy f) (i_sellAmount i) (i_minBuyAmount i) (f_executedSell f)
      then Some ''LimitViolated after rounding''
      else let (sellPrice, buyPrice) = (if buys then (quotePrice, basePrice) else (basePrice, quotePrice))
           in if \<not> uniform_price_holds (f_executedSell f) (f_executedBuy f) sellPrice buyPrice FEE_CAP_NOTIONAL_BPS
              then Some ''NonUniformPrice, too small for the 3 bps tolerance'' else None)"

definition allotment :: "candidate list \<Rightarrow> int \<Rightarrow> (nat \<rightharpoonup> int)" where
  "allotment live venueBase =
     (let buyers = filter k_buys live;
          sellers = filter (\<lambda>c. \<not> k_buys c) live;
          demand = (\<Sum>c\<leftarrow>buyers. k_size c);
          supply = (\<Sum>c\<leftarrow>sellers. k_size c)
      in if demand > supply
         then ration buyers (supply + venueBase)
                (foldl (\<lambda>m c. m(k_index c \<mapsto> k_size c)) Map.empty sellers)
         else ration sellers (demand + venueBase)
                (foldl (\<lambda>m c. m(k_index c \<mapsto> k_size c)) Map.empty buyers))"

definition fill_of :: "int \<Rightarrow> int \<Rightarrow> int \<Rightarrow> candidate \<Rightarrow> fill" where
  "fill_of quotePrice basePrice a c =
     (let i = b_intent (k_entry c);
          (sell, buy) =
            (if a = 0 then (0, 0)
             else if k_buys c
             then (if a = k_size c then i_sellAmount i
                   else (a * basePrice + quotePrice - 1) sdiv quotePrice, a)
             else (a, a * basePrice sdiv quotePrice))
      in \<lparr>f_index = k_index c, f_executedSell = sell, f_executedBuy = buy\<rparr>)"

definition fills_for ::
  "candidate list \<Rightarrow> int \<Rightarrow> int \<Rightarrow> int \<Rightarrow> (fill \<times> string option) list" where
  "fills_for live quotePrice basePrice venueBase =
     (let allot = allotment live venueBase
      in map (\<lambda>c. let a = allotted allot c; f = fill_of quotePrice basePrice a c
                  in (f, if a = 0 then None
                         else refusal (b_intent (k_entry c)) f (k_buys c) quotePrice basePrice)) live)"

section \<open>Allocation\<close>

definition admit_entry ::
  "pair \<Rightarrow> int \<Rightarrow> int \<Rightarrow> int \<Rightarrow> candidate list \<times> (nat \<times> string) list \<Rightarrow> book_entry
     \<Rightarrow> candidate list \<times> (nat \<times> string) list" where
  "admit_entry pair price quotePrice basePrice acc entry =
     (case acc of (live, excluded) \<Rightarrow>
        let i = b_intent entry;
            buys = same (i_sellToken i) (p_quote pair);
            lhs = (if buys then i_sellAmount i * WAD else i_minBuyAmount i * WAD);
            rhs = (if buys then i_minBuyAmount i * price else i_sellAmount i * price);
            accepts = (if buys then lhs \<ge> rhs else lhs \<le> rhs)
        in if \<not> accepts
           then (live, excluded @ [(b_index entry, ''limit is on the wrong side of the clearing price'')])
           else let size = (if buys then i_sellAmount i * quotePrice sdiv basePrice else i_sellAmount i)
                in if size = 0
                   then (live, excluded @ [(b_index entry, ''buys nothing at the clearing price'')])
                   else (live @ [\<lparr>k_entry = entry, k_buys = buys, k_size = size,
                                   k_partial = partial_fill (i_flags i), k_better = (lhs \<noteq> rhs)\<rparr>], excluded))"

fun settle_passes ::
  "nat \<Rightarrow> int \<Rightarrow> int \<Rightarrow> int \<Rightarrow> candidate list \<Rightarrow> (nat \<times> string) list
     \<Rightarrow> js_error + fill list \<times> (nat \<times> string) list" where
  "settle_passes 0 quotePrice basePrice venueBase live excluded =
     Inl (Thrown ''allocation did not settle, which the pass bound makes impossible'')"
| "settle_passes (Suc n) quotePrice basePrice venueBase live excluded =
     (let fills = fills_for live quotePrice basePrice venueBase
      in case find (\<lambda>(f, reason). reason \<noteq> None) fills of
           None \<Rightarrow> Inr (map fst (filter (\<lambda>(f, _). f_executedSell f > 0) fills), excluded)
         | Some (bad, reason) \<Rightarrow>
             settle_passes n quotePrice basePrice venueBase
               (filter (\<lambda>c. k_index c \<noteq> f_index bad) live) (excluded @ [(f_index bad, the reason)]))"

definition allocate :: "pair \<Rightarrow> clearing \<Rightarrow> reference \<Rightarrow> int \<Rightarrow> js_error + allocation" where
  "allocate pair clearing ref venueBase =
     (let quotePrice = r_quotePrice ref;
          basePrice = base_unit_price (c_price clearing) ref;
          result = (\<lambda>(fills, excluded). \<lparr>a_price = c_price clearing, a_quotePrice = quotePrice,
                      a_basePrice = basePrice, a_fills = fills, a_excluded = excluded\<rparr>)
      in if basePrice = 0
         then Inr (result ([], map (\<lambda>e. (b_index e, ''base unit price floors to zero'')) (p_entries pair)))
         else let (live, excluded) =
                    foldl (admit_entry pair (c_price clearing) quotePrice basePrice) ([], []) (p_entries pair)
              in bindE (settle_passes (length (p_entries pair) + 1) quotePrice basePrice venueBase live excluded)
                   (\<lambda>r. Inr (result r)))"

section \<open>Residual and route\<close>

record residual =
  res_base :: int
  res_quote :: int

definition residual_step ::
  "pair \<Rightarrow> int \<times> int \<Rightarrow> fill \<Rightarrow> js_error + int \<times> int" where
  "residual_step pair acc f =
     (case acc of (base, quote) \<Rightarrow>
        case map_of (rev (map (\<lambda>e. (b_index e, b_intent e)) (p_entries pair))) (f_index f) of
          None \<Rightarrow> Inl TypeError
        | Some i \<Rightarrow>
            Inr (if same (i_sellToken i) (p_quote pair)
                 then (base - f_executedBuy f, quote + f_executedSell f)
                 else (base + f_executedSell f, quote - f_executedBuy f)))"

definition residual_of :: "pair \<Rightarrow> fill list \<Rightarrow> js_error + residual" where
  "residual_of pair fills =
     bindE (foldE (residual_step pair) (0, 0) fills)
       (\<lambda>(base, quote). Inr \<lparr>res_base = base, res_quote = quote\<rparr>)"

record venue_need =
  n_tokenIn :: address
  n_tokenOut :: address
  n_amountIn :: int
  n_needOut :: int

definition route ::
  "pair \<Rightarrow> fill list \<Rightarrow> address \<Rightarrow> (venue_need \<Rightarrow> int) \<Rightarrow> js_error + venue_call list \<times> residual" where
  "route pair fills adapter minOut =
     bindE (residual_of pair fills) (\<lambda>r.
       if res_base r \<ge> 0 \<and> res_quote r \<ge> 0 then Inr ([], r)
       else if res_base r < 0 \<and> res_quote r < 0
       then Inl (Thrown ''both tokens short, which no venue call can fix'')
       else let need = (if res_quote r < 0
              then \<lparr>n_tokenIn = p_base pair, n_tokenOut = p_quote pair, n_amountIn = res_base r, n_needOut = - res_quote r\<rparr>
              else \<lparr>n_tokenIn = p_quote pair, n_tokenOut = p_base pair, n_amountIn = res_quote r, n_needOut = - res_base r\<rparr>);
              out = minOut need
            in if out < n_needOut need
               then Inl (Thrown ''minOut is below what the batch needs back, ValueNotConserved'')
               else Inr ([\<lparr>v_adapter = adapter, v_tokenIn = n_tokenIn need, v_tokenOut = n_tokenOut need,
                           v_amountIn = n_amountIn need, v_minOut = out\<rparr>], r))"

section \<open>The rationing loops\<close>

text \<open>
  Both filling loops write one amount per candidate and add it to what is used. \<open>shared\<close> says
  what such a loop leaves behind.
\<close>

definition shared :: "candidate list \<Rightarrow> int \<Rightarrow> (nat \<rightharpoonup> int) \<Rightarrow> int \<Rightarrow> (nat \<rightharpoonup> int) \<Rightarrow> bool" where
  "shared cs used m used' m' \<longleftrightarrow>
     used' = used + (\<Sum>c\<leftarrow>cs. allotted m' c)
     \<and> (\<forall>k. k \<notin> k_index ` set cs \<longrightarrow> m' k = m k)
     \<and> (\<forall>c\<in>set cs. m' (k_index c) \<noteq> None)"

lemma shared_Cons:
  assumes "shared cs (used + t) (m(k_index c \<mapsto> t)) used' m'" "k_index c \<notin> k_index ` set cs"
  shows "shared (c # cs) used m used' m'" "allotted m' c = t"
  using assms by (auto simp: shared_def allotted_def)

definition sized :: "candidate list \<Rightarrow> bool" where
  "sized cs \<longleftrightarrow> (\<forall>c\<in>set cs. 0 < k_size c) \<and> distinct (map k_index cs)"

lemma take_whole_fold:
  assumes "sized cs" "foldl (take_whole ws) (used, m) cs = (used', m')" "used \<le> ws"
  shows "shared cs used m used' m' \<and> used' \<le> ws
    \<and> (\<forall>c\<in>set cs. allotted m' c = 0 \<or> allotted m' c = k_size c)"
  using assms
proof (induction cs arbitrary: used m)
  case Nil
  then show ?case by (simp add: shared_def)
next
  case (Cons c cs)
  let ?t = "if used + k_size c \<le> ws then k_size c else 0"
  have cs: "sized cs" "k_index c \<notin> k_index ` set cs" using Cons.prems(1) by (auto simp: sized_def)
  have "foldl (take_whole ws) (used + ?t, m(k_index c \<mapsto> ?t)) cs = (used', m')"
    using Cons.prems(2) by (simp only: foldl_Cons take_whole_def [of ws "(used, m)" c] Let_def prod.case)
  then have IH: "shared cs (used + ?t) (m(k_index c \<mapsto> ?t)) used' m' \<and> used' \<le> ws
    \<and> (\<forall>c\<in>set cs. allotted m' c = 0 \<or> allotted m' c = k_size c)"
    using Cons.prems(3) by (intro Cons.IH [OF cs(1)]) (auto simp del: fun_upd_apply)
  note step = shared_Cons [OF conjunct1 [OF IH] cs(2)]
  have "allotted m' c = 0 \<or> allotted m' c = k_size c" using step(2) by simp
  then show ?case using step(1) IH by simp
qed

lemma take_split_fold:
  assumes "sized cs" "foldl (take_split rest tot) (used, m) cs = (used', m')" "0 \<le> rest" "0 \<le> tot"
  shows "shared cs used m used' m'
    \<and> (\<forall>c\<in>set cs. 0 \<le> allotted m' c \<and> allotted m' c \<le> k_size c \<and> allotted m' c \<le> k_size c * rest div tot)"
  using assms
proof (induction cs arbitrary: used m)
  case Nil
  then show ?case by (simp add: shared_def)
next
  case (Cons c cs)
  let ?share = "if tot = 0 then 0 else k_size c * rest sdiv tot"
  let ?t = "if ?share < k_size c then ?share else k_size c"
  have cs: "sized cs" "k_index c \<notin> k_index ` set cs" and size: "0 < k_size c"
    using Cons.prems(1) by (auto simp: sized_def)
  have "0 \<le> k_size c * rest" using size Cons.prems(3) by simp
  then have t: "0 \<le> ?t" "?t \<le> k_size c" "?t \<le> k_size c * rest div tot"
    using Cons.prems(4) size by auto
  have "foldl (take_split rest tot) (used + ?t, m(k_index c \<mapsto> ?t)) cs = (used', m')"
    using Cons.prems(2) by (simp only: foldl_Cons take_split_def [of rest tot "(used, m)" c] Let_def prod.case)
  then have "shared cs (used + ?t) (m(k_index c \<mapsto> ?t)) used' m'
    \<and> (\<forall>c\<in>set cs. 0 \<le> allotted m' c \<and> allotted m' c \<le> k_size c \<and> allotted m' c \<le> k_size c * rest div tot)"
    by (intro Cons.IH cs Cons.prems)
  then show ?case using shared_Cons [OF _ cs(2)] t by auto
qed

text \<open>The top up keeps every amount within its size and stops only at the cap or with everyone full.\<close>

lemma top_up_fold:
  assumes "sized cs" "foldl (top_up cap) (used, m) cs = (used', m')" "used \<le> cap"
    "\<forall>c\<in>set cs. 0 \<le> allotted m c \<and> allotted m c \<le> k_size c \<and> m (k_index c) \<noteq> None"
  shows "used' - used = (\<Sum>c\<leftarrow>cs. allotted m' c) - (\<Sum>c\<leftarrow>cs. allotted m c) \<and> used' \<le> cap \<and> used \<le> used'
    \<and> (\<forall>k. k \<notin> k_index ` set cs \<longrightarrow> m' k = m k)
    \<and> (\<forall>c\<in>set cs. 0 \<le> allotted m' c \<and> allotted m' c \<le> k_size c \<and> m' (k_index c) \<noteq> None)
    \<and> (used' < cap \<longrightarrow> (\<forall>c\<in>set cs. allotted m' c = k_size c))"
  using assms
proof (induction cs arbitrary: used m)
  case (Cons c cs)
  obtain u1 m1 where s: "top_up cap (used, m) c = (u1, m1)" by (cases "top_up cap (used, m) c")
  have cs: "sized cs" "k_index c \<notin> k_index ` set cs" using Cons.prems(1) by (auto simp: sized_def)
  have c: "0 \<le> allotted m c" "allotted m c \<le> k_size c" "m (k_index c) \<noteq> None" using Cons.prems(4) by auto
  have one: "u1 - used = allotted m1 c - allotted m c" "u1 \<le> cap" "used \<le> u1"
    "\<forall>k. k \<noteq> k_index c \<longrightarrow> m1 k = m k" "0 \<le> allotted m1 c" "allotted m1 c \<le> k_size c"
    "m1 (k_index c) \<noteq> None" "u1 < cap \<longrightarrow> allotted m1 c = k_size c"
    using s c Cons.prems(3) by (auto simp: top_up_def Let_def allotted_def split: if_splits)
  have same: "allotted m1 d = allotted m d \<and> m1 (k_index d) = m (k_index d)" if "d \<in> set cs" for d
  proof -
    have "k_index d \<noteq> k_index c" using that cs(2) by (metis imageI)
    then show ?thesis using one(4) by (simp add: allotted_def)
  qed
  have IH: "used' - u1 = (\<Sum>c\<leftarrow>cs. allotted m' c) - (\<Sum>c\<leftarrow>cs. allotted m1 c) \<and> used' \<le> cap \<and> u1 \<le> used'
    \<and> (\<forall>k. k \<notin> k_index ` set cs \<longrightarrow> m' k = m1 k)
    \<and> (\<forall>c\<in>set cs. 0 \<le> allotted m' c \<and> allotted m' c \<le> k_size c \<and> m' (k_index c) \<noteq> None)
    \<and> (used' < cap \<longrightarrow> (\<forall>c\<in>set cs. allotted m' c = k_size c))"
    using Cons.prems s one(2) same by (intro Cons.IH cs) auto
  have own: "m' (k_index c) = m1 (k_index c)" using IH cs(2) by blast
  then have "allotted m' c = allotted m1 c" by (simp add: allotted_def)
  moreover have "(\<Sum>c\<leftarrow>cs. allotted m1 c) = (\<Sum>c\<leftarrow>cs. allotted m c)"
    using same by (intro arg_cong [where f = sum_list] map_cong) auto
  ultimately show ?case using IH one own by auto
qed simp


text \<open>What one tier leaves behind, whether it is filled completely or rationed.\<close>

lemma distinct_whole_split:
  "sized cs \<Longrightarrow> sized (filter P cs)" "sized cs \<Longrightarrow> sized (js_sort cmp cs)"
  by (auto simp: sized_def distinct_map_filter)

lemma full_tier:
  assumes "sized cs"
  shows "\<forall>c\<in>set cs. allotted (foldl (\<lambda>m c. m(k_index c \<mapsto> k_size c)) m cs) c = k_size c"
    "k \<notin> k_index ` set cs \<Longrightarrow> foldl (\<lambda>m c. m(k_index c \<mapsto> k_size c)) m cs k = m k"
proof -
  have other: "k \<notin> k_index ` set cs \<Longrightarrow> foldl (\<lambda>m c. m(k_index c \<mapsto> k_size c)) m cs k = m k" for k m cs
    by (induction cs arbitrary: m) auto
  then show "k \<notin> k_index ` set cs \<Longrightarrow> foldl (\<lambda>m c. m(k_index c \<mapsto> k_size c)) m cs k = m k" .
  show "\<forall>c\<in>set cs. allotted (foldl (\<lambda>m c. m(k_index c \<mapsto> k_size c)) m cs) c = k_size c"
    using assms by (induction cs arbitrary: m) (auto simp: sized_def allotted_def other)
qed

definition tier_filled :: "candidate list \<Rightarrow> int \<Rightarrow> (nat \<rightharpoonup> int) \<Rightarrow> int \<Rightarrow> (nat \<rightharpoonup> int) \<Rightarrow> bool" where
  "tier_filled tier cap m left m' \<longleftrightarrow>
     0 \<le> left \<and> (\<Sum>c\<leftarrow>tier. allotted m' c) = cap - left
     \<and> (\<forall>k. k \<notin> k_index ` set tier \<longrightarrow> m' k = m k)
     \<and> (\<forall>c\<in>set tier. 0 \<le> allotted m' c \<and> allotted m' c \<le> k_size c
          \<and> (\<not> k_partial c \<longrightarrow> allotted m' c = 0 \<or> allotted m' c = k_size c)
          \<and> (k_partial c \<and> 0 < left \<longrightarrow> allotted m' c = k_size c))"

lemma allotted_cong: "m (k_index c) = m' (k_index c) \<Longrightarrow> allotted m c = allotted m' c"
  by (simp add: allotted_def)

lemma index_apart:
  assumes "sized cs" "c \<in> set (filter P cs)" "Q = (\<lambda>c. \<not> P c)"
  shows "k_index c \<notin> k_index ` set (filter Q cs)"
proof
  assume "k_index c \<in> k_index ` set (filter Q cs)"
  then obtain d where "d \<in> set cs" "\<not> P d" "k_index c = k_index d" using assms(3) by auto
  moreover from this have "c = d"
    using assms(1,2) by (auto simp: sized_def distinct_map dest: inj_onD)
  ultimately show False using assms(2) by simp
qed

lemma whole_share_bounds:
  fixes cap w s :: int
  assumes "0 \<le> cap" "0 \<le> w" "0 \<le> s" "cap < w + s"
  shows "0 \<le> cap * w sdiv (w + s)" "cap * w sdiv (w + s) \<le> cap"
proof -
  have e: "cap * w sdiv (w + s) = cap * w div (w + s)" using assms by simp
  show "0 \<le> cap * w sdiv (w + s)" unfolding e using assms by (intro floor_nonneg) simp_all
  show "cap * w sdiv (w + s) \<le> cap" unfolding e using assms by (intro floor_share_le) simp_all
qed

lemma split_within_rest:
  assumes "sized cs" "0 \<le> rest"
    "\<forall>c\<in>set cs. allotted m c \<le> k_size c * rest div (\<Sum>c\<leftarrow>cs. k_size c)"
  shows "(\<Sum>c\<leftarrow>cs. allotted m c) \<le> rest"
proof (cases cs)
  case (Cons d ds)
  have "k_size d \<le> (\<Sum>c\<leftarrow>cs. k_size c)"
    using assms(1) Cons by (intro member_le_sum_int) (auto simp: sized_def less_imp_le)
  then have d: "0 < (\<Sum>c\<leftarrow>cs. k_size c)" using assms(1) Cons by (simp add: sized_def)
  have "(\<Sum>c\<leftarrow>cs. allotted m c) \<le> (\<Sum>c\<leftarrow>cs. k_size c * rest div (\<Sum>c\<leftarrow>cs. k_size c))"
    using assms(3) by (intro sum_list_mono_int) auto
  also have "\<dots> \<le> (\<Sum>c\<leftarrow>cs. k_size c * rest) div (\<Sum>c\<leftarrow>cs. k_size c)"
    by (rule sum_list_floor_le [OF d])
  also have "\<dots> = rest" using d by (simp add: sum_list_mult_const)
  finally show ?thesis .
qed (use assms in simp)

text \<open>The rationed branch of a tier, as the three loops leave it.\<close>

lemma rationed_tier:
  assumes "sized tier" "0 \<le> cap" "cap < (\<Sum>c\<leftarrow>tier. k_size c)" "ration_tier (cap, m) tier = (left, m')"
  obtains u1 m1 u2 m2 where
    "shared (js_sort whole_order (filter (\<lambda>c. \<not> k_partial c) tier)) 0 m u1 m1"
    "\<forall>c\<in>set tier. \<not> k_partial c \<longrightarrow> allotted m1 c = 0 \<or> allotted m1 c = k_size c"
    "shared (filter k_partial tier) u1 m1 u2 m2" "u2 \<le> cap"
    "\<forall>c\<in>set (filter k_partial tier). 0 \<le> allotted m2 c \<and> allotted m2 c \<le> k_size c \<and> m2 (k_index c) \<noteq> None"
    "foldl (top_up cap) (u2, m2) (filter k_partial tier) = (cap - left, m')"
proof -
  let ?W = "js_sort whole_order (filter (\<lambda>c. \<not> k_partial c) tier)" and ?S = "filter k_partial tier"
  let ?w = "\<Sum>c\<leftarrow>?W. k_size c" and ?s = "\<Sum>c\<leftarrow>?S. k_size c"
  let ?ws = "cap * ?w sdiv (?w + ?s)"
  have tot: "(\<Sum>c\<leftarrow>tier. k_size c) = ?w + ?s"
    using sum_list_filter_split [of k_size k_partial tier] by simp
  have sizes: "sized ?W" "sized ?S" using assms(1) by (simp_all add: distinct_whole_split)
  have nonneg: "0 \<le> ?w" "0 \<le> ?s"
    using assms(1) by (auto simp: sized_def less_imp_le intro!: sum_list_nonneg_int)
  obtain u1 m1 where w: "foldl (take_whole ?ws) (0, m) ?W = (u1, m1)" by fastforce
  obtain u2 m2 where s: "foldl (take_split (cap - u1) ?s) (u1, m1) ?S = (u2, m2)" by fastforce
  obtain u3 m3 where t: "foldl (top_up cap) (u2, m2) ?S = (u3, m3)" by fastforce
  have "\<not> (\<Sum>c\<leftarrow>tier. k_size c) \<le> cap" using assms(3) by simp
  then have r: "left = cap - u3" "m' = m3"
    using assms(4) w s t unfolding ration_tier_def Let_def tot by (simp_all del: sdiv_floor sum_js_sort)
  have ws: "0 \<le> ?ws" "?ws \<le> cap"
    using whole_share_bounds [OF assms(2) nonneg] assms(3) tot by auto
  note W = take_whole_fold [OF sizes(1) w ws(1)]
  have rest: "0 \<le> cap - u1" using W ws(2) by auto
  note S = take_split_fold [OF sizes(2) s rest nonneg(2)]
  have "(\<Sum>c\<leftarrow>?S. allotted m2 c) \<le> cap - u1"
    using S by (intro split_within_rest sizes rest) auto
  then have u2: "u2 \<le> cap" using S by (simp add: shared_def)
  have some: "\<forall>c\<in>set ?S. 0 \<le> allotted m2 c \<and> allotted m2 c \<le> k_size c \<and> m2 (k_index c) \<noteq> None"
    using S unfolding shared_def by blast
  show thesis
    by (rule that [of u1 m1 u2 m2]) (use W S u2 some t r in auto)
qed

lemma ration_tier_filled:
  assumes "sized tier" "0 \<le> cap" "ration_tier (cap, m) tier = (left, m')"
  shows "tier_filled tier cap m left m'"
proof (cases "(\<Sum>c\<leftarrow>tier. k_size c) \<le> cap")
  case True
  then have r: "left = cap - (\<Sum>c\<leftarrow>tier. k_size c)" "m' = foldl (\<lambda>m c. m(k_index c \<mapsto> k_size c)) m tier"
    using assms(3) by (auto simp: ration_tier_def Let_def)
  have full: "\<forall>c\<in>set tier. allotted m' c = k_size c" unfolding r by (rule full_tier(1) [OF assms(1)])
  then have "(\<Sum>c\<leftarrow>tier. allotted m' c) = (\<Sum>c\<leftarrow>tier. k_size c)"
    by (intro arg_cong [where f = sum_list] map_cong) auto
  moreover have "\<forall>c\<in>set tier. 0 \<le> k_size c" using assms(1) by (auto simp: sized_def)
  ultimately show ?thesis
    using True full full_tier(2) [OF assms(1)] by (simp add: tier_filled_def r)
next
  case False
  let ?W = "js_sort whole_order (filter (\<lambda>c. \<not> k_partial c) tier)" and ?S = "filter k_partial tier"
  obtain u1 m1 u2 m2 where W: "shared ?W 0 m u1 m1"
      "\<forall>c\<in>set tier. \<not> k_partial c \<longrightarrow> allotted m1 c = 0 \<or> allotted m1 c = k_size c"
    and S: "shared ?S u1 m1 u2 m2" and T0: "u2 \<le> cap"
      "\<forall>c\<in>set ?S. 0 \<le> allotted m2 c \<and> allotted m2 c \<le> k_size c \<and> m2 (k_index c) \<noteq> None"
      "foldl (top_up cap) (u2, m2) ?S = (cap - left, m')"
  proof (rule rationed_tier [OF assms(1,2) _ assms(3)])
    show "cap < (\<Sum>c\<leftarrow>tier. k_size c)" using False by simp
  qed
  note T = top_up_fold [OF distinct_whole_split(1) [OF assms(1)] T0(3,1,2)]
  have keep: "allotted m' c = allotted m1 c" if "c \<in> set ?W" for c
  proof -
    have "c \<in> set (filter (\<lambda>c. \<not> k_partial c) tier)" using that by simp
    then have "k_index c \<notin> k_index ` set ?S" by (rule index_apart [OF assms(1)]) simp
    then have "m' (k_index c) = m1 (k_index c)" using S T by (simp add: shared_def)
    then show ?thesis by (rule allotted_cong)
  qed
  have "cap - left = (\<Sum>c\<leftarrow>?W. allotted m1 c) + (\<Sum>c\<leftarrow>?S. allotted m' c)"
    using W(1) S T by (simp add: shared_def del: sum_js_sort)
  also have "(\<Sum>c\<leftarrow>?W. allotted m1 c) = (\<Sum>c\<leftarrow>?W. allotted m' c)"
    using keep by (intro arg_cong [where f = sum_list] map_cong) auto
  finally have sum: "(\<Sum>c\<leftarrow>tier. allotted m' c) = cap - left"
    using sum_list_filter_split [of "allotted m'" k_partial tier] by simp
  have unch: "m' k = m k" if "k \<notin> k_index ` set tier" for k
  proof -
    have "k \<notin> k_index ` set ?S" "k \<notin> k_index ` set ?W" using that by auto
    then show ?thesis using W S T by (simp add: shared_def)
  qed
  have each: "0 \<le> allotted m' c \<and> allotted m' c \<le> k_size c
      \<and> (\<not> k_partial c \<longrightarrow> allotted m' c = 0 \<or> allotted m' c = k_size c)
      \<and> (k_partial c \<and> 0 < left \<longrightarrow> allotted m' c = k_size c)" if "c \<in> set tier" for c
  proof (cases "k_partial c")
    case True
    then show ?thesis using T that by auto
  next
    case False
    moreover have "0 < k_size c" using that assms(1) by (simp add: sized_def)
    ultimately show ?thesis using W(2) keep [of c] that by auto
  qed
  show ?thesis using T unch each sum by (simp add: tier_filled_def)
qed

text \<open>Both tiers of one side.\<close>

lemma ration_tiers:
  assumes "sized side" "0 \<le> capacity"
  obtains left1 m1 left2 where "tier_filled (filter k_better side) capacity m left1 m1"
    "tier_filled (filter (\<lambda>c. \<not> k_better c) side) left1 m1 left2 (ration side capacity m)"
proof -
  obtain left1 m1 where 1: "ration_tier (capacity, m) (filter k_better side) = (left1, m1)" by fastforce
  obtain left2 m2 where 2: "ration_tier (left1, m1) (filter (\<lambda>c. \<not> k_better c) side) = (left2, m2)" by fastforce
  have f1: "tier_filled (filter k_better side) capacity m left1 m1"
    by (rule ration_tier_filled [OF _ assms(2) 1]) (rule distinct_whole_split(1) [OF assms(1)])
  then have "0 \<le> left1" by (simp add: tier_filled_def)
  then have "tier_filled (filter (\<lambda>c. \<not> k_better c) side) left1 m1 left2 m2"
    using 2 distinct_whole_split(1) [OF assms(1)] by (intro ration_tier_filled)
  moreover have "ration side capacity m = m2" using 1 2 by (simp add: ration_def)
  ultimately show thesis using that f1 by blast
qed

text \<open>What one side gets: amounts within sizes, whole orders all or nothing, the better tier first.\<close>

definition rationed :: "candidate list \<Rightarrow> int \<Rightarrow> (nat \<rightharpoonup> int) \<Rightarrow> bool" where
  "rationed side capacity m \<longleftrightarrow>
     (\<Sum>c\<leftarrow>side. allotted m c) \<le> capacity
     \<and> (\<forall>c\<in>set side. 0 \<le> allotted m c \<and> allotted m c \<le> k_size c
          \<and> (\<not> k_partial c \<longrightarrow> allotted m c = 0 \<or> allotted m c = k_size c))
     \<and> ((\<exists>c\<in>set side. k_better c \<and> k_partial c \<and> allotted m c < k_size c)
          \<longrightarrow> (\<forall>d\<in>set side. \<not> k_better d \<longrightarrow> allotted m d = 0))
     \<and> ((\<forall>c\<in>set side. k_partial c)
          \<longrightarrow> (\<Sum>c\<leftarrow>side. allotted m c) = min capacity (\<Sum>c\<leftarrow>side. k_size c))"

lemma ration_rationed:
  assumes "sized side" "0 \<le> capacity"
  shows "rationed side capacity (ration side capacity m)"
    and "k \<notin> k_index ` set side \<Longrightarrow> ration side capacity m k = m k"
proof -
  let ?A = "filter k_better side" and ?B = "filter (\<lambda>c. \<not> k_better c) side"
  let ?m = "ration side capacity m"
  obtain l1 m1 l2 where A: "tier_filled ?A capacity m l1 m1" and B: "tier_filled ?B l1 m1 l2 ?m"
    by (rule ration_tiers [OF assms])
  show "k \<notin> k_index ` set side \<Longrightarrow> ?m k = m k"
    using A B unfolding tier_filled_def by (metis (no_types, lifting) filter_is_subset image_mono subsetD)
  have keep: "allotted ?m c = allotted m1 c" if "c \<in> set ?A" for c
  proof (rule allotted_cong)
    have "k_index c \<notin> k_index ` set ?B" by (rule index_apart [OF assms(1) that]) simp
    then show "?m (k_index c) = m1 (k_index c)" using B by (simp add: tier_filled_def)
  qed
  have sumA: "(\<Sum>c\<leftarrow>?A. allotted ?m c) = capacity - l1"
    using A keep by (metis (no_types, lifting) map_cong tier_filled_def)
  have sumB: "(\<Sum>c\<leftarrow>?B. allotted ?m c) = l1 - l2" using B by (simp add: tier_filled_def)
  have sum: "(\<Sum>c\<leftarrow>side. allotted ?m c) = capacity - l2"
    using sum_list_filter_split [of "allotted ?m" k_better side] sumA sumB by simp
  have l: "0 \<le> l1" "0 \<le> l2" using A B by (auto simp: tier_filled_def)
  have each: "0 \<le> allotted ?m c \<and> allotted ?m c \<le> k_size c
      \<and> (\<not> k_partial c \<longrightarrow> allotted ?m c = 0 \<or> allotted ?m c = k_size c)
      \<and> (k_partial c \<and> 0 < (if k_better c then l1 else l2) \<longrightarrow> allotted ?m c = k_size c)" if "c \<in> set side" for c
    using A B keep [of c] that by (auto simp: tier_filled_def)
  have empty: "allotted ?m d = 0" if "l1 = 0" "d \<in> set ?B" for d
  proof -
    have "allotted ?m d \<le> (\<Sum>c\<leftarrow>?B. allotted ?m c)"
      using each that by (intro member_le_sum_int) auto
    then show ?thesis using sumB l that each [of d] by auto
  qed
  have all: "(\<Sum>c\<leftarrow>side. allotted ?m c) = min capacity (\<Sum>c\<leftarrow>side. k_size c)" if "\<forall>c\<in>set side. k_partial c"
  proof (cases "l2 = 0")
    case True
    moreover have "(\<Sum>c\<leftarrow>side. allotted ?m c) \<le> (\<Sum>c\<leftarrow>side. k_size c)" using each by (intro sum_list_mono_int) auto
    ultimately show ?thesis using sum by simp
  next
    case False
    have "l2 \<le> l1" using sumB each by (smt (verit) sum_list_nonneg_int filter_is_subset subsetD)
    then have "\<forall>c\<in>set side. allotted ?m c = k_size c" using False l each that by (smt (verit))
    then have "(\<Sum>c\<leftarrow>side. allotted ?m c) = (\<Sum>c\<leftarrow>side. k_size c)"
      by (intro arg_cong [where f = sum_list] map_cong) auto
    then show ?thesis using sum l by simp
  qed
  show "rationed side capacity ?m" unfolding rationed_def
  proof (intro conjI impI)
    show "(\<Sum>c\<leftarrow>side. allotted ?m c) \<le> capacity" using sum l by simp
    show "\<forall>c\<in>set side. 0 \<le> allotted ?m c \<and> allotted ?m c \<le> k_size c
      \<and> (\<not> k_partial c \<longrightarrow> allotted ?m c = 0 \<or> allotted ?m c = k_size c)" using each by blast
    assume "\<exists>c\<in>set side. k_better c \<and> k_partial c \<and> allotted ?m c < k_size c"
    then have "l1 = 0" using each l(1) by (smt (verit))
    then show "\<forall>d\<in>set side. \<not> k_better d \<longrightarrow> allotted ?m d = 0" using empty by auto
  qed (use all in blast)
qed

section \<open>The passes of the allocation\<close>

text \<open>A pair as the book builds it: positions are distinct and amounts are unsigned.\<close>

definition valid_pair :: "pair \<Rightarrow> bool" where
  "valid_pair pair \<longleftrightarrow> distinct (map b_index (p_entries pair))
     \<and> (\<forall>e\<in>set (p_entries pair). 0 \<le> i_sellAmount (b_intent e) \<and> 0 \<le> i_minBuyAmount (b_intent e))"

definition live_in :: "pair \<Rightarrow> int \<Rightarrow> int \<Rightarrow> candidate \<Rightarrow> bool" where
  "live_in pair quotePrice basePrice c \<longleftrightarrow>
     k_entry c \<in> set (p_entries pair)
     \<and> k_buys c = same (i_sellToken (b_intent (k_entry c))) (p_quote pair)
     \<and> k_partial c = partial_fill (i_flags (b_intent (k_entry c)))
     \<and> 0 < k_size c
     \<and> k_size c = (if k_buys c then i_sellAmount (b_intent (k_entry c)) * quotePrice div basePrice
                   else i_sellAmount (b_intent (k_entry c)))"

lemma allotment_spec:
  assumes "sized live" "0 \<le> vb"
  defines "buyers \<equiv> filter k_buys live" and "sellers \<equiv> filter (\<lambda>c. \<not> k_buys c) live"
  defines "m \<equiv> allotment live vb"
  shows "if (\<Sum>c\<leftarrow>buyers. k_size c) > (\<Sum>c\<leftarrow>sellers. k_size c)
     then (\<forall>c\<in>set sellers. allotted m c = k_size c) \<and> rationed buyers ((\<Sum>c\<leftarrow>sellers. k_size c) + vb) m
     else (\<forall>c\<in>set buyers. allotted m c = k_size c) \<and> rationed sellers ((\<Sum>c\<leftarrow>buyers. k_size c) + vb) m"
proof -
  have sizes: "sized buyers" "sized sellers"
    using assms(1) by (simp_all add: buyers_def sellers_def distinct_whole_split)
  have sums: "0 \<le> (\<Sum>c\<leftarrow>buyers. k_size c) + vb" "0 \<le> (\<Sum>c\<leftarrow>sellers. k_size c) + vb"
    using sizes assms(2) by (auto simp: sized_def less_imp_le intro!: add_nonneg_nonneg sum_list_nonneg_int)
  have apart1: "k_index c \<notin> k_index ` set buyers" if "c \<in> set sellers" for c
    unfolding buyers_def using that by (intro index_apart [OF assms(1), of c "\<lambda>c. \<not> k_buys c"]) (auto simp: sellers_def)
  have apart2: "k_index c \<notin> k_index ` set sellers" if "c \<in> set buyers" for c
    unfolding sellers_def using that by (intro index_apart [OF assms(1), of c k_buys]) (auto simp: buyers_def)
  have keep: "allotted (ration side cap m0) c = allotted m0 c"
    if "sized side" "0 \<le> cap" "k_index c \<notin> k_index ` set side" for side cap m0 c
    by (rule allotted_cong) (rule ration_rationed(2) [OF that])
  show ?thesis
  proof (cases "(\<Sum>c\<leftarrow>buyers. k_size c) > (\<Sum>c\<leftarrow>sellers. k_size c)")
    case True
    then have m: "m = ration buyers ((\<Sum>c\<leftarrow>sellers. k_size c) + vb) (foldl (\<lambda>m c. m(k_index c \<mapsto> k_size c)) Map.empty sellers)"
      by (simp add: m_def allotment_def Let_def buyers_def sellers_def)
    show ?thesis
      using True ration_rationed(1) [OF sizes(1) sums(2)] keep [OF sizes(1) sums(2) apart1] full_tier(1) [OF sizes(2)]
      by (simp add: m)
  next
    case False
    then have m: "m = ration sellers ((\<Sum>c\<leftarrow>buyers. k_size c) + vb) (foldl (\<lambda>m c. m(k_index c \<mapsto> k_size c)) Map.empty buyers)"
      by (simp add: m_def allotment_def Let_def buyers_def sellers_def)
    show ?thesis
      using False ration_rationed(1) [OF sizes(2) sums(1)] keep [OF sizes(2) sums(1) apart2] full_tier(1) [OF sizes(1)]
      by (simp add: m)
  qed
qed

lemma allotment_bounds:
  assumes "sized live" "0 \<le> vb" "c \<in> set live"
  shows "0 \<le> allotted (allotment live vb) c" "allotted (allotment live vb) c \<le> k_size c"
    "\<not> k_partial c \<Longrightarrow> allotted (allotment live vb) c = 0 \<or> allotted (allotment live vb) c = k_size c"
  using allotment_spec [OF assms(1,2)] assms(1,3)
  by (cases "k_buys c"; auto simp: rationed_def sized_def less_imp_le split: if_splits)+

text \<open>The admission loop keeps what \<open>live_in\<close> says and the order of the entries.\<close>

lemma nested_if_fst:
  "(if A then (a, x) else if B then (a, y) else (b, z)) = (l, e) \<Longrightarrow> l = a \<or> \<not> B \<and> l = b"
  by (auto split: if_splits)

lemma admit_entry_live:
  assumes "admit_entry pair price qp bp (live, exc) e = (l1, e1)"
  shows "l1 = live \<or> (\<exists>k. l1 = live @ [k] \<and> k_entry k = e
    \<and> k_buys k = same (i_sellToken (b_intent e)) (p_quote pair)
    \<and> k_size k = (if same (i_sellToken (b_intent e)) (p_quote pair)
                   then i_sellAmount (b_intent e) * qp sdiv bp else i_sellAmount (b_intent e))
    \<and> k_size k \<noteq> 0 \<and> k_partial k = partial_fill (i_flags (b_intent e)))"
proof -
  let ?i = "b_intent e" and ?b = "same (i_sellToken (b_intent e)) (p_quote pair)"
  let ?size = "if ?b then i_sellAmount ?i * qp sdiv bp else i_sellAmount ?i"
  have "l1 = live \<or> ?size \<noteq> 0 \<and> (\<exists>w. l1 = live @ [\<lparr>k_entry = e, k_buys = ?b, k_size = ?size,
      k_partial = partial_fill (i_flags ?i), k_better = w\<rparr>])"
    by (rule nested_if_fst [OF assms [unfolded admit_entry_def Let_def prod.case], THEN disjE])
      (rule disjI1, assumption, rule disjI2, elim conjE, intro conjI exI, assumption+)
  then show ?thesis
    by (elim disjE conjE exE) (rule disjI1, assumption, rule disjI2, rule exI, rule conjI, assumption,
      unfold candidate.select_convs, intro conjI refl, assumption)
qed

lemma admit_fold:
  assumes "foldl (admit_entry pair price qp bp) (live, exc) es = (live', exc')"
    "\<forall>e\<in>set es. e \<in> set (p_entries pair) \<and> 0 \<le> i_sellAmount (b_intent e)" "0 \<le> qp" "0 < bp"
    "\<forall>c\<in>set live. live_in pair qp bp c" "distinct (map k_index live @ map b_index es)"
  shows "(\<forall>c\<in>set live'. live_in pair qp bp c) \<and> distinct (map k_index live') \<and> length live' \<le> length live + length es"
  using assms
proof (induction es arbitrary: live exc)
  case (Cons e es)
  obtain l1 e1 where s: "admit_entry pair price qp bp (live, exc) e = (l1, e1)" by fastforce
  have l1: "l1 = live \<or> (\<exists>c. l1 = live @ [c] \<and> live_in pair qp bp c \<and> k_entry c = e)"
  proof (cases "l1 = live")
    case False
    let ?i = "b_intent e" and ?b = "same (i_sellToken (b_intent e)) (p_quote pair)"
    let ?size = "if ?b then i_sellAmount ?i * qp sdiv bp else i_sellAmount ?i"
    have amounts: "0 \<le> i_sellAmount ?i" "e \<in> set (p_entries pair)" using Cons.prems(2) by auto
    then have eq: "?size = (if ?b then i_sellAmount ?i * qp div bp else i_sellAmount ?i)"
      using Cons.prems(3,4) by simp
    moreover have "0 \<le> (if ?b then i_sellAmount ?i * qp div bp else i_sellAmount ?i)"
      using amounts Cons.prems(3,4) by simp
    moreover obtain k where k: "l1 = live @ [k]" "k_entry k = e" "k_buys k = ?b" "k_size k = ?size"
      "k_size k \<noteq> 0" "k_partial k = partial_fill (i_flags ?i)"
      using False admit_entry_live [OF s] by blast
    ultimately have "live_in pair qp bp k" using amounts unfolding live_in_def by simp
    then show ?thesis using k by blast
  qed simp
  then have inv: "\<forall>c\<in>set l1. live_in pair qp bp c" "distinct (map k_index l1 @ map b_index es)"
    "length l1 \<le> Suc (length live)"
    using Cons.prems(5,6) l1 by (elim disjE exE; simp; blast)+
  have "foldl (admit_entry pair price qp bp) (l1, e1) es = (live', exc')" using Cons.prems(1) s by simp
  then show ?case using Cons.IH [OF _ _ _ _ inv(1,2)] Cons.prems(2-4) inv(3) by fastforce
qed simp

lemma live_in_pos: "live_in pair qp bp c \<Longrightarrow> 0 < k_size c"
  unfolding live_in_def by (elim conjE)

lemma live_in_sized: "(\<forall>c\<in>set live. live_in pair qp bp c) \<Longrightarrow> distinct (map k_index live) \<Longrightarrow> sized live"
  by (auto simp: sized_def live_in_pos)

lemma f_index_fill_of [simp]: "f_index (fill_of qp bp a c) = k_index c"
  by (simp add: fill_of_def Let_def split: prod.split)

lemma fills_for_index: "(f, r) \<in> set (fills_for live qp bp vb) \<Longrightarrow> f_index f \<in> k_index ` set live"
  by (auto simp: fills_for_def Let_def)

text \<open>
  A pass that finds a refused fill removes at least that one intent, so one pass more than there
  are live intents always ends in an answer, and that answer is the fills of a pass without a
  refusal.
\<close>

lemma settle_passes_spec:
  assumes "length live < n"
  obtains P excluded' where
    "settle_passes n qp bp vb live excluded =
       Inr (map fst (filter (\<lambda>(f, _). f_executedSell f > 0) (fills_for (filter P live) qp bp vb)), excluded')"
    "\<forall>(f, r)\<in>set (fills_for (filter P live) qp bp vb). r = None"
  using assms
proof (induction n arbitrary: live excluded thesis)
  case (Suc n)
  show ?case
  proof (cases "find (\<lambda>(f, reason). reason \<noteq> None) (fills_for live qp bp vb)")
    case None
    then have "\<forall>(f, r)\<in>set (fills_for live qp bp vb). r = None" by (auto simp: find_None_iff)
    then show ?thesis using None Suc.prems(1) [of "\<lambda>_. True"] by (simp add: Let_def)
  next
    case (Some br)
    obtain bad r where br: "br = (bad, r)" by fastforce
    have "(bad, r) \<in> set (fills_for live qp bp vb)"
      using Some by (metis br find_Some_iff nth_mem)
    then obtain c where c: "c \<in> set live" "k_index c = f_index bad" using fills_for_index by fastforce
    let ?live = "filter (\<lambda>c. k_index c \<noteq> f_index bad) live"
    have "length ?live < length live" using c by (intro length_filter_less) auto
    then have "length ?live < n" using Suc.prems(2) by simp
    from Suc.IH [OF _ this] obtain P exc' where
      "settle_passes n qp bp vb ?live (excluded @ [(f_index bad, the r)]) =
        Inr (map fst (filter (\<lambda>(f, _). f_executedSell f > 0) (fills_for (filter P ?live) qp bp vb)), exc')"
      "\<forall>(f, r)\<in>set (fills_for (filter P ?live) qp bp vb). r = None" by blast
    then show ?thesis
      using Suc.prems(1) [of "\<lambda>c. k_index c \<noteq> f_index bad \<and> P c"] Some br
      by (simp add: Let_def conj_commute)
  qed
qed simp

text \<open>What \<open>allocate\<close> answers, in terms of the pass it settles on.\<close>

definition settled_allocation :: "pair \<Rightarrow> allocation \<Rightarrow> int \<Rightarrow> candidate list \<Rightarrow> bool" where
  "settled_allocation pair a vb live \<longleftrightarrow>
     0 < a_basePrice a \<and> (\<forall>c\<in>set live. live_in pair (a_quotePrice a) (a_basePrice a) c) \<and> sized live
     \<and> (\<forall>(f, r)\<in>set (fills_for live (a_quotePrice a) (a_basePrice a) vb). r = None)
     \<and> a_fills a = map fst (filter (\<lambda>(f, _). f_executedSell f > 0)
                                (fills_for live (a_quotePrice a) (a_basePrice a) vb))"

lemma allocate_settled:
  assumes "valid_pair pair" "0 < r_quotePrice ref" "0 \<le> c_price clearing"
  obtains a where "allocate pair clearing ref vb = Inr a" "a_quotePrice a = r_quotePrice ref" "0 \<le> a_basePrice a"
    "a_basePrice a = base_unit_price (c_price clearing) ref" "a_fills a = [] \<or> (\<exists>live. settled_allocation pair a vb live)"
proof -
  let ?bp = "base_unit_price (c_price clearing) ref" and ?qp = "r_quotePrice ref"
  have bp: "0 \<le> ?bp" using assms by (simp add: base_unit_price_def WAD_def)
  show thesis
  proof (cases "?bp = 0")
    case True
    then show thesis by (intro that) (auto simp: allocate_def Let_def)
  next
    case False
    obtain live exc where live: "foldl (admit_entry pair (c_price clearing) ?qp ?bp) ([], []) (p_entries pair) = (live, exc)"
      by fastforce
    have inv: "(\<forall>c\<in>set live. live_in pair ?qp ?bp c) \<and> distinct (map k_index live) \<and> length live \<le> length ([]::candidate list) + length (p_entries pair)"
      using assms(1,2) False bp by (intro admit_fold [OF live]) (auto simp: valid_pair_def)
    then have "length live < length (p_entries pair) + 1" by simp
    then obtain P exc' where P:
      "settle_passes (length (p_entries pair) + 1) ?qp ?bp vb live exc =
         Inr (map fst (filter (\<lambda>(f, _). f_executedSell f > 0) (fills_for (filter P live) ?qp ?bp vb)), exc')"
      "\<forall>(f, r)\<in>set (fills_for (filter P live) ?qp ?bp vb). r = None" by (rule settle_passes_spec)
    have "sized (filter P live)" using inv live_in_sized distinct_whole_split(1) by blast
    then show thesis
      using P live False bp inv
      by (intro that [OF _ _ _ _ disjI2, of "\<lparr>a_price = c_price clearing, a_quotePrice = ?qp, a_basePrice = ?bp,
            a_fills = map fst (filter (\<lambda>(f, _). f_executedSell f > 0) (fills_for (filter P live) ?qp ?bp vb)),
            a_excluded = exc'\<rparr>"])
        (auto simp: allocate_def Let_def settled_allocation_def intro!: exI [of _ "filter P live"])
  qed
qed

lemma settled_distinct:
  assumes "settled_allocation pair a vb live"
  shows "distinct (map f_index (a_fills a))"
proof -
  have fills: "a_fills a = map fst (filter (\<lambda>(f, _). f_executedSell f > 0)
      (fills_for live (a_quotePrice a) (a_basePrice a) vb))" and sized: "sized live"
    using assms unfolding settled_allocation_def by blast+
  have "map (f_index \<circ> fst) (fills_for live (a_quotePrice a) (a_basePrice a) vb) = map k_index live"
    by (simp add: fills_for_def Let_def)
  then show ?thesis
    unfolding fills map_map by (intro distinct_map_filter) (use sized in \<open>simp add: sized_def\<close>)
qed

lemma settled_fill:
  assumes "settled_allocation pair a vb live" "f \<in> set (a_fills a)"
  obtains e where "0 < f_executedSell f" "e \<in> set (p_entries pair)" "b_index e = f_index f"
    "refusal (b_intent e) f (same (i_sellToken (b_intent e)) (p_quote pair)) (a_quotePrice a) (a_basePrice a) = None"
proof -
  let ?F = "\<lambda>c. fill_of (a_quotePrice a) (a_basePrice a) (allotted (allotment live vb) c) c"
  have fills: "a_fills a = map fst (filter (\<lambda>(f, _). f_executedSell f > 0)
      (fills_for live (a_quotePrice a) (a_basePrice a) vb))"
    and lv: "\<forall>c\<in>set live. live_in pair (a_quotePrice a) (a_basePrice a) c"
    and ok: "\<forall>(f, r)\<in>set (fills_for live (a_quotePrice a) (a_basePrice a) vb). r = None"
    using assms(1) unfolding settled_allocation_def by blast+
  have "f \<in> ?F ` {c \<in> set live. 0 < f_executedSell (?F c)}"
    using assms(2) by (force simp: fills fills_for_def Let_def)
  then obtain c where c: "c \<in> set live" "f = ?F c" "0 < f_executedSell f" by blast
  then have "allotted (allotment live vb) c \<noteq> 0" by (auto simp: fill_of_def)
  then have r: "refusal (b_intent (k_entry c)) f (k_buys c) (a_quotePrice a) (a_basePrice a) = None"
    using ok c by (auto simp: fills_for_def Let_def)
  have "k_entry c \<in> set (p_entries pair)" "k_buys c = same (i_sellToken (b_intent (k_entry c))) (p_quote pair)"
    using lv c(1) unfolding live_in_def by blast+
  then show thesis using that [of "k_entry c"] c r by simp
qed

section \<open>The value balance of the fills\<close>

text \<open>At the two unit prices no fill delivers more value than it pulls, whatever it was rationed to.\<close>

lemma fill_value:
  assumes "live_in pair qp bp c" "0 < qp" "0 < bp" "0 \<le> a" "a \<le> k_size c"
  defines "f \<equiv> fill_of qp bp a c"
  shows "0 \<le> f_executedSell f" "f_executedSell f \<le> 0 \<Longrightarrow> f_executedBuy f = 0 \<and> f_executedSell f = 0"
    "k_buys c \<Longrightarrow> f_executedBuy f = a \<and> bp * a \<le> qp * f_executedSell f"
    "\<not> k_buys c \<Longrightarrow> f_executedSell f = a \<and> qp * f_executedBuy f \<le> bp * a"
proof -
  let ?s = "i_sellAmount (b_intent (k_entry c))"
  have size: "0 < k_size c" "k_buys c \<Longrightarrow> k_size c = ?s * qp div bp" "\<not> k_buys c \<Longrightarrow> k_size c = ?s"
    using assms(1) unfolding live_in_def by auto
  have whole: "bp * k_size c \<le> qp * ?s \<and> 0 < ?s" if "k_buys c"
  proof -
    have "bp * k_size c \<le> qp * ?s"
      using floor_mult_le [OF assms(3), of "?s * qp"] size(2) [OF that] by (simp add: mult.commute)
    moreover have "0 < bp * k_size c" using assms(3) size(1) by simp
    ultimately show ?thesis using assms(2) by (smt (verit) mult_nonneg_nonpos)
  qed
  have ceil: "a * bp \<le> (a * bp + qp - 1) div qp * qp" by (rule ceil_mult_ge [OF assms(2)])
  have pos: "0 < (a * bp + qp - 1) div qp" if "0 < a"
    using ceil_greater_iff [OF assms(2), of 0 "a * bp"] that assms(3) by simp
  have floor: "a * bp div qp * qp \<le> a * bp" by (rule floor_mult_le [OF assms(2)])
  have eqs: "(a * bp + qp - 1) sdiv qp = (a * bp + qp - 1) div qp" "a * bp sdiv qp = a * bp div qp"
    using assms(2-4) by (simp_all del: sdiv_floor add: sdiv_ceil sdiv_floor)
  have cases: "f = \<lparr>f_index = k_index c, f_executedSell = 0, f_executedBuy = 0\<rparr> \<and> a = 0
      \<or> 0 < a \<and> k_buys c \<and> f = \<lparr>f_index = k_index c,
          f_executedSell = (if a = k_size c then ?s else (a * bp + qp - 1) div qp), f_executedBuy = a\<rparr>
      \<or> 0 < a \<and> \<not> k_buys c \<and> f = \<lparr>f_index = k_index c, f_executedSell = a, f_executedBuy = a * bp div qp\<rparr>"
    using assms(4) by (simp add: f_def fill_of_def Let_def eqs del: sdiv_floor sdiv_ceil)
  show "0 \<le> f_executedSell f" "f_executedSell f \<le> 0 \<Longrightarrow> f_executedBuy f = 0 \<and> f_executedSell f = 0"
    using cases whole pos by (auto split: if_splits)
  show "k_buys c \<Longrightarrow> f_executedBuy f = a \<and> bp * a \<le> qp * f_executedSell f"
    using cases whole ceil by (auto simp: mult.commute split: if_splits)
  show "\<not> k_buys c \<Longrightarrow> f_executedSell f = a \<and> qp * f_executedBuy f \<le> bp * a"
    using cases floor by (auto simp: mult.commute)
qed

definition base_in :: "candidate \<Rightarrow> fill \<Rightarrow> int" where
  "base_in c f = (if k_buys c then - f_executedBuy f else f_executedSell f)"

definition quote_in :: "candidate \<Rightarrow> fill \<Rightarrow> int" where
  "quote_in c f = (if k_buys c then f_executedSell f else - f_executedBuy f)"

lemma residual_lookup:
  assumes "valid_pair pair" "k_entry c \<in> set (p_entries pair)"
  shows "map_of (rev (map (\<lambda>e. (b_index e, b_intent e)) (p_entries pair))) (k_index c) = Some (b_intent (k_entry c))"
proof (rule map_of_is_SomeI)
  show "distinct (map fst (rev (map (\<lambda>e. (b_index e, b_intent e)) (p_entries pair))))"
    using assms(1) by (simp add: valid_pair_def comp_def rev_map [symmetric])
qed (use assms(2) in auto)

lemma residual_fold:
  assumes "valid_pair pair" "\<forall>c\<in>set live. live_in pair qp bp c \<and> f_index (F c) = k_index c
      \<and> (f_executedSell (F c) \<le> 0 \<longrightarrow> f_executedBuy (F c) = 0 \<and> f_executedSell (F c) = 0)"
  shows "foldE (residual_step pair) (b, q)
      (map fst (filter (\<lambda>(f, _). f_executedSell f > 0) (map (\<lambda>c. (F c, R c)) live)))
    = Inr (b + (\<Sum>c\<leftarrow>live. base_in c (F c)), q + (\<Sum>c\<leftarrow>live. quote_in c (F c)))"
  using assms(2)
proof (induction live arbitrary: b q)
  case (Cons c live)
  have c: "k_entry c \<in> set (p_entries pair)" "k_buys c = same (i_sellToken (b_intent (k_entry c))) (p_quote pair)"
    "f_index (F c) = k_index c" "f_executedSell (F c) \<le> 0 \<longrightarrow> f_executedBuy (F c) = 0 \<and> f_executedSell (F c) = 0"
    using Cons.prems unfolding live_in_def by auto
  have "residual_step pair (b, q) (F c) = Inr (b + base_in c (F c), q + quote_in c (F c))"
    by (simp add: residual_step_def c(3) residual_lookup [OF assms(1) c(1)] base_in_def quote_in_def c(2))
  moreover have "\<not> f_executedSell (F c) > 0 \<Longrightarrow> base_in c (F c) = 0 \<and> quote_in c (F c) = 0"
    using c(4) by (simp add: base_in_def quote_in_def)
  ultimately show ?case using Cons by (simp add: algebra_simps)
qed simp

text \<open>The residual of a settled pass, token by token, and its value at the unit prices.\<close>

lemma settled_residual:
  assumes "valid_pair pair" "settled_allocation pair a vb live" "0 \<le> vb" "0 < a_quotePrice a"
  defines "F \<equiv> \<lambda>c. fill_of (a_quotePrice a) (a_basePrice a) (allotted (allotment live vb) c) c"
  shows "residual_of pair (a_fills a) =
      Inr \<lparr>res_base = (\<Sum>c\<leftarrow>live. base_in c (F c)), res_quote = (\<Sum>c\<leftarrow>live. quote_in c (F c))\<rparr>"
    "0 \<le> a_basePrice a * (\<Sum>c\<leftarrow>live. base_in c (F c)) + a_quotePrice a * (\<Sum>c\<leftarrow>live. quote_in c (F c))"
proof -
  let ?bp = "a_basePrice a" and ?qp = "a_quotePrice a" and ?m = "allotment live vb"
  have live: "\<forall>c\<in>set live. live_in pair ?qp ?bp c" "sized live" and bp: "0 < ?bp"
    using assms(2) by (simp_all add: settled_allocation_def)
  have V: "0 \<le> allotted ?m c" "allotted ?m c \<le> k_size c" "live_in pair ?qp ?bp c" if "c \<in> set live" for c
    using allotment_bounds [OF live(2) assms(3) that] live that by auto
  note V = fill_value [OF V(3) assms(4) bp V(1,2), folded F_def]
  have fills: "a_fills a = map fst (filter (\<lambda>(f, _). f_executedSell f > 0)
      (map (\<lambda>c. (F c, if allotted ?m c = 0 then None
        else refusal (b_intent (k_entry c)) (F c) (k_buys c) ?qp ?bp)) live))"
    using assms(2) unfolding settled_allocation_def fills_for_def Let_def F_def by (elim conjE)
  have "foldE (residual_step pair) (0, 0) (a_fills a) =
      Inr (0 + (\<Sum>c\<leftarrow>live. base_in c (F c)), 0 + (\<Sum>c\<leftarrow>live. quote_in c (F c)))"
    unfolding fills
  proof (rule residual_fold [OF assms(1)], intro ballI conjI impI)
    fix c assume c: "c \<in> set live"
    show "live_in pair ?qp ?bp c" using live c by blast
    show "f_index (F c) = k_index c" by (simp add: F_def)
    assume "f_executedSell (F c) \<le> 0"
    then show "f_executedBuy (F c) = 0" "f_executedSell (F c) = 0" using V(2) [OF c c c] by (simp_all add: F_def)
  qed
  then show "residual_of pair (a_fills a) =
      Inr \<lparr>res_base = (\<Sum>c\<leftarrow>live. base_in c (F c)), res_quote = (\<Sum>c\<leftarrow>live. quote_in c (F c))\<rparr>"
    by (simp add: residual_of_def)
  have "0 \<le> (\<Sum>c\<leftarrow>live. ?bp * base_in c (F c) + ?qp * quote_in c (F c))"
  proof (rule sum_list_nonneg_int)
    fix c assume c: "c \<in> set live"
    show "0 \<le> ?bp * base_in c (F c) + ?qp * quote_in c (F c)"
      using V(3,4) [OF c c c] by (cases "k_buys c") (auto simp: base_in_def quote_in_def F_def)
  qed
  then show "0 \<le> ?bp * (\<Sum>c\<leftarrow>live. base_in c (F c)) + ?qp * (\<Sum>c\<leftarrow>live. quote_in c (F c))"
    by (simp add: sum_list_addf sum_list_const_mult)
qed

lemma signed_sum:
  "(\<Sum>x\<leftarrow>xs. if P x then - f x else f x) = (\<Sum>x\<leftarrow>filter (\<lambda>x. \<not> P x) xs. f x) - (\<Sum>x\<leftarrow>filter P xs. f x :: int)"
  by (induction xs) auto

text \<open>In base units the residual is what the rationing gave the two sides.\<close>

lemma settled_base:
  assumes "settled_allocation pair a vb live" "0 \<le> vb" "0 < a_quotePrice a"
  shows "(\<Sum>c\<leftarrow>live. base_in c (fill_of (a_quotePrice a) (a_basePrice a) (allotted (allotment live vb) c) c))
    = (\<Sum>c\<leftarrow>filter (\<lambda>c. \<not> k_buys c) live. allotted (allotment live vb) c)
      - (\<Sum>c\<leftarrow>filter k_buys live. allotted (allotment live vb) c)"
proof -
  let ?m = "allotment live vb"
  have "base_in c (fill_of (a_quotePrice a) (a_basePrice a) (allotted ?m c) c)
      = (if k_buys c then - allotted ?m c else allotted ?m c)" if "c \<in> set live" for c
  proof -
    have "live_in pair (a_quotePrice a) (a_basePrice a) c" "0 < a_basePrice a" "sized live"
      using assms(1) that by (auto simp: settled_allocation_def)
    then show ?thesis
      using fill_value(3,4) [of pair "a_quotePrice a" "a_basePrice a" c "allotted ?m c"]
        allotment_bounds(1,2) [OF _ assms(2) that] assms(3) by (auto simp: base_in_def)
  qed
  then have "(\<Sum>c\<leftarrow>live. base_in c (fill_of (a_quotePrice a) (a_basePrice a) (allotted ?m c) c))
      = (\<Sum>c\<leftarrow>live. if k_buys c then - allotted ?m c else allotted ?m c)"
    by (intro arg_cong [where f = sum_list] map_cong) auto
  also have "\<dots> = (\<Sum>c\<leftarrow>filter (\<lambda>c. \<not> k_buys c) live. allotted ?m c) - (\<Sum>c\<leftarrow>filter k_buys live. allotted ?m c)"
    by (rule signed_sum)
  finally show ?thesis .
qed

section \<open>Properties\<close>

text \<open>
  C8. The allocation always settles: on a pair with distinct positions it throws nothing, answers
  at most one fill per intent, and every fill passes each check the verifier makes of one
  execution at the two unit prices the allocation reports.
\<close>

theorem allocate_fills_verify:
  assumes "valid_pair pair" and "0 < r_quotePrice ref" and "0 \<le> c_price clearing"
  shows "\<exists>a. allocate pair clearing ref vb = Inr a \<and> distinct (map f_index (a_fills a))
    \<and> (\<forall>f\<in>set (a_fills a). 0 < f_executedSell f \<and> f_executedBuy f \<noteq> 0
        \<and> (\<exists>e\<in>set (p_entries pair). b_index e = f_index f
             \<and> f_executedSell f \<le> i_sellAmount (b_intent e)
             \<and> (f_executedSell f = i_sellAmount (b_intent e) \<or> partial_fill (i_flags (b_intent e)))
             \<and> limit_respected (f_executedBuy f) (i_sellAmount (b_intent e)) (i_minBuyAmount (b_intent e)) (f_executedSell f)
             \<and> (if same (i_sellToken (b_intent e)) (p_quote pair)
                then uniform_price_holds (f_executedSell f) (f_executedBuy f) (a_quotePrice a) (a_basePrice a) FEE_CAP_NOTIONAL_BPS
                else uniform_price_holds (f_executedSell f) (f_executedBuy f) (a_basePrice a) (a_quotePrice a) FEE_CAP_NOTIONAL_BPS)))"
proof -
  obtain a where a: "allocate pair clearing ref vb = Inr a" "a_fills a = [] \<or> (\<exists>live. settled_allocation pair a vb live)"
    by (rule allocate_settled [OF assms])
  consider "a_fills a = []" | live where "settled_allocation pair a vb live" using a(2) by blast
  then show ?thesis
  proof cases
    case 2
    show ?thesis
    proof (intro exI [of _ a] conjI a(1) ballI)
      show "distinct (map f_index (a_fills a))" by (rule settled_distinct [OF 2])
      fix f assume "f \<in> set (a_fills a)"
      then obtain e where e: "0 < f_executedSell f" "e \<in> set (p_entries pair)" "b_index e = f_index f"
        "refusal (b_intent e) f (same (i_sellToken (b_intent e)) (p_quote pair)) (a_quotePrice a) (a_basePrice a) = None"
        by (rule settled_fill [OF 2])
      then show "0 < f_executedSell f" "f_executedBuy f \<noteq> 0"
        "\<exists>e\<in>set (p_entries pair). b_index e = f_index f
             \<and> f_executedSell f \<le> i_sellAmount (b_intent e)
             \<and> (f_executedSell f = i_sellAmount (b_intent e) \<or> partial_fill (i_flags (b_intent e)))
             \<and> limit_respected (f_executedBuy f) (i_sellAmount (b_intent e)) (i_minBuyAmount (b_intent e)) (f_executedSell f)
             \<and> (if same (i_sellToken (b_intent e)) (p_quote pair)
                then uniform_price_holds (f_executedSell f) (f_executedBuy f) (a_quotePrice a) (a_basePrice a) FEE_CAP_NOTIONAL_BPS
                else uniform_price_holds (f_executedSell f) (f_executedBuy f) (a_basePrice a) (a_quotePrice a) FEE_CAP_NOTIONAL_BPS)"
        by (auto simp: refusal_def Let_def split: if_splits intro!: bexI [of _ e])
    qed
  qed (use a in auto)
qed

text \<open>
  C34. Rationing one side to a capacity: amounts stay within sizes and within the capacity, an
  order without the partial fill flag gets all or nothing, an intent at the clearing price gets
  nothing while a better, divisible one is short, and when every order is divisible the capacity
  is used to the last unit.
\<close>

theorem ration_fair:
  assumes "sized side" and "0 \<le> capacity"
  shows "let m = ration side capacity allot in
      (\<Sum>c\<leftarrow>side. allotted m c) \<le> capacity
      \<and> (\<forall>c\<in>set side. 0 \<le> allotted m c \<and> allotted m c \<le> k_size c
           \<and> (\<not> k_partial c \<longrightarrow> allotted m c = 0 \<or> allotted m c = k_size c))
      \<and> ((\<exists>c\<in>set side. k_better c \<and> k_partial c \<and> allotted m c < k_size c)
           \<longrightarrow> (\<forall>d\<in>set side. \<not> k_better d \<longrightarrow> allotted m d = 0))
      \<and> ((\<forall>c\<in>set side. k_partial c)
           \<longrightarrow> (\<Sum>c\<leftarrow>side. allotted m c) = min capacity (\<Sum>c\<leftarrow>side. k_size c))"
  using ration_rationed(1) [OF assms] unfolding rationed_def Let_def .


text \<open>
  A pure cross of divisible intents nets the base token to the last unit and leaves the quote
  token no deficit, so it settles without touching a venue.
\<close>

theorem pure_cross_needs_no_venue:
  assumes "valid_pair pair" and "0 < r_quotePrice ref" and "0 \<le> c_price clearing"
    and "\<forall>e\<in>set (p_entries pair). partial_fill (i_flags (b_intent e))"
    and "allocate pair clearing ref 0 = Inr a"
  shows "\<exists>r. route pair (a_fills a) adapter minOut = Inr ([], r) \<and> res_base r = 0 \<and> 0 \<le> res_quote r"
proof -
  obtain a' where a': "allocate pair clearing ref 0 = Inr a'" "a_quotePrice a' = r_quotePrice ref"
    "a_fills a' = [] \<or> (\<exists>live. settled_allocation pair a' 0 live)" by (rule allocate_settled [OF assms(1-3)])
  then have a: "a_quotePrice a = r_quotePrice ref" "a_fills a = [] \<or> (\<exists>live. settled_allocation pair a 0 live)"
    using assms(5) by auto
  show ?thesis
  proof (cases "a_fills a = []")
    case True
    then show ?thesis by (simp add: route_def residual_of_def)
  next
    case False
    then obtain live where live: "settled_allocation pair a 0 live" using a(2) by blast
    then have q: "0 < a_quotePrice a" and b: "0 < a_basePrice a" and sized: "sized live"
      using a(1) assms(2) by (simp_all add: settled_allocation_def)
    have partial: "k_partial c" if "c \<in> set live" for c
      using live that assms(4) unfolding settled_allocation_def live_in_def by blast
    note res = settled_residual [OF assms(1) live order.refl q]
    let ?m = "allotment live 0"
    have same_sum: "(\<Sum>c\<leftarrow>cs. allotted ?m c) = (\<Sum>c\<leftarrow>cs. k_size c)" if "\<forall>c\<in>set cs. allotted ?m c = k_size c" for cs
      using that by (intro arg_cong [where f = sum_list] map_cong) auto
    have "(\<Sum>c\<leftarrow>filter (\<lambda>c. \<not> k_buys c) live. allotted ?m c) = (\<Sum>c\<leftarrow>filter k_buys live. allotted ?m c)"
      using allotment_spec [OF sized order.refl] partial
      by (auto simp: rationed_def same_sum min_def split: if_splits)
    then show ?thesis
      using res settled_base [OF live order.refl q] b q by (auto simp: route_def zero_le_mult_iff)
  qed
qed

section \<open>Witnesses\<close>

definition sample_clearing :: clearing where
  "sample_clearing = clearing_at (legs_of sample_pair) (10 ^ 21)"

lemma sample_valid:
  "valid_pair sample_pair" "0 < r_quotePrice sample_reference" "0 \<le> c_price sample_clearing"
  "\<forall>e\<in>set (p_entries sample_pair). partial_fill (i_flags (b_intent e))"
  by code_simp+

definition sample_allocation :: allocation where
  "sample_allocation = \<lparr>a_price = 10 ^ 21, a_quotePrice = 10 ^ 18, a_basePrice = 10 ^ 21,
     a_fills = [\<lparr>f_index = 0, f_executedSell = 4000, f_executedBuy = 4\<rparr>,
                \<lparr>f_index = 1, f_executedSell = 6000, f_executedBuy = 6\<rparr>,
                \<lparr>f_index = 2, f_executedSell = 10, f_executedBuy = 10000\<rparr>],
     a_excluded = [(3, ''limit is on the wrong side of the clearing price'')]\<rparr>"

lemma sample_allocates: "allocate sample_pair sample_clearing sample_reference 0 = Inr sample_allocation"
  by code_simp

theorem allocate_fills_verify_witness:
  "\<exists>a. allocate sample_pair sample_clearing sample_reference 0 = Inr a \<and> distinct (map f_index (a_fills a))
    \<and> length (a_fills a) = 3 \<and> 0 < f_executedSell (hd (a_fills a))"
  using allocate_fills_verify [OF sample_valid(1-3), of 0] sample_allocates
  by (auto simp: sample_allocation_def)

definition sample_side :: "candidate list" where
  "sample_side = map (\<lambda>(n, s, p, b). \<lparr>k_entry = \<lparr>b_index = n, b_intent = sample_intent ''0xa'' ''0xb'' s s\<rparr>,
      k_buys = True, k_size = s, k_partial = p, k_better = b\<rparr>)
    [(0, 10, True, True), (1, 7, False, True), (2, 5, True, True), (3, 9, True, False)]"

lemma sample_side_sized: "sized sample_side"
  unfolding sized_def by code_simp

theorem ration_fair_witness:
  "let m = ration sample_side 15 Map.empty in
     map (allotted m) sample_side = [10, 0, 5, 0] \<and> (\<Sum>c\<leftarrow>sample_side. allotted m c) \<le> 15"
proof -
  have "map (allotted (ration sample_side 15 Map.empty)) sample_side = [10, 0, 5, 0]" by code_simp
  then show ?thesis using ration_fair [OF sample_side_sized, of 15 Map.empty] by (simp add: Let_def)
qed


theorem pure_cross_needs_no_venue_witness:
  "\<exists>r. route sample_pair (a_fills sample_allocation) ''0xad'' n_needOut = Inr ([], r)
    \<and> res_base r = 0 \<and> 0 \<le> res_quote r"
  by (rule pure_cross_needs_no_venue [OF sample_valid sample_allocates])

end
