(* ===== verification/V3Ticks.thy ===== *)
theory V3Ticks
  imports Prelude
begin

unbundle bit_operations_syntax

text \<open>
  The first half of solver/src/v3math.ts: full width multiplication, the price of a tick, the
  tick of a price and the search of the tick bitmap. BigInt is \<open>int\<close>, so nothing wraps unless the
  code wraps it. A \<^verbatim>\<open>QuoteError\<close> is \<open>Thrown\<close> with its error name.
\<close>

definition Q96 :: int where "Q96 = 2 ^ 96"
definition U256 :: int where "U256 = 2 ^ 256"
definition U128 :: int where "U128 = 2 ^ 128"
definition MIN_TICK :: int where "MIN_TICK = -887272"
definition MAX_TICK :: int where "MAX_TICK = 887272"
definition MIN_SQRT_PRICE :: int where "MIN_SQRT_PRICE = 4295128739"
definition MAX_SQRT_PRICE :: int where "MAX_SQRT_PRICE = 1461446703485210103287273052203988822378723970342"

section \<open>Full width multiplication\<close>

definition div_by :: "int \<Rightarrow> int \<Rightarrow> js_error + int" where
  "div_by x y = (if y = 0 then Inl RangeError else Inr (x sdiv y))"

definition mul_div :: "int \<Rightarrow> int \<Rightarrow> int \<Rightarrow> js_error + int" where
  "mul_div a b d =
     bindE (div_by (a * b) d) (\<lambda>r. if r \<ge> U256 then Inl (Thrown ''FullMathOverflow'') else Inr r)"

definition mul_div_rounding_up :: "int \<Rightarrow> int \<Rightarrow> int \<Rightarrow> js_error + int" where
  "mul_div_rounding_up a b d =
     bindE (mul_div a b d) (\<lambda>r. Inr (if (a * b) smod d > 0 then r + 1 else r))"

definition div_rounding_up :: "int \<Rightarrow> int \<Rightarrow> js_error + int" where
  "div_rounding_up x y = bindE (div_by x y) (\<lambda>r. Inr (r + (if x smod y > 0 then 1 else 0)))"

section \<open>The price of a tick\<close>

definition sqrt_steps :: "(int \<times> int) list" where
  "sqrt_steps =
     [(0x2, 0xfff97272373d413259a46990580e213a),
      (0x4, 0xfff2e50f5f656932ef12357cf3c7fdcc),
      (0x8, 0xffe5caca7e10e4e61c3624eaa0941cd0),
      (0x10, 0xffcb9843d60f6159c9db58835c926644),
      (0x20, 0xff973b41fa98c081472e6896dfb254c0),
      (0x40, 0xff2ea16466c96a3843ec78b326b52861),
      (0x80, 0xfe5dee046a99a2a811c461f1969c3053),
      (0x100, 0xfcbe86c7900a88aedcffc83b479aa3a4),
      (0x200, 0xf987a7253ac413176f2b074cf7815e54),
      (0x400, 0xf3392b0822b70005940c7a398e4b70f3),
      (0x800, 0xe7159475a2c29b7443b29c7fa6e889d9),
      (0x1000, 0xd097f3bdfd2022b8845ad8f792aa5825),
      (0x2000, 0xa9f746462d870fdf8a65dc1f90e061e5),
      (0x4000, 0x70d869a156d2a1b890bb3df62baf32f7),
      (0x8000, 0x31be135f97d08fd981231505542fcfa6),
      (0x10000, 0x9aa508b5b7a84e1c677de54f3e99bc9),
      (0x20000, 0x5d6af8dedb81196699c329225ee604),
      (0x40000, 0x2216e584f5fa1ea926041bedfe98),
      (0x80000, 0x48a170391f7dc42444e8fa2)]"

definition sqrt_step :: "int \<Rightarrow> int \<Rightarrow> int \<times> int \<Rightarrow> int" where
  "sqrt_step absTick price step =
     (case step of (b, factor) \<Rightarrow> if absTick AND b \<noteq> 0 then drop_bit 128 (price * factor) else price)"

definition get_sqrt_price_at_tick :: "int \<Rightarrow> js_error + int" where
  "get_sqrt_price_at_tick tick =
     (let absTick = \<bar>tick\<bar>
      in if absTick > MAX_TICK then Inl (Thrown ''InvalidTick'')
         else let price = (if absTick AND 1 \<noteq> 0 then 0xfffcb933bd6fad37aa2d162d1a594001 else push_bit 128 1);
                  price = foldl (sqrt_step absTick) price sqrt_steps
              in bindE (if tick > 0 then div_by (U256 - 1) price else Inr price)
                   (\<lambda>price. Inr (drop_bit 32 (price + push_bit 32 1 - 1))))"

text \<open>
  The predicate of the search. The loop only asks for ticks between its ends, where the price is
  defined.
\<close>

definition price_within :: "int \<Rightarrow> int \<Rightarrow> bool" where
  "price_within sqrtPriceX96 tick =
     (case get_sqrt_price_at_tick tick of Inl _ \<Rightarrow> False | Inr p \<Rightarrow> p \<le> sqrtPriceX96)"

definition get_tick_at_sqrt_price :: "int \<Rightarrow> js_error + int" where
  "get_tick_at_sqrt_price sqrtPriceX96 =
     (if sqrtPriceX96 < MIN_SQRT_PRICE \<or> sqrtPriceX96 \<ge> MAX_SQRT_PRICE then Inl (Thrown ''InvalidSqrtPrice'')
      else Inr (search_greatest (price_within sqrtPriceX96) MIN_TICK (MAX_TICK - 1)))"

section \<open>The tick bitmap\<close>

text \<open>\<open>msb x\<close> is \<^verbatim>\<open>x.toString(2).length - 1\<close>, for the positive numbers it is called with.\<close>

function msb :: "int \<Rightarrow> int" where
  "msb x = (if x \<le> 1 then 0 else 1 + msb (x div 2))"
  by pat_completeness auto
termination
  by (relation "measure nat") auto

declare msb.simps [simp del]

definition lsb :: "int \<Rightarrow> int" where
  "lsb x = msb (x AND - x)"

definition tdiv :: "int \<Rightarrow> int \<Rightarrow> int" where
  "tdiv a b = a sdiv b"

definition position :: "int \<Rightarrow> int \<times> int" where
  "position t = (t div 256, (t smod 256 + 256) smod 256)"

record pool_reads =
  tickBitmap :: "int \<Rightarrow> js_error + int"
  liquidityNet :: "int \<Rightarrow> js_error + int"

definition next_initialized_tick :: "pool_reads \<Rightarrow> int \<Rightarrow> int \<Rightarrow> bool \<Rightarrow> js_error + int \<times> bool" where
  "next_initialized_tick reads tick spacing lte =
     (let compressed = tdiv tick spacing;
          compressed = (if tick < 0 \<and> tick smod spacing \<noteq> 0 then compressed - 1 else compressed)
      in if lte
         then let (wordPos, bitPos) = position compressed;
                  mask = push_bit (nat bitPos) 1 - 1 + push_bit (nat bitPos) 1
              in bindE (tickBitmap reads wordPos) (\<lambda>word.
                   let masked = word AND mask;
                       initialized = (masked \<noteq> 0)
                   in Inr (if initialized then (compressed - (bitPos - msb masked)) * spacing
                           else (compressed - bitPos) * spacing, initialized))
         else let (wordPos, bitPos) = position (compressed + 1);
                  mask = (U256 - 1) XOR (push_bit (nat bitPos) 1 - 1)
              in bindE (tickBitmap reads wordPos) (\<lambda>word.
                   let masked = word AND mask;
                       initialized = (masked \<noteq> 0)
                   in Inr (if initialized then (compressed + 1 + (lsb masked - bitPos)) * spacing
                           else (compressed + 1 + (255 - bitPos)) * spacing, initialized)))"

section \<open>Prices of neighbouring ticks\<close>

text \<open>
  The factors multiply along the binary digits of the tick. Adding one to a tick turns a block of
  low ones into zeros and the zero above it into a one, so one factor replaces a product of
  smaller ones, and the digits above it are the same. \<open>close_below\<close> is the gap the replacement
  leaves, with what the floors of the later steps can take from it.
\<close>

definition factors :: "int list" where
  "factors = 0xfffcb933bd6fad37aa2d162d1a594001 # map snd sqrt_steps"

definition scaled :: "int \<Rightarrow> nat \<Rightarrow> int" where
  "scaled p k = p * factors ! k div 2 ^ 128"

definition tick_product :: "int \<Rightarrow> int" where
  "tick_product n = foldl (\<lambda>p k. if bit n k then scaled p k else p) (2 ^ 128) [0..<20]"

lemma sqrt_steps_bits: "sqrt_steps = map (\<lambda>k. (2 ^ k, factors ! k)) [1..<20]"
  by code_simp

lemma bit_test: "n AND 2 ^ k \<noteq> 0 \<longleftrightarrow> bit n k" for n :: int
  by (simp add: and_exp_eq_0_iff_not_bit)

lemma first_factor: "scaled (2 ^ 128) 0 = factors ! 0"
  by (simp add: scaled_def)

lemma sqrt_fold:
  "foldl (sqrt_step n) (if n AND 1 \<noteq> 0 then 0xfffcb933bd6fad37aa2d162d1a594001 else push_bit 128 1) sqrt_steps
    = tick_product n"
proof -
  have step: "sqrt_step n p (2 ^ k, factors ! k) = (if bit n k then scaled p k else p)" for p k
    unfolding sqrt_step_def prod.case bit_test by (simp add: scaled_def drop_bit_eq_div)
  have f0: "scaled (2 ^ 128) 0 = 0xfffcb933bd6fad37aa2d162d1a594001" unfolding first_factor by (simp add: factors_def)
  have start: "(if n AND 1 \<noteq> 0 then 0xfffcb933bd6fad37aa2d162d1a594001 else push_bit 128 1)
      = (if bit n 0 then scaled (2 ^ 128) 0 else 2 ^ 128)"
    using bit_test [of n 0] unfolding f0 by (simp add: push_bit_eq_mult)
  have "[0..<20] = 0 # [1..<20::nat]" by (simp add: upt_rec)
  then show ?thesis
    unfolding start sqrt_steps_bits foldl_map step tick_product_def by (simp only: foldl_Cons)
qed

definition low_ones :: "nat \<Rightarrow> int" where
  "low_ones k = foldl scaled (2 ^ 128) [0..<k]"

lemma factors_bounds: "k < 20 \<Longrightarrow> 0 \<le> factors ! k \<and> factors ! k \<le> 2 ^ 128"
proof -
  have "\<forall>k\<in>set [0..<20]. 0 \<le> factors ! k \<and> factors ! k \<le> 2 ^ 128" by code_simp
  then show "k < 20 \<Longrightarrow> 0 \<le> factors ! k \<and> factors ! k \<le> 2 ^ 128" by simp
qed

fun carries :: "int \<Rightarrow> int list \<Rightarrow> bool" where
  "carries p [] = True"
| "carries p (f # fs) = (2 ^ 16 * f \<le> (2 ^ 16 - 1) * p \<and> carries (p * f div 2 ^ 128) fs)"

lemma carries_nth:
  "carries p fs \<Longrightarrow> k < length fs \<Longrightarrow> 2 ^ 16 * fs ! k \<le> (2 ^ 16 - 1) * foldl (\<lambda>p f. p * f div 2 ^ 128) p (take k fs)"
  by (induction fs arbitrary: p k) (auto simp: nth_Cons split: nat.splits)

lemma low_ones_take: "k \<le> length factors \<Longrightarrow> low_ones k = foldl (\<lambda>p f. p * f div 2 ^ 128) (2 ^ 128) (take k factors)"
proof (induction k)
  case (Suc k)
  then show ?case by (simp add: low_ones_def take_Suc_conv_app_nth scaled_def)
qed (simp add: low_ones_def)

lemma carry_gap: "k < 20 \<Longrightarrow> 2 ^ 16 * factors ! k \<le> (2 ^ 16 - 1) * low_ones k"
proof -
  have "carries (2 ^ 128) factors" by code_simp
  moreover have "length factors = 20" by code_simp
  ultimately show "k < 20 \<Longrightarrow> 2 ^ 16 * factors ! k \<le> (2 ^ 16 - 1) * low_ones k"
    using carries_nth [of "2 ^ 128" factors k] low_ones_take [of k] by simp
qed

lemma product_at_end: "2 ^ 63 \<le> tick_product 887272"
  by code_simp

lemma odd_part: "0 < n \<Longrightarrow> \<exists>k m. 0 \<le> m \<and> n = 2 ^ k * (2 * m + 1)" for n :: int
proof (induction "nat n" arbitrary: n rule: less_induct)
  case less
  show ?case
  proof (cases "even n")
    case True
    then obtain h where h: "n = 2 * h" by (elim evenE)
    then obtain k m where "0 \<le> m" "h = 2 ^ k * (2 * m + 1)" using less.hyps [of h] less.prems by auto
    then show ?thesis using h by (intro exI [of _ "Suc k"] exI [of _ m]) simp
  next
    case False
    then obtain h where "n = 2 * h + 1" by (elim oddE)
    then show ?thesis using less.prems by (intro exI [of _ 0] exI [of _ h]) simp
  qed
qed

lemma carry_bits:
  fixes m :: int
  shows "bit (2 ^ k * (2 * m + 1) - 1) j \<longleftrightarrow> j < k \<or> k < j \<and> bit m (j - k - 1)"
    "bit (2 ^ k * (2 * m + 1)) j \<longleftrightarrow> j = k \<or> k < j \<and> bit m (j - k - 1)"
proof -
  have "2 ^ k * (2 * m + 1) - 1 = push_bit (k + 1) m + mask k"
    by (simp add: push_bit_eq_mult mask_eq_exp_minus_1 algebra_simps)
  also have "\<dots> = push_bit (k + 1) m OR mask k"
    by (intro disjunctive_add_eq_or bit_eqI) (auto simp: bit_simps simp del: push_bit_Suc)
  finally show "bit (2 ^ k * (2 * m + 1) - 1) j \<longleftrightarrow> j < k \<or> k < j \<and> bit m (j - k - 1)"
    by (auto simp: bit_simps simp del: push_bit_Suc)
  have "2 ^ k * (2 * m + 1) = push_bit (k + 1) m + 2 ^ k"
    by (simp add: push_bit_eq_mult algebra_simps)
  also have "\<dots> = push_bit (k + 1) m OR 2 ^ k"
    by (intro disjunctive_add_eq_or bit_eqI) (auto simp: bit_simps simp del: push_bit_Suc)
  finally show "bit (2 ^ k * (2 * m + 1)) j \<longleftrightarrow> j = k \<or> k < j \<and> bit m (j - k - 1)"
    by (auto simp: bit_simps simp del: push_bit_Suc)
qed

definition close_below :: "int \<Rightarrow> int \<Rightarrow> int \<Rightarrow> bool" where
  "close_below c p' p \<longleftrightarrow> 0 \<le> p' \<and> p' \<le> p \<and> 2 ^ 16 * p' \<le> (2 ^ 16 - 1) * p + c"

lemma close_below_scaled:
  assumes "close_below c p' p" "0 \<le> c" "k < 20"
  shows "close_below (c + 2 ^ 16) (scaled p' k) (scaled p k)"
proof -
  let ?f = "factors ! k" and ?F = "2 ^ 128 :: int"
  have f: "0 \<le> ?f" "?f \<le> ?F" using factors_bounds [OF assms(3)] by auto
  have le: "p' * ?f \<le> p * ?f" using assms(1) f by (simp add: close_below_def mult_right_mono)
  have q': "scaled p' k * ?F \<le> p' * ?f" unfolding scaled_def by (rule floor_mult_le) simp
  have q: "p * ?f < (scaled p k + 1) * ?F" using floor_less_iff [of ?F "p * ?f" "scaled p k + 1"] by (simp add: scaled_def)
  have "2 ^ 16 * p' * ?f \<le> ((2 ^ 16 - 1) * p + c) * ?f"
    using assms(1) f by (intro mult_right_mono) (auto simp: close_below_def)
  moreover have "c * ?f \<le> c * ?F" using assms(2) f by (intro mult_left_mono)
  ultimately have "2 ^ 16 * (scaled p' k * ?F) \<le> (2 ^ 16 - 1) * ((scaled p k + 1) * ?F) + c * ?F"
    using q' q by (simp add: algebra_simps)
  then have "(2 ^ 16 * scaled p' k) * ?F \<le> ((2 ^ 16 - 1) * (scaled p k + 1) + c) * ?F"
    by (simp add: algebra_simps)
  then have "2 ^ 16 * scaled p' k \<le> (2 ^ 16 - 1) * (scaled p k + 1) + c" by simp
  moreover have "scaled p' k \<le> scaled p k" unfolding scaled_def using le by (intro zdiv_mono1) simp_all
  moreover have "0 \<le> scaled p' k" unfolding scaled_def using assms(1) f by (simp add: close_below_def)
  ultimately show ?thesis by (simp add: close_below_def algebra_simps)
qed

lemma close_below_fold:
  assumes "close_below c p' p" "0 \<le> c" "\<forall>k\<in>set ks. k < 20 \<and> bit m k = bit n k"
  shows "close_below (c + 2 ^ 16 * int (length ks))
    (foldl (\<lambda>p k. if bit m k then scaled p k else p) p' ks)
    (foldl (\<lambda>p k. if bit n k then scaled p k else p) p ks)"
  using assms
proof (induction ks arbitrary: c p' p)
  case (Cons k ks)
  have "close_below (c + 2 ^ 16) (if bit m k then scaled p' k else p') (if bit n k then scaled p k else p)"
    using Cons.prems close_below_scaled [of c p' p k] by (auto simp: close_below_def)
  from Cons.IH [OF this] Cons.prems show ?case by (simp add: algebra_simps)
qed simp

lemma foldl_skip: "\<forall>k\<in>set ks. \<not> P k \<Longrightarrow> foldl (\<lambda>p k. if P k then f p k else p) a ks = a"
  by (induction ks) auto

lemma foldl_all: "\<forall>k\<in>set ks. P k \<Longrightarrow> foldl (\<lambda>p k. if P k then f p k else p) a ks = foldl f a ks"
  by (induction ks arbitrary: a) auto

lemma tick_product_close:
  assumes "0 \<le> n" "n + 1 < 2 ^ 20"
  shows "close_below (2 ^ 16 * 20) (tick_product (n + 1)) (tick_product n)"
proof -
  obtain k m where km: "0 \<le> m" "n + 1 = 2 ^ k * (2 * m + 1)" using odd_part [of "n + 1"] assms(1) by auto
  have n: "n = 2 ^ k * (2 * m + 1) - 1" using km(2) by linarith
  have bits: "bit n j \<longleftrightarrow> j < k \<or> k < j \<and> bit m (j - k - 1)" for j
    by (subst n) (rule carry_bits(1))
  have bits1: "bit (n + 1) j \<longleftrightarrow> j = k \<or> k < j \<and> bit m (j - k - 1)" for j
    by (subst km(2)) (rule carry_bits(2))
  have "2 ^ k * 1 \<le> n + 1" unfolding km(2) using km(1) by (intro mult_left_mono) simp_all
  then have "(2 :: int) ^ k < 2 ^ 20" using assms(2) by linarith
  then have k: "k < 20" by (rule power_less_imp_less_exp [rotated]) simp
  have split: "[0..<20] = ([0..<k] @ [k]) @ [Suc k..<20]"
    using k upt_add_eq_append [of 0 k "20 - k"] upt_conv_Cons [OF k] by (simp del: upt_conv_Cons_Cons)
  have lo: "foldl (\<lambda>p k. if bit n k then scaled p k else p) (2 ^ 128) ([0..<k] @ [k]) = low_ones k"
    unfolding low_ones_def foldl_append by (subst foldl_all) (auto simp: bits)
  have hi: "foldl (\<lambda>p k. if bit (n + 1) k then scaled p k else p) (2 ^ 128) ([0..<k] @ [k]) = factors ! k"
    unfolding foldl_append by (subst foldl_skip) (auto simp: bits1 scaled_def)
  have "close_below 0 (factors ! k) (low_ones k)"
  proof -
    have g: "2 ^ 16 * factors ! k \<le> (2 ^ 16 - 1) * low_ones k" "0 \<le> factors ! k"
      using carry_gap [OF k] factors_bounds [OF k] by auto
    then have "0 \<le> low_ones k" by simp
    then show ?thesis using g by (simp add: close_below_def)
  qed
  then have "close_below (0 + 2 ^ 16 * int (length [Suc k..<20]))
      (foldl (\<lambda>p k. if bit (n + 1) k then scaled p k else p) (factors ! k) [Suc k..<20])
      (foldl (\<lambda>p k. if bit n k then scaled p k else p) (low_ones k) [Suc k..<20])"
    by (rule close_below_fold) (auto simp: bits bits1)
  then have "close_below (0 + 2 ^ 16 * int (length [Suc k..<20])) (tick_product (n + 1)) (tick_product n)"
    unfolding tick_product_def split foldl_append [of _ _ "[0..<k] @ [k]"] lo hi .
  moreover have "int (length [Suc k..<20]) \<le> 20" by simp
  ultimately show ?thesis by (simp add: close_below_def)
qed

lemma product_step:
  assumes "0 \<le> n" "n + 1 \<le> 887272"
  shows "0 \<le> tick_product (n + 1)" "tick_product (n + 1) \<le> tick_product n"
    "2 ^ 16 * tick_product (n + 1) \<le> (2 ^ 16 - 1) * tick_product n + 2 ^ 16 * 20"
  using tick_product_close [of n] assms by (auto simp: close_below_def)

lemma product_antitone:
  assumes "0 \<le> m" "m \<le> n" "n \<le> 887272"
  shows "tick_product n \<le> tick_product m"
  using assms(2,3)
proof (induction rule: int_ge_induct)
  case (step i)
  then show ?case using product_step(2) [of i] assms(1) by simp
qed simp

lemma product_bounds:
  assumes "0 \<le> n" "n \<le> 887272"
  shows "2 ^ 63 \<le> tick_product n" "tick_product n \<le> 2 ^ 128"
proof -
  show "2 ^ 63 \<le> tick_product n" using product_antitone [OF assms order.refl] product_at_end by linarith
  have "tick_product 0 = 2 ^ 128" by code_simp
  then show "tick_product n \<le> 2 ^ 128" using product_antitone [OF order.refl assms] by simp
qed

lemma product_gap:
  assumes "0 \<le> n" "n + 1 \<le> 887272"
  shows "tick_product (n + 1) + 2 ^ 46 \<le> tick_product n"
  using product_step(3) [OF assms] product_bounds(1) [of n] assms by simp

text \<open>The price in 128 bits of fraction, before the last shift.\<close>

definition raw_price :: "int \<Rightarrow> int" where
  "raw_price t = (if t > 0 then (U256 - 1) div tick_product t else tick_product (- t))"

definition sqrt_price :: "int \<Rightarrow> int" where
  "sqrt_price t = (raw_price t + 2 ^ 32 - 1) div 2 ^ 32"

lemma get_sqrt_price_eq:
  "get_sqrt_price_at_tick t = (if \<bar>t\<bar> \<le> MAX_TICK then Inr (sqrt_price t) else Inl (Thrown ''InvalidTick''))"
proof (cases "\<bar>t\<bar> \<le> MAX_TICK")
  case True
  then have "2 ^ 63 \<le> tick_product \<bar>t\<bar>" using product_bounds(1) [of "\<bar>t\<bar>"] by (simp add: MAX_TICK_def)
  then have p: "0 < tick_product \<bar>t\<bar>" by (rule less_le_trans [rotated]) simp
  then have "div_by (U256 - 1) (tick_product \<bar>t\<bar>) = Inr ((U256 - 1) div tick_product \<bar>t\<bar>)"
    by (simp add: div_by_def U256_def)
  then show ?thesis using True
    unfolding get_sqrt_price_at_tick_def Let_def sqrt_fold
    by (cases "t > 0") (simp_all add: sqrt_price_def raw_price_def drop_bit_eq_div push_bit_eq_mult)
qed (simp add: get_sqrt_price_at_tick_def Let_def)

lemma tick_range: "\<bar>t\<bar> \<le> MAX_TICK \<longleftrightarrow> MIN_TICK \<le> t \<and> t \<le> MAX_TICK"
  by (auto simp: abs_le_iff MIN_TICK_def MAX_TICK_def)

lemma get_in_range: "MIN_TICK \<le> t \<Longrightarrow> t \<le> MAX_TICK \<Longrightarrow> get_sqrt_price_at_tick t = Inr (sqrt_price t)"
  by (simp add: get_sqrt_price_eq tick_range)

lemma inverse_gap:
  fixes p p' M :: int
  assumes "0 < p'" "p' \<le> p" "2 ^ 16 * p' \<le> (2 ^ 16 - 1) * p + c" "0 \<le> c" "2 * c \<le> p" "2 ^ 50 \<le> M div p"
  shows "M div p + 2 ^ 32 \<le> M div p'"
proof -
  let ?x = "M div p"
  have x: "?x * p \<le> M" using assms(1,2) by (intro floor_mult_le) simp
  define A X Y where "A = ?x * p'" and "X = ?x * p" and "Y = ?x * c"
  have "?x * (2 ^ 16 * p') \<le> ?x * ((2 ^ 16 - 1) * p + c)" using assms(3,6) by (intro mult_left_mono) simp_all
  then have "2 ^ 16 * A \<le> (2 ^ 16 - 1) * X + Y" by (simp add: A_def X_def Y_def algebra_simps)
  moreover have "2 * Y \<le> X" using mult_left_mono [OF assms(5), of ?x] assms(6) by (simp add: X_def Y_def algebra_simps)
  moreover have "2 ^ 50 * p \<le> X" unfolding X_def using assms(1,2,6) by (intro mult_right_mono) simp_all
  ultimately have "2 ^ 16 * A + 2 ^ 48 * p' \<le> 2 ^ 16 * X" using assms(1,2) by simp
  then have "2 ^ 16 * ((?x + 2 ^ 32) * p') \<le> 2 ^ 16 * (?x * p)" by (simp add: A_def X_def algebra_simps)
  then have "(?x + 2 ^ 32) * p' \<le> ?x * p" by (rule mult_left_le_imp_le) simp
  then have "(?x + 2 ^ 32) * p' \<le> M" using x by (rule order_trans)
  then show ?thesis using floor_le_iff [OF assms(1)] by simp
qed

lemma raw_price_gap:
  assumes "MIN_TICK \<le> t" "t < MAX_TICK"
  shows "raw_price t + 2 ^ 32 \<le> raw_price (t + 1)"
proof -
  consider "t < 0" | "t = 0" | "0 < t" by linarith
  then show ?thesis
  proof cases
    case 1
    then show ?thesis
      using product_gap [of "- t - 1"] assms(1) by (simp add: raw_price_def MIN_TICK_def)
  next
    case 2
    have "raw_price 0 + 2 ^ 32 \<le> raw_price 1" by code_simp
    then show ?thesis using 2 by simp
  next
    case 3
    then have t: "0 \<le> t" "t + 1 \<le> 887272" using assms(2) by (simp_all add: MAX_TICK_def)
    note bounds = product_bounds [of t] product_bounds(1) [of "t + 1"]
    have pos: "0 < tick_product (t + 1)" "0 < tick_product t" using bounds t by simp_all
    have "2 ^ 50 * tick_product t \<le> 2 ^ 50 * 2 ^ 128" using bounds(2) t by simp
    then have "2 ^ 50 * tick_product t \<le> U256 - 1" by (simp add: U256_def)
    then have "2 ^ 50 \<le> (U256 - 1) div tick_product t" using floor_le_iff [OF pos(2)] by blast
    then have "(U256 - 1) div tick_product t + 2 ^ 32 \<le> (U256 - 1) div tick_product (t + 1)"
      using product_step [OF t] pos bounds t by (intro inverse_gap [where c = "2 ^ 16 * 20"]) simp_all
    then show ?thesis using 3 by (simp add: raw_price_def)
  qed
qed

lemma sqrt_price_step: "MIN_TICK \<le> t \<Longrightarrow> t < MAX_TICK \<Longrightarrow> sqrt_price t < sqrt_price (t + 1)"
proof -
  assume t: "MIN_TICK \<le> t" "t < MAX_TICK"
  have "(raw_price t + 2 ^ 32 - 1) div 2 ^ 32 + 1 = (raw_price t + 2 ^ 32 - 1 + 2 ^ 32) div (2 ^ 32 :: int)" by simp
  also have "\<dots> \<le> (raw_price (t + 1) + 2 ^ 32 - 1) div 2 ^ 32"
    using raw_price_gap [OF t] by (intro zdiv_mono1) simp_all
  finally show ?thesis by (simp add: sqrt_price_def)
qed

lemma sqrt_price_strict:
  assumes "MIN_TICK \<le> s" "s < t" "t \<le> MAX_TICK"
  shows "sqrt_price s < sqrt_price t"
proof -
  have "s + 1 \<le> t" using assms(2) by simp
  then show ?thesis using assms(3)
  proof (induction rule: int_ge_induct)
    case base
    then show ?case using sqrt_price_step [of s] assms(1) by simp
  next
    case (step i)
    then show ?case using sqrt_price_step [of i] assms(1) by simp
  qed
qed

lemma price_within_iff:
  "MIN_TICK \<le> t \<Longrightarrow> t \<le> MAX_TICK \<Longrightarrow> price_within x t \<longleftrightarrow> sqrt_price t \<le> x"
  by (simp add: price_within_def get_in_range)

interpretation tick_search: descending "price_within x" MIN_TICK MAX_TICK for x
proof unfold_locales
  fix s t assume "MIN_TICK \<le> s" "s \<le> t" "t \<le> MAX_TICK" "price_within x t"
  moreover from this have "sqrt_price s \<le> sqrt_price t" using sqrt_price_strict [of s t] by (cases "s = t") auto
  ultimately show "price_within x s" using price_within_iff [of s x] price_within_iff [of t x] by simp
qed

lemma tick_ends: "sqrt_price MIN_TICK = MIN_SQRT_PRICE" "sqrt_price MAX_TICK = MAX_SQRT_PRICE"
proof -
  have "get_sqrt_price_at_tick MIN_TICK = Inr MIN_SQRT_PRICE" "get_sqrt_price_at_tick MAX_TICK = Inr MAX_SQRT_PRICE"
    by code_simp+
  then show "sqrt_price MIN_TICK = MIN_SQRT_PRICE" "sqrt_price MAX_TICK = MAX_SQRT_PRICE"
    by (simp_all add: get_sqrt_price_eq MIN_TICK_def MAX_TICK_def)
qed

text \<open>
  Prices grow strictly with the tick over the whole range of ticks, and outside it there is an
  error.
\<close>

theorem sqrt_price_strictly_increasing:
  "(\<exists>p q. get_sqrt_price_at_tick s = Inr p \<and> get_sqrt_price_at_tick t = Inr q \<and> p < q)
    \<longleftrightarrow> MIN_TICK \<le> s \<and> s < t \<and> t \<le> MAX_TICK"
proof -
  have "s < t" if "sqrt_price s < sqrt_price t" "MIN_TICK \<le> t" "s \<le> MAX_TICK"
    using that sqrt_price_strict [of t s] by (cases s t rule: linorder_cases) auto
  then show ?thesis using sqrt_price_strict [of s t] by (auto simp: get_sqrt_price_eq tick_range)
qed

text \<open>
  The tick of a price is the greatest tick whose price does not exceed it, and reading a tick
  back from its own price gives the tick.
\<close>

theorem tick_of_price_roundtrip:
  assumes "MIN_TICK \<le> t" and "t < MAX_TICK" and "get_sqrt_price_at_tick t = Inr p" and "get_sqrt_price_at_tick (t + 1) = Inr q"
    and "p \<le> x" and "x < q"
  shows "get_tick_at_sqrt_price x = Inr t"
proof -
  have tt: "MIN_TICK \<le> t + 1" "t + 1 \<le> MAX_TICK" using assms(1,2) by simp_all
  have pq: "p = sqrt_price t" "q = sqrt_price (t + 1)"
    using assms(1-4) tt by (simp_all add: get_in_range)
  have lo: "MIN_SQRT_PRICE \<le> p" and hi: "q \<le> MAX_SQRT_PRICE"
    using sqrt_price_strict [of MIN_TICK t] sqrt_price_strict [of "t + 1" MAX_TICK] assms(1,2) tt tick_ends
    by (cases "t = MIN_TICK"; cases "t + 1 = MAX_TICK"; simp add: pq)+
  let ?r = "search_greatest (price_within x) MIN_TICK (MAX_TICK - 1)"
  have "price_within x MIN_TICK"
    using lo assms(5) tick_ends by (subst price_within_iff) (simp_all add: MIN_TICK_def MAX_TICK_def)
  from tick_search.search_greatest_spec [OF order.refl _ _ this, of "MAX_TICK - 1"]
  have r: "MIN_TICK \<le> ?r" "?r \<le> MAX_TICK - 1" "price_within x ?r"
    "\<forall>u. u \<le> MAX_TICK - 1 \<longrightarrow> ?r < u \<longrightarrow> \<not> price_within x u"
    by (simp_all add: MIN_TICK_def MAX_TICK_def)
  have "price_within x t" using price_within_iff [of t x] assms pq by simp
  then have "t \<le> ?r" using r(4) assms(2) by (meson not_le zle_diff1_eq)
  moreover have "\<not> t + 1 \<le> ?r"
  proof
    assume "t + 1 \<le> ?r"
    then have "sqrt_price (t + 1) \<le> sqrt_price ?r" using sqrt_price_strict [of "t + 1" ?r] tt r(2) by (cases "t + 1 = ?r") auto
    moreover have "sqrt_price ?r \<le> x" using r price_within_iff [of ?r x] by simp
    ultimately show False using assms(6) pq by simp
  qed
  ultimately have "?r = t" by simp
  then show ?thesis using lo hi assms(5,6) by (simp add: get_tick_at_sqrt_price_def)
qed

theorem tick_of_price_roundtrip_witness:
  "get_tick_at_sqrt_price 61703726247759831737814779831 = Inr (-5000)"
proof (rule tick_of_price_roundtrip)
  show "get_sqrt_price_at_tick (-5000) = Inr 61703726247759831737814779831" by code_simp
  show "get_sqrt_price_at_tick (-5000 + 1) = Inr 61706811356946418161579056079" by code_simp
qed (simp_all add: MIN_TICK_def MAX_TICK_def)

section \<open>The search of the bitmap\<close>

text \<open>Solidity's truncating division with the correction for negative ticks is the floor.\<close>

lemma compressed_floor:
  assumes "0 < s"
  shows "(if t < 0 \<and> t smod s \<noteq> 0 then tdiv t s - 1 else tdiv t s) = t div s"
proof (cases "t < 0")
  case True
  have "t div s = - ((- t) div s) - (if (- t) mod s = 0 then 0 else 1)"
    using zdiv_zminus1_eq_if [of s "- t"] assms by simp
  moreover have "tdiv t s = - ((- t) div s)" "t smod s = - ((- t) mod s)"
    using True assms by (simp_all add: tdiv_def signed_divide_int_def smod_int_alt_def)
  ultimately show ?thesis using True by simp
next
  case False
  then show ?thesis using assms by (simp add: tdiv_def)
qed

lemma position_eq: "position t = (t div 256, t mod 256)"
proof -
  have r: "t smod 256 = t - t sdiv 256 * 256" by (simp add: minus_sdiv_mult_eq_smod)
  have "\<bar>t smod 256\<bar> < 256" by (simp add: smod_int_alt_def abs_mult)
  then have A: "(t smod 256 + 256) smod 256 = (t smod 256 + 256) mod 256" by (intro smod_floor) linarith+
  have e: "t smod 256 + 256 = t + (1 - t sdiv 256) * 256" unfolding r by (simp add: algebra_simps)
  have B: "(t smod 256 + 256) mod 256 = t mod 256" unfolding e by (rule mod_mult_self1)
  show ?thesis unfolding position_def A B ..
qed

lemma msb_bit:
  "0 < x \<Longrightarrow> 0 \<le> msb x \<and> bit x (nat (msb x)) \<and> (\<forall>j. nat (msb x) < j \<longrightarrow> \<not> bit x j)"
proof (induction x rule: msb.induct)
  case (1 x)
  show ?case
  proof (cases "x \<le> 1")
    case True
    then have "x = 1" using 1(2) by simp
    then show ?thesis by (simp add: msb.simps [of 1] bit_1_iff)
  next
    case False
    then have h: "0 \<le> msb (x div 2)" "bit (x div 2) (nat (msb (x div 2)))" "\<forall>j. nat (msb (x div 2)) < j \<longrightarrow> \<not> bit (x div 2) j"
      using 1(1) by auto
    have m: "msb x = 1 + msb (x div 2)" using False by (subst msb.simps) simp
    then have n: "nat (msb x) = Suc (nat (msb (x div 2)))" using h(1) by simp
    have "\<not> bit x j" if "nat (msb x) < j" for j
      using that h(3) n by (cases j) (auto simp: bit_Suc)
    then show ?thesis using m h n by (auto simp: bit_Suc)
  qed
qed

lemma lsb_bit:
  assumes "0 < x"
  shows "0 \<le> lsb x" "bit x (nat (lsb x))" "j < nat (lsb x) \<Longrightarrow> \<not> bit x j"
proof -
  obtain k m where km: "0 \<le> m" "x = 2 ^ k * (2 * m + 1)" using odd_part [OF assms] by auto
  have "bit (x AND - x) j \<longleftrightarrow> j = k" for j
  proof -
    have "- x = NOT (x - 1)" by (simp add: minus_eq_not_minus_1)
    then have "bit (x AND - x) j \<longleftrightarrow> bit x j \<and> \<not> bit (x - 1) j" by (simp add: bit_simps)
    then show ?thesis unfolding km(2) carry_bits by auto
  qed
  then have p: "x AND - x = 2 ^ k" by (intro bit_eqI) (auto simp: bit_simps)
  have "0 \<le> msb (2 ^ k) \<and> bit (2 ^ k :: int) (nat (msb (2 ^ k))) " using msb_bit [of "2 ^ k"] by simp
  then have "0 \<le> lsb x" "nat (lsb x) = k" unfolding lsb_def p by (auto simp: bit_exp_iff)
  then show "0 \<le> lsb x" "bit x (nat (lsb x))" "j < nat (lsb x) \<Longrightarrow> \<not> bit x j"
    unfolding km(2) by (simp_all add: carry_bits)
qed

definition tick_set :: "int \<Rightarrow> int \<Rightarrow> bool" where
  "tick_set word s = bit word (nat (s mod 256))"

lemma same_word:
  "s div 256 = c div 256 \<Longrightarrow> s - c = s mod 256 - c mod (256::int)"
  by (metis add_diff_cancel_left minus_mod_eq_mult_div diff_add_cancel mult_div_mod_eq)

lemma in_word: "0 \<le> b \<Longrightarrow> b < 256 \<Longrightarrow> (c - (c mod 256 - b)) div 256 = c div 256 \<and> (c - (c mod 256 - b)) mod 256 = (b::int)"
proof -
  assume b: "0 \<le> b" "b < 256"
  have "c - (c mod 256 - b) = b + c div 256 * 256" by (metis add.commute diff_diff_eq2 minus_mod_eq_div_mult diff_add_eq)
  then show ?thesis using b by (simp only: div_mult_self3 mod_mult_self3) simp
qed

lemma masks:
  fixes w :: int
  assumes "0 \<le> b" "b < 256"
  shows "bit (w AND (push_bit (nat b) 1 - 1 + push_bit (nat b) 1)) j \<longleftrightarrow> bit w j \<and> j \<le> nat b"
    "bit (w AND ((U256 - 1) XOR (push_bit (nat b) 1 - 1))) j \<longleftrightarrow> bit w j \<and> nat b \<le> j \<and> j < 256"
proof -
  have "push_bit (nat b) 1 - 1 + push_bit (nat b) 1 = (mask (Suc (nat b)) :: int)"
    by (simp add: push_bit_eq_mult mask_eq_exp_minus_1)
  then show "bit (w AND (push_bit (nat b) 1 - 1 + push_bit (nat b) 1)) j \<longleftrightarrow> bit w j \<and> j \<le> nat b"
    by (auto simp: bit_simps)
  have "U256 - 1 = mask 256" "push_bit (nat b) 1 - 1 = (mask (nat b) :: int)"
    by (simp_all add: U256_def push_bit_eq_mult mask_eq_exp_minus_1)
  then show "bit (w AND ((U256 - 1) XOR (push_bit (nat b) 1 - 1))) j \<longleftrightarrow> bit w j \<and> nat b \<le> j \<and> j < 256"
    using assms by (auto simp: bit_simps)
qed

lemma no_bits: "x = (0::int) \<longleftrightarrow> (\<forall>j. \<not> bit x j)"
  by (auto simp: bit_eq_iff)

lemma masked_pos: "0 \<le> w \<Longrightarrow> w AND m \<noteq> 0 \<Longrightarrow> 0 < w AND (m::int)"
  by (simp add: order.not_eq_order_implies_strict)

lemma highest_masked:
  assumes "0 \<le> b" "\<And>j. bit M j \<longleftrightarrow> bit w j \<and> j \<le> nat b" "M \<noteq> 0 \<Longrightarrow> 0 < M"
  defines "t \<equiv> if M \<noteq> 0 then msb M else 0"
  shows "0 \<le> t \<and> t \<le> b \<and> (bit w (nat t) \<longleftrightarrow> M \<noteq> 0) \<and> (M \<noteq> 0 \<or> t = 0) \<and> (\<forall>j. nat t < j \<and> j \<le> nat b \<longrightarrow> \<not> bit w j)"
proof (cases "M = 0")
  case True
  then have "\<not> (bit w j \<and> j \<le> nat b)" for j using assms(2) [of j] by simp
  then show ?thesis using True assms(1) by (auto simp: t_def)
next
  case False
  note m = msb_bit [OF assms(3) [OF False]]
  then have "bit w (nat (msb M))" "nat (msb M) \<le> nat b" using assms(2) by blast+
  then show ?thesis using m False assms(1,2) by (auto simp: t_def)
qed

lemma lowest_masked:
  assumes "0 \<le> b" "b < 256" "\<And>j. bit M j \<longleftrightarrow> bit w j \<and> nat b \<le> j \<and> j < 256" "M \<noteq> 0 \<Longrightarrow> 0 < M"
  defines "t \<equiv> if M \<noteq> 0 then lsb M else 255"
  shows "b \<le> t \<and> t < 256 \<and> (bit w (nat t) \<longleftrightarrow> M \<noteq> 0) \<and> (M \<noteq> 0 \<or> t = 255) \<and> (\<forall>j. nat b \<le> j \<and> j < nat t \<longrightarrow> \<not> bit w j)"
proof (cases "M = 0")
  case True
  then have none: "nat b \<le> j \<Longrightarrow> j < 256 \<Longrightarrow> \<not> bit w j" for j using assms(3) [of j] by simp
  have "nat b \<le> 255" using assms(2) by simp
  then show ?thesis using True assms(1,2) none [of 255] none by (simp add: t_def)
next
  case False
  note m = lsb_bit [OF assms(4) [OF False]]
  then have "bit w (nat (lsb M))" "nat b \<le> nat (lsb M)" "nat (lsb M) < 256" using assms(3) by blast+
  then show ?thesis using m False assms(1,3) by (auto simp: t_def)
qed

text \<open>
  Looking down, the search answers the nearest initialised tick at or below the current one
  within its bitmap word, and the lowest tick of the word, uninitialised, when there is none.
\<close>

theorem next_tick_below:
  assumes "0 < spacing" and "tickBitmap reads (tick div spacing div 256) = Inr word" and "0 \<le> word"
  shows "\<exists>s initialized. next_initialized_tick reads tick spacing True = Inr (s * spacing, initialized)
    \<and> s \<le> tick div spacing \<and> s div 256 = tick div spacing div 256
    \<and> initialized = tick_set word s \<and> (initialized \<or> s mod 256 = 0)
    \<and> (\<forall>u. s < u \<and> u \<le> tick div spacing \<longrightarrow> \<not> tick_set word u)"
proof -
  let ?c = "tick div spacing" and ?b = "tick div spacing mod 256"
  let ?M = "word AND (push_bit (nat ?b) 1 - 1 + push_bit (nat ?b) 1)"
  have b: "0 \<le> ?b" "?b < 256" by simp_all
  note M = masks(1) [OF b, of word]
  have run: "next_initialized_tick reads tick spacing True =
    Inr ((if ?M \<noteq> 0 then ?c - (?b - msb ?M) else ?c - ?b) * spacing, ?M \<noteq> 0)"
    unfolding next_initialized_tick_def Let_def compressed_floor [OF assms(1)] position_eq prod.case if_True assms(2) bindE.simps
    by (cases "?M = 0") (simp_all only: simp_thms if_True if_False)
  define t where "t = (if ?M \<noteq> 0 then msb ?M else 0)"
  note t = highest_masked [OF b(1) M masked_pos [OF assms(3)], folded t_def]
  have tb: "0 \<le> t" "t < 256" using t b by linarith+
  let ?s = "?c - (?b - t)"
  note w = in_word [OF tb, of ?c]
  have "\<not> tick_set word u" if u: "?s < u" "u \<le> ?c" for u
  proof -
    have "u div 256 = ?c div 256" using zdiv_mono1 [OF u(2), of 256] zdiv_mono1 [of ?s u 256] u(1) w by simp
    then have "u mod 256 = ?b - (?c - u)" using same_word [of u ?c] by simp
    then have "nat t < nat (u mod 256)" "nat (u mod 256) \<le> nat ?b" using u tb by auto
    then show ?thesis using t by (simp add: tick_set_def)
  qed
  moreover have "(if ?M \<noteq> 0 then ?c - (?b - msb ?M) else ?c - ?b) = ?s" by (simp add: t_def)
  ultimately show ?thesis using run w t by (intro exI [of _ ?s] exI [of _ "?M \<noteq> 0"]) (auto simp: tick_set_def)
qed

definition sample_reads :: pool_reads where
  "sample_reads = \<lparr>tickBitmap = \<lambda>_. Inr (2 ^ 5 + 2 ^ 230), liquidityNet = \<lambda>_. Inr 0\<rparr>"

theorem next_tick_below_witness:
  "\<exists>s initialized. next_initialized_tick sample_reads (-207) 10 True = Inr (s * 10, initialized)
    \<and> s \<le> -21 \<and> initialized = tick_set (2 ^ 5 + 2 ^ 230) s"
  using next_tick_below [of 10 sample_reads "-207" "2 ^ 5 + 2 ^ 230"] by (simp add: sample_reads_def) blast

text \<open>
  Looking up, it answers the nearest initialised tick strictly above the current one within
  the word, and the highest tick of the word when there is none.
\<close>

theorem next_tick_above:
  assumes "0 < spacing" and "tickBitmap reads ((tick div spacing + 1) div 256) = Inr word" and "0 \<le> word"
  shows "\<exists>s initialized. next_initialized_tick reads tick spacing False = Inr (s * spacing, initialized)
    \<and> tick div spacing < s \<and> s div 256 = (tick div spacing + 1) div 256
    \<and> initialized = tick_set word s \<and> (initialized \<or> s mod 256 = 255)
    \<and> (\<forall>u. tick div spacing < u \<and> u < s \<longrightarrow> \<not> tick_set word u)"
proof -
  let ?c = "tick div spacing + 1" and ?b = "(tick div spacing + 1) mod 256"
  let ?M = "word AND ((U256 - 1) XOR (push_bit (nat ?b) 1 - 1))"
  have b: "0 \<le> ?b" "?b < 256" by simp_all
  note M = masks(2) [OF b, of word]
  have run: "next_initialized_tick reads tick spacing False =
    Inr ((if ?M \<noteq> 0 then ?c + (lsb ?M - ?b) else ?c + (255 - ?b)) * spacing, ?M \<noteq> 0)"
    unfolding next_initialized_tick_def Let_def compressed_floor [OF assms(1)] position_eq prod.case if_False assms(2) bindE.simps
    by (cases "?M = 0") (simp_all only: simp_thms if_True if_False)
  define t where "t = (if ?M \<noteq> 0 then lsb ?M else 255)"
  note t = lowest_masked [OF b M masked_pos [OF assms(3)], folded t_def]
  have tb: "0 \<le> t" "t < 256" using t b by linarith+
  let ?s = "?c - (?b - t)"
  note w = in_word [OF tb, of ?c]
  have "\<not> tick_set word u" if u: "?c \<le> u" "u < ?s" for u
  proof -
    have "u div 256 = ?c div 256" using zdiv_mono1 [OF u(1), of 256] zdiv_mono1 [of u ?s 256] u(2) w by simp
    then have "u mod 256 = ?b - (?c - u)" using same_word [of u ?c] by simp
    then have "nat ?b \<le> nat (u mod 256)" "nat (u mod 256) < nat t" using u tb by auto
    then show ?thesis using t by (simp add: tick_set_def)
  qed
  moreover have "(if ?M \<noteq> 0 then ?c + (lsb ?M - ?b) else ?c + (255 - ?b)) = ?s" by (simp add: t_def)
  ultimately show ?thesis using run w t by (intro exI [of _ ?s] exI [of _ "?M \<noteq> 0"]) (auto simp: tick_set_def)
qed
theorem next_tick_above_witness:
  "\<exists>s initialized. next_initialized_tick sample_reads (-207) 10 False = Inr (s * 10, initialized)
    \<and> -21 < s \<and> initialized = tick_set (2 ^ 5 + 2 ^ 230) s"
  using next_tick_above [of 10 sample_reads "-207" "2 ^ 5 + 2 ^ 230"] by (simp add: sample_reads_def) blast

end
