(* ===== verification/V3Swap.thy ===== *)
theory V3Swap
  imports V3Ticks
begin

unbundle bit_operations_syntax

text \<open>
  The second half of solver/src/v3math.ts: the amounts between two prices, the next price after an
  input, one swap step and the quoting loop. The loop is bounded in the code by
  \<^verbatim>\<open>MAX_LOOP_STEPS\<close>, and that bound is the fuel here.
\<close>

definition MAX_SWAP_FEE :: int where "MAX_SWAP_FEE = 1000000"
definition DYNAMIC_FEE_FLAG :: int where "DYNAMIC_FEE_FLAG = 0x800000"
definition MAX_TICK_CROSSINGS :: nat where "MAX_TICK_CROSSINGS = 32"
definition MAX_LOOP_STEPS :: nat where "MAX_LOOP_STEPS = 128"

section \<open>Amounts and prices\<close>

definition get_amount0_delta :: "int \<Rightarrow> int \<Rightarrow> int \<Rightarrow> bool \<Rightarrow> js_error + int" where
  "get_amount0_delta a b liquidity roundUp =
     (let (a, b) = (if a > b then (b, a) else (a, b))
      in if a = 0 then Inl (Thrown ''InvalidPrice'')
         else let numerator1 = push_bit 96 liquidity; numerator2 = b - a
              in if roundUp
                 then bindE (mul_div_rounding_up numerator1 numerator2 b) (\<lambda>x. div_rounding_up x a)
                 else bindE (mul_div numerator1 numerator2 b) (\<lambda>x. div_by x a))"

definition get_amount1_delta :: "int \<Rightarrow> int \<Rightarrow> int \<Rightarrow> bool \<Rightarrow> js_error + int" where
  "get_amount1_delta a b liquidity roundUp =
     (let diff = (if a > b then a - b else b - a)
      in bindE (mul_div liquidity diff Q96) (\<lambda>amount.
           Inr (if roundUp \<and> (liquidity * diff) smod Q96 > 0 then amount + 1 else amount)))"

definition next_from_amount0_rounding_up :: "int \<Rightarrow> int \<Rightarrow> int \<Rightarrow> js_error + int" where
  "next_from_amount0_rounding_up sqrtP liquidity amount =
     (if amount = 0 then Inr sqrtP
      else let numerator1 = push_bit 96 liquidity;
               product = (amount * sqrtP) smod U256;
               denominator = (numerator1 + product) smod U256;
               fallback = bindE (div_by numerator1 sqrtP) (\<lambda>q. div_rounding_up numerator1 (q + amount))
           in if product sdiv amount = sqrtP
              then if denominator \<ge> numerator1 then mul_div_rounding_up numerator1 sqrtP denominator else fallback
              else fallback)"

definition next_from_amount1_rounding_down :: "int \<Rightarrow> int \<Rightarrow> int \<Rightarrow> js_error + int" where
  "next_from_amount1_rounding_down sqrtP liquidity amount =
     bindE (if amount \<le> push_bit 160 1 - 1 then div_by (push_bit 96 amount) liquidity
            else mul_div amount Q96 liquidity)
       (\<lambda>quotient. let next = sqrtP + quotient
          in if next \<ge> push_bit 160 1 then Inl (Thrown ''SafeCastOverflow'') else Inr next)"

definition next_from_input :: "int \<Rightarrow> int \<Rightarrow> int \<Rightarrow> bool \<Rightarrow> js_error + int" where
  "next_from_input sqrtP liquidity amountIn zeroForOne =
     (if sqrtP = 0 \<or> liquidity = 0 then Inl (Thrown ''InvalidPriceOrLiquidity'')
      else if zeroForOne then next_from_amount0_rounding_up sqrtP liquidity amountIn
      else next_from_amount1_rounding_down sqrtP liquidity amountIn)"

section \<open>One step\<close>

record swap_step =
  sqrtNext :: int
  amountIn :: int
  amountOut :: int
  feeAmount :: int

definition compute_swap_step_exact_in ::
  "int \<Rightarrow> int \<Rightarrow> int \<Rightarrow> int \<Rightarrow> int \<Rightarrow> js_error + swap_step" where
  "compute_swap_step_exact_in sqrtCurrent sqrtTarget liquidity amountRemaining feePips =
     (let zeroForOne = sqrtCurrent \<ge> sqrtTarget
      in bindE (mul_div amountRemaining (MAX_SWAP_FEE - feePips) MAX_SWAP_FEE) (\<lambda>lessFee.
         bindE (if zeroForOne then get_amount0_delta sqrtTarget sqrtCurrent liquidity True
                else get_amount1_delta sqrtCurrent sqrtTarget liquidity True) (\<lambda>full.
         bindE (if lessFee \<ge> full
                then bindE (if feePips = MAX_SWAP_FEE then Inr full
                            else mul_div_rounding_up full feePips (MAX_SWAP_FEE - feePips))
                       (\<lambda>fee. Inr (sqrtTarget, full, fee))
                else bindE (next_from_input sqrtCurrent liquidity lessFee zeroForOne)
                       (\<lambda>next. Inr (next, lessFee, amountRemaining - lessFee)))
           (\<lambda>(next, taken, fee).
         bindE (if zeroForOne then get_amount1_delta next sqrtCurrent liquidity False
                else get_amount0_delta sqrtCurrent next liquidity False) (\<lambda>out.
         Inr \<lparr>sqrtNext = next, amountIn = taken, amountOut = out, feeAmount = fee\<rparr>)))))"

section \<open>The quoting loop\<close>

record pool_state =
  q_sqrtPriceX96 :: int
  q_tick :: int
  q_fee :: int
  q_tickSpacing :: int
  q_liquidity :: int

record quote =
  quoteOut :: int
  quoteCrossings :: nat
  quoteSteps :: nat

record swap_state =
  w_sqrt :: int
  w_tick :: int
  w_liquidity :: int
  w_remaining :: int
  w_out :: int
  w_crossings :: nat
  w_steps :: nat

definition apply_liquidity :: "int \<Rightarrow> int \<Rightarrow> int" where
  "apply_liquidity liquidity delta = ((liquidity + delta) smod U128 + U128) smod U128"

text \<open>One target of the loop: the tick, whether it is initialised, its price and the step to it.\<close>

definition loop_step ::
  "pool_reads \<Rightarrow> int \<Rightarrow> int \<Rightarrow> bool \<Rightarrow> swap_state \<Rightarrow> js_error + int \<times> bool \<times> int \<times> swap_step" where
  "loop_step reads spacing feePips zeroForOne w =
     bindE (next_initialized_tick reads (w_tick w) spacing zeroForOne) (\<lambda>(next, initialized).
     bindE (get_sqrt_price_at_tick next) (\<lambda>sqrtTarget.
     bindE (compute_swap_step_exact_in (w_sqrt w) sqrtTarget (w_liquidity w) (w_remaining w) feePips) (\<lambda>step.
       Inr (next, initialized, sqrtTarget, step))))"

definition crossed ::
  "pool_reads \<Rightarrow> bool \<Rightarrow> int \<Rightarrow> swap_state \<Rightarrow> js_error + swap_state" where
  "crossed reads zeroForOne next w =
     bindE (liquidityNet reads next) (\<lambda>net.
       let liquidity = apply_liquidity (w_liquidity w) (if zeroForOne then - net else net);
           crossings = w_crossings w + 1
       in if crossings > MAX_TICK_CROSSINGS then Inl (Thrown ''TooManyTickCrossings'')
          else if liquidity = 0 then Inl (Thrown ''LiquidityExhausted'')
          else Inr (w\<lparr>w_liquidity := liquidity, w_crossings := crossings\<rparr>))"

definition loop_body ::
  "pool_reads \<Rightarrow> int \<Rightarrow> int \<Rightarrow> bool \<Rightarrow> swap_state \<Rightarrow> js_error + swap_state" where
  "loop_body reads spacing feePips zeroForOne w =
     bindE (loop_step reads spacing feePips zeroForOne w) (\<lambda>(next, initialized, sqrtTarget, step).
       let w' = w\<lparr>w_remaining := w_remaining w - (amountIn step + feeAmount step),
                  w_out := w_out w + amountOut step, w_sqrt := sqrtNext step\<rparr>
       in bindE
            (if sqrtNext step = sqrtTarget
             then bindE (if initialized then crossed reads zeroForOne next w' else Inr w') (\<lambda>w'.
                    Inr (w'\<lparr>w_tick := if zeroForOne then next - 1 else next\<rparr>))
             else bindE (get_tick_at_sqrt_price (sqrtNext step)) (\<lambda>t. Inr (w'\<lparr>w_tick := t\<rparr>)))
            (\<lambda>w'. Inr (w'\<lparr>w_steps := w_steps w + 1\<rparr>)))"

fun swap_loop ::
  "nat \<Rightarrow> pool_reads \<Rightarrow> int \<Rightarrow> int \<Rightarrow> bool \<Rightarrow> swap_state \<Rightarrow> js_error + swap_state" where
  "swap_loop 0 reads spacing feePips zeroForOne w = Inr w"
| "swap_loop (Suc n) reads spacing feePips zeroForOne w =
     (if w_remaining w > 0
      then bindE (loop_body reads spacing feePips zeroForOne w) (swap_loop n reads spacing feePips zeroForOne)
      else Inr w)"

definition loop_start :: "pool_state \<Rightarrow> int \<Rightarrow> swap_state" where
  "loop_start state amount =
     \<lparr>w_sqrt = q_sqrtPriceX96 state, w_tick = q_tick state, w_liquidity = q_liquidity state,
      w_remaining = amount, w_out = 0, w_crossings = 0, w_steps = 0\<rparr>"

definition quote_exact_in :: "pool_state \<Rightarrow> bool \<Rightarrow> int \<Rightarrow> pool_reads \<Rightarrow> js_error + quote" where
  "quote_exact_in state zeroForOne amount reads =
     (if q_sqrtPriceX96 state = 0 then Inl (Thrown ''PoolNotInitialized'')
      else if q_fee state \<ge> DYNAMIC_FEE_FLAG then Inl (Thrown ''DynamicFeeUnsupported'')
      else bindE (swap_loop MAX_LOOP_STEPS reads (q_tickSpacing state) (q_fee state) zeroForOne (loop_start state amount))
             (\<lambda>w. if w_remaining w \<noteq> 0 then Inl (Thrown ''LiquidityExhausted'')
                  else Inr \<lparr>quoteOut = w_out w, quoteCrossings = w_crossings w, quoteSteps = w_steps w\<rparr>))"

section \<open>Rounding\<close>

lemma mul_div_Inr: "mul_div a b d = Inr r \<Longrightarrow> 0 \<le> a * b \<Longrightarrow> 0 < d \<Longrightarrow> r = a * b div d"
  by (auto simp: mul_div_def div_by_def split: if_splits)

lemma ceil_as_floor: "0 < (d::int) \<Longrightarrow> n div d + (if n mod d > 0 then 1 else 0) = (n + d - 1) div d"
proof -
  assume d: "0 < d"
  define q r where "q = n div d" and "r = n mod d"
  have r: "0 \<le> r" "r < d" "n = r + q * d" using d by (simp_all add: q_def r_def)
  have "(n + d - 1) div d = (r + d - 1) div d + q"
    unfolding r(3) using d div_mult_self1 [of d "r + d - 1" q] by (simp add: algebra_simps)
  also have "(r + d - 1) div d = (if r > 0 then 1 else 0)"
  proof (cases "r > 0")
    case True
    have "(r + d - 1) div d = (r - 1 + 1 * d) div d" by (simp add: algebra_simps)
    also have "\<dots> = 1" using True r by (simp only: div_mult_self1) simp
    finally show ?thesis using True by simp
  next
    case False
    then show ?thesis using r by simp
  qed
  finally show ?thesis by (simp add: q_def r_def)
qed

lemma mul_div_up_Inr: "mul_div_rounding_up a b d = Inr r \<Longrightarrow> 0 \<le> a * b \<Longrightarrow> 0 < d \<Longrightarrow> r = (a * b + d - 1) div d"
  using ceil_as_floor [of d "a * b"] by (auto simp: mul_div_rounding_up_def dest!: mul_div_Inr split: if_splits)

lemma div_up_Inr: "div_rounding_up x y = Inr r \<Longrightarrow> 0 \<le> x \<Longrightarrow> 0 < y \<Longrightarrow> r = (x + y - 1) div y"
  using ceil_as_floor [of y x] by (auto simp: div_rounding_up_def div_by_def split: if_splits)

lemma ceil_nonneg: "0 \<le> n \<Longrightarrow> 0 < d \<Longrightarrow> 0 \<le> (n + d - 1) div (d::int)"
  by (intro floor_nonneg) simp_all

text \<open>The rounded up amounts between two prices, as the two ceilings they are.\<close>

lemma amount0_up:
  assumes "get_amount0_delta T P L True = Inr r" "0 < T" "T \<le> P" "0 \<le> L"
  shows "r = ((L * 2 ^ 96 * (P - T) + P - 1) div P + T - 1) div T" "0 \<le> r"
proof -
  have P: "0 < P" "0 \<le> L * 2 ^ 96 * (P - T)" using assms by simp_all
  obtain x where x: "mul_div_rounding_up (push_bit 96 L) (P - T) P = Inr x" "div_rounding_up x T = Inr r"
    using assms by (auto simp: get_amount0_delta_def Let_def split: if_splits)
  have x': "x = (L * 2 ^ 96 * (P - T) + P - 1) div P" using mul_div_up_Inr [OF x(1)] P by (simp add: push_bit_eq_mult)
  then have "0 \<le> x" using P ceil_nonneg by simp
  then show "r = ((L * 2 ^ 96 * (P - T) + P - 1) div P + T - 1) div T" "0 \<le> r"
    using div_up_Inr [OF x(2)] assms(2) ceil_nonneg [of x T] x' by simp_all
qed

lemma amount1_up:
  assumes "get_amount1_delta P T L True = Inr r" "P \<le> T" "0 \<le> L"
  shows "r = (L * (T - P) + Q96 - 1) div Q96" "0 \<le> r"
proof -
  have d: "0 < Q96" "0 \<le> L * (T - P)" using assms by (simp_all add: Q96_def)
  have diff: "(if P > T then P - T else T - P) = T - P" using assms(2) by simp
  obtain x where x: "mul_div L (T - P) Q96 = Inr x" "r = (if (L * (T - P)) smod Q96 > 0 then x + 1 else x)"
    using assms(1) unfolding get_amount1_delta_def Let_def diff by auto
  then show r: "r = (L * (T - P) + Q96 - 1) div Q96"
    using mul_div_Inr [OF x(1)] d unfolding ceil_as_floor [OF d(1), of "L * (T - P)", symmetric] by simp
  show "0 \<le> r" unfolding r using d by (intro ceil_nonneg)
qed

text \<open>
  Paying less than the whole way costs stops the price on the way: at or before the target, and
  never behind where it started.
\<close>

lemma next0_between:
  assumes "next_from_amount0_rounding_up P L x = Inr n" "0 < T" "T \<le> P" "0 < L" "L < U128" "0 \<le> x" "x < U256"
    and less: "x * T * P < L * 2 ^ 96 * (P - T)"
  shows "T \<le> n \<and> n \<le> P"
proof (cases "x = 0")
  case True
  then show ?thesis using assms by (simp add: next_from_amount0_rounding_up_def)
next
  case False
  let ?N = "L * 2 ^ 96" and ?prod = "x * P mod U256"
  have pos: "0 < P" "0 < x" "0 < ?N" using assms False by simp_all
  have N: "?N < U256" using assms(5) by (simp add: U128_def U256_def)
  have xP: "0 \<le> x * P" "(x * P) smod U256 = ?prod" "?prod \<le> x * P" using pos by (simp_all add: U256_def zmod_le_nonneg_dividend)
  have prod: "0 \<le> ?prod" by (simp add: U256_def)
  have key: "T * (?N + x * P) < ?N * P" using less by (simp add: algebra_simps)
  show ?thesis
  proof (cases "?prod sdiv x = P \<and> (?N + ?prod) smod U256 \<ge> ?N")
    case True
    then have "?prod div x = P" using prod pos by simp
    then have "P * x \<le> ?prod" using floor_mult_le [OF pos(2), of ?prod] by simp
    then have e: "?prod = x * P" using xP(3) by (simp add: mult.commute)
    have d: "(?N + ?prod) smod U256 = (?N + ?prod) mod U256" using prod pos by (simp add: U256_def)
    have "\<not> U256 \<le> ?N + ?prod"
    proof
      assume "U256 \<le> ?N + ?prod"
      moreover have "?prod < U256" by (simp add: U256_def)
      ultimately have "(?N + ?prod) mod U256 = ?N + ?prod - U256" using N by (metis mod_pos_pos_trivial minus_mod_self2 diff_ge_0_iff_ge add_mono_thms_linordered_field(5) diff_less_eq)
      then show False using True d \<open>?prod < U256\<close> by simp
    qed
    then have dd: "(?N + ?prod) smod U256 = ?N + x * P" using d e prod pos by (simp add: mod_pos_pos_trivial)
    have "mul_div_rounding_up ?N P (?N + x * P) = Inr n"
      using assms(1) False True xP(2) dd by (simp add: next_from_amount0_rounding_up_def Let_def push_bit_eq_mult)
    then have n: "n = (?N * P + (?N + x * P) - 1) div (?N + x * P)"
      using mul_div_up_Inr pos by (simp add: add_pos_nonneg)
    have D: "0 < ?N + x * P" using pos by (simp add: add_pos_nonneg)
    have "T < n" unfolding n ceil_greater_iff [OF D] using key .
    moreover have "n \<le> P" unfolding n ceil_le_iff [OF D] using pos by (simp add: algebra_simps)
    ultimately show ?thesis by simp
  next
    case False
    then have "bindE (div_by ?N P) (\<lambda>q. div_rounding_up ?N (q + x)) = Inr n"
      using assms(1) \<open>x \<noteq> 0\<close> xP(2) by (auto simp: next_from_amount0_rounding_up_def Let_def push_bit_eq_mult split: if_splits)
    then have q: "div_rounding_up ?N (?N div P + x) = Inr n" using pos by (simp add: div_by_def)
    have D: "0 < ?N div P + x" using pos by (simp add: add_nonneg_pos)
    have n: "n = (?N + (?N div P + x) - 1) div (?N div P + x)" using div_up_Inr [OF q] pos D by simp
    have "P * (T * (?N div P + x)) = T * (?N div P * P) + T * (x * P)" by (simp add: algebra_simps)
    also have "\<dots> \<le> T * ?N + T * (x * P)" using floor_mult_le [OF pos(1), of ?N] assms(2) by simp
    also have "\<dots> < P * ?N" using key by (simp add: algebra_simps)
    finally have "T * (?N div P + x) < ?N" using pos(1) by simp
    then have "T < n" unfolding n ceil_greater_iff [OF D] .
    have "?N \<le> P * (?N div P) + P" using floor_less_iff [OF pos(1), of ?N "?N div P + 1"] by (simp add: algebra_simps)
    moreover have "P * 1 \<le> P * x" using pos by (intro mult_left_mono) simp_all
    ultimately have "?N \<le> P * (?N div P + x)" by (simp add: distrib_left)
    then have "n \<le> P" unfolding n ceil_le_iff [OF D] .
    then show ?thesis using \<open>T < n\<close> by simp
  qed
qed

lemma next1_between:
  assumes "next_from_amount1_rounding_down P L x = Inr n" "0 < L" "0 \<le> x" "x * Q96 < L * (T - P)"
  shows "P \<le> n \<and> n \<le> T"
proof -
  have "0 \<le> x * Q96" using assms(3) by (simp add: Q96_def)
  then have "n = P + x * Q96 div L"
    using assms(1-3) mul_div_Inr [of x Q96 L]
    by (auto simp: next_from_amount1_rounding_down_def div_by_def push_bit_eq_mult Q96_def Let_def split: if_splits)
  moreover have "x * Q96 div L < T - P" using floor_less_iff [OF assms(2)] assms(4) by (simp add: mult.commute)
  ultimately show ?thesis using \<open>0 \<le> x * Q96\<close> assms(2) by simp
qed

lemma amounts_down:
  assumes "0 \<le> L"
  shows "get_amount1_delta a b L False = Inr r \<Longrightarrow> 0 \<le> r"
    "get_amount0_delta a b L False = Inr r \<Longrightarrow> 0 < a \<Longrightarrow> 0 < b \<Longrightarrow> 0 \<le> r"
proof -
  have "0 \<le> L * (if a > b then a - b else b - a)" using assms by simp
  then show "get_amount1_delta a b L False = Inr r \<Longrightarrow> 0 \<le> r"
    by (auto simp: get_amount1_delta_def Let_def Q96_def dest!: mul_div_Inr)
  assume r: "get_amount0_delta a b L False = Inr r" and ab: "0 < a" "0 < b"
  obtain x where "mul_div (L * 2 ^ 96) (max a b - min a b) (max a b) = Inr x" "div_by x (min a b) = Inr r"
    using r ab by (auto simp: get_amount0_delta_def Let_def push_bit_eq_mult max_def min_def split: if_splits)
  moreover from this(1) have "0 \<le> x" using assms ab by (auto dest!: mul_div_Inr)
  ultimately show "0 \<le> r" using ab by (auto simp: div_by_def split: if_splits)
qed

section \<open>One step of the swap\<close>

text \<open>The preconditions the pool guarantees: live prices, 128 bit liquidity, a fee below the whole.\<close>

definition step_inputs :: "int \<Rightarrow> int \<Rightarrow> int \<Rightarrow> int \<Rightarrow> int \<Rightarrow> bool" where
  "step_inputs P T L x fee \<longleftrightarrow> 0 < P \<and> 0 < T \<and> 0 \<le> L \<and> L < U128 \<and> 0 \<le> x \<and> x < U256 \<and> 0 \<le> fee \<and> fee \<le> MAX_SWAP_FEE"

lemma less_fee:
  assumes "mul_div x (MAX_SWAP_FEE - fee) MAX_SWAP_FEE = Inr l" "0 \<le> x" "0 \<le> fee" "fee \<le> MAX_SWAP_FEE"
  shows "0 \<le> l" "l \<le> x" "l * MAX_SWAP_FEE \<le> x * (MAX_SWAP_FEE - fee)"
proof -
  have M: "0 < MAX_SWAP_FEE" by (simp add: MAX_SWAP_FEE_def)
  have n: "0 \<le> x * (MAX_SWAP_FEE - fee)" using assms by simp
  have l: "l = x * (MAX_SWAP_FEE - fee) div MAX_SWAP_FEE" by (rule mul_div_Inr [OF assms(1) n M])
  show "0 \<le> l" unfolding l using n M by simp
  show "l * MAX_SWAP_FEE \<le> x * (MAX_SWAP_FEE - fee)" unfolding l by (rule floor_mult_le [OF M])
  show "l \<le> x" unfolding l using assms M by (intro floor_share_le) simp_all
qed

text \<open>The fee on a step that reaches its target still fits in what is left.\<close>

lemma fee_fits:
  assumes "mul_div_rounding_up full fee (MAX_SWAP_FEE - fee) = Inr f" "0 \<le> full" "full \<le> l"
    "l * MAX_SWAP_FEE \<le> x * (MAX_SWAP_FEE - fee)" "0 \<le> fee" "fee < MAX_SWAP_FEE"
  shows "0 \<le> f" "full + f \<le> x"
proof -
  let ?M = "MAX_SWAP_FEE" and ?d = "MAX_SWAP_FEE - fee"
  have d: "0 < ?d" "0 \<le> full * fee" using assms by simp_all
  have f: "f = (full * fee + ?d - 1) div ?d" by (rule mul_div_up_Inr [OF assms(1) d(2,1)])
  show "0 \<le> f" unfolding f using d by (intro ceil_nonneg)
  have "full * ?M \<le> l * ?M" using assms(3) by (intro mult_right_mono) (simp_all add: MAX_SWAP_FEE_def)
  then have "full * ?M \<le> x * ?d" using assms(4) by (rule order_trans)
  then have "full * fee \<le> (x - full) * ?d" by (simp add: algebra_simps)
  then have "f \<le> x - full" unfolding f ceil_le_iff [OF d(1)] .
  then show "full + f \<le> x" by simp
qed

lemma swap_step_sound:
  assumes "compute_swap_step_exact_in P T L x fee = Inr s" "step_inputs P T L x fee"
  shows "0 \<le> amountIn s" "0 \<le> feeAmount s" "amountIn s + feeAmount s \<le> x"
    "sqrtNext s \<noteq> T \<Longrightarrow> amountIn s + feeAmount s = x"
    "if T \<le> P then T \<le> sqrtNext s \<and> sqrtNext s \<le> P else P \<le> sqrtNext s \<and> sqrtNext s \<le> T"
    "0 \<le> amountOut s"
proof -
  have i: "0 < P" "0 < T" "0 \<le> L" "L < U128" "0 \<le> x" "x < U256" "0 \<le> fee" "fee \<le> MAX_SWAP_FEE"
    using assms(2) by (simp_all add: step_inputs_def)
  define z where "z \<longleftrightarrow> T \<le> P"
  obtain l full n taken f out where
    l: "mul_div x (MAX_SWAP_FEE - fee) MAX_SWAP_FEE = Inr l" and
    full: "(if z then get_amount0_delta T P L True else get_amount1_delta P T L True) = Inr full" and
    br: "(if full \<le> l
          then bindE (if fee = MAX_SWAP_FEE then Inr full else mul_div_rounding_up full fee (MAX_SWAP_FEE - fee))
                 (\<lambda>f. Inr (T, full, f))
          else bindE (next_from_input P L l z) (\<lambda>n. Inr (n, l, x - l))) = Inr (n, taken, f)" and
    out: "(if z then get_amount1_delta n P L False else get_amount0_delta P n L False) = Inr out" and
    s: "s = \<lparr>sqrtNext = n, amountIn = taken, amountOut = out, feeAmount = f\<rparr>"
    using assms(1) unfolding compute_swap_step_exact_in_def Let_def z_def [symmetric] by auto
  note lf = less_fee [OF l i(5,7,8)]
  have full0: "0 \<le> full" using full i amount0_up(2) [of T P L full] amount1_up(2) [of P T L full] by (auto simp: z_def split: if_splits)
  have main: "0 \<le> taken \<and> 0 \<le> f \<and> taken + f \<le> x \<and> (n \<noteq> T \<longrightarrow> taken + f = x)
    \<and> (if z then T \<le> n \<and> n \<le> P else P \<le> n \<and> n \<le> T)"
  proof (cases "full \<le> l")
    case True
    then have n: "n = T" "taken = full" and f: "(if fee = MAX_SWAP_FEE then Inr full else mul_div_rounding_up full fee (MAX_SWAP_FEE - fee)) = Inr f"
      using br by (auto split: if_splits)
    have "0 \<le> f \<and> full + f \<le> x"
    proof (cases "fee = MAX_SWAP_FEE")
      case True
      then have "l * MAX_SWAP_FEE \<le> 0" using lf(3) by simp
      then have "full = 0" using lf(1) full0 \<open>full \<le> l\<close> by (simp add: MAX_SWAP_FEE_def)
      then show ?thesis using f True i(5) by simp
    next
      case False
      then show ?thesis using fee_fits [OF _ full0 True lf(3) i(7)] f i(8) by simp
    qed
    then show ?thesis using n full0 by (auto simp: z_def)
  next
    case False
    then have nx: "next_from_input P L l z = Inr n" and e: "taken = l" "f = x - l" using br by auto
    then have L: "0 < L" using i(3) by (auto simp: next_from_input_def split: if_splits)
    have "if z then T \<le> n \<and> n \<le> P else P \<le> n \<and> n \<le> T"
    proof (cases z)
      case True
      then have fl: "full = ((L * 2 ^ 96 * (P - T) + P - 1) div P + T - 1) div T"
        using full i amount0_up(1) [of T P L full] by (simp add: z_def)
      have "l * T < (L * 2 ^ 96 * (P - T) + P - 1) div P"
        using False unfolding fl not_le ceil_greater_iff [OF i(2)] .
      then have "l * T * P < L * 2 ^ 96 * (P - T)" unfolding ceil_greater_iff [OF i(1)] .
      then have "T \<le> n \<and> n \<le> P"
        using nx True i L lf by (intro next0_between [of P L l]) (auto simp: next_from_input_def z_def split: if_splits)
      then show ?thesis using True by simp
    next
      case F: False
      then have fl: "full = (L * (T - P) + Q96 - 1) div Q96" using full i amount1_up(1) [of P T L full] by (simp add: z_def)
      have "0 < Q96" by (simp add: Q96_def)
      then have "l * Q96 < L * (T - P)" using False unfolding fl not_le by (simp only: ceil_greater_iff)
      then have "P \<le> n \<and> n \<le> T"
        using nx F L lf by (intro next1_between [of P L l]) (auto simp: next_from_input_def split: if_splits)
      then show ?thesis using F by simp
    qed
    then show ?thesis using e lf by simp
  qed
  have "0 < n" using main i by (auto split: if_splits)
  then have "0 \<le> out" using out amounts_down [OF i(3)] i by (auto split: if_splits)
  with main show "0 \<le> amountIn s" "0 \<le> feeAmount s" "amountIn s + feeAmount s \<le> x"
    "sqrtNext s \<noteq> T \<Longrightarrow> amountIn s + feeAmount s = x"
    "if T \<le> P then T \<le> sqrtNext s \<and> sqrtNext s \<le> P else P \<le> sqrtNext s \<and> sqrtNext s \<le> T"
    "0 \<le> amountOut s" by (simp_all add: s z_def)
qed

text \<open>
  A swap step never takes more than is left, takes all of it when it stops short of its
  target, and never moves the price past the target or back behind where it was.
\<close>

theorem swap_step_bounded:
  assumes "compute_swap_step_exact_in P T L x fee = Inr s"
    and "0 < P" and "0 < T" and "0 \<le> L" and "L < U128" and "0 \<le> x" and "x < U256" and "0 \<le> fee" and "fee \<le> MAX_SWAP_FEE"
  shows "0 \<le> amountIn s \<and> 0 \<le> feeAmount s \<and> 0 \<le> amountOut s \<and> amountIn s + feeAmount s \<le> x
    \<and> (sqrtNext s = T \<or> amountIn s + feeAmount s = x)
    \<and> min P T \<le> sqrtNext s \<and> sqrtNext s \<le> max P T"
  using swap_step_sound [OF assms(1)] assms(2-) by (auto simp: step_inputs_def split: if_splits)

theorem swap_step_bounded_witness:
  "\<exists>s. compute_swap_step_exact_in (2 ^ 96) (2 ^ 96 - 2 ^ 80) (10 ^ 18) (10 ^ 12) 3000 = Inr s
    \<and> amountIn s + feeAmount s = 10 ^ 12 \<and> sqrtNext s \<le> 2 ^ 96"
proof -
  obtain s where s: "compute_swap_step_exact_in (2 ^ 96) (2 ^ 96 - 2 ^ 80) (10 ^ 18) (10 ^ 12) 3000 = Inr s"
    "amountIn s + feeAmount s = 10 ^ 12"
  proof -
    have "case compute_swap_step_exact_in (2 ^ 96) (2 ^ 96 - 2 ^ 80) (10 ^ 18) (10 ^ 12) 3000 of
      Inl _ \<Rightarrow> False | Inr s \<Rightarrow> amountIn s + feeAmount s = 10 ^ 12" by code_simp
    then show thesis using that by (auto split: sum.splits)
  qed
  have "sqrtNext s \<le> max (2 ^ 96) (2 ^ 96 - 2 ^ 80)"
    by (rule swap_step_bounded [OF s(1), THEN conjunct2, THEN conjunct2, THEN conjunct2, THEN conjunct2, THEN conjunct2, THEN conjunct2])
      (simp_all add: U128_def U256_def MAX_SWAP_FEE_def)
  then show ?thesis using s by auto
qed

section \<open>The whole quote\<close>

text \<open>
  The steps a quote goes through: each one is a swap step the loop computes with something left,
  and the loop body's new state.
\<close>

inductive swap_trace ::
  "pool_reads \<Rightarrow> int \<Rightarrow> int \<Rightarrow> bool \<Rightarrow> swap_state \<Rightarrow> swap_step list \<Rightarrow> swap_state \<Rightarrow> bool"
  for reads spacing fee zeroForOne where
  stop: "swap_trace reads spacing fee zeroForOne w [] w"
| step: "0 < w_remaining w
    \<Longrightarrow> loop_step reads spacing fee zeroForOne w = Inr (next, initialized, target, s)
    \<Longrightarrow> loop_body reads spacing fee zeroForOne w = Inr w'
    \<Longrightarrow> swap_trace reads spacing fee zeroForOne w' trace w''
    \<Longrightarrow> swap_trace reads spacing fee zeroForOne w (s # trace) w''"

inductive_cases swap_trace_NilE: "swap_trace reads spacing fee zeroForOne w [] w'"
inductive_cases swap_trace_ConsE: "swap_trace reads spacing fee zeroForOne w (s # trace) w'"

lemma loop_traced:
  "swap_loop n reads spacing fee z w = Inr w' \<Longrightarrow> \<exists>trace. swap_trace reads spacing fee z w trace w' \<and> length trace \<le> n"
proof (induction n arbitrary: w)
  case 0
  then show ?case by (auto intro: swap_trace.stop)
next
  case (Suc n)
  show ?case
  proof (cases "0 < w_remaining w")
    case True
    then obtain w1 where b: "loop_body reads spacing fee z w = Inr w1" "swap_loop n reads spacing fee z w1 = Inr w'"
      using Suc.prems by auto
    obtain nx ini target s where "loop_step reads spacing fee z w = Inr (nx, ini, target, s)"
      using b(1) unfolding loop_body_def by (cases "loop_step reads spacing fee z w") auto
    moreover obtain trace where "swap_trace reads spacing fee z w1 trace w'" "length trace \<le> n"
      using Suc.IH [OF b(2)] by blast
    ultimately show ?thesis using True b(1)
      by (intro exI [of _ "s # trace"]) (auto intro: swap_trace.step)
  next
    case False
    then show ?thesis using Suc.prems by (intro exI [of _ "[]"]) (auto intro: swap_trace.stop)
  qed
qed

text \<open>What one run of the body does to the state.\<close>

definition live_swap :: "swap_state \<Rightarrow> bool" where
  "live_swap w \<longleftrightarrow> 0 < w_sqrt w \<and> 0 \<le> w_liquidity w \<and> w_liquidity w < U128 \<and> 0 \<le> w_remaining w \<and> w_remaining w < U256
     \<and> w_crossings w \<le> MAX_TICK_CROSSINGS"

lemma apply_liquidity_wraps: "apply_liquidity l d = (l + d) mod U128"
proof -
  have U: "0 < U128" by (simp add: U128_def)
  have "- U128 < (l + d) smod U128"
  proof (cases "0 \<le> l + d")
    case True
    then show ?thesis using U pos_mod_sign [OF U, of "l + d"] by (simp only: smod_floor)
  next
    case False
    then show ?thesis using pos_mod_bound [OF U, of "- (l + d)"] U by (simp add: smod_int_alt_def)
  qed
  then have "apply_liquidity l d = ((l + d) smod U128 + U128) mod U128"
    unfolding apply_liquidity_def using U by (intro smod_floor) linarith+
  also have "(l + d) smod U128 = (l + d) - (l + d) sdiv U128 * U128" by (simp add: minus_sdiv_mult_eq_smod)
  also have "(l + d) - (l + d) sdiv U128 * U128 + U128 = (l + d) + (1 - (l + d) sdiv U128) * U128"
    by (simp add: algebra_simps)
  also have "\<dots> mod U128 = (l + d) mod U128" by (rule mod_mult_self1)
  finally show ?thesis .
qed

lemma crossed_state:
  assumes "crossed reads z next w = Inr w'"
  shows "w_remaining w' = w_remaining w" "w_out w' = w_out w" "w_sqrt w' = w_sqrt w" "w_steps w' = w_steps w"
    "0 \<le> w_liquidity w'" "w_liquidity w' < U128" "w_crossings w' = w_crossings w + 1" "w_crossings w' \<le> MAX_TICK_CROSSINGS"
  using assms by (auto simp: crossed_def Let_def apply_liquidity_wraps U128_def split: if_splits)

lemma sqrt_price_pos: "get_sqrt_price_at_tick t = Inr p \<Longrightarrow> 0 < p"
proof -
  assume p: "get_sqrt_price_at_tick t = Inr p"
  then have t: "MIN_TICK \<le> t" "t \<le> MAX_TICK" "p = sqrt_price t"
    using tick_range [of t] by (auto simp: get_sqrt_price_eq split: if_splits)
  have "MIN_SQRT_PRICE \<le> p"
    using sqrt_price_strict [of MIN_TICK t] t tick_ends(1) by (cases "t = MIN_TICK") auto
  then show "0 < p" by (simp add: MIN_SQRT_PRICE_def)
qed

lemma loop_body_state:
  assumes "loop_body reads spacing fee z w = Inr w'" "loop_step reads spacing fee z w = Inr (next, ini, target, s)"
    "live_swap w" "0 \<le> fee" "fee \<le> MAX_SWAP_FEE"
  shows "live_swap w' \<and> w_remaining w' = w_remaining w - (amountIn s + feeAmount s) \<and> w_out w' = w_out w + amountOut s
    \<and> w_steps w' = w_steps w + 1 \<and> w_crossings w' \<le> w_crossings w + 1
    \<and> 0 \<le> amountIn s \<and> 0 \<le> feeAmount s \<and> 0 \<le> amountOut s"
proof -
  have c: "compute_swap_step_exact_in (w_sqrt w) target (w_liquidity w) (w_remaining w) fee = Inr s"
    and t: "get_sqrt_price_at_tick next = Inr target"
    using assms(2) by (auto simp: loop_step_def)
  have "step_inputs (w_sqrt w) target (w_liquidity w) (w_remaining w) fee"
    using assms(3-5) sqrt_price_pos [OF t] by (simp add: step_inputs_def live_swap_def)
  note S = swap_step_sound [OF c this]
  have n: "0 < sqrtNext s"
    using S(5) sqrt_price_pos [OF t] assms(3) by (auto simp: live_swap_def split: if_splits)
  define w1 where "w1 = w\<lparr>w_remaining := w_remaining w - (amountIn s + feeAmount s),
    w_out := w_out w + amountOut s, w_sqrt := sqrtNext s\<rparr>"
  have w1: "live_swap w1" using assms(3) S(1-3) n by (simp add: live_swap_def w1_def)
  obtain w2 where w2: "w2 = w1 \<or> crossed reads z next w1 = Inr w2" "\<exists>t. w' = w2\<lparr>w_tick := t, w_steps := w_steps w + 1\<rparr>"
  proof -
    have "\<exists>w2. (w2 = w1 \<or> crossed reads z next w1 = Inr w2) \<and> (\<exists>t. w' = w2\<lparr>w_tick := t, w_steps := w_steps w + 1\<rparr>)"
    proof (cases "sqrtNext s = target \<and> ini")
      case True
      then obtain w2 where "crossed reads z next w1 = Inr w2" "w' = w2\<lparr>w_tick := if z then next - 1 else next, w_steps := w_steps w + 1\<rparr>"
        using assms(1) unfolding loop_body_def assms(2) Let_def w1_def by auto
      then show ?thesis by blast
    next
      case False
      then have "\<exists>t. w' = w1\<lparr>w_tick := t, w_steps := w_steps w + 1\<rparr>"
        using assms(1) unfolding loop_body_def assms(2) Let_def w1_def by (auto split: if_splits)
      then show ?thesis by blast
    qed
    then show thesis using that by blast
  qed
  have w2': "live_swap w2 \<and> w_remaining w2 = w_remaining w1 \<and> w_out w2 = w_out w1 \<and> w_steps w2 = w_steps w1
    \<and> w_crossings w2 \<le> w_crossings w1 + 1"
    using w2(1) w1 crossed_state [of reads z "next" w1 w2] by (auto simp: live_swap_def)
  then have "live_swap w'" using w2(2) by (auto simp: live_swap_def)
  then show ?thesis using w2' w2(2) S by (auto simp: w1_def)
qed

lemma trace_sums:
  assumes "swap_trace reads spacing fee z w trace w'" "live_swap w" "0 \<le> fee" "fee \<le> MAX_SWAP_FEE"
  shows "live_swap w' \<and> w_remaining w' = w_remaining w - (\<Sum>s\<leftarrow>trace. amountIn s + feeAmount s)
    \<and> w_out w' = w_out w + (\<Sum>s\<leftarrow>trace. amountOut s) \<and> w_steps w' = w_steps w + length trace
    \<and> list_all (\<lambda>s. 0 \<le> amountIn s \<and> 0 \<le> feeAmount s \<and> 0 \<le> amountOut s) trace"
  using assms
proof (induction rule: swap_trace.induct)
  case (step w nx ini target s w' trace w'')
  note b = loop_body_state [OF step.hyps(3,2) step.prems]
  then show ?case using step.IH step.prems by auto
qed simp

text \<open>
  A quote that returns has spent the amount to the last unit: it is the end of a trace of at
  most 128 swap steps and 32 crossings, whose inputs and fees add up to the amount quoted and
  whose outputs add up to the answer.
\<close>

theorem quote_spends_all:
  assumes "quote_exact_in state zeroForOne amount reads = Inr r"
    and "0 < q_sqrtPriceX96 state" and "0 \<le> q_liquidity state" and "q_liquidity state < U128"
    and "0 \<le> amount" and "amount < U256" and "0 \<le> q_fee state" and "q_fee state \<le> MAX_SWAP_FEE"
  shows "\<exists>trace w. swap_trace reads (q_tickSpacing state) (q_fee state) zeroForOne (loop_start state amount) trace w
    \<and> (\<Sum>s\<leftarrow>trace. amountIn s + feeAmount s) = amount \<and> (\<Sum>s\<leftarrow>trace. amountOut s) = quoteOut r
    \<and> length trace = quoteSteps r \<and> quoteSteps r \<le> MAX_LOOP_STEPS \<and> quoteCrossings r \<le> MAX_TICK_CROSSINGS
    \<and> list_all (\<lambda>s. 0 \<le> amountIn s \<and> 0 \<le> feeAmount s \<and> 0 \<le> amountOut s) trace"
proof -
  obtain w where w: "swap_loop MAX_LOOP_STEPS reads (q_tickSpacing state) (q_fee state) zeroForOne (loop_start state amount) = Inr w"
    "w_remaining w = 0" "r = \<lparr>quoteOut = w_out w, quoteCrossings = w_crossings w, quoteSteps = w_steps w\<rparr>"
    using assms(1) by (auto simp: quote_exact_in_def split: if_splits)
  obtain trace where tr: "swap_trace reads (q_tickSpacing state) (q_fee state) zeroForOne (loop_start state amount) trace w"
    "length trace \<le> MAX_LOOP_STEPS" using loop_traced [OF w(1)] by blast
  have "live_swap (loop_start state amount)" using assms(2-6) by (simp add: live_swap_def loop_start_def)
  from trace_sums [OF tr(1) this assms(7,8)] tr w(2,3) show ?thesis
    by (intro exI [of _ trace] exI [of _ w]) (auto simp: loop_start_def live_swap_def)
qed

definition sample_pool :: pool_state where
  "sample_pool = \<lparr>q_sqrtPriceX96 = 2 ^ 96, q_tick = 0, q_fee = 3000, q_tickSpacing = 60, q_liquidity = 10 ^ 18\<rparr>"

theorem quote_spends_all_witness:
  "\<exists>r trace w. quote_exact_in sample_pool True (10 ^ 9) sample_reads = Inr r
    \<and> swap_trace sample_reads 60 3000 True (loop_start sample_pool (10 ^ 9)) trace w
    \<and> (\<Sum>s\<leftarrow>trace. amountIn s + feeAmount s) = 10 ^ 9"
proof -
  obtain r where r: "quote_exact_in sample_pool True (10 ^ 9) sample_reads = Inr r"
  proof -
    have "case quote_exact_in sample_pool True (10 ^ 9) sample_reads of Inl _ \<Rightarrow> False | Inr _ \<Rightarrow> True" by code_simp
    then show thesis using that by (auto split: sum.splits)
  qed
  show ?thesis using quote_spends_all [OF r] r
    by (simp add: sample_pool_def U128_def U256_def MAX_SWAP_FEE_def) blast
qed

end
