(* ===== verification/Cross.thy ===== *)
theory Cross
  imports Prelude
begin

text \<open>
  solver/src/cross.ts: the plan of an auction cross. Matching at one price, the least price at
  which demand no longer exceeds supply, the split of the sold tokens by largest remainder, and
  the check of the finished plan. A message is kept without the numbers it interpolates.
\<close>

definition CROSS_WAD :: int where "CROSS_WAD = 10 ^ 18"
definition CROSS_BPS :: int where "CROSS_BPS = 10000"
definition KIND_MOO :: int where "KIND_MOO = 1"
definition KIND_LOO :: int where "KIND_LOO = 2"

record commitment =
  o_index :: nat
  o_owner :: string
  o_buy :: bool
  o_escrowed :: bool
  o_cancelled :: bool
  o_kind :: int
  o_maxDevFromRefBps :: int
  o_sellAmount :: int
  o_limitPrice :: int
  o_filledSell :: int

record cross_execution =
  x_intentIndex :: int
  x_executedSell :: int
  x_executedBuy :: int

definition quote_of :: "int \<Rightarrow> int \<Rightarrow> int" where
  "quote_of tokenAmount price = tokenAmount * price sdiv CROSS_WAD"

text \<open>\<open>tokens\<close> is the division itself, \<open>token_of\<close> the call, which throws on a price of zero.\<close>

definition tokens :: "int \<Rightarrow> int \<Rightarrow> int" where
  "tokens quoteAmount price = quoteAmount * CROSS_WAD sdiv price"

definition token_of :: "int \<Rightarrow> int \<Rightarrow> js_error + int" where
  "token_of quoteAmount price = (if price = 0 then Inl RangeError else Inr (tokens quoteAmount price))"

definition collar :: "int \<Rightarrow> int \<Rightarrow> int \<times> int" where
  "collar ref collarBps =
     (ref * (CROSS_BPS - collarBps) sdiv CROSS_BPS, ref * (CROSS_BPS + collarBps) sdiv CROSS_BPS)"

definition effective_limit :: "commitment \<Rightarrow> int \<Rightarrow> bool \<Rightarrow> int \<times> bool" where
  "effective_limit c ref rooExcluded =
     (if o_kind c = KIND_MOO then (0, True)
      else if o_kind c = KIND_LOO then (o_limitPrice c, True)
      else if rooExcluded \<or> ref = 0 then (0, False)
      else let dev = o_maxDevFromRefBps c
           in (if o_buy c then ref * (CROSS_BPS + dev) sdiv CROSS_BPS
               else ref * (CROSS_BPS - dev) sdiv CROSS_BPS, True))"

definition in_at :: "commitment \<Rightarrow> int \<Rightarrow> int \<Rightarrow> bool \<Rightarrow> bool" where
  "in_at c price ref rooExcluded =
     (if o_cancelled c \<or> \<not> o_escrowed c then False
      else case effective_limit c ref rooExcluded of (limit, participating) \<Rightarrow>
        if \<not> participating then False
        else if o_buy c then limit = 0 \<or> price \<le> limit
        else limit = 0 \<or> price \<ge> limit)"

record matching =
  m_demand :: int
  m_supply :: int
  m_matched :: int

definition match_step :: "int \<Rightarrow> int \<Rightarrow> bool \<Rightarrow> int \<times> int \<Rightarrow> commitment \<Rightarrow> int \<times> int" where
  "match_step price ref rooExcluded acc c =
     (case acc of (d, s) \<Rightarrow>
        if \<not> in_at c price ref rooExcluded then (d, s)
        else if o_buy c then (d + tokens (o_sellAmount c) price, s)
        else (d, s + o_sellAmount c))"

definition match_at :: "commitment list \<Rightarrow> int \<Rightarrow> int \<Rightarrow> bool \<Rightarrow> matching" where
  "match_at book price ref rooExcluded =
     (if price = 0 then \<lparr>m_demand = 0, m_supply = 0, m_matched = 0\<rparr>
      else case foldl (match_step price ref rooExcluded) (0, 0) book of (d, s) \<Rightarrow>
             \<lparr>m_demand = d, m_supply = s, m_matched = (if d < s then d else s)\<rparr>)"

definition covers :: "commitment list \<Rightarrow> int \<Rightarrow> bool \<Rightarrow> int \<Rightarrow> bool" where
  "covers book ref rooExcluded p =
     (let m = match_at book p ref rooExcluded in m_demand m \<le> m_supply m)"

definition balancing_price :: "commitment list \<Rightarrow> int \<Rightarrow> int \<Rightarrow> int \<Rightarrow> bool \<Rightarrow> int option" where
  "balancing_price book lowest highest ref rooExcluded =
     (if lowest > highest \<or> \<not> covers book ref rooExcluded highest then None
      else Some (search_least (covers book ref rooExcluded) lowest highest))"

section \<open>Largest remainder\<close>

record share =
  h_index :: nat
  h_remaining :: int
  h_x :: int
  h_rem :: int

definition remaining_of :: "commitment \<Rightarrow> int" where
  "remaining_of c = o_sellAmount c - o_filledSell c"

definition share_of :: "int \<Rightarrow> int \<Rightarrow> commitment \<Rightarrow> share" where
  "share_of target available c =
     (let exact = remaining_of c * target
      in \<lparr>h_index = o_index c, h_remaining = remaining_of c,
          h_x = exact sdiv available, h_rem = exact smod available\<rparr>)"

definition share_order :: "share list \<Rightarrow> nat \<Rightarrow> nat \<Rightarrow> int" where
  "share_order shares a b =
     (if h_rem (shares ! b) > h_rem (shares ! a) then 1
      else if h_rem (shares ! b) < h_rem (shares ! a) then -1
      else int (h_index (shares ! a)) - int (h_index (shares ! b)))"

text \<open>
  The loop bumps the objects of the unsorted array in the order of the sorted copy, so the sort is
  of positions and the bump is a write at a position.
\<close>

definition place_step :: "share list \<times> int \<Rightarrow> nat \<Rightarrow> share list \<times> int" where
  "place_step acc k =
     (case acc of (shares, left) \<Rightarrow>
        if left = 0 then (shares, left)
        else if h_x (shares ! k) < h_remaining (shares ! k)
        then (shares[k := (shares ! k)\<lparr>h_x := h_x (shares ! k) + 1\<rparr>], left - 1)
        else (shares, left))"

definition place :: "share list \<Rightarrow> int \<Rightarrow> share list \<times> int" where
  "place shares left = foldl place_step (shares, left) (js_sort (share_order shares) [0..<length shares])"

section \<open>The check\<close>

datatype cross_stop = Failed js_error | Problem string

record cross_sums =
  tokenIn :: int
  tokenOut :: int
  quoteIn :: int
  quoteOut :: int
  last_index :: int

definition check_step ::
  "commitment list \<Rightarrow> int \<Rightarrow> bool \<Rightarrow> int \<Rightarrow> cross_sums \<Rightarrow> cross_execution \<Rightarrow> cross_stop + cross_sums" where
  "check_step book ref rooExcluded price t x =
     (if x_intentIndex x \<le> last_index t then Inl (Problem ''ExecutionsNotAscending'')
      else case js_at book (x_intentIndex x) of
        None \<Rightarrow> Inl (Problem ''CommitmentNotEscrowed'')
      | Some c \<Rightarrow>
          if \<not> o_escrowed c \<or> o_cancelled c then Inl (Problem ''CommitmentNotEscrowed'')
          else case effective_limit c ref rooExcluded of (limit, participating) \<Rightarrow>
            if \<not> participating then Inl (Problem ''LimitNotRespected'')
            else if o_buy c \<and> limit \<noteq> 0 \<and> price > limit then Inl (Problem ''LimitNotRespected'')
            else if \<not> o_buy c \<and> limit \<noteq> 0 \<and> price < limit then Inl (Problem ''LimitNotRespected'')
            else if x_executedSell x > o_sellAmount c - o_filledSell c then Inl (Problem ''FillExceedsEscrow'')
            else case (if o_buy c then token_of (x_executedSell x) price
                       else Inr (quote_of (x_executedSell x) price)) of
              Inl e \<Rightarrow> Inl (Failed e)
            | Inr expected \<Rightarrow>
                if x_executedBuy x \<noteq> expected then Inl (Problem ''UniformPriceViolated'')
                else Inr (if o_buy c
                     then t\<lparr>last_index := x_intentIndex x, quoteIn := quoteIn t + x_executedSell x,
                            tokenOut := tokenOut t + x_executedBuy x\<rparr>
                     else t\<lparr>last_index := x_intentIndex x, tokenIn := tokenIn t + x_executedSell x,
                            quoteOut := quoteOut t + x_executedBuy x\<rparr>))"

definition check_cross ::
  "commitment list \<Rightarrow> int \<Rightarrow> bool \<Rightarrow> int \<Rightarrow> cross_execution list \<Rightarrow> js_error + string option" where
  "check_cross book ref rooExcluded price e =
     (case foldE (check_step book ref rooExcluded price)
             \<lparr>tokenIn = 0, tokenOut = 0, quoteIn = 0, quoteOut = 0, last_index = -1\<rparr> e of
        Inl (Failed err) \<Rightarrow> Inl err
      | Inl (Problem reason) \<Rightarrow> Inr (Some reason)
      | Inr t \<Rightarrow>
          if tokenIn t < tokenOut t then Inr (Some ''ValueNotConserved'')
          else if quoteIn t < quoteOut t then Inr (Some ''ValueNotConserved'')
          else let m = m_matched (match_at book price ref rooExcluded)
               in if m = 0 then Inr (Some ''NothingMatched'')
                  else if tokenOut t + int (length e) < m then Inr (Some ''VolumeBelowMatchable'')
                  else Inr None)"

section \<open>The plan\<close>

datatype cross_plan = Planned int int "cross_execution list" | Refused string

definition execution_order :: "cross_execution \<Rightarrow> cross_execution \<Rightarrow> int" where
  "execution_order a b = (if x_intentIndex a < x_intentIndex b then -1 else 1)"

text \<open>\<^verbatim>\<open>book.filter\<close> of the buyers, each with the tokens it takes, which is where a zero price throws.\<close>

definition buyers_at :: "commitment list \<Rightarrow> int \<Rightarrow> int \<Rightarrow> bool \<Rightarrow> js_error + (commitment \<times> int) list" where
  "buyers_at book price ref rooExcluded =
     (let cs = filter (\<lambda>c. o_buy c \<and> in_at c price ref rooExcluded) book
      in bindE (mapE (\<lambda>c. token_of (remaining_of c) price) cs)
           (\<lambda>ts. Inr (filter (\<lambda>(c, t). t > 0) (zip cs ts))))"

definition buy_execution :: "commitment \<times> int \<Rightarrow> cross_execution" where
  "buy_execution b =
     \<lparr>x_intentIndex = int (o_index (fst b)), x_executedSell = remaining_of (fst b), x_executedBuy = snd b\<rparr>"

definition sell_execution :: "int \<Rightarrow> share \<Rightarrow> cross_execution" where
  "sell_execution price s =
     \<lparr>x_intentIndex = int (h_index s), x_executedSell = h_x s, x_executedBuy = quote_of (h_x s) price\<rparr>"

definition plan_at :: "commitment list \<Rightarrow> int \<Rightarrow> bool \<Rightarrow> int \<Rightarrow> js_error + cross_plan" where
  "plan_at book ref rooExcluded price =
     bindE (buyers_at book price ref rooExcluded) (\<lambda>buys.
       let sells = filter (\<lambda>c. \<not> o_buy c \<and> in_at c price ref rooExcluded \<and> remaining_of c > 0) book;
           target = (\<Sum>b\<leftarrow>buys. snd b);
           available = (\<Sum>c\<leftarrow>sells. remaining_of c)
       in if target = 0 then Inr (Refused ''nothing matches'')
          else if available < target then Inr (Refused ''sellers hold less than buyers take'')
          else let shares = map (share_of target available) sells;
                   (shares, left) = place shares (target - (\<Sum>s\<leftarrow>shares. h_x s))
               in if left \<noteq> 0 then Inr (Refused ''could not place units across the sellers'')
                  else let executions = js_sort execution_order
                             (map buy_execution buys @ map (sell_execution price) (filter (\<lambda>s. h_x s \<noteq> 0) shares))
                       in bindE (check_cross book ref rooExcluded price executions) (\<lambda>problem.
                            Inr (case problem of
                                   Some reason \<Rightarrow> Refused reason
                                 | None \<Rightarrow> Planned price (m_matched (match_at book price ref rooExcluded)) executions)))"

definition plan_cross :: "commitment list \<Rightarrow> int \<Rightarrow> int \<Rightarrow> bool \<Rightarrow> int \<Rightarrow> js_error + cross_plan" where
  "plan_cross book ref collarBps rooExcluded preferred =
     (let (low, high) = collar ref collarBps;
          start = (if preferred < low then low else preferred)
      in if start > high then Inr (Refused ''preferred price is above the collar high'')
         else case balancing_price book start high ref rooExcluded of
           None \<Rightarrow> Inr (Refused ''demand exceeds supply at every price up to the collar high'')
         | Some price \<Rightarrow> plan_at book ref rooExcluded price)"

section \<open>Demand falls and supply grows with the price\<close>

definition bought_at :: "int \<Rightarrow> bool \<Rightarrow> int \<Rightarrow> commitment \<Rightarrow> int" where
  "bought_at ref roo p c = (if in_at c p ref roo \<and> o_buy c then tokens (o_sellAmount c) p else 0)"

definition sold_at :: "int \<Rightarrow> bool \<Rightarrow> int \<Rightarrow> commitment \<Rightarrow> int" where
  "sold_at ref roo p c = (if in_at c p ref roo \<and> \<not> o_buy c then o_sellAmount c else 0)"

lemma match_fold:
  "foldl (match_step p ref roo) (d, s) book = (d + (\<Sum>c\<leftarrow>book. bought_at ref roo p c), s + (\<Sum>c\<leftarrow>book. sold_at ref roo p c))"
  by (induction book arbitrary: d s) (auto simp: match_step_def bought_at_def sold_at_def)

lemma match_sums:
  assumes "p \<noteq> 0"
  shows "m_demand (match_at book p ref roo) = (\<Sum>c\<leftarrow>book. bought_at ref roo p c)"
    "m_supply (match_at book p ref roo) = (\<Sum>c\<leftarrow>book. sold_at ref roo p c)"
    "m_matched (match_at book p ref roo) = min (\<Sum>c\<leftarrow>book. bought_at ref roo p c) (\<Sum>c\<leftarrow>book. sold_at ref roo p c)"
  using assms by (simp_all add: match_at_def match_fold min_def)

definition valid_book :: "commitment list \<Rightarrow> bool" where
  "valid_book book \<longleftrightarrow> (\<forall>k<length book. o_index (book ! k) = k \<and> 0 \<le> o_sellAmount (book ! k))"

lemma valid_book_member: "valid_book book \<Longrightarrow> c \<in> set book \<Longrightarrow> 0 \<le> o_sellAmount c \<and> o_index c < length book \<and> book ! o_index c = c"
  by (auto simp: valid_book_def in_set_conv_nth)

lemma bought_antitone:
  assumes "0 \<le> o_sellAmount c" "0 < p" "p \<le> q"
  shows "bought_at ref roo q c \<le> bought_at ref roo p c"
proof (cases "in_at c q ref roo \<and> o_buy c")
  case True
  then have "in_at c p ref roo" using assms(3) by (auto simp: in_at_def split: if_splits prod.splits)
  moreover have "o_sellAmount c * CROSS_WAD div q \<le> o_sellAmount c * CROSS_WAD div p"
    using assms by (intro zdiv_mono2) (simp_all add: CROSS_WAD_def)
  ultimately show ?thesis using True assms by (simp add: bought_at_def tokens_def CROSS_WAD_def)
next
  case False
  then show ?thesis using assms by (auto simp: bought_at_def tokens_def CROSS_WAD_def)
qed

lemma sold_monotone:
  assumes "0 \<le> o_sellAmount c" "p \<le> q"
  shows "sold_at ref roo p c \<le> sold_at ref roo q c"
  using assms by (auto simp: sold_at_def in_at_def split: if_splits prod.splits)

lemma covers_up:
  assumes "valid_book book" "1 \<le> p" "p \<le> q" "covers book ref roo p"
  shows "covers book ref roo q"
proof -
  have "(\<Sum>c\<leftarrow>book. bought_at ref roo q c) \<le> (\<Sum>c\<leftarrow>book. bought_at ref roo p c)"
    using assms valid_book_member by (intro sum_list_mono_int bought_antitone) auto
  moreover have "(\<Sum>c\<leftarrow>book. sold_at ref roo p c) \<le> (\<Sum>c\<leftarrow>book. sold_at ref roo q c)"
    using assms valid_book_member by (intro sum_list_mono_int sold_monotone) auto
  ultimately show ?thesis using assms by (simp add: covers_def Let_def match_sums)
qed

interpretation balancing: ascending "\<lambda>p. valid_book book \<longrightarrow> covers book ref roo p" 1 top for book ref roo top
  by unfold_locales (blast intro: covers_up)

lemma balancing_price_spec:
  assumes "valid_book book" and "1 \<le> lowest"
  shows "case balancing_price book lowest highest ref roo of
      None \<Rightarrow> \<forall>p. lowest \<le> p \<and> p \<le> highest \<longrightarrow> m_supply (match_at book p ref roo) < m_demand (match_at book p ref roo)
    | Some p \<Rightarrow> lowest \<le> p \<and> p \<le> highest \<and> m_demand (match_at book p ref roo) \<le> m_supply (match_at book p ref roo)
        \<and> (\<forall>q. lowest \<le> q \<and> q < p \<longrightarrow> m_supply (match_at book q ref roo) < m_demand (match_at book q ref roo))"
proof (cases "lowest > highest \<or> \<not> covers book ref roo highest")
  case True
  moreover have "\<not> covers book ref roo p" if "lowest \<le> p" "p \<le> highest" for p
    using covers_up [OF assms(1), of p highest] assms(2) that True by auto
  ultimately show ?thesis by (auto simp: balancing_price_def covers_def Let_def not_le)
next
  case False
  let ?p = "search_least (covers book ref roo) lowest highest"
  have e: "(\<lambda>p. valid_book book \<longrightarrow> covers book ref roo p) = covers book ref roo" using assms(1) by simp
  have "lowest \<le> ?p \<and> ?p \<le> highest \<and> covers book ref roo ?p \<and> (\<forall>x. lowest \<le> x \<longrightarrow> x < ?p \<longrightarrow> \<not> covers book ref roo x)"
    using balancing.search_least_spec [of lowest highest highest book ref roo, unfolded e] assms False by auto
  then show ?thesis using False by (auto simp: balancing_price_def covers_def Let_def not_le)
qed

section \<open>The split is exact\<close>

lemma place_step_length [simp]: "length (fst (place_step acc k)) = length (fst acc)"
  by (cases acc) (simp add: place_step_def)

text \<open>
  Each position is visited once, and one with room takes one unit while any is left. So what
  remains is the units beyond the positions with room.
\<close>

definition roomy :: "share list \<Rightarrow> nat \<Rightarrow> bool" where
  "roomy shares k \<longleftrightarrow> h_x (shares ! k) < h_remaining (shares ! k)"

lemma place_fold:
  assumes "foldl place_step (shares, left) ks = (shares', left')" "distinct ks" "\<forall>k\<in>set ks. k < length shares" "0 \<le> left"
  shows "length shares' = length shares \<and> 0 \<le> left' \<and> left' \<le> max 0 (left - int (length (filter (roomy shares) ks)))
    \<and> (\<Sum>s\<leftarrow>shares'. h_x s) + left' = (\<Sum>s\<leftarrow>shares. h_x s) + left
    \<and> (\<forall>k<length shares. shares' ! k = shares ! k
        \<or> k \<in> set ks \<and> roomy shares k \<and> shares' ! k = (shares ! k)\<lparr>h_x := h_x (shares ! k) + 1\<rparr>)"
  using assms
proof (induction ks arbitrary: shares left)
  case Nil
  then show ?case by auto
next
  case (Cons k ks)
  let ?bump = "shares[k := (shares ! k)\<lparr>h_x := h_x (shares ! k) + 1\<rparr>]"
  have k: "k < length shares" "k \<notin> set ks" "distinct ks" "\<forall>j\<in>set ks. j < length shares" using Cons.prems(2,3) by auto
  have step: "place_step (shares, left) k = (if left = 0 \<or> \<not> roomy shares k then (shares, left) else (?bump, left - 1))"
    by (simp add: place_step_def roomy_def)
  show ?case
  proof (cases "left = 0 \<or> \<not> roomy shares k")
    case True
    then have "foldl place_step (shares, left) ks = (shares', left')"
      using Cons.prems(1) step by simp
    from Cons.IH [OF this k(3,4) Cons.prems(4)] True show ?thesis by auto
  next
    case False
    then have f: "foldl place_step (?bump, left - 1) ks = (shares', left')"
      using Cons.prems(1) step by simp
    have "0 \<le> left - 1" "\<forall>j\<in>set ks. j < length ?bump" using False Cons.prems(4) k(4) by simp_all
    note IH = Cons.IH [OF f k(3) this(2,1)]
    have same: "j \<noteq> k \<Longrightarrow> ?bump ! j = shares ! j \<and> roomy ?bump j = roomy shares j" for j
      by (simp add: roomy_def)
    have rooms: "filter (roomy ?bump) ks = filter (roomy shares) ks"
      using k(2) same by (intro filter_cong refl) metis
    have sum: "(\<Sum>s\<leftarrow>?bump. h_x s) = (\<Sum>s\<leftarrow>shares. h_x s) + 1"
      using k(1) sum_list_bump [of k "map h_x shares" 1] by (simp add: map_update)
    have kept: "shares' ! j = shares ! j
        \<or> j \<in> set (k # ks) \<and> roomy shares j \<and> shares' ! j = (shares ! j)\<lparr>h_x := h_x (shares ! j) + 1\<rparr>"
      if "j < length shares" for j
    proof (cases "j = k")
      case True
      then have "shares' ! k = ?bump ! k" using IH k(1,2) by auto
      then show ?thesis using True False k(1) by simp
    next
      case False
      then show ?thesis using IH same that by auto
    qed
    show ?thesis using IH kept False by (auto simp: rooms sum)
  qed
qed

text \<open>The floors of a pro rata split leave no more units than there are inexact shares.\<close>

lemma remainders:
  assumes "\<forall>c\<in>set cs. 0 \<le> remaining_of c" "0 < target" "target \<le> available" "available = (\<Sum>c\<leftarrow>cs. remaining_of c)"
  defines "shares \<equiv> map (share_of target available) cs"
  shows "0 \<le> target - (\<Sum>s\<leftarrow>shares. h_x s)"
    "target - (\<Sum>s\<leftarrow>shares. h_x s) \<le> int (length (filter (roomy shares) [0..<length shares]))"
    "\<forall>s\<in>set shares. 0 \<le> h_x s \<and> h_x s \<le> h_remaining s"
proof -
  have av: "0 < available" using assms(2,3) by simp
  have share: "h_remaining (share_of target available c) = remaining_of c"
    "h_x (share_of target available c) = remaining_of c * target div available"
    "h_rem (share_of target available c) = remaining_of c * target mod available" if "c \<in> set cs" for c
    using assms(1,2) av that by (simp_all add: share_of_def Let_def)
  show within: "\<forall>s\<in>set shares. 0 \<le> h_x s \<and> h_x s \<le> h_remaining s"
    using assms(1-3) av by (auto simp: shares_def share intro: floor_share_le)
  have split: "remaining_of c * target = h_x (share_of target available c) * available + h_rem (share_of target available c)"
    if "c \<in> set cs" for c using share that by simp
  have "(\<Sum>c\<leftarrow>cs. remaining_of c * target) = (\<Sum>c\<leftarrow>cs. h_x (share_of target available c) * available + h_rem (share_of target available c))"
    using split by (intro arg_cong [where f = sum_list] map_cong) auto
  moreover have "(\<Sum>c\<leftarrow>cs. h_x (share_of target available c) * available + h_rem (share_of target available c))
      = (\<Sum>s\<leftarrow>shares. h_x s) * available + (\<Sum>s\<leftarrow>shares. h_rem s)"
    by (simp add: shares_def comp_def sum_list_addf sum_list_mult_const)
  moreover have "(\<Sum>c\<leftarrow>cs. remaining_of c * target) = target * available"
    by (simp add: assms(4) sum_list_mult_const)
  ultimately have total: "target * available = (\<Sum>s\<leftarrow>shares. h_x s) * available + (\<Sum>s\<leftarrow>shares. h_rem s)"
    by simp
  have rem: "0 \<le> h_rem s \<and> h_rem s < available" if "s \<in> set shares" for s
    using that av by (auto simp: shares_def share)
  then have "0 \<le> (\<Sum>s\<leftarrow>shares. h_rem s)" by (intro sum_list_nonneg_int) auto
  then have "(\<Sum>s\<leftarrow>shares. h_x s) * available \<le> target * available" using total by simp
  then show "0 \<le> target - (\<Sum>s\<leftarrow>shares. h_x s)" using av by simp
  have room: "h_rem s = 0 \<or> h_x s < h_remaining s" if "s \<in> set shares" for s
  proof (cases "h_rem s = 0")
    case False
    obtain c where c: "c \<in> set cs" "s = share_of target available c" using \<open>s \<in> set shares\<close> by (auto simp: shares_def)
    have "h_x s * available < remaining_of c * target" using split [OF c(1)] False rem [OF that] c(2) by simp
    also have "\<dots> \<le> remaining_of c * available" using assms(1,3) c(1) by (intro mult_left_mono) auto
    finally show ?thesis using av c share(1) by simp
  qed simp
  have "(\<Sum>s\<leftarrow>shares. h_rem s) \<le> (\<Sum>s\<leftarrow>shares. if h_x s < h_remaining s then available else 0)"
  proof (rule sum_list_mono_int)
    fix s assume "s \<in> set shares"
    then show "h_rem s \<le> (if h_x s < h_remaining s then available else 0)" using rem [of s] room [of s] by auto
  qed
  also have "\<dots> = int (length (filter (\<lambda>s. h_x s < h_remaining s) shares)) * available"
    by (induction shares) (auto simp: algebra_simps)
  also have "length (filter (\<lambda>s. h_x s < h_remaining s) shares) = length (filter (roomy shares) [0..<length shares])"
    unfolding length_filter_conv_card roomy_def [abs_def] by (intro arg_cong [where f = card]) auto
  finally have "target * available \<le> ((\<Sum>s\<leftarrow>shares. h_x s) + int (length (filter (roomy shares) [0..<length shares]))) * available"
    using total by (simp add: algebra_simps)
  then show "target - (\<Sum>s\<leftarrow>shares. h_x s) \<le> int (length (filter (roomy shares) [0..<length shares]))" using av by simp
qed

lemma place_exact:
  assumes "\<forall>c\<in>set cs. 0 \<le> remaining_of c" "0 < target" "target \<le> available" "available = (\<Sum>c\<leftarrow>cs. remaining_of c)"
  defines "shares \<equiv> map (share_of target available) cs"
  obtains shares' where "place shares (target - (\<Sum>s\<leftarrow>shares. h_x s)) = (shares', 0)"
    "(\<Sum>s\<leftarrow>shares'. h_x s) = target" "length shares' = length cs"
    "\<forall>k<length cs. h_index (shares' ! k) = o_index (cs ! k) \<and> 0 \<le> h_x (shares' ! k) \<and> h_x (shares' ! k) \<le> remaining_of (cs ! k)"
proof -
  let ?left = "target - (\<Sum>s\<leftarrow>shares. h_x s)"
  note R = remainders [OF assms(1-4), folded shares_def]
  obtain shares' left' where p: "place shares ?left = (shares', left')" by fastforce
  have "distinct (js_sort (share_order shares) [0..<length shares])" "set (js_sort (share_order shares) [0..<length shares]) = {0..<length shares}"
    by simp_all
  note F = place_fold [OF p [unfolded place_def] this(1) _ R(1), unfolded this(2)]
  have "mset (filter (roomy shares) (js_sort (share_order shares) [0..<length shares])) = mset (filter (roomy shares) [0..<length shares])"
    by simp
  then have "length (filter (roomy shares) (js_sort (share_order shares) [0..<length shares])) = length (filter (roomy shares) [0..<length shares])"
    by (rule mset_eq_length)
  then have left: "left' = 0" using F R(2) by auto
  have each: "h_index (shares' ! k) = o_index (cs ! k) \<and> 0 \<le> h_x (shares' ! k) \<and> h_x (shares' ! k) \<le> remaining_of (cs ! k)" if "k < length cs" for k
  proof -
    have k: "k < length shares" "shares ! k \<in> set shares" "h_index (shares ! k) = o_index (cs ! k)" "h_remaining (shares ! k) = remaining_of (cs ! k)"
      using that by (simp_all add: shares_def share_of_def Let_def)
    have "shares' ! k = shares ! k \<or> roomy shares k \<and> shares' ! k = (shares ! k)\<lparr>h_x := h_x (shares ! k) + 1\<rparr>"
      using F k(1) by auto
    moreover have "0 \<le> h_x (shares ! k)" "h_x (shares ! k) \<le> remaining_of (cs ! k)"
      using R(3) [rule_format, OF k(2)] k(4) by simp_all
    ultimately show ?thesis using k(3,4) by (elim disjE) (simp_all add: roomy_def)
  qed
  show thesis by (rule that [OF p [unfolded left]]) (use F left each in \<open>auto simp: shares_def\<close>)
qed

section \<open>The check on a list of faithful executions\<close>

definition commitment_of :: "commitment list \<Rightarrow> cross_execution \<Rightarrow> commitment" where
  "commitment_of book x = book ! nat (x_intentIndex x)"

definition faithful :: "commitment list \<Rightarrow> int \<Rightarrow> bool \<Rightarrow> int \<Rightarrow> cross_execution \<Rightarrow> bool" where
  "faithful book ref roo price x \<longleftrightarrow>
     0 \<le> x_intentIndex x \<and> nat (x_intentIndex x) < length book
     \<and> in_at (commitment_of book x) price ref roo
     \<and> x_executedSell x \<le> remaining_of (commitment_of book x)
     \<and> x_executedBuy x = (if o_buy (commitment_of book x) then tokens (x_executedSell x) price
                          else quote_of (x_executedSell x) price)"

definition buys_sum :: "commitment list \<Rightarrow> (cross_execution \<Rightarrow> int) \<Rightarrow> cross_execution \<Rightarrow> int" where
  "buys_sum book f x = (if o_buy (commitment_of book x) then f x else 0)"

definition sells_sum :: "commitment list \<Rightarrow> (cross_execution \<Rightarrow> int) \<Rightarrow> cross_execution \<Rightarrow> int" where
  "sells_sum book f x = (if o_buy (commitment_of book x) then 0 else f x)"

lemma check_step_faithful:
  assumes "faithful book ref roo price x" "last_index t < x_intentIndex x" "price \<noteq> 0"
  shows "check_step book ref roo price t x = Inr (t\<lparr>last_index := x_intentIndex x,
    tokenIn := tokenIn t + sells_sum book x_executedSell x, tokenOut := tokenOut t + buys_sum book x_executedBuy x,
    quoteIn := quoteIn t + buys_sum book x_executedSell x, quoteOut := quoteOut t + sells_sum book x_executedBuy x\<rparr>)"
proof -
  let ?c = "commitment_of book x"
  have c: "js_at book (x_intentIndex x) = Some ?c"
    using assms(1) by (simp add: faithful_def commitment_of_def)
  have f: "in_at ?c price ref roo" "x_executedSell x \<le> o_sellAmount ?c - o_filledSell ?c"
    "x_executedBuy x = (if o_buy ?c then tokens (x_executedSell x) price else quote_of (x_executedSell x) price)"
    using assms(1) by (simp_all add: faithful_def remaining_of_def)
  obtain limit part where l: "effective_limit ?c ref roo = (limit, part)" by fastforce
  have i: "o_escrowed ?c" "\<not> o_cancelled ?c" "part" "if o_buy ?c then limit = 0 \<or> price \<le> limit else limit = 0 \<or> limit \<le> price"
    using f(1) l by (auto simp: in_at_def split: if_splits)
  show ?thesis
    using assms(2,3) i f(2,3) unfolding check_step_def c option.case l prod.case
    by (cases "o_buy ?c") (auto simp: token_of_def buys_sum_def sells_sum_def)
qed

lemma check_fold:
  assumes "\<forall>x\<in>set e. faithful book ref roo price x" "price \<noteq> 0" "sorted (map x_intentIndex e)" "distinct (map x_intentIndex e)"
    "\<forall>x\<in>set e. last_index t < x_intentIndex x"
  shows "\<exists>t'. foldE (check_step book ref roo price) t e = Inr t'
    \<and> tokenIn t' = tokenIn t + (\<Sum>x\<leftarrow>e. sells_sum book x_executedSell x) \<and> tokenOut t' = tokenOut t + (\<Sum>x\<leftarrow>e. buys_sum book x_executedBuy x)
    \<and> quoteIn t' = quoteIn t + (\<Sum>x\<leftarrow>e. buys_sum book x_executedSell x) \<and> quoteOut t' = quoteOut t + (\<Sum>x\<leftarrow>e. sells_sum book x_executedBuy x)"
  using assms
proof (induction e arbitrary: t)
  case (Cons x e)
  define t1 where "t1 = t\<lparr>last_index := x_intentIndex x,
    tokenIn := tokenIn t + sells_sum book x_executedSell x, tokenOut := tokenOut t + buys_sum book x_executedBuy x,
    quoteIn := quoteIn t + buys_sum book x_executedSell x, quoteOut := quoteOut t + sells_sum book x_executedBuy x\<rparr>"
  have s: "check_step book ref roo price t x = Inr t1"
    unfolding t1_def using Cons.prems by (intro check_step_faithful) auto
  have "\<forall>y\<in>set e. last_index t1 < x_intentIndex y"
    using Cons.prems(3,4) by (force simp: t1_def order.strict_iff_order)
  from Cons.IH [OF _ Cons.prems(2) _ _ this] Cons.prems s show ?case by (auto simp: t1_def)
qed auto

interpretation by_intent: keyed_comparator execution_order x_intentIndex
  by unfold_locales (auto simp: execution_order_def)

text \<open>A list of faithful executions passes the check once its four sums do.\<close>

lemma check_cross_faithful:
  assumes "\<forall>x\<in>set xs. faithful book ref roo price x" "price \<noteq> 0" "distinct (map x_intentIndex xs)"
    "(\<Sum>x\<leftarrow>xs. buys_sum book x_executedBuy x) \<le> (\<Sum>x\<leftarrow>xs. sells_sum book x_executedSell x)"
    "(\<Sum>x\<leftarrow>xs. sells_sum book x_executedBuy x) \<le> (\<Sum>x\<leftarrow>xs. buys_sum book x_executedSell x)"
    "m_matched (match_at book price ref roo) = (\<Sum>x\<leftarrow>xs. buys_sum book x_executedBuy x)"
    "m_matched (match_at book price ref roo) \<noteq> 0"
  shows "check_cross book ref roo price (js_sort execution_order xs) = Inr None"
proof -
  let ?e = "js_sort execution_order xs" and ?t = "\<lparr>tokenIn = 0, tokenOut = 0, quoteIn = 0, quoteOut = 0, last_index = -1\<rparr>"
  have "\<forall>x\<in>set ?e. last_index ?t < x_intentIndex x" using assms(1) by (auto simp: faithful_def)
  from check_fold [OF _ assms(2) by_intent.sorted_sort _ this, of book ref roo] assms(1,3)
  obtain t' where "foldE (check_step book ref roo price) ?t ?e = Inr t'"
    "tokenIn t' = (\<Sum>x\<leftarrow>xs. sells_sum book x_executedSell x)" "tokenOut t' = (\<Sum>x\<leftarrow>xs. buys_sum book x_executedBuy x)"
    "quoteIn t' = (\<Sum>x\<leftarrow>xs. buys_sum book x_executedSell x)" "quoteOut t' = (\<Sum>x\<leftarrow>xs. sells_sum book x_executedBuy x)"
    by auto
  then show ?thesis using assms(4-7) by (simp add: check_cross_def Let_def)
qed

section \<open>A fresh book\<close>

definition fresh :: "commitment list \<Rightarrow> bool" where
  "fresh book \<longleftrightarrow> (\<forall>c\<in>set book. o_filledSell c = 0)"

lemma tokens_nonneg: "0 \<le> a \<Longrightarrow> 0 < p \<Longrightarrow> 0 \<le> tokens a p"
  by (simp add: tokens_def CROSS_WAD_def)

lemma mapE_pure: "(\<And>x. x \<in> set xs \<Longrightarrow> f x = Inr (g x)) \<Longrightarrow> mapE f xs = Inr (map g xs)"
  by (induction xs) auto

lemma filter_zip_map: "filter (\<lambda>(c, t). P t) (zip xs (map g xs)) = map (\<lambda>c. (c, g c)) (filter (\<lambda>c. P (g c)) xs)"
  by (induction xs) auto

lemma buyers_at_fresh:
  assumes "0 < price"
  shows "buyers_at book price ref roo = Inr (map (\<lambda>c. (c, tokens (remaining_of c) price))
    (filter (\<lambda>c. tokens (remaining_of c) price > 0) (filter (\<lambda>c. o_buy c \<and> in_at c price ref roo) book)))"
proof -
  let ?cs = "filter (\<lambda>c. o_buy c \<and> in_at c price ref roo) book"
  have "mapE (\<lambda>c. token_of (remaining_of c) price) ?cs = Inr (map (\<lambda>c. tokens (remaining_of c) price) ?cs)"
    using assms by (intro mapE_pure) (simp add: token_of_def)
  then show ?thesis unfolding buyers_at_def Let_def by (simp only: bindE.simps filter_zip_map)
qed

lemma fresh_sums:
  assumes "valid_book book" "fresh book" "0 < price"
  shows "(\<Sum>c\<leftarrow>filter (\<lambda>c. tokens (remaining_of c) price > 0) (filter (\<lambda>c. o_buy c \<and> in_at c price ref roo) book). tokens (remaining_of c) price)
      = m_demand (match_at book price ref roo)"
    "(\<Sum>c\<leftarrow>filter (\<lambda>c. \<not> o_buy c \<and> in_at c price ref roo \<and> remaining_of c > 0) book. remaining_of c)
      = m_supply (match_at book price ref roo)"
proof -
  have r: "\<forall>c\<in>set book. remaining_of c = o_sellAmount c \<and> 0 \<le> o_sellAmount c \<and> 0 \<le> tokens (o_sellAmount c) price"
    using assms valid_book_member by (auto simp: fresh_def remaining_of_def tokens_nonneg)
  have "(\<Sum>c\<leftarrow>filter (\<lambda>c. tokens (remaining_of c) price > 0) (filter (\<lambda>c. o_buy c \<and> in_at c price ref roo) book). tokens (remaining_of c) price)
      = (\<Sum>c\<leftarrow>book. bought_at ref roo price c)"
    using r by (induction book) (auto simp: bought_at_def)
  then show "(\<Sum>c\<leftarrow>filter (\<lambda>c. tokens (remaining_of c) price > 0) (filter (\<lambda>c. o_buy c \<and> in_at c price ref roo) book). tokens (remaining_of c) price)
      = m_demand (match_at book price ref roo)" using assms(3) by (simp add: match_sums)
  have "(\<Sum>c\<leftarrow>filter (\<lambda>c. \<not> o_buy c \<and> in_at c price ref roo \<and> remaining_of c > 0) book. remaining_of c)
      = (\<Sum>c\<leftarrow>book. sold_at ref roo price c)"
    using r by (induction book) (auto simp: sold_at_def)
  then show "(\<Sum>c\<leftarrow>filter (\<lambda>c. \<not> o_buy c \<and> in_at c price ref roo \<and> remaining_of c > 0) book. remaining_of c)
      = m_supply (match_at book price ref roo)" using assms(3) by (simp add: match_sums)
qed

lemma distinct_book: "valid_book book \<Longrightarrow> distinct (map o_index book)"
  by (auto simp: distinct_conv_nth valid_book_def)

text \<open>What the buyers pay covers what the sellers are paid for the same tokens.\<close>

lemma quote_conserved:
  assumes "0 < price" "\<forall>c\<in>set bs. 0 \<le> remaining_of c" "\<forall>s\<in>set ss. 0 \<le> h_x s"
    "(\<Sum>s\<leftarrow>ss. h_x s) = (\<Sum>c\<leftarrow>bs. tokens (remaining_of c) price)"
  shows "(\<Sum>s\<leftarrow>ss. quote_of (h_x s) price) \<le> (\<Sum>c\<leftarrow>bs. remaining_of c)"
proof -
  have W: "0 < CROSS_WAD" by (simp add: CROSS_WAD_def)
  have "(\<Sum>s\<leftarrow>ss. quote_of (h_x s) price) = (\<Sum>s\<leftarrow>ss. h_x s * price div CROSS_WAD)"
    using assms(1,3) W by (intro arg_cong [where f = sum_list] map_cong) (auto simp: quote_of_def)
  also have "\<dots> \<le> (\<Sum>s\<leftarrow>ss. h_x s * price) div CROSS_WAD" by (rule sum_list_floor_le [OF W])
  also have "(\<Sum>s\<leftarrow>ss. h_x s * price) = (\<Sum>c\<leftarrow>bs. tokens (remaining_of c) price * price)"
    by (simp add: sum_list_mult_const assms(4))
  also have "\<dots> \<le> (\<Sum>c\<leftarrow>bs. remaining_of c * CROSS_WAD)"
  proof (rule sum_list_mono_int)
    fix c assume "c \<in> set bs"
    then show "tokens (remaining_of c) price * price \<le> remaining_of c * CROSS_WAD"
      using assms(1,2) W floor_mult_le [OF assms(1), of "remaining_of c * CROSS_WAD"] by (simp add: tokens_def)
  qed
  then have "(\<Sum>c\<leftarrow>bs. tokens (remaining_of c) price * price) div CROSS_WAD \<le> (\<Sum>c\<leftarrow>bs. remaining_of c * CROSS_WAD) div CROSS_WAD"
    using W by (intro zdiv_mono1)
  also have "(\<Sum>c\<leftarrow>bs. remaining_of c * CROSS_WAD) div CROSS_WAD = (\<Sum>c\<leftarrow>bs. remaining_of c)"
    using W by (simp add: sum_list_mult_const)
  finally show ?thesis by simp
qed

text \<open>The pieces of a plan: its buyers, its sellers and the sellers' shares.\<close>

definition plan_parts :: "commitment list \<Rightarrow> int \<Rightarrow> int \<Rightarrow> bool \<Rightarrow> commitment list \<Rightarrow> commitment list \<Rightarrow> share list \<Rightarrow> bool" where
  "plan_parts book price ref roo bs ss shares \<longleftrightarrow>
     valid_book book \<and> 0 < price \<and> set bs \<subseteq> set book \<and> set ss \<subseteq> set book
     \<and> distinct (map o_index bs) \<and> distinct (map o_index ss)
     \<and> (\<forall>c\<in>set bs. o_buy c \<and> in_at c price ref roo \<and> 0 \<le> remaining_of c)
     \<and> (\<forall>c\<in>set ss. \<not> o_buy c \<and> in_at c price ref roo) \<and> length shares = length ss
     \<and> (\<forall>k<length ss. h_index (shares ! k) = o_index (ss ! k) \<and> 0 \<le> h_x (shares ! k) \<and> h_x (shares ! k) \<le> remaining_of (ss ! k))
     \<and> (\<Sum>s\<leftarrow>shares. h_x s) = (\<Sum>c\<leftarrow>bs. tokens (remaining_of c) price)"

definition parts_executions :: "int \<Rightarrow> commitment list \<Rightarrow> share list \<Rightarrow> cross_execution list" where
  "parts_executions price bs shares =
     map buy_execution (map (\<lambda>c. (c, tokens (remaining_of c) price)) bs)
     @ map (sell_execution price) (filter (\<lambda>s. h_x s \<noteq> 0) shares)"

lemma parts_buy:
  assumes "plan_parts book price ref roo bs ss shares" "c \<in> set bs"
  shows "commitment_of book (buy_execution (c, t)) = c" "o_buy c"
    "faithful book ref roo price (buy_execution (c, tokens (remaining_of c) price))"
proof -
  have c: "c \<in> set book" "valid_book book" "o_buy c" "in_at c price ref roo" using assms by (auto simp: plan_parts_def)
  have m: "o_index c < length book" "book ! o_index c = c" using valid_book_member [OF c(2,1)] by auto
  then show e: "commitment_of book (buy_execution (c, t)) = c" for t by (simp add: commitment_of_def buy_execution_def)
  show "o_buy c" by (rule c(3))
  show "faithful book ref roo price (buy_execution (c, tokens (remaining_of c) price))"
    unfolding faithful_def e using m c by (simp add: buy_execution_def)
qed

lemma parts_sell:
  assumes "plan_parts book price ref roo bs ss shares" "s \<in> set shares"
  obtains c where "c \<in> set ss" "commitment_of book (sell_execution price s) = c" "\<not> o_buy c" "h_index s = o_index c" "0 \<le> h_x s"
    "faithful book ref roo price (sell_execution price s)"
proof -
  obtain k where k: "k < length shares" "s = shares ! k" using assms(2) by (metis in_set_conv_nth)
  let ?c = "ss ! k"
  have s: "?c \<in> set ss" "h_index s = o_index ?c" "0 \<le> h_x s" "h_x s \<le> remaining_of ?c"
    using assms(1) k by (simp_all add: plan_parts_def)
  then have c: "?c \<in> set book" "valid_book book" "\<not> o_buy ?c" "in_at ?c price ref roo" using assms(1) by (auto simp: plan_parts_def)
  have m: "o_index ?c < length book" "book ! o_index ?c = ?c" using valid_book_member [OF c(2,1)] by auto
  then have e: "commitment_of book (sell_execution price s) = ?c" using s(2) by (simp add: commitment_of_def sell_execution_def)
  have "faithful book ref roo price (sell_execution price s)"
    unfolding faithful_def e using m c s by (simp add: sell_execution_def)
  then show thesis using that s e c(3) by blast
qed

lemma parts_distinct:
  assumes "plan_parts book price ref roo bs ss shares"
  shows "distinct (map x_intentIndex (parts_executions price bs shares))"
proof -
  have "map h_index shares = map o_index ss" using assms by (intro nth_equalityI) (auto simp: plan_parts_def)
  then have "distinct (map h_index (filter (\<lambda>s. h_x s \<noteq> 0) shares))"
    using assms by (intro distinct_map_filter) (simp add: plan_parts_def)
  moreover have "o_index c \<noteq> h_index s" if cs: "c \<in> set bs" "s \<in> set shares" for c s
  proof
    assume e: "o_index c = h_index s"
    obtain d where d: "d \<in> set ss" "h_index s = o_index d" "\<not> o_buy d" by (rule parts_sell [OF assms cs(2)])
    have "valid_book book" "c \<in> set book" "d \<in> set book" using assms cs(1) d(1) by (auto simp: plan_parts_def)
    then have "book ! o_index c = c" "book ! o_index d = d" using valid_book_member by blast+
    then have "c = d" using e d(2) by metis
    then show False using parts_buy(2) [OF assms cs(1)] d(3) by simp
  qed
  ultimately have "distinct (map o_index bs @ map h_index (filter (\<lambda>s. h_x s \<noteq> 0) shares))"
    using assms by (auto simp: plan_parts_def)
  then have "distinct (map int (map o_index bs @ map h_index (filter (\<lambda>s. h_x s \<noteq> 0) shares)))"
    by (simp only: distinct_map) (simp add: inj_on_def)
  then show ?thesis by (simp add: parts_executions_def buy_execution_def sell_execution_def comp_def)
qed

lemma parts_sums:
  assumes "plan_parts book price ref roo bs ss shares"
  shows "(\<Sum>x\<leftarrow>parts_executions price bs shares. buys_sum book f x) = (\<Sum>c\<leftarrow>bs. f (buy_execution (c, tokens (remaining_of c) price)))"
    "(\<Sum>x\<leftarrow>parts_executions price bs shares. sells_sum book f x) = (\<Sum>s\<leftarrow>filter (\<lambda>s. h_x s \<noteq> 0) shares. f (sell_execution price s))"
proof -
  let ?bx = "\<lambda>c. buy_execution (c, tokens (remaining_of c) price)" and ?ss = "filter (\<lambda>s. h_x s \<noteq> 0) shares"
  have b: "buys_sum book f (?bx c) = f (?bx c)" "sells_sum book f (?bx c) = 0" if "c \<in> set bs" for c
    using parts_buy(1,2) [OF assms that] by (simp_all add: buys_sum_def sells_sum_def)
  have s: "buys_sum book f (sell_execution price s) = 0" "sells_sum book f (sell_execution price s) = f (sell_execution price s)"
    if "s \<in> set ?ss" for s
    using parts_sell [OF assms, of s] that by (auto simp: buys_sum_def sells_sum_def)
  have "(\<Sum>x\<leftarrow>parts_executions price bs shares. buys_sum book f x) = (\<Sum>c\<leftarrow>bs. buys_sum book f (?bx c)) + (\<Sum>s\<leftarrow>?ss. buys_sum book f (sell_execution price s))"
    "(\<Sum>x\<leftarrow>parts_executions price bs shares. sells_sum book f x) = (\<Sum>c\<leftarrow>bs. sells_sum book f (?bx c)) + (\<Sum>s\<leftarrow>?ss. sells_sum book f (sell_execution price s))"
    by (simp_all add: parts_executions_def comp_def)
  moreover have "map (\<lambda>c. buys_sum book f (?bx c)) bs = map (\<lambda>c. f (?bx c)) bs" "map (\<lambda>c. sells_sum book f (?bx c)) bs = map (\<lambda>c. 0) bs"
    using b by simp_all
  moreover have "map (\<lambda>s. buys_sum book f (sell_execution price s)) ?ss = map (\<lambda>s. 0) ?ss"
    "map (\<lambda>s. sells_sum book f (sell_execution price s)) ?ss = map (\<lambda>s. f (sell_execution price s)) ?ss"
    using s by (intro map_cong refl; blast)+
  ultimately show "(\<Sum>x\<leftarrow>parts_executions price bs shares. buys_sum book f x) = (\<Sum>c\<leftarrow>bs. f (?bx c))"
    "(\<Sum>x\<leftarrow>parts_executions price bs shares. sells_sum book f x) = (\<Sum>s\<leftarrow>?ss. f (sell_execution price s))"
    by (simp_all only: sum_list_0 add_0_left add_0_right)
qed

lemma parts_pass:
  assumes "plan_parts book price ref roo bs ss shares"
    "m_matched (match_at book price ref roo) = (\<Sum>c\<leftarrow>bs. tokens (remaining_of c) price)"
    "m_matched (match_at book price ref roo) \<noteq> 0"
  shows "check_cross book ref roo price (js_sort execution_order (parts_executions price bs shares)) = Inr None"
proof -
  have faith: "\<forall>x\<in>set (parts_executions price bs shares). faithful book ref roo price x"
  proof
    fix x assume "x \<in> set (parts_executions price bs shares)"
    then consider c where "c \<in> set bs" "x = buy_execution (c, tokens (remaining_of c) price)"
      | s where "s \<in> set shares" "x = sell_execution price s" by (auto simp: parts_executions_def)
    then show "faithful book ref roo price x"
      by cases (auto intro: parts_buy(3) [OF assms(1)] elim: parts_sell [OF assms(1)])
  qed
  have nz: "(\<Sum>s\<leftarrow>filter (\<lambda>s. h_x s \<noteq> 0) shares. h_x s) = (\<Sum>s\<leftarrow>shares. h_x s)" by (induction shares) auto
  have sum: "(\<Sum>s\<leftarrow>shares. h_x s) = (\<Sum>c\<leftarrow>bs. tokens (remaining_of c) price)" "0 < price"
    "\<forall>c\<in>set bs. 0 \<le> remaining_of c" using assms(1) by (simp_all add: plan_parts_def)
  have "\<forall>s\<in>set (filter (\<lambda>s. h_x s \<noteq> 0) shares). 0 \<le> h_x s" by (auto elim: parts_sell [OF assms(1)])
  then have "(\<Sum>s\<leftarrow>filter (\<lambda>s. h_x s \<noteq> 0) shares. quote_of (h_x s) price) \<le> (\<Sum>c\<leftarrow>bs. remaining_of c)"
    using sum nz by (intro quote_conserved) simp_all
  then show ?thesis
    using sum assms(2,3) nz parts_distinct [OF assms(1)]
    by (intro check_cross_faithful faith) (simp_all add: parts_sums [OF assms(1)] buy_execution_def sell_execution_def)
qed

text \<open>A fresh book at a price where the sellers cover the buyers.\<close>

lemma plan_at_fresh:
  assumes "valid_book book" "fresh book" "0 < price" "covers book ref roo price"
  defines "m \<equiv> match_at book price ref roo"
  shows "if m_demand m = 0 then plan_at book ref roo price = Inr (Refused ''nothing matches'')
    else \<exists>ex. plan_at book ref roo price = Inr (Planned price (m_matched m) ex) \<and> check_cross book ref roo price ex = Inr None
      \<and> (\<Sum>x\<leftarrow>ex. buys_sum book x_executedBuy x) = m_demand m \<and> (\<Sum>x\<leftarrow>ex. sells_sum book x_executedSell x) = m_demand m"
proof -
  let ?bs = "filter (\<lambda>c. tokens (remaining_of c) price > 0) (filter (\<lambda>c. o_buy c \<and> in_at c price ref roo) book)"
  let ?ss = "filter (\<lambda>c. \<not> o_buy c \<and> in_at c price ref roo \<and> remaining_of c > 0) book"
  let ?buys = "map (\<lambda>c. (c, tokens (remaining_of c) price)) ?bs"
  note sums = fresh_sums [OF assms(1-3), of ref roo]
  have le: "m_demand m \<le> m_supply m" using assms(4) by (simp add: covers_def m_def Let_def)
  have mm: "m_matched m = m_demand m" using le assms(3) by (simp add: m_def match_sums)
  have nonneg: "\<forall>c\<in>set ?bs. 0 \<le> remaining_of c"
    using assms(1,2) valid_book_member by (auto simp: fresh_def remaining_of_def)
  have dem: "0 \<le> m_demand m" unfolding m_def sums(1) [symmetric] by (intro sum_list_nonneg_int) auto
  have target: "(\<Sum>b\<leftarrow>?buys. snd b) = m_demand m" unfolding m_def sums(1) [symmetric] by (simp add: comp_def)
  show ?thesis
  proof (cases "m_demand m = 0")
    case True
    then show ?thesis using target by (simp add: plan_at_def buyers_at_fresh [OF assms(3)] Let_def)
  next
    case False
    let ?sh = "map (share_of (m_demand m) (m_supply m)) ?ss"
    obtain shares where sh: "place ?sh (m_demand m - (\<Sum>s\<leftarrow>?sh. h_x s)) = (shares, 0)"
      "(\<Sum>s\<leftarrow>shares. h_x s) = m_demand m" "length shares = length ?ss"
      "\<forall>k<length ?ss. h_index (shares ! k) = o_index (?ss ! k) \<and> 0 \<le> h_x (shares ! k) \<and> h_x (shares ! k) \<le> remaining_of (?ss ! k)"
      by (rule place_exact [of ?ss "m_demand m" "m_supply m"]) (use False dem le sums(2) in \<open>auto simp: m_def\<close>)
    have parts: "plan_parts book price ref roo ?bs ?ss shares"
      using assms(1,3) nonneg sh sums(1) distinct_book [OF assms(1)] unfolding plan_parts_def
      by (auto intro!: distinct_map_filter simp: m_def simp del: filter_filter)
    let ?ex = "js_sort execution_order (parts_executions price ?bs shares)"
    have pass: "check_cross book ref roo price ?ex = Inr None"
      using False mm sums(1) by (intro parts_pass [OF parts]) (simp_all add: m_def)
    have "plan_at book ref roo price = Inr (Planned price (m_matched m) ?ex)"
      using False le sh(1) pass sums(2)
      unfolding plan_at_def buyers_at_fresh [OF assms(3)] Let_def bindE.simps target sums(2) m_def [symmetric]
      by (simp add: parts_executions_def del: filter_filter)
    moreover have "(\<Sum>x\<leftarrow>?ex. buys_sum book x_executedBuy x) = m_demand m" "(\<Sum>x\<leftarrow>?ex. sells_sum book x_executedSell x) = m_demand m"
    proof -
      have "(\<Sum>s\<leftarrow>filter (\<lambda>s. h_x s \<noteq> 0) shares. h_x s) = (\<Sum>s\<leftarrow>shares. h_x s)" by (induction shares) auto
      then show "(\<Sum>x\<leftarrow>?ex. buys_sum book x_executedBuy x) = m_demand m" "(\<Sum>x\<leftarrow>?ex. sells_sum book x_executedSell x) = m_demand m"
        using sh(2) sums(1) unfolding sum_js_sort parts_sums [OF parts]
        by (simp_all add: buy_execution_def sell_execution_def m_def)
    qed
    ultimately show ?thesis using False pass by auto
  qed
qed

section \<open>The day of an auction\<close>

text \<open>
  \<^verbatim>\<open>Date\<close> reads the proleptic Gregorian calendar in UTC. \<open>day_from_year\<close>, the leap year rule and
  the months are the ones ECMAScript specifies; the year is the greatest one that has begun.
\<close>

definition day_from_year :: "int \<Rightarrow> int" where
  "day_from_year y = 365 * (y - 1970) + (y - 1969) div 4 - (y - 1901) div 100 + (y - 1601) div 400"

definition leap_year :: "int \<Rightarrow> bool" where
  "leap_year y \<longleftrightarrow> y mod 4 = 0 \<and> (y mod 100 \<noteq> 0 \<or> y mod 400 = 0)"

definition year_of_day :: "int \<Rightarrow> int" where
  "year_of_day d = search_greatest (\<lambda>y. day_from_year y \<le> d) 1970 (1970 + d div 365)"

definition month_starts :: "bool \<Rightarrow> int list" where
  "month_starts leap = (let l = (if leap then 1 else 0)
     in [0, 31, 59 + l, 90 + l, 120 + l, 151 + l, 181 + l, 212 + l, 243 + l, 273 + l, 304 + l, 334 + l])"

definition month_and_date :: "bool \<Rightarrow> int \<Rightarrow> int \<times> int" where
  "month_and_date leap day =
     (let started = filter (\<lambda>s. s \<le> day) (month_starts leap)
      in (int (length started), day - last started + 1))"

definition ymd_of :: "int \<Rightarrow> int" where
  "ymd_of timestamp =
     (let day = timestamp div 86400;
          year = year_of_day day;
          (month, date) = month_and_date (leap_year year) (day - day_from_year year)
      in year * 10000 + month * 100 + date)"

lemma div_next: "0 < m \<Longrightarrow> (x + 1) div m = x div m + (if (x + 1) mod m = 0 then 1 else 0)" for x m :: int
proof -
  assume m: "0 < m"
  have r: "0 \<le> x mod m" "x mod m < m" using m by simp_all
  have "x + 1 = (x mod m + 1) + x div m * m" using div_mult_mod_eq [of x m] by linarith
  then have "(x + 1) div m = x div m + (x mod m + 1) div m" "(x + 1) mod m = (x mod m + 1) mod m"
    using m div_mult_self1 [of m "x mod m + 1" "x div m"] mod_mult_self1 [of "x mod m + 1" "x div m" m] by (simp_all only: less_imp_neq [symmetric] simp_thms)
  moreover have "(x mod m + 1) div m = (if (x mod m + 1) mod m = 0 then 1 else 0)"
  proof (cases "x mod m + 1 = m")
    case True
    then show ?thesis using m by simp
  next
    case False
    then have "x mod m + 1 < m" using r by simp
    then show ?thesis using r by (simp add: div_pos_pos_trivial mod_pos_pos_trivial)
  qed
  ultimately show ?thesis by simp
qed

lemma leap_cases:
  "(p400 \<Longrightarrow> p100) \<Longrightarrow> (p100 \<Longrightarrow> p4) \<Longrightarrow>
    365 + (if p4 then 1 else 0) - (if p100 then 1 else 0) + (if p400 then 1 else 0)
      = (if p4 \<and> (\<not> p100 \<or> p400) then 366 else (365 :: int))"
  by (cases p4; cases p100; cases p400; simp)

lemma year_length: "day_from_year (y + 1) - day_from_year y = (if leap_year y then 366 else 365)"
proof -
  define A B C where "A = (y - 1969) div 4" and "B = (y - 1901) div 100" and "C = (y - 1601) div 400"
  have e: "y - 1969 + 1 = y + (- 492) * 4" "y - 1901 + 1 = y + (- 19) * 100" "y - 1601 + 1 = y + (- 4) * 400" by simp_all
  have "(y - 1969 + 1) mod 4 = y mod 4" "(y - 1901 + 1) mod 100 = y mod 100" "(y - 1601 + 1) mod 400 = y mod 400"
    unfolding e by (rule mod_mult_self1)+
  then have d: "(y - 1969 + 1) div 4 = (y - 1969) div 4 + (if y mod 4 = 0 then 1 else 0)"
    "(y - 1901 + 1) div 100 = (y - 1901) div 100 + (if y mod 100 = 0 then 1 else 0)"
    "(y - 1601 + 1) div 400 = (y - 1601) div 400 + (if y mod 400 = 0 then 1 else 0)"
    using div_next [of 4 "y - 1969"] div_next [of 100 "y - 1901"] div_next [of 400 "y - 1601"]
    by (simp_all only: zero_less_numeral simp_thms)
  have "4 dvd y" if "100 dvd y" using that by (rule dvd_trans [rotated]) simp
  moreover have "100 dvd y" if "400 dvd y" using that by (rule dvd_trans [rotated]) simp
  ultimately have c: "y mod 100 = 0 \<Longrightarrow> y mod 4 = 0" "y mod 400 = 0 \<Longrightarrow> y mod 100 = 0" by (auto simp: dvd_eq_mod_eq_0)
  have "y + 1 - 1969 = y - 1969 + 1" "y + 1 - 1901 = y - 1901 + 1" "y + 1 - 1601 = y - 1601 + 1" by simp_all
  then have "day_from_year (y + 1) = 365 * (y + 1 - 1970) + (y - 1969 + 1) div 4 - (y - 1901 + 1) div 100 + (y - 1601 + 1) div 400"
    by (simp only: day_from_year_def)
  then have nxt: "day_from_year (y + 1) = 365 * (y + 1 - 1970) + (A + (if y mod 4 = 0 then 1 else 0))
      - (B + (if y mod 100 = 0 then 1 else 0)) + (C + (if y mod 400 = 0 then 1 else 0))"
    unfolding d A_def B_def C_def .
  have "day_from_year y = 365 * (y - 1970) + A - B + C" by (simp only: day_from_year_def A_def B_def C_def)
  then have "day_from_year (y + 1) - day_from_year y = 365 + (if y mod 4 = 0 then 1 else 0)
      - (if y mod 100 = 0 then 1 else 0) + (if y mod 400 = 0 then 1 else 0)"
    unfolding nxt by (simp only: algebra_simps)
  also have "\<dots> = (if leap_year y then 366 else 365)"
    unfolding leap_year_def using c by (intro leap_cases)
  finally show ?thesis .
qed

lemma day_from_year_mono: "y \<le> z \<Longrightarrow> day_from_year y \<le> day_from_year z"
proof (induction rule: int_ge_induct)
  case (step i)
  then show ?case using year_length [of i] by (auto split: if_splits)
qed simp

interpretation years: descending "\<lambda>y. day_from_year y \<le> d" bot top for d bot top
  by unfold_locales (use day_from_year_mono order_trans in blast)

lemma year_of_day_spec:
  assumes "0 \<le> d"
  shows "day_from_year (year_of_day d) \<le> d \<and> d < day_from_year (year_of_day d + 1) \<and> 1970 \<le> year_of_day d"
proof -
  have "1970 \<le> 1970 + d div 365" using assms by simp
  moreover have "day_from_year 1970 \<le> d" using assms by (simp add: day_from_year_def)
  ultimately have y: "1970 \<le> year_of_day d" "year_of_day d \<le> 1970 + d div 365" "day_from_year (year_of_day d) \<le> d"
    "\<forall>y\<le>1970 + d div 365. year_of_day d < y \<longrightarrow> \<not> day_from_year y \<le> d"
    using years.search_greatest_spec [of 1970 1970 "1970 + d div 365" "1970 + d div 365" d]
    by (auto simp: year_of_day_def)
  have far: "365 * n \<le> day_from_year (1970 + n)" if "0 \<le> n" for n
    using that
  proof (induction rule: int_ge_induct)
    case base
    show ?case by (simp add: day_from_year_def)
  next
    case (step i)
    then show ?case using year_length [of "1970 + i"] by (auto simp: algebra_simps split: if_splits)
  qed
  have "d < day_from_year (year_of_day d + 1)"
  proof (cases "year_of_day d + 1 \<le> 1970 + d div 365")
    case True
    then show ?thesis using y(4) by (metis not_le zless_add1_eq)
  next
    case False
    then have "year_of_day d + 1 = 1970 + (d div 365 + 1)" using y(2) by simp
    moreover have "d < 365 * (d div 365 + 1)" by simp
    ultimately show ?thesis using far [of "d div 365 + 1"] assms by simp
  qed
  then show ?thesis using y by blast
qed


definition month_code :: "bool \<Rightarrow> int \<Rightarrow> int" where
  "month_code leap day = (case month_and_date leap day of (m, d) \<Rightarrow> m * 100 + d)"

lemma month_code_steps:
  "list_all (\<lambda>d. month_code False d < month_code False (d + 1)) [0..363]"
  "list_all (\<lambda>d. month_code True d < month_code True (d + 1)) [0..364]"
  by code_simp+

lemma list_all_upto: "list_all P [i..j] \<Longrightarrow> i \<le> x \<Longrightarrow> x \<le> j \<Longrightarrow> P x"
  by (simp add: list_all_iff)

lemma month_code_less:
  assumes "0 \<le> a" "a < b" "b < (if leap then 366 else 365)"
  shows "month_code leap a < month_code leap b"
proof -
  have step: "month_code leap d < month_code leap (d + 1)" if "0 \<le> d" "d + 1 < (if leap then 366 else 365)" for d
    using that list_all_upto [OF month_code_steps(1), of d] list_all_upto [OF month_code_steps(2), of d]
    by (cases leap) auto
  have "a + 1 \<le> b" using assms(2) by simp
  then show ?thesis using assms(3)
  proof (induction rule: int_ge_induct)
    case base
    then show ?case using step assms(1) by simp
  next
    case (step i)
    then show ?case using \<open>\<And>d. 0 \<le> d \<Longrightarrow> d + 1 < (if leap then 366 else 365) \<Longrightarrow> month_code leap d < month_code leap (d + 1)\<close> [of i] assms(1,2) by simp
  qed
qed

lemma month_code_bounds:
  assumes "0 \<le> a" "a < (if leap then 366 else 365)"
  shows "101 \<le> month_code leap a" "month_code leap a \<le> 1231"
proof -
  have "month_code True 0 = 101" "month_code False 0 = 101" "month_code True 365 = 1231" "month_code False 364 = 1231"
    by code_simp+
  then have e: "month_code leap 0 = 101" "month_code leap (if leap then 365 else 364) = 1231" by (cases leap; simp)+
  show "101 \<le> month_code leap a" using month_code_less [of 0 a leap] assms e by (cases "a = 0") auto
  show "month_code leap a \<le> 1231"
    using month_code_less [of a "if leap then 365 else 364" leap] assms e(2) by (cases "a = (if leap then 365 else 364)") (auto split: if_splits)
qed

lemma ymd_of_code: "ymd_of t = year_of_day (t div 86400) * 10000
    + month_code (leap_year (year_of_day (t div 86400))) (t div 86400 - day_from_year (year_of_day (t div 86400)))"
  by (simp add: ymd_of_def month_code_def Let_def split: prod.split)

lemma ymd_of_less:
  assumes "0 \<le> s" "s div 86400 < t div 86400"
  shows "ymd_of s < ymd_of t"
proof -
  let ?a = "s div 86400" and ?b = "t div 86400"
  let ?y = "year_of_day ?a" and ?z = "year_of_day ?b"
  have d: "0 \<le> ?a" "0 \<le> ?b" using assms by simp_all
  note Y = year_of_day_spec [OF d(1)] and Z = year_of_day_spec [OF d(2)]
  have in_year: "0 \<le> ?a - day_from_year ?y" "?a - day_from_year ?y < (if leap_year ?y then 366 else 365)"
    "0 \<le> ?b - day_from_year ?z" "?b - day_from_year ?z < (if leap_year ?z then 366 else 365)"
    using Y Z year_length [of ?y] year_length [of ?z] by (auto split: if_splits)
  show ?thesis
  proof (cases "?y = ?z")
    case True
    then show ?thesis using month_code_less [OF in_year(1) _ in_year(4)] month_code_less [of "?a - day_from_year ?y" "?b - day_from_year ?y" "leap_year ?y"] in_year assms(2) by (simp add: ymd_of_code)
  next
    case False
    have "?y \<le> ?z"
    proof (rule ccontr)
      assume "\<not> ?y \<le> ?z"
      then have "day_from_year (?z + 1) \<le> day_from_year ?y" by (intro day_from_year_mono) simp
      then show False using Y Z assms(2) by simp
    qed
    then have "?y * 10000 + 10000 \<le> ?z * 10000" using False by simp
    moreover have "month_code (leap_year ?y) (?a - day_from_year ?y) \<le> 1231" "101 \<le> month_code (leap_year ?z) (?b - day_from_year ?z)"
      using month_code_bounds [OF in_year(1,2)] month_code_bounds [OF in_year(3,4)] by simp_all
    ultimately show ?thesis unfolding ymd_of_code by linarith
  qed
qed

section \<open>Properties\<close>

text \<open>
  The balancing price is the least price of the range at which the buyers want no more than
  the sellers hold, and there is none exactly when they want more at every price of the range.
\<close>

theorem balancing_price_least:
  assumes "valid_book book" and "1 \<le> lowest"
  shows "case balancing_price book lowest highest ref roo of
      None \<Rightarrow> \<forall>p. lowest \<le> p \<and> p \<le> highest \<longrightarrow> m_supply (match_at book p ref roo) < m_demand (match_at book p ref roo)
    | Some p \<Rightarrow> lowest \<le> p \<and> p \<le> highest \<and> m_demand (match_at book p ref roo) \<le> m_supply (match_at book p ref roo)
        \<and> (\<forall>q. lowest \<le> q \<and> q < p \<longrightarrow> m_supply (match_at book q ref roo) < m_demand (match_at book q ref roo))"
  by (rule balancing_price_spec [OF assms])

text \<open>
  C35. On a frozen book nobody has filled from, the plan never fails its own check and never runs
  out of units to place. It is refused only when the preferred price is above the collar, when
  demand exceeds supply over the whole collar, or when nothing trades at the balancing price;
  otherwise it trades exactly the whole demand at that price.
\<close>

theorem plan_cross_succeeds:
  assumes "valid_book book" and "fresh book" and "1 \<le> max preferred (fst (collar ref bps))"
  shows "case plan_cross book ref bps roo preferred of
      Inl _ \<Rightarrow> False
    | Inr (Refused _) \<Rightarrow>
        snd (collar ref bps) < max preferred (fst (collar ref bps))
        \<or> (case balancing_price book (max preferred (fst (collar ref bps))) (snd (collar ref bps)) ref roo of
             None \<Rightarrow> True | Some p \<Rightarrow> m_demand (match_at book p ref roo) = 0)
    | Inr (Planned price m ex) \<Rightarrow>
        balancing_price book (max preferred (fst (collar ref bps))) (snd (collar ref bps)) ref roo = Some price
        \<and> m = m_demand (match_at book price ref roo) \<and> m \<noteq> 0 \<and> check_cross book ref roo price ex = Inr None
        \<and> (\<Sum>x\<leftarrow>ex. buys_sum book x_executedBuy x) = m \<and> (\<Sum>x\<leftarrow>ex. sells_sum book x_executedSell x) = m"
proof -
  obtain low high where c: "collar ref bps = (low, high)" by fastforce
  have start: "(if preferred < low then low else preferred) = max preferred low" by auto
  let ?b = "balancing_price book (max preferred low) high ref roo"
  show ?thesis
  proof (cases "high < max preferred low \<or> ?b = None")
    case True
    then show ?thesis by (auto simp: plan_cross_def c Let_def start split: option.splits)
  next
    case False
    then obtain price where p: "?b = Some price" by auto
    have "max preferred low \<le> price \<and> m_demand (match_at book price ref roo) \<le> m_supply (match_at book price ref roo)"
      using balancing_price_spec [OF assms(1), of "max preferred low" high ref roo] assms(3) p by (simp add: c)
    then have pr: "0 < price" "covers book ref roo price" using assms(3) by (auto simp: c covers_def Let_def)
    have "plan_cross book ref bps roo preferred = plan_at book ref roo price"
      using False p by (simp add: plan_cross_def c Let_def start)
    moreover have "m_matched (match_at book price ref roo) = m_demand (match_at book price ref roo)"
      using pr by (simp add: match_sums covers_def Let_def)
    ultimately show ?thesis using plan_at_fresh [OF assms(1,2) pr] p by (auto simp: c split: if_splits)
  qed
qed

text \<open>
  The date an auction is keyed by orders timestamps exactly as their UTC days: two timestamps
  share a key when and only when they fall on one day.
\<close>

theorem ymd_orders_days:
  assumes "0 \<le> s" and "0 \<le> t"
  shows "(ymd_of s < ymd_of t \<longleftrightarrow> s div 86400 < t div 86400) \<and> (ymd_of s = ymd_of t \<longleftrightarrow> s div 86400 = t div 86400)"
proof -
  consider "s div 86400 < t div 86400" | "s div 86400 = t div 86400" | "t div 86400 < s div 86400" by linarith
  then show ?thesis
  proof cases
    case 1
    then show ?thesis using ymd_of_less [OF assms(1), of t] by simp
  next
    case 2
    then show ?thesis by (simp add: ymd_of_code)
  next
    case 3
    then show ?thesis using ymd_of_less [OF assms(2), of s] by simp
  qed
qed

section \<open>Witnesses\<close>

definition sample_book :: "commitment list" where
  "sample_book = map (\<lambda>(n, b, k, s, l). \<lparr>o_index = n, o_owner = ''0x1'', o_buy = b, o_escrowed = True, o_cancelled = False,
      o_kind = k, o_maxDevFromRefBps = 0, o_sellAmount = s, o_limitPrice = l, o_filledSell = 0\<rparr>)
    [(0, True, 1, 1000, 0), (1, True, 2, 500, 105 * 10 ^ 16), (2, False, 1, 900, 0), (3, False, 2, 1200, 95 * 10 ^ 16)]"

lemma sample_book_ok: "valid_book sample_book" "fresh sample_book"
proof -
  have "\<forall>k\<in>set [0..<length sample_book]. o_index (sample_book ! k) = k \<and> 0 \<le> o_sellAmount (sample_book ! k)" by code_simp
  then show "valid_book sample_book" by (simp add: valid_book_def)
  show "fresh sample_book" unfolding fresh_def by code_simp
qed

theorem balancing_price_least_witness:
  "\<exists>p. balancing_price sample_book (9 * 10 ^ 17) (11 * 10 ^ 17) (10 ^ 18) False = Some p
    \<and> 9 * 10 ^ 17 \<le> p \<and> m_demand (match_at sample_book p (10 ^ 18) False) \<le> m_supply (match_at sample_book p (10 ^ 18) False)"
proof -
  have "balancing_price sample_book (9 * 10 ^ 17) (11 * 10 ^ 17) (10 ^ 18) False \<noteq> None"
    unfolding balancing_price_def by code_simp
  then show ?thesis
    using balancing_price_least [OF sample_book_ok(1), of "9 * 10 ^ 17" "11 * 10 ^ 17" "10 ^ 18" False] by auto
qed

theorem plan_cross_succeeds_witness:
  "\<exists>price m ex. plan_cross sample_book (10 ^ 18) 1000 False (10 ^ 18) = Inr (Planned price m ex) \<and> m = 1500
    \<and> check_cross sample_book (10 ^ 18) False price ex = Inr None"
proof -
  have "case plan_cross sample_book (10 ^ 18) 1000 False (10 ^ 18) of
      Inr (Planned price m ex) \<Rightarrow> m = 1500 | _ \<Rightarrow> False" by code_simp
  then show ?thesis
    using plan_cross_succeeds [OF sample_book_ok, of "10 ^ 18" "10 ^ 18" 1000 False]
    by (auto simp: max_def split: sum.splits cross_plan.splits)
qed

theorem ymd_orders_days_witness:
  "ymd_of 1785542399 = 20260731 \<and> ymd_of 1785542400 = 20260801 \<and> ymd_of 1785542399 < ymd_of 1785542400"
proof -
  have "ymd_of 1785542399 = 20260731" "ymd_of 1785542400 = 20260801" by code_simp+
  then show ?thesis using ymd_orders_days [of 1785542399 1785542400] by simp
qed

end
