(* ===== verification/Screen.thy ===== *)
theory Screen
  imports Solution
begin

unbundle bit_operations_syntax

text \<open>
  api/src/revalidate.ts: whether accepted intents can still be collected. The chain reads are a
  parameter, collected in \<open>owner_facts\<close>; a rejection is its code. An amount or nonce that the wire
  carries as text is the integer \<^verbatim>\<open>BigInt\<close> reads from it.
\<close>

record signed_intent =
  g_hash :: string
  g_intent :: intent
  g_signature :: hex
  g_kind :: string
  g_receivedAt :: int

type_synonym api_error = string

record withdrawal =
  wd_hash :: string
  wd_owner :: address
  wd_rejection :: api_error

record owner_facts =
  balance_of :: "address \<Rightarrow> address \<Rightarrow> int"
  allowance_of :: "address \<Rightarrow> address \<Rightarrow> int"
  nonce_used :: "address \<Rightarrow> int \<Rightarrow> bool"

abbreviation g_owner :: "signed_intent \<Rightarrow> address" where "g_owner s \<equiv> i_owner (g_intent s)"
abbreviation g_sellToken :: "signed_intent \<Rightarrow> address" where "g_sellToken s \<equiv> i_sellToken (g_intent s)"
abbreviation g_sellAmount :: "signed_intent \<Rightarrow> int" where "g_sellAmount s \<equiv> i_sellAmount (g_intent s)"

text \<open>The key is a pair of lower cased addresses, which the code joins with a colon.\<close>

definition draw_key :: "signed_intent \<Rightarrow> string \<times> string" where
  "draw_key s = (lower (g_owner s), lower (g_sellToken s))"

definition already_drawn :: "((string \<times> string) \<times> int) list \<Rightarrow> signed_intent \<Rightarrow> int" where
  "already_drawn drawn s = (case map_of drawn (draw_key s) of None \<Rightarrow> 0 | Some a \<Rightarrow> a)"

definition screen_rejection :: "owner_facts \<Rightarrow> int \<Rightarrow> signed_intent \<Rightarrow> api_error option" where
  "screen_rejection facts already s =
     (if nonce_used facts (g_owner s) (i_nonce (g_intent s)) then Some ''NonceAlreadyUsed''
      else if balance_of facts (g_owner s) (g_sellToken s) < already + g_sellAmount s
      then Some ''COORDINATOR_INSUFFICIENT_BALANCE''
      else if allowance_of facts (g_owner s) (g_sellToken s) < already + g_sellAmount s
      then Some ''COORDINATOR_PERMIT2_NOT_APPROVED'' else None)"

record screening =
  sc_drawn :: "((string \<times> string) \<times> int) list"
  sc_keep :: "signed_intent list"
  sc_withdrawn :: "withdrawal list"

definition screen_step :: "owner_facts \<Rightarrow> screening \<Rightarrow> signed_intent \<Rightarrow> screening" where
  "screen_step facts t s =
     (let already = already_drawn (sc_drawn t) s
      in case screen_rejection facts already s of
           Some rejection \<Rightarrow> t\<lparr>sc_withdrawn := sc_withdrawn t @ [\<lparr>wd_hash = g_hash s, wd_owner = g_owner s, wd_rejection = rejection\<rparr>]\<rparr>
         | None \<Rightarrow> t\<lparr>sc_drawn := AList.update (draw_key s) (already + g_sellAmount s) (sc_drawn t), sc_keep := sc_keep t @ [s]\<rparr>)"

definition screen :: "signed_intent list \<Rightarrow> owner_facts \<Rightarrow> signed_intent list \<times> withdrawal list" where
  "screen xs facts =
     (let t = foldl (screen_step facts) \<lparr>sc_drawn = [], sc_keep = [], sc_withdrawn = []\<rparr> xs
      in (sc_keep t, sc_withdrawn t))"

text \<open>The facts as the two maps of reads answer them. \<open>nonce_word\<close> is the bitmap word of a nonce.\<close>

definition nonce_word :: "int \<Rightarrow> int" where
  "nonce_word nonce = drop_bit 8 nonce"

definition nonce_bit :: "int \<Rightarrow> int \<Rightarrow> bool" where
  "nonce_bit bitmap nonce = (drop_bit (nat (nonce smod 256)) bitmap smod 2 = 1)"

definition facts_from ::
  "(string \<times> string \<rightharpoonup> int) \<Rightarrow> (string \<times> string \<rightharpoonup> int) \<Rightarrow> (string \<times> int \<rightharpoonup> int) \<Rightarrow> owner_facts" where
  "facts_from balances allowances bitmaps =
     \<lparr>balance_of = \<lambda>owner token. (case balances (lower owner, lower token) of None \<Rightarrow> 0 | Some b \<Rightarrow> b),
      allowance_of = \<lambda>owner token. (case allowances (lower owner, lower token) of None \<Rightarrow> 0 | Some a \<Rightarrow> a),
      nonce_used = \<lambda>owner nonce. nonce_bit (case bitmaps (lower owner, nonce_word nonce) of None \<Rightarrow> 0 | Some w \<Rightarrow> w) nonce\<rparr>"

section \<open>What a screening keeps\<close>

text \<open>What the kept intents of one key draw on the owner.\<close>

definition drawn_by :: "signed_intent list \<Rightarrow> string \<times> string \<Rightarrow> int" where
  "drawn_by xs k = (\<Sum>s\<leftarrow>filter (\<lambda>s. draw_key s = k) xs. g_sellAmount s)"

lemma drawn_by_snoc [simp]: "drawn_by (xs @ [s]) k = drawn_by xs k + (if draw_key s = k then g_sellAmount s else 0)"
  by (simp add: drawn_by_def)

lemma drawn_by_Nil [simp]: "drawn_by [] k = 0"
  by (simp add: drawn_by_def)

definition consistent :: "screening \<Rightarrow> bool" where
  "consistent t \<longleftrightarrow> (\<forall>k. (case map_of (sc_drawn t) k of None \<Rightarrow> 0 | Some a \<Rightarrow> a) = drawn_by (sc_keep t) k)"

lemma already_drawn_eq: "consistent t \<Longrightarrow> already_drawn (sc_drawn t) s = drawn_by (sc_keep t) (draw_key s)"
  unfolding already_drawn_def consistent_def by (elim allE)

lemma screen_step_keep:
  assumes "consistent t"
  shows "screen_step facts t s = (case screen_rejection facts (drawn_by (sc_keep t) (draw_key s)) s of
      Some r \<Rightarrow> t\<lparr>sc_withdrawn := sc_withdrawn t @ [\<lparr>wd_hash = g_hash s, wd_owner = g_owner s, wd_rejection = r\<rparr>]\<rparr>
    | None \<Rightarrow> t\<lparr>sc_drawn := AList.update (draw_key s) (drawn_by (sc_keep t) (draw_key s) + g_sellAmount s) (sc_drawn t),
               sc_keep := sc_keep t @ [s]\<rparr>)"
  by (simp add: screen_step_def Let_def already_drawn_eq [OF assms])

lemma screen_step_consistent: "consistent t \<Longrightarrow> consistent (screen_step facts t s)"
  using screen_step_keep [of t facts s] by (auto simp: consistent_def split: option.splits)

text \<open>
  The reference: a recursion over the list with what is already kept, which says of each intent
  whether it is kept, without the map of running totals.
\<close>

fun kept_after :: "owner_facts \<Rightarrow> signed_intent list \<Rightarrow> signed_intent list \<Rightarrow> signed_intent list" where
  "kept_after facts kept [] = kept"
| "kept_after facts kept (s # xs) =
     (if screen_rejection facts (drawn_by kept (draw_key s)) s = None
      then kept_after facts (kept @ [s]) xs else kept_after facts kept xs)"

lemma screen_fold_keep:
  "consistent t \<Longrightarrow> sc_keep (foldl (screen_step facts) t xs) = kept_after facts (sc_keep t) xs"
proof (induction xs arbitrary: t)
  case (Cons s xs)
  then show ?case
    using screen_step_consistent [OF Cons.prems, of facts s] by (simp add: screen_step_keep [OF Cons.prems] split: option.splits)
qed simp

lemma screen_keep: "fst (screen xs facts) = kept_after facts [] xs"
proof -
  have "consistent \<lparr>sc_drawn = [], sc_keep = [], sc_withdrawn = []\<rparr>" by (simp add: consistent_def)
  from screen_fold_keep [OF this, of facts xs] show ?thesis by (simp add: screen_def Let_def)
qed

lemma kept_after_append: "kept_after facts kept (xs @ ys) = kept_after facts (kept_after facts kept xs) ys"
  by (induction xs arbitrary: kept) auto

lemma kept_after_prefix: "\<exists>zs. kept_after facts kept xs = kept @ zs \<and> set zs \<subseteq> set xs"
proof (induction xs arbitrary: kept)
  case (Cons s xs)
  obtain zs where "kept_after facts (kept @ [s]) xs = (kept @ [s]) @ zs \<and> set zs \<subseteq> set xs" using Cons.IH by blast
  moreover obtain zs' where "kept_after facts kept xs = kept @ zs' \<and> set zs' \<subseteq> set xs" using Cons.IH by blast
  ultimately show ?case by auto
qed simp

definition affordable :: "owner_facts \<Rightarrow> signed_intent list \<Rightarrow> bool" where
  "affordable facts xs \<longleftrightarrow> (\<forall>ys s zs. xs = ys @ s # zs \<longrightarrow> screen_rejection facts (drawn_by ys (draw_key s)) s = None)"

lemma affordable_snoc:
  "affordable facts (xs @ [s]) \<longleftrightarrow> affordable facts xs \<and> screen_rejection facts (drawn_by xs (draw_key s)) s = None"
proof
  assume a: "affordable facts (xs @ [s])"
  have "screen_rejection facts (drawn_by ys (draw_key u)) u = None" if "xs = ys @ u # zs" for ys u zs
    using a that unfolding affordable_def by (metis append.assoc append_Cons)
  then show "affordable facts xs \<and> screen_rejection facts (drawn_by xs (draw_key s)) s = None"
    using a unfolding affordable_def by blast
next
  assume a: "affordable facts xs \<and> screen_rejection facts (drawn_by xs (draw_key s)) s = None"
  have "screen_rejection facts (drawn_by ys (draw_key u)) u = None" if e: "xs @ [s] = ys @ u # zs" for ys u zs
  proof (cases zs rule: rev_cases)
    case Nil
    then show ?thesis using a e by simp
  next
    case (snoc zs' z)
    then have "xs = ys @ u # zs'" using e by simp
    then show ?thesis using a unfolding affordable_def by blast
  qed
  then show "affordable facts (xs @ [s])" unfolding affordable_def by blast
qed

lemma kept_after_affordable: "affordable facts kept \<Longrightarrow> affordable facts (kept_after facts kept xs)"
  by (induction xs arbitrary: kept) (auto simp: affordable_snoc)

lemma kept_after_all: "affordable facts (kept @ xs) \<Longrightarrow> kept_after facts kept xs = kept @ xs"
proof (induction xs arbitrary: kept)
  case (Cons s xs)
  then have "screen_rejection facts (drawn_by kept (draw_key s)) s = None" unfolding affordable_def by blast
  then show ?case using Cons.IH [of "kept @ [s]"] Cons.prems by simp
qed simp

text \<open>What an affordable list draws on one owner and token stays within balance and allowance.\<close>

definition fact_keys :: "owner_facts \<Rightarrow> bool" where
  "fact_keys facts \<longleftrightarrow> (\<forall>p t p' t'. lower p = lower p' \<and> lower t = lower t' \<longrightarrow>
     balance_of facts p t = balance_of facts p' t' \<and> allowance_of facts p t = allowance_of facts p' t')"

lemma fact_keys_from: "fact_keys (facts_from b a w)"
  by (simp add: fact_keys_def facts_from_def)

lemma affordable_within:
  assumes "affordable facts xs" "fact_keys facts" "filter (\<lambda>s. draw_key s = (lower owner, lower token)) xs \<noteq> []"
  shows "drawn_by xs (lower owner, lower token) \<le> balance_of facts owner token
    \<and> drawn_by xs (lower owner, lower token) \<le> allowance_of facts owner token"
  using assms(1,3)
proof (induction xs rule: rev_induct)
  case (snoc s xs)
  have a: "affordable facts xs" "screen_rejection facts (drawn_by xs (draw_key s)) s = None"
    using snoc.prems(1) by (simp_all add: affordable_snoc)
  show ?case
  proof (cases "draw_key s = (lower owner, lower token)")
    case True
    then have "balance_of facts (g_owner s) (g_sellToken s) = balance_of facts owner token
      \<and> allowance_of facts (g_owner s) (g_sellToken s) = allowance_of facts owner token"
      using assms(2) unfolding fact_keys_def draw_key_def by blast
    then show ?thesis using a(2) True by (simp add: screen_rejection_def split: if_splits)
  next
    case False
    then show ?thesis using snoc.IH [OF a(1)] snoc.prems(2) by simp
  qed
qed simp

lemma screen_fold_length:
  "length (sc_keep (foldl (screen_step facts) t xs)) + length (sc_withdrawn (foldl (screen_step facts) t xs))
    = length (sc_keep t) + length (sc_withdrawn t) + length xs"
  by (induction xs arbitrary: t) (simp_all add: screen_step_def Let_def split: option.splits)

lemma screen_within:
  assumes "fact_keys facts" and "s \<in> set (fst (screen xs facts))"
  shows "drawn_by (fst (screen xs facts)) (draw_key s) \<le> balance_of facts (g_owner s) (g_sellToken s)
    \<and> drawn_by (fst (screen xs facts)) (draw_key s) \<le> allowance_of facts (g_owner s) (g_sellToken s)
    \<and> \<not> nonce_used facts (g_owner s) (i_nonce (g_intent s))
    \<and> s \<in> set xs \<and> length (fst (screen xs facts)) + length (snd (screen xs facts)) = length xs"
proof -
  let ?k = "fst (screen xs facts)"
  have aff: "affordable facts ?k" unfolding screen_keep by (rule kept_after_affordable) (simp add: affordable_def)
  have "filter (\<lambda>u. draw_key u = (lower (g_owner s), lower (g_sellToken s))) ?k \<noteq> []"
    using assms(2) by (auto simp: filter_empty_conv draw_key_def)
  note within = affordable_within [OF aff assms(1) this]
  obtain ys zs where "?k = ys @ s # zs" using assms(2) by (meson split_list)
  then have "screen_rejection facts (drawn_by ys (draw_key s)) s = None" using aff unfolding affordable_def by blast
  then have "\<not> nonce_used facts (g_owner s) (i_nonce (g_intent s))" by (simp add: screen_rejection_def split: if_splits)
  moreover have "s \<in> set xs" using kept_after_prefix [of facts "[]" xs] assms(2) by (auto simp: screen_keep)
  moreover have "length ?k + length (snd (screen xs facts)) = length xs"
    using screen_fold_length [of facts "\<lparr>sc_drawn = [], sc_keep = [], sc_withdrawn = []\<rparr>" xs] by (simp add: screen_def Let_def)
  ultimately show ?thesis using within by (simp add: draw_key_def)
qed

text \<open>
  \<^verbatim>\<open>readFacts\<close>: the contract reads at one block are a parameter; one read per owner and token and one
  per owner and nonce word, under the spelling of the last intent that named them.
\<close>

record token_reads =
  read_balance :: "address \<Rightarrow> address \<Rightarrow> int"
  read_allowance :: "address \<Rightarrow> address \<Rightarrow> int"
  read_bitmap :: "address \<Rightarrow> int \<Rightarrow> int"

definition fact_pairs :: "signed_intent list \<Rightarrow> ((string \<times> string) \<times> address \<times> address) list" where
  "fact_pairs xs = foldl (\<lambda>m s. AList.update (draw_key s) (g_owner s, g_sellToken s) m) [] xs"

definition fact_words :: "signed_intent list \<Rightarrow> ((string \<times> int) \<times> address \<times> int) list" where
  "fact_words xs = foldl (\<lambda>m s. let word = nonce_word (i_nonce (g_intent s))
     in AList.update (lower (g_owner s), word) (g_owner s, word) m) [] xs"

definition read_facts :: "token_reads \<Rightarrow> signed_intent list \<Rightarrow> owner_facts" where
  "read_facts chain xs =
     facts_from
       (\<lambda>k. map_option (\<lambda>(owner, token). read_balance chain owner token) (map_of (fact_pairs xs) k))
       (\<lambda>k. map_option (\<lambda>(owner, token). read_allowance chain owner token) (map_of (fact_pairs xs) k))
       (\<lambda>k. map_option (\<lambda>(owner, word). read_bitmap chain owner word) (map_of (fact_words xs) k))"

text \<open>Addresses are numbers on chain, so their spelling does not matter there.\<close>

definition spelling_free :: "token_reads \<Rightarrow> bool" where
  "spelling_free chain \<longleftrightarrow> (\<forall>p q t u. same p q \<and> same t u \<longrightarrow>
     read_balance chain p t = read_balance chain q u \<and> read_allowance chain p t = read_allowance chain q u)
   \<and> (\<forall>p q w. same p q \<longrightarrow> read_bitmap chain p w = read_bitmap chain q w)"

lemma fold_update_keyed:
  assumes "s \<in> set xs"
  shows "\<exists>u\<in>set xs. f u = f s \<and> map_of (foldl (\<lambda>m s. AList.update (f s) (g s) m) m0 xs) (f s) = Some (g u)"
  using assms
proof (induction xs rule: rev_induct)
  case (snoc u xs)
  then show ?case by (cases "f u = f s") auto
qed simp

lemma read_facts_exact:
  assumes "spelling_free chain" "s \<in> set xs"
  shows "balance_of (read_facts chain xs) (g_owner s) (g_sellToken s) = read_balance chain (g_owner s) (g_sellToken s)"
    "allowance_of (read_facts chain xs) (g_owner s) (g_sellToken s) = read_allowance chain (g_owner s) (g_sellToken s)"
    "nonce_used (read_facts chain xs) (g_owner s) (i_nonce (g_intent s)) =
       nonce_bit (read_bitmap chain (g_owner s) (nonce_word (i_nonce (g_intent s)))) (i_nonce (g_intent s))"
proof -
  obtain u where u: "draw_key u = draw_key s" "map_of (fact_pairs xs) (draw_key s) = Some (g_owner u, g_sellToken u)"
    using fold_update_keyed [OF assms(2), of draw_key "\<lambda>s. (g_owner s, g_sellToken s)" "[]"] by (auto simp: fact_pairs_def)
  let ?w = "\<lambda>s. (lower (g_owner s), nonce_word (i_nonce (g_intent s)))"
  obtain w where w: "?w w = ?w s" "map_of (fact_words xs) (?w s) = Some (g_owner w, nonce_word (i_nonce (g_intent w)))"
    using fold_update_keyed [OF assms(2), of ?w "\<lambda>s. (g_owner s, nonce_word (i_nonce (g_intent s)))" "[]"]
    by (auto simp: fact_words_def Let_def)
  have "same (g_owner u) (g_owner s)" "same (g_sellToken u) (g_sellToken s)" "same (g_owner w) (g_owner s)"
    "nonce_word (i_nonce (g_intent w)) = nonce_word (i_nonce (g_intent s))"
    using u(1) w(1) by (auto simp: draw_key_def same_def)
  then show "balance_of (read_facts chain xs) (g_owner s) (g_sellToken s) = read_balance chain (g_owner s) (g_sellToken s)"
    "allowance_of (read_facts chain xs) (g_owner s) (g_sellToken s) = read_allowance chain (g_owner s) (g_sellToken s)"
    "nonce_used (read_facts chain xs) (g_owner s) (i_nonce (g_intent s)) =
       nonce_bit (read_bitmap chain (g_owner s) (nonce_word (i_nonce (g_intent s)))) (i_nonce (g_intent s))"
    using assms(1) u(2) w(2) unfolding spelling_free_def
    by (simp_all add: read_facts_def facts_from_def draw_key_def)
qed

lemma read_facts_keys: "fact_keys (read_facts chain xs)"
  by (simp add: read_facts_def fact_keys_from)

section \<open>Properties\<close>

text \<open>
  Screening against facts read at one block: what it keeps of one owner and token never exceeds
  the balance or the Permit2 allowance the chain reports for them, and no kept intent has a nonce
  the chain reports as spent.
\<close>

theorem screened_on_chain:
  assumes "spelling_free chain" and "s \<in> set (fst (screen xs (read_facts chain xs)))"
  shows "drawn_by (fst (screen xs (read_facts chain xs))) (draw_key s) \<le> read_balance chain (g_owner s) (g_sellToken s)
    \<and> drawn_by (fst (screen xs (read_facts chain xs))) (draw_key s) \<le> read_allowance chain (g_owner s) (g_sellToken s)
    \<and> \<not> nonce_bit (read_bitmap chain (g_owner s) (nonce_word (i_nonce (g_intent s)))) (i_nonce (g_intent s))"
  using screen_within [OF read_facts_keys assms(2)] read_facts_exact [OF assms(1)] by metis

text \<open>
  An earlier intent cannot be pushed out by a later one, and screening what was kept once more
  withdraws nothing.
\<close>

theorem screen_order_stable:
  "(\<exists>zs. fst (screen (xs @ ys) facts) = fst (screen xs facts) @ zs \<and> set zs \<subseteq> set ys)
    \<and> fst (screen (fst (screen xs facts)) facts) = fst (screen xs facts)
    \<and> snd (screen (fst (screen xs facts)) facts) = []"
proof -
  have aff: "affordable facts (fst (screen xs facts))"
    unfolding screen_keep by (rule kept_after_affordable) (simp add: affordable_def)
  then have again: "fst (screen (fst (screen xs facts)) facts) = fst (screen xs facts)"
    using kept_after_all [of facts "[]" "fst (screen xs facts)"] by (simp add: screen_keep)
  have "length (fst (screen (fst (screen xs facts)) facts)) + length (snd (screen (fst (screen xs facts)) facts))
      = length (fst (screen xs facts))"
    using screen_fold_length [of facts "\<lparr>sc_drawn = [], sc_keep = [], sc_withdrawn = []\<rparr>" "fst (screen xs facts)"]
    by (simp add: screen_def Let_def)
  then show ?thesis using again kept_after_prefix [of facts "kept_after facts [] xs" ys]
    by (simp add: screen_keep kept_after_append)
qed

definition sample_signed :: "string \<Rightarrow> string \<Rightarrow> int \<Rightarrow> int \<Rightarrow> signed_intent" where
  "sample_signed h owner amount nonce = \<lparr>g_hash = h, g_intent =
     \<lparr>i_owner = owner, i_receiver = owner, i_sellToken = ''0xA1'', i_buyToken = ''0xB2'',
      i_sellAmount = amount, i_minBuyAmount = 1, i_validAfter = 0, i_validUntil = 1000, i_flags = 1,
      i_kind = 0, i_maxDevFromRefBps = 0, i_allowedSessions = 255, i_batchSpan = 1, i_nonce = nonce\<rparr>,
     g_signature = ''0x'', g_kind = ''eoa'', g_receivedAt = 0\<rparr>"

definition sample_list :: "signed_intent list" where
  "sample_list = [sample_signed ''h1'' ''0xAB'' 60 1, sample_signed ''h2'' ''0xab'' 50 2, sample_signed ''h3'' ''0xAb'' 40 3]"

definition sample_chain :: token_reads where
  "sample_chain = \<lparr>read_balance = \<lambda>owner token. if lower owner = ''0xab'' \<and> lower token = ''0xa1'' then 100 else 0,
     read_allowance = \<lambda>owner token. 1000, read_bitmap = \<lambda>owner word. 0\<rparr>"

theorem screened_on_chain_witness:
  "drawn_by (fst (screen sample_list (read_facts sample_chain sample_list))) (''0xab'', ''0xa1'') \<le> 100
    \<and> map g_hash (fst (screen sample_list (read_facts sample_chain sample_list))) = [''h1'', ''h3'']"
proof -
  have k: "fst (screen sample_list (read_facts sample_chain sample_list)) =
      [sample_signed ''h1'' ''0xAB'' 60 1, sample_signed ''h3'' ''0xAb'' 40 3]" by code_simp
  have s: "spelling_free sample_chain" by (simp add: spelling_free_def sample_chain_def same_def)
  have "read_balance sample_chain ''0xAB'' ''0xA1'' = 100" "draw_key (sample_signed ''h1'' ''0xAB'' 60 1) = (''0xab'', ''0xa1'')"
    by code_simp+
  then show ?thesis
    using screened_on_chain [OF s, of "sample_signed ''h1'' ''0xAB'' 60 1" sample_list] k by (simp add: sample_signed_def)
qed

end
