(* ===== verification/BatchId.thy ===== *)
theory BatchId
  imports Prelude
begin

text \<open>
  packages/shared/batch.ts and the enumerations of packages/shared/types.ts: which timestamps
  name a batch, the search for the next one and the lookup of the one being solved. The chain
  is a parameter: \<open>chain_reader\<close> holds its four reads, one fixed view of the calendar.
\<close>

section \<open>Sessions\<close>

datatype session =
    CLOSED_OVERNIGHT | PRE_MARKET | AUCTION_OPEN | OPEN | AUCTION_CLOSE
  | POST_MARKET | CLOSED_WEEKEND | HOLIDAY | PROTECTIVE

fun session_number :: "session \<Rightarrow> int" where
  "session_number CLOSED_OVERNIGHT = 0"
| "session_number PRE_MARKET = 1"
| "session_number AUCTION_OPEN = 2"
| "session_number OPEN = 3"
| "session_number AUCTION_CLOSE = 4"
| "session_number POST_MARKET = 5"
| "session_number CLOSED_WEEKEND = 6"
| "session_number HOLIDAY = 7"
| "session_number PROTECTIVE = 8"

fun session_mask :: "session \<Rightarrow> int option" where
  "session_mask CLOSED_OVERNIGHT = Some 1"
| "session_mask PRE_MARKET = Some 2"
| "session_mask AUCTION_OPEN = Some 4"
| "session_mask OPEN = Some 8"
| "session_mask AUCTION_CLOSE = Some 16"
| "session_mask POST_MARKET = Some 32"
| "session_mask CLOSED_WEEKEND = Some 64"
| "session_mask HOLIDAY = Some 128"
| "session_mask PROTECTIVE = None"

fun_cases session_mask_SomeE: "session_mask s = Some m"

lemma session_number_inj: "session_number s = session_number t \<Longrightarrow> s = t"
  by (cases s; cases t) simp_all

instantiation session :: linorder
begin

definition less_eq_session :: "session \<Rightarrow> session \<Rightarrow> bool" where
  "less_eq_session s t \<longleftrightarrow> session_number s \<le> session_number t"

definition less_session :: "session \<Rightarrow> session \<Rightarrow> bool" where
  "less_session s t \<longleftrightarrow> session_number s < session_number t"

instance
  by standard (auto simp: less_eq_session_def less_session_def dest: session_number_inj)

end

section \<open>Windows\<close>

definition DEFAULT_SOLUTION_WINDOW :: int where "DEFAULT_SOLUTION_WINDOW = 10"
definition NO_ORDINARY_BATCH :: int where "NO_ORDINARY_BATCH = 0"
definition MAX_STEPS :: nat where "MAX_STEPS = 64"

record chain_reader =
  sessionAt :: "int \<Rightarrow> int"
  batchDuration :: "int \<Rightarrow> int"
  inGuardBand :: "int \<Rightarrow> bool"
  nextTransition :: "int \<Rightarrow> int"

record batch_window =
  batchId :: int
  collectStart :: int
  collectEnd :: int
  solveEnd :: int
  window_session :: int
  durationSeconds :: int

datatype no_batch_reason = Auction_phase | Guard_band | Window_closed | Search_exhausted

datatype batch_lookup = Batch batch_window | No_batch no_batch_reason "int option"

definition window_of :: "int \<Rightarrow> int \<Rightarrow> int \<Rightarrow> int \<Rightarrow> batch_window" where
  "window_of i duration session solutionWindow =
     \<lparr>batchId = i, collectStart = i - duration, collectEnd = i, solveEnd = i + solutionWindow,
      window_session = session, durationSeconds = duration\<rparr>"

definition is_batch :: "batch_lookup \<Rightarrow> bool" where
  "is_batch r = (case r of Batch _ \<Rightarrow> True | No_batch _ _ \<Rightarrow> False)"

definition is_valid_batch_id :: "chain_reader \<Rightarrow> int \<Rightarrow> bool" where
  "is_valid_batch_id reader i =
     (let duration = batchDuration reader (sessionAt reader i)
      in if duration = NO_ORDINARY_BATCH then False
         else if i smod duration \<noteq> 0 then False
         else \<not> inGuardBand reader i)"

text \<open>The loop of the search with the steps it has left.\<close>

fun search_from :: "nat \<Rightarrow> chain_reader \<Rightarrow> int \<Rightarrow> int \<Rightarrow> batch_lookup" where
  "search_from 0 reader solutionWindow cursor = No_batch Search_exhausted (Some cursor)"
| "search_from (Suc n) reader solutionWindow cursor =
     (let session = sessionAt reader cursor;
          duration = batchDuration reader session
      in if duration = NO_ORDINARY_BATCH
         then let transition = nextTransition reader cursor
              in if transition \<le> cursor then No_batch Auction_phase None
                 else search_from n reader solutionWindow transition
         else let aligned = (cursor + duration - 1) sdiv duration * duration
              in if aligned \<noteq> cursor then search_from n reader solutionWindow aligned
                 else if inGuardBand reader cursor then search_from n reader solutionWindow (cursor + 1)
                 else Batch (window_of cursor duration session solutionWindow))"

definition next_valid_batch_id :: "chain_reader \<Rightarrow> int \<Rightarrow> int \<Rightarrow> batch_lookup" where
  "next_valid_batch_id reader start solutionWindow = search_from MAX_STEPS reader solutionWindow (start + 1)"

definition solvable_batch_id :: "chain_reader \<Rightarrow> int \<Rightarrow> int \<Rightarrow> batch_lookup" where
  "solvable_batch_id reader time solutionWindow =
     (let durationNow = batchDuration reader (sessionAt reader time)
      in if durationNow = NO_ORDINARY_BATCH then No_batch Auction_phase None
         else let candidate = (time - 1) sdiv durationNow * durationNow
              in if time > candidate + solutionWindow
                 then No_batch Window_closed
                        (case next_valid_batch_id reader time solutionWindow of
                           Batch w \<Rightarrow> Some (collectEnd w + 1) | No_batch _ _ \<Rightarrow> None)
                 else let session = sessionAt reader candidate;
                          duration = batchDuration reader session
                      in if duration = NO_ORDINARY_BATCH \<or> candidate smod duration \<noteq> 0 then No_batch Auction_phase None
                         else if inGuardBand reader candidate then No_batch Guard_band None
                         else Batch (window_of candidate duration session solutionWindow))"

section \<open>What the search answers\<close>

text \<open>Time and durations are unsigned on chain.\<close>

definition valid_reader :: "chain_reader \<Rightarrow> bool" where
  "valid_reader reader \<longleftrightarrow> (\<forall>s. 0 \<le> batchDuration reader s)"

lemma multipleE:
  assumes "c mod d = (0 :: int)"
  obtains k where "c = k * d"
  using that [of "c div d"] div_mult_mod_eq [of c d] assms by simp

lemma aligned_eq: "0 < d \<Longrightarrow> 0 \<le> c \<Longrightarrow> (c + d - 1) sdiv d * d = (c + d - 1) div d * (d :: int)"
  by simp

lemma aligned_ge: "0 < d \<Longrightarrow> c \<le> (c + d - 1) div d * (d :: int)"
  by (rule ceil_mult_ge)

lemma aligned_multiple: "0 < d \<Longrightarrow> (c + d - 1) div d * d = c \<longleftrightarrow> c mod d = (0 :: int)"
proof
  assume d: "0 < d" and "c mod d = 0"
  then obtain k where c: "c = k * d" by (elim multipleE)
  have "(c + d - 1) div d \<le> k" "k \<le> (c + d - 1) div d"
    using d ceil_le_iff [OF d, of c k] ceil_le_iff [OF d, of c "(c + d - 1) div d"] aligned_ge [OF d, of c]
    by (simp_all add: c)
  then show "(c + d - 1) div d * d = c" using c by simp
qed (metis mod_mult_self2_is_0)

lemma no_multiple_below_aligned: "0 < d \<Longrightarrow> c \<le> t \<Longrightarrow> t < (c + d - 1) div d * d \<Longrightarrow> t mod d \<noteq> (0 :: int)"
proof
  assume d: "0 < d" and t: "c \<le> t" "t < (c + d - 1) div d * d" and "t mod d = 0"
  then obtain k where k: "t = k * d" by (elim multipleE)
  then have "(c + d - 1) div d \<le> k" using t(1) by (simp add: ceil_le_iff [OF d])
  then have "(c + d - 1) div d * d \<le> t" using d k by simp
  then show False using t(2) by simp
qed

lemma valid_id_iff:
  assumes "valid_reader reader" "0 \<le> i"
  shows "is_valid_batch_id reader i \<longleftrightarrow>
    batchDuration reader (sessionAt reader i) \<noteq> 0 \<and> i mod batchDuration reader (sessionAt reader i) = 0 \<and> \<not> inGuardBand reader i"
  using assms by (simp add: is_valid_batch_id_def Let_def NO_ORDINARY_BATCH_def valid_reader_def)

lemma search_sound:
  assumes "valid_reader reader" "0 \<le> cursor" "search_from n reader w cursor = Batch b"
  shows "cursor \<le> batchId b \<and> is_valid_batch_id reader (batchId b)
    \<and> b = window_of (batchId b) (batchDuration reader (sessionAt reader (batchId b))) (sessionAt reader (batchId b)) w"
  using assms(2,3)
proof (induction n arbitrary: cursor)
  case (Suc n)
  let ?d = "batchDuration reader (sessionAt reader cursor)"
  have d: "?d = 0 \<or> 0 < ?d" using assms(1) by (auto simp: valid_reader_def order.order_iff_strict)
  show ?case
  proof (cases "?d = 0")
    case True
    then show ?thesis using Suc.IH [of "nextTransition reader cursor"] Suc.prems
      by (simp add: NO_ORDINARY_BATCH_def Let_def split: if_splits)
  next
    case False
    then have pos: "0 < ?d" using d by simp
    let ?a = "(cursor + ?d - 1) div ?d * ?d"
    have a: "(cursor + ?d - 1) sdiv ?d * ?d = ?a" "cursor \<le> ?a" using pos Suc.prems(1) aligned_ge by auto
    show ?thesis
    proof (cases "?a = cursor \<and> \<not> inGuardBand reader cursor")
      case True
      then have "b = window_of cursor ?d (sessionAt reader cursor) w" "cursor mod ?d = 0"
        using Suc.prems(2) a False aligned_multiple [OF pos] by (simp_all add: NO_ORDINARY_BATCH_def Let_def)
      then show ?thesis using True False Suc.prems(1) valid_id_iff [OF assms(1)] by (simp add: window_of_def)
    next
      case False
      then have "search_from n reader w (if ?a = cursor then cursor + 1 else ?a) = Batch b"
        using Suc.prems(2) a \<open>?d \<noteq> 0\<close> by (auto simp: NO_ORDINARY_BATCH_def Let_def)
      then show ?thesis using Suc.IH [of "if ?a = cursor then cursor + 1 else ?a"] Suc.prems(1) a(2)
        by (auto split: if_splits)
    qed
  qed
qed simp

text \<open>
  The laws of the calendar the search relies on: a phase without batches lasts until its next
  transition, and a session that runs batches hands over at a multiple of its own duration.
\<close>

definition calendar_laws :: "chain_reader \<Rightarrow> bool" where
  "calendar_laws reader \<longleftrightarrow>
     (\<forall>c t. batchDuration reader (sessionAt reader c) = 0 \<and> c \<le> t \<and> t < nextTransition reader c
        \<longrightarrow> batchDuration reader (sessionAt reader t) = 0)
     \<and> (\<forall>c t. let d = batchDuration reader (sessionAt reader c)
          in d \<noteq> 0 \<and> c \<le> t \<and> t < (c + d - 1) div d * d \<longrightarrow> batchDuration reader (sessionAt reader t) = d)"

lemma search_least_id:
  assumes "valid_reader reader" "calendar_laws reader" "0 \<le> cursor" "search_from n reader w cursor = Batch b"
    "cursor \<le> t" "t < batchId b"
  shows "\<not> is_valid_batch_id reader t"
  using assms(3-6)
proof (induction n arbitrary: cursor)
  case (Suc n)
  let ?d = "batchDuration reader (sessionAt reader cursor)"
  have d: "?d = 0 \<or> 0 < ?d" using assms(1) by (auto simp: valid_reader_def order.order_iff_strict)
  have t: "0 \<le> t" using Suc.prems(1,3) by simp
  show ?case
  proof (cases "?d = 0")
    case True
    then have s: "search_from n reader w (nextTransition reader cursor) = Batch b" "cursor < nextTransition reader cursor"
      using Suc.prems(2) by (auto simp: NO_ORDINARY_BATCH_def Let_def split: if_splits)
    show ?thesis
    proof (cases "t < nextTransition reader cursor")
      case True
      then have "batchDuration reader (sessionAt reader t) = 0"
        using assms(2) \<open>?d = 0\<close> Suc.prems(3) unfolding calendar_laws_def by blast
      then show ?thesis by (simp add: valid_id_iff [OF assms(1) t])
    next
      case False
      then show ?thesis using Suc.IH [OF _ s(1) _ Suc.prems(4)] s(2) Suc.prems(1) by simp
    qed
  next
    case False
    then have pos: "0 < ?d" using d by simp
    let ?a = "(cursor + ?d - 1) div ?d * ?d"
    have a: "(cursor + ?d - 1) sdiv ?d * ?d = ?a" "cursor \<le> ?a" using pos Suc.prems(1) aligned_ge by auto
    have gap: "\<not> is_valid_batch_id reader t" if "t < ?a"
    proof -
      have "batchDuration reader (sessionAt reader t) = ?d"
        using assms(2) False Suc.prems(3) that unfolding calendar_laws_def Let_def by blast
      then show ?thesis using no_multiple_below_aligned [OF pos Suc.prems(3) that] valid_id_iff [OF assms(1) t] by simp
    qed
    consider (grow) "?a \<noteq> cursor" | (guard) "?a = cursor" "inGuardBand reader cursor" | (hit) "?a = cursor" "\<not> inGuardBand reader cursor"
      by blast
    then show ?thesis
    proof cases
      case grow
      then have "search_from n reader w ?a = Batch b" using Suc.prems(2) a False by (simp add: NO_ORDINARY_BATCH_def Let_def)
      then show ?thesis using Suc.IH [of ?a] Suc.prems a(2) gap by (cases "t < ?a") auto
    next
      case guard
      then have "search_from n reader w (cursor + 1) = Batch b" using Suc.prems(2) a False by (simp add: NO_ORDINARY_BATCH_def Let_def)
      moreover have "\<not> is_valid_batch_id reader cursor" using guard by (simp add: is_valid_batch_id_def Let_def)
      ultimately show ?thesis using Suc.IH [of "cursor + 1"] Suc.prems by (cases "t = cursor") auto
    next
      case hit
      then show ?thesis using Suc.prems a False by (auto simp: NO_ORDINARY_BATCH_def Let_def window_of_def)
    qed
  qed
qed simp

text \<open>
  Sixty four steps are two per candidate: one to align and one for the guard band. So an id within
  31 durations is found.
\<close>

lemma search_reaches:
  assumes "valid_reader reader" "0 < d" "m mod d = 0" "is_valid_batch_id reader m" "0 \<le> c" "c \<le> m"
    "\<forall>t. c \<le> t \<and> t \<le> m \<longrightarrow> batchDuration reader (sessionAt reader t) = d"
    "\<forall>t. c \<le> t \<and> t < m \<longrightarrow> \<not> is_valid_batch_id reader t"
    "2 * ((m - c) div d) + (if c mod d = 0 then 1 else 2) \<le> int n"
  shows "search_from n reader w c = Batch (window_of m d (sessionAt reader m) w)"
  using assms(5-9)
proof (induction n arbitrary: c)
  case 0
  have "0 \<le> (m - c) div d" using assms(2) 0 by (intro floor_nonneg) simp_all
  then show ?case using 0(5) by (auto split: if_splits)
next
  case (Suc n)
  let ?a = "(c + d - 1) div d * d"
  have dc: "batchDuration reader (sessionAt reader c) = d" using Suc.prems by auto
  have a: "(c + d - 1) sdiv d * d = ?a" "c \<le> ?a" using assms(2) Suc.prems(1) aligned_ge by auto
  have unfold: "search_from (Suc n) reader w c = (if ?a \<noteq> c then search_from n reader w ?a
      else if inGuardBand reader c then search_from n reader w (c + 1) else Batch (window_of c d (sessionAt reader c) w))"
    using assms(2) by (simp add: dc a NO_ORDINARY_BATCH_def Let_def)
  obtain j where j: "m = j * d" using assms(3) by (rule multipleE)
  show ?case
  proof (cases "c mod d = 0")
    case True
    then have ac: "?a = c" using aligned_multiple [OF assms(2), of c] by (simp only:)
    obtain k where k: "c = k * d" using True by (rule multipleE)
    show ?thesis
    proof (cases "c = m")
      case True
      then have "\<not> inGuardBand reader c" using assms(4) Suc.prems(1) valid_id_iff [OF assms(1)] True by (simp only: simp_thms)
      then have "search_from (Suc n) reader w c = Batch (window_of c d (sessionAt reader c) w)"
        unfolding unfold using ac by (simp only: simp_thms if_False)
      then show ?thesis unfolding True .
    next
      case False
      have "inGuardBand reader c"
        using Suc.prems(2,4) False valid_id_iff [OF assms(1) Suc.prems(1)] True dc assms(2) by auto
      then have "search_from (Suc n) reader w c = search_from n reader w (c + 1)" using unfold ac by simp
      moreover have "search_from n reader w (c + 1) = Batch (window_of m d (sessionAt reader m) w)"
      proof (rule Suc.IH)
        have "m - c = (j - k) * d" by (simp add: j k algebra_simps)
        then have q: "(m - c) div d = j - k" using assms(2) by simp
        have "m - (c + 1) = (d - 1) + (j - k - 1) * d" by (simp add: j k algebra_simps)
        then have "(m - (c + 1)) div d = (d - 1) div d + (j - k - 1)"
          using assms(2) by (simp only: div_mult_self1)
        then have "(m - (c + 1)) div d = j - k - 1" using assms(2) by simp
        then show "2 * ((m - (c + 1)) div d) + (if (c + 1) mod d = 0 then 1 else 2) \<le> int n"
          using Suc.prems(5) True q by auto
      qed (use Suc.prems False in auto)
      ultimately show ?thesis by simp
    qed
  next
    case False
    then have ac: "?a \<noteq> c" using aligned_multiple [OF assms(2), of c] by (simp only: simp_thms)
    have am: "?a \<le> m"
      using no_multiple_below_aligned [OF assms(2) Suc.prems(2)] assms(3) by force
    have "?a < c + d" using floor_mult_le [OF assms(2), of "c + d - 1"] by simp
    then have "0 \<le> ?a - c" "?a - c < d" using a(2) by simp_all
    moreover have "m - c = (?a - c) + (j - (c + d - 1) div d) * d" by (simp add: j algebra_simps)
    ultimately have "(m - c) div d = j - (c + d - 1) div d" using assms(2) by (simp only: div_mult_self1) simp
    moreover have "(m - ?a) div d = j - (c + d - 1) div d"
    proof -
      have "m - ?a = (j - (c + d - 1) div d) * d" by (simp add: j algebra_simps)
      then show ?thesis using assms(2) by simp
    qed
    ultimately have "search_from n reader w ?a = Batch (window_of m d (sessionAt reader m) w)"
      using Suc.prems False a(2) am by (intro Suc.IH) auto
    then show ?thesis using unfold ac by simp
  qed
qed

section \<open>Properties\<close>

text \<open>
  Whatever the calendar, an id the search answers lies after the start, is one Settlement
  would accept, and comes with the window Settlement derives for it.
\<close>

theorem next_batch_valid:
  assumes "valid_reader reader" and "0 \<le> start" and "next_valid_batch_id reader start w = Batch b"
  shows "start < batchId b \<and> is_valid_batch_id reader (batchId b)
    \<and> collectStart b = batchId b - durationSeconds b \<and> collectEnd b = batchId b \<and> solveEnd b = batchId b + w
    \<and> window_session b = sessionAt reader (batchId b) \<and> durationSeconds b = batchDuration reader (window_session b)"
proof -
  have "start + 1 \<le> batchId b \<and> is_valid_batch_id reader (batchId b)
    \<and> b = window_of (batchId b) (batchDuration reader (sessionAt reader (batchId b))) (sessionAt reader (batchId b)) w"
    using search_sound [OF assms(1) _ assms(3) [unfolded next_valid_batch_id_def]] assms(2) by simp
  then show ?thesis by (metis (no_types, lifting) window_of_def batch_window.select_convs zless_add1_eq add1_zle_eq)
qed

text \<open>
  On a calendar whose sessions hand over at multiples of their own duration, the id answered
  is the smallest valid one after the start.
\<close>

theorem next_batch_least:
  assumes "valid_reader reader" and "calendar_laws reader" and "0 \<le> start"
    and "next_valid_batch_id reader start w = Batch b" and "start < t" and "t < batchId b"
  shows "\<not> is_valid_batch_id reader t"
  using search_least_id [OF assms(1,2) _ assms(4) [unfolded next_valid_batch_id_def]] assms(3,5,6) by simp

text \<open>
  The step bound is never the reason an id within reach is missed: when one session of
  duration d runs from the start to the first valid id and that id is less than 32 durations
  away, the search answers it.
\<close>

theorem next_batch_found:
  assumes "valid_reader reader" and "0 \<le> start" and "0 < d" and "start < m" and "(m - start - 1) div d \<le> 31"
    and "\<forall>t. start < t \<and> t \<le> m \<longrightarrow> batchDuration reader (sessionAt reader t) = d"
    and "is_valid_batch_id reader m" and "\<forall>t. start < t \<and> t < m \<longrightarrow> \<not> is_valid_batch_id reader t"
  shows "next_valid_batch_id reader start w = Batch (window_of m d (sessionAt reader m) w)"
proof -
  have "m mod d = 0" using assms(3,4,6,7) valid_id_iff [OF assms(1), of m] assms(2) by auto
  then show ?thesis
    unfolding next_valid_batch_id_def using assms
    by (intro search_reaches) (auto simp: MAX_STEPS_def diff_diff_eq)
qed

text \<open>
  Without that law the answer need not be the smallest: a session that ends off its own grid
  hides the valid ids of the next one.
\<close>

theorem next_batch_can_skip:
  "\<exists>reader start b t. valid_reader reader \<and> 0 \<le> start \<and> next_valid_batch_id reader start 10 = Batch b
     \<and> start < t \<and> t < batchId b \<and> is_valid_batch_id reader t"
proof -
  let ?r = "\<lparr>sessionAt = \<lambda>t. if t < 100 then 0 else 3, batchDuration = \<lambda>s. if s = 0 then 45 else 10,
    inGuardBand = \<lambda>_. False, nextTransition = \<lambda>t. 100\<rparr>"
  have "valid_reader ?r" by (simp add: valid_reader_def)
  moreover have "next_valid_batch_id ?r 91 10 = Batch (window_of 140 10 3 10)" by code_simp
  moreover have "is_valid_batch_id ?r 100" by code_simp
  ultimately show ?thesis
    by (intro exI [of _ ?r] exI [of _ 91] exI [of _ "window_of 140 10 3 10"] exI [of _ 100]) (simp add: window_of_def)
qed

text \<open>
  The batch being solved is valid and its solution window is open at the time asked about; and
  a valid batch whose window is open is found when its session still runs and its window is no
  longer than its duration.
\<close>

theorem solvable_batch_open:
  assumes "valid_reader reader" and "1 \<le> time" and "w \<le> d" and "0 < d"
    and "batchDuration reader (sessionAt reader time) = d" and "batchDuration reader (sessionAt reader i) = d" and "0 \<le> i"
  shows "(\<exists>b. solvable_batch_id reader time w = Batch b \<and> batchId b = i)
    \<longleftrightarrow> is_valid_batch_id reader i \<and> i < time \<and> time \<le> i + w"
proof -
  let ?c = "(time - 1) div d * d"
  have c: "(time - 1) sdiv d * d = ?c" "0 \<le> ?c" "?c < time" "time \<le> ?c + d"
    using assms(2,4) floor_mult_le [OF assms(4), of "time - 1"] floor_less_iff [OF assms(4), of "time - 1" "(time - 1) div d + 1"]
    by (simp_all add: algebra_simps)
  have run: "solvable_batch_id reader time w = (if time > ?c + w
      then No_batch Window_closed (case next_valid_batch_id reader time w of Batch w \<Rightarrow> Some (collectEnd w + 1) | No_batch _ _ \<Rightarrow> None)
      else if batchDuration reader (sessionAt reader ?c) = 0 \<or> ?c smod batchDuration reader (sessionAt reader ?c) \<noteq> 0
      then No_batch Auction_phase None
      else if inGuardBand reader ?c then No_batch Guard_band None
      else Batch (window_of ?c (batchDuration reader (sessionAt reader ?c)) (sessionAt reader ?c) w))"
    using assms(4) by (simp add: solvable_batch_id_def Let_def assms(5) c(1) NO_ORDINARY_BATCH_def del: sdiv_floor)
  show ?thesis
  proof
    assume "\<exists>b. solvable_batch_id reader time w = Batch b \<and> batchId b = i"
    then have "i = ?c \<and> time \<le> ?c + w \<and> is_valid_batch_id reader ?c"
      unfolding run by (auto simp: window_of_def is_valid_batch_id_def NO_ORDINARY_BATCH_def Let_def split: if_splits)
    then show "is_valid_batch_id reader i \<and> i < time \<and> time \<le> i + w" using c(3) by simp
  next
    assume i: "is_valid_batch_id reader i \<and> i < time \<and> time \<le> i + w"
    then have "i mod d = 0" using valid_id_iff [OF assms(1,7)] assms(6) by simp
    then obtain k where k: "i = k * d" by (elim multipleE)
    have "k \<le> (time - 1) div d" using i k by (simp add: floor_le_iff [OF assms(4)])
    moreover have "(time - 1) div d < k + 1" unfolding floor_less_iff [OF assms(4)] using i k assms(3) by (simp add: algebra_simps)
    ultimately have "?c = i" using k by simp
    then show "\<exists>b. solvable_batch_id reader time w = Batch b \<and> batchId b = i"
      unfolding run using i by (auto simp: window_of_def is_valid_batch_id_def NO_ORDINARY_BATCH_def Let_def split: if_splits)
  qed
qed

section \<open>Witnesses\<close>

text \<open>A night of 45 second batches that hands over to an opening auction at 4500, with the guard band around it.\<close>

definition sample_reader :: chain_reader where
  "sample_reader = \<lparr>sessionAt = \<lambda>t. if t < 4500 then 0 else 2, batchDuration = \<lambda>s. if s = 0 then 45 else 0,
     inGuardBand = \<lambda>t. 4440 < t \<and> t < 4560, nextTransition = \<lambda>t. if t < 4500 then 4500 else t\<rparr>"

lemma sample_reader_ok: "valid_reader sample_reader" "calendar_laws sample_reader"
proof -
  show "valid_reader sample_reader" by (simp add: valid_reader_def sample_reader_def)
  have "t < 4500" if "c < 4500" "t < (c + 45 - 1) div 45 * 45" for c t :: int
  proof -
    have "(c + 45 - 1) div 45 \<le> (100 :: int)" using that(1) by (subst ceil_le_iff) simp_all
    then show ?thesis using that(2) by linarith
  qed
  then show "calendar_laws sample_reader"
    by (auto simp: calendar_laws_def sample_reader_def Let_def split: if_splits)
qed

lemma sample_next: "next_valid_batch_id sample_reader 100 10 = Batch (window_of 135 45 0 10)"
  by code_simp

theorem next_batch_valid_witness: "is_valid_batch_id sample_reader 135 \<and> (100 :: int) < 135"
  using next_batch_valid [OF sample_reader_ok(1) _ sample_next] by (simp add: window_of_def)

theorem next_batch_least_witness: "\<not> is_valid_batch_id sample_reader 134"
  using next_batch_least [OF sample_reader_ok _ sample_next, of 134] by (simp add: window_of_def)

theorem next_batch_found_witness:
  "next_valid_batch_id sample_reader 100 10 = Batch (window_of 135 45 0 10)"
proof -
  have "next_valid_batch_id sample_reader 100 10 = Batch (window_of 135 45 (sessionAt sample_reader 135) 10)"
  proof (rule next_batch_found [OF sample_reader_ok(1)])
    show "is_valid_batch_id sample_reader 135" by code_simp
    show "\<forall>t. 100 < t \<and> t < 135 \<longrightarrow> \<not> is_valid_batch_id sample_reader t"
      using search_least_id [OF sample_reader_ok, of 101 64 10 "window_of 135 45 0 10"] sample_next
      by (simp add: next_valid_batch_id_def MAX_STEPS_def window_of_def)
  qed (auto simp: sample_reader_def)
  then show ?thesis by (simp add: sample_reader_def)
qed

theorem solvable_batch_open_witness:
  "\<exists>b. solvable_batch_id sample_reader 140 10 = Batch b \<and> batchId b = 135"
proof -
  have "is_valid_batch_id sample_reader 135" by code_simp
  then show ?thesis
    using solvable_batch_open [OF sample_reader_ok(1), of 140 10 45 135] by (simp add: sample_reader_def)
qed

end
