(* ===== verification/Mempool.thy ===== *)
theory Mempool
  imports Screen BatchId
begin

text \<open>
  api/src/mempool.ts: the coordinator's memory of intents. The maps keep JavaScript's insertion
  order. \<^verbatim>\<open>STATUS_RETENTION\<close> comes from the environment and is the parameter \<open>retention\<close>. A key the
  code joins from an owner and a nonce is a pair here; the owner part holds no colon.
\<close>

definition SOLUTION_WINDOW :: int where "SOLUTION_WINDOW = 10"
definition FINALIZE_DEADLINE :: int where "FINALIZE_DEADLINE = 300"

datatype intent_status = Pending | Batched | Settled | Partially_settled | Expired | Rejected | Cancelled

record stored_intent =
  st_batch :: int
  st_signed :: signed_intent
  st_status :: intent_status
  st_rejection :: "api_error option"

text \<open>A frozen feed is a promise: still building, named by the build that will settle it, or the list.\<close>

datatype feed = Building nat | Ready "signed_intent list"

record mempool =
  byBatch :: "(int \<times> signed_intent list) list"
  byHash :: "(string \<times> stored_intent) list"
  frozenFeeds :: "(int \<times> feed) list"
  withdrawnByBatch :: "(int \<times> withdrawal list) list"
  byOwnerNonce :: "((string \<times> int) \<times> string \<times> int) list"

definition empty_pool :: mempool where
  "empty_pool = \<lparr>byBatch = [], byHash = [], frozenFeeds = [], withdrawnByBatch = [], byOwnerNonce = []\<rparr>"

definition owner_nonce_key :: "address \<Rightarrow> int \<Rightarrow> string \<times> int" where
  "owner_nonce_key owner nonce = (lower owner, nonce)"

abbreviation key_of :: "signed_intent \<Rightarrow> string \<times> int" where
  "key_of s \<equiv> owner_nonce_key (g_owner s) (i_nonce (g_intent s))"

definition closed :: "int \<Rightarrow> int \<Rightarrow> bool" where
  "closed time bid \<longleftrightarrow> \<not> time \<le> bid + SOLUTION_WINDOW + FINALIZE_DEADLINE"

definition expire_one :: "(string \<times> stored_intent) list \<Rightarrow> signed_intent \<Rightarrow> (string \<times> stored_intent) list" where
  "expire_one hashes s =
     (case map_of hashes (g_hash s) of
        None \<Rightarrow> hashes
      | Some x \<Rightarrow> if st_status x = Pending then AList.update (g_hash s) (x\<lparr>st_status := Expired\<rparr>) hashes else hashes)"

definition sweep_batch :: "int \<Rightarrow> mempool \<Rightarrow> int \<times> signed_intent list \<Rightarrow> mempool" where
  "sweep_batch time st entry =
     (case entry of (bid, xs) \<Rightarrow>
        if \<not> closed time bid then st
        else st\<lparr>byBatch := AList.delete bid (byBatch st),
                frozenFeeds := AList.delete bid (frozenFeeds st),
                withdrawnByBatch := AList.delete bid (withdrawnByBatch st),
                byHash := foldl expire_one (byHash st) xs\<rparr>)"

definition sweep :: "int \<Rightarrow> int \<Rightarrow> mempool \<Rightarrow> mempool" where
  "sweep retention time st =
     (let st = foldl (sweep_batch time) st (byBatch st);
          st = st\<lparr>byOwnerNonce := filter (\<lambda>(k, h, validUntil). \<not> time > validUntil) (byOwnerNonce st)\<rparr>
      in st\<lparr>byHash := filter (\<lambda>(h, x). \<not> time > st_batch x + SOLUTION_WINDOW + FINALIZE_DEADLINE + retention) (byHash st)\<rparr>)"

definition remembered :: "mempool \<Rightarrow> nat" where
  "remembered st = length (byHash st)"

definition held_nonces :: "mempool \<Rightarrow> address \<Rightarrow> int set" where
  "held_nonces st owner = set (map (\<lambda>((p, n), _). n) (filter (\<lambda>((p, n), _). p = lower owner) (byOwnerNonce st)))"

definition admit :: "string \<Rightarrow> signed_intent \<Rightarrow> int \<Rightarrow> mempool \<Rightarrow> api_error + mempool" where
  "admit h signed bid st =
     (if map_of (byHash st) h \<noteq> None then Inl ''COORDINATOR_DUPLICATE_INTENT''
      else if map_of (byOwnerNonce st) (key_of signed) \<noteq> None then Inl ''COORDINATOR_DUPLICATE_INTENT''
      else Inr (st\<lparr>
        byOwnerNonce := AList.update (key_of signed) (h, i_validUntil (g_intent signed)) (byOwnerNonce st),
        byHash := AList.update h \<lparr>st_batch = bid, st_signed = signed, st_status = Pending, st_rejection = None\<rparr> (byHash st),
        byBatch := AList.update bid
          (case map_of (byBatch st) bid of None \<Rightarrow> [signed] | Some xs \<Rightarrow> xs @ [signed]) (byBatch st)\<rparr>))"

definition splice_out :: "('a \<Rightarrow> bool) \<Rightarrow> 'a list \<Rightarrow> 'a list" where
  "splice_out P xs = (case find_index P xs of None \<Rightarrow> xs | Some i \<Rightarrow> take i xs @ drop (Suc i) xs)"

definition withdraw :: "string \<Rightarrow> api_error \<Rightarrow> mempool \<Rightarrow> mempool" where
  "withdraw h rejection st =
     (case map_of (byHash st) h of
        None \<Rightarrow> st
      | Some x \<Rightarrow>
          if st_status x \<noteq> Pending then st
          else st\<lparr>
            byHash := AList.update h (x\<lparr>st_status := Rejected, st_rejection := Some rejection\<rparr>) (byHash st),
            byBatch := (case map_of (byBatch st) (st_batch x) of
                None \<Rightarrow> byBatch st
              | Some xs \<Rightarrow> AList.update (st_batch x) (splice_out (\<lambda>s. g_hash s = h) xs) (byBatch st)),
            withdrawnByBatch := AList.update (st_batch x)
              ((case map_of (withdrawnByBatch st) (st_batch x) of None \<Rightarrow> [] | Some ws \<Rightarrow> ws)
                @ [\<lparr>wd_hash = g_hash (st_signed x), wd_owner = g_owner (st_signed x), wd_rejection = rejection\<rparr>])
              (withdrawnByBatch st),
            byOwnerNonce := (case map_of (byOwnerNonce st) (key_of (st_signed x)) of
                None \<Rightarrow> byOwnerNonce st
              | Some (h', _) \<Rightarrow> if h' = h then AList.delete (key_of (st_signed x)) (byOwnerNonce st) else byOwnerNonce st)\<rparr>)"

definition is_pending :: "mempool \<Rightarrow> signed_intent \<Rightarrow> bool" where
  "is_pending st s = (case map_of (byHash st) (g_hash s) of None \<Rightarrow> False | Some x \<Rightarrow> st_status x = Pending)"

definition committed :: "mempool \<Rightarrow> address \<Rightarrow> address \<Rightarrow> (signed_intent \<times> int) list" where
  "committed st owner sellToken =
     concat (map (\<lambda>(bid, xs). map (\<lambda>s. (s, bid))
       (filter (\<lambda>s. lower (g_owner s) = lower owner \<and> lower (g_sellToken s) = lower sellToken \<and> is_pending st s) xs))
       (byBatch st))"

definition withdrawn_from :: "mempool \<Rightarrow> int \<Rightarrow> withdrawal list" where
  "withdrawn_from st bid = (case map_of (withdrawnByBatch st) bid of None \<Rightarrow> [] | Some ws \<Rightarrow> ws)"

definition get_by_hash :: "mempool \<Rightarrow> string \<Rightarrow> stored_intent option" where
  "get_by_hash st h = map_of (byHash st) h"

definition get_by_batch :: "mempool \<Rightarrow> int \<Rightarrow> signed_intent list" where
  "get_by_batch st bid = (case map_of (byBatch st) bid of None \<Rightarrow> [] | Some xs \<Rightarrow> xs)"

definition counts :: "mempool \<Rightarrow> int \<Rightarrow> nat \<times> nat" where
  "counts st bid =
     (let xs = get_by_batch st bid in (length xs, card (set (map (\<lambda>s. lower (g_owner s)) xs))))"

text \<open>
  \<^verbatim>\<open>frozenFeed\<close>, split where it waits: asking, which starts a build when there is no feed, and the
  build settling. A failed build deletes whatever feed the batch has by then.
\<close>

definition ask_feed :: "nat \<Rightarrow> int \<Rightarrow> mempool \<Rightarrow> feed \<times> mempool" where
  "ask_feed build bid st =
     (case map_of (frozenFeeds st) bid of
        Some f \<Rightarrow> (f, st)
      | None \<Rightarrow> (Building build, st\<lparr>frozenFeeds := AList.update bid (Building build) (frozenFeeds st)\<rparr>))"

definition settle_feed :: "nat \<Rightarrow> int \<Rightarrow> signed_intent list option \<Rightarrow> mempool \<Rightarrow> mempool" where
  "settle_feed build bid result st =
     (case result of
        None \<Rightarrow> st\<lparr>frozenFeeds := AList.delete bid (frozenFeeds st)\<rparr>
      | Some xs \<Rightarrow> if map_of (frozenFeeds st) bid = Some (Building build)
                   then st\<lparr>frozenFeeds := AList.update bid (Ready xs) (frozenFeeds st)\<rparr> else st)"

section \<open>The calendar the mempool opens windows against\<close>

type_synonym spans = "(int \<times> int) list"

definition remember_next :: "(int \<Rightarrow> int) \<Rightarrow> spans \<Rightarrow> int \<Rightarrow> int \<times> spans" where
  "remember_next base spans start =
     (case find (\<lambda>(a, b). start \<ge> a \<and> start < b) spans of
        Some (a, b) \<Rightarrow> (b, spans)
      | None \<Rightarrow>
          let to = base start
          in if to > start then (to, (if length spans \<ge> 64 then tl spans else spans) @ [(start, to)]) else (to, spans))"

text \<open>The bounded walk over the transitions before the batch found.\<close>

fun auction_before :: "nat \<Rightarrow> chain_reader \<Rightarrow> int \<Rightarrow> int \<Rightarrow> bool" where
  "auction_before 0 reader t batch = False"
| "auction_before (Suc n) reader t batch =
     (let next = nextTransition reader t
      in if next \<le> t \<or> next \<ge> batch then False
         else if batchDuration reader (sessionAt reader next) = NO_ORDINARY_BATCH then True
         else auction_before n reader next batch)"

definition open_lookup :: "chain_reader \<Rightarrow> int \<Rightarrow> batch_lookup" where
  "open_lookup reader time =
     (let auction = No_batch Auction_phase None
      in if batchDuration reader (sessionAt reader time) = NO_ORDINARY_BATCH then auction
         else case next_valid_batch_id reader time DEFAULT_SOLUTION_WINDOW of
                Batch w \<Rightarrow> if auction_before 4 reader time (batchId w) then auction else Batch w
              | No_batch r t \<Rightarrow> No_batch r t)"

definition open_window :: "int \<Rightarrow> chain_reader \<Rightarrow> int \<Rightarrow> mempool \<Rightarrow> batch_lookup \<times> mempool" where
  "open_window retention reader time st = (open_lookup reader time, sweep retention time st)"

section \<open>What a sweep leaves\<close>

lemma expire_fold:
  "map_of (foldl expire_one hashes xs) h = (case map_of hashes h of None \<Rightarrow> None
     | Some x \<Rightarrow> Some (if st_status x = Pending \<and> h \<in> g_hash ` set xs then x\<lparr>st_status := Expired\<rparr> else x))"
proof (induction xs arbitrary: hashes)
  case (Cons s xs)
  have "map_of (expire_one hashes s) h = (case map_of hashes h of None \<Rightarrow> None
     | Some x \<Rightarrow> Some (if st_status x = Pending \<and> h = g_hash s then x\<lparr>st_status := Expired\<rparr> else x))"
    by (auto simp: expire_one_def split: option.splits)
  then show ?case using Cons.IH [of "expire_one hashes s"] by (auto split: option.splits)
qed (auto split: option.splits)

lemma expire_keys: "distinct (map fst hashes) \<Longrightarrow> distinct (map fst (foldl expire_one hashes xs))"
proof (induction xs arbitrary: hashes)
  case (Cons s xs)
  have "distinct (map fst (expire_one hashes s))"
    using Cons.prems by (auto simp: expire_one_def distinct_update split: option.splits)
  then show ?case using Cons.IH by simp
qed simp

lemma sweep_batch_byHash:
  "map_of (byHash (sweep_batch time st (b, xs))) h = (case map_of (byHash st) h of None \<Rightarrow> None
      | Some x \<Rightarrow> Some (if st_status x = Pending \<and> closed time b \<and> h \<in> g_hash ` set xs
          then x\<lparr>st_status := Expired\<rparr> else x))"
  by (auto simp: sweep_batch_def expire_fold split: option.splits)

lemma sweep_batches:
  shows "map_of (byBatch (foldl (sweep_batch time) st es)) b = (if closed time b \<and> b \<in> fst ` set es then None else map_of (byBatch st) b)"
    "map_of (frozenFeeds (foldl (sweep_batch time) st es)) b = (if closed time b \<and> b \<in> fst ` set es then None else map_of (frozenFeeds st) b)"
    "byOwnerNonce (foldl (sweep_batch time) st es) = byOwnerNonce st"
    "map_of (byHash (foldl (sweep_batch time) st es)) h = (case map_of (byHash st) h of None \<Rightarrow> None
      | Some x \<Rightarrow> Some (if st_status x = Pending \<and> (\<exists>(b, xs)\<in>set es. closed time b \<and> h \<in> g_hash ` set xs)
          then x\<lparr>st_status := Expired\<rparr> else x))"
    "distinct (map fst (byBatch st)) \<Longrightarrow> distinct (map fst (byBatch (foldl (sweep_batch time) st es)))"
    "distinct (map fst (byHash st)) \<Longrightarrow> distinct (map fst (byHash (foldl (sweep_batch time) st es)))"
proof (induction es arbitrary: st)
  case (Cons e es)
  obtain b' xs where e: "e = (b', xs)" by fastforce
  { case 1 show ?case using Cons(1) by (auto simp: e sweep_batch_def delete_conv) }
  { case 2 show ?case using Cons(2) by (auto simp: e sweep_batch_def delete_conv) }
  { case 3 show ?case using Cons(3) by (auto simp: e sweep_batch_def) }
  { case 4 show ?case using Cons(4) [of "sweep_batch time st e"]
      by (auto simp: e sweep_batch_byHash split: option.splits) }
  { case 5 then show ?case using Cons(5) by (auto simp: e sweep_batch_def distinct_delete) }
  { case 6 then show ?case using Cons(6) by (auto simp: e sweep_batch_def expire_keys) }
qed (auto split: option.splits)

lemma closed_mono: "closed t b \<Longrightarrow> t \<le> t' \<Longrightarrow> closed t' b"
  by (simp add: closed_def)

lemma map_of_in_keys: "map_of m k = Some v \<Longrightarrow> k \<in> fst ` set m"
  by (drule map_of_SomeD) force

lemma sweep_byBatch: "map_of (byBatch (sweep r time st)) b = (if closed time b then None else map_of (byBatch st) b)"
proof -
  have "map_of (byBatch st) b = None" if "b \<notin> fst ` set (byBatch st)"
    using that by (simp add: map_of_eq_None_iff)
  then show ?thesis by (auto simp: sweep_def Let_def sweep_batches(1))
qed

lemma sweep_frozen:
  "map_of (frozenFeeds (sweep r time st)) b =
     (if closed time b \<and> b \<in> fst ` set (byBatch st) then None else map_of (frozenFeeds st) b)"
  by (simp add: sweep_def Let_def sweep_batches(2))

lemma sweep_nonces:
  "distinct (map fst (byOwnerNonce st)) \<Longrightarrow>
   map_of (byOwnerNonce (sweep r time st)) k =
     (case map_of (byOwnerNonce st) k of None \<Rightarrow> None | Some (h, v) \<Rightarrow> if time > v then None else Some (h, v))"
  by (auto simp: sweep_def Let_def sweep_batches(3) map_of_filter_key split: option.splits)

lemma sweep_byHash:
  assumes "distinct (map fst (byHash st))"
  shows "map_of (byHash (sweep r time st)) h = (case map_of (byHash st) h of None \<Rightarrow> None
    | Some x \<Rightarrow> if time > st_batch x + 310 + r then None
        else Some (if st_status x = Pending \<and> (\<exists>(b, xs)\<in>set (byBatch st). closed time b \<and> h \<in> g_hash ` set xs)
          then x\<lparr>st_status := Expired\<rparr> else x))"
  using sweep_batches(6) [OF assms]
  by (auto simp: sweep_def Let_def map_of_filter_key sweep_batches(4) SOLUTION_WINDOW_def FINALIZE_DEADLINE_def
      split: option.splits)

section \<open>The mempool as it runs\<close>

text \<open>
  The module is one shared object that the routes and the lifecycle call in any order. A run
  carries the latest time it was swept at and the builds still in flight.
\<close>

record machine =
  pm_pool :: mempool
  pm_clock :: int
  pm_builds :: "(int \<times> nat) set"
  pm_fresh :: nat

definition started :: "int \<Rightarrow> machine" where
  "started time = \<lparr>pm_pool = empty_pool, pm_clock = time, pm_builds = {}, pm_fresh = 0\<rparr>"

inductive pool_step :: "int \<Rightarrow> machine \<Rightarrow> machine \<Rightarrow> bool" for retention where
  Admit: "admit (g_hash s) s b (pm_pool m) = Inr p \<Longrightarrow> pool_step retention m (m\<lparr>pm_pool := p\<rparr>)"
| Withdraw: "pool_step retention m (m\<lparr>pm_pool := withdraw h rejection (pm_pool m)\<rparr>)"
| Sweep: "pool_step retention m (m\<lparr>pm_pool := sweep retention time (pm_pool m), pm_clock := max (pm_clock m) time\<rparr>)"
| Ask: "ask_feed (pm_fresh m) b (pm_pool m) = (f, p) \<Longrightarrow>
    pool_step retention m (m\<lparr>pm_pool := p, pm_fresh := Suc (pm_fresh m),
      pm_builds := (if map_of (frozenFeeds (pm_pool m)) b = None then insert (b, pm_fresh m) (pm_builds m) else pm_builds m)\<rparr>)"
| Settle: "(b, n) \<in> pm_builds m \<Longrightarrow>
    pool_step retention m (m\<lparr>pm_pool := settle_feed n b result (pm_pool m), pm_builds := pm_builds m - {(b, n)}\<rparr>)"

inductive_cases pool_stepE: "pool_step r m m'"

inductive pool_reachable :: "int \<Rightarrow> machine \<Rightarrow> bool" for retention where
  Start: "pool_reachable retention (started time)"
| Step: "pool_reachable retention m \<Longrightarrow> pool_step retention m m' \<Longrightarrow> pool_reachable retention m'"

text \<open>The lists of the batches and the index by hash agree, and a pending intent holds its nonce.\<close>

definition keys_distinct :: "mempool \<Rightarrow> bool" where
  "keys_distinct p \<longleftrightarrow> distinct (map fst (byBatch p)) \<and> distinct (map fst (byHash p)) \<and> distinct (map fst (byOwnerNonce p))"

definition listed_pending :: "mempool \<Rightarrow> bool" where
  "listed_pending p \<longleftrightarrow> (\<forall>b xs. map_of (byBatch p) b = Some xs \<longrightarrow> distinct (map g_hash xs) \<and>
     (\<forall>s\<in>set xs. map_of (byHash p) (g_hash s) = Some \<lparr>st_batch = b, st_signed = s, st_status = Pending, st_rejection = None\<rparr>))"

definition pending_listed :: "mempool \<Rightarrow> bool" where
  "pending_listed p \<longleftrightarrow> (\<forall>h x. map_of (byHash p) h = Some x \<longrightarrow> g_hash (st_signed x) = h \<and>
     (st_status x = Pending \<longrightarrow> (\<exists>xs. map_of (byBatch p) (st_batch x) = Some xs \<and> st_signed x \<in> set xs)))"

definition pending_holds :: "int \<Rightarrow> mempool \<Rightarrow> bool" where
  "pending_holds time p \<longleftrightarrow> (\<forall>h x. map_of (byHash p) h = Some x \<longrightarrow> st_status x = Pending \<longrightarrow>
     map_of (byOwnerNonce p) (key_of (st_signed x)) = Some (h, i_validUntil (g_intent (st_signed x))) \<or>
     i_validUntil (g_intent (st_signed x)) < time)"

definition builds_own :: "machine \<Rightarrow> bool" where
  "builds_own m \<longleftrightarrow> (\<forall>(b, n)\<in>pm_builds m. map_of (frozenFeeds (pm_pool m)) b = Some (Building n) \<or> closed (pm_clock m) b)"

definition pool_ok :: "machine \<Rightarrow> bool" where
  "pool_ok m \<longleftrightarrow> keys_distinct (pm_pool m) \<and> listed_pending (pm_pool m) \<and> pending_listed (pm_pool m)
     \<and> pending_holds (pm_clock m) (pm_pool m) \<and> builds_own m"

lemma pool_ok_started: "pool_ok (started time)"
  by (simp add: pool_ok_def started_def empty_pool_def keys_distinct_def listed_pending_def pending_listed_def
      pending_holds_def builds_own_def)

section \<open>Every step keeps the invariant\<close>

lemma keys_admit: "admit h s b p = Inr p' \<Longrightarrow> keys_distinct p \<Longrightarrow> keys_distinct p'"
  by (auto simp: admit_def keys_distinct_def store_laws split: if_splits)

lemma keys_withdraw: "keys_distinct p \<Longrightarrow> keys_distinct (withdraw h r p)"
  by (auto simp: withdraw_def keys_distinct_def store_laws split: option.splits)

lemma keys_sweep: "keys_distinct p \<Longrightarrow> keys_distinct (sweep r time p)"
  by (auto simp: sweep_def Let_def keys_distinct_def sweep_batches(3,5,6) store_laws)

lemmas keys_steps = keys_admit keys_withdraw keys_sweep

lemma admit_reads:
  assumes "admit h s b p = Inr p'"
  shows "map_of (byHash p) h = None" "map_of (byOwnerNonce p) (key_of s) = None"
    "map_of (byHash p') = (map_of (byHash p))(h \<mapsto> \<lparr>st_batch = b, st_signed = s, st_status = Pending, st_rejection = None\<rparr>)"
    "map_of (byOwnerNonce p') = (map_of (byOwnerNonce p))(key_of s \<mapsto> (h, i_validUntil (g_intent s)))"
    "map_of (byBatch p') = (map_of (byBatch p))(b \<mapsto> get_by_batch p b @ [s])"
    "frozenFeeds p' = frozenFeeds p"
  using assms by (auto simp: admit_def get_by_batch_def not_Some_eq [symmetric] simp del: not_Some_eq split: if_splits option.splits)

lemma listed_pendingD:
  assumes "listed_pending p" and "map_of (byBatch p) b = Some xs"
  shows "distinct (map g_hash xs)"
    "s \<in> set xs \<Longrightarrow> map_of (byHash p) (g_hash s) = Some \<lparr>st_batch = b, st_signed = s, st_status = Pending, st_rejection = None\<rparr>"
  using assms by (auto simp: listed_pending_def)

lemma pending_listedD:
  assumes "pending_listed p" and "map_of (byHash p) h = Some x"
  shows "g_hash (st_signed x) = h"
    "st_status x = Pending \<Longrightarrow> \<exists>xs. map_of (byBatch p) (st_batch x) = Some xs \<and> st_signed x \<in> set xs"
  using assms by (auto simp: pending_listed_def)

lemma get_by_batch_listed:
  assumes "listed_pending p"
  shows "distinct (map g_hash (get_by_batch p b))"
    "s \<in> set (get_by_batch p b) \<Longrightarrow>
       map_of (byHash p) (g_hash s) = Some \<lparr>st_batch = b, st_signed = s, st_status = Pending, st_rejection = None\<rparr>"
  by (cases "map_of (byBatch p) b"; use listed_pendingD [OF assms] in \<open>force simp: get_by_batch_def\<close>)+

lemma listed_admit:
  assumes adm: "admit (g_hash s) s b p = Inr p'" and lp: "listed_pending p"
  shows "listed_pending p'"
proof -
  note rd = admit_reads [OF adm]
  have other: "g_hash s' \<noteq> g_hash s" if "s' \<in> set (get_by_batch p c)" for s' c
    using get_by_batch_listed(2) [OF lp that] rd(1) by auto
  have old: "get_by_batch p c = xs" if "map_of (byBatch p) c = Some xs" for c xs
    using that by (simp add: get_by_batch_def)
  show ?thesis
    unfolding listed_pending_def
  proof (intro allI impI conjI ballI)
    fix c xs s' assume xs: "map_of (byBatch p') c = Some xs"
    then consider "c = b" "xs = get_by_batch p b @ [s]" | "xs = get_by_batch p c" "c \<noteq> b"
      using rd(5) old by (auto split: if_splits)
    note xs_cases = this
    show "distinct (map g_hash xs)"
      using xs_cases by cases (use get_by_batch_listed(1) [OF lp] other in \<open>auto simp: image_iff eq_commute\<close>)
    show "map_of (byHash p') (g_hash s') = Some \<lparr>st_batch = c, st_signed = s', st_status = Pending, st_rejection = None\<rparr>"
      if "s' \<in> set xs"
      using xs_cases by cases (use that get_by_batch_listed(2) [OF lp] other rd(3) in auto)
  qed
qed

lemma pending_listed_admit:
  assumes adm: "admit (g_hash s) s b p = Inr p'" and pl: "pending_listed p"
  shows "pending_listed p'"
proof -
  note rd = admit_reads [OF adm]
  have kept: "\<exists>xs. map_of (byBatch p') c = Some xs \<and> s' \<in> set xs"
    if "map_of (byBatch p) c = Some ys" "s' \<in> set ys" for c ys s'
    using that by (auto simp: rd(5) get_by_batch_def)
  show ?thesis
    unfolding pending_listed_def
  proof (intro allI impI conjI)
    fix h x assume x: "map_of (byHash p') h = Some x"
    show "g_hash (st_signed x) = h"
      using x pending_listedD(1) [OF pl] by (auto simp: rd(3) split: if_splits)
    show "\<exists>xs. map_of (byBatch p') (st_batch x) = Some xs \<and> st_signed x \<in> set xs" if "st_status x = Pending"
    proof (cases "h = g_hash s")
      case True
      then show ?thesis using x by (auto simp: rd(3,5))
    next
      case False
      then have "map_of (byHash p) h = Some x" using x by (simp add: rd(3))
      then show ?thesis using pending_listedD(2) [OF pl _ that] kept by blast
    qed
  qed
qed

lemma holds_admit:
  assumes adm: "admit (g_hash s) s b p = Inr p'" and ph: "pending_holds t p"
  shows "pending_holds t p'"
proof -
  note rd = admit_reads [OF adm]
  show ?thesis
    unfolding pending_holds_def
  proof (intro allI impI)
    fix h x assume x: "map_of (byHash p') h = Some x" "st_status x = Pending"
    show "map_of (byOwnerNonce p') (key_of (st_signed x)) = Some (h, i_validUntil (g_intent (st_signed x))) \<or>
      i_validUntil (g_intent (st_signed x)) < t"
    proof (cases "h = g_hash s")
      case False
      then have "map_of (byHash p) h = Some x" using x rd(3) by simp
      then have "map_of (byOwnerNonce p) (key_of (st_signed x)) = Some (h, i_validUntil (g_intent (st_signed x))) \<or>
        i_validUntil (g_intent (st_signed x)) < t"
        using ph x(2) unfolding pending_holds_def by blast
      then show ?thesis using rd(2,4) by auto
    qed (use x rd(3,4) in auto)
  qed
qed

lemma splice_out_distinct:
  "distinct (map f xs) \<Longrightarrow> splice_out (\<lambda>s. f s = h) xs = filter (\<lambda>s. f s \<noteq> h) xs"
proof (induction xs)
  case (Cons y xs)
  show ?case
  proof (cases "f y = h")
    case True
    then have "filter (\<lambda>s. f s \<noteq> h) xs = xs" using Cons.prems by (auto simp: filter_id_conv) (metis image_eqI)
    then show ?thesis using True by (simp add: splice_out_def)
  next
    case False
    then show ?thesis using Cons by (auto simp: splice_out_def split: option.splits)
  qed
qed (simp add: splice_out_def)

lemma withdraw_idle:
  assumes "\<And>x. map_of (byHash p) h = Some x \<Longrightarrow> st_status x \<noteq> Pending"
  shows "withdraw h r p = p"
  using assms by (auto simp: withdraw_def split: option.splits)

lemma withdraw_reads:
  assumes "map_of (byHash p) h = Some x" "st_status x = Pending"
  shows "map_of (byHash (withdraw h r p)) = (map_of (byHash p))(h \<mapsto> x\<lparr>st_status := Rejected, st_rejection := Some r\<rparr>)"
    "map_of (byBatch (withdraw h r p)) =
       (map_of (byBatch p))(st_batch x := map_option (splice_out (\<lambda>s. g_hash s = h)) (map_of (byBatch p) (st_batch x)))"
    "map_of (byOwnerNonce (withdraw h r p)) k =
       (if k = key_of (st_signed x) \<and> fst ` set_option (map_of (byOwnerNonce p) k) = {h} then None else map_of (byOwnerNonce p) k)"
    "frozenFeeds (withdraw h r p) = frozenFeeds p"
  using assms by (auto simp: withdraw_def fun_eq_iff split: option.splits)

lemma listed_withdraw:
  assumes lp: "listed_pending p"
  shows "listed_pending (withdraw h r p)"
proof (cases "\<exists>x. map_of (byHash p) h = Some x \<and> st_status x = Pending")
  case True
  then obtain x where x: "map_of (byHash p) h = Some x" "st_status x = Pending" by blast
  note rd = withdraw_reads [OF x, of r]
  show ?thesis
    unfolding listed_pending_def
  proof (intro allI impI conjI ballI)
    fix c xs s assume xs: "map_of (byBatch (withdraw h r p)) c = Some xs"
    obtain ys where ys: "map_of (byBatch p) c = Some ys" "xs = ys \<or> xs = filter (\<lambda>s. g_hash s \<noteq> h) ys"
      "c = st_batch x \<Longrightarrow> xs = filter (\<lambda>s. g_hash s \<noteq> h) ys"
      using xs listed_pendingD(1) [OF lp] by (auto simp: rd(2) splice_out_distinct split: if_splits)
    note old = listed_pendingD [OF lp ys(1)]
    show "distinct (map g_hash xs)" using ys(2) old(1) distinct_map_filter by blast
    assume s: "s \<in> set xs"
    then have there: "map_of (byHash p) (g_hash s) = Some \<lparr>st_batch = c, st_signed = s, st_status = Pending, st_rejection = None\<rparr>"
      using ys(2) old(2) by auto
    moreover have "g_hash s \<noteq> h" using there s x(1) ys(3) by auto
    ultimately show "map_of (byHash (withdraw h r p)) (g_hash s) =
      Some \<lparr>st_batch = c, st_signed = s, st_status = Pending, st_rejection = None\<rparr>" by (simp add: rd(1))
  qed
next
  case False
  then show ?thesis using lp withdraw_idle [of p h r] by fastforce
qed

lemma pending_listed_withdraw:
  assumes lp: "listed_pending p" and pl: "pending_listed p"
  shows "pending_listed (withdraw h r p)"
proof (cases "\<exists>x. map_of (byHash p) h = Some x \<and> st_status x = Pending")
  case True
  then obtain x where x: "map_of (byHash p) h = Some x" "st_status x = Pending" by blast
  note rd = withdraw_reads [OF x, of r]
  have kept: "\<exists>xs. map_of (byBatch (withdraw h r p)) c = Some xs \<and> s \<in> set xs"
    if "map_of (byBatch p) c = Some ys" "s \<in> set ys" "g_hash s \<noteq> h" for c ys s
    using that listed_pendingD(1) [OF lp] by (auto simp: rd(2) splice_out_distinct)
  show ?thesis
    unfolding pending_listed_def
  proof (intro allI impI conjI)
    fix h' y assume y: "map_of (byHash (withdraw h r p)) h' = Some y"
    show hash: "g_hash (st_signed y) = h'"
      using y x pending_listedD(1) [OF pl] by (auto simp: rd(1) split: if_splits)
    assume pend: "st_status y = Pending"
    then have "h' \<noteq> h" "map_of (byHash p) h' = Some y" using y by (auto simp: rd(1) split: if_splits)
    then show "\<exists>xs. map_of (byBatch (withdraw h r p)) (st_batch y) = Some xs \<and> st_signed y \<in> set xs"
      using pending_listedD(2) [OF pl _ pend] kept hash by blast
  qed
next
  case False
  then show ?thesis using pl withdraw_idle [of p h r] by fastforce
qed

lemma holds_withdraw:
  assumes ph: "pending_holds t p"
  shows "pending_holds t (withdraw h r p)"
proof (cases "\<exists>x. map_of (byHash p) h = Some x \<and> st_status x = Pending")
  case True
  then obtain x where x: "map_of (byHash p) h = Some x" "st_status x = Pending" by blast
  note rd = withdraw_reads [OF x, of r]
  show ?thesis
    unfolding pending_holds_def
  proof (intro allI impI)
    fix h' y assume y: "map_of (byHash (withdraw h r p)) h' = Some y" "st_status y = Pending"
    then have old: "h' \<noteq> h" "map_of (byHash p) h' = Some y" by (auto simp: rd(1) split: if_splits)
    then have "map_of (byOwnerNonce p) (key_of (st_signed y)) = Some (h', i_validUntil (g_intent (st_signed y))) \<or>
      i_validUntil (g_intent (st_signed y)) < t"
      using ph y(2) unfolding pending_holds_def by blast
    then show "map_of (byOwnerNonce (withdraw h r p)) (key_of (st_signed y)) = Some (h', i_validUntil (g_intent (st_signed y))) \<or>
      i_validUntil (g_intent (st_signed y)) < t" using old(1) by (auto simp: rd(3))
  qed
next
  case False
  then show ?thesis using ph withdraw_idle [of p h r] by fastforce
qed

lemma listed_sweep:
  assumes kd: "keys_distinct p" and lp: "listed_pending p" and r: "0 \<le> r"
  shows "listed_pending (sweep r time p)"
  unfolding listed_pending_def
proof (intro allI impI conjI ballI)
  fix c xs s assume "map_of (byBatch (sweep r time p)) c = Some xs"
  then have c: "\<not> closed time c" "map_of (byBatch p) c = Some xs" by (auto simp: sweep_byBatch split: if_splits)
  note old = listed_pendingD [OF lp c(2)]
  show "distinct (map g_hash xs)" by (rule old(1))
  assume s: "s \<in> set xs"
  have "\<not> closed time b" if "(b, ys) \<in> set (byBatch p)" "g_hash s \<in> g_hash ` set ys" for b ys
  proof -
    have "map_of (byBatch p) b = Some ys" using that(1) kd by (simp add: keys_distinct_def)
    then have "b = c" using that(2) listed_pendingD(2) [OF lp] old(2) [OF s] by fastforce
    then show ?thesis using c(1) by simp
  qed
  then show "map_of (byHash (sweep r time p)) (g_hash s) =
      Some \<lparr>st_batch = c, st_signed = s, st_status = Pending, st_rejection = None\<rparr>"
    using kd old(2) [OF s] c(1) r
    by (auto simp: sweep_byHash keys_distinct_def closed_def SOLUTION_WINDOW_def FINALIZE_DEADLINE_def)
qed

lemma sweep_pending:
  assumes "keys_distinct p" "map_of (byHash (sweep r time p)) h = Some y"
  obtains x where "map_of (byHash p) h = Some x" "st_signed y = st_signed x" "st_batch y = st_batch x"
    "st_status y = Pending \<Longrightarrow> st_status x = Pending \<and>
       (\<forall>b ys. map_of (byBatch p) b = Some ys \<longrightarrow> h \<in> g_hash ` set ys \<longrightarrow> \<not> closed time b)"
proof -
  have kd: "distinct (map fst (byHash p))" "distinct (map fst (byBatch p))"
    using assms(1) by (auto simp: keys_distinct_def)
  obtain x where x: "map_of (byHash p) h = Some x" using assms(2) kd by (auto simp: sweep_byHash split: option.splits)
  have y: "y = (if st_status x = Pending \<and> (\<exists>(b, xs)\<in>set (byBatch p). closed time b \<and> h \<in> g_hash ` set xs)
    then x\<lparr>st_status := Expired\<rparr> else x)"
  proof -
    have eq: "(if A then None else Some z) = Some y \<Longrightarrow> y = z" for A and z :: stored_intent by (simp split: if_splits)
    show ?thesis using assms(2) unfolding sweep_byHash [OF kd(1)] x option.case by (rule eq)
  qed
  show thesis
  proof (rule that [OF x])
    show "st_status y = Pending \<Longrightarrow> st_status x = Pending \<and>
       (\<forall>b ys. map_of (byBatch p) b = Some ys \<longrightarrow> h \<in> g_hash ` set ys \<longrightarrow> \<not> closed time b)"
      using y by (fastforce split: if_splits dest: map_of_SomeD)
  qed (simp_all add: y)
qed

lemma pending_listed_sweep:
  assumes kd: "keys_distinct p" and pl: "pending_listed p"
  shows "pending_listed (sweep r time p)"
  unfolding pending_listed_def
proof (intro allI impI conjI)
  fix h y assume y: "map_of (byHash (sweep r time p)) h = Some y"
  obtain x where x: "map_of (byHash p) h = Some x" "st_signed y = st_signed x" "st_batch y = st_batch x"
    "st_status y = Pending \<Longrightarrow> st_status x = Pending \<and>
       (\<forall>b ys. map_of (byBatch p) b = Some ys \<longrightarrow> h \<in> g_hash ` set ys \<longrightarrow> \<not> closed time b)"
    by (rule sweep_pending [OF kd y]) blast
  show hash: "g_hash (st_signed y) = h" using pending_listedD(1) [OF pl x(1)] x(2) by simp
  assume pend: "st_status y = Pending"
  obtain ys where ys: "map_of (byBatch p) (st_batch x) = Some ys" "st_signed x \<in> set ys"
    using pending_listedD(2) [OF pl x(1)] x(4) [OF pend] by blast
  have "\<not> closed time (st_batch x)" using x(4) [OF pend] ys hash x(2) by (metis imageI)
  then show "\<exists>xs. map_of (byBatch (sweep r time p)) (st_batch y) = Some xs \<and> st_signed y \<in> set xs"
    using ys x(2,3) by (simp add: sweep_byBatch)
qed

lemma holds_sweep:
  assumes kd: "keys_distinct p" and ph: "pending_holds t p"
  shows "pending_holds (max t time) (sweep r time p)"
  unfolding pending_holds_def
proof (intro allI impI)
  fix h y assume y: "map_of (byHash (sweep r time p)) h = Some y" "st_status y = Pending"
  obtain x where x: "map_of (byHash p) h = Some x" "st_signed y = st_signed x" "st_status x = Pending"
    by (rule sweep_pending [OF kd y(1)]) (use y(2) in blast)
  have "map_of (byOwnerNonce p) (key_of (st_signed x)) = Some (h, i_validUntil (g_intent (st_signed x))) \<or>
    i_validUntil (g_intent (st_signed x)) < t"
    using ph x(1,3) unfolding pending_holds_def by blast
  then show "map_of (byOwnerNonce (sweep r time p)) (key_of (st_signed y)) = Some (h, i_validUntil (g_intent (st_signed y))) \<or>
    i_validUntil (g_intent (st_signed y)) < max t time"
    using kd x(2) by (auto simp: sweep_nonces keys_distinct_def)
qed

section \<open>Frozen feeds\<close>

lemma ask_reads:
  assumes "ask_feed n b p = (f, p')"
  shows "byBatch p' = byBatch p" "byHash p' = byHash p" "byOwnerNonce p' = byOwnerNonce p"
    "map_of (frozenFeeds p) c = Some g \<Longrightarrow> map_of (frozenFeeds p') c = Some g"
    "map_of (frozenFeeds p') b = Some f"
    "map_of (frozenFeeds p) b = None \<Longrightarrow> f = Building n"
  using assms by (auto simp: ask_feed_def split: option.splits)

lemma settle_reads:
  "byBatch (settle_feed n b result p) = byBatch p" "byHash (settle_feed n b result p) = byHash p"
  "byOwnerNonce (settle_feed n b result p) = byOwnerNonce p"
  "c \<noteq> b \<Longrightarrow> map_of (frozenFeeds (settle_feed n b result p)) c = map_of (frozenFeeds p) c"
  by (auto simp: settle_feed_def split: option.splits)

lemma withdraw_frozen: "frozenFeeds (withdraw h r p) = frozenFeeds p"
  by (auto simp: withdraw_def split: option.splits)

lemma builds_ownD:
  "builds_own m \<Longrightarrow> (b, n) \<in> pm_builds m \<Longrightarrow> map_of (frozenFeeds (pm_pool m)) b = Some (Building n) \<or> closed (pm_clock m) b"
  by (auto simp: builds_own_def)

lemma builds_step:
  assumes "pool_step r m m'" "builds_own m"
  shows "builds_own m'"
  using assms(1)
proof cases
  case (Admit s b p)
  then show ?thesis using assms(2) by (simp add: builds_own_def admit_reads(6))
next
  case (Withdraw h rejection)
  then show ?thesis using assms(2) by (simp add: builds_own_def withdraw_frozen)
next
  case (Sweep time)
  then show ?thesis using assms(2) closed_mono by (fastforce simp: builds_own_def sweep_frozen max_def)
next
  case (Ask b f p)
  note rd = ask_reads [OF Ask(2)]
  show ?thesis using assms(2) rd(4-6) by (fastforce simp: builds_own_def Ask(1))
next
  case (Settle b n result)
  have "c \<noteq> b \<or> closed (pm_clock m) c" if "(c, k) \<in> pm_builds m" "(c, k) \<noteq> (b, n)" for c k
    using builds_ownD [OF assms(2) that(1)] builds_ownD [OF assms(2) Settle(2)] that(2) by auto
  then have "map_of (frozenFeeds (pm_pool m')) c = Some (Building k) \<or> closed (pm_clock m') c"
    if "(c, k) \<in> pm_builds m'" for c k
    using that builds_ownD [OF assms(2)] settle_reads(4) by (cases "c = b") (auto simp: Settle(1))
  then show ?thesis by (auto simp: builds_own_def)
qed

theorem pool_step_ok:
  assumes step: "pool_step r m m'" and ok: "pool_ok m" and r: "0 \<le> r"
  shows "pool_ok m'"
proof -
  have ok': "keys_distinct (pm_pool m)" "listed_pending (pm_pool m)" "pending_listed (pm_pool m)"
    "pending_holds (pm_clock m) (pm_pool m)" "builds_own m"
    using ok by (auto simp: pool_ok_def)
  have "keys_distinct (pm_pool m') \<and> listed_pending (pm_pool m') \<and> pending_listed (pm_pool m')
    \<and> pending_holds (pm_clock m') (pm_pool m')"
    using step
  proof cases
    case (Admit s b p)
    then show ?thesis using ok' keys_admit listed_admit pending_listed_admit holds_admit by simp
  next
    case (Withdraw h rejection)
    then show ?thesis using ok' keys_withdraw listed_withdraw pending_listed_withdraw holds_withdraw by simp
  next
    case (Sweep time)
    then show ?thesis using ok' r keys_sweep listed_sweep pending_listed_sweep holds_sweep by simp
  next
    case (Ask b f p)
    then show ?thesis using ok' ask_reads(1-3) [OF Ask(2)]
      by (simp add: keys_distinct_def listed_pending_def pending_listed_def pending_holds_def)
  next
    case (Settle b n result)
    then show ?thesis using ok'
      by (simp add: keys_distinct_def listed_pending_def pending_listed_def pending_holds_def settle_reads)
  qed
  then show ?thesis using builds_step [OF step ok'(5)] by (simp add: pool_ok_def)
qed

lemma reachable_ok: "pool_reachable r m \<Longrightarrow> 0 \<le> r \<Longrightarrow> pool_ok m"
  by (induction rule: pool_reachable.induct) (auto intro: pool_ok_started pool_step_ok)

section \<open>What the mempool promises\<close>

text \<open>
  The list the solver feed serves for a batch is exactly the pending intents accepted into it:
  an intent is in the list if and only if the index by hash holds it, pending, for that batch. A
  withdrawn, expired or forgotten intent is in no list.
\<close>

theorem batch_lists_pending:
  assumes "pool_reachable retention m" and "0 \<le> retention"
  shows "s \<in> set (get_by_batch (pm_pool m) b) \<longleftrightarrow>
    (\<exists>x. get_by_hash (pm_pool m) (g_hash s) = Some x \<and> st_status x = Pending \<and> st_batch x = b \<and> st_signed x = s)"
proof -
  have ok: "listed_pending (pm_pool m)" "pending_listed (pm_pool m)"
    using reachable_ok [OF assms] by (auto simp: pool_ok_def)
  show ?thesis
    using get_by_batch_listed(2) [OF ok(1)] pending_listedD(2) [OF ok(2)]
    by (fastforce simp: get_by_hash_def get_by_batch_def)
qed

text \<open>
  Two pending intents never share a Permit2 nonce of one owner, compared without case, as long
  as neither is past its own validUntil at the last sweep: the second of them could not settle.
\<close>

theorem one_pending_per_nonce:
  assumes "pool_reachable retention m" and "0 \<le> retention"
    and "get_by_hash (pm_pool m) h = Some x" and "get_by_hash (pm_pool m) h' = Some x'"
    and "st_status x = Pending" and "st_status x' = Pending"
    and "key_of (st_signed x) = key_of (st_signed x')"
    and "pm_clock m \<le> i_validUntil (g_intent (st_signed x))" and "pm_clock m \<le> i_validUntil (g_intent (st_signed x'))"
  shows "h = h'"
proof -
  have "pending_holds (pm_clock m) (pm_pool m)" using reachable_ok [OF assms(1,2)] by (simp add: pool_ok_def)
  then have "map_of (byOwnerNonce (pm_pool m)) (key_of (st_signed x)) = Some (h, i_validUntil (g_intent (st_signed x)))"
    "map_of (byOwnerNonce (pm_pool m)) (key_of (st_signed x')) = Some (h', i_validUntil (g_intent (st_signed x')))"
    using assms(3-6,8,9) unfolding pending_holds_def get_by_hash_def by force+
  then show ?thesis using assms(7) by simp
qed

lemma committed_pairs:
  "(s, b) \<in> set (committed p owner token) \<longleftrightarrow>
     (\<exists>xs. (b, xs) \<in> set (byBatch p) \<and> s \<in> set xs) \<and> same (g_owner s) owner \<and> same (g_sellToken s) token \<and> is_pending p s"
  by (auto simp: committed_def same_def)

lemma distinct_concat_keyed:
  "distinct (map fst m) \<Longrightarrow> \<forall>(b, xs)\<in>set m. distinct xs \<Longrightarrow>
   distinct (concat (map (\<lambda>(b, xs). map (\<lambda>s. (s, b)) (filter P xs)) m))"
  by (induction m) (auto simp: distinct_map inj_on_def image_iff)

lemma committed_set:
  assumes "pool_reachable retention m" and "0 \<le> retention"
  shows "set (committed (pm_pool m) owner token) =
      {(st_signed x, st_batch x) |x h. get_by_hash (pm_pool m) h = Some x \<and> st_status x = Pending
        \<and> same (g_owner (st_signed x)) owner \<and> same (g_sellToken (st_signed x)) token}
    \<and> distinct (committed (pm_pool m) owner token)"
proof -
  let ?p = "pm_pool m"
  have ok: "listed_pending ?p" "pending_listed ?p" "distinct (map fst (byBatch ?p))"
    using reachable_ok [OF assms] by (auto simp: pool_ok_def keys_distinct_def)
  have entry: "(b, xs) \<in> set (byBatch ?p) \<longleftrightarrow> map_of (byBatch ?p) b = Some xs" for b xs
    using ok(3) by simp
  have "(s, b) \<in> set (committed ?p owner token) \<longleftrightarrow>
      (\<exists>x h. s = st_signed x \<and> b = st_batch x \<and> get_by_hash ?p h = Some x \<and> st_status x = Pending
        \<and> same (g_owner (st_signed x)) owner \<and> same (g_sellToken (st_signed x)) token)" for s b
  proof
    assume "(s, b) \<in> set (committed ?p owner token)"
    then obtain xs where xs: "map_of (byBatch ?p) b = Some xs" "s \<in> set xs" "same (g_owner s) owner" "same (g_sellToken s) token"
      by (auto simp: committed_pairs entry)
    then show "\<exists>x h. s = st_signed x \<and> b = st_batch x \<and> get_by_hash ?p h = Some x \<and> st_status x = Pending
        \<and> same (g_owner (st_signed x)) owner \<and> same (g_sellToken (st_signed x)) token"
      using listed_pendingD(2) [OF ok(1) xs(1,2)] unfolding get_by_hash_def by force
  next
    assume "\<exists>x h. s = st_signed x \<and> b = st_batch x \<and> get_by_hash ?p h = Some x \<and> st_status x = Pending
        \<and> same (g_owner (st_signed x)) owner \<and> same (g_sellToken (st_signed x)) token"
    then obtain x h where x: "s = st_signed x" "b = st_batch x" "map_of (byHash ?p) h = Some x" "st_status x = Pending"
      "same (g_owner s) owner" "same (g_sellToken s) token" by (auto simp: get_by_hash_def)
    then show "(s, b) \<in> set (committed ?p owner token)"
      using pending_listedD [OF ok(2) x(3)] by (auto simp: committed_pairs entry is_pending_def)
  qed
  moreover have "distinct (committed ?p owner token)"
    unfolding committed_def
    by (rule distinct_concat_keyed [OF ok(3)]) (use listed_pendingD(1) [OF ok(1)] in \<open>auto simp: entry distinct_map\<close>)
  ultimately show ?thesis by auto
qed

text \<open>
  What \<^verbatim>\<open>committed\<close> counts against an owner's balance is each pending intent of that owner that
  sells the token, with its batch, and each of them once.
\<close>

theorem committed_exact:
  assumes "pool_reachable retention m" and "0 \<le> retention"
  shows "set (committed (pm_pool m) owner token) =
      {(st_signed x, st_batch x) |x h. get_by_hash (pm_pool m) h = Some x \<and> st_status x = Pending
        \<and> same (g_owner (st_signed x)) owner \<and> same (g_sellToken (st_signed x)) token}
    \<and> distinct (committed (pm_pool m) owner token)"
  using committed_set [OF assms] .

lemma ready_step:
  assumes step: "pool_step r m m'" and own: "builds_own m"
    and f: "map_of (frozenFeeds (pm_pool m)) b = Some (Ready xs)"
  shows "map_of (frozenFeeds (pm_pool m')) b = Some (Ready xs) \<or> closed (pm_clock m') b"
  using step
proof cases
  case (Admit s b p)
  then show ?thesis using f by (simp add: admit_reads(6))
next
  case (Withdraw h rejection)
  then show ?thesis using f by (simp add: withdraw_frozen)
next
  case (Sweep time)
  then show ?thesis using f closed_mono [of time b "max (pm_clock m) time"] by (auto simp: sweep_frozen)
next
  case (Ask c g p)
  then show ?thesis using f ask_reads(4) [OF Ask(2)] by simp
next
  case (Settle c n result)
  then show ?thesis
    using f builds_ownD [OF own Settle(2)] by (cases "c = b") (auto simp: settle_reads(4))
qed

lemma clock_step: "pool_step r m m' \<Longrightarrow> pm_clock m \<le> pm_clock m'"
  by (auto elim!: pool_stepE)

text \<open>
  Once a solver has been served the frozen feed of a batch, every later request for that batch
  is served the same list, whatever is admitted, withdrawn, asked for or fails in between, until a
  sweep has passed the finalize deadline of the batch.
\<close>

theorem frozen_feed_stable:
  assumes "pool_reachable retention m" and "0 \<le> retention"
    and "map_of (frozenFeeds (pm_pool m)) b = Some (Ready xs)"
    and "(pool_step retention)\<^sup>*\<^sup>* m m'" and "\<not> closed (pm_clock m') b"
  shows "ask_feed n b (pm_pool m') = (Ready xs, pm_pool m')"
proof -
  have "pool_reachable retention m' \<and> (map_of (frozenFeeds (pm_pool m')) b = Some (Ready xs) \<or> closed (pm_clock m') b)"
    using assms(4)
  proof (induction rule: rtranclp_induct)
    case (step m1 m2)
    then have "builds_own m1" using reachable_ok assms(2) by (auto simp: pool_ok_def)
    then show ?case
      using step ready_step closed_mono clock_step pool_reachable.Step by metis
  qed (use assms(1,3) in simp)
  then show ?thesis using assms(5) by (simp add: ask_feed_def)
qed

text \<open>
  The sweep walks the batches that hold a list, so the entry that a request for an empty or an
  already forgotten batch leaves in \<^verbatim>\<open>frozenFeeds\<close> is not dropped by a sweep at any time.
\<close>

theorem idle_feed_outlives_sweep:
  assumes "map_of (byBatch p) b = None" and "ask_feed n b p = (f, p')"
  shows "map_of (frozenFeeds (sweep retention time p')) b = Some f"
proof -
  have "b \<notin> fst ` set (byBatch p')" using assms(1) ask_reads(1) [OF assms(2)] by (simp add: map_of_eq_None_iff)
  then show ?thesis using ask_reads(5) [OF assms(2)] by (simp add: sweep_frozen)
qed

text \<open>
  Withdrawing a pending intent frees the nonce it held, so the owner can sign a replacement with
  the same nonce and it is accepted.
\<close>

theorem withdraw_frees_nonce:
  assumes "pool_reachable retention m" and "0 \<le> retention"
    and "get_by_hash (pm_pool m) h = Some x" and "st_status x = Pending"
    and "pm_clock m \<le> i_validUntil (g_intent (st_signed x))"
    and "get_by_hash (pm_pool m) (g_hash s) = None" and "key_of s = key_of (st_signed x)"
  shows "\<exists>p'. admit (g_hash s) s b (withdraw h rejection (pm_pool m)) = Inr p' \<and> s \<in> set (get_by_batch p' b)"
proof -
  have "pending_holds (pm_clock m) (pm_pool m)" using reachable_ok [OF assms(1,2)] by (simp add: pool_ok_def)
  then have held: "map_of (byOwnerNonce (pm_pool m)) (key_of (st_signed x)) = Some (h, i_validUntil (g_intent (st_signed x)))"
    using assms(3-5) unfolding pending_holds_def get_by_hash_def by force
  have x: "map_of (byHash (pm_pool m)) h = Some x" using assms(3) by (simp add: get_by_hash_def)
  have "g_hash s \<noteq> h" using assms(6) x by (auto simp: get_by_hash_def)
  then have "map_of (byHash (withdraw h rejection (pm_pool m))) (g_hash s) = None"
    "map_of (byOwnerNonce (withdraw h rejection (pm_pool m))) (key_of s) = None"
    using assms(6,7) held by (simp_all add: withdraw_reads [OF x assms(4)] get_by_hash_def)
  then obtain p' where "admit (g_hash s) s b (withdraw h rejection (pm_pool m)) = Inr p'"
    by (simp add: admit_def)
  then show ?thesis using admit_reads(5) by (fastforce simp: get_by_batch_def)
qed

section \<open>The calendar cache and the window that opens\<close>

lemma in_set_tl: "x \<in> set (tl xs) \<Longrightarrow> x \<in> set xs"
  by (cases xs) auto

definition spans_exact :: "(int \<Rightarrow> int) \<Rightarrow> spans \<Rightarrow> bool" where
  "spans_exact base spans \<longleftrightarrow> (\<forall>(a, b)\<in>set spans. base a = b)"

text \<open>
  The cache of transitions answers what the chain would: if no transition lies strictly between
  a second and its next transition, a remembered span gives the same answer as asking again, and
  what it remembers stays exact.
\<close>

theorem remember_next_exact:
  assumes "\<forall>t u. t \<le> u \<and> u < base t \<longrightarrow> base u = base t"
    and "spans_exact base spans" and "remember_next base spans start = (answer, spans')"
  shows "answer = base start \<and> spans_exact base spans' \<and> length spans' \<le> max (length spans) 64"
proof (cases "find (\<lambda>(a, b). start \<ge> a \<and> start < b) spans")
  case None
  have "spans_exact base ((if length spans \<ge> 64 then tl spans else spans) @ [(start, base start)])"
    using assms(2) in_set_tl [of _ spans] unfolding spans_exact_def by (auto split: if_splits)
  then show ?thesis using assms(2,3) None by (auto simp: remember_next_def Let_def split: if_splits)
next
  case (Some e)
  obtain a c where e: "e = (a, c)" by fastforce
  have "(a, c) \<in> set spans" "a \<le> start" "start < c" using Some e by (auto simp: find_Some_iff in_set_conv_nth)
  then have "base a = c" "base start = c" using assms(1,2) by (auto simp: spans_exact_def)
  then show ?thesis using Some e assms(2,3) by (auto simp: remember_next_def)
qed

lemma auction_before_clear:
  assumes "\<not> auction_before n reader t batch"
    and const: "\<forall>t u. t \<le> u \<and> u < nextTransition reader t \<longrightarrow> sessionAt reader u = sessionAt reader t"
    and "batchDuration reader (sessionAt reader t) \<noteq> NO_ORDINARY_BATCH"
    and "\<forall>t. t < nextTransition reader t" and "batch \<le> (nextTransition reader ^^ Suc n) t"
    and "t \<le> u" "u < batch"
  shows "batchDuration reader (sessionAt reader u) \<noteq> NO_ORDINARY_BATCH"
  using assms(1,3,5-)
proof (induction n arbitrary: t)
  case 0
  then have "sessionAt reader u = sessionAt reader t" using const by simp
  then show ?case using 0 by simp
next
  case (Suc n)
  let ?n = "nextTransition reader t"
  show ?case
  proof (cases "u < ?n")
    case True
    then have "sessionAt reader u = sessionAt reader t" using const Suc.prems by simp
    then show ?thesis using Suc.prems by simp
  next
    case False
    then have lt: "\<not> ?n \<le> t" "\<not> ?n \<ge> batch" using assms(4) Suc.prems(5) by (auto simp: not_le)
    then have next_ok: "batchDuration reader (sessionAt reader ?n) \<noteq> NO_ORDINARY_BATCH" "\<not> auction_before n reader ?n batch"
      using Suc.prems(1) by (auto simp: Let_def split: if_splits)
    show ?thesis using Suc.IH [OF next_ok(2,1)] Suc.prems(3,5) False by (simp add: funpow_swap1)
  qed
qed

lemma open_lookup_batch:
  assumes "open_lookup reader time = Batch w"
  shows "batchDuration reader (sessionAt reader time) \<noteq> NO_ORDINARY_BATCH"
    "next_valid_batch_id reader time DEFAULT_SOLUTION_WINDOW = Batch w" "\<not> auction_before 4 reader time (batchId w)"
  using assms by (auto simp: open_lookup_def Let_def split: if_splits batch_lookup.splits)

lemma open_lookup_valid:
  assumes "open_lookup reader time = Batch w" "valid_reader reader" "0 \<le> time"
  shows "is_valid_batch_id reader (batchId w)" "time < batchId w"
    "w = window_of (batchId w) (batchDuration reader (sessionAt reader (batchId w))) (sessionAt reader (batchId w)) DEFAULT_SOLUTION_WINDOW"
  using search_sound [OF assms(2) _ open_lookup_batch(2) [OF assms(1), unfolded next_valid_batch_id_def]] assms(3) by auto

text \<open>
  The batch that \<^verbatim>\<open>openWindow\<close> opens is a valid batch after now and is never on the far side of
  an auction phase: every second from now to its end trades in ordinary batches, as long as the
  batch lies within the five transitions that the bounded walk can see.
\<close>

theorem open_window_skips_no_auction:
  assumes "open_window retention reader time p = (Batch w, p')"
    and "valid_reader reader" and "0 \<le> time"
    and "\<forall>t u. t \<le> u \<and> u < nextTransition reader t \<longrightarrow> sessionAt reader u = sessionAt reader t"
    and "\<forall>t. t < nextTransition reader t" and "batchId w \<le> (nextTransition reader ^^ 5) time"
  shows "is_valid_batch_id reader (batchId w) \<and> time < batchId w \<and> p' = sweep retention time p \<and>
    (\<forall>u. time \<le> u \<and> u < batchId w \<longrightarrow> batchDuration reader (sessionAt reader u) \<noteq> NO_ORDINARY_BATCH)"
proof -
  have w: "open_lookup reader time = Batch w" "p' = sweep retention time p" using assms(1) by (auto simp: open_window_def)
  have "batchDuration reader (sessionAt reader u) \<noteq> NO_ORDINARY_BATCH" if "time \<le> u" "u < batchId w" for u
    using auction_before_clear [OF open_lookup_batch(3) [OF w(1)] assms(4) open_lookup_batch(1) [OF w(1)] assms(5) _ that] assms(6)
    by (simp add: eval_nat_numeral)
  then show ?thesis using w(2) open_lookup_valid(1,2) [OF w(1) assms(2,3)] by blast
qed

section \<open>Witnesses\<close>

text \<open>Two owners' spellings of one address, three intents in two batches.\<close>

definition admitted :: "mempool \<Rightarrow> (signed_intent \<times> int) \<Rightarrow> mempool" where
  "admitted p e = (case admit (g_hash (fst e)) (fst e) (snd e) p of Inr p' \<Rightarrow> p' | Inl _ \<Rightarrow> p)"

definition sample_pool :: mempool where
  "sample_pool = foldl admitted empty_pool
     [(sample_signed ''h1'' ''0xAB'' 60 1, 135), (sample_signed ''h2'' ''0xab'' 50 2, 135), (sample_signed ''h3'' ''0xAb'' 40 3, 180)]"

definition sample_machine :: machine where
  "sample_machine = (started 100)\<lparr>pm_pool := sample_pool\<rparr>"

lemma admitted_reachable: "pool_reachable r m \<Longrightarrow> pool_reachable r (m\<lparr>pm_pool := admitted (pm_pool m) e\<rparr>)"
  by (auto simp: admitted_def split: sum.splits intro: pool_reachable.Step pool_step.Admit)

lemma sample_reachable: "pool_reachable 86400 sample_machine"
proof -
  have "pool_reachable r ((started 100)\<lparr>pm_pool := foldl admitted empty_pool es\<rparr>)" for r es
  proof (induction es rule: rev_induct)
    case Nil
    then show ?case using pool_reachable.Start [of r 100] by (simp add: started_def)
  next
    case (snoc e es)
    then show ?case using admitted_reachable [OF snoc.IH, of e] by simp
  qed
  note reach = this
  show ?thesis unfolding sample_machine_def sample_pool_def by (rule reach)
qed

abbreviation sample_stored :: "string \<Rightarrow> string \<Rightarrow> int \<Rightarrow> int \<Rightarrow> int \<Rightarrow> stored_intent" where
  "sample_stored h owner amount nonce b \<equiv>
     \<lparr>st_batch = b, st_signed = sample_signed h owner amount nonce, st_status = Pending, st_rejection = None\<rparr>"

lemma sample_held:
  "get_by_hash (pm_pool sample_machine) ''h1'' = Some (sample_stored ''h1'' ''0xAB'' 60 1 135)"
  "get_by_hash (pm_pool sample_machine) ''h4'' = None" "pm_clock sample_machine = 100"
  "st_status (sample_stored h owner amount nonce b) = Pending"
  "i_validUntil (g_intent (sample_signed h owner amount nonce)) = 1000"
  by (code_simp, code_simp, simp_all add: sample_machine_def started_def sample_signed_def)

theorem batch_lists_pending_witness:
  "sample_signed ''h1'' ''0xAB'' 60 1 \<in> set (get_by_batch (pm_pool sample_machine) 135)"
  using batch_lists_pending [OF sample_reachable, of "sample_signed ''h1'' ''0xAB'' 60 1" 135] sample_held(1)
  by (simp add: sample_signed_def)

theorem one_pending_per_nonce_witness:
  "key_of (sample_signed ''h1'' ''0xAB'' 60 1) = key_of (sample_signed ''h1'' ''0xab'' 60 1) \<and> ''h1'' = ''h1''"
  using one_pending_per_nonce [OF sample_reachable _ sample_held(1,1)] by code_simp

theorem committed_exact_witness:
  "distinct (committed (pm_pool sample_machine) ''0xab'' ''0xA1'')
    \<and> map snd (committed (pm_pool sample_machine) ''0xab'' ''0xA1'') = [135, 135, 180]"
proof
  show "distinct (committed (pm_pool sample_machine) ''0xab'' ''0xA1'')"
    using committed_exact [OF sample_reachable] by simp
  show "map snd (committed (pm_pool sample_machine) ''0xab'' ''0xA1'') = [135, 135, 180]" by code_simp
qed

definition frozen_machine :: machine where
  "frozen_machine = sample_machine\<lparr>pm_pool := sample_pool\<lparr>frozenFeeds := [(135, Ready [])]\<rparr>, pm_fresh := 1\<rparr>"

lemma frozen_reachable: "pool_reachable 86400 frozen_machine"
proof -
  let ?asked = "sample_machine\<lparr>pm_pool := sample_pool\<lparr>frozenFeeds := [(135, Building 0)]\<rparr>, pm_fresh := 1, pm_builds := {(135, 0)}\<rparr>"
  have empty: "frozenFeeds sample_pool = []" by code_simp
  then have "ask_feed 0 135 sample_pool = (Building 0, sample_pool\<lparr>frozenFeeds := [(135, Building 0)]\<rparr>)"
    by (simp add: ask_feed_def)
  then have "pool_step 86400 sample_machine ?asked"
    using pool_step.Ask [of sample_machine 135 "Building 0" _ 86400] empty
    by (simp add: sample_machine_def started_def)
  then have "pool_reachable 86400 ?asked" by (rule pool_reachable.Step [OF sample_reachable])
  moreover have "pool_step 86400 ?asked frozen_machine"
    using pool_step.Settle [of 135 0 ?asked 86400 "Some []"]
    by (simp add: frozen_machine_def settle_feed_def sample_machine_def started_def)
  ultimately show ?thesis by (rule pool_reachable.Step)
qed

theorem frozen_feed_stable_witness:
  "ask_feed 7 135 (withdraw ''h1'' ''NonceAlreadyUsed'' (pm_pool frozen_machine))
     = (Ready [], withdraw ''h1'' ''NonceAlreadyUsed'' (pm_pool frozen_machine))"
proof -
  let ?m = "frozen_machine\<lparr>pm_pool := withdraw ''h1'' ''NonceAlreadyUsed'' (pm_pool frozen_machine)\<rparr>"
  have "(pool_step 86400)\<^sup>*\<^sup>* frozen_machine ?m"
    using pool_step.Withdraw by (rule r_into_rtranclp)
  moreover have "map_of (frozenFeeds (pm_pool frozen_machine)) 135 = Some (Ready [])" by (simp add: frozen_machine_def)
  moreover have "\<not> closed (pm_clock frozen_machine) 135" by code_simp
  ultimately show ?thesis using frozen_feed_stable [OF frozen_reachable, of 135 "[]" ?m 7] by simp
qed

theorem idle_feed_outlives_sweep_witness:
  "map_of (frozenFeeds (sweep 86400 1000000 (snd (ask_feed 3 45 sample_pool)))) 45 = Some (Building 3)"
proof -
  have "map_of (byBatch sample_pool) 45 = None" "map_of (frozenFeeds sample_pool) 45 = None" by code_simp+
  then show ?thesis using idle_feed_outlives_sweep [of sample_pool 45 3 "Building 3"] by (simp add: ask_feed_def)
qed

theorem withdraw_frees_nonce_witness:
  "\<exists>p'. admit ''h4'' (sample_signed ''h4'' ''0xab'' 20 1) 180 (withdraw ''h1'' ''COORDINATOR_INSUFFICIENT_BALANCE'' (pm_pool sample_machine)) = Inr p'
    \<and> sample_signed ''h4'' ''0xab'' 20 1 \<in> set (get_by_batch p' 180)"
proof -
  have h: "g_hash (sample_signed ''h4'' ''0xab'' 20 1) = ''h4''" by (simp add: sample_signed_def)
  have k: "key_of (sample_signed ''h4'' ''0xab'' 20 1) = key_of (sample_signed ''h1'' ''0xAB'' 60 1)" by code_simp
  show ?thesis
    using withdraw_frees_nonce [OF sample_reachable _ sample_held(1), of "sample_signed ''h4'' ''0xab'' 20 1" 180] h k sample_held
    by simp
qed

theorem remember_next_exact_witness:
  "fst (remember_next (\<lambda>t. (t div 45 + 1) * 45) [(100, 135)] 120) = 135"
proof -
  have law: "\<forall>t u. t \<le> u \<and> u < (t div 45 + 1) * 45 \<longrightarrow> (u div 45 + 1) * 45 = (t div 45 + 1) * (45 :: int)"
  proof (intro allI impI)
    fix t u :: int assume "t \<le> u \<and> u < (t div 45 + 1) * 45"
    moreover have "u div 45 * 45 + u mod 45 = u" "0 \<le> u mod 45" by simp_all
    ultimately have "u div 45 * 45 < (t div 45 + 1) * 45" by linarith
    then have "t div 45 \<le> u div 45" "u div 45 < t div 45 + 1" using \<open>t \<le> u \<and> _\<close> by (simp_all add: zdiv_mono1)
    then show "(u div 45 + 1) * 45 = (t div 45 + 1) * (45 :: int)" by simp
  qed
  show ?thesis
    using remember_next_exact [OF law, of "[(100, 135)]" 120 "fst (remember_next (\<lambda>t. (t div 45 + 1) * 45) [(100, 135)] 120)"
        "snd (remember_next (\<lambda>t. (t div 45 + 1) * 45) [(100, 135)] 120)"]
    by (simp add: spans_exact_def)
qed

definition sample_calendar :: chain_reader where
  "sample_calendar = sample_reader\<lparr>nextTransition := \<lambda>t. if t < 4500 then 4500 else t + 1\<rparr>"

theorem open_window_skips_no_auction_witness:
  "fst (open_window 86400 sample_calendar 100 sample_pool) = Batch (window_of 135 45 0 10)
    \<and> is_valid_batch_id sample_calendar 135"
proof -
  have w: "open_window 86400 sample_calendar 100 sample_pool = (Batch (window_of 135 45 0 10), sweep 86400 100 sample_pool)"
    by code_simp
  have "valid_reader sample_calendar" using sample_reader_ok(1) by (simp add: valid_reader_def sample_calendar_def sample_reader_def)
  then show ?thesis
    using open_window_skips_no_auction [OF w] w by (simp add: sample_calendar_def sample_reader_def window_of_def eval_nat_numeral)
qed

end
