(* ===== verification/Lifecycle.thy ===== *)
theory Lifecycle
  imports Mempool
begin

text \<open>
  api/src/lifecycle.ts, with the answers of api/src/routes/session.ts it publishes: the ticks that
  open and close batches. The handler is cut at its waits. While a tick waits, the poll may close
  batches at a later head, so the parts are steps of one machine. Chain answers are parameters.
\<close>

section \<open>The session answers\<close>

definition FROZEN_SESSIONS :: "int set" where "FROZEN_SESSIONS = {6, 7}"
definition ORACLE_DISAGREE_BPS :: int where "ORACLE_DISAGREE_BPS = 50"
definition ORACLE_DISAGREE_BPS_OVERNIGHT :: int where "ORACLE_DISAGREE_BPS_OVERNIGHT = 150"
definition WEEKEND_DRIFT_CAP_BPS :: int where "WEEKEND_DRIFT_CAP_BPS = 1500"
definition PROTECTIVE_SESSION :: int where "PROTECTIVE_SESSION = 8"
definition MAX_TRACKED :: nat where "MAX_TRACKED = 8"

record price_reading =
  ps_primary :: string
  ps_anchor :: string
  ps_disagreementCheckEnabled :: bool
  ps_weekendDriftCapBps :: "int option"

definition price_source :: "int \<Rightarrow> price_reading" where
  "price_source session =
     (if session \<in> FROZEN_SESSIONS
      then \<lparr>ps_primary = ''uniswapV3Twap'', ps_anchor = ''chainlink'', ps_disagreementCheckEnabled = False,
            ps_weekendDriftCapBps = Some WEEKEND_DRIFT_CAP_BPS\<rparr>
      else \<lparr>ps_primary = ''chainlink'', ps_anchor = ''uniswapV3Twap'', ps_disagreementCheckEnabled = True,
            ps_weekendDriftCapBps = None\<rparr>)"

definition disagreement_limit_bps :: "int \<Rightarrow> int option" where
  "disagreement_limit_bps session =
     (if session \<in> FROZEN_SESSIONS then None
      else Some (if session = 0 then ORACLE_DISAGREE_BPS_OVERNIGHT else ORACLE_DISAGREE_BPS))"

record current_batch =
  cb_batchId :: "int option"
  cb_reason :: "no_batch_reason option"
  cb_session :: int
  cb_collectStartsAt :: int
  cb_collectEndsAt :: int
  cb_solveEndsAt :: int
  cb_chainTime :: int
  cb_counts :: "nat \<times> nat"

definition build_current_batch :: "chain_reader \<Rightarrow> int \<Rightarrow> mempool \<Rightarrow> int \<Rightarrow> current_batch" where
  "build_current_batch reader currentSession p time =
     (case open_lookup reader time of
        No_batch r _ \<Rightarrow>
          \<lparr>cb_batchId = None, cb_reason = Some (if r = Auction_phase then Auction_phase else Guard_band), cb_session = currentSession,
           cb_collectStartsAt = 0, cb_collectEndsAt = 0, cb_solveEndsAt = 0, cb_chainTime = time, cb_counts = (0, 0)\<rparr>
      | Batch w \<Rightarrow>
          \<lparr>cb_batchId = Some (batchId w), cb_reason = None, cb_session = window_session w,
           cb_collectStartsAt = collectStart w, cb_collectEndsAt = collectEnd w, cb_solveEndsAt = solveEnd w, cb_chainTime = time,
           cb_counts = counts p (batchId w)\<rparr>)"

text \<open>
  The route serves the answer the last tick remembered while it is recent and the chain is no fork,
  with its counts taken fresh. \<open>age\<close> is its age on the wall clock.
\<close>

definition CURRENT_REUSE_MS :: int where "CURRENT_REUSE_MS = 3000"

definition current_batch_route :: "bool \<Rightarrow> (current_batch \<times> int) option \<Rightarrow> mempool \<Rightarrow> current_batch \<Rightarrow> current_batch" where
  "current_batch_route isFork lastCurrent p built =
     (case lastCurrent of
        Some (body, age) \<Rightarrow>
          if \<not> isFork \<and> age \<le> CURRENT_REUSE_MS
          then (case cb_batchId body of None \<Rightarrow> body | Some b \<Rightarrow> body\<lparr>cb_counts := counts p b\<rparr>)
          else built
      | None \<Rightarrow> built)"

section \<open>The state of the lifecycle\<close>

record tracked =
  t_collectEnd :: int
  t_solveEnd :: int
  t_closed :: bool

record life_state =
  ls_lastTime :: "int option"
  ls_current :: "int option"
  ls_tracked :: "(int \<times> tracked) list"
  ls_session :: "int option"
  ls_tokenSessions :: "(address \<Rightarrow> int) option"
  ls_healthy :: "(address \<times> bool) list option"

definition fresh_state :: life_state where
  "fresh_state = \<lparr>ls_lastTime = None, ls_current = None, ls_tracked = [], ls_session = None, ls_tokenSessions = None, ls_healthy = None\<rparr>"

text \<open>The frames, with the time each carries first.\<close>

datatype frame =
    Collect_closed int int nat int
  | Opened int int
  | Session_changed int int
  | Token_protective int address bool
  | Oracle_unhealthy int address bool

fun frame_time :: "frame \<Rightarrow> int" where
  "frame_time (Collect_closed t b n e) = t"
| "frame_time (Opened t b) = t"
| "frame_time (Session_changed t s) = t"
| "frame_time (Token_protective t a c) = t"
| "frame_time (Oracle_unhealthy t a f) = t"

text \<open>
  Where the tick stands: between ticks, or waiting for the current batch, the session, the token
  sessions or the prices of its block. \<open>lf_frames\<close> holds what was published since the state was
  last cleared, oldest first.
\<close>

datatype poll_phase = Idle | Opening int | Reading_session int | Reading_tokens int | Reading_prices int

record life =
  lf_state :: life_state
  lf_closedAt :: "int option"
  lf_phase :: poll_phase
  lf_queued :: "int option option"
  lf_frames :: "frame list"

definition start_life :: life where
  "start_life = \<lparr>lf_state = fresh_state, lf_closedAt = None, lf_phase = Idle, lf_queued = None, lf_frames = []\<rparr>"

section \<open>Closing\<close>

definition later :: "int option \<Rightarrow> int \<Rightarrow> int" where
  "later closedAt T = (case closedAt of None \<Rightarrow> T | Some c \<Rightarrow> if T > c then T else c)"

definition close_one :: "(int \<Rightarrow> nat) \<Rightarrow> int \<Rightarrow> life \<Rightarrow> int \<times> tracked \<Rightarrow> life" where
  "close_one intentCount T m e =
     (case e of (b, t) \<Rightarrow>
        let m1 = (if \<not> t_closed t \<and> T > b
                  then m\<lparr>lf_state := (lf_state m)\<lparr>ls_tracked := AList.update b (t\<lparr>t_closed := True\<rparr>) (ls_tracked (lf_state m))\<rparr>,
                         lf_closedAt := Some (later (lf_closedAt m) T),
                         lf_frames := lf_frames m @ [Collect_closed T b (intentCount b) (t_solveEnd t)]\<rparr>
                  else m)
        in if T > t_solveEnd t + FINALIZE_DEADLINE
           then m1\<lparr>lf_state := (lf_state m1)\<lparr>ls_tracked := AList.delete b (ls_tracked (lf_state m1))\<rparr>\<rparr>
           else m1)"

definition close_due :: "(int \<Rightarrow> nat) \<Rightarrow> int \<Rightarrow> life \<Rightarrow> life" where
  "close_due intentCount T m = foldl (close_one intentCount T) m (ls_tracked (lf_state m))"

section \<open>The parts of a tick\<close>

definition begin_tick :: "(int \<Rightarrow> nat) \<Rightarrow> int \<Rightarrow> life \<Rightarrow> life" where
  "begin_tick intentCount T m =
     (let m1 = (case ls_lastTime (lf_state m) of
                  Some l \<Rightarrow> if T < l then m\<lparr>lf_state := fresh_state, lf_closedAt := None, lf_frames := []\<rparr> else m
                | None \<Rightarrow> m);
          m2 = m1\<lparr>lf_state := (lf_state m1)\<lparr>ls_lastTime := Some T\<rparr>\<rparr>
      in (close_due intentCount T m2)\<lparr>lf_phase := Opening T\<rparr>)"

definition older_open :: "life_state \<Rightarrow> int \<Rightarrow> bool" where
  "older_open s b \<longleftrightarrow> list_ex (\<lambda>(c, t). \<not> t_closed t \<and> c < b) (ls_tracked s)"

fun evict :: "(int \<times> tracked) list \<Rightarrow> (int \<times> tracked) list \<Rightarrow> (int \<times> tracked) list" where
  "evict [] tr = tr"
| "evict ((b, t) # es) tr =
     (if length tr \<le> MAX_TRACKED then tr
      else evict es (if t_closed t then AList.delete b tr else tr))"

definition open_batch :: "(int \<times> int \<times> int) option \<Rightarrow> int \<Rightarrow> life \<Rightarrow> life" where
  "open_batch current T m =
     (let s = lf_state m;
          m1 = (case current of
                  None \<Rightarrow> m
                | Some (b, collectEnds, solveEnds) \<Rightarrow>
                    if older_open s b \<or> ls_current s = Some b then m
                    else m\<lparr>lf_state := s\<lparr>ls_current := Some b,
                             ls_tracked := AList.update b \<lparr>t_collectEnd = collectEnds, t_solveEnd = solveEnds, t_closed = False\<rparr> (ls_tracked s)\<rparr>,
                           lf_frames := lf_frames m @ [Opened (later (lf_closedAt m) T) b]\<rparr>)
      in m1\<lparr>lf_state := (lf_state m1)\<lparr>ls_tracked := evict (ls_tracked (lf_state m1)) (ls_tracked (lf_state m1))\<rparr>,
            lf_phase := Reading_session T\<rparr>)"

definition session_part :: "int \<Rightarrow> int \<Rightarrow> life \<Rightarrow> life" where
  "session_part session T m =
     (let s = lf_state m
      in m\<lparr>lf_state := s\<lparr>ls_session := Some session\<rparr>, lf_phase := Reading_tokens T,
           lf_frames := lf_frames m @ (case ls_session s of
               Some was \<Rightarrow> if session \<noteq> was then [Session_changed T session] else []
             | None \<Rightarrow> [])\<rparr>)"

definition protective_frames :: "(address \<Rightarrow> int) \<Rightarrow> (address \<Rightarrow> int) \<Rightarrow> int \<Rightarrow> address list \<Rightarrow> frame list" where
  "protective_frames old new T tokens =
     concat (map (\<lambda>a. let was = (old a = PROTECTIVE_SESSION); now = (new a = PROTECTIVE_SESSION)
       in if was = now then [] else [Token_protective T a (\<not> now)]) tokens)"

definition tokens_part :: "address list \<Rightarrow> (address \<Rightarrow> int) \<Rightarrow> int \<Rightarrow> life \<Rightarrow> life" where
  "tokens_part tokens sessions T m =
     (let s = lf_state m
      in m\<lparr>lf_state := s\<lparr>ls_tokenSessions := Some sessions\<rparr>, lf_phase := Reading_prices T,
           lf_frames := lf_frames m @ (case ls_tokenSessions s of None \<Rightarrow> [] | Some old \<Rightarrow> protective_frames old sessions T tokens)\<rparr>)"

text \<open>\<open>prices\<close> answers whether a token's price is healthy, None where it has no source; \<open>twap\<close> whether it has a TWAP source.\<close>

definition price_frames ::
  "(address \<Rightarrow> int) \<Rightarrow> (address \<Rightarrow> bool option) \<Rightarrow> (address \<Rightarrow> bool) \<Rightarrow> (address \<times> bool) list option \<Rightarrow> int \<Rightarrow> address list \<Rightarrow> frame list" where
  "price_frames sessions prices twap old T tokens =
     concat (map (\<lambda>a. case prices a of
         None \<Rightarrow> []
       | Some ok \<Rightarrow> if ok \<or> old = None \<or> map_of (the old) a \<noteq> Some True then []
                    else [Oracle_unhealthy T a (sessions a \<in> FROZEN_SESSIONS \<and> twap a)]) tokens)"

definition healthy_map :: "(address \<Rightarrow> bool option) \<Rightarrow> address list \<Rightarrow> (address \<times> bool) list" where
  "healthy_map prices tokens = foldl (\<lambda>h a. case prices a of None \<Rightarrow> h | Some ok \<Rightarrow> AList.update a ok h) [] tokens"

definition prices_part :: "address list \<Rightarrow> (address \<Rightarrow> bool option) \<Rightarrow> (address \<Rightarrow> bool) \<Rightarrow> int \<Rightarrow> life \<Rightarrow> life" where
  "prices_part tokens prices twap T m =
     (let s = lf_state m;
          sessions = (case ls_tokenSessions s of Some f \<Rightarrow> f | None \<Rightarrow> (\<lambda>_. 0))
      in m\<lparr>lf_state := s\<lparr>ls_healthy := Some (healthy_map prices tokens)\<rparr>, lf_phase := Idle,
           lf_frames := lf_frames m @ price_frames sessions prices twap (ls_healthy s) T tokens\<rparr>)"

section \<open>The machine\<close>

text \<open>
  A poll brings a head, with its timestamp when the chain is not a fork. A busy lifecycle keeps the
  latest head and closes at its timestamp; \<open>End\<close> is a tick that finished or failed, after which the
  queued head starts the next. \<open>answer\<close> is the batch open at a chain time.
\<close>

definition poll_busy :: "(int \<Rightarrow> nat) \<Rightarrow> int option \<Rightarrow> life \<Rightarrow> life" where
  "poll_busy intentCount head m =
     (let m1 = m\<lparr>lf_queued := Some head\<rparr>
      in case (head, ls_lastTime (lf_state m1)) of
           (Some T, Some l) \<Rightarrow> if T \<ge> l then close_due intentCount T m1 else m1
         | _ \<Rightarrow> m1)"

inductive life_step :: "(int \<Rightarrow> (int \<times> int \<times> int) option) \<Rightarrow> address list \<Rightarrow> life \<Rightarrow> life \<Rightarrow> bool" for answer tokens where
  Begin: "lf_phase m = Idle \<Longrightarrow> lf_queued m = None \<Longrightarrow> life_step answer tokens m (begin_tick n T m)"
| Begin_queued: "lf_phase m = Idle \<Longrightarrow> lf_queued m = Some head \<Longrightarrow> (case head of None \<Rightarrow> True | Some t \<Rightarrow> T = t)
    \<Longrightarrow> life_step answer tokens m (begin_tick n T (m\<lparr>lf_queued := None\<rparr>))"
| Busy: "lf_phase m \<noteq> Idle \<Longrightarrow> life_step answer tokens m (poll_busy n head m)"
| Open: "lf_phase m = Opening T \<Longrightarrow> life_step answer tokens m (open_batch (answer T) T m)"
| Session: "lf_phase m = Reading_session T \<Longrightarrow> life_step answer tokens m (session_part session T m)"
| Tokens: "lf_phase m = Reading_tokens T \<Longrightarrow> life_step answer tokens m (tokens_part tokens sessions T m)"
| Prices: "lf_phase m = Reading_prices T \<Longrightarrow> life_step answer tokens m (prices_part tokens prices twap T m)"
| Fail: "lf_phase m \<noteq> Idle \<Longrightarrow> life_step answer tokens m (m\<lparr>lf_phase := Idle\<rparr>)"

inductive_cases life_stepE: "life_step answer tokens m m'"

inductive life_reachable :: "(int \<Rightarrow> (int \<times> int \<times> int) option) \<Rightarrow> address list \<Rightarrow> life \<Rightarrow> bool" for answer tokens where
  Start: "life_reachable answer tokens start_life"
| Step: "life_reachable answer tokens m \<Longrightarrow> life_step answer tokens m m' \<Longrightarrow> life_reachable answer tokens m'"

section \<open>What the frames of one history look like\<close>

fun opened_of :: "frame \<Rightarrow> int list" where
  "opened_of (Opened t b) = [b]"
| "opened_of _ = []"

fun closed_of :: "frame \<Rightarrow> int list" where
  "closed_of (Collect_closed t b n e) = [b]"
| "closed_of _ = []"

definition opened_ids :: "frame list \<Rightarrow> int list" where "opened_ids fs = concat (map opened_of fs)"
definition closed_ids :: "frame list \<Rightarrow> int list" where "closed_ids fs = concat (map closed_of fs)"

lemma ids_append [simp]:
  "opened_ids (fs @ gs) = opened_ids fs @ opened_ids gs" "closed_ids (fs @ gs) = closed_ids fs @ closed_ids gs"
  "opened_ids [x] = opened_of x" "closed_ids [x] = closed_of x" "opened_ids [] = []" "closed_ids [] = []"
  by (simp_all add: opened_ids_def closed_ids_def)

definition all_closed_by :: "frame list \<Rightarrow> int \<Rightarrow> bool" where
  "all_closed_by fs t \<longleftrightarrow> set (opened_ids fs) \<subseteq> set (closed_ids fs) \<and> (\<forall>x\<in>set fs. closed_of x \<noteq> [] \<longrightarrow> frame_time x \<le> t)"

definition orderly :: "frame list \<Rightarrow> bool" where
  "orderly fs \<longleftrightarrow> (\<forall>ys t b zs. fs = ys @ Opened t b # zs \<longrightarrow> all_closed_by ys t)"

lemma orderly_snoc:
  "orderly (fs @ [x]) \<longleftrightarrow> orderly fs \<and> (\<forall>t b. x = Opened t b \<longrightarrow> all_closed_by fs t)"
proof
  assume o: "orderly (fs @ [x])"
  have "all_closed_by ys t" if "fs = ys @ Opened t b # zs" for ys t b zs
    using o [unfolded orderly_def, rule_format, of ys t b "zs @ [x]"] that by simp
  moreover have "all_closed_by fs t" if "x = Opened t b" for t b
    using o [unfolded orderly_def, rule_format, of fs t b "[]"] that by simp
  ultimately show "orderly fs \<and> (\<forall>t b. x = Opened t b \<longrightarrow> all_closed_by fs t)" unfolding orderly_def by blast
next
  assume o: "orderly fs \<and> (\<forall>t b. x = Opened t b \<longrightarrow> all_closed_by fs t)"
  show "orderly (fs @ [x])"
    unfolding orderly_def
  proof (intro allI impI)
    fix ys t b zs assume eq: "fs @ [x] = ys @ Opened t b # zs"
    show "all_closed_by ys t"
    proof (cases zs rule: rev_cases)
      case Nil
      then show ?thesis using eq o by auto
    next
      case (snoc zs' z)
      then have "fs = ys @ Opened t b # zs'" using eq by simp
      then show ?thesis using o unfolding orderly_def by blast
    qed
  qed
qed

text \<open>The batches that are tracked and the batches the frames speak of agree.\<close>

abbreviation trk :: "life \<Rightarrow> (int \<times> tracked) list" where "trk m \<equiv> ls_tracked (lf_state m)"

definition tracks :: "life \<Rightarrow> bool" where
  "tracks m \<longleftrightarrow> distinct (map fst (trk m))
     \<and> (\<forall>b t. map_of (trk m) b = Some t \<longrightarrow> b \<in> set (opened_ids (lf_frames m)) \<and> (t_closed t \<longleftrightarrow> b \<in> set (closed_ids (lf_frames m))) \<and> b \<le> t_solveEnd t)
     \<and> (\<forall>b\<in>set (opened_ids (lf_frames m)). b \<in> set (closed_ids (lf_frames m)) \<or> map_of (trk m) b \<noteq> None)"

definition closes :: "life \<Rightarrow> bool" where
  "closes m \<longleftrightarrow> distinct (closed_ids (lf_frames m)) \<and> set (closed_ids (lf_frames m)) \<subseteq> set (opened_ids (lf_frames m))
     \<and> (\<forall>t b n e. Collect_closed t b n e \<in> set (lf_frames m) \<longrightarrow> b < t \<and> (\<exists>c. lf_closedAt m = Some c \<and> t \<le> c))"

definition opens :: "(int \<Rightarrow> (int \<times> int \<times> int) option) \<Rightarrow> life \<Rightarrow> bool" where
  "opens answer m \<longleftrightarrow> sorted_wrt (<) (opened_ids (lf_frames m)) \<and> orderly (lf_frames m)
     \<and> (\<forall>b\<in>set (opened_ids (lf_frames m)). (\<exists>c. ls_current (lf_state m) = Some c \<and> b \<le> c)
          \<and> (\<exists>T0 e s T. answer T0 = Some (b, e, s) \<and> ls_lastTime (lf_state m) = Some T \<and> T0 \<le> T))
     \<and> (\<forall>d. ls_current (lf_state m) = Some d \<longrightarrow> d \<in> set (opened_ids (lf_frames m)))
     \<and> (\<forall>b\<in>set (opened_ids (lf_frames m)). b \<in> set (closed_ids (lf_frames m)) \<or> ls_current (lf_state m) = Some b)
     \<and> (\<forall>T. lf_phase m = Opening T \<longrightarrow> ls_lastTime (lf_state m) = Some T)"

definition life_ok :: "(int \<Rightarrow> (int \<times> int \<times> int) option) \<Rightarrow> life \<Rightarrow> bool" where
  "life_ok answer m \<longleftrightarrow> tracks m \<and> closes m \<and> opens answer m"

lemma tracksD:
  assumes "tracks m" "map_of (trk m) b = Some t"
  shows "b \<in> set (opened_ids (lf_frames m))" "t_closed t \<longleftrightarrow> b \<in> set (closed_ids (lf_frames m))" "b \<le> t_solveEnd t"
  using assms unfolding tracks_def by blast+

lemma tracks_cong:
  assumes "trk m' = trk m" "opened_ids (lf_frames m') = opened_ids (lf_frames m) \<and> closed_ids (lf_frames m') = closed_ids (lf_frames m)" "tracks m"
  shows "tracks m'"
  using assms unfolding tracks_def by metis

section \<open>Closing keeps the agreement\<close>

lemma close_one_parts:
  fixes m :: life and n :: "int \<Rightarrow> nat" and T b :: int and t :: tracked
  assumes "map_of (trk m) b = Some t"
  defines "m' \<equiv> close_one n T m (b, t)"
  defines "due \<equiv> \<not> t_closed t \<and> T > b" and "gone \<equiv> T > t_solveEnd t + FINALIZE_DEADLINE"
  shows "map_of (trk m') = (map_of (trk m))(b := if gone then None else Some (if due then t\<lparr>t_closed := True\<rparr> else t))"
    "lf_frames m' = lf_frames m @ (if due then [Collect_closed T b (n b) (t_solveEnd t)] else [])"
    "lf_closedAt m' = (if due then Some (later (lf_closedAt m) T) else lf_closedAt m)"
    "ls_current (lf_state m') = ls_current (lf_state m)" "ls_lastTime (lf_state m') = ls_lastTime (lf_state m)"
    "lf_phase m' = lf_phase m" "distinct (map fst (trk m)) \<Longrightarrow> distinct (map fst (trk m'))"
  using assms(1) unfolding m'_def due_def gone_def
  by (auto simp: close_one_def Let_def store_laws)

lemma later_ge: "T \<le> later c T" "c = Some t \<Longrightarrow> t \<le> later c T"
  by (auto simp: later_def split: option.splits)

lemma close_one_ok:
  assumes ok: "life_ok answer m" and t: "map_of (trk m) b = Some t"
  shows "life_ok answer (close_one n T m (b, t))"
proof -
  let ?m = "close_one n T m (b, t)" and ?due = "\<not> t_closed t \<and> T > b" and ?gone = "T > t_solveEnd t + FINALIZE_DEADLINE"
  note p = close_one_parts [OF t, of n T]
  have tr: "tracks m" "closes m" "opens answer m" using ok by (auto simp: life_ok_def)
  note b = tracksD [OF tr(1) t]
  have gone_due: "T > b" if ?gone using that b(3) by (simp add: FINALIZE_DEADLINE_def)
  have ids: "opened_ids (lf_frames ?m) = opened_ids (lf_frames m)"
    "closed_ids (lf_frames ?m) = closed_ids (lf_frames m) @ (if ?due then [b] else [])" by (simp_all add: p(2))
  have "tracks ?m"
    unfolding tracks_def
  proof (intro conjI allI impI ballI)
    show "distinct (map fst (trk ?m))" using p(7) tr(1) by (simp add: tracks_def)
    fix c u assume "map_of (trk ?m) c = Some u"
    then show "c \<in> set (opened_ids (lf_frames ?m))" "t_closed u \<longleftrightarrow> c \<in> set (closed_ids (lf_frames ?m))" "c \<le> t_solveEnd u"
      using b tracksD [OF tr(1), of c] unfolding p(1) ids by (auto split: if_splits)
  next
    fix c assume "c \<in> set (opened_ids (lf_frames ?m))"
    then have "c \<in> set (closed_ids (lf_frames m)) \<or> map_of (trk m) c \<noteq> None" using tr(1) unfolding tracks_def ids by blast
    then show "c \<in> set (closed_ids (lf_frames ?m)) \<or> map_of (trk ?m) c \<noteq> None"
      using gone_due b(2) unfolding p(1) ids by auto
  qed
  moreover have "closes ?m"
    unfolding closes_def
  proof (intro conjI allI impI)
    show "distinct (closed_ids (lf_frames ?m))" "set (closed_ids (lf_frames ?m)) \<subseteq> set (opened_ids (lf_frames ?m))"
      using tr(2) b unfolding closes_def ids by auto
    fix u c k e assume "Collect_closed u c k e \<in> set (lf_frames ?m)"
    then consider "Collect_closed u c k e \<in> set (lf_frames m)" | "?due" "u = T" "c = b" unfolding p(2) by (auto split: if_splits)
    then have "c < u \<and> (\<exists>z. (lf_closedAt m = Some z \<and> u \<le> z) \<or> (?due \<and> u = T))"
      using tr(2) unfolding closes_def by cases blast+
    then show "c < u" "\<exists>z. lf_closedAt ?m = Some z \<and> u \<le> z"
      unfolding p(3) using later_ge by (auto intro: order_trans)
  qed
  moreover have "opens answer ?m"
    using tr(3) unfolding opens_def ids p(4-6) p(2) by (auto simp: orderly_snoc)
  ultimately show ?thesis by (simp add: life_ok_def)
qed

lemma close_fold:
  assumes "life_ok answer m" "distinct (map fst es)" "\<forall>(b, t)\<in>set es. map_of (trk m) b = Some t"
  shows "life_ok answer (foldl (close_one n T) m es)
    \<and> lf_phase (foldl (close_one n T) m es) = lf_phase m \<and> ls_lastTime (lf_state (foldl (close_one n T) m es)) = ls_lastTime (lf_state m)
    \<and> ls_current (lf_state (foldl (close_one n T) m es)) = ls_current (lf_state m)
    \<and> opened_ids (lf_frames (foldl (close_one n T) m es)) = opened_ids (lf_frames m)
    \<and> (\<forall>b. b \<in> set (closed_ids (lf_frames (foldl (close_one n T) m es))) \<longleftrightarrow>
         b \<in> set (closed_ids (lf_frames m)) \<or> b \<in> fst ` set es \<and> b < T)"
  using assms
proof (induction es arbitrary: m)
  case (Cons e es)
  obtain b t where e: "e = (b, t)" by fastforce
  have t: "map_of (trk m) b = Some t" using Cons.prems(3) e by simp
  note p = close_one_parts [OF t, of n T]
  note ok = close_one_ok [OF Cons.prems(1) t, of n T]
  have rest: "\<forall>(c, u)\<in>set es. map_of (trk (close_one n T m (b, t))) c = Some u"
    using Cons.prems(2,3) e unfolding p(1) by (fastforce simp: image_iff)
  have "b \<in> set (closed_ids (lf_frames m)) \<longleftrightarrow> t_closed t"
    using tracksD(2) [OF _ t] Cons.prems(1) by (simp add: life_ok_def)
  then show ?case using Cons.IH [OF ok _ rest] Cons.prems(2) e p by auto
qed simp

lemma close_due_ok:
  assumes "life_ok answer m"
  shows "life_ok answer (close_due n T m)" "lf_phase (close_due n T m) = lf_phase m"
    "ls_lastTime (lf_state (close_due n T m)) = ls_lastTime (lf_state m)"
    "ls_current (lf_state (close_due n T m)) = ls_current (lf_state m)"
    "opened_ids (lf_frames (close_due n T m)) = opened_ids (lf_frames m)"
    "b \<in> set (opened_ids (lf_frames m)) \<Longrightarrow> b < T \<Longrightarrow> b \<in> set (closed_ids (lf_frames (close_due n T m)))"
proof -
  have tr: "tracks m" using assms by (simp add: life_ok_def)
  have "distinct (map fst (trk m))" "\<forall>(b, t)\<in>set (trk m). map_of (trk m) b = Some t" using tr by (auto simp: tracks_def)
  note fold = close_fold [OF assms this, of n T]
  show "life_ok answer (close_due n T m)" "lf_phase (close_due n T m) = lf_phase m"
    "ls_lastTime (lf_state (close_due n T m)) = ls_lastTime (lf_state m)" "ls_current (lf_state (close_due n T m)) = ls_current (lf_state m)"
    "opened_ids (lf_frames (close_due n T m)) = opened_ids (lf_frames m)" using fold by (simp_all add: close_due_def)
  show "b \<in> set (closed_ids (lf_frames (close_due n T m)))" if "b \<in> set (opened_ids (lf_frames m))" "b < T"
  proof -
    have "b \<in> set (closed_ids (lf_frames m)) \<or> b \<in> fst ` set (trk m)"
      using tr that(1) unfolding tracks_def by (auto simp: map_of_eq_None_iff)
    then show ?thesis using fold that(2) by (simp add: close_due_def)
  qed
qed

section \<open>Opening and evicting\<close>

lemma set_delete_subset: "set (AList.delete b tr) \<subseteq> set tr"
  by (induction tr) auto

lemma evict_lookup:
  "map_of (evict es tr) b = map_of tr b \<or> (map_of (evict es tr) b = None \<and> (\<exists>t. (b, t) \<in> set es \<and> t_closed t))"
proof (induction es tr rule: evict.induct)
  case (2 b' t es tr)
  then show ?case by (cases "length tr \<le> MAX_TRACKED"; cases "t_closed t") (auto split: if_splits)
qed simp

lemma evict_distinct: "distinct (map fst tr) \<Longrightarrow> distinct (map fst (evict es tr))"
  by (induction es tr rule: evict.induct) (auto simp: store_laws)

lemma evict_subset: "set (evict es tr) \<subseteq> set tr"
proof (induction es tr rule: evict.induct)
  case (2 b t es tr)
  have "set (AList.delete b tr) \<subseteq> set tr" by (rule set_delete_subset)
  then show ?case using 2 subset_trans by (cases "length tr \<le> MAX_TRACKED"; cases "t_closed t") auto
qed simp

lemma evict_bound:
  "MAX_TRACKED < length (evict es tr) \<Longrightarrow> (b, t) \<in> set es \<Longrightarrow> t_closed t \<Longrightarrow> b \<notin> fst ` set (evict es tr)"
proof (induction es tr rule: evict.induct)
  case (2 b' t' es tr)
  have big: "\<not> length tr \<le> MAX_TRACKED"
    using "2.prems"(1) evict.simps(2) [of b' t' es tr] by (auto split: if_splits)
  show ?case
  proof (cases "(b, t) = (b', t')")
    case True
    then have "set (evict ((b', t') # es) tr) \<subseteq> set (AList.delete b tr)" using big "2.prems"(3) evict_subset [of es "AList.delete b tr"] by simp
    then show ?thesis using AList.delete_notin_dom [of b tr] by blast
  next
    case False
    then have "(b, t) \<in> set es" using "2.prems"(2) by auto
    then show ?thesis using "2.IH" [OF big] "2.prems"(1,3) big by (cases "t_closed t'") simp_all
  qed
qed simp

lemma open_batch_parts:
  fixes m :: life
  obtains m1 where "open_batch current T m = m1\<lparr>lf_state := (lf_state m1)\<lparr>ls_tracked := evict (trk m1) (trk m1)\<rparr>, lf_phase := Reading_session T\<rparr>"
    "m1 = m \<or> (\<exists>b e s. current = Some (b, e, s) \<and> \<not> older_open (lf_state m) b \<and> ls_current (lf_state m) \<noteq> Some b
       \<and> m1 = m\<lparr>lf_state := (lf_state m)\<lparr>ls_current := Some b,
            ls_tracked := AList.update b \<lparr>t_collectEnd = e, t_solveEnd = s, t_closed = False\<rparr> (trk m)\<rparr>,
            lf_frames := lf_frames m @ [Opened (later (lf_closedAt m) T) b]\<rparr>)"
  by (rule that, unfold open_batch_def Let_def, rule refl) (auto split: option.splits)

text \<open>
  What the tick relies on: the batch open at a later chain time is not an earlier one, it ends after
  that time, and its solution window after it.
\<close>

definition forward :: "(int \<Rightarrow> (int \<times> int \<times> int) option) \<Rightarrow> bool" where
  "forward answer \<longleftrightarrow> (\<forall>T b e s. answer T = Some (b, e, s) \<longrightarrow> b \<le> s \<and>
     (\<forall>T' b' e' s'. T \<le> T' \<and> answer T' = Some (b', e', s') \<longrightarrow> b \<le> b'))"

lemma opening_ok:
  assumes ok: "life_ok answer m" and fw: "forward answer" and ph: "lf_phase m = Opening T"
    and cur: "answer T = Some (b, e, s)" "\<not> older_open (lf_state m) b" "ls_current (lf_state m) \<noteq> Some b"
  defines "m1 \<equiv> m\<lparr>lf_state := (lf_state m)\<lparr>ls_current := Some b,
            ls_tracked := AList.update b \<lparr>t_collectEnd = e, t_solveEnd = s, t_closed = False\<rparr> (trk m)\<rparr>,
            lf_frames := lf_frames m @ [Opened (later (lf_closedAt m) T) b]\<rparr>"
  shows "life_ok answer m1"
proof -
  have ok': "tracks m" "closes m" "opens answer m" using ok by (auto simp: life_ok_def)
  have T: "ls_lastTime (lf_state m) = Some T" using ok'(3) ph by (simp add: opens_def)
  have below: "c < b" if c: "c \<in> set (opened_ids (lf_frames m))" for c
  proof -
    obtain d where d: "ls_current (lf_state m) = Some d" "c \<le> d" using ok'(3) c unfolding opens_def by blast
    obtain T0 e0 s0 where "answer T0 = Some (c, e0, s0)" "T0 \<le> T" using ok'(3) c T unfolding opens_def by force
    then have "c \<le> b" using fw cur(1) unfolding forward_def by blast
    moreover have "d \<le> b"
    proof -
      have "d \<in> set (opened_ids (lf_frames m))" using ok'(3) d(1) unfolding opens_def by blast
      then obtain T1 e1 s1 where "answer T1 = Some (d, e1, s1)" "T1 \<le> T" using ok'(3) T unfolding opens_def by force
      then show ?thesis using fw cur(1) unfolding forward_def by blast
    qed
    ultimately show ?thesis using d cur(3) by auto
  qed
  have closed: "c \<in> set (closed_ids (lf_frames m))" if c: "c \<in> set (opened_ids (lf_frames m))" for c
  proof (rule ccontr)
    assume n: "c \<notin> set (closed_ids (lf_frames m))"
    then obtain t where t: "map_of (trk m) c = Some t" using ok'(1) c unfolding tracks_def by auto
    then have "(c, t) \<in> set (trk m)" "\<not> t_closed t" using n tracksD(2) [OF ok'(1) t] by (auto dest: map_of_SomeD)
    then show False using cur(2) below [OF c] by (auto simp: older_open_def list_ex_iff)
  qed
  have "b \<notin> set (opened_ids (lf_frames m))" using below by blast
  then have fresh: "b \<notin> set (closed_ids (lf_frames m))" "b \<notin> set (opened_ids (lf_frames m))"
    using ok'(2) by (auto simp: closes_def)
  have "b \<le> s" using fw cur(1) unfolding forward_def by blast
  then have "tracks m1"
    using ok'(1) fresh unfolding tracks_def m1_def by (auto simp: store_laws)
  moreover have "closes m1" using ok'(2) unfolding closes_def m1_def by auto
  moreover have "all_closed_by (lf_frames m) (later (lf_closedAt m) T)"
  proof -
    have "frame_time x \<le> later (lf_closedAt m) T" if x: "x \<in> set (lf_frames m)" "closed_of x \<noteq> []" for x
    proof -
      obtain u c k e' where xe: "x = Collect_closed u c k e'" using x(2) by (cases x) auto
      then obtain z where "lf_closedAt m = Some z" "u \<le> z" using ok'(2) x(1) unfolding closes_def by blast
      then show ?thesis using later_ge(2) xe by (auto intro: order_trans)
    qed
    then show ?thesis using closed by (auto simp: all_closed_by_def)
  qed
  then have "opens answer m1"
    using ok'(3) below closed T cur(1) unfolding opens_def m1_def
    by (auto simp: orderly_snoc sorted_wrt_append intro: less_imp_le)
  ultimately show ?thesis by (simp add: life_ok_def)
qed


text \<open>Evicting forgets closed batches only.\<close>

lemma evict_ok:
  assumes ok: "life_ok answer m"
  shows "life_ok answer (m\<lparr>lf_state := (lf_state m)\<lparr>ls_tracked := evict (trk m) (trk m)\<rparr>, lf_phase := Reading_session T\<rparr>)"
proof -
  have tr: "tracks m" "closes m" "opens answer m" using ok by (auto simp: life_ok_def)
  have look: "map_of (evict (trk m) (trk m)) b = Some t \<Longrightarrow> map_of (trk m) b = Some t" for b t
    using evict_lookup [of "trk m" "trk m" b] by auto
  have kept: "b \<in> set (closed_ids (lf_frames m)) \<or> map_of (evict (trk m) (trk m)) b \<noteq> None"
    if b: "b \<in> set (opened_ids (lf_frames m))" for b
  proof (cases "b \<in> set (closed_ids (lf_frames m))")
    case False
    then obtain t where t: "map_of (trk m) b = Some t" using tr(1) b unfolding tracks_def by auto
    then have "\<not> t_closed t" using tracksD(2) [OF tr(1) t] False by simp
    moreover have "u = t" if "(b, u) \<in> set (trk m)" for u
      using that t tr(1) map_of_is_SomeI [of "trk m" b u] by (simp add: tracks_def)
    ultimately show ?thesis using evict_lookup [of "trk m" "trk m" b] t by auto
  qed simp
  have "tracks (m\<lparr>lf_state := (lf_state m)\<lparr>ls_tracked := evict (trk m) (trk m)\<rparr>, lf_phase := Reading_session T\<rparr>)"
    unfolding tracks_def
  proof (intro conjI allI impI ballI)
    let ?m = "m\<lparr>lf_state := (lf_state m)\<lparr>ls_tracked := evict (trk m) (trk m)\<rparr>, lf_phase := Reading_session T\<rparr>"
    show "distinct (map fst (trk ?m))" using tr(1) by (simp add: tracks_def evict_distinct)
    show "b \<in> set (closed_ids (lf_frames ?m)) \<or> map_of (trk ?m) b \<noteq> None" if "b \<in> set (opened_ids (lf_frames ?m))" for b
      using kept that by simp
    fix b t assume "map_of (trk ?m) b = Some t"
    then have "map_of (trk m) b = Some t" using look by simp
    from tracksD [OF tr(1) this]
    show "b \<in> set (opened_ids (lf_frames ?m))" "t_closed t \<longleftrightarrow> b \<in> set (closed_ids (lf_frames ?m))" "b \<le> t_solveEnd t"
      by simp_all
  qed
  then show ?thesis using tr(2,3) by (simp add: life_ok_def closes_def opens_def)
qed

lemma open_batch_ok:
  assumes ok: "life_ok answer m" and "forward answer" "lf_phase m = Opening T"
  shows "life_ok answer (open_batch (answer T) T m)"
proof -
  obtain m1 where m1: "open_batch (answer T) T m = m1\<lparr>lf_state := (lf_state m1)\<lparr>ls_tracked := evict (trk m1) (trk m1)\<rparr>, lf_phase := Reading_session T\<rparr>"
    and c: "m1 = m \<or> (\<exists>b e s. answer T = Some (b, e, s) \<and> \<not> older_open (lf_state m) b \<and> ls_current (lf_state m) \<noteq> Some b
       \<and> m1 = m\<lparr>lf_state := (lf_state m)\<lparr>ls_current := Some b,
            ls_tracked := AList.update b \<lparr>t_collectEnd = e, t_solveEnd = s, t_closed = False\<rparr> (trk m)\<rparr>,
            lf_frames := lf_frames m @ [Opened (later (lf_closedAt m) T) b]\<rparr>)"
    by (rule open_batch_parts)
  have "life_ok answer m1" using c opening_ok [OF assms] ok by blast
  then show ?thesis unfolding m1(1) by (rule evict_ok)
qed

section \<open>Every step keeps the agreement\<close>

text \<open>A quiet frame opens and closes nothing.\<close>

definition quiet :: "frame list \<Rightarrow> bool" where
  "quiet fs \<longleftrightarrow> list_all (\<lambda>x. opened_of x = [] \<and> closed_of x = []) fs"

lemma quiet_ids: "quiet fs \<Longrightarrow> opened_ids fs = [] \<and> closed_ids fs = []"
  unfolding quiet_def list_all_iff opened_ids_def closed_ids_def by simp

lemma quiet_orderly: "orderly fs \<Longrightarrow> quiet gs \<Longrightarrow> orderly (fs @ gs)"
proof (induction gs rule: rev_induct)
  case (snoc x gs)
  then have "orderly (fs @ gs)" "opened_of x = []" by (auto simp: quiet_def)
  then show ?case using orderly_snoc [of "fs @ gs" x] by auto
qed simp

lemma quiet_closed: "quiet gs \<Longrightarrow> Collect_closed t b n e \<notin> set gs"
  by (auto simp: quiet_def list_all_iff)

lemma quiet_step:
  assumes ok: "life_ok answer m" and q: "quiet gs" and f: "lf_frames m' = lf_frames m @ gs" and e: "lf_closedAt m' = lf_closedAt m"
    "trk m' = trk m" "ls_current (lf_state m') = ls_current (lf_state m)" "ls_lastTime (lf_state m') = ls_lastTime (lf_state m)"
    and ph: "\<forall>T. lf_phase m' = Opening T \<longrightarrow> ls_lastTime (lf_state m) = Some T"
  shows "life_ok answer m'"
proof -
  have tr: "tracks m" "closes m" "opens answer m" using ok by (auto simp: life_ok_def)
  have ids: "opened_ids (lf_frames m') = opened_ids (lf_frames m)" "closed_ids (lf_frames m') = closed_ids (lf_frames m)"
    using quiet_ids [OF q] by (simp_all add: f)
  have "tracks m'" by (rule tracks_cong [OF e(2) _ tr(1)]) (use ids in simp)
  moreover have "closes m'"
    using tr(2) quiet_closed [OF q] unfolding closes_def ids e by (simp add: f)
  moreover have "opens answer m'"
    using tr(3) ph quiet_orderly [OF _ q, of "lf_frames m"] unfolding opens_def ids e by (simp add: f)
  ultimately show ?thesis by (simp add: life_ok_def)
qed

lemma quiet_concat: "(\<And>a. quiet (g a)) \<Longrightarrow> quiet (concat (map g ts))"
  by (induction ts) (auto simp: quiet_def)

lemma quiet_frames:
  "quiet (protective_frames f g T ts)" "quiet (price_frames f ps tw h T ts)" "quiet [Session_changed T s]" "quiet []"
  unfolding protective_frames_def price_frames_def
  by (rule quiet_concat, simp add: quiet_def Let_def) (rule quiet_concat, simp add: quiet_def split: option.split, simp_all add: quiet_def)

lemma session_part_ok:
  assumes "life_ok answer m"
  shows "life_ok answer (session_part s T m)"
  by (rule quiet_step [OF assms, where gs = "case ls_session (lf_state m) of Some was \<Rightarrow> if s \<noteq> was then [Session_changed T s] else [] | None \<Rightarrow> []"])
     (simp_all add: session_part_def Let_def quiet_frames split: option.split)

lemma tokens_part_ok:
  assumes "life_ok answer m"
  shows "life_ok answer (tokens_part ts f T m)"
  by (rule quiet_step [OF assms, where gs = "case ls_tokenSessions (lf_state m) of None \<Rightarrow> [] | Some old \<Rightarrow> protective_frames old f T ts"])
     (simp_all add: tokens_part_def Let_def quiet_frames split: option.split)

lemma prices_part_ok:
  assumes "life_ok answer m"
  shows "life_ok answer (prices_part ts ps tw T m)"
  by (rule quiet_step [OF assms, where gs = "price_frames (case ls_tokenSessions (lf_state m) of Some f \<Rightarrow> f | None \<Rightarrow> (\<lambda>_. 0)) ps tw (ls_healthy (lf_state m)) T ts"])
     (simp_all add: prices_part_def Let_def quiet_frames)

lemma fail_ok: "life_ok answer m \<Longrightarrow> life_ok answer (m\<lparr>lf_phase := Idle\<rparr>)"
  by (rule quiet_step [OF _ quiet_frames(4)]) simp_all

text \<open>A tick that starts leaves its time in the state; one that finds time behind it starts a new history.\<close>

lemma fresh_ok: "lf_state m = fresh_state \<Longrightarrow> lf_frames m = [] \<Longrightarrow> \<forall>T. lf_phase m \<noteq> Opening T \<Longrightarrow> life_ok answer m"
  by (simp add: life_ok_def tracks_def closes_def opens_def orderly_def fresh_state_def)

lemma forget_queued: "life_ok answer (m\<lparr>lf_queued := q\<rparr>) = life_ok answer m"
  by (simp add: life_ok_def tracks_def closes_def opens_def)

lemma stamp_ok:
  assumes ok: "life_ok answer m" and T: "\<forall>l. ls_lastTime (lf_state m) = Some l \<longrightarrow> l \<le> T" and ph: "lf_phase m = Idle"
  shows "life_ok answer (m\<lparr>lf_state := (lf_state m)\<lparr>ls_lastTime := Some T\<rparr>\<rparr>)"
proof -
  have tr: "tracks m" "closes m" "opens answer m" using ok by (auto simp: life_ok_def)
  have "opens answer (m\<lparr>lf_state := (lf_state m)\<lparr>ls_lastTime := Some T\<rparr>\<rparr>)"
    using tr(3) T ph unfolding opens_def by (auto intro: order_trans) (meson order_trans)
  moreover have "tracks (m\<lparr>lf_state := (lf_state m)\<lparr>ls_lastTime := Some T\<rparr>\<rparr>)"
    by (rule tracks_cong [OF _ _ tr(1)]) simp_all
  ultimately show ?thesis using tr(2) by (simp add: life_ok_def closes_def)
qed


lemma begin_tick_ok:
  assumes ok: "life_ok answer m" and idle: "lf_phase m = Idle"
  shows "life_ok answer (begin_tick n T m)" "ls_lastTime (lf_state (begin_tick n T m)) = Some T" "lf_phase (begin_tick n T m) = Opening T"
    "b \<in> set (opened_ids (lf_frames (begin_tick n T m))) \<Longrightarrow> b < T \<Longrightarrow> b \<in> set (closed_ids (lf_frames (begin_tick n T m)))"
proof -
  define m1 where "m1 = (case ls_lastTime (lf_state m) of
      Some l \<Rightarrow> if T < l then m\<lparr>lf_state := fresh_state, lf_closedAt := None, lf_frames := []\<rparr> else m | None \<Rightarrow> m)"
  define m2 where "m2 = m1\<lparr>lf_state := (lf_state m1)\<lparr>ls_lastTime := Some T\<rparr>\<rparr>"
  have unf: "begin_tick n T m = (close_due n T m2)\<lparr>lf_phase := Opening T\<rparr>" by (simp add: begin_tick_def Let_def m1_def m2_def)
  have m1: "life_ok answer m1 \<and> lf_phase m1 = Idle \<and> (\<forall>l. ls_lastTime (lf_state m1) = Some l \<longrightarrow> l \<le> T)"
  proof (cases "ls_lastTime (lf_state m)")
    case None
    then show ?thesis using ok idle by (simp add: m1_def)
  next
    case (Some l)
    have "life_ok answer (m\<lparr>lf_state := fresh_state, lf_closedAt := None, lf_frames := []\<rparr>)" by (rule fresh_ok) (simp_all add: idle)
    then show ?thesis using ok idle Some by (simp add: m1_def) (simp add: fresh_state_def)
  qed
  have m2: "life_ok answer m2" "ls_lastTime (lf_state m2) = Some T" using stamp_ok [of answer m1 T] m1 by (simp_all add: m2_def)
  note c = close_due_ok [OF m2(1), where n = n and T = T]
  show "life_ok answer (begin_tick n T m)"
    unfolding unf by (rule quiet_step [OF c(1) quiet_frames(4)]) (simp_all add: c(3) m2(2))
  show "ls_lastTime (lf_state (begin_tick n T m)) = Some T" "lf_phase (begin_tick n T m) = Opening T"
    by (simp_all add: unf c(3) m2(2))
  show "b \<in> set (closed_ids (lf_frames (begin_tick n T m)))" if "b \<in> set (opened_ids (lf_frames (begin_tick n T m)))" "b < T"
    using that c(5,6) by (simp add: unf)
qed

lemma poll_busy_ok:
  assumes "life_ok answer m"
  shows "life_ok answer (poll_busy n head m)"
proof -
  have q: "life_ok answer (m\<lparr>lf_queued := Some head\<rparr>)" using assms by (simp add: forget_queued)
  show ?thesis using q close_due_ok(1) [OF q] by (auto simp: poll_busy_def Let_def split: option.split)
qed

lemma step_ok:
  assumes "life_step answer tokens m m'" "life_ok answer m" "forward answer"
  shows "life_ok answer m'"
  using assms
proof (cases rule: life_step.cases)
  case (Begin_queued head T n)
  then show ?thesis using assms(2) begin_tick_ok(1) [of answer "m\<lparr>lf_queued := None\<rparr>"] by (simp add: forget_queued)
qed (simp_all add: begin_tick_ok(1) poll_busy_ok open_batch_ok session_part_ok tokens_part_ok prices_part_ok fail_ok)

lemma life_reachable_ok:
  assumes "life_reachable answer tokens m" "forward answer"
  shows "life_ok answer m"
  using assms
proof (induction rule: life_reachable.induct)
  case Start
  show ?case by (rule fresh_ok) (simp_all add: start_life_def)
next
  case (Step m m')
  then show ?case using step_ok by blast
qed

section \<open>The cap on what is tracked\<close>

lemma update_length: "map_of xs b \<noteq> None \<Longrightarrow> length (AList.update b u xs) = length xs"
  by (induction xs) auto

lemma close_one_length: "length (trk (close_one n T m e)) \<le> length (trk m)" if "e = (b, t)" "map_of (trk m) b \<noteq> None" for e b t
proof -
  have "length (AList.update b u (trk m)) = length (trk m)" for u using that(2) by (rule update_length)
  then show ?thesis
    using that(1) length_delete_le [of b "AList.update b (t\<lparr>t_closed := True\<rparr>) (trk m)"] length_delete_le [of b "trk m"]
    by (simp add: close_one_def Let_def)
qed

lemma open_is_current:
  assumes "life_ok answer m" "map_of (trk m) b = Some t" "\<not> t_closed t"
  shows "ls_current (lf_state m) = Some b"
  using assms tracksD [of m b t] unfolding life_ok_def opens_def by blast

lemma evict_length:
  assumes ok: "life_ok answer m"
  shows "length (evict (trk m) (trk m)) \<le> MAX_TRACKED"
proof (rule ccontr)
  let ?tr = "evict (trk m) (trk m)"
  assume "\<not> length ?tr \<le> MAX_TRACKED"
  then have big: "MAX_TRACKED < length ?tr" by simp
  have d: "distinct (map fst (trk m))" using ok by (simp add: life_ok_def tracks_def)
  have "fst ` set ?tr \<subseteq> set_option (ls_current (lf_state m))"
  proof
    fix b assume b: "b \<in> fst ` set ?tr"
    then obtain t where t: "(b, t) \<in> set (trk m)" using evict_subset [of "trk m" "trk m"] by fastforce
    then have "\<not> t_closed t" using evict_bound [OF big t] b by blast
    moreover have "map_of (trk m) b = Some t" using t d by simp
    ultimately show "b \<in> set_option (ls_current (lf_state m))" using open_is_current [OF ok] by simp
  qed
  then have "card (fst ` set ?tr) \<le> card (set_option (ls_current (lf_state m)))" by (intro card_mono) auto
  also have "\<dots> \<le> 1" by (cases "ls_current (lf_state m)") auto
  finally have "length ?tr \<le> 1" using evict_distinct [OF d, of "trk m"] distinct_card by fastforce
  then show False using big by (simp add: MAX_TRACKED_def)
qed


lemma close_fold_length:
  assumes "distinct (map fst es)" "\<forall>(b, t)\<in>set es. map_of (trk m) b = Some t"
  shows "length (trk (foldl (close_one n T) m es)) \<le> length (trk m)"
  using assms
proof (induction es arbitrary: m)
  case (Cons e es)
  obtain b t where e: "e = (b, t)" by fastforce
  have t: "map_of (trk m) b = Some t" using Cons.prems(2) e by simp
  have "\<forall>(c, u)\<in>set es. map_of (trk (close_one n T m e)) c = Some u"
    using Cons.prems e unfolding e close_one_parts(1) [OF t, of n T] by (fastforce simp: image_iff)
  then have "length (trk (foldl (close_one n T) (close_one n T m e) es)) \<le> length (trk (close_one n T m e))"
    using Cons.IH Cons.prems(1) by simp
  also have "\<dots> \<le> length (trk m)" using close_one_length [OF e] t by simp
  finally show ?case by simp
qed simp

lemma close_due_length: "life_ok answer m \<Longrightarrow> length (trk (close_due n T m)) \<le> length (trk m)"
  unfolding close_due_def by (rule close_fold_length) (auto simp: life_ok_def tracks_def)

lemma begin_tick_length:
  assumes ok: "life_ok answer m" and idle: "lf_phase m = Idle"
  shows "length (trk (begin_tick n T m)) \<le> length (trk m)"
proof -
  have stamped: "length (trk (close_due n T (k\<lparr>lf_state := (lf_state k)\<lparr>ls_lastTime := Some T\<rparr>\<rparr>))) \<le> length (trk k)"
    if "life_ok answer k" "lf_phase k = Idle" "\<forall>l. ls_lastTime (lf_state k) = Some l \<longrightarrow> l \<le> T" for k
    using close_due_length [OF stamp_ok [OF that(1,3,2)], of n T] by simp
  have "life_ok answer (m\<lparr>lf_state := fresh_state, lf_closedAt := None, lf_frames := []\<rparr>)" by (rule fresh_ok) (simp_all add: idle)
  then show ?thesis
    using stamped [of m] stamped [of "m\<lparr>lf_state := fresh_state, lf_closedAt := None, lf_frames := []\<rparr>"] ok idle
    by (simp add: begin_tick_def Let_def split: option.split) (auto simp: fresh_state_def)
qed

lemma open_batch_length:
  assumes "life_ok answer m" "forward answer" "lf_phase m = Opening T"
  shows "length (trk (open_batch (answer T) T m)) \<le> MAX_TRACKED"
proof -
  obtain m1 where m1: "open_batch (answer T) T m = m1\<lparr>lf_state := (lf_state m1)\<lparr>ls_tracked := evict (trk m1) (trk m1)\<rparr>, lf_phase := Reading_session T\<rparr>"
    and c: "m1 = m \<or> (\<exists>b e s. answer T = Some (b, e, s) \<and> \<not> older_open (lf_state m) b \<and> ls_current (lf_state m) \<noteq> Some b
       \<and> m1 = m\<lparr>lf_state := (lf_state m)\<lparr>ls_current := Some b,
            ls_tracked := AList.update b \<lparr>t_collectEnd = e, t_solveEnd = s, t_closed = False\<rparr> (trk m)\<rparr>,
            lf_frames := lf_frames m @ [Opened (later (lf_closedAt m) T) b]\<rparr>)"
    by (rule open_batch_parts)
  have "life_ok answer m1" using c opening_ok [OF assms] assms(1) by blast
  then show ?thesis using evict_length by (simp add: m1(1))
qed

lemma step_length:
  assumes "life_step answer tokens m m'" "life_ok answer m" "forward answer" "length (trk m) \<le> MAX_TRACKED"
  shows "length (trk m') \<le> MAX_TRACKED"
  using assms(1)
proof (cases rule: life_step.cases)
  case (Begin n T)
  then show ?thesis using begin_tick_length [OF assms(2), of n T] assms(4) by simp
next
  case (Begin_queued head T n)
  then show ?thesis using begin_tick_length [of answer "m\<lparr>lf_queued := None\<rparr>" n T] assms(2,4) by (simp add: forget_queued)
next
  case (Busy n head)
  have "life_ok answer (m\<lparr>lf_queued := Some head\<rparr>)" using assms(2) by (simp add: forget_queued)
  then show ?thesis using close_due_length [of answer "m\<lparr>lf_queued := Some head\<rparr>" n] Busy assms(4)
    by (auto simp: poll_busy_def Let_def intro: order_trans split: option.split)
next
  case (Open T)
  then show ?thesis using open_batch_length [OF assms(2,3)] by simp
qed (use assms(4) in \<open>simp_all add: session_part_def tokens_part_def prices_part_def Let_def\<close>)

lemma reachable_length:
  assumes "life_reachable answer tokens m" "forward answer"
  shows "length (trk m) \<le> MAX_TRACKED"
  using assms
proof (induction rule: life_reachable.induct)
  case Start
  show ?case by (simp add: start_life_def fresh_state_def)
next
  case (Step m m')
  then show ?case using step_length life_reachable_ok by blast
qed


section \<open>What the machine promises\<close>

text \<open>
  In every reachable state, whatever the poll did while a tick waited: the batches announced as
  open are announced in increasing order of their ids, none twice; a close is announced once, only
  for a batch that was opened, and only at a chain time past the batch's collection end.
\<close>

theorem batch_frames_in_order:
  assumes "life_reachable answer tokens m" "forward answer"
  shows "sorted_wrt (<) (opened_ids (lf_frames m)) \<and> distinct (closed_ids (lf_frames m))
    \<and> set (closed_ids (lf_frames m)) \<subseteq> set (opened_ids (lf_frames m))
    \<and> (Collect_closed t b k e \<in> set (lf_frames m) \<longrightarrow> b < t)"
  using life_reachable_ok [OF assms] unfolding life_ok_def closes_def opens_def by blast

text \<open>
  C15. A listener hears a batch end before the next begins: before every open, each batch opened
  earlier has had its close, and the open carries no earlier time than any of those closes.
\<close>

theorem closes_before_next_open:
  assumes "life_reachable answer tokens m" "forward answer" "lf_frames m = ys @ Opened t b # zs"
  shows "\<forall>c\<in>set (opened_ids ys). \<exists>u k e. Collect_closed u c k e \<in> set ys \<and> u \<le> t"
proof
  fix c assume c: "c \<in> set (opened_ids ys)"
  have "all_closed_by ys t"
    using life_reachable_ok [OF assms(1,2)] assms(3) unfolding life_ok_def opens_def orderly_def by blast
  then have "c \<in> set (closed_ids ys)" and le: "\<forall>x\<in>set ys. closed_of x \<noteq> [] \<longrightarrow> frame_time x \<le> t"
    using c by (auto simp: all_closed_by_def)
  then obtain x where x: "x \<in> set ys" "c \<in> set (closed_of x)" by (auto simp: closed_ids_def)
  have "\<exists>u k e. x = Collect_closed u c k e" using x(2) by (induct x) auto
  then obtain u k e where "x = Collect_closed u c k e" by blast
  then show "\<exists>u k e. Collect_closed u c k e \<in> set ys \<and> u \<le> t" using x le by fastforce
qed

text \<open>
  Catching up: however late the tick comes, once it has begun on a block no batch that was
  announced and whose collection the block's time is past is left without its close.
\<close>

theorem tick_closes_everything_due:
  assumes "life_reachable answer tokens m" "forward answer" "lf_phase m = Idle"
    and "b \<in> set (opened_ids (lf_frames (begin_tick n T m)))" "b < T"
  shows "b \<in> set (closed_ids (lf_frames (begin_tick n T m)))"
  using begin_tick_ok(4) [OF life_reachable_ok [OF assms(1,2)] assms(3)] assms(4,5) by blast

text \<open>
  The cap holds and cannot swallow a close: at most MAX_TRACKED batches are tracked in every
  reachable state, and every batch announced as open is either closed by a frame or still tracked
  as not closed.
\<close>

theorem cap_never_swallows_a_close:
  assumes "life_reachable answer tokens m" "forward answer"
  shows "length (ls_tracked (lf_state m)) \<le> MAX_TRACKED
    \<and> (\<forall>b\<in>set (opened_ids (lf_frames m)). b \<in> set (closed_ids (lf_frames m))
         \<or> (\<exists>t. map_of (ls_tracked (lf_state m)) b = Some t \<and> \<not> t_closed t))"
proof -
  have tr: "tracks m" using life_reachable_ok [OF assms] by (simp add: life_ok_def)
  have "b \<in> set (closed_ids (lf_frames m)) \<or> (\<exists>t. map_of (trk m) b = Some t \<and> \<not> t_closed t)"
    if "b \<in> set (opened_ids (lf_frames m))" for b
    using tr that tracksD(2) [OF tr] unfolding tracks_def by (metis option.exhaust)
  then show ?thesis using reachable_length [OF assms] by blast
qed

section \<open>A run\<close>

definition sample_answer :: "int \<Rightarrow> (int \<times> int \<times> int) option" where
  "sample_answer T = (if T < 100 then Some (100, 100, 110) else Some (200, 200, 210))"

lemma sample_forward: "forward sample_answer"
  by (auto simp: forward_def sample_answer_def split: if_splits)

definition sample_first :: life where
  "sample_first = open_batch (sample_answer 90) 90 (begin_tick (\<lambda>_. 2) 90 start_life)"

definition sample_life :: life where
  "sample_life = open_batch (sample_answer 101) 101 (begin_tick (\<lambda>_. 2) 101 (sample_first\<lparr>lf_phase := Idle\<rparr>))"

lemma sample_first_eq:
  "sample_first = \<lparr>lf_state = \<lparr>ls_lastTime = Some 90, ls_current = Some 100,
      ls_tracked = [(100, \<lparr>t_collectEnd = 100, t_solveEnd = 110, t_closed = False\<rparr>)], ls_session = None, ls_tokenSessions = None, ls_healthy = None\<rparr>,
     lf_closedAt = None, lf_phase = Reading_session 90, lf_queued = None, lf_frames = [Opened 90 100]\<rparr>"
  by (simp add: sample_first_def begin_tick_def open_batch_def close_due_def start_life_def fresh_state_def sample_answer_def
      older_open_def later_def Let_def MAX_TRACKED_def)

lemma sample_first_reachable: "life_reachable sample_answer [] sample_first"
proof -
  have "life_reachable sample_answer [] (begin_tick (\<lambda>_. 2) 90 start_life)"
    by (rule Step [OF life_reachable.Start], rule Begin) (simp_all add: start_life_def)
  moreover have "lf_phase (begin_tick (\<lambda>_. 2) 90 start_life) = Opening 90" by (simp add: begin_tick_def Let_def)
  ultimately show ?thesis unfolding sample_first_def by (blast intro: Step life_step.Open)
qed

lemma sample_idle_reachable: "life_reachable sample_answer [] (sample_first\<lparr>lf_phase := Idle\<rparr>)"
  by (rule Step [OF sample_first_reachable], rule Fail) (simp add: sample_first_eq)

lemma sample_life_frames: "lf_frames sample_life = [Opened 90 100, Collect_closed 101 100 2 110, Opened 101 200]"
  by (simp add: sample_life_def sample_first_eq begin_tick_def open_batch_def close_due_def close_one_def sample_answer_def
      older_open_def later_def Let_def MAX_TRACKED_def FINALIZE_DEADLINE_def)

lemma sample_life_reachable: "life_reachable sample_answer [] sample_life"
proof -
  have "life_reachable sample_answer [] (begin_tick (\<lambda>_. 2) 101 (sample_first\<lparr>lf_phase := Idle\<rparr>))"
    by (rule Step [OF sample_idle_reachable], rule Begin) (simp_all add: sample_first_eq)
  moreover have "lf_phase (begin_tick (\<lambda>_. 2) 101 (sample_first\<lparr>lf_phase := Idle\<rparr>)) = Opening 101" by (simp add: begin_tick_def Let_def)
  ultimately show ?thesis unfolding sample_life_def by (blast intro: Step life_step.Open)
qed

lemma batch_frames_in_order_witness:
  "lf_frames sample_life = [Opened 90 100, Collect_closed 101 100 2 110, Opened 101 200] \<and> (100::int) < 101"
  using batch_frames_in_order [OF sample_life_reachable sample_forward, of 101 100 2 110] sample_life_frames by simp

lemma closes_before_next_open_witness:
  "lf_frames sample_life = [Opened 90 100, Collect_closed 101 100 2 110, Opened 101 200]
   \<and> (\<exists>u k e. Collect_closed u 100 k e \<in> set [Opened 90 100, Collect_closed 101 100 2 110] \<and> u \<le> 101)"
  using closes_before_next_open [OF sample_life_reachable sample_forward, of "[Opened 90 100, Collect_closed 101 100 2 110]" 101 200 "[]"]
  by (simp add: sample_life_frames)

lemma tick_closes_everything_due_witness:
  "opened_ids (lf_frames (begin_tick (\<lambda>_. 2) 400 (sample_first\<lparr>lf_phase := Idle\<rparr>))) = [100]
   \<and> 100 \<in> set (closed_ids (lf_frames (begin_tick (\<lambda>_. 2) 400 (sample_first\<lparr>lf_phase := Idle\<rparr>))))"
proof -
  have o: "opened_ids (lf_frames (begin_tick (\<lambda>_. 2) 400 (sample_first\<lparr>lf_phase := Idle\<rparr>))) = [100]"
    by (simp add: sample_first_eq begin_tick_def close_due_def close_one_def Let_def opened_ids_def)
  then show ?thesis using tick_closes_everything_due [OF sample_idle_reachable sample_forward, of 100 "\<lambda>_. 2" 400] by simp
qed

lemma cap_never_swallows_a_close_witness:
  "length (ls_tracked (lf_state sample_life)) \<le> 8 \<and> (\<exists>t. map_of (ls_tracked (lf_state sample_life)) 200 = Some t \<and> \<not> t_closed t)"
  using cap_never_swallows_a_close [OF sample_life_reachable sample_forward]
  by (simp add: sample_life_frames opened_ids_def closed_ids_def MAX_TRACKED_def)

text \<open>
  The opening frame is stamped no earlier than a close before it, but the frames after the open
  are not: a poll may close a batch at a later head while a tick waits for the sessions, and the
  tick then announces its session change at its own, earlier, block.
\<close>

theorem session_frame_behind_close:
  "\<exists>m. life_reachable sample_answer [] m
     \<and> lf_frames m = [Opened 90 100, Collect_closed 101 100 2 110, Session_changed 95 1]"
proof -
  define m1 where "m1 = (session_part 0 90 sample_first)\<lparr>lf_phase := Idle\<rparr>"
  define m2 where "m2 = begin_tick (\<lambda>_. 2) 95 m1"
  define m3 where "m3 = open_batch (sample_answer 95) 95 m2"
  define m4 where "m4 = poll_busy (\<lambda>_. 2) (Some 101) m3"
  define m5 where "m5 = session_part 1 95 m4"
  have e1: "m1 = \<lparr>lf_state = \<lparr>ls_lastTime = Some 90, ls_current = Some 100,
      ls_tracked = [(100, \<lparr>t_collectEnd = 100, t_solveEnd = 110, t_closed = False\<rparr>)], ls_session = Some 0, ls_tokenSessions = None, ls_healthy = None\<rparr>,
     lf_closedAt = None, lf_phase = Idle, lf_queued = None, lf_frames = [Opened 90 100]\<rparr>"
    by (simp add: m1_def sample_first_eq session_part_def Let_def)
  have "life_reachable sample_answer [] (session_part 0 90 sample_first)"
    by (rule Step [OF sample_first_reachable], rule Session) (simp add: sample_first_eq)
  then have r1: "life_reachable sample_answer [] m1"
    unfolding m1_def by (rule Step, intro Fail) (simp add: session_part_def Let_def)
  have e2: "m2 = \<lparr>lf_state = (lf_state m1)\<lparr>ls_lastTime := Some 95\<rparr>, lf_closedAt = None, lf_phase = Opening 95, lf_queued = None, lf_frames = [Opened 90 100]\<rparr>"
    by (simp add: m2_def e1 begin_tick_def close_due_def close_one_def Let_def FINALIZE_DEADLINE_def)
  have r2: "life_reachable sample_answer [] m2"
    unfolding m2_def by (rule Step [OF r1], rule Begin) (simp_all add: e1)
  have e3: "m3 = m2\<lparr>lf_phase := Reading_session 95\<rparr>"
    by (simp add: m3_def e2 e1 open_batch_def sample_answer_def older_open_def Let_def MAX_TRACKED_def)
  have r3: "life_reachable sample_answer [] m3"
    unfolding m3_def by (rule Step [OF r2], rule Open) (simp add: e2)
  have r4: "life_reachable sample_answer [] m4"
    unfolding m4_def by (rule Step [OF r3], rule Busy) (simp add: e3)
  have e4: "lf_phase m4 = Reading_session 95" "ls_session (lf_state m4) = Some 0" "lf_frames m4 = [Opened 90 100, Collect_closed 101 100 2 110]"
    by (simp_all add: m4_def e3 e2 e1 poll_busy_def close_due_def close_one_def later_def Let_def FINALIZE_DEADLINE_def)
  have "life_reachable sample_answer [] m5"
    unfolding m5_def by (rule Step [OF r4], rule Session) (simp add: e4)
  moreover have "lf_frames m5 = [Opened 90 100, Collect_closed 101 100 2 110, Session_changed 95 1]"
    by (simp add: m5_def session_part_def Let_def e4)
  ultimately show ?thesis by blast
qed

end
