(* ===== verification/Decimal.thy ===== *)
theory Decimal
  imports Prelude
begin

text \<open>
  Integers as decimal text, the way the API and the indexer carry them: \<^verbatim>\<open>String(n)\<close> of a BigInt,
  the pattern \<^verbatim>\<open>^(0|[1-9][0-9]*)$\<close> that intent.ts and the batch routes test, and \<^verbatim>\<open>BigInt(text)\<close> of a
  text that matched it.
\<close>

definition digit_char :: "nat \<Rightarrow> char" where
  "digit_char n = char_of (48 + n)"

definition is_digit :: "char \<Rightarrow> bool" where
  "is_digit c = (let n = (of_char c :: nat) in 48 \<le> n \<and> n \<le> 57)"

fun nat_digits :: "nat \<Rightarrow> string" where
  "nat_digits n = (if n < 10 then [digit_char n] else nat_digits (n div 10) @ [digit_char (n mod 10)])"

declare nat_digits.simps [simp del]

definition decimal :: "int \<Rightarrow> string" where
  "decimal n = (if n < 0 then CHR ''-'' # nat_digits (nat (- n)) else nat_digits (nat n))"

definition canonical_decimal :: "string \<Rightarrow> bool" where
  "canonical_decimal s = (case s of [] \<Rightarrow> False
     | c # cs \<Rightarrow> (c = CHR ''0'' \<and> cs = []) \<or> (is_digit c \<and> c \<noteq> CHR ''0'' \<and> list_all is_digit cs))"

definition decimal_value :: "string \<Rightarrow> int" where
  "decimal_value s = foldl (\<lambda>acc c. 10 * acc + (int (of_char c) - 48)) 0 s"

lemma of_digit_char: "n < 10 \<Longrightarrow> (of_char (digit_char n) :: nat) = 48 + n"
  by (simp add: digit_char_def of_char_of)

lemma is_digit_char [simp]: "n < 10 \<Longrightarrow> is_digit (digit_char n)"
  by (simp add: is_digit_def of_digit_char)

lemma is_digitE:
  assumes "is_digit c"
  obtains n where "n < 10" "c = digit_char n"
proof
  let ?n = "(of_char c :: nat) - 48"
  show "?n < 10" using assms by (auto simp: is_digit_def Let_def)
  have "48 + ?n = of_char c" using assms by (auto simp: is_digit_def Let_def)
  then show "c = digit_char ?n" by (simp add: digit_char_def)
qed

lemma digit_char_zero: "n < 10 \<Longrightarrow> digit_char n = CHR ''0'' \<longleftrightarrow> n = 0"
proof
  assume "n < 10" "digit_char n = CHR ''0''"
  then have "48 + n = (of_char (CHR ''0'') :: nat)" using of_digit_char by metis
  then show "n = 0" by simp
next
  have "digit_char 0 = CHR ''0''" by code_simp
  then show "n = 0 \<Longrightarrow> digit_char n = CHR ''0''" by simp
qed

lemma decimal_value_snoc: "decimal_value (s @ [c]) = 10 * decimal_value s + (int (of_char c) - 48)"
  by (simp add: decimal_value_def)

lemma decimal_value_nat_digits: "decimal_value (nat_digits n) = int n"
proof (induction n rule: nat_digits.induct)
  case (1 n)
  show ?case
  proof (cases "n < 10")
    case True
    then show ?thesis by (subst nat_digits.simps) (simp add: decimal_value_def of_digit_char)
  next
    case False
    have "int (of_char (digit_char (n mod 10))) = 48 + int (n mod 10)" by (simp add: of_digit_char)
    moreover have "int n = 10 * int (n div 10) + int (n mod 10)" by presburger
    ultimately show ?thesis using False 1 by (subst nat_digits.simps) (simp add: decimal_value_snoc)
  qed
qed

lemma decimal_value_decimal [simp]: "0 \<le> n \<Longrightarrow> decimal_value (decimal n) = n"
  by (simp add: decimal_def decimal_value_nat_digits)

lemma decimal_inj: "0 \<le> m \<Longrightarrow> 0 \<le> n \<Longrightarrow> decimal m = decimal n \<Longrightarrow> m = n"
  by (metis decimal_value_decimal)

lemma canonical_snoc: "canonical_decimal s \<Longrightarrow> s \<noteq> ''0'' \<Longrightarrow> is_digit c \<Longrightarrow> canonical_decimal (s @ [c])"
  by (auto simp: canonical_decimal_def split: list.splits)

lemma nat_digits_nonzero: "0 < n \<Longrightarrow> nat_digits n \<noteq> ''0''"
proof
  assume "0 < n" "nat_digits n = ''0''"
  then have "int n = decimal_value ''0''" using decimal_value_nat_digits by metis
  then show False using \<open>0 < n\<close> by (simp add: decimal_value_def)
qed

lemma canonical_nat_digits: "canonical_decimal (nat_digits n)"
proof (induction n rule: nat_digits.induct)
  case (1 n)
  show ?case
  proof (cases "n < 10")
    case True
    then show ?thesis by (subst nat_digits.simps) (auto simp: canonical_decimal_def digit_char_zero)
  next
    case False
    then have "canonical_decimal (nat_digits (n div 10))" "nat_digits (n div 10) \<noteq> ''0''"
      using 1 nat_digits_nonzero [of "n div 10"] by auto
    then show ?thesis using False by (subst nat_digits.simps) (simp add: canonical_snoc)
  qed
qed

lemma canonical_decimal_decimal [simp]: "0 \<le> n \<Longrightarrow> canonical_decimal (decimal n)"
  by (simp add: decimal_def canonical_nat_digits)

lemma decimal_value_nonneg: "list_all is_digit s \<Longrightarrow> 0 \<le> decimal_value s"
proof (induction s rule: rev_induct)
  case (snoc c s)
  then show ?case by (auto simp: decimal_value_snoc is_digit_def Let_def)
qed (simp add: decimal_value_def)

lemma canonical_digits: "canonical_decimal s \<Longrightarrow> list_all is_digit s"
  by (auto simp: canonical_decimal_def is_digit_def split: list.splits)

lemma canonical_prefix: "canonical_decimal (s @ [c]) \<Longrightarrow> s \<noteq> [] \<Longrightarrow> canonical_decimal s \<and> s \<noteq> ''0''"
  by (auto simp: canonical_decimal_def split: list.splits)

lemma canonical_positive: "canonical_decimal s \<Longrightarrow> s \<noteq> ''0'' \<Longrightarrow> 0 < decimal_value s"
proof (induction s rule: rev_induct)
  case (snoc c s)
  obtain n where n: "n < 10" "c = digit_char n"
    using canonical_digits [OF snoc.prems(1)] is_digitE [of c] by auto
  show ?case
  proof (cases "s = []")
    case True
    then have "n \<noteq> 0" using snoc.prems(2) n digit_char_zero by auto
    then show ?thesis using True n by (simp add: decimal_value_def of_digit_char)
  next
    case False
    then have "0 < decimal_value s" using snoc canonical_prefix by blast
    then show ?thesis using n by (simp add: decimal_value_snoc of_digit_char)
  qed
qed (simp add: canonical_decimal_def)

lemma decimal_decimal_value [simp]: "canonical_decimal s \<Longrightarrow> decimal (decimal_value s) = s"
proof (induction s rule: rev_induct)
  case (snoc c s)
  obtain n where n: "n < 10" "c = digit_char n"
    using canonical_digits [OF snoc.prems] is_digitE [of c] by auto
  show ?case
  proof (cases "s = []")
    case True
    then show ?thesis using n
      by (simp add: decimal_value_def of_digit_char decimal_def) (subst nat_digits.simps, simp)
  next
    case False
    note c = canonical_prefix [OF snoc.prems False]
    then have pos: "0 < decimal_value s" and ih: "decimal (decimal_value s) = s"
      using canonical_positive snoc.IH by auto
    let ?v = "10 * decimal_value s + int n"
    have v: "decimal_value (s @ [c]) = ?v" using n by (simp add: decimal_value_snoc of_digit_char)
    obtain k where k: "decimal_value s = int k" "0 < k" using pos by (metis of_nat_0_less_iff zero_less_imp_eq_int)
    then have "nat ?v = 10 * k + n" by simp
    then have "nat ?v div 10 = nat (decimal_value s)" "nat ?v mod 10 = n" "10 \<le> nat ?v" using k n(1) by simp_all
    then show ?thesis
      unfolding v using ih pos n(2) by (simp add: decimal_def) (subst nat_digits.simps, simp)
  qed
qed (simp add: canonical_decimal_def)

text \<open>The digits counted on integers, so that a number of some size is written without counting up to it.\<close>

function int_digits :: "int \<Rightarrow> string" where
  "int_digits n = (if n < 10 then [digit_char (nat n)] else int_digits (n div 10) @ [digit_char (nat (n mod 10))])"
  by auto
termination
  by (relation "measure nat") auto

declare int_digits.simps [simp del]

lemma int_digits_nat: "0 \<le> n \<Longrightarrow> int_digits n = nat_digits (nat n)"
proof (induction n rule: int_digits.induct)
  case (1 n)
  then have "\<not> n < 10 \<Longrightarrow> nat (n div 10) = nat n div 10 \<and> nat (n mod 10) = nat n mod 10"
    by (simp add: nat_div_distrib nat_mod_distrib)
  then show ?case using 1 by (subst int_digits.simps, subst nat_digits.simps) auto
qed

lemma decimal_code [code]: "decimal n = (if n < 0 then CHR ''-'' # int_digits (- n) else int_digits n)"
  by (simp add: decimal_def int_digits_nat)

end
