(* ===== verification/IndexRows.thy ===== *)
theory IndexRows
  imports Decimal
begin

text \<open>
  indexer/src/project.ts: from one decoded log to the rows it puts in the domain tables. A row is the
  list of its columns in the order the object literal has them; a value is what a JSON safe argument
  or a column can hold.
\<close>

section \<open>Values of the language\<close>

datatype js = Undefined | Null | Bool bool | Num int | NaN | Str string | Arr "js list" | Obj "(string \<times> js) list"

type_synonym row = "(string \<times> js) list"

definition row_get :: "row \<Rightarrow> string \<Rightarrow> js" where
  "row_get r k = (case map_of r k of None \<Rightarrow> Undefined | Some v \<Rightarrow> v)"

text \<open>\<^verbatim>\<open>===\<close> compares two objects by identity; the columns it is applied to hold none.\<close>

definition plain :: "js \<Rightarrow> bool" where
  "plain v = (case v of Undefined \<Rightarrow> False | NaN \<Rightarrow> False | Arr _ \<Rightarrow> False | Obj _ \<Rightarrow> False | _ \<Rightarrow> True)"

definition strict_eq :: "js \<Rightarrow> js \<Rightarrow> bool" where
  "strict_eq a b \<longleftrightarrow> a = b \<and> (a = Undefined \<or> plain a)"

fun join :: "string \<Rightarrow> string list \<Rightarrow> string" where
  "join sep [] = []"
| "join sep [x] = x"
| "join sep (x # y # xs) = x @ sep @ join sep (y # xs)"

text \<open>\<^verbatim>\<open>String(v)\<close>, \<^verbatim>\<open>Boolean(v)\<close> and \<^verbatim>\<open>a ?? null\<close>.\<close>

fun js_string :: "js \<Rightarrow> string" where
  "js_string Undefined = ''undefined''"
| "js_string Null = ''null''"
| "js_string (Bool b) = (if b then ''true'' else ''false'')"
| "js_string (Num n) = decimal n"
| "js_string NaN = ''NaN''"
| "js_string (Str s) = s"
| "js_string (Arr vs) = join '','' (map (\<lambda>v. if v = Undefined \<or> v = Null then [] else js_string v) vs)"
| "js_string (Obj fs) = ''[object Object]''"

fun js_boolean :: "js \<Rightarrow> bool" where
  "js_boolean (Bool b) = b"
| "js_boolean (Num n) = (n \<noteq> 0)"
| "js_boolean (Str s) = (s \<noteq> [])"
| "js_boolean (Arr vs) = True"
| "js_boolean (Obj fs) = True"
| "js_boolean _ = False"

definition nullish :: "js \<Rightarrow> js" where
  "nullish v = (if v = Undefined then Null else v)"

text \<open>
  Integers spelled in text: white space around, nothing for zero, a sign before decimal digits, or
  hexadecimal, octal and binary digits after their prefix. \<open>BigInt(text)\<close> reads exactly these and throws
  otherwise.
\<close>

definition is_space :: "char \<Rightarrow> bool" where
  "is_space c = (let n = (of_char c :: nat) in n = 32 \<or> (9 \<le> n \<and> n \<le> 13))"

definition trim :: "string \<Rightarrow> string" where
  "trim s = rev (dropWhile is_space (rev (dropWhile is_space s)))"

definition digit_of :: "char \<Rightarrow> nat" where
  "digit_of c = (let n = (of_char c :: nat)
     in if 48 \<le> n \<and> n \<le> 57 then n - 48 else if 97 \<le> n \<and> n \<le> 102 then n - 87 else if 65 \<le> n \<and> n \<le> 70 then n - 55 else 99)"

definition in_base :: "nat \<Rightarrow> string \<Rightarrow> int option" where
  "in_base b s = (if s \<noteq> [] \<and> list_all (\<lambda>c. digit_of c < b) s then Some (foldl (\<lambda>acc c. int b * acc + int (digit_of c)) 0 s) else None)"

definition string_to_integer :: "string \<Rightarrow> int option" where
  "string_to_integer text =
     (let s = trim text; p = take 2 s
      in if s = [] then Some 0
         else if p = ''0x'' \<or> p = ''0X'' then in_base 16 (drop 2 s)
         else if p = ''0o'' \<or> p = ''0O'' then in_base 8 (drop 2 s)
         else if p = ''0b'' \<or> p = ''0B'' then in_base 2 (drop 2 s)
         else if hd s = CHR ''-'' then map_option uminus (in_base 10 (tl s))
         else if hd s = CHR ''+'' then in_base 10 (tl s)
         else in_base 10 s)"

text \<open>
  \<^verbatim>\<open>Number(v)\<close>: an integer beyond 53 bits is rounded to the nearest double, ties to even. The
  arguments it is applied to are uints, so text with a fraction or an exponent does not occur; it is
  read as NaN here.
\<close>

fun bit_length :: "nat \<Rightarrow> nat" where
  "bit_length n = (if n = 0 then 0 else Suc (bit_length (n div 2)))"

declare bit_length.simps [simp del]

definition nearest_double :: "int \<Rightarrow> int" where
  "nearest_double n =
     (let m = \<bar>n\<bar> in if m < 2 ^ 53 then n
      else let e = bit_length (nat m) - 53; q = m div 2 ^ e; r = m mod 2 ^ e;
               up = (2 * r > 2 ^ e \<or> (2 * r = 2 ^ e \<and> odd q))
           in sgn n * ((if up then q + 1 else q) * 2 ^ e))"

definition number_of_text :: "string \<Rightarrow> js" where
  "number_of_text s = (case string_to_integer s of None \<Rightarrow> NaN | Some n \<Rightarrow> Num (nearest_double n))"

fun js_number :: "js \<Rightarrow> js" where
  "js_number Undefined = NaN"
| "js_number Null = Num 0"
| "js_number (Bool b) = Num (if b then 1 else 0)"
| "js_number (Num n) = Num n"
| "js_number NaN = NaN"
| "js_number (Str s) = number_of_text s"
| "js_number (Arr vs) = number_of_text (js_string (Arr vs))"
| "js_number (Obj fs) = NaN"

lemma digit_of_char: "n < 10 \<Longrightarrow> digit_of (digit_char n) = n"
  by (simp add: digit_of_def of_digit_char)

lemma digit_of_decimal: "is_digit c \<Longrightarrow> digit_of c < 10 \<and> int (digit_of c) = int (of_char c) - 48"
  by (auto simp: is_digit_def digit_of_def Let_def)

lemma in_base_digits: "s \<noteq> [] \<Longrightarrow> list_all is_digit s \<Longrightarrow> in_base 10 s = Some (decimal_value s)"
proof -
  assume s: "s \<noteq> []" "list_all is_digit s"
  have "foldl (\<lambda>acc c. int 10 * acc + int (digit_of c)) 0 s = decimal_value s"
    unfolding decimal_value_def by (rule foldl_cong) (use s(2) digit_of_decimal in \<open>auto simp: list_all_iff\<close>)
  then show ?thesis using s digit_of_decimal by (auto simp: in_base_def list_all_iff)
qed

lemma digit_not_space: "is_digit c \<Longrightarrow> \<not> is_space c"
  by (auto simp: is_digit_def is_space_def Let_def)

lemma trim_digits: "list_all is_digit s \<Longrightarrow> trim s = s"
proof -
  assume d: "list_all is_digit s"
  have "dropWhile is_space t = t" if "list_all is_digit t" for t
    using that digit_not_space by (cases t) auto
  then show ?thesis using d by (simp add: trim_def)
qed

lemma string_to_integer_decimal [simp]: "0 \<le> n \<Longrightarrow> string_to_integer (decimal n) = Some n"
proof -
  assume n: "0 \<le> n"
  let ?s = "decimal n"
  have c: "canonical_decimal ?s" using n by simp
  have d: "list_all is_digit ?s" by (rule canonical_digits [OF c])
  have ne: "?s \<noteq> []" using c by (auto simp: canonical_decimal_def)
  have "is_digit (hd ?s)" using d ne by (cases ?s) auto
  then have sign: "hd ?s \<noteq> CHR ''-''" "hd ?s \<noteq> CHR ''+''" by (auto simp: is_digit_def)
  have pre: "take 2 ?s \<noteq> [CHR ''0'', x]" if "\<not> is_digit x" for x
    using d that by (cases ?s; cases "tl ?s") auto
  have no: "\<not> is_digit (CHR ''x'')" "\<not> is_digit (CHR ''X'')" "\<not> is_digit (CHR ''o'')" "\<not> is_digit (CHR ''O'')" "\<not> is_digit (CHR ''b'')" "\<not> is_digit (CHR ''B'')"
    by (simp_all add: is_digit_def)
  show ?thesis
    using pre [OF no(1)] pre [OF no(2)] pre [OF no(3)] pre [OF no(4)] pre [OF no(5)] pre [OF no(6)] sign ne n
      in_base_digits [OF ne d] by (simp add: string_to_integer_def Let_def trim_digits [OF d])
qed

lemma js_number_uint: "0 \<le> n \<Longrightarrow> n < 2 ^ 53 \<Longrightarrow> js_number (Str (decimal n)) = Num n"
  by (simp add: number_of_text_def nearest_double_def)


section \<open>Logs and operations\<close>

type_synonym args = "(string \<times> js) list"

record decoded_log =
  lg_chainId :: int
  lg_deployment :: string
  lg_block :: int
  lg_blockHash :: string
  lg_blockTimestamp :: int
  lg_txHash :: string
  lg_index :: int
  lg_address :: string
  lg_contract :: string
  lg_event :: string
  lg_args :: args

datatype op =
    Insert string row
  | Upsert string row
  | Merge string row row

definition PROVENANCE_KEY :: "string list" where
  "PROVENANCE_KEY = [''chain_id'', ''tx_hash'', ''log_index'']"

definition KEYS :: "(string \<times> string list) list" where
  "KEYS = [(''batches'', [''deployment'', ''batch_id'']), (''auctions'', [''deployment'', ''auction_id'']),
     (''batch_solutions'', [''deployment'', ''batch_id'']), (''fills'', PROVENANCE_KEY), (''prices'', PROVENANCE_KEY),
     (''indicative'', PROVENANCE_KEY), (''closing_prints'', PROVENANCE_KEY), (''closing_prints_withheld'', PROVENANCE_KEY),
     (''solvers'', PROVENANCE_KEY), (''sessions'', PROVENANCE_KEY), (''solutions'', PROVENANCE_KEY),
     (''venue_routes'', PROVENANCE_KEY), (''collection_failures'', PROVENANCE_KEY)]"

definition DOMAIN_TABLES :: "string list" where
  "DOMAIN_TABLES = filter (\<lambda>t. t \<noteq> ''batch_solutions'') (map fst KEYS)"

text \<open>\<open>hexToString\<close> is viem's, at size 32; it throws on what it cannot read, and then the hex itself is kept.\<close>

definition reason_text :: "(string \<Rightarrow> string option) \<Rightarrow> js \<Rightarrow> string" where
  "reason_text hexToString v =
     (let hex = js_string v
      in case hexToString hex of None \<Rightarrow> hex | Some t \<Rightarrow> rev (dropWhile (\<lambda>c. c = CHR 0x00) (rev t)))"

definition provenance_row :: "decoded_log \<Rightarrow> row" where
  "provenance_row l =
     [(''chain_id'', Num (lg_chainId l)), (''block_number'', Str (decimal (lg_block l))),
      (''block_timestamp'', Str (decimal (lg_blockTimestamp l))), (''tx_hash'', Str (lg_txHash l)), (''log_index'', Num (lg_index l))]"

definition deviation_bps :: "int \<Rightarrow> int \<Rightarrow> int" where
  "deviation_bps price refPrice =
     (if refPrice = 0 then 0
      else let diff = (if price > refPrice then price - refPrice else refPrice - price) in diff * 10000 sdiv refPrice)"

text \<open>The columns of a literal: \<open>s\<close> copies an argument as text, \<open>n\<close> as a number.\<close>

definition text_col :: "decoded_log \<Rightarrow> string \<Rightarrow> string \<Rightarrow> string \<times> js" where
  "text_col l col arg = (col, Str (js_string (row_get (lg_args l) arg)))"

definition number_col :: "decoded_log \<Rightarrow> string \<Rightarrow> string \<Rightarrow> string \<times> js" where
  "number_col l col arg = (col, js_number (row_get (lg_args l) arg))"

definition deployment_col :: "decoded_log \<Rightarrow> row" where
  "deployment_col l = [(''deployment'', Str (lg_deployment l))]"

definition auction_merge :: "decoded_log \<Rightarrow> row \<Rightarrow> op" where
  "auction_merge l cols =
     Merge ''auctions'' (deployment_col l @ [text_col l ''auction_id'' ''auctionId''])
       (cols @ [(''last_block_number'', Str (decimal (lg_block l))), (''last_tx_hash'', Str (lg_txHash l)), (''last_log_index'', Num (lg_index l))])"

definition solver_row :: "decoded_log \<Rightarrow> string \<Rightarrow> row \<Rightarrow> op" where
  "solver_row l event cols =
     Insert ''solvers'' (deployment_col l @ [text_col l ''solver'' ''solver'', (''event'', Str event)] @ cols @ provenance_row l)"

section \<open>The projection\<close>

definition project_settlement :: "(string \<Rightarrow> string option) \<Rightarrow> decoded_log \<Rightarrow> string \<Rightarrow> op list option" where
  "project_settlement hexToString l k =
     (let s = text_col l; n = number_col l; a = row_get (lg_args l); d = deployment_col l; p = provenance_row l in
      if k = ''Settlement.BatchSettled'' then
        Some [Upsert ''batches'' (d @ [s ''batch_id'' ''batchId'', (''outcome'', Str ''settled''), n ''session'' ''session'', n ''intent_count'' ''intentCount'',
          s ''netted_usd'' ''nettedVolumeUsd'', s ''routed_usd'' ''routedVolumeUsd'', s ''savings_usd'' ''totalSavingsUsd'', s ''solver_fee_usd'' ''solverFeeUsd'',
          s ''protocol_fee_usd'' ''protocolFeeUsd'', s ''solver'' ''solver''] @ p)]
      else if k = ''Settlement.BatchPassthrough'' then
        let reason = js_string (a ''reason'');
            outcome = (if reason = ''winner never finalized'' then ''expired'' else ''passthrough'')
        in Some [Insert ''batches'' (d @ [s ''batch_id'' ''batchId'', (''outcome'', Str outcome), (''reason'', Str reason), n ''intent_count'' ''intentCount''] @ p)]
      else if k = ''Settlement.IntentSettled'' then
        Some [Insert ''fills'' (d @ [s ''batch_id'' ''batchId'', s ''intent_hash'' ''intentHash'', s ''owner'' ''owner'', s ''sell_token'' ''sellToken'',
          s ''buy_token'' ''buyToken'', s ''executed_sell'' ''executedSell'', s ''executed_buy'' ''executedBuy'', s ''baseline_buy'' ''baselineBuy'',
          s ''savings_usd'' ''savingsUsd''] @ p)]
      else if k = ''Settlement.ClearingPrice'' then
        (case (string_to_integer (js_string (a ''price'')), string_to_integer (js_string (a ''refPrice''))) of
           (Some price, Some refPrice) \<Rightarrow>
             Some [Insert ''prices'' (d @ [s ''batch_id'' ''batchId'', s ''token'' ''token'', s ''price'' ''price'', s ''ref_price'' ''refPrice'',
               (''deviation_bps'', Str (decimal (deviation_bps price refPrice)))] @ p)]
         | _ \<Rightarrow> None)
      else if k = ''Settlement.SolutionSubmitted'' then
        Some [Insert ''solutions'' (d @ [s ''batch_id'' ''batchId'', s ''solver'' ''solver'', s ''solution_hash'' ''hash'', s ''claimed_savings'' ''claimedSavings'',
          (''accepted'', Bool True), (''rejection_reason'', Null)] @ p)]
      else if k = ''Settlement.SolutionRejected'' then
        Some [Merge ''solutions'' (d @ [(''tx_hash'', Str (lg_txHash l)), s ''solver'' ''solver''])
          [(''accepted'', Bool False), (''rejection_reason'', Str (reason_text hexToString (a ''reason'')))]]
      else if k = ''Settlement.VenueRouted'' then
        Some [Insert ''venue_routes'' (d @ [s ''batch_id'' ''batchId'', s ''adapter'' ''adapter'', s ''token_in'' ''tokenIn'', s ''token_out'' ''tokenOut'',
          s ''amount_in'' ''amountIn'', s ''amount_out'' ''amountOut''] @ p)]
      else if k = ''Settlement.IntentCollectionFailed'' then
        Some [Insert ''collection_failures'' (d @ [s ''batch_id'' ''batchId'', s ''owner'' ''owner'', n ''intent_index'' ''intentIndex''] @ p)]
      else Some [])"

definition project_auction :: "(string \<Rightarrow> string option) \<Rightarrow> decoded_log \<Rightarrow> string \<Rightarrow> op list" where
  "project_auction hexToString l k =
     (let s = text_col l; n = number_col l; a = row_get (lg_args l); d = deployment_col l; p = provenance_row l;
          ts = (''ts'', Str (decimal (lg_blockTimestamp l))) in
      if k = ''AuctionHouse.AuctionOpened'' then
        [Insert ''auctions'' (d @ [s ''auction_id'' ''auctionId'', s ''token'' ''token'', n ''kind'' ''kind'', s ''cross_at'' ''crossAt'',
          (''status'', Str ''open''), (''extensions'', Num 0)] @ p @
          [(''last_block_number'', row_get p ''block_number''), (''last_tx_hash'', Str (lg_txHash l)), (''last_log_index'', Num (lg_index l))])]
      else if k = ''AuctionHouse.AuctionExtended'' then
        [auction_merge l [n ''extensions'' ''extensionCount'', n ''collar_bps'' ''newCollarBps'']]
      else if k = ''AuctionHouse.AuctionFrozen'' then
        [auction_merge l [(''status'', Str ''frozen''), s ''committed_intents'' ''committedIntents'', s ''escrowed_value'' ''escrowedValue'']]
      else if k = ''AuctionHouse.CrossExecuted'' then
        [auction_merge l [(''status'', Str ''crossed''), s ''price'' ''price'', s ''volume'' ''volume'', n ''participants'' ''participants'']]
      else if k = ''AuctionHouse.AuctionAborted'' then
        [auction_merge l [(''status'', Str ''aborted''), (''abort_reason'', Str (reason_text hexToString (a ''reason'')))]]
      else if k = ''AuctionHouse.IndicativePublished'' then
        [Insert ''indicative'' (d @ [s ''auction_id'' ''auctionId'', s ''token'' ''token'', ts, s ''price'' ''indicativePrice'',
          s ''imbalance'' ''imbalance'', s ''matched_volume'' ''matchedVolume''] @ p)]
      else if k = ''AuctionHouse.ClosingPrintPublished'' then
        [Insert ''closing_prints'' (d @ [s ''token'' ''token'', s ''day'' ''day'', s ''price'' ''price'', s ''volume'' ''volume'',
          n ''participants'' ''participants'', (''sufficient'', Bool (js_boolean (a ''sufficient'')))] @ p)]
      else if k = ''AuctionHouse.ClosingPrintWithheld'' then
        [Insert ''closing_prints_withheld'' (d @ [s ''token'' ''token'', s ''day'' ''day'', (''reason'', Str (reason_text hexToString (a ''reason''))),
          s ''volume'' ''volume'', n ''participants'' ''participants''] @ p)]
      else [])"

definition project_solver :: "(string \<Rightarrow> string option) \<Rightarrow> decoded_log \<Rightarrow> string \<Rightarrow> op list" where
  "project_solver hexToString l k =
     (let s = text_col l; a = row_get (lg_args l) in
      if k = ''SolverRegistry.SolverBonded'' then [solver_row l ''bonded'' [s ''bonded_total'' ''total'']]
      else if k = ''SolverRegistry.SolverScoreUpdated'' then
        [solver_row l ''score'' [s ''batches_won'' ''batchesWon'', s ''savings_usd'' ''savingsGeneratedUsd'']]
      else if k = ''SolverRegistry.SolverSlashed'' then
        [solver_row l ''slashed'' [s ''slash_amount'' ''amount'', (''slash_reason'', Str (reason_text hexToString (a ''reason'')))]]
      else if k = ''SolverRegistry.SolverUnbondRequested'' then [solver_row l ''unbond_requested'' []]
      else [])"

definition project_session :: "(string \<Rightarrow> string option) \<Rightarrow> decoded_log \<Rightarrow> string \<Rightarrow> op list" where
  "project_session hexToString l k =
     (let s = text_col l; n = number_col l; a = row_get (lg_args l); d = deployment_col l; p = provenance_row l;
          ts = (''ts'', Str (decimal (lg_blockTimestamp l))) in
      if k = ''SessionManager.SessionChanged'' then
        [Insert ''sessions'' (d @ [(''kind'', Str ''changed''), s ''ts'' ''timestamp'', n ''from_session'' ''from'', n ''to_session'' ''to''] @ p)]
      else if k = ''SessionManager.TokenProtective'' then
        [Insert ''sessions'' (d @ [(''kind'', Str ''protective''), ts, s ''token'' ''token'', (''reason'', Str (reason_text hexToString (a ''reason'')))] @ p)]
      else if k = ''SessionManager.TokenProtectiveCleared'' then
        [Insert ''sessions'' (d @ [(''kind'', Str ''cleared''), ts, s ''token'' ''token'', n ''healthy_updates'' ''healthyUpdates''] @ p)]
      else [])"

text \<open>The switch: at most one of the four groups has the event. None is a throw, of \<^verbatim>\<open>BigInt\<close> on a price.\<close>

definition project :: "(string \<Rightarrow> string option) \<Rightarrow> decoded_log \<Rightarrow> op list option" where
  "project hexToString l =
     (let k = lg_contract l @ ''.'' @ lg_event l
      in map_option (\<lambda>ops. ops @ project_auction hexToString l k @ project_solver hexToString l k @ project_session hexToString l k)
           (project_settlement hexToString l k))"


section \<open>What the projection asks for\<close>

definition key_cols :: "string \<Rightarrow> string list" where
  "key_cols t = (case map_of KEYS t of None \<Rightarrow> [] | Some ks \<Rightarrow> ks)"

definition keyed :: "string \<Rightarrow> row \<Rightarrow> bool" where
  "keyed t r \<longleftrightarrow> list_all (\<lambda>k. plain (row_get r k)) (key_cols t)"

fun op_table :: "op \<Rightarrow> string" where
  "op_table (Insert t r) = t"
| "op_table (Upsert t r) = t"
| "op_table (Merge t k f) = t"

text \<open>An operation names every key column of its table, and a merge changes none of them.\<close>

fun op_ok :: "op \<Rightarrow> bool" where
  "op_ok (Insert t r) = (keyed t r)"
| "op_ok (Upsert t r) = (keyed t r \<and> distinct (map fst r))"
| "op_ok (Merge t k f) = (list_all (\<lambda>c. c \<notin> set (key_cols t)) (map fst f))"

lemmas row_cols = text_col_def number_col_def deployment_col_def provenance_row_def row_get_def

lemma key_cols_simps [simp]:
  "key_cols ''batches'' = [''deployment'', ''batch_id'']" "key_cols ''auctions'' = [''deployment'', ''auction_id'']"
  "key_cols ''batch_solutions'' = [''deployment'', ''batch_id'']"
  "key_cols ''fills'' = PROVENANCE_KEY" "key_cols ''prices'' = PROVENANCE_KEY" "key_cols ''indicative'' = PROVENANCE_KEY"
  "key_cols ''closing_prints'' = PROVENANCE_KEY" "key_cols ''closing_prints_withheld'' = PROVENANCE_KEY" "key_cols ''solvers'' = PROVENANCE_KEY"
  "key_cols ''sessions'' = PROVENANCE_KEY" "key_cols ''solutions'' = PROVENANCE_KEY" "key_cols ''venue_routes'' = PROVENANCE_KEY"
  "key_cols ''collection_failures'' = PROVENANCE_KEY"
  unfolding key_cols_def KEYS_def by simp_all

text \<open>A property of every operation of a branching projection is one of every branch.\<close>

definition every :: "(op \<Rightarrow> bool) \<Rightarrow> op list option \<Rightarrow> bool" where
  "every P r \<longleftrightarrow> (\<forall>ops. r = Some ops \<longrightarrow> list_all P ops)"

lemma every_if: "(c \<Longrightarrow> every P a) \<Longrightarrow> every P b \<Longrightarrow> every P (if c then a else b)"
  by simp

lemma every_some [simp]: "every P (Some xs) = list_all P xs" and every_none [simp]: "every P None"
  by (simp_all add: every_def)

lemma every_ifs: "(c \<Longrightarrow> every P (Some a)) \<Longrightarrow> every P (Some b) \<Longrightarrow> every P (Some (if c then a else b))"
  by simp

definition op_fine :: "op \<Rightarrow> bool" where
  "op_fine x \<longleftrightarrow> op_ok x \<and> op_table x \<in> set DOMAIN_TABLES"

lemma domain_tables_eq:
  "DOMAIN_TABLES = [''batches'', ''auctions'', ''fills'', ''prices'', ''indicative'', ''closing_prints'', ''closing_prints_withheld'', ''solvers'',
     ''sessions'', ''solutions'', ''venue_routes'', ''collection_failures'']"
  by (simp add: DOMAIN_TABLES_def KEYS_def)

lemmas fine_simps = op_fine_def keyed_def plain_def row_cols PROVENANCE_KEY_def domain_tables_eq auction_merge_def solver_row_def

lemma project_settlement_fine: "every op_fine (project_settlement h l k)"
  unfolding project_settlement_def Let_def
  by (intro every_if; simp add: fine_simps split: option.split)

lemma project_auction_fine: "every op_fine (Some (project_auction h l k))"
  unfolding project_auction_def Let_def
  by (intro every_ifs; simp add: fine_simps)

lemma project_solver_fine: "every op_fine (Some (project_solver h l k))"
  unfolding project_solver_def Let_def
  by (intro every_ifs; simp add: fine_simps)

lemma project_session_fine: "every op_fine (Some (project_session h l k))"
  unfolding project_session_def Let_def
  by (intro every_ifs; simp add: fine_simps)

lemma project_fine: "project h l = Some ops \<Longrightarrow> list_all op_fine ops"
  using project_settlement_fine project_auction_fine project_solver_fine project_session_fine
  by (auto simp: project_def Let_def every_def)

text \<open>Every row written is of the log's deployment, and no merge changes the deployment of one.\<close>

definition op_deployed :: "string \<Rightarrow> op \<Rightarrow> bool" where
  "op_deployed d x = (case x of Insert t r \<Rightarrow> row_get r ''deployment'' = Str d | Upsert t r \<Rightarrow> row_get r ''deployment'' = Str d
     | Merge t k f \<Rightarrow> list_all (\<lambda>c. c \<noteq> ''deployment'') (map fst f))"

lemma project_deployed:
  assumes "project h l = Some ops"
  shows "list_all (op_deployed (lg_deployment l)) ops"
proof -
  define k where "k = lg_contract l @ ''.'' @ lg_event l"
  have "every (op_deployed (lg_deployment l)) (project_settlement h l k)"
    unfolding project_settlement_def Let_def
    by (intro every_if; simp add: op_deployed_def row_cols split: option.split)
  moreover have "every (op_deployed (lg_deployment l)) (Some (project_auction h l k))"
    unfolding project_auction_def Let_def by (intro every_ifs; simp add: op_deployed_def auction_merge_def row_cols)
  moreover have "every (op_deployed (lg_deployment l)) (Some (project_solver h l k))"
    unfolding project_solver_def Let_def by (intro every_ifs; simp add: op_deployed_def solver_row_def row_cols)
  moreover have "every (op_deployed (lg_deployment l)) (Some (project_session h l k))"
    unfolding project_session_def Let_def by (intro every_ifs; simp add: op_deployed_def row_cols)
  ultimately show ?thesis using assms by (auto simp: project_def Let_def k_def every_def)
qed

text \<open>The only writes to the batches: a settled batch overwrites, a passthrough is kept only where there is no row.\<close>

definition batch_write :: "decoded_log \<Rightarrow> op \<Rightarrow> bool" where
  "batch_write l x \<longleftrightarrow> (op_table x = ''batches'' \<longrightarrow>
     (lg_contract l @ ''.'' @ lg_event l = ''Settlement.BatchSettled''
        \<and> (\<exists>r. x = Upsert ''batches'' r \<and> row_get r ''deployment'' = Str (lg_deployment l)
              \<and> row_get r ''batch_id'' = Str (js_string (row_get (lg_args l) ''batchId'')) \<and> row_get r ''outcome'' = Str ''settled''))
     \<or> (lg_contract l @ ''.'' @ lg_event l = ''Settlement.BatchPassthrough''
        \<and> (\<exists>r. x = Insert ''batches'' r \<and> row_get r ''deployment'' = Str (lg_deployment l)
              \<and> row_get r ''batch_id'' = Str (js_string (row_get (lg_args l) ''batchId'')) \<and> row_get r ''outcome'' \<noteq> Str ''settled'')))"

lemma project_batches:
  assumes "project h l = Some ops"
  shows "list_all (batch_write l) ops"
proof -
  define k where "k = lg_contract l @ ''.'' @ lg_event l"
  have "every (batch_write l) (project_settlement h l k)"
    unfolding project_settlement_def Let_def
    by (intro every_if; simp add: batch_write_def k_def row_cols split: option.split)
  moreover have "every (batch_write l) (Some (project_auction h l k))"
    unfolding project_auction_def Let_def by (intro every_ifs; simp add: batch_write_def auction_merge_def)
  moreover have "every (batch_write l) (Some (project_solver h l k))"
    unfolding project_solver_def Let_def by (intro every_ifs; simp add: batch_write_def solver_row_def)
  moreover have "every (batch_write l) (Some (project_session h l k))"
    unfolding project_session_def Let_def by (intro every_ifs; simp add: batch_write_def)
  ultimately show ?thesis using assms by (auto simp: project_def Let_def k_def every_def)
qed

end
