(* ===== verification/IndexStore.thy ===== *)
theory IndexStore
  imports IndexRows "HOL-Library.Product_Lexorder"
begin

text \<open>
  indexer/src/store.ts: where the indexer writes. The model is the store in memory, whose keys are
  those of the database; a commit or rewind that throws is None, which the database rolls back. The
  two tables that no operation writes are lists of their own, with the arguments of a log kept as the
  object its JSON text spells. \<open>h\<close> is viem's reading of bytes32 text, as in the projection.
\<close>

section \<open>The state\<close>

record checkpoint =
  cp_chainId :: int
  cp_settlement :: string
  cp_fromBlock :: int
  cp_lastBlock :: int
  cp_lastHash :: string

record block_row =
  bl_number :: int
  bl_hash :: string
  bl_parentHash :: string
  bl_timestamp :: int

record undecoded_log =
  ud_block :: int
  ud_txHash :: string
  ud_index :: int
  ud_address :: string
  ud_topics :: "string list"
  ud_data :: string
  ud_error :: string

record step_write =
  w_checkpoint :: checkpoint
  w_blocks :: "block_row list"
  w_logs :: "decoded_log list"
  w_undecoded :: "undecoded_log list"
  w_extra :: "op list"

record log_row =
  r_chain_id :: int
  r_deployment :: string
  r_block_number :: string
  r_block_hash :: string
  r_block_timestamp :: string
  r_tx_hash :: string
  r_log_index :: int
  r_address :: string
  r_contract :: string
  r_event :: string
  r_args :: args

record undecoded_row =
  u_chain_id :: int
  u_deployment :: string
  u_block_number :: string
  u_log :: undecoded_log

record store =
  st_logs :: "log_row list"
  st_undecoded :: "undecoded_row list"
  st_tables :: "string \<Rightarrow> row list"
  st_state :: "int \<times> string \<Rightarrow> checkpoint option"
  st_blocks :: "int \<times> string \<Rightarrow> (int \<times> string) list"

definition empty_store :: store where
  "empty_store = \<lparr>st_logs = [], st_undecoded = [], st_tables = (\<lambda>_. []), st_state = (\<lambda>_. None), st_blocks = (\<lambda>_. [])\<rparr>"

definition log_row_of :: "decoded_log \<Rightarrow> log_row" where
  "log_row_of l =
     \<lparr>r_chain_id = lg_chainId l, r_deployment = lg_deployment l, r_block_number = decimal (lg_block l), r_block_hash = lg_blockHash l,
      r_block_timestamp = decimal (lg_blockTimestamp l), r_tx_hash = lg_txHash l, r_log_index = lg_index l, r_address = lg_address l,
      r_contract = lg_contract l, r_event = lg_event l, r_args = lg_args l\<rparr>"

definition from_log_row :: "log_row \<Rightarrow> decoded_log option" where
  "from_log_row r =
     (case (string_to_integer (r_block_number r), string_to_integer (r_block_timestamp r)) of
        (Some b, Some t) \<Rightarrow>
          Some \<lparr>lg_chainId = r_chain_id r, lg_deployment = r_deployment r, lg_block = b, lg_blockHash = r_block_hash r, lg_blockTimestamp = t,
            lg_txHash = r_tx_hash r, lg_index = r_log_index r, lg_address = r_address r, lg_contract = r_contract r, lg_event = r_event r, lg_args = r_args r\<rparr>
      | _ \<Rightarrow> None)"

section \<open>Operations on a table\<close>

definition row_match :: "row \<Rightarrow> row \<Rightarrow> bool" where
  "row_match r key \<longleftrightarrow> list_all (\<lambda>(k, v). strict_eq (row_get r k) v) key"

definition assign :: "row \<Rightarrow> row \<Rightarrow> row" where
  "assign r new = foldl (\<lambda>r (k, v). AList.update k v r) r new"

definition key_of_row :: "string \<Rightarrow> row \<Rightarrow> row" where
  "key_of_row t r = map (\<lambda>k. (k, nullish (row_get r k))) (key_cols t)"

fun update_first :: "('a \<Rightarrow> bool) \<Rightarrow> ('a \<Rightarrow> 'a) \<Rightarrow> 'a list \<Rightarrow> 'a list" where
  "update_first P f [] = []"
| "update_first P f (x # xs) = (if P x then f x # xs else x # update_first P f xs)"

fun apply_rows :: "op \<Rightarrow> row list \<Rightarrow> row list" where
  "apply_rows (Merge t key new) rows = map (\<lambda>r. if row_match r key then assign r new else r) rows"
| "apply_rows (Insert t row) rows =
     (let key = key_of_row t row in if list_ex (\<lambda>r. row_match r key) rows then rows else rows @ [row])"
| "apply_rows (Upsert t row) rows =
     (let key = key_of_row t row
      in if list_ex (\<lambda>r. row_match r key) rows then update_first (\<lambda>r. row_match r key) (\<lambda>r. assign r row) rows else rows @ [row])"

definition apply_op :: "(string \<Rightarrow> row list) \<Rightarrow> op \<Rightarrow> (string \<Rightarrow> row list)" where
  "apply_op T x = T(op_table x := apply_rows x (T (op_table x)))"

definition apply_log :: "(string \<Rightarrow> string option) \<Rightarrow> (string \<Rightarrow> row list) \<Rightarrow> decoded_log \<Rightarrow> (string \<Rightarrow> row list) option" where
  "apply_log h T l = map_option (foldl apply_op T) (project h l)"

fun fold_option :: "('b \<Rightarrow> 'a \<Rightarrow> 'b option) \<Rightarrow> 'b \<Rightarrow> 'a list \<Rightarrow> 'b option" where
  "fold_option f b [] = Some b"
| "fold_option f b (x # xs) = (case f b x of None \<Rightarrow> None | Some b' \<Rightarrow> fold_option f b' xs)"

section \<open>Commit\<close>

definition has_log :: "log_row list \<Rightarrow> decoded_log \<Rightarrow> bool" where
  "has_log rows l \<longleftrightarrow> list_ex (\<lambda>r. r_chain_id r = lg_chainId l \<and> r_tx_hash r = lg_txHash l \<and> r_log_index r = lg_index l) rows"

definition add_log :: "(string \<Rightarrow> string option) \<Rightarrow> log_row list \<times> (string \<Rightarrow> row list) \<Rightarrow> decoded_log
    \<Rightarrow> (log_row list \<times> (string \<Rightarrow> row list)) option" where
  "add_log h s l =
     (if has_log (fst s) l then Some s
      else map_option (\<lambda>T. (fst s @ [log_row_of l], T)) (apply_log h (snd s) l))"

definition add_undecoded :: "int \<Rightarrow> string \<Rightarrow> undecoded_row list \<Rightarrow> undecoded_log \<Rightarrow> undecoded_row list" where
  "add_undecoded chain settlement rows u =
     (if list_ex (\<lambda>r. ud_txHash (u_log r) = ud_txHash u \<and> ud_index (u_log r) = ud_index u) rows then rows
      else rows @ [\<lparr>u_chain_id = chain, u_deployment = settlement, u_block_number = decimal (ud_block u), u_log = u\<rparr>])"

definition commit :: "(string \<Rightarrow> string option) \<Rightarrow> store \<Rightarrow> step_write \<Rightarrow> store option" where
  "commit h st w =
     (let c = w_checkpoint w; k = (cp_chainId c, cp_settlement c)
      in map_option (\<lambda>(logs, T).
           st\<lparr>st_logs := logs,
              st_undecoded := foldl (add_undecoded (cp_chainId c) (cp_settlement c)) (st_undecoded st) (w_undecoded w),
              st_tables := foldl apply_op T (w_extra w),
              st_blocks := (st_blocks st)(k := foldl (\<lambda>m b. AList.update (bl_number b) (bl_hash b) m) (st_blocks st k) (w_blocks w)),
              st_state := (st_state st)(k \<mapsto> c)\<rparr>)
         (fold_option (add_log h) (st_logs st, st_tables st) (w_logs w)))"

section \<open>Rewind\<close>

definition stored_blocks :: "store \<Rightarrow> int \<Rightarrow> string \<Rightarrow> int \<Rightarrow> nat \<Rightarrow> (int \<times> string) list" where
  "stored_blocks st chain settlement atOrBelow limit =
     take limit (sort_key (\<lambda>b. - fst b) (filter (\<lambda>b. fst b \<le> atOrBelow) (st_blocks st (chain, settlement))))"

text \<open>Dropping what lies above a block, None when a block number of the deployment cannot be read.\<close>

definition keep_below :: "('r \<Rightarrow> js) \<Rightarrow> ('r \<Rightarrow> js) \<Rightarrow> string \<Rightarrow> int \<Rightarrow> 'r list \<Rightarrow> 'r list option" where
  "keep_below dep num settlement n rows =
     (let mine = (\<lambda>r. strict_eq (dep r) (Str settlement)); height = (\<lambda>r. string_to_integer (js_string (num r)))
      in if list_all (\<lambda>r. mine r \<longrightarrow> height r \<noteq> None) rows
         then Some (filter (\<lambda>r. \<not> (mine r \<and> the (height r) > n)) rows) else None)"

definition clear_domain :: "string \<Rightarrow> (string \<Rightarrow> row list) \<Rightarrow> (string \<Rightarrow> row list)" where
  "clear_domain settlement T =
     (\<lambda>t. if t \<in> set DOMAIN_TABLES then filter (\<lambda>r. \<not> strict_eq (row_get r ''deployment'') (Str settlement)) (T t) else T t)"

definition chain_order :: "decoded_log \<Rightarrow> int \<times> int" where
  "chain_order l = (lg_block l, lg_index l)"

definition rewind :: "(string \<Rightarrow> string option) \<Rightarrow> store \<Rightarrow> checkpoint \<Rightarrow> store option" where
  "rewind h st c =
     (let s = cp_settlement c; n = cp_lastBlock c; k = (cp_chainId c, s);
          below = keep_below (\<lambda>r. row_get r ''deployment'') (\<lambda>r. row_get r ''block_number'') s n
      in case (keep_below (\<lambda>r. Str (r_deployment r)) (\<lambda>r. Str (r_block_number r)) s n (st_logs st),
               keep_below (\<lambda>r. Str (u_deployment r)) (\<lambda>r. Str (u_block_number r)) s n (st_undecoded st),
               below (st_tables st ''batch_solutions''), below (st_tables st ''baseline_quotes'')) of
           (Some logs, Some undecoded, Some solutions, Some quotes) \<Rightarrow>
             (case those (map from_log_row (filter (\<lambda>r. r_deployment r = s) logs)) of
                None \<Rightarrow> None
              | Some remaining \<Rightarrow>
                  map_option (\<lambda>T. \<lparr>st_logs = logs, st_undecoded = undecoded, st_tables = T, st_state = (st_state st)(k \<mapsto> c),
                      st_blocks = (st_blocks st)(k := filter (\<lambda>b. \<not> fst b > n) (st_blocks st k))\<rparr>)
                    (fold_option (apply_log h) (clear_domain s ((st_tables st)(''batch_solutions'' := solutions, ''baseline_quotes'' := quotes)))
                       (sort_key chain_order remaining)))
         | _ \<Rightarrow> None)"

definition count_rows :: "store \<Rightarrow> string \<Rightarrow> string \<Rightarrow> nat" where
  "count_rows st t d =
     (if t = ''logs'' then length (filter (\<lambda>r. r_deployment r = d) (st_logs st))
      else if t = ''undecoded_logs'' then length (filter (\<lambda>r. u_deployment r = d) (st_undecoded st))
      else length (filter (\<lambda>r. strict_eq (row_get r ''deployment'') (Str d)) (st_tables st t)))"


section \<open>Reading what was written\<close>

lemma row_get_update: "row_get (AList.update k v r) c = (if c = k then v else row_get r c)"
  by (simp add: row_get_def)

lemma row_get_assign: "c \<notin> set (map fst new) \<Longrightarrow> row_get (assign r new) c = row_get r c"
  by (induction new arbitrary: r) (auto simp: assign_def row_get_update)

lemma row_get_assign_in: "distinct (map fst new) \<Longrightarrow> c \<in> set (map fst new) \<Longrightarrow> row_get (assign r new) c = row_get new c"
proof (induction new arbitrary: r)
  case (Cons e new)
  obtain k v where e: "e = (k, v)" by fastforce
  show ?case
  proof (cases "c \<in> set (map fst new)")
    case True
    then show ?thesis using Cons e by (auto simp: assign_def row_get_def)
  next
    case False
    then have "c = k" using Cons.prems(2) e by simp
    then show ?thesis using row_get_assign [OF False, of "AList.update k v r"] e by (simp add: assign_def row_get_update) (simp add: row_get_def)
  qed
qed simp

lemma strict_eq_plain: "plain v \<Longrightarrow> strict_eq u (nullish v) \<longleftrightarrow> u = v"
  by (auto simp: strict_eq_def nullish_def plain_def)

lemma row_match_key: "keyed t row \<Longrightarrow> row_match r (key_of_row t row) \<longleftrightarrow> (\<forall>c\<in>set (key_cols t). row_get r c = row_get row c)"
  by (auto simp: row_match_def key_of_row_def keyed_def list_all_iff strict_eq_plain)

lemma row_match_self: "keyed t row \<Longrightarrow> row_match row (key_of_row t row)"
  by (simp add: row_match_key)

lemma update_first_rows: "r \<in> set (update_first P f rows) \<Longrightarrow> r \<in> set rows \<or> (\<exists>q\<in>set rows. P q \<and> r = f q)"
  by (induction rows) (auto split: if_splits)

lemma apply_rows_cases:
  assumes "r \<in> set (apply_rows x rows)"
  shows "r \<in> set rows \<or> (\<exists>t row. (x = Insert t row \<or> x = Upsert t row) \<and> r = row)
    \<or> (\<exists>q\<in>set rows. \<exists>t row. x = Upsert t row \<and> row_match q (key_of_row t row) \<and> r = assign q row)
    \<or> (\<exists>q\<in>set rows. \<exists>t k f. x = Merge t k f \<and> r = assign q f)"
proof (cases x)
  case (Insert t row)
  then show ?thesis using assms by (auto simp: Let_def split: if_splits)
next
  case (Upsert t row)
  then show ?thesis using assms update_first_rows [of r "\<lambda>r. row_match r (key_of_row t row)" "\<lambda>r. assign r row" rows]
    by (auto simp: Let_def split: if_splits)
next
  case (Merge t k f)
  then show ?thesis using assms by (auto split: if_splits)
qed

section \<open>Replaying logs\<close>

definition replay :: "(string \<Rightarrow> string option) \<Rightarrow> decoded_log list \<Rightarrow> (string \<Rightarrow> row list) option" where
  "replay h logs = fold_option (apply_log h) (\<lambda>_. []) logs"

lemma fold_option_append: "fold_option f b (xs @ ys) = (case fold_option f b xs of None \<Rightarrow> None | Some c \<Rightarrow> fold_option f c ys)"
  by (induction xs arbitrary: b) (auto split: option.split)

lemma fold_apply_log:
  "fold_option (apply_log h) T logs = map_option (\<lambda>opss. foldl apply_op T (concat opss)) (those (map (project h) logs))"
  by (induction logs arbitrary: T) (auto simp: apply_log_def option.map_comp comp_def split: option.split)

lemma foldl_agree:
  assumes "\<forall>t\<in>set DOMAIN_TABLES. T t = T' t"
  shows "\<forall>t\<in>set DOMAIN_TABLES. foldl apply_op T ops t = foldl apply_op T' ops t"
  using assms by (induction ops arbitrary: T T') (auto simp: apply_op_def)

lemma foldl_other: "t \<notin> op_table ` set ops \<Longrightarrow> foldl apply_op T ops t = T t"
  by (induction ops arbitrary: T) (auto simp: apply_op_def)

lemma those_filter: "those (map f xs) \<noteq> None \<Longrightarrow> those (map f (filter P xs)) \<noteq> None"
  by (induction xs) (auto split: option.splits)

lemma those_in: "those xs = Some ys \<Longrightarrow> y \<in> set ys \<Longrightarrow> Some y \<in> set xs"
  by (induction xs arbitrary: ys) (auto split: option.splits)

lemma project_ops:
  assumes "those (map (project h) logs) = Some opss" "x \<in> set (concat opss)"
  obtains l ops where "l \<in> set logs" "project h l = Some ops" "x \<in> set ops"
proof -
  obtain ops where "ops \<in> set opss" "x \<in> set ops" using assms(2) by auto
  moreover from this(1) have "Some ops \<in> set (map (project h) logs)" by (rule those_in [OF assms(1)])
  ultimately show ?thesis using that by (metis (no_types, lifting) image_iff list.set_map)
qed

lemma ops_domain:
  assumes "those (map (project h) logs) = Some opss" "x \<in> set (concat opss)"
  shows "op_fine x"
  by (rule project_ops [OF assms]) (use project_fine in \<open>auto simp: list_all_iff\<close>)

text \<open>Every row of the domain is of its log's deployment.\<close>

lemma foldl_deployed:
  assumes "list_all (op_deployed d) ops" "list_all op_fine ops" "\<forall>t. \<forall>r\<in>set (T t). row_get r ''deployment'' = Str d"
  shows "\<forall>t. \<forall>r\<in>set (foldl apply_op T ops t). row_get r ''deployment'' = Str d"
  using assms
proof (induction ops arbitrary: T)
  case (Cons x ops)
  have "row_get r ''deployment'' = Str d" if r: "r \<in> set (apply_op T x t)" for r t
  proof (cases "r \<in> set (T t)")
    case False
    then have t: "t = op_table x" and r': "r \<in> set (apply_rows x (T t))" using r by (auto simp: apply_op_def split: if_splits)
    have dep: "op_deployed d x" "op_ok x" using Cons.prems(1,2) by (simp_all add: op_fine_def)
    have row: "row_get (assign q row) ''deployment'' = Str d"
      if "q \<in> set (T t)" "op_deployed d (Upsert u row)" "distinct (map fst row)" for q u row
      using that row_get_assign [of "''deployment''" row q] row_get_assign_in [of row "''deployment''" q] Cons.prems(3)
      by (cases "''deployment'' \<in> set (map fst row)") (auto simp: op_deployed_def)
    consider "r \<in> set (T t)" | u row where "x = Insert u row \<or> x = Upsert u row" "r = row"
      | q u row where "q \<in> set (T t)" "x = Upsert u row" "r = assign q row" | q u k f where "q \<in> set (T t)" "x = Merge u k f" "r = assign q f"
      using apply_rows_cases [OF r'] by blast
    then show ?thesis
    proof cases
      case 3
      then show ?thesis using row [of q u row] dep by simp
    next
      case 4
      then have "''deployment'' \<notin> set (map fst f)" using dep(1) by (auto simp: op_deployed_def list_all_iff)
      then show ?thesis using row_get_assign [of "''deployment''" f q] 4 Cons.prems(3) by simp
    qed (use False dep(1) in \<open>auto simp: op_deployed_def\<close>)
  qed (use Cons.prems(3) in blast)
  then show ?case using Cons.IH [of "apply_op T x"] Cons.prems(1,2) by simp
qed simp


lemma replay_deployed:
  assumes "replay h logs = Some T" "\<forall>l\<in>set logs. lg_deployment l = d" "r \<in> set (T t)"
  shows "row_get r ''deployment'' = Str d"
proof -
  obtain opss where o: "those (map (project h) logs) = Some opss" "T = foldl apply_op (\<lambda>_. []) (concat opss)"
    using assms(1) by (auto simp: replay_def fold_apply_log)
  have "op_deployed d x" if x: "x \<in> set (concat opss)" for x
  proof -
    obtain l ops where l: "l \<in> set logs" "project h l = Some ops" "x \<in> set ops" by (rule project_ops [OF o(1) x])
    then show ?thesis using project_deployed [OF l(2)] assms(2) by (auto simp: list_all_iff)
  qed
  then have "list_all (op_deployed d) (concat opss)" "list_all op_fine (concat opss)"
    using ops_domain [OF o(1)] by (auto simp: list_all_iff)
  then have "\<forall>t. \<forall>r\<in>set (T t). row_get r ''deployment'' = Str d" unfolding o(2) by (rule foldl_deployed) simp
  then show ?thesis using assms(3) by blast
qed

section \<open>What the store holds\<close>

text \<open>
  The specification: the store indexes a list of logs of one deployment when its log table is that
  list, row by row, and its domain tables are what replaying the list from nothing gives.
\<close>

definition log_key :: "decoded_log \<Rightarrow> int \<times> string \<times> int" where
  "log_key l = (lg_chainId l, lg_txHash l, lg_index l)"

definition indexes :: "(string \<Rightarrow> string option) \<Rightarrow> string \<Rightarrow> decoded_log list \<Rightarrow> store \<Rightarrow> bool" where
  "indexes h d logs st \<longleftrightarrow> st_logs st = map log_row_of logs \<and> distinct (map log_key logs)
     \<and> (\<forall>l\<in>set logs. lg_deployment l = d \<and> 0 \<le> lg_block l \<and> 0 \<le> lg_blockTimestamp l)
     \<and> (\<exists>T. replay h logs = Some T \<and> (\<forall>t\<in>set DOMAIN_TABLES. st_tables st t = T t))"

lemma indexes_empty: "indexes h d [] empty_store"
  by (simp add: indexes_def empty_store_def replay_def)

definition new_logs :: "decoded_log list \<Rightarrow> decoded_log list \<Rightarrow> decoded_log list" where
  "new_logs logs later = foldl (\<lambda>ls l. if log_key l \<in> set (map log_key ls) then ls else ls @ [l]) logs later"

lemma has_log_key: "has_log (map log_row_of logs) l \<longleftrightarrow> log_key l \<in> set (map log_key logs)"
  by (auto simp: has_log_def list_ex_iff log_row_of_def log_key_def intro: rev_image_eqI)

lemma commit_logs:
  assumes "fold_option (add_log h) (map log_row_of logs, T) later = Some (rows, T')" "distinct (map log_key logs)"
    "replay h logs = Some R" "\<forall>t\<in>set DOMAIN_TABLES. T t = R t"
  shows "rows = map log_row_of (new_logs logs later) \<and> distinct (map log_key (new_logs logs later))
    \<and> (\<exists>R'. replay h (new_logs logs later) = Some R' \<and> (\<forall>t\<in>set DOMAIN_TABLES. T' t = R' t))
    \<and> (\<forall>t. t \<notin> set DOMAIN_TABLES \<longrightarrow> T' t = T t)"
  using assms
proof (induction later arbitrary: logs T R)
  case Nil
  then show ?case by (auto simp: new_logs_def)
next
  case (Cons l later)
  show ?case
  proof (cases "log_key l \<in> set (map log_key logs)")
    case True
    then show ?thesis using Cons by (simp add: add_log_def has_log_key new_logs_def)
  next
    case False
    then have stp: "add_log h (map log_row_of logs, T) l = map_option (\<lambda>ops. (map log_row_of (logs @ [l]), foldl apply_op T ops)) (project h l)"
      by (simp add: add_log_def has_log_key apply_log_def option.map_comp comp_def)
    obtain ops where ops: "project h l = Some ops"
      and rest: "fold_option (add_log h) (map log_row_of (logs @ [l]), foldl apply_op T ops) later = Some (rows, T')"
      using Cons.prems(1) by (auto simp: stp split: option.splits)
    have r: "replay h (logs @ [l]) = Some (foldl apply_op R ops)"
      using Cons.prems(3) ops by (simp add: replay_def fold_option_append apply_log_def)
    have fine: "list_all op_fine ops" by (rule project_fine [OF ops])
    have "foldl apply_op T ops t = T t" if "t \<notin> set DOMAIN_TABLES" for t
      by (rule foldl_other) (use that fine in \<open>auto simp: list_all_iff op_fine_def\<close>)
    then show ?thesis
      using Cons.IH [OF rest _ r foldl_agree [OF Cons.prems(4)]] False Cons.prems(2) by (simp add: new_logs_def)
  qed
qed

lemma add_logs_other: "fold_option (add_log h) s ls = Some s' \<Longrightarrow> t \<notin> set DOMAIN_TABLES \<Longrightarrow> snd s' t = snd s t"
proof (induction ls arbitrary: s)
  case (Cons l ls)
  obtain s1 where s1: "add_log h s l = Some s1" "fold_option (add_log h) s1 ls = Some s'"
    using Cons.prems(1) by (auto split: option.splits)
  have "snd s1 t = snd s t"
  proof (cases "has_log (fst s) l")
    case False
    then obtain ops where ops: "project h l = Some ops" "snd s1 = foldl apply_op (snd s) ops"
      using s1(1) by (auto simp: add_log_def apply_log_def)
    then have "t \<notin> op_table ` set ops" using project_fine [OF ops(1)] Cons.prems(2) by (auto simp: list_all_iff op_fine_def)
    then show ?thesis using ops(2) foldl_other by simp
  qed (use s1(1) in \<open>simp add: add_log_def\<close>)
  then show ?case using Cons.IH [OF s1(2)] Cons.prems(2) by simp
qed simp

lemma commit_other:
  assumes "commit h st w = Some st'" "t \<notin> set DOMAIN_TABLES" "t \<notin> op_table ` set (w_extra w)"
  shows "st_tables st' t = st_tables st t"
proof -
  obtain rows T where "fold_option (add_log h) (st_logs st, st_tables st) (w_logs w) = Some (rows, T)"
    "st_tables st' = foldl apply_op T (w_extra w)"
    using assms(1) by (auto simp: commit_def Let_def)
  then show ?thesis using add_logs_other [of h "(st_logs st, st_tables st)" "w_logs w" "(rows, T)" t] assms(2,3) foldl_other by simp
qed

text \<open>A commit appends the logs the store does not have.\<close>

lemma new_logs_set: "set (new_logs logs later) \<subseteq> set logs \<union> set later"
proof (induction later arbitrary: logs)
  case (Cons l later)
  show ?case using Cons.IH [of "if log_key l \<in> set (map log_key logs) then logs else logs @ [l]"]
    by (auto simp: new_logs_def split: if_splits)
qed (simp add: new_logs_def)

lemma new_logs_distinct: "distinct (map log_key (logs @ later)) \<Longrightarrow> new_logs logs later = logs @ later"
proof (induction later arbitrary: logs)
  case (Cons l later)
  then show ?case using Cons.IH [of "logs @ [l]"] by (simp add: new_logs_def)
qed (simp add: new_logs_def)

lemma commit_indexes:
  assumes "indexes h d logs st" "commit h st w = Some st'" "\<forall>l\<in>set (w_logs w). lg_deployment l = d \<and> 0 \<le> lg_block l \<and> 0 \<le> lg_blockTimestamp l"
    "\<forall>x\<in>set (w_extra w). op_table x \<notin> set DOMAIN_TABLES"
  shows "indexes h d (new_logs logs (w_logs w)) st'"
proof -
  have st: "st_logs st = map log_row_of logs" "distinct (map log_key logs)"
    "\<forall>l\<in>set logs. lg_deployment l = d \<and> 0 \<le> lg_block l \<and> 0 \<le> lg_blockTimestamp l"
    using assms(1) by (auto simp: indexes_def)
  obtain R where R: "replay h logs = Some R" "\<forall>t\<in>set DOMAIN_TABLES. st_tables st t = R t" using assms(1) by (auto simp: indexes_def)
  obtain rows T where f: "fold_option (add_log h) (map log_row_of logs, st_tables st) (w_logs w) = Some (rows, T)"
    and st': "st_logs st' = rows" "st_tables st' = foldl apply_op T (w_extra w)"
    using assms(2) by (auto simp: commit_def Let_def st(1))
  have "foldl apply_op T (w_extra w) t = T t" if "t \<in> set DOMAIN_TABLES" for t
    by (rule foldl_other) (use that assms(4) in auto)
  then show ?thesis
    using commit_logs [OF f st(2) R] st(3) assms(3) new_logs_set [of logs "w_logs w"]
    unfolding indexes_def st' by (auto simp: subset_iff)
qed

section \<open>A rewind is an index of what remains\<close>

lemma from_log_row_of: "0 \<le> lg_block l \<Longrightarrow> 0 \<le> lg_blockTimestamp l \<Longrightarrow> from_log_row (log_row_of l) = Some l"
  by (simp add: from_log_row_def log_row_of_def)

lemma those_map_Some: "\<forall>x\<in>set xs. f x = Some (g x) \<Longrightarrow> those (map f xs) = Some (map g xs)"
  by (induction xs) auto

lemma keep_below_logs:
  assumes "\<forall>l\<in>set logs. lg_deployment l = d \<and> 0 \<le> lg_block l"
  shows "keep_below (\<lambda>r. Str (r_deployment r)) (\<lambda>r. Str (r_block_number r)) d n (map log_row_of logs)
    = Some (map log_row_of (filter (\<lambda>l. lg_block l \<le> n) logs))"
  using assms by (auto simp: keep_below_def Let_def log_row_of_def list_all_iff strict_eq_def plain_def filter_map comp_def intro!: arg_cong [where f = "map _"] filter_cong)

definition readable :: "string \<Rightarrow> store \<Rightarrow> bool" where
  "readable d st \<longleftrightarrow> (\<forall>t\<in>{''batch_solutions'', ''baseline_quotes''}. \<forall>r\<in>set (st_tables st t).
       row_get r ''deployment'' = Str d \<longrightarrow> string_to_integer (js_string (row_get r ''block_number'')) \<noteq> None)
     \<and> (\<forall>u\<in>set (st_undecoded st). u_deployment u = d \<longrightarrow> string_to_integer (u_block_number u) \<noteq> None)"

lemma replay_filter:
  assumes "replay h logs = Some T"
  obtains T' where "replay h (filter P logs) = Some T'"
proof -
  have "those (map (project h) logs) \<noteq> None" using assms by (auto simp: replay_def fold_apply_log)
  then have "those (map (project h) (filter P logs)) \<noteq> None" by (rule those_filter)
  then show ?thesis using that by (auto simp: replay_def fold_apply_log)
qed

lemma fold_agree:
  assumes "fold_option (apply_log h) T logs = Some R" "\<forall>t\<in>set DOMAIN_TABLES. T t = T' t"
  shows "\<exists>R'. fold_option (apply_log h) T' logs = Some R' \<and> (\<forall>t\<in>set DOMAIN_TABLES. R t = R' t)"
proof -
  obtain opss where o: "those (map (project h) logs) = Some opss" "R = foldl apply_op T (concat opss)"
    using assms(1) by (auto simp: fold_apply_log)
  have "fold_option (apply_log h) T' logs = Some (foldl apply_op T' (concat opss))" using o(1) by (simp add: fold_apply_log)
  then show ?thesis using foldl_agree [OF assms(2), of "concat opss"] o(2) by auto
qed


lemma sort_key_id: "sorted (map f xs) \<Longrightarrow> sort_key f xs = xs"
  by (rule sort_key_id_if_sorted)

lemma rewind_indexes:
  assumes "indexes h d logs st" "sorted (map chain_order logs)" "cp_settlement c = d" "readable d st"
  shows "\<exists>st'. rewind h st c = Some st' \<and> indexes h d (filter (\<lambda>l. lg_block l \<le> cp_lastBlock c) logs) st'"
proof -
  let ?n = "cp_lastBlock c" and ?kept = "filter (\<lambda>l. lg_block l \<le> cp_lastBlock c) logs"
  have st: "st_logs st = map log_row_of logs" "distinct (map log_key logs)"
    "\<forall>l\<in>set logs. lg_deployment l = d \<and> 0 \<le> lg_block l \<and> 0 \<le> lg_blockTimestamp l"
    using assms(1) by (auto simp: indexes_def)
  obtain R where R: "replay h logs = Some R" "\<forall>t\<in>set DOMAIN_TABLES. st_tables st t = R t" using assms(1) by (auto simp: indexes_def)
  obtain R' where R': "replay h ?kept = Some R'" using replay_filter [OF R(1), of "\<lambda>l. lg_block l \<le> ?n"] by blast
  have logs: "keep_below (\<lambda>r. Str (r_deployment r)) (\<lambda>r. Str (r_block_number r)) d ?n (st_logs st) = Some (map log_row_of ?kept)"
    unfolding st(1) by (rule keep_below_logs) (use st(3) in blast)
  have some: "\<exists>k. keep_below f g d ?n rows = Some k"
    if "\<forall>r\<in>set rows. f r = Str d \<longrightarrow> string_to_integer (js_string (g r)) \<noteq> None" for f g and rows :: "'r list"
    using that by (auto simp: keep_below_def Let_def list_all_iff strict_eq_def plain_def)
  obtain u where u: "keep_below (\<lambda>r. Str (u_deployment r)) (\<lambda>r. Str (u_block_number r)) d ?n (st_undecoded st) = Some u"
    using some [of "st_undecoded st" "\<lambda>r. Str (u_deployment r)" "\<lambda>r. Str (u_block_number r)"] assms(4) by (auto simp: readable_def)
  have rows: "\<exists>k. keep_below (\<lambda>r. row_get r ''deployment'') (\<lambda>r. row_get r ''block_number'') d ?n (st_tables st t) = Some k"
    if "t \<in> {''batch_solutions'', ''baseline_quotes''}" for t
    by (rule some) (use assms(4) that in \<open>unfold readable_def, blast\<close>)
  obtain bs where bs: "keep_below (\<lambda>r. row_get r ''deployment'') (\<lambda>r. row_get r ''block_number'') d ?n (st_tables st ''batch_solutions'') = Some bs"
    using rows by blast
  obtain q where q: "keep_below (\<lambda>r. row_get r ''deployment'') (\<lambda>r. row_get r ''block_number'') d ?n (st_tables st ''baseline_quotes'') = Some q"
    using rows by blast
  have mine: "filter (\<lambda>r. r_deployment r = d) (map log_row_of ?kept) = map log_row_of ?kept"
    by (rule filter_True) (use st(3) in \<open>auto simp: log_row_of_def\<close>)
  have reread: "those (map (from_log_row \<circ> log_row_of) ?kept) = Some ?kept"
    using those_map_Some [of ?kept "\<lambda>l. from_log_row (log_row_of l)" id] st(3) by (auto simp: from_log_row_of comp_def)
  have order: "sort_key chain_order ?kept = ?kept" by (rule sort_key_id) (rule sorted_filter [OF assms(2)])
  let ?T = "clear_domain d ((st_tables st)(''batch_solutions'' := bs, ''baseline_quotes'' := q))"
  have "?T t = []" if t: "t \<in> set DOMAIN_TABLES" for t
  proof -
    have "t \<noteq> ''batch_solutions'' \<and> t \<noteq> ''baseline_quotes''" using t by (auto simp: domain_tables_eq)
    moreover have "row_get r ''deployment'' = Str d" if "r \<in> set (st_tables st t)" for r
      using replay_deployed [OF R(1), of d r t] st(3) that R(2) t by simp
    ultimately show ?thesis using t by (simp add: clear_domain_def strict_eq_def plain_def)
  qed
  then obtain T' where T': "fold_option (apply_log h) ?T ?kept = Some T'" "\<forall>t\<in>set DOMAIN_TABLES. R' t = T' t"
    using fold_agree [of h "\<lambda>_. []" ?kept R' ?T] R' by (auto simp: replay_def)
  define st' where "st' = \<lparr>st_logs = map log_row_of ?kept, st_undecoded = u, st_tables = T',
      st_state = (st_state st)((cp_chainId c, d) \<mapsto> c),
      st_blocks = (st_blocks st)((cp_chainId c, d) := filter (\<lambda>b. \<not> fst b > ?n) (st_blocks st (cp_chainId c, d)))\<rparr>"
  have "rewind h st c = Some st'"
    unfolding rewind_def Let_def assms(3) logs u bs q by (simp add: mine reread order T'(1) st'_def)
  moreover have "distinct (map log_key ?kept)" using st(2) by (rule distinct_map_filter)
  then have "indexes h d ?kept st'" using st(3) R' T'(2) by (auto simp: indexes_def st'_def)
  ultimately show ?thesis by blast
qed


section \<open>Committing twice\<close>

lemma has_log_mono: "fold_option (add_log h) s ls = Some s' \<Longrightarrow> has_log (fst s) l \<Longrightarrow> has_log (fst s') l"
proof (induction ls arbitrary: s)
  case (Cons x ls)
  then show ?case by (auto simp: add_log_def has_log_def split: option.splits if_splits)
qed simp

lemma add_logs_has: "fold_option (add_log h) s ls = Some s' \<Longrightarrow> l \<in> set ls \<Longrightarrow> has_log (fst s') l"
proof (induction ls arbitrary: s)
  case (Cons x ls)
  obtain s1 where s1: "add_log h s x = Some s1" "fold_option (add_log h) s1 ls = Some s'"
    using Cons.prems(1) by (auto split: option.splits)
  have "has_log (fst s1) x" using s1(1) by (auto simp: add_log_def has_log_def log_row_of_def split: if_splits)
  then show ?case using Cons.IH [OF s1(2)] Cons.prems(2) has_log_mono [OF s1(2)] by auto
qed simp

lemma add_logs_again: "\<forall>l\<in>set ls. has_log (fst s) l \<Longrightarrow> fold_option (add_log h) s ls = Some s"
  by (induction ls) (auto simp: add_log_def)

lemma add_undecoded_has:
  "u \<in> set us \<Longrightarrow> list_ex (\<lambda>r. ud_txHash (u_log r) = ud_txHash u \<and> ud_index (u_log r) = ud_index u) (foldl (add_undecoded c d) rows us)"
proof (induction us rule: rev_induct)
  case (snoc v us)
  then show ?case by (auto simp: add_undecoded_def list_ex_iff)
qed simp

lemma add_undecoded_again:
  "\<forall>u\<in>set us. list_ex (\<lambda>r. ud_txHash (u_log r) = ud_txHash u \<and> ud_index (u_log r) = ud_index u) rows \<Longrightarrow> foldl (add_undecoded c d) rows us = rows"
  by (induction us) (auto simp: add_undecoded_def)

definition insert_ops :: "op list \<Rightarrow> bool" where
  "insert_ops ops \<longleftrightarrow> list_all (\<lambda>x. \<exists>t r. x = Insert t r \<and> keyed t r) ops"

definition op_hit :: "(string \<Rightarrow> row list) \<Rightarrow> op \<Rightarrow> bool" where
  "op_hit T x \<longleftrightarrow> (case x of Insert t r \<Rightarrow> list_ex (\<lambda>q. row_match q (key_of_row t r)) (T t) | _ \<Rightarrow> False)"

lemma apply_hit: "op_hit T x \<Longrightarrow> apply_op T x = T"
  by (auto simp: op_hit_def apply_op_def split: op.splits)

lemma insert_hits:
  assumes "insert_ops ops" "x \<in> set ops"
  shows "op_hit (foldl apply_op T ops) x"
  using assms
proof (induction ops rule: rev_induct)
  case (snoc y ops)
  let ?T = "foldl apply_op T ops"
  obtain t r where y: "y = Insert t r" "keyed t r" using snoc.prems(1) by (auto simp: insert_ops_def)
  have self: "op_hit (apply_op ?T y) y" using y row_match_self by (auto simp: op_hit_def apply_op_def Let_def list_ex_iff)
  have keep: "op_hit (apply_op ?T y) z" if "op_hit ?T z" for z
    using that y by (auto simp: op_hit_def apply_op_def Let_def list_ex_iff split: op.splits)
  show ?case
  proof (cases "x = y")
    case False
    then have "op_hit ?T x" using snoc by (auto simp: insert_ops_def)
    then show ?thesis using keep by simp
  qed (use self in simp)
qed simp

lemma apply_hits: "\<forall>x\<in>set ops. op_hit T x \<Longrightarrow> foldl apply_op T ops = T"
  by (induction ops) (auto simp: apply_hit)

lemma update_same: "map_of al k = Some v \<Longrightarrow> AList.update k v al = al"
  by (induction al) (auto split: if_splits)

lemma update_blocks:
  "distinct (map bl_number bs) \<Longrightarrow> b \<in> set bs \<Longrightarrow> map_of (foldl (\<lambda>m b. AList.update (bl_number b) (bl_hash b) m) al bs) (bl_number b) = Some (bl_hash b)"
proof (induction bs rule: rev_induct)
  case (snoc c bs)
  then show ?case by (auto simp: image_iff)
qed simp

lemma update_blocks_again:
  "\<forall>b\<in>set bs. map_of al (bl_number b) = Some (bl_hash b) \<Longrightarrow> foldl (\<lambda>m b. AList.update (bl_number b) (bl_hash b) m) al bs = al"
  by (induction bs) (auto simp: update_same)

lemma commit_again:
  assumes "commit h st w = Some st'" "insert_ops (w_extra w)" "distinct (map bl_number (w_blocks w))"
  shows "commit h st' w = Some st'"
proof -
  let ?k = "(cp_chainId (w_checkpoint w), cp_settlement (w_checkpoint w))"
  obtain rows T where f: "fold_option (add_log h) (st_logs st, st_tables st) (w_logs w) = Some (rows, T)"
    and st': "st' = st\<lparr>st_logs := rows, st_undecoded := foldl (add_undecoded (fst ?k) (snd ?k)) (st_undecoded st) (w_undecoded w),
       st_tables := foldl apply_op T (w_extra w),
       st_blocks := (st_blocks st)(?k := foldl (\<lambda>m b. AList.update (bl_number b) (bl_hash b) m) (st_blocks st ?k) (w_blocks w)),
       st_state := (st_state st)(?k \<mapsto> w_checkpoint w)\<rparr>"
    using assms(1) by (auto simp: commit_def Let_def)
  have "fold_option (add_log h) (st_logs st', st_tables st') (w_logs w) = Some (st_logs st', st_tables st')"
    by (rule add_logs_again) (use add_logs_has [OF f] st' in simp)
  moreover have "foldl (add_undecoded (fst ?k) (snd ?k)) (st_undecoded st') (w_undecoded w) = st_undecoded st'"
    by (rule add_undecoded_again) (use add_undecoded_has [of _ "w_undecoded w"] st' in simp)
  moreover have "foldl apply_op (st_tables st') (w_extra w) = st_tables st'"
    by (rule apply_hits) (use insert_hits [OF assms(2)] st' in simp)
  moreover have "foldl (\<lambda>m b. AList.update (bl_number b) (bl_hash b) m) (st_blocks st' ?k) (w_blocks w) = st_blocks st' ?k"
    by (rule update_blocks_again) (use update_blocks [OF assms(3)] st' in simp)
  moreover have "st_state st' ?k = Some (w_checkpoint w)" using st' by simp
  ultimately show ?thesis
    unfolding commit_def Let_def by (simp add: fun_upd_idem)
qed

section \<open>Keys\<close>

definition row_key :: "string \<Rightarrow> row \<Rightarrow> js list" where
  "row_key t r = map (row_get r) (key_cols t)"

definition unique_keys :: "(string \<Rightarrow> row list) \<Rightarrow> bool" where
  "unique_keys T \<longleftrightarrow> (\<forall>t. key_cols t \<noteq> [] \<longrightarrow> distinct (map (row_key t) (T t)))"

lemma row_match_row_key: "keyed t row \<Longrightarrow> row_match r (key_of_row t row) \<longleftrightarrow> row_key t r = row_key t row"
  by (simp add: row_match_key row_key_def)

lemma row_key_assign: "list_all (\<lambda>c. c \<notin> set (key_cols t)) (map fst f) \<Longrightarrow> row_key t (assign r f) = row_key t r"
  unfolding row_key_def by (rule map_cong [OF refl]) (rule row_get_assign, auto simp: list_all_iff)

lemma row_key_upsert:
  assumes "keyed t row" "distinct (map fst row)" "row_key t r = row_key t row"
  shows "row_key t (assign r row) = row_key t r"
  unfolding row_key_def
proof (rule map_cong [OF refl])
  fix c assume c: "c \<in> set (key_cols t)"
  then have same: "row_get r c = row_get row c" using assms(3) by (simp add: row_key_def)
  show "row_get (assign r row) c = row_get r c"
    using row_get_assign [of c row r] row_get_assign_in [OF assms(2), of c r] same by (cases "c \<in> set (map fst row)") auto
qed

lemma update_first_keys: "\<forall>r. P r \<longrightarrow> g (f r) = g r \<Longrightarrow> map g (update_first P f rows) = map g rows"
  by (induction rows) auto

lemma apply_op_unique:
  assumes "unique_keys T" "op_ok x"
  shows "unique_keys (apply_op T x)"
  unfolding unique_keys_def
proof (intro allI impI)
  fix t assume t: "key_cols t \<noteq> []"
  then have d: "distinct (map (row_key t) (T t))" using assms(1) by (simp add: unique_keys_def)
  show "distinct (map (row_key t) (apply_op T x t))"
  proof (cases x)
    case (Insert u row)
    then show ?thesis using d assms(2) by (auto simp: apply_op_def Let_def list_ex_iff row_match_row_key)
  next
    case (Upsert u row)
    have "map (row_key u) (update_first (\<lambda>r. row_match r (key_of_row u row)) (\<lambda>r. assign r row) (T u)) = map (row_key u) (T u)"
      by (rule update_first_keys) (use Upsert assms(2) row_match_row_key row_key_upsert in auto)
    then show ?thesis using Upsert d assms(2) by (auto simp: apply_op_def Let_def list_ex_iff row_match_row_key)
  next
    case (Merge u k f)
    have "map (row_key u) (apply_rows x (T u)) = map (row_key u) (T u)"
      using Merge assms(2) row_key_assign [of u f] by auto
    then show ?thesis using Merge d by (auto simp: apply_op_def simp del: apply_rows.simps)
  qed
qed

lemma apply_ops_unique: "unique_keys T \<Longrightarrow> list_all op_ok ops \<Longrightarrow> unique_keys (foldl apply_op T ops)"
  by (induction ops arbitrary: T) (auto simp: apply_op_unique)


section \<open>Every store a run can reach\<close>

inductive store_run :: "(string \<Rightarrow> string option) \<Rightarrow> store \<Rightarrow> bool" for h where
  Fresh: "store_run h empty_store"
| Commit: "store_run h st \<Longrightarrow> insert_ops (w_extra w) \<Longrightarrow> commit h st w = Some st' \<Longrightarrow> store_run h st'"
| Rewind: "store_run h st \<Longrightarrow> rewind h st c = Some st' \<Longrightarrow> store_run h st'"

lemma unique_fold:
  assumes "fold_option (apply_log h) T logs = Some T'" "unique_keys T"
  shows "unique_keys T'"
proof -
  obtain opss where o: "those (map (project h) logs) = Some opss" "T' = foldl apply_op T (concat opss)"
    using assms(1) by (auto simp: fold_apply_log)
  have "list_all op_ok (concat opss)" using ops_domain [OF o(1)] by (auto simp: list_all_iff op_fine_def)
  then show ?thesis using apply_ops_unique [OF assms(2)] o(2) by simp
qed

lemma unique_add_logs:
  assumes "fold_option (add_log h) s ls = Some s'" "unique_keys (snd s)"
  shows "unique_keys (snd s')"
  using assms
proof (induction ls arbitrary: s)
  case (Cons l ls)
  obtain s1 where s1: "add_log h s l = Some s1" "fold_option (add_log h) s1 ls = Some s'"
    using Cons.prems(1) by (auto split: option.splits)
  have "unique_keys (snd s1)"
    using s1(1) Cons.prems(2) unique_fold [of h "snd s" "[l]"] by (auto simp: add_log_def split: if_splits)
  then show ?case using Cons.IH [OF s1(2)] by simp
qed simp

lemma unique_shrink:
  assumes "unique_keys T" "\<forall>t. \<exists>P. T' t = filter P (T t)"
  shows "unique_keys T'"
  unfolding unique_keys_def
proof (intro allI impI)
  fix t assume t: "key_cols t \<noteq> []"
  obtain P where "T' t = filter P (T t)" using assms(2) by blast
  then show "distinct (map (row_key t) (T' t))" using assms(1) t by (simp add: unique_keys_def distinct_map_filter)
qed

lemma keep_below_filter: "keep_below f g d n rows = Some rows' \<Longrightarrow> \<exists>P. rows' = filter P rows"
  by (auto simp: keep_below_def Let_def split: if_splits)

lemma rewind_unique:
  assumes "unique_keys (st_tables st)" "rewind h st c = Some st'"
  shows "unique_keys (st_tables st')"
proof -
  obtain bs q rem where b: "\<exists>P. bs = filter P (st_tables st ''batch_solutions'')" "\<exists>P. q = filter P (st_tables st ''baseline_quotes'')"
    and f: "fold_option (apply_log h) (clear_domain (cp_settlement c) ((st_tables st)(''batch_solutions'' := bs, ''baseline_quotes'' := q))) rem = Some (st_tables st')"
  proof -
    obtain logs u bs q rem T where k: "keep_below (\<lambda>r. row_get r ''deployment'') (\<lambda>r. row_get r ''block_number'') (cp_settlement c) (cp_lastBlock c) (st_tables st ''batch_solutions'') = Some bs"
      "keep_below (\<lambda>r. row_get r ''deployment'') (\<lambda>r. row_get r ''block_number'') (cp_settlement c) (cp_lastBlock c) (st_tables st ''baseline_quotes'') = Some q"
      and f: "fold_option (apply_log h) (clear_domain (cp_settlement c) ((st_tables st)(''batch_solutions'' := bs, ''baseline_quotes'' := q))) (sort_key chain_order rem) = Some T"
      and T: "st_tables st' = T"
      using assms(2) unfolding rewind_def Let_def by (auto split: option.splits)
    then show ?thesis using that [OF keep_below_filter [OF k(1)] keep_below_filter [OF k(2)]] by blast
  qed
  have "unique_keys (clear_domain (cp_settlement c) ((st_tables st)(''batch_solutions'' := bs, ''baseline_quotes'' := q)))"
  proof (rule unique_shrink [OF assms(1)], rule allI)
    fix t
    let ?T = "(st_tables st)(''batch_solutions'' := bs, ''baseline_quotes'' := q)"
    obtain P Q where PQ: "bs = filter P (st_tables st ''batch_solutions'')" "q = filter Q (st_tables st ''baseline_quotes'')" using b by blast
    consider "t \<in> set DOMAIN_TABLES" | "t = ''batch_solutions''" | "t = ''baseline_quotes''"
      | "t \<notin> set DOMAIN_TABLES" "t \<noteq> ''batch_solutions''" "t \<noteq> ''baseline_quotes''" by blast
    then show "\<exists>P. clear_domain (cp_settlement c) ?T t = filter P (st_tables st t)"
    proof cases
      case 1
      then have "t \<noteq> ''batch_solutions'' \<and> t \<noteq> ''baseline_quotes''" by (auto simp: domain_tables_eq)
      then show ?thesis using 1 by (auto simp: clear_domain_def)
    next
      case 4
      then show ?thesis by (intro exI [where x = "\<lambda>_. True"]) (simp add: clear_domain_def)
    qed (use PQ in \<open>auto simp: clear_domain_def domain_tables_eq\<close>)
  qed
  then show ?thesis by (rule unique_fold [OF f])
qed

lemma store_run_unique: "store_run h st \<Longrightarrow> unique_keys (st_tables st)"
proof (induction rule: store_run.induct)
  case Fresh
  show ?case by (simp add: empty_store_def unique_keys_def)
next
  case (Commit st w st')
  then obtain rows T where f: "fold_option (add_log h) (st_logs st, st_tables st) (w_logs w) = Some (rows, T)"
    and "st_tables st' = foldl apply_op T (w_extra w)"
    by (auto simp: commit_def Let_def)
  moreover have "unique_keys T" using unique_add_logs [OF f] Commit.IH by simp
  moreover have "list_all op_ok (w_extra w)" using Commit.hyps(2) by (auto simp: insert_ops_def list_all_iff)
  ultimately show ?case using apply_ops_unique by simp
next
  case (Rewind st c st')
  then show ?case using rewind_unique by blast
qed

section \<open>The outcome of a batch\<close>

lemma row_get_col: "row_get r c = Str v \<Longrightarrow> c \<in> set (map fst r)"
  using map_of_eq_None_iff [of r c] by (cases "map_of r c") (auto simp: row_get_def)

definition settles :: "string \<Rightarrow> decoded_log \<Rightarrow> bool" where
  "settles b l \<longleftrightarrow> lg_contract l @ ''.'' @ lg_event l = ''Settlement.BatchSettled'' \<and> js_string (row_get (lg_args l) ''batchId'') = b"

definition settled_in :: "row list \<Rightarrow> string \<Rightarrow> bool" where
  "settled_in rows b \<longleftrightarrow> (\<exists>r\<in>set rows. row_get r ''batch_id'' = Str b \<and> row_get r ''outcome'' = Str ''settled'')"

lemma update_first_settled:
  assumes key: "\<forall>r\<in>set rows. P r \<longrightarrow> row_get r ''batch_id'' = Str b0" and hit: "list_ex P rows"
    and new: "\<forall>r. P r \<longrightarrow> row_get (f r) ''batch_id'' = Str b0 \<and> row_get (f r) ''outcome'' = Str ''settled''"
  shows "settled_in (update_first P f rows) b \<longleftrightarrow> settled_in rows b \<or> b = b0"
  using key hit
proof (induction rows)
  case (Cons r rows)
  then show ?case using new by (cases "P r") (auto simp: settled_in_def)
qed simp

lemma apply_settled:
  assumes "batch_write l x" "op_ok x" "\<forall>r\<in>set (T ''batches''). row_get r ''deployment'' = Str (lg_deployment l)"
  shows "settled_in (apply_op T x ''batches'') b \<longleftrightarrow> settled_in (T ''batches'') b \<or> (op_table x = ''batches'' \<and> settles b l)"
proof (cases "op_table x = ''batches''")
  case True
  let ?rows = "T ''batches''" and ?b0 = "js_string (row_get (lg_args l) ''batchId'')"
  have same: "apply_op T x ''batches'' = apply_rows x ?rows" using True by (simp add: apply_op_def)
  consider r where "lg_contract l @ ''.'' @ lg_event l = ''Settlement.BatchSettled''" "x = Upsert ''batches'' r"
      "row_get r ''batch_id'' = Str ?b0" "row_get r ''outcome'' = Str ''settled''"
    | r where "lg_contract l @ ''.'' @ lg_event l = ''Settlement.BatchPassthrough''" "x = Insert ''batches'' r" "row_get r ''outcome'' \<noteq> Str ''settled''"
    using assms(1) True unfolding batch_write_def by blast
  then show ?thesis
  proof cases
    case 1
    let ?P = "\<lambda>q. row_match q (key_of_row ''batches'' r)"
    have keyed: "keyed ''batches'' r" "distinct (map fst r)" using 1(2) assms(2) by simp_all
    have key: "\<forall>q. ?P q \<longrightarrow> row_get q ''batch_id'' = Str ?b0" using row_match_key [OF keyed(1)] 1(3) by simp
    have cols: "''batch_id'' \<in> set (map fst r)" "''outcome'' \<in> set (map fst r)"
      using row_get_col [of r "''batch_id''"] row_get_col [of r "''outcome''"] 1(3,4) by simp_all
    have new: "\<forall>q. ?P q \<longrightarrow> row_get (assign q r) ''batch_id'' = Str ?b0 \<and> row_get (assign q r) ''outcome'' = Str ''settled''"
      using row_get_assign_in [OF keyed(2) cols(1)] row_get_assign_in [OF keyed(2) cols(2)] 1(3,4) by simp
    have s: "settles b l \<longleftrightarrow> b = ?b0" using 1(1) by (auto simp: settles_def)
    show ?thesis
    proof (cases "list_ex ?P ?rows")
      case True
      then have "apply_rows x ?rows = update_first ?P (\<lambda>q. assign q r) ?rows" using 1(2) by (simp add: Let_def)
      then show ?thesis using update_first_settled [of ?rows ?P ?b0 "\<lambda>q. assign q r" b] key True new s 1(2) same by simp
    next
      case False
      then have "apply_rows x ?rows = ?rows @ [r]" using 1(2) by (simp add: Let_def)
      then show ?thesis using 1(2,3,4) s same by (auto simp: settled_in_def)
    qed
  next
    case 2
    then have "\<not> settles b l" by (simp add: settles_def)
    moreover have "apply_rows x ?rows = ?rows \<or> apply_rows x ?rows = ?rows @ [r]" using 2(2) by (simp add: Let_def)
    ultimately show ?thesis using 2(3) same by (auto simp: settled_in_def)
  qed
qed (simp add: apply_op_def)

lemma apply_ops_settled:
  assumes "list_all (batch_write l) ops" "list_all op_fine ops" "list_all (op_deployed (lg_deployment l)) ops"
    "\<forall>t. \<forall>r\<in>set (T t). row_get r ''deployment'' = Str (lg_deployment l)"
  shows "settled_in (foldl apply_op T ops ''batches'') b \<longleftrightarrow> settled_in (T ''batches'') b \<or> (\<exists>x\<in>set ops. op_table x = ''batches'' \<and> settles b l)"
  using assms
proof (induction ops arbitrary: T)
  case (Cons x ops)
  have one: "settled_in (apply_op T x ''batches'') b \<longleftrightarrow> settled_in (T ''batches'') b \<or> (op_table x = ''batches'' \<and> settles b l)"
    by (rule apply_settled) (use Cons.prems in \<open>simp_all add: op_fine_def\<close>)
  have "\<forall>t. \<forall>r\<in>set (apply_op T x t). row_get r ''deployment'' = Str (lg_deployment l)"
    using foldl_deployed [of "lg_deployment l" "[x]" T] Cons.prems by simp
  then show ?case using Cons.IH [of "apply_op T x"] Cons.prems one by auto
qed simp

lemma project_settled:
  assumes "lg_contract l @ ''.'' @ lg_event l = ''Settlement.BatchSettled''" "project h l = Some ops"
  shows "\<exists>x\<in>set ops. op_table x = ''batches''"
  using assms(2) unfolding project_def Let_def assms(1) by (auto simp: project_settlement_def Let_def)

lemma replay_settled:
  assumes "replay h logs = Some T" "\<forall>l\<in>set logs. lg_deployment l = d"
  shows "settled_in (T ''batches'') b \<longleftrightarrow> (\<exists>l\<in>set logs. settles b l)"
  using assms
proof (induction logs arbitrary: T rule: rev_induct)
  case Nil
  then have "T ''batches'' = []" by (auto simp: replay_def)
  then show ?case by (simp add: settled_in_def)
next
  case (snoc l logs)
  obtain R ops where R: "replay h logs = Some R" "project h l = Some ops" "T = foldl apply_op R ops"
    using snoc.prems(1) by (auto simp: replay_def fold_option_append apply_log_def split: option.splits)
  have dep: "\<forall>t. \<forall>r\<in>set (R t). row_get r ''deployment'' = Str (lg_deployment l)"
    using replay_deployed [OF R(1)] snoc.prems(2) by simp
  have "settled_in (T ''batches'') b \<longleftrightarrow> settled_in (R ''batches'') b \<or> (\<exists>x\<in>set ops. op_table x = ''batches'' \<and> settles b l)"
    unfolding R(3) by (rule apply_ops_settled [OF project_batches [OF R(2)] project_fine [OF R(2)] project_deployed [OF R(2)] dep])
  moreover have "(\<exists>x\<in>set ops. op_table x = ''batches'' \<and> settles b l) \<longleftrightarrow> settles b l"
    using project_settled [OF _ R(2)] by (auto simp: settles_def)
  ultimately show ?case using snoc.IH [OF R(1)] snoc.prems(2) by auto
qed


section \<open>What the store promises\<close>

text \<open>
  C16. Rolling back is forgetting: when a store indexes a list of logs in chain order, rewinding it to
  a block never throws and leaves the log table and every domain table as a store that was given,
  from nothing, only the logs up to that block.
\<close>

theorem rewind_is_fresh_index:
  assumes "indexes h d logs st" "sorted (map chain_order logs)" "cp_settlement c = d" "readable d st"
    and "commit h empty_store w = Some st2" "w_logs w = filter (\<lambda>l. lg_block l \<le> cp_lastBlock c) logs" "w_extra w = []"
  shows "\<exists>st'. rewind h st c = Some st' \<and> st_logs st' = st_logs st2 \<and> (\<forall>t\<in>set DOMAIN_TABLES. st_tables st' t = st_tables st2 t)"
proof -
  let ?kept = "filter (\<lambda>l. lg_block l \<le> cp_lastBlock c) logs"
  obtain st' where st': "rewind h st c = Some st'" "indexes h d ?kept st'" using rewind_indexes [OF assms(1-4)] by blast
  have logs: "\<forall>l\<in>set logs. lg_deployment l = d \<and> 0 \<le> lg_block l \<and> 0 \<le> lg_blockTimestamp l" "distinct (map log_key ?kept)"
    using assms(1) st'(2) by (auto simp: indexes_def)
  have "new_logs [] ?kept = ?kept" using logs(2) new_logs_distinct [of "[]" ?kept] by simp
  then have "indexes h d ?kept st2"
    using commit_indexes [OF indexes_empty [of h d] assms(5)] logs(1) assms(6,7) by simp
  then show ?thesis using st' by (auto simp: indexes_def)
qed

text \<open>
  A second pass changes nothing: committing a step again, after a crash or over a range read
  before, leaves the whole store as it is.
\<close>

theorem second_pass_changes_nothing:
  assumes "commit h st w = Some st'" "insert_ops (w_extra w)" "distinct (map bl_number (w_blocks w))"
  shows "commit h st' w = Some st'"
  by (rule commit_again [OF assms])

text \<open>
  In every store that commits and rewinds can reach, no two rows of a table have the same key
  columns, the primary keys of the schema.
\<close>

theorem rows_keep_their_keys:
  assumes "store_run h st" "(t, ks) \<in> set KEYS"
  shows "distinct (map (\<lambda>r. map (row_get r) ks) (st_tables st t))"
proof -
  have "key_cols t = ks" using assms(2) by (auto simp: KEYS_def)
  moreover have "ks \<noteq> []" using assms(2) by (auto simp: KEYS_def PROVENANCE_KEY_def)
  ultimately show ?thesis using store_run_unique [OF assms(1)] unfolding unique_keys_def row_key_def by blast
qed

text \<open>
  Settled decides: a batch's row reads settled exactly when the index holds a BatchSettled of
  that batch, whether a BatchPassthrough of it came before or after; then it is the batch's only row.
\<close>

theorem settled_decides:
  assumes "indexes h d logs st"
  shows "((\<exists>r\<in>set (st_tables st ''batches''). row_get r ''batch_id'' = Str b \<and> row_get r ''outcome'' = Str ''settled'')
      \<longleftrightarrow> (\<exists>l\<in>set logs. lg_contract l @ ''.'' @ lg_event l = ''Settlement.BatchSettled'' \<and> js_string (row_get (lg_args l) ''batchId'') = b))
    \<and> (\<forall>r\<in>set (st_tables st ''batches''). \<forall>q\<in>set (st_tables st ''batches''). row_get r ''batch_id'' = row_get q ''batch_id'' \<longrightarrow> r = q)"
proof -
  obtain T where T: "replay h logs = Some T" "st_tables st ''batches'' = T ''batches''" and d: "\<forall>l\<in>set logs. lg_deployment l = d"
    using assms by (auto simp: indexes_def domain_tables_eq)
  have outcome: "(\<exists>r\<in>set (st_tables st ''batches''). row_get r ''batch_id'' = Str b \<and> row_get r ''outcome'' = Str ''settled'')
      \<longleftrightarrow> (\<exists>l\<in>set logs. lg_contract l @ ''.'' @ lg_event l = ''Settlement.BatchSettled'' \<and> js_string (row_get (lg_args l) ''batchId'') = b)"
    using replay_settled [OF T(1) d, of b] T(2) by (simp add: settled_in_def settles_def)
  have "r = q" if rq: "r \<in> set (st_tables st ''batches'')" "q \<in> set (st_tables st ''batches'')" "row_get r ''batch_id'' = row_get q ''batch_id''" for r q
  proof -
    have "unique_keys T" using unique_fold [of h "\<lambda>_. []" logs T] T(1) by (simp add: replay_def unique_keys_def)
    then have "distinct (map (row_key ''batches'') (T ''batches''))" by (simp add: unique_keys_def)
    moreover have "row_key ''batches'' r = row_key ''batches'' q"
      using rq replay_deployed [OF T(1) d] T(2) by (simp add: row_key_def)
    ultimately show "r = q" using rq T(2) by (auto simp: distinct_map inj_on_def)
  qed
  then show ?thesis using outcome by blast
qed

section \<open>A store\<close>

definition sample_log :: "int \<Rightarrow> int \<Rightarrow> string \<Rightarrow> args \<Rightarrow> decoded_log" where
  "sample_log b i event a =
     \<lparr>lg_chainId = 1, lg_deployment = ''s'', lg_block = b, lg_blockHash = ''h'', lg_blockTimestamp = b, lg_txHash = ''t'', lg_index = i,
      lg_address = ''s'', lg_contract = ''Settlement'', lg_event = event, lg_args = a\<rparr>"

definition sample_logs :: "decoded_log list" where
  "sample_logs = [sample_log 1 0 ''BatchPassthrough'' [(''batchId'', Str ''5''), (''reason'', Str ''savings below threshold''), (''intentCount'', Num 2)],
     sample_log 2 1 ''BatchSettled'' [(''batchId'', Str ''5''), (''intentCount'', Num 2)]]"

definition sample_checkpoint :: "int \<Rightarrow> checkpoint" where
  "sample_checkpoint n = \<lparr>cp_chainId = 1, cp_settlement = ''s'', cp_fromBlock = 1, cp_lastBlock = n, cp_lastHash = ''h''\<rparr>"

definition sample_write :: "decoded_log list \<Rightarrow> step_write" where
  "sample_write ls = \<lparr>w_checkpoint = sample_checkpoint 2, w_blocks = [\<lparr>bl_number = 2, bl_hash = ''h'', bl_parentHash = ''g'', bl_timestamp = 2\<rparr>],
     w_logs = ls, w_undecoded = [], w_extra = []\<rparr>"

definition sample_store :: "decoded_log list \<Rightarrow> store" where
  "sample_store ls = the (commit (\<lambda>_. None) empty_store (sample_write ls))"

lemma sample_projects: "project (\<lambda>_. None) l \<noteq> None" if "l \<in> set sample_logs"
  using that by (auto simp: sample_logs_def sample_log_def project_def project_settlement_def Let_def)

lemma sample_commits:
  assumes "set ls \<subseteq> set sample_logs"
  shows "commit (\<lambda>_. None) empty_store (sample_write ls) = Some (sample_store ls)"
proof -
  have "\<exists>s'. fold_option (add_log (\<lambda>_. None)) s ls = Some s'" for s
    using assms
  proof (induction ls arbitrary: s)
    case (Cons l ls)
    obtain ops where "project (\<lambda>_. None) l = Some ops" using sample_projects [of l] Cons.prems by auto
    then have "\<exists>s1. add_log (\<lambda>_. None) s l = Some s1" by (simp add: add_log_def apply_log_def)
    then show ?case using Cons.IH Cons.prems by auto
  qed simp
  then have "commit (\<lambda>_. None) empty_store (sample_write ls) \<noteq> None"
    by (auto simp: commit_def Let_def sample_write_def)
  then show ?thesis by (simp add: sample_store_def)
qed

lemma sample_indexes: "indexes (\<lambda>_. None) ''s'' sample_logs (sample_store sample_logs)"
proof -
  have "new_logs [] sample_logs = sample_logs" by (simp add: new_logs_def sample_logs_def sample_log_def log_key_def)
  then show ?thesis
    using commit_indexes [OF indexes_empty [of "\<lambda>_. None" "''s''"] sample_commits [OF order_refl]]
    by (simp add: sample_write_def) (simp add: sample_logs_def sample_log_def)
qed

lemma sample_readable: "readable ''s'' (sample_store sample_logs)"
proof -
  have none: "commit h empty_store w = Some s \<Longrightarrow> w_undecoded w = [] \<Longrightarrow> st_undecoded s = []" for h w s
    by (auto simp: commit_def Let_def empty_store_def)
  have "st_undecoded (sample_store sample_logs) = []" by (rule none [OF sample_commits [OF order_refl]]) (simp add: sample_write_def)
  then show ?thesis
    using commit_other [OF sample_commits [OF order_refl], of "''batch_solutions''"] commit_other [OF sample_commits [OF order_refl], of "''baseline_quotes''"]
    by (simp add: readable_def sample_write_def empty_store_def domain_tables_eq)
qed

lemma rewind_is_fresh_index_witness:
  "\<exists>st'. rewind (\<lambda>_. None) (sample_store sample_logs) (sample_checkpoint 1) = Some st'
     \<and> st_logs st' = st_logs (sample_store [hd sample_logs])
     \<and> (\<forall>t. t \<notin> set DOMAIN_TABLES \<or> st_tables st' t = st_tables (sample_store [hd sample_logs]) t)"
proof -
  have c: "commit (\<lambda>_. None) empty_store (sample_write [hd sample_logs]) = Some (sample_store [hd sample_logs])"
    by (rule sample_commits) (simp add: sample_logs_def)
  have s: "sorted (map chain_order sample_logs)" by (simp add: sample_logs_def sample_log_def chain_order_def)
  have f: "w_logs (sample_write [hd sample_logs]) = filter (\<lambda>l. lg_block l \<le> cp_lastBlock (sample_checkpoint 1)) sample_logs"
    by (simp add: sample_write_def sample_logs_def sample_log_def sample_checkpoint_def)
  show ?thesis
    using rewind_is_fresh_index [OF sample_indexes s _ sample_readable c f] by (auto simp: sample_checkpoint_def sample_write_def)
qed

lemma second_pass_changes_nothing_witness:
  "commit (\<lambda>_. None) (sample_store sample_logs) (sample_write sample_logs) = Some (sample_store sample_logs)"
  by (rule second_pass_changes_nothing [OF sample_commits [OF order_refl]]) (simp_all add: sample_write_def insert_ops_def)

lemma rows_keep_their_keys_witness:
  "distinct (map (\<lambda>r. map (row_get r) [''deployment'', ''batch_id'']) (st_tables (sample_store sample_logs) ''batches''))"
  by (rule rows_keep_their_keys [OF store_run.Commit [OF store_run.Fresh _ sample_commits [OF order_refl]]])
     (simp_all add: sample_write_def insert_ops_def KEYS_def)

lemma settled_decides_witness:
  "\<exists>r\<in>set (st_tables (sample_store sample_logs) ''batches''). row_get r ''batch_id'' = Str ''5'' \<and> row_get r ''outcome'' = Str ''settled''"
proof -
  have "\<exists>l\<in>set sample_logs. lg_contract l @ ''.'' @ lg_event l = ''Settlement.BatchSettled'' \<and> js_string (row_get (lg_args l) ''batchId'') = ''5''"
    by (simp add: sample_logs_def) (simp add: sample_log_def row_get_def)
  then show ?thesis using settled_decides [OF sample_indexes, of "''5''"] by blast
qed

end
