(* ===== verification/Ingest.thy ===== *)
theory Ingest
  imports IndexStore "HOL-Library.Sublist"
begin

text \<open>
  indexer/src/ingest.ts: one ingest step, from the checkpoint to at most a range of blocks further. A
  read of the node is the list of the answers to its attempts; the node may answer differently at the
  start of a step, while it rewinds and while it reads on. viem's decoding is a parameter.
\<close>

section \<open>Reads and retries\<close>

record rpc_error =
  err_name :: string
  err_message :: string

definition MAX_REWIND :: nat where "MAX_REWIND = 64"
definition FULL_RESET_WINDOW_MS :: int where "FULL_RESET_WINDOW_MS = 10 * 60000"
definition READ_ATTEMPTS :: nat where "READ_ATTEMPTS = 4"

text \<open>\<open>answers\<close> gives the answer to each attempt, the first one at 1.\<close>

function with_retry :: "nat \<Rightarrow> (rpc_error \<Rightarrow> bool) \<Rightarrow> nat \<Rightarrow> (nat \<Rightarrow> rpc_error + 'a) \<Rightarrow> rpc_error + 'a" where
  "with_retry attempts final attempt answers =
     (case answers attempt of
        Inr v \<Rightarrow> Inr v
      | Inl e \<Rightarrow> if attempt \<ge> attempts \<or> final e then Inl e else with_retry attempts final (attempt + 1) answers)"
  by pat_completeness auto
termination by (relation "measure (\<lambda>(n, _, k, _). n - k)") auto

declare with_retry.simps [simp del]

definition missing :: "rpc_error \<Rightarrow> bool" where
  "missing e \<longleftrightarrow> err_name e = ''BlockNotFoundError''"

definition block_or_null :: "(nat \<Rightarrow> rpc_error + block_row) \<Rightarrow> rpc_error + block_row option" where
  "block_or_null answers =
     (case with_retry 2 missing 1 answers of Inr b \<Rightarrow> Inr (Some b) | Inl e \<Rightarrow> if missing e then Inr None else Inl e)"

definition read_with :: "(rpc_error \<Rightarrow> bool) \<Rightarrow> (nat \<Rightarrow> rpc_error + 'a) \<Rightarrow> rpc_error + 'a" where
  "read_with final answers = with_retry READ_ATTEMPTS final 1 answers"

definition read_node :: "(nat \<Rightarrow> rpc_error + 'a) \<Rightarrow> rpc_error + 'a" where
  "read_node answers = read_with (\<lambda>_. False) answers"

definition mentions :: "string list \<Rightarrow> string \<Rightarrow> bool" where
  "mentions ws s \<longleftrightarrow> list_ex (\<lambda>w. sublist w (lower s)) ws"

definition range_refused :: "string \<Rightarrow> bool" where
  "range_refused msg \<longleftrightarrow> \<not> mentions [''too many requests'', ''rate limit'', ''429'', ''compute units'', ''capacity''] msg
     \<and> mentions [''range'', ''too many'', ''limit'', ''exceed''] msg"

section \<open>Logs and their decoding\<close>

record raw_log =
  rl_address :: string
  rl_topics :: "string list"
  rl_data :: string
  rl_block :: int
  rl_blockHash :: string
  rl_txHash :: string
  rl_index :: int

text \<open>What viem decodes an argument to: uints beyond 48 bits are BigInts, shorter ones numbers.\<close>

datatype abi_value = V_big int | V_text string | V_num int | V_bool bool | V_list "abi_value list" | V_obj "(string \<times> abi_value) list"

fun json_safe :: "abi_value \<Rightarrow> js" where
  "json_safe (V_big n) = Str (decimal n)"
| "json_safe (V_text s) = Str (if take 2 s = ''0x'' then lower s else s)"
| "json_safe (V_num n) = Num n"
| "json_safe (V_bool b) = Bool b"
| "json_safe (V_list vs) = Arr (map json_safe vs)"
| "json_safe (V_obj fs) = Obj (map (\<lambda>f. (fst f, json_safe (snd f))) fs)"

record deployment =
  d_chainId :: int
  d_settlement :: string
  d_contracts :: "(string \<times> string) list"
  d_fromBlock :: int

text \<open>\<open>d_contracts\<close> has the contract's name with each address, so \<^verbatim>\<open>decoders\<close> reads it off; \<open>decode\<close> is viem's.\<close>

type_synonym decoder = "string \<Rightarrow> string list \<Rightarrow> string \<Rightarrow> string + string \<times> (string \<times> abi_value) list"

definition message_line :: "string \<Rightarrow> string" where
  "message_line s = takeWhile (\<lambda>c. c \<noteq> CHR 0x0A) s"

definition decode_log :: "decoder \<Rightarrow> raw_log \<Rightarrow> string option \<Rightarrow> string + string \<times> string \<times> args" where
  "decode_log decode l contract =
     (case contract of
        None \<Rightarrow> Inl (''no indexed contract at '' @ rl_address l)
      | Some name \<Rightarrow>
          (case decode name (rl_topics l) (rl_data l) of
             Inl msg \<Rightarrow> Inl (message_line msg)
           | Inr (event, arguments) \<Rightarrow> Inr (event, name, map (\<lambda>f. (fst f, json_safe (snd f))) arguments)))"

section \<open>The node\<close>

record node =
  nd_block :: "int \<Rightarrow> nat \<Rightarrow> rpc_error + block_row"
  nd_head :: "nat \<Rightarrow> rpc_error + int"
  nd_logs :: "int \<Rightarrow> int \<Rightarrow> nat \<Rightarrow> rpc_error + raw_log list"
  nd_tx :: "string \<Rightarrow> nat \<Rightarrow> rpc_error + string"

text \<open>
  The indexer: \<open>ix_decode\<close> as above, \<open>ix_finalize\<close> what the input of a transaction says when it is a
  finalize: the batch, the hash of its solution and the solution as JSON text.
\<close>

record indexer =
  ix_deployment :: deployment
  ix_confirmations :: int
  ix_range :: int
  ix_decode :: decoder
  ix_hexToString :: "string \<Rightarrow> string option"
  ix_finalize :: "string \<Rightarrow> (int \<times> string \<times> string) option"

record ingest =
  in_store :: store
  in_lastFullReset :: int

datatype step_error = Rpc_failed rpc_error | Second_reset | Range_refused rpc_error | Moved int | Store_threw

record step_result =
  sr_from :: int
  sr_to :: int
  sr_logs :: nat
  sr_undecoded :: nat
  sr_rewoundTo :: "int option"
  sr_fullReset :: bool

section \<open>The step\<close>

definition safe_head :: "int \<Rightarrow> node \<Rightarrow> rpc_error + int" where
  "safe_head confirmations n = bindE (read_node (nd_head n)) (\<lambda>head. Inr (if head > confirmations then head - confirmations else 0))"

definition initial :: "deployment \<Rightarrow> node \<Rightarrow> rpc_error + checkpoint" where
  "initial d n =
     (let start = d_fromBlock d - 1
      in bindE (read_node (nd_block n start)) (\<lambda>b.
         Inr \<lparr>cp_chainId = d_chainId d, cp_settlement = d_settlement d, cp_fromBlock = d_fromBlock d, cp_lastBlock = start, cp_lastHash = bl_hash b\<rparr>))"

definition checkpoint_of :: "deployment \<Rightarrow> node \<Rightarrow> store \<Rightarrow> rpc_error + checkpoint" where
  "checkpoint_of d n st = (case st_state st (d_chainId d, d_settlement d) of Some c \<Rightarrow> Inr c | None \<Rightarrow> initial d n)"

fun common_block :: "node \<Rightarrow> (int \<times> string) list \<Rightarrow> rpc_error + (int \<times> string) option" where
  "common_block n [] = Inr None"
| "common_block n ((k, hash) # bs) =
     bindE (block_or_null (nd_block n k)) (\<lambda>b. if map_option bl_hash b = Some hash then Inr (Some (k, hash)) else common_block n bs)"

definition ingest_rewind :: "indexer \<Rightarrow> node \<Rightarrow> int \<Rightarrow> checkpoint \<Rightarrow> ingest \<Rightarrow> ingest \<times> (step_error + int \<times> bool)" where
  "ingest_rewind ix n now cp s =
     (let d = ix_deployment ix; st = in_store s in
      case common_block n (stored_blocks st (d_chainId d) (d_settlement d) (cp_lastBlock cp) MAX_REWIND) of
        Inl e \<Rightarrow> (s, Inl (Rpc_failed e))
      | Inr (Some (k, hash)) \<Rightarrow>
          (case rewind (ix_hexToString ix) st (cp\<lparr>cp_lastBlock := k, cp_lastHash := hash\<rparr>) of
             None \<Rightarrow> (s, Inl Store_threw)
           | Some st' \<Rightarrow> (s\<lparr>in_store := st'\<rparr>, Inr (k, False)))
      | Inr None \<Rightarrow>
          if now - in_lastFullReset s < FULL_RESET_WINDOW_MS then (s, Inl Second_reset)
          else let s1 = s\<lparr>in_lastFullReset := now\<rparr>
               in case initial d n of
                    Inl e \<Rightarrow> (s1, Inl (Rpc_failed e))
                  | Inr fresh \<Rightarrow>
                      (case rewind (ix_hexToString ix) st fresh of
                         None \<Rightarrow> (s1, Inl Store_threw)
                       | Some st' \<Rightarrow> (s1\<lparr>in_store := st'\<rparr>, Inr (cp_lastBlock fresh, True))))"

definition undecoded_of :: "raw_log \<Rightarrow> string \<Rightarrow> undecoded_log" where
  "undecoded_of l msg =
     \<lparr>ud_block = rl_block l, ud_txHash = lower (rl_txHash l), ud_index = rl_index l, ud_address = lower (rl_address l),
      ud_topics = map lower (rl_topics l), ud_data = rl_data l, ud_error = msg\<rparr>"

definition decoded_of :: "deployment \<Rightarrow> (int \<Rightarrow> block_row option) \<Rightarrow> raw_log \<Rightarrow> string \<times> string \<times> args \<Rightarrow> decoded_log" where
  "decoded_of d blocks l r =
     (case r of (event, contract, arguments) \<Rightarrow>
        \<lparr>lg_chainId = d_chainId d, lg_deployment = d_settlement d, lg_block = rl_block l, lg_blockHash = lower (rl_blockHash l),
         lg_blockTimestamp = (case blocks (rl_block l) of Some b \<Rightarrow> bl_timestamp b | None \<Rightarrow> 0), lg_txHash = lower (rl_txHash l), lg_index = rl_index l,
         lg_address = lower (rl_address l), lg_contract = contract, lg_event = event, lg_args = arguments\<rparr>)"

definition sort_log :: "indexer \<Rightarrow> (int \<Rightarrow> block_row option) \<Rightarrow> raw_log \<Rightarrow> undecoded_log + decoded_log" where
  "sort_log ix blocks l =
     (case decode_log (ix_decode ix) l (map_of (d_contracts (ix_deployment ix)) (lower (rl_address l))) of
        Inl msg \<Rightarrow> Inl (undecoded_of l msg)
      | Inr r \<Rightarrow> Inr (decoded_of (ix_deployment ix) blocks l r))"

definition is_closing :: "decoded_log \<Rightarrow> bool" where
  "is_closing l \<longleftrightarrow> lg_contract l = ''Settlement'' \<and> (lg_event l = ''BatchSettled'' \<or> lg_event l = ''BatchPassthrough'')"

text \<open>\<^verbatim>\<open>winningSolutions\<close>: one row per closing transaction whose input is a finalize.\<close>

definition winning_row :: "decoded_log \<Rightarrow> int \<times> string \<times> string \<Rightarrow> op" where
  "winning_row l f =
     (case f of (batch, hash, solution) \<Rightarrow>
        Insert ''batch_solutions'' [(''deployment'', Str (lg_deployment l)), (''batch_id'', Str (decimal batch)), (''solution_hash'', Str hash),
          (''solution'', Str solution), (''chain_id'', Num (lg_chainId l)), (''block_number'', Str (decimal (lg_block l))),
          (''block_timestamp'', Str (decimal (lg_blockTimestamp l))), (''tx_hash'', Str (lg_txHash l)), (''log_index'', Num (lg_index l))])"

definition winning_step :: "indexer \<Rightarrow> node \<Rightarrow> string list \<times> op list \<Rightarrow> decoded_log \<Rightarrow> rpc_error + string list \<times> op list" where
  "winning_step ix n acc l =
     (if lg_txHash l \<in> set (fst acc) then Inr acc
      else bindE (read_node (nd_tx n (lg_txHash l))) (\<lambda>input.
           Inr (fst acc @ [lg_txHash l], snd acc @ (case ix_finalize ix input of None \<Rightarrow> [] | Some f \<Rightarrow> [winning_row l f]))))"

definition winning_solutions :: "indexer \<Rightarrow> node \<Rightarrow> decoded_log list \<Rightarrow> rpc_error + op list" where
  "winning_solutions ix n logs = bindE (foldE (winning_step ix n) ([], []) (filter is_closing logs)) (\<lambda>acc. Inr (snd acc))"

text \<open>The heights read: the range's last block and those of its logs, each once.\<close>

definition heights_of :: "int \<Rightarrow> raw_log list \<Rightarrow> int list" where
  "heights_of to raw = rev (remdups (rev (to # map rl_block raw)))"

definition read_blocks :: "node \<Rightarrow> int list \<Rightarrow> rpc_error + (int \<times> block_row) list" where
  "read_blocks n hs = mapE (\<lambda>k. bindE (read_node (nd_block n k)) (\<lambda>b. Inr (k, b\<lparr>bl_number := k\<rparr>))) hs"

definition read_on :: "indexer \<Rightarrow> node \<Rightarrow> checkpoint \<Rightarrow> int option \<Rightarrow> bool \<Rightarrow> ingest \<Rightarrow> ingest \<times> (step_error + step_result)" where
  "read_on ix n cp rewound full s =
     (case safe_head (ix_confirmations ix) n of
        Inl e \<Rightarrow> (s, Inl (Rpc_failed e))
      | Inr head \<Rightarrow>
          let from = cp_lastBlock cp + 1;
              to = (if head < cp_lastBlock cp + ix_range ix then head else cp_lastBlock cp + ix_range ix)
          in if to < from then (s, Inr \<lparr>sr_from = from, sr_to = cp_lastBlock cp, sr_logs = 0, sr_undecoded = 0, sr_rewoundTo = rewound, sr_fullReset = full\<rparr>)
             else case read_with (\<lambda>e. range_refused (err_message e)) (nd_logs n from to) of
               Inl e \<Rightarrow> (s, Inl (if range_refused (err_message e) then Range_refused e else Rpc_failed e))
             | Inr raw \<Rightarrow>
                 (case read_blocks n (heights_of to raw) of
                    Inl e \<Rightarrow> (s, Inl (Rpc_failed e))
                  | Inr blocks \<Rightarrow>
                      (case find (\<lambda>l. map_option bl_hash (map_of blocks (rl_block l)) \<noteq> Some (rl_blockHash l)) raw of
                         Some l \<Rightarrow> (s, Inl (Moved (rl_block l)))
                       | None \<Rightarrow>
                           let sorted = map (sort_log ix (map_of blocks)) raw;
                               logs = concat (map (case_sum (\<lambda>_. []) (\<lambda>l. [l])) sorted);
                               undecoded = concat (map (case_sum (\<lambda>u. [u]) (\<lambda>_. [])) sorted)
                           in case winning_solutions ix n logs of
                                Inl e \<Rightarrow> (s, Inl (Rpc_failed e))
                              | Inr extra \<Rightarrow>
                                  (case commit (ix_hexToString ix) (in_store s)
                                     \<lparr>w_checkpoint = cp\<lparr>cp_lastBlock := to, cp_lastHash := (case map_of blocks to of Some b \<Rightarrow> bl_hash b | None \<Rightarrow> [])\<rparr>,
                                      w_blocks = map snd blocks, w_logs = logs, w_undecoded = undecoded, w_extra = extra\<rparr> of
                                     None \<Rightarrow> (s, Inl Store_threw)
                                   | Some st' \<Rightarrow>
                                       (s\<lparr>in_store := st'\<rparr>, Inr \<lparr>sr_from = from, sr_to = to, sr_logs = length logs, sr_undecoded = length undecoded,
                                          sr_rewoundTo = rewound, sr_fullReset = full\<rparr>)))))"

definition ingest_step :: "indexer \<Rightarrow> node \<Rightarrow> node \<Rightarrow> node \<Rightarrow> int \<Rightarrow> ingest \<Rightarrow> ingest \<times> (step_error + step_result)" where
  "ingest_step ix n1 n2 n3 now s =
     (let d = ix_deployment ix in
      case bindE (checkpoint_of d n1 (in_store s)) (\<lambda>cp. bindE (block_or_null (nd_block n1 (cp_lastBlock cp))) (\<lambda>at. Inr (cp, at))) of
        Inl e \<Rightarrow> (s, Inl (Rpc_failed e))
      | Inr (cp, at) \<Rightarrow>
          if map_option bl_hash at = Some (cp_lastHash cp) then read_on ix n3 cp None False s
          else case ingest_rewind ix n2 now cp s of
                 (s', Inl e) \<Rightarrow> (s', Inl e)
               | (s', Inr (to, full)) \<Rightarrow>
                   (case checkpoint_of d n3 (in_store s') of
                      Inl e \<Rightarrow> (s', Inl (Rpc_failed e))
                    | Inr cp' \<Rightarrow> read_on ix n3 cp' (Some to) full s'))"


section \<open>What a node is relied on for\<close>

text \<open>
  A chain is its blocks and the logs of the indexed contracts in each. A node is truthful about a
  chain when whatever it answers is so there; it may refuse or fail any attempt.
\<close>

record chain =
  ch_block :: "int \<Rightarrow> block_row option"
  ch_logs :: "int \<Rightarrow> raw_log list"

definition raws :: "chain \<Rightarrow> int \<Rightarrow> int \<Rightarrow> raw_log list" where
  "raws X a b = concat (map (ch_logs X) [a..b])"

definition truthful :: "chain \<Rightarrow> node \<Rightarrow> bool" where
  "truthful X n \<longleftrightarrow> (\<forall>k i b. nd_block n k i = Inr b \<longrightarrow> ch_block X k = Some b)
     \<and> (\<forall>k i e. nd_block n k i = Inl e \<longrightarrow> missing e \<longrightarrow> ch_block X k = None)
     \<and> (\<forall>a b i ls. nd_logs n a b i = Inr ls \<longrightarrow> ls = raws X a b)"

definition raw_key :: "raw_log \<Rightarrow> string \<times> int" where
  "raw_key l = (lower (rl_txHash l), rl_index l)"

definition chain_ok :: "chain \<Rightarrow> bool" where
  "chain_ok X \<longleftrightarrow> (\<forall>k l. l \<in> set (ch_logs X k) \<longrightarrow> rl_block l = k)
     \<and> (\<forall>k b. ch_block X k = Some b \<longrightarrow> bl_number b = k \<and> 0 \<le> bl_timestamp b)
     \<and> (\<forall>k. sorted (map rl_index (ch_logs X k))) \<and> (\<forall>a b. distinct (map raw_key (raws X a b)))"

text \<open>A block's hash commits to its history.\<close>

definition same_history :: "chain \<Rightarrow> chain \<Rightarrow> bool" where
  "same_history X Y \<longleftrightarrow> (\<forall>k bx by m. ch_block X k = Some bx \<and> ch_block Y k = Some by \<and> bl_hash bx = bl_hash by \<and> m \<le> k
     \<longrightarrow> ch_logs X m = ch_logs Y m \<and> ch_block X m = ch_block Y m)"

definition sort_all :: "indexer \<Rightarrow> (int \<Rightarrow> block_row option) \<Rightarrow> raw_log list \<Rightarrow> decoded_log list" where
  "sort_all ix blocks ls = concat (map (case_sum (\<lambda>_. []) (\<lambda>l. [l])) (map (sort_log ix blocks) ls))"

definition chain_index :: "indexer \<Rightarrow> chain \<Rightarrow> int \<Rightarrow> int \<Rightarrow> decoded_log list" where
  "chain_index ix X a b = sort_all ix (ch_block X) (raws X a b)"

text \<open>
  The specification of the indexer: up to its checkpoint the store indexes exactly the chain's logs, and
  the block hashes it keeps are the chain's.
\<close>

definition reflects :: "indexer \<Rightarrow> chain \<Rightarrow> store \<Rightarrow> bool" where
  "reflects ix X st \<longleftrightarrow>
     (let d = ix_deployment ix; k = (d_chainId d, d_settlement d); h = ix_hexToString ix in
      readable (d_settlement d) st \<and>
      (case st_state st k of
         None \<Rightarrow> indexes h (d_settlement d) [] st \<and> st_blocks st k = []
       | Some cp \<Rightarrow> cp_chainId cp = d_chainId d \<and> cp_settlement cp = d_settlement d \<and> d_fromBlock d - 1 \<le> cp_lastBlock cp
           \<and> map_option bl_hash (ch_block X (cp_lastBlock cp)) = Some (cp_lastHash cp)
           \<and> indexes h (d_settlement d) (chain_index ix X (d_fromBlock d) (cp_lastBlock cp)) st
           \<and> (\<forall>(k, hash)\<in>set (st_blocks st k). d_fromBlock d \<le> k \<and> k \<le> cp_lastBlock cp \<and> map_option bl_hash (ch_block X k) = Some hash)))"

section \<open>Reads of a truthful node\<close>

lemma with_retry_cases:
  "(\<exists>i v. with_retry a f k ans = Inr v \<and> ans i = Inr v) \<or> (\<exists>i e. with_retry a f k ans = Inl e \<and> ans i = Inl e)"
proof (induction a f k ans rule: with_retry.induct)
  case (1 a f k ans)
  show ?case
  proof (cases "ans k")
    case (Inl e)
    then show ?thesis using 1 [OF Inl] by (subst (1 2) with_retry.simps) auto
  next
    case (Inr v)
    then show ?thesis by (subst (1 2) with_retry.simps) auto
  qed
qed

lemma with_retry_Inr: "with_retry a f k ans = Inr v \<Longrightarrow> \<exists>i. ans i = Inr v"
  using with_retry_cases [of a f k ans] by auto

lemma with_retry_Inl: "with_retry a f k ans = Inl e \<Longrightarrow> \<exists>i. ans i = Inl e"
  using with_retry_cases [of a f k ans] by auto

lemma read_block: "truthful X n \<Longrightarrow> read_node (nd_block n k) = Inr b \<Longrightarrow> ch_block X k = Some b"
proof -
  assume t: "truthful X n" and r: "read_node (nd_block n k) = Inr b"
  obtain i where "nd_block n k i = Inr b" using with_retry_Inr [OF r [unfolded read_node_def read_with_def]] by blast
  then show ?thesis using t by (simp add: truthful_def)
qed

lemma block_or_null_truth: "truthful X n \<Longrightarrow> block_or_null (nd_block n k) = Inr r \<Longrightarrow> ch_block X k = r"
proof -
  assume t: "truthful X n" and r: "block_or_null (nd_block n k) = Inr r"
  show ?thesis
  proof (cases "with_retry 2 missing 1 (nd_block n k)")
    case (Inl e)
    then show ?thesis using r t with_retry_Inl [OF Inl] by (auto simp: block_or_null_def truthful_def split: if_splits)
  next
    case (Inr b)
    then show ?thesis using r t with_retry_Inr [OF Inr] by (auto simp: block_or_null_def truthful_def)
  qed
qed

lemma common_block_truth:
  "truthful X n \<Longrightarrow> common_block n bs = Inr (Some (k, hash)) \<Longrightarrow> (k, hash) \<in> set bs \<and> map_option bl_hash (ch_block X k) = Some hash"
proof (induction bs)
  case (Cons e bs)
  obtain k' hash' where e: "e = (k', hash')" by fastforce
  obtain r where r: "block_or_null (nd_block n k') = Inr r" using Cons.prems(2) e by (cases "block_or_null (nd_block n k')") auto
  note t = block_or_null_truth [OF Cons.prems(1) r]
  show ?case
  proof (cases "map_option bl_hash r = Some hash'")
    case True
    then have "common_block n (e # bs) = Inr (Some (k', hash'))" by (simp add: e r)
    then have "k' = k \<and> hash' = hash" using Cons.prems(2) by simp
    then show ?thesis using True t e by simp
  next
    case False
    then have "common_block n (e # bs) = common_block n bs" by (auto simp: e r)
    then show ?thesis using Cons by simp
  qed
qed simp

lemma read_blocks_truth:
  assumes "truthful X n" "chain_ok X"
  shows "read_blocks n hs = Inr bs \<Longrightarrow> map fst bs = hs \<and> (\<forall>(k, b)\<in>set bs. ch_block X k = Some b)"
proof (induction hs arbitrary: bs)
  case (Cons k hs)
  obtain b where b: "read_node (nd_block n k) = Inr b" using Cons.prems by (cases "read_node (nd_block n k)") (auto simp: read_blocks_def)
  then obtain bs' where bs': "read_blocks n hs = Inr bs'" "bs = (k, b\<lparr>bl_number := k\<rparr>) # bs'"
    using Cons.prems by (cases "read_blocks n hs") (auto simp: read_blocks_def)
  have t: "ch_block X k = Some b" by (rule read_block [OF assms(1) b])
  then have "b\<lparr>bl_number := k\<rparr> = b" using assms(2) unfolding chain_ok_def by auto
  then show ?case using Cons.IH [OF bs'(1)] bs'(2) t by auto
qed (simp add: read_blocks_def)

lemma heights: "set (heights_of to raw) = insert to (rl_block ` set raw)" "distinct (heights_of to raw)"
  by (simp_all add: heights_of_def)

lemma read_blocks_map:
  assumes "truthful X n" "chain_ok X" "read_blocks n (heights_of to raw) = Inr bs" "k \<in> insert to (rl_block ` set raw)"
  shows "map_of bs k = ch_block X k"
proof -
  note t = read_blocks_truth [OF assms(1-3)]
  have "k \<in> fst ` set bs" using t assms(4) heights(1) [of to raw] by (metis list.set_map)
  then obtain b where b: "map_of bs k = Some b" by (metis map_of_eq_None_iff not_None_eq)
  then show ?thesis using t map_of_SomeD [OF b] by auto
qed

section \<open>The chain's index\<close>

lemma raws_split: "a \<le> b + 1 \<Longrightarrow> b \<le> c \<Longrightarrow> raws X a c = raws X a b @ raws X (b + 1) c"
  using upto_split2 [of a b c] by (cases "a = b + 1") (auto simp: raws_def)

lemma sort_all_append: "sort_all ix bs (xs @ ys) = sort_all ix bs xs @ sort_all ix bs ys"
  by (simp add: sort_all_def)

lemma chain_index_split: "a \<le> b + 1 \<Longrightarrow> b \<le> c \<Longrightarrow> chain_index ix X a c = chain_index ix X a b @ chain_index ix X (b + 1) c"
  unfolding chain_index_def using raws_split [of a b c X] by (simp add: sort_all_append)

lemma raws_block: "chain_ok X \<Longrightarrow> l \<in> set (raws X a b) \<Longrightarrow> a \<le> rl_block l \<and> rl_block l \<le> b"
proof -
  assume ok: "chain_ok X" and l: "l \<in> set (raws X a b)"
  obtain k where k: "a \<le> k" "k \<le> b" "l \<in> set (ch_logs X k)" using l by (auto simp: raws_def)
  then have "rl_block l = k" using ok by (simp add: chain_ok_def)
  then show ?thesis using k by simp
qed

lemma sort_all_in: "x \<in> set (sort_all ix bs ls) \<Longrightarrow> \<exists>l\<in>set ls. sort_log ix bs l = Inr x"
proof -
  assume "x \<in> set (sort_all ix bs ls)"
  then obtain l where l: "l \<in> set ls" "x \<in> set (case_sum (\<lambda>_. []) (\<lambda>l. [l]) (sort_log ix bs l))" by (auto simp: sort_all_def)
  then show ?thesis by (cases "sort_log ix bs l") auto
qed

lemma sort_log_parts:
  assumes "sort_log ix bs l = Inr x"
  shows "lg_block x = rl_block l" "lg_index x = rl_index l" "lg_txHash x = lower (rl_txHash l)" "lg_chainId x = d_chainId (ix_deployment ix)"
    "lg_deployment x = d_settlement (ix_deployment ix)" "lg_blockTimestamp x = (case bs (rl_block l) of Some b \<Rightarrow> bl_timestamp b | None \<Rightarrow> 0)"
  using assms by (auto simp: sort_log_def decoded_of_def split: sum.splits prod.splits)

lemma sort_all_cong: "(\<And>l. l \<in> set ls \<Longrightarrow> bs (rl_block l) = bs' (rl_block l)) \<Longrightarrow> sort_all ix bs ls = sort_all ix bs' ls"
proof -
  assume eq: "\<And>l. l \<in> set ls \<Longrightarrow> bs (rl_block l) = bs' (rl_block l)"
  have "map (sort_log ix bs) ls = map (sort_log ix bs') ls"
    by (rule map_cong [OF refl]) (simp add: sort_log_def decoded_of_def eq split: sum.split prod.split)
  then show ?thesis by (simp only: sort_all_def)
qed

lemma sort_all_keys: "distinct (map raw_key ls) \<Longrightarrow> distinct (map log_key (sort_all ix bs ls))"
proof (induction ls)
  case (Cons l ls)
  have "log_key x \<notin> log_key ` set (sort_all ix bs ls)" if x: "sort_log ix bs l = Inr x" for x
  proof
    assume "log_key x \<in> log_key ` set (sort_all ix bs ls)"
    then obtain y l' where y: "l' \<in> set ls" "sort_log ix bs l' = Inr y" "log_key x = log_key y" using sort_all_in by fastforce
    then have "raw_key l = raw_key l'" using sort_log_parts [OF x] sort_log_parts [OF y(2)] by (simp add: log_key_def raw_key_def)
    then show False using Cons.prems y(1) by auto
  qed
  then show ?case using Cons by (auto simp: sort_all_def split: sum.split)
qed (simp add: sort_all_def)

lemma sort_all_sorted: "sorted (map (\<lambda>l. (rl_block l, rl_index l)) ls) \<Longrightarrow> sorted (map chain_order (sort_all ix bs ls))"
proof (induction ls)
  case (Cons l ls)
  have "\<forall>y\<in>set (sort_all ix bs ls). chain_order x \<le> chain_order y" if x: "sort_log ix bs l = Inr x" for x
  proof
    fix y assume "y \<in> set (sort_all ix bs ls)"
    then obtain l' where "l' \<in> set ls" "sort_log ix bs l' = Inr y" using sort_all_in by fastforce
    then show "chain_order x \<le> chain_order y"
      using Cons.prems sort_log_parts [OF x] sort_log_parts [of ix bs l' y] by (auto simp: chain_order_def)
  qed
  then show ?case using Cons by (auto simp: sort_all_def split: sum.split)
qed (simp add: sort_all_def)

lemma block_sorted: "chain_ok X \<Longrightarrow> sorted (map (\<lambda>l. (rl_block l, rl_index l)) (ch_logs X k))"
proof -
  assume ok: "chain_ok X"
  have "map (\<lambda>l. (rl_block l, rl_index l)) (ch_logs X k) = map (Pair k) (map rl_index (ch_logs X k))" using ok by (simp add: chain_ok_def)
  moreover have "sorted (map (Pair k) ns)" if "sorted ns" for ns :: "int list" using that by (simp add: sorted_map)
  ultimately show ?thesis using ok by (metis chain_ok_def)
qed

lemma raws_sorted:
  assumes "chain_ok X"
  shows "sorted (map (\<lambda>l. (rl_block l, rl_index l)) (raws X a b))"
proof (cases "a \<le> b")
  case True
  then show ?thesis
  proof (induction b rule: int_ge_induct)
    case base
    then show ?case using block_sorted [OF assms] by (simp add: raws_def)
  next
    case (step b)
    have split: "raws X a (b + 1) = raws X a b @ ch_logs X (b + 1)" using step(1) raws_split [of a b "b + 1" X] by (simp add: raws_def)
    have lower: "rl_block l < rl_block l'" if "l \<in> set (raws X a b)" "l' \<in> set (ch_logs X (b + 1))" for l l'
    proof -
      have "rl_block l \<le> b" using raws_block [OF assms that(1)] by simp
      moreover have "rl_block l' = b + 1" using assms that(2) by (simp add: chain_ok_def)
      ultimately show ?thesis by simp
    qed
    then show ?case using step.IH block_sorted [OF assms, of "b + 1"] unfolding split by (auto simp: sorted_append)
  qed
qed (simp add: raws_def)


section \<open>What commits and rewinds leave of the rest of the store\<close>

lemma keep_below_subset: "keep_below f g d n rows = Some rows' \<Longrightarrow> set rows' \<subseteq> set rows"
  by (auto simp: keep_below_def Let_def split: if_splits)

lemma rewind_parts:
  assumes "rewind h st c = Some st'"
  defines "k \<equiv> (cp_chainId c, cp_settlement c)"
  shows "st_state st' = (st_state st)(k \<mapsto> c)" "st_blocks st' = (st_blocks st)(k := filter (\<lambda>b. \<not> fst b > cp_lastBlock c) (st_blocks st k))"
    "readable d st \<Longrightarrow> readable d st'"
proof -
  obtain logs u bs q rem T where
    u: "keep_below (\<lambda>r. Str (u_deployment r)) (\<lambda>r. Str (u_block_number r)) (cp_settlement c) (cp_lastBlock c) (st_undecoded st) = Some u"
    and bs: "keep_below (\<lambda>r. row_get r ''deployment'') (\<lambda>r. row_get r ''block_number'') (cp_settlement c) (cp_lastBlock c) (st_tables st ''batch_solutions'') = Some bs"
    and q: "keep_below (\<lambda>r. row_get r ''deployment'') (\<lambda>r. row_get r ''block_number'') (cp_settlement c) (cp_lastBlock c) (st_tables st ''baseline_quotes'') = Some q"
    and f: "fold_option (apply_log h) (clear_domain (cp_settlement c) ((st_tables st)(''batch_solutions'' := bs, ''baseline_quotes'' := q))) rem = Some T"
    and st': "st' = \<lparr>st_logs = logs, st_undecoded = u, st_tables = T, st_state = (st_state st)(k \<mapsto> c),
                      st_blocks = (st_blocks st)(k := filter (\<lambda>b. \<not> fst b > cp_lastBlock c) (st_blocks st k))\<rparr>"
    using assms unfolding rewind_def Let_def by (auto split: option.splits)
  show "st_state st' = (st_state st)(k \<mapsto> c)" "st_blocks st' = (st_blocks st)(k := filter (\<lambda>b. \<not> fst b > cp_lastBlock c) (st_blocks st k))"
    by (simp_all add: st')
  obtain opss where o: "those (map (project h) rem) = Some opss" "T = foldl apply_op (clear_domain (cp_settlement c) ((st_tables st)(''batch_solutions'' := bs, ''baseline_quotes'' := q))) (concat opss)"
    using f by (auto simp: fold_apply_log)
  have other: "T t = ((st_tables st)(''batch_solutions'' := bs, ''baseline_quotes'' := q)) t" if "t \<notin> set DOMAIN_TABLES" for t
  proof -
    have "t \<notin> op_table ` set (concat opss)" using ops_domain [OF o(1)] that by (auto simp: op_fine_def)
    then have "T t = clear_domain (cp_settlement c) ((st_tables st)(''batch_solutions'' := bs, ''baseline_quotes'' := q)) t" unfolding o(2) by (rule foldl_other)
    then show ?thesis using that by (simp add: clear_domain_def)
  qed
  have "T ''batch_solutions'' = bs" "T ''baseline_quotes'' = q" using other by (simp_all add: domain_tables_eq)
  then show "readable d st \<Longrightarrow> readable d st'"
    using keep_below_subset [OF u] keep_below_subset [OF bs] keep_below_subset [OF q] unfolding readable_def st' by auto
qed

definition is_winning :: "decoded_log list \<Rightarrow> op \<Rightarrow> bool" where
  "is_winning logs x \<longleftrightarrow> (\<exists>l f. l \<in> set logs \<and> x = winning_row l f)"

lemma winning_rows:
  assumes "winning_solutions ix n logs = Inr ops" "x \<in> set ops"
  shows "is_winning logs x"
proof -
  obtain acc where acc: "foldE (winning_step ix n) ([], []) (filter is_closing logs) = Inr acc" "ops = snd acc"
    using assms(1) by (auto simp: winning_solutions_def)
  have step: "\<forall>x\<in>set (snd s'). is_winning logs x"
    if "\<forall>x\<in>set (snd s). is_winning logs x" "l \<in> set logs" "winning_step ix n s l = Inr s'" for s s' l
  proof -
    have "is_winning logs (winning_row l f)" for f using that(2) unfolding is_winning_def by blast
    then show ?thesis using that by (auto simp: winning_step_def split: if_splits option.splits)
  qed
  have "\<forall>x\<in>set (snd s'). is_winning logs x"
    if "foldE (winning_step ix n) s ls = Inr s'" "set ls \<subseteq> set logs" "\<forall>x\<in>set (snd s). is_winning logs x" for s s' ls
    using that
  proof (induction ls arbitrary: s)
    case (Cons l ls)
    obtain s1 where s1: "winning_step ix n s l = Inr s1" "foldE (winning_step ix n) s1 ls = Inr s'" using Cons.prems(1) by auto
    show ?case by (rule Cons.IH [OF s1(2)]) (use step [OF Cons.prems(3) _ s1(1)] Cons.prems(2) in auto)
  qed simp
  from this [OF acc(1)] show ?thesis using assms(2) acc(2) by auto
qed

lemma apply_winning:
  assumes "\<forall>x\<in>set ops. is_winning logs x" "r \<in> set (foldl apply_op T ops t)"
  shows "r \<in> set (T t) \<or> (\<exists>l f. l \<in> set logs \<and> winning_row l f = Insert ''batch_solutions'' r)"
  using assms
proof (induction ops arbitrary: T)
  case (Cons x ops)
  obtain l f where x: "l \<in> set logs" "x = winning_row l f" using Cons.prems(1) unfolding is_winning_def by auto
  obtain row where row: "x = Insert ''batch_solutions'' row" using x(2) by (cases f) (simp add: winning_row_def)
  have one: "r \<in> set (apply_op T x t) \<Longrightarrow> r \<in> set (T t) \<or> r = row"
    unfolding row by (auto simp: apply_op_def Let_def split: if_splits)
  have "r \<in> set (apply_op T x t) \<or> (\<exists>l f. l \<in> set logs \<and> winning_row l f = Insert ''batch_solutions'' r)"
    by (rule Cons.IH) (use Cons.prems in simp_all)
  then show ?case using one x row by metis
qed simp

lemma commit_parts:
  assumes "commit h st w = Some st'"
  defines "k \<equiv> (cp_chainId (w_checkpoint w), cp_settlement (w_checkpoint w))"
  shows "st_state st' = (st_state st)(k \<mapsto> w_checkpoint w)"
    "st_blocks st' = (st_blocks st)(k := foldl (\<lambda>m b. AList.update (bl_number b) (bl_hash b) m) (st_blocks st k) (w_blocks w))"
  using assms by (auto simp: commit_def Let_def)

lemma add_undecoded_rows: "r \<in> set (foldl (add_undecoded c d) rows us) \<Longrightarrow> r \<in> set rows \<or> (\<exists>u\<in>set us. u_block_number r = decimal (ud_block u))"
proof (induction us arbitrary: rows)
  case (Cons u us)
  have "r \<in> set (add_undecoded c d rows u) \<or> (\<exists>u\<in>set us. u_block_number r = decimal (ud_block u))"
    by (rule Cons.IH) (use Cons.prems in simp)
  moreover have "r \<in> set (add_undecoded c d rows u) \<Longrightarrow> r \<in> set rows \<or> u_block_number r = decimal (ud_block u)"
    by (auto simp: add_undecoded_def split: if_splits)
  ultimately show ?case by auto
qed simp

lemma commit_readable:
  assumes c: "commit h st w = Some st'" and r: "readable d st" and u: "\<forall>u\<in>set (w_undecoded w). 0 \<le> ud_block u"
    and x: "\<forall>x\<in>set (w_extra w). is_winning logs x" and l: "\<forall>l\<in>set logs. 0 \<le> lg_block l"
  shows "readable d st'"
proof -
  obtain rows T where f: "fold_option (add_log h) (st_logs st, st_tables st) (w_logs w) = Some (rows, T)"
    and st': "st_undecoded st' = foldl (add_undecoded (cp_chainId (w_checkpoint w)) (cp_settlement (w_checkpoint w))) (st_undecoded st) (w_undecoded w)"
      "st_tables st' = foldl apply_op T (w_extra w)"
    using c by (auto simp: commit_def Let_def)
  have "string_to_integer (js_string (row_get row ''block_number'')) \<noteq> None"
    if t: "t \<in> {''batch_solutions'', ''baseline_quotes''}" and row: "row \<in> set (st_tables st' t)" "row_get row ''deployment'' = Str d" for t row
  proof -
    have T: "T t = st_tables st t" using add_logs_other [OF f, of t] t by (auto simp: domain_tables_eq)
    consider "row \<in> set (T t)" | l' f' where "l' \<in> set logs" "winning_row l' f' = Insert ''batch_solutions'' row"
      using apply_winning [OF x] row(1) unfolding st'(2) by blast
    then show ?thesis
    proof cases
      case 1
      then show ?thesis using r t row(2) unfolding T readable_def by blast
    next
      case 2
      then have "row_get row ''block_number'' = Str (decimal (lg_block l'))" by (cases f') (auto simp: winning_row_def row_get_def)
      then show ?thesis using 2(1) l by simp
    qed
  qed
  moreover have "string_to_integer (u_block_number v) \<noteq> None" if "v \<in> set (st_undecoded st')" "u_deployment v = d" for v
    using add_undecoded_rows [OF that(1) [unfolded st'(1)]] r that(2) u by (auto simp: readable_def)
  ultimately show ?thesis unfolding readable_def by blast
qed


section \<open>The store and the chain\<close>

definition at_checkpoint :: "indexer \<Rightarrow> chain \<Rightarrow> checkpoint \<Rightarrow> store \<Rightarrow> bool" where
  "at_checkpoint ix X cp st \<longleftrightarrow>
     (let d = ix_deployment ix in
      readable (d_settlement d) st \<and> cp_chainId cp = d_chainId d \<and> cp_settlement cp = d_settlement d \<and> d_fromBlock d - 1 \<le> cp_lastBlock cp
      \<and> map_option bl_hash (ch_block X (cp_lastBlock cp)) = Some (cp_lastHash cp)
      \<and> indexes (ix_hexToString ix) (d_settlement d) (chain_index ix X (d_fromBlock d) (cp_lastBlock cp)) st
      \<and> (\<forall>(k, hash)\<in>set (st_blocks st (d_chainId d, d_settlement d)).
           d_fromBlock d \<le> k \<and> k \<le> cp_lastBlock cp \<and> map_option bl_hash (ch_block X k) = Some hash))"

lemma reflects_at:
  "st_state st (d_chainId (ix_deployment ix), d_settlement (ix_deployment ix)) = Some cp \<Longrightarrow> reflects ix X st \<longleftrightarrow> at_checkpoint ix X cp st"
  by (simp add: reflects_def at_checkpoint_def Let_def)

lemma chain_index_empty: "b < a \<Longrightarrow> chain_index ix X a b = []"
  by (simp add: chain_index_def raws_def sort_all_def)

text \<open>Two chains with the same block at a height have the same index up to it.\<close>

lemma same_index:
  assumes "same_history X Y" "ch_block X k = Some bx" "ch_block Y k = Some b'" "bl_hash bx = bl_hash b'" "chain_ok X"
  shows "chain_index ix X a k = chain_index ix Y a k"
proof -
  have same: "ch_logs X m = ch_logs Y m \<and> ch_block X m = ch_block Y m" if "m \<le> k" for m
    using assms(1-4) that unfolding same_history_def by blast
  have "raws X a k = raws Y a k" unfolding raws_def by (rule arg_cong [where f = concat], rule map_cong [OF refl]) (use same in simp)
  moreover have "sort_all ix (ch_block X) (raws X a k) = sort_all ix (ch_block Y) (raws X a k)"
    by (rule sort_all_cong) (use same raws_block [OF assms(5), of _ a k] in blast)
  ultimately show ?thesis by (simp add: chain_index_def)
qed

lemma at_checkpoint_other:
  assumes "at_checkpoint ix X cp st" "same_history X Y" "chain_ok X" "map_option bl_hash (ch_block Y (cp_lastBlock cp)) = Some (cp_lastHash cp)"
  shows "at_checkpoint ix Y cp st"
proof -
  obtain bx b' where b: "ch_block X (cp_lastBlock cp) = Some bx" "ch_block Y (cp_lastBlock cp) = Some b'" "bl_hash bx = bl_hash b'"
    using assms(1,4) by (auto simp: at_checkpoint_def Let_def)
  have "ch_block X k = ch_block Y k" if "k \<le> cp_lastBlock cp" for k
    using assms(2) b that unfolding same_history_def by blast
  then show ?thesis
    using assms(1,4) same_index [OF assms(2) b assms(3), of ix] unfolding at_checkpoint_def Let_def by auto
qed

lemma update_blocks_in:
  "(k, v) \<in> set (foldl (\<lambda>m b. AList.update (bl_number b) (bl_hash b) m) al bs) \<Longrightarrow> (k, v) \<in> set al \<or> (\<exists>b\<in>set bs. k = bl_number b \<and> v = bl_hash b)"
proof (induction bs arbitrary: al)
  case (Cons b bs)
  have upd: "(k, v) \<in> set (AList.update i w xs) \<Longrightarrow> (k, v) \<in> set xs \<or> (k = i \<and> v = w)" for i w and xs :: "(int \<times> string) list"
    by (induction xs) (auto split: if_splits)
  have "(k, v) \<in> set (AList.update (bl_number b) (bl_hash b) al) \<or> (\<exists>b\<in>set bs. k = bl_number b \<and> v = bl_hash b)"
    by (rule Cons.IH) (use Cons.prems in simp)
  then show ?case using upd [of "bl_number b" "bl_hash b" al] by auto
qed simp

section \<open>Reading on\<close>

definition new_write :: "indexer \<Rightarrow> checkpoint \<Rightarrow> int \<Rightarrow> (int \<times> block_row) list \<Rightarrow> raw_log list \<Rightarrow> op list \<Rightarrow> step_write" where
  "new_write ix cp to blocks raw extra =
     \<lparr>w_checkpoint = cp\<lparr>cp_lastBlock := to, cp_lastHash := (case map_of blocks to of Some b \<Rightarrow> bl_hash b | None \<Rightarrow> [])\<rparr>,
      w_blocks = map snd blocks, w_logs = sort_all ix (map_of blocks) raw,
      w_undecoded = concat (map (case_sum (\<lambda>u. [u]) (\<lambda>_. [])) (map (sort_log ix (map_of blocks)) raw)), w_extra = extra\<rparr>"

lemma read_on_cases:
  assumes "read_on ix n cp rw full s = (s', r)"
  shows "s' = s \<or> (\<exists>head to raw blocks extra st'. safe_head (ix_confirmations ix) n = Inr head
      \<and> to = (if head < cp_lastBlock cp + ix_range ix then head else cp_lastBlock cp + ix_range ix) \<and> cp_lastBlock cp < to
      \<and> read_with (\<lambda>e. range_refused (err_message e)) (nd_logs n (cp_lastBlock cp + 1) to) = Inr raw
      \<and> read_blocks n (heights_of to raw) = Inr blocks
      \<and> winning_solutions ix n (sort_all ix (map_of blocks) raw) = Inr extra
      \<and> commit (ix_hexToString ix) (in_store s) (new_write ix cp to blocks raw extra) = Some st' \<and> s' = s\<lparr>in_store := st'\<rparr>)"
proof -
  define to where "to head = (if head < cp_lastBlock cp + ix_range ix then head else cp_lastBlock cp + ix_range ix)" for head
  show ?thesis
    using assms unfolding read_on_def Let_def sort_all_def [symmetric] to_def [symmetric] new_write_def [symmetric]
    by (auto split: sum.splits if_splits option.splits simp: to_def)
qed

lemma read_on_reflects:
  assumes held: "at_checkpoint ix Y cp (in_store s)" and t: "truthful Y n" and ok: "chain_ok Y" and start: "0 \<le> d_fromBlock (ix_deployment ix)"
    and r: "read_on ix n cp rw full s = (s', r)"
  shows "s' = s \<or> reflects ix Y (in_store s')"
proof -
  let ?d = "ix_deployment ix" and ?h = "ix_hexToString ix" and ?last = "cp_lastBlock cp"
  let ?k = "(d_chainId ?d, d_settlement ?d)"
  have cp: "cp_chainId cp = d_chainId ?d" "cp_settlement cp = d_settlement ?d" "d_fromBlock ?d - 1 \<le> ?last"
    "readable (d_settlement ?d) (in_store s)" "indexes ?h (d_settlement ?d) (chain_index ix Y (d_fromBlock ?d) ?last) (in_store s)"
    "\<forall>(k, hash)\<in>set (st_blocks (in_store s) ?k). d_fromBlock ?d \<le> k \<and> k \<le> ?last \<and> map_option bl_hash (ch_block Y k) = Some hash"
    using held by (auto simp: at_checkpoint_def Let_def)
  consider "s' = s" | to raw blocks extra st' where "?last < to" "read_with (\<lambda>e. range_refused (err_message e)) (nd_logs n (?last + 1) to) = Inr raw"
      "read_blocks n (heights_of to raw) = Inr blocks" "winning_solutions ix n (sort_all ix (map_of blocks) raw) = Inr extra"
      "commit ?h (in_store s) (new_write ix cp to blocks raw extra) = Some st'" "s' = s\<lparr>in_store := st'\<rparr>"
    using read_on_cases [OF r] by blast
  then show ?thesis
  proof cases
    case 2
    obtain i where "nd_logs n (?last + 1) to i = Inr raw" using with_retry_Inr [OF 2(2) [unfolded read_with_def]] by blast
    then have raw: "raw = raws Y (?last + 1) to" using t by (simp add: truthful_def)
    have blocks: "map_of blocks k = ch_block Y k" if "k \<in> insert to (rl_block ` set raw)" for k
      by (rule read_blocks_map [OF t ok 2(3) that])
    have low: "?last + 1 \<le> rl_block l \<and> rl_block l \<le> to" if "l \<in> set raw" for l using raws_block [OF ok] that raw by blast
    let ?logs = "sort_all ix (map_of blocks) raw"
    have fresh: "?logs = chain_index ix Y (?last + 1) to"
      unfolding chain_index_def raw [symmetric] by (rule sort_all_cong) (use blocks in blast)
    have logs: "lg_deployment x = d_settlement ?d \<and> 0 \<le> lg_block x \<and> 0 \<le> lg_blockTimestamp x" if x: "x \<in> set ?logs" for x
    proof -
      obtain l where l: "l \<in> set raw" "sort_log ix (map_of blocks) l = Inr x" using sort_all_in [OF x] by blast
      have ts: "0 \<le> bl_timestamp b" if "ch_block Y m = Some b" for m b using ok that by (simp add: chain_ok_def)
      show ?thesis using sort_log_parts [OF l(2)] low [OF l(1)] blocks [of "rl_block l"] l(1) ts cp(3) start by (auto split: option.split)
    qed
    have whole: "chain_index ix Y (d_fromBlock ?d) to = chain_index ix Y (d_fromBlock ?d) ?last @ chain_index ix Y (?last + 1) to"
      by (rule chain_index_split) (use cp(3) 2(1) in simp_all)
    have "distinct (map log_key (chain_index ix Y (d_fromBlock ?d) to))"
      unfolding chain_index_def by (rule sort_all_keys) (use ok in \<open>simp add: chain_ok_def\<close>)
    then have merged: "new_logs (chain_index ix Y (d_fromBlock ?d) ?last) ?logs = chain_index ix Y (d_fromBlock ?d) to"
      using new_logs_distinct [of "chain_index ix Y (d_fromBlock ?d) ?last" ?logs] whole fresh by simp
    have w: "w_logs (new_write ix cp to blocks raw extra) = ?logs" "w_extra (new_write ix cp to blocks raw extra) = extra"
      "w_blocks (new_write ix cp to blocks raw extra) = map snd blocks" by (simp_all add: new_write_def)
    have won: "\<forall>x\<in>set extra. is_winning ?logs x" using winning_rows [OF 2(4)] by blast
    then have "op_table x = ''batch_solutions''" if "x \<in> set extra" for x
      using that by (auto simp: is_winning_def winning_row_def split: prod.splits)
    then have "indexes ?h (d_settlement ?d) (chain_index ix Y (d_fromBlock ?d) to) st'"
      using commit_indexes [OF cp(5) 2(5)] logs merged by (simp add: w domain_tables_eq)
    moreover have "readable (d_settlement ?d) st'"
    proof (rule commit_readable [OF 2(5) cp(4) _ _ , where logs = ?logs])
      show "\<forall>u\<in>set (w_undecoded (new_write ix cp to blocks raw extra)). 0 \<le> ud_block u"
      proof
        fix u assume "u \<in> set (w_undecoded (new_write ix cp to blocks raw extra))"
        then obtain l where l: "l \<in> set raw" "u \<in> set (case_sum (\<lambda>u. [u]) (\<lambda>_. []) (sort_log ix (map_of blocks) l))" by (auto simp: new_write_def)
        then have "ud_block u = rl_block l" by (auto simp: sort_log_def undecoded_of_def split: sum.splits)
        then show "0 \<le> ud_block u" using low [OF l(1)] cp(3) start by simp
      qed
    qed (use won logs in \<open>simp_all add: w\<close>)
    moreover have "map_option bl_hash (ch_block Y to) = Some (case map_of blocks to of Some b \<Rightarrow> bl_hash b | None \<Rightarrow> [])"
    proof -
      have "to \<in> fst ` set blocks" using read_blocks_truth [OF t ok 2(3)] heights(1) [of to raw] by (metis insertI1 list.set_map)
      then obtain b where "map_of blocks to = Some b" by (metis map_of_eq_None_iff not_None_eq)
      then show ?thesis using blocks [of to] by simp
    qed
    moreover have "d_fromBlock ?d \<le> k \<and> k \<le> to \<and> map_option bl_hash (ch_block Y k) = Some hash"
      if "(k, hash) \<in> set (st_blocks st' ?k)" for k hash
    proof -
      have "(k, hash) \<in> set (foldl (\<lambda>m b. AList.update (bl_number b) (bl_hash b) m) (st_blocks (in_store s) ?k) (map snd blocks))"
        using that commit_parts(2) [OF 2(5)] by (simp add: new_write_def cp(1,2))
      then consider "(k, hash) \<in> set (st_blocks (in_store s) ?k)" | b where "b \<in> snd ` set blocks" "k = bl_number b" "hash = bl_hash b"
        using update_blocks_in by fastforce
      then show ?thesis
      proof cases
        case 1
        then show ?thesis using cp(6) 2(1) by auto
      next
        case 2
        then obtain m where m: "(m, b) \<in> set blocks" by auto
        note rb = read_blocks_truth [OF t ok \<open>read_blocks n (heights_of to raw) = Inr blocks\<close>]
        have b: "ch_block Y m = Some b" using rb m by blast
        have "m \<in> set (map fst blocks)" using m by force
        then have "m \<in> insert to (rl_block ` set raw)" using rb heights(1) [of to raw] by simp
        moreover have "bl_number b = m" using ok b by (simp add: chain_ok_def)
        moreover note b
        moreover have "?last + 1 \<le> m \<and> m \<le> to" using \<open>m \<in> insert to (rl_block ` set raw)\<close> low \<open>?last < to\<close> by auto
        ultimately show ?thesis using 2(2,3) cp(3) by simp
      qed
    qed
    moreover have "st_state st' ?k = Some (cp\<lparr>cp_lastBlock := to, cp_lastHash := (case map_of blocks to of Some b \<Rightarrow> bl_hash b | None \<Rightarrow> [])\<rparr>)"
      using commit_parts(1) [OF 2(5)] by (simp add: new_write_def cp(1,2))
    ultimately have "reflects ix Y st'"
      using cp(1,2,3) 2(1) unfolding reflects_def Let_def by auto
    then show ?thesis using 2(6) by simp
  qed simp
qed


section \<open>Rewinding\<close>

lemma stored_blocks_in: "(k, hash) \<in> set (stored_blocks st c d n lim) \<Longrightarrow> (k, hash) \<in> set (st_blocks st (c, d)) \<and> k \<le> n"
  unfolding stored_blocks_def by (auto dest!: in_set_takeD)

lemma filter_index:
  assumes "chain_ok X" "a - 1 \<le> k" "k \<le> b"
  shows "filter (\<lambda>l. lg_block l \<le> k) (chain_index ix X a b) = chain_index ix X a k"
proof -
  have split: "chain_index ix X a b = chain_index ix X a k @ chain_index ix X (k + 1) b" by (rule chain_index_split) (use assms in simp_all)
  have block: "u \<le> lg_block x \<and> lg_block x \<le> v" if x: "x \<in> set (chain_index ix X u v)" for x u v
  proof -
    obtain l where "l \<in> set (raws X u v)" "sort_log ix (ch_block X) l = Inr x" using sort_all_in x unfolding chain_index_def by blast
    then show ?thesis using raws_block [OF assms(1), of l u v] sort_log_parts(1) by fastforce
  qed
  have "filter (\<lambda>l. lg_block l \<le> k) (chain_index ix X a k) = chain_index ix X a k" by (rule filter_True) (use block in blast)
  moreover have "filter (\<lambda>l. lg_block l \<le> k) (chain_index ix X (k + 1) b) = []" by (rule filter_False) (use block in fastforce)
  ultimately show ?thesis by (simp add: split)
qed

lemma rewind_to:
  assumes held: "at_checkpoint ix X cp st" and ok: "chain_ok X" and c: "cp_chainId c = d_chainId (ix_deployment ix)"
      "cp_settlement c = d_settlement (ix_deployment ix)" "d_fromBlock (ix_deployment ix) - 1 \<le> cp_lastBlock c" "cp_lastBlock c \<le> cp_lastBlock cp"
    and r: "rewind (ix_hexToString ix) st c = Some st'" and same: "\<And>m. m \<le> cp_lastBlock c \<Longrightarrow> d_fromBlock (ix_deployment ix) \<le> m \<Longrightarrow> ch_block X m = ch_block Y m"
    and ind: "chain_index ix X (d_fromBlock (ix_deployment ix)) (cp_lastBlock c) = chain_index ix Y (d_fromBlock (ix_deployment ix)) (cp_lastBlock c)"
    and hash: "map_option bl_hash (ch_block Y (cp_lastBlock c)) = Some (cp_lastHash c)"
  shows "st_state st' (d_chainId (ix_deployment ix), d_settlement (ix_deployment ix)) = Some c \<and> at_checkpoint ix Y c st'"
proof -
  let ?d = "ix_deployment ix"
  have cp: "readable (d_settlement ?d) st" "indexes (ix_hexToString ix) (d_settlement ?d) (chain_index ix X (d_fromBlock ?d) (cp_lastBlock cp)) st"
    "\<forall>(k, hash)\<in>set (st_blocks st (d_chainId ?d, d_settlement ?d)). d_fromBlock ?d \<le> k \<and> k \<le> cp_lastBlock cp \<and> map_option bl_hash (ch_block X k) = Some hash"
    using held by (auto simp: at_checkpoint_def Let_def)
  have sorted: "sorted (map chain_order (chain_index ix X (d_fromBlock ?d) (cp_lastBlock cp)))"
    unfolding chain_index_def by (rule sort_all_sorted [OF raws_sorted [OF ok]])
  obtain st2 where "rewind (ix_hexToString ix) st c = Some st2"
    "indexes (ix_hexToString ix) (d_settlement ?d) (filter (\<lambda>l. lg_block l \<le> cp_lastBlock c) (chain_index ix X (d_fromBlock ?d) (cp_lastBlock cp))) st2"
    using rewind_indexes [OF cp(2) sorted c(2) cp(1)] by blast
  then have "indexes (ix_hexToString ix) (d_settlement ?d) (chain_index ix Y (d_fromBlock ?d) (cp_lastBlock c)) st'"
    using r filter_index [OF ok c(3,4), of ix] ind by simp
  moreover have "st_state st' (d_chainId ?d, d_settlement ?d) = Some c" using rewind_parts(1) [OF r] c by simp
  moreover have "\<forall>(k, hash)\<in>set (st_blocks st' (d_chainId ?d, d_settlement ?d)). d_fromBlock ?d \<le> k \<and> k \<le> cp_lastBlock c \<and> map_option bl_hash (ch_block Y k) = Some hash"
  proof -
    have eq: "st_blocks st' (d_chainId ?d, d_settlement ?d) = filter (\<lambda>b. \<not> fst b > cp_lastBlock c) (st_blocks st (d_chainId ?d, d_settlement ?d))"
      using rewind_parts(2) [OF r] c by simp
    have "d_fromBlock ?d \<le> k \<and> k \<le> cp_lastBlock c \<and> map_option bl_hash (ch_block Y k) = Some hash"
      if "(k, hash) \<in> set (st_blocks st (d_chainId ?d, d_settlement ?d))" "k \<le> cp_lastBlock c" for k hash
      using bspec [OF cp(3) that(1)] same [of k] that(2) by simp
    then show ?thesis unfolding eq by auto
  qed
  moreover have "readable (d_settlement ?d) st'" by (rule rewind_parts(3) [OF r cp(1)])
  ultimately show ?thesis using c hash unfolding at_checkpoint_def Let_def by blast
qed

lemma ingest_rewind_cases:
  assumes "ingest_rewind ix n now cp s = (s', res)"
  shows "(in_store s' = in_store s \<and> (\<exists>e. res = Inl e))
    \<or> (\<exists>k hash. common_block n (stored_blocks (in_store s) (d_chainId (ix_deployment ix)) (d_settlement (ix_deployment ix)) (cp_lastBlock cp) MAX_REWIND)
          = Inr (Some (k, hash)) \<and> rewind (ix_hexToString ix) (in_store s) (cp\<lparr>cp_lastBlock := k, cp_lastHash := hash\<rparr>) = Some (in_store s'))
    \<or> (\<exists>c. initial (ix_deployment ix) n = Inr c \<and> rewind (ix_hexToString ix) (in_store s) c = Some (in_store s'))"
  using assms unfolding ingest_rewind_def Let_def
  by (auto split: sum.splits option.splits if_splits)

lemma ingest_rewind_reflects:
  assumes held: "at_checkpoint ix X cp (in_store s)" and ok: "chain_ok X" "chain_ok Y" and t: "truthful Y n" and hist: "same_history X Y"
    and r: "ingest_rewind ix n now cp s = (s', res)"
  shows "(in_store s' = in_store s \<and> (\<exists>e. res = Inl e))
    \<or> (\<exists>c. st_state (in_store s') (d_chainId (ix_deployment ix), d_settlement (ix_deployment ix)) = Some c \<and> at_checkpoint ix Y c (in_store s'))"
proof -
  let ?d = "ix_deployment ix" and ?st = "in_store s"
  have cp: "cp_chainId cp = d_chainId ?d" "cp_settlement cp = d_settlement ?d" "d_fromBlock ?d - 1 \<le> cp_lastBlock cp"
    "\<forall>(k, hash)\<in>set (st_blocks ?st (d_chainId ?d, d_settlement ?d)). d_fromBlock ?d \<le> k \<and> k \<le> cp_lastBlock cp \<and> map_option bl_hash (ch_block X k) = Some hash"
    using held by (auto simp: at_checkpoint_def Let_def)
  consider "in_store s' = ?st \<and> (\<exists>e. res = Inl e)"
    | k hash where "common_block n (stored_blocks ?st (d_chainId ?d) (d_settlement ?d) (cp_lastBlock cp) MAX_REWIND) = Inr (Some (k, hash))"
        "rewind (ix_hexToString ix) ?st (cp\<lparr>cp_lastBlock := k, cp_lastHash := hash\<rparr>) = Some (in_store s')"
    | c where "initial ?d n = Inr c" "rewind (ix_hexToString ix) ?st c = Some (in_store s')"
    using ingest_rewind_cases [OF r] by blast
  then show ?thesis
  proof cases
    case 2
    let ?c = "cp\<lparr>cp_lastBlock := k, cp_lastHash := hash\<rparr>"
    note com = common_block_truth [OF t 2(1)]
    have "(k, hash) \<in> set (st_blocks ?st (d_chainId ?d, d_settlement ?d))" using com stored_blocks_in by blast
    then have k: "d_fromBlock ?d \<le> k" "k \<le> cp_lastBlock cp" "map_option bl_hash (ch_block X k) = Some hash" using cp(4) by auto
    obtain bx b' where b: "ch_block X k = Some bx" "ch_block Y k = Some b'" "bl_hash bx = bl_hash b'" using k(3) com by auto
    have same: "ch_block X m = ch_block Y m" if "m \<le> k" for m using hist b that unfolding same_history_def by blast
    have "st_state (in_store s') (d_chainId ?d, d_settlement ?d) = Some ?c \<and> at_checkpoint ix Y ?c (in_store s')"
      by (rule rewind_to [OF held ok(1) _ _ _ _ 2(2)]) (use cp k com same same_index [OF hist b ok(1)] in simp_all)
    then show ?thesis by blast
  next
    case 3
    obtain b where b: "read_node (nd_block n (d_fromBlock ?d - 1)) = Inr b"
      and c: "c = \<lparr>cp_chainId = d_chainId ?d, cp_settlement = d_settlement ?d, cp_fromBlock = d_fromBlock ?d, cp_lastBlock = d_fromBlock ?d - 1, cp_lastHash = bl_hash b\<rparr>"
      using 3(1) by (auto simp: initial_def Let_def)
    have "st_state (in_store s') (d_chainId ?d, d_settlement ?d) = Some c \<and> at_checkpoint ix Y c (in_store s')"
      by (rule rewind_to [OF held ok(1) _ _ _ _ 3(2)]) (use cp c read_block [OF t b] chain_index_empty in simp_all)
    then show ?thesis by blast
  qed simp
qed

section \<open>Steps\<close>

lemma ingest_step_reflects:
  assumes X: "reflects ix X (in_store s)" and ok: "chain_ok X" "chain_ok Y" and t: "truthful Y n1" "truthful Y n2" "truthful Y n3"
    and hist: "same_history X Y" and start: "0 \<le> d_fromBlock (ix_deployment ix)"
    and r: "ingest_step ix n1 n2 n3 now s = (s', res)"
  shows "reflects ix Y (in_store s') \<or> (in_store s' = in_store s \<and> (\<exists>e. res = Inl e))"
proof -
  let ?d = "ix_deployment ix" and ?st = "in_store s"
  let ?k = "(d_chainId ?d, d_settlement ?d)"
  define first where "first = bindE (checkpoint_of ?d n1 ?st) (\<lambda>cp. bindE (block_or_null (nd_block n1 (cp_lastBlock cp))) (\<lambda>b. Inr (cp, b)))"
  show ?thesis
  proof (cases first)
    case (Inl e)
    then show ?thesis using r by (auto simp: ingest_step_def Let_def first_def)
  next
    case (Inr cb)
    obtain cp b where cb: "cb = (cp, b)" by fastforce
    have cp: "checkpoint_of ?d n1 ?st = Inr cp" "block_or_null (nd_block n1 (cp_lastBlock cp)) = Inr b" using Inr cb by (auto simp: first_def)
    have b: "ch_block Y (cp_lastBlock cp) = b" by (rule block_or_null_truth [OF t(1) cp(2)])
    show ?thesis
    proof (cases "st_state ?st ?k")
      case None
      have empty: "indexes (ix_hexToString ix) (d_settlement ?d) [] ?st" "st_blocks ?st ?k = []" "readable (d_settlement ?d) ?st"
        using X None by (simp_all add: reflects_def Let_def)
      obtain b0 where b0: "read_node (nd_block n1 (d_fromBlock ?d - 1)) = Inr b0"
        and c: "cp = \<lparr>cp_chainId = d_chainId ?d, cp_settlement = d_settlement ?d, cp_fromBlock = d_fromBlock ?d, cp_lastBlock = d_fromBlock ?d - 1, cp_lastHash = bl_hash b0\<rparr>"
        using cp(1) None by (auto simp: checkpoint_of_def initial_def Let_def)
      have hash: "b = Some b0" using read_block [OF t(1) b0] b c by simp
      have "read_on ix n3 cp None False s = (s', res)" using r Inr cb hash c by (simp add: ingest_step_def Let_def first_def)
      moreover have "at_checkpoint ix Y cp ?st"
        using empty hash b c chain_index_empty [of "d_fromBlock ?d - 1" "d_fromBlock ?d" ix Y] by (simp add: at_checkpoint_def Let_def)
      ultimately have "s' = s \<or> reflects ix Y (in_store s')" using read_on_reflects [OF _ t(3) ok(2) start] by blast
      moreover have "reflects ix Y ?st" using None empty by (simp add: reflects_def Let_def)
      ultimately show ?thesis by auto
    next
      case (Some c)
      then have c: "cp = c" using cp(1) by (simp add: checkpoint_of_def)
      have held: "at_checkpoint ix X cp ?st" using X Some c reflects_at by blast
      show ?thesis
      proof (cases "map_option bl_hash b = Some (cp_lastHash cp)")
        case True
        then have "read_on ix n3 cp None False s = (s', res)" using r Inr cb by (simp add: ingest_step_def Let_def first_def)
        moreover have at_Y: "at_checkpoint ix Y cp ?st" by (rule at_checkpoint_other [OF held hist ok(1)]) (use True b in simp)
        ultimately have "s' = s \<or> reflects ix Y (in_store s')" using read_on_reflects [OF _ t(3) ok(2) start] by blast
        moreover have "reflects ix Y ?st" using at_Y Some c reflects_at by blast
        ultimately show ?thesis by auto
      next
        case False
        obtain s1 res1 where r1: "ingest_rewind ix n2 now cp s = (s1, res1)" by fastforce
        have rest: "(s', res) = (case res1 of Inl e \<Rightarrow> (s1, Inl e) | Inr (to, full) \<Rightarrow>
            (case checkpoint_of ?d n3 (in_store s1) of Inl e \<Rightarrow> (s1, Inl (Rpc_failed e)) | Inr cp' \<Rightarrow> read_on ix n3 cp' (Some to) full s1))"
          using r Inr cb False r1 by (cases b) (auto simp: ingest_step_def Let_def first_def split: sum.splits prod.splits)
        consider "in_store s1 = ?st \<and> (\<exists>e. res1 = Inl e)"
          | c1 where "st_state (in_store s1) ?k = Some c1" "at_checkpoint ix Y c1 (in_store s1)"
          using ingest_rewind_reflects [OF held ok t(2) hist r1] by blast
        then show ?thesis
        proof cases
          case 1
          then show ?thesis using rest by auto
        next
          case 2
          then have Y1: "reflects ix Y (in_store s1)" using reflects_at by blast
          have "s' = s1 \<or> reflects ix Y (in_store s')"
          proof (cases res1)
            case (Inl e)
            then show ?thesis using rest by simp
          next
            case (Inr tf)
            obtain to full where tf: "tf = (to, full)" by fastforce
            have "read_on ix n3 c1 (Some to) full s1 = (s', res)" using rest Inr tf 2(1) by (simp add: checkpoint_of_def)
            then show ?thesis using read_on_reflects [OF 2(2) t(3) ok(2) start] by blast
          qed
          then show ?thesis using Y1 by auto
        qed
      qed
    qed
  qed
qed


text \<open>
  A run over whatever chains the node showed: every pair of them agrees below a common block, and
  each step reads one of them. Steps may fail.
\<close>

definition forks :: "chain set \<Rightarrow> bool" where
  "forks C \<longleftrightarrow> (\<forall>X\<in>C. chain_ok X) \<and> (\<forall>X\<in>C. \<forall>Y\<in>C. same_history X Y)"

inductive ingest_run :: "indexer \<Rightarrow> chain set \<Rightarrow> ingest \<Rightarrow> bool" for ix C where
  Boot: "in_store s = empty_store \<Longrightarrow> ingest_run ix C s"
| Step: "ingest_run ix C s \<Longrightarrow> Y \<in> C \<Longrightarrow> truthful Y n1 \<Longrightarrow> truthful Y n2 \<Longrightarrow> truthful Y n3
    \<Longrightarrow> ingest_step ix n1 n2 n3 now s = (s', res) \<Longrightarrow> ingest_run ix C s'"

lemma empty_reflects: "in_store s = empty_store \<Longrightarrow> reflects ix X (in_store s)"
  using indexes_empty by (simp add: reflects_def Let_def readable_def) (simp add: empty_store_def)

lemma run_reflects:
  assumes "ingest_run ix C s" "forks C" "0 \<le> d_fromBlock (ix_deployment ix)" "C \<noteq> {}"
  shows "\<exists>X\<in>C. reflects ix X (in_store s)"
  using assms
proof (induction rule: ingest_run.induct)
  case (Boot s)
  then show ?case using empty_reflects by blast
next
  case (Step s Y n1 n2 n3 now s' res)
  then obtain X where X: "X \<in> C" "reflects ix X (in_store s)" by blast
  have "chain_ok X" "chain_ok Y" "same_history X Y" using X(1) Step.hyps(2) \<open>forks C\<close> by (auto simp: forks_def)
  then have "reflects ix Y (in_store s') \<or> in_store s' = in_store s"
    using ingest_step_reflects [OF X(2) _ _ Step.hyps(3-5) _ Step.prems(2) Step.hyps(6)] by blast
  then show ?case using X Step.hyps(2) by auto
qed

section \<open>What the indexer promises\<close>

text \<open>
  C3. Whatever reverts came before, a step that returns leaves the index at the chain it read: with a
  checkpoint, the log table is exactly that chain's decoded logs from the first block to the
  checkpoint, none missing and none from an abandoned fork, the checkpoint's hash is the chain's, and
  the domain tables are what those logs project to.
\<close>

theorem index_reflects_chain:
  assumes "ingest_run ix C s" "forks C" "0 \<le> d_fromBlock (ix_deployment ix)" "Y \<in> C" "truthful Y n1" "truthful Y n2" "truthful Y n3"
    and "ingest_step ix n1 n2 n3 now s = (s', Inr r)"
    and "st_state (in_store s') (d_chainId (ix_deployment ix), d_settlement (ix_deployment ix)) = Some cp"
  shows "map_option bl_hash (ch_block Y (cp_lastBlock cp)) = Some (cp_lastHash cp)
    \<and> st_logs (in_store s') = map log_row_of (chain_index ix Y (d_fromBlock (ix_deployment ix)) (cp_lastBlock cp))
    \<and> (\<exists>T. replay (ix_hexToString ix) (chain_index ix Y (d_fromBlock (ix_deployment ix)) (cp_lastBlock cp)) = Some T
         \<and> (\<forall>t\<in>set DOMAIN_TABLES. st_tables (in_store s') t = T t))"
proof -
  obtain X where X: "X \<in> C" "reflects ix X (in_store s)" using run_reflects [OF assms(1-3)] assms(4) by blast
  have "chain_ok X" "chain_ok Y" "same_history X Y" using X(1) assms(2,4) by (auto simp: forks_def)
  then have "reflects ix Y (in_store s')"
    using ingest_step_reflects [OF X(2) _ _ assms(5-7) _ assms(3,8)] by blast
  then show ?thesis using assms(9) by (auto simp: reflects_def indexes_def Let_def)
qed

text \<open>
  A step that fails harms nothing: the store is as it was, or it has been rolled back to the chain
  the step read and still mirrors that chain up to an earlier checkpoint.
\<close>

theorem failed_step_harmless:
  assumes "ingest_run ix C s" "forks C" "0 \<le> d_fromBlock (ix_deployment ix)" "Y \<in> C" "truthful Y n1" "truthful Y n2" "truthful Y n3"
    and "ingest_step ix n1 n2 n3 now s = (s', Inl e)"
  shows "in_store s' = in_store s \<or> reflects ix Y (in_store s')"
proof -
  obtain X where X: "X \<in> C" "reflects ix X (in_store s)" using run_reflects [OF assms(1-3)] assms(4) by blast
  have "chain_ok X" "chain_ok Y" "same_history X Y" using X(1) assms(2,4) by (auto simp: forks_def)
  then show ?thesis using ingest_step_reflects [OF X(2) _ _ assms(5-7) _ assms(3,8)] by blast
qed

text \<open>
  A full reset that fails before it does anything still counts: the second attempt, within ten
  minutes, stops the process as a second full reset though the first never happened.
\<close>

theorem failed_reset_counts:
  assumes "\<And>b. b \<in> set (stored_blocks (in_store s) (d_chainId (ix_deployment ix)) (d_settlement (ix_deployment ix)) (cp_lastBlock cp) MAX_REWIND)
        \<Longrightarrow> nd_block n (fst b) 1 = Inl \<lparr>err_name = ''BlockNotFoundError'', err_message = []\<rparr>"
    and "\<And>i. nd_block n (d_fromBlock (ix_deployment ix) - 1) i = Inl e"
    and "FULL_RESET_WINDOW_MS \<le> now - in_lastFullReset s" "now \<le> now'" "now' < now + FULL_RESET_WINDOW_MS"
  shows "ingest_rewind ix n now cp s = (s\<lparr>in_lastFullReset := now\<rparr>, Inl (Rpc_failed e))
    \<and> snd (ingest_rewind ix n now' cp (fst (ingest_rewind ix n now cp s))) = Inl Second_reset"
proof -
  have "common_block n bs = Inr None"
    if "\<And>b. b \<in> set bs \<Longrightarrow> nd_block n (fst b) 1 = Inl \<lparr>err_name = ''BlockNotFoundError'', err_message = []\<rparr>" for bs
    using that
  proof (induction bs)
    case (Cons b bs)
    obtain k hash where b: "b = (k, hash)" by fastforce
    have "with_retry 2 missing 1 (nd_block n k) = Inl \<lparr>err_name = ''BlockNotFoundError'', err_message = []\<rparr>"
      using Cons.prems [of b] b by (subst with_retry.simps) (simp add: missing_def)
    then have "block_or_null (nd_block n k) = Inr None" by (simp add: block_or_null_def missing_def)
    then show ?case using Cons b by simp
  qed simp
  then have none: "common_block n (stored_blocks (in_store s) (d_chainId (ix_deployment ix)) (d_settlement (ix_deployment ix)) (cp_lastBlock cp) MAX_REWIND) = Inr None"
    using assms(1) by blast
  obtain i e' where "read_node (nd_block n (d_fromBlock (ix_deployment ix) - 1)) = Inl e'" "nd_block n (d_fromBlock (ix_deployment ix) - 1) i = Inl e'"
    using with_retry_cases [of READ_ATTEMPTS "\<lambda>_. False" 1 "nd_block n (d_fromBlock (ix_deployment ix) - 1)"] assms(2)
    by (auto simp: read_node_def read_with_def)
  then have "initial (ix_deployment ix) n = Inl e" using assms(2) by (simp add: initial_def Let_def)
  then show ?thesis using none assms(3-5) by (simp add: ingest_rewind_def Let_def)
qed

text \<open>
  A step reads at most one range, starts right after the checkpoint, skips no block, and never
  goes past the confirmed head.
\<close>

theorem step_within_range:
  assumes "read_on ix n cp rewound full s = (s', Inr r)" "0 < ix_range ix" "safe_head (ix_confirmations ix) n = Inr head"
  shows "sr_from r = cp_lastBlock cp + 1 \<and> sr_to r < sr_from r + ix_range ix \<and> cp_lastBlock cp \<le> sr_to r
    \<and> (sr_to r \<le> head \<or> in_store s' = in_store s)
    \<and> (sr_to r = cp_lastBlock cp \<or> st_state (in_store s') (cp_chainId cp, cp_settlement cp) \<noteq> None
        \<and> map_option cp_lastBlock (st_state (in_store s') (cp_chainId cp, cp_settlement cp)) = Some (sr_to r))"
proof -
  define to where "to = (if head < cp_lastBlock cp + ix_range ix then head else cp_lastBlock cp + ix_range ix)"
  have bound: "to \<le> cp_lastBlock cp + ix_range ix" "to \<le> head" by (auto simp: to_def)
  show ?thesis
  proof (cases "to < cp_lastBlock cp + 1")
    case True
    then have "s' = s" "r = \<lparr>sr_from = cp_lastBlock cp + 1, sr_to = cp_lastBlock cp, sr_logs = 0, sr_undecoded = 0, sr_rewoundTo = rewound, sr_fullReset = full\<rparr>"
      using assms(1,3) by (auto simp: read_on_def Let_def to_def)
    then show ?thesis using assms(2) by simp
  next
    case False
    obtain blocks raw extra where c: "commit (ix_hexToString ix) (in_store s) (new_write ix cp to blocks raw extra) = Some (in_store s')"
      and r: "sr_from r = cp_lastBlock cp + 1" "sr_to r = to"
      using assms(1) False unfolding read_on_def assms(3) Let_def sort_all_def [symmetric] to_def [symmetric] new_write_def [symmetric]
      by (auto split: sum.splits if_splits option.splits simp: to_def)
    have "st_state (in_store s') (cp_chainId cp, cp_settlement cp) = Some (w_checkpoint (new_write ix cp to blocks raw extra))"
      using commit_parts(1) [OF c] by (simp add: new_write_def)
    then show ?thesis using False r bound by (simp add: new_write_def)
  qed
qed


section \<open>A first step\<close>

definition sample_raw :: raw_log where
  "sample_raw = \<lparr>rl_address = ''s'', rl_topics = [], rl_data = [], rl_block = 1, rl_blockHash = ''h1'', rl_txHash = ''t'', rl_index = 0\<rparr>"

definition sample_chain :: chain where
  "sample_chain = \<lparr>ch_block = (\<lambda>k. if k = 0 then Some \<lparr>bl_number = 0, bl_hash = ''h0'', bl_parentHash = [], bl_timestamp = 10\<rparr>
       else if k = 1 then Some \<lparr>bl_number = 1, bl_hash = ''h1'', bl_parentHash = ''h0'', bl_timestamp = 11\<rparr> else None),
     ch_logs = (\<lambda>k. if k = 1 then [sample_raw] else [])\<rparr>"

definition sample_node :: node where
  "sample_node = \<lparr>nd_block = (\<lambda>k i. case ch_block sample_chain k of Some b \<Rightarrow> Inr b | None \<Rightarrow> Inl \<lparr>err_name = ''BlockNotFoundError'', err_message = []\<rparr>),
     nd_head = (\<lambda>i. Inr 1), nd_logs = (\<lambda>a b i. Inr (raws sample_chain a b)), nd_tx = (\<lambda>h i. Inr [])\<rparr>"

definition sample_indexer :: indexer where
  "sample_indexer = \<lparr>ix_deployment = \<lparr>d_chainId = 1, d_settlement = ''s'', d_contracts = [(''s'', ''Settlement'')], d_fromBlock = 1\<rparr>,
     ix_confirmations = 0, ix_range = 500, ix_decode = (\<lambda>c ts d. Inr (''BatchSettled'', [(''batchId'', V_big 5)])),
     ix_hexToString = (\<lambda>_. None), ix_finalize = (\<lambda>_. None)\<rparr>"

definition sample_ingest :: ingest where
  "sample_ingest = \<lparr>in_store = empty_store, in_lastFullReset = 0\<rparr>"

lemma sample_truthful: "truthful sample_chain sample_node"
  by (auto simp: truthful_def sample_node_def missing_def split: option.splits)

lemma sample_raws: "raws sample_chain a b = (if a \<le> 1 \<and> 1 \<le> b then [sample_raw] else [])"
proof -
  have none: "concat (map (ch_logs sample_chain) [u..v]) = []" if "v < 1 \<or> 1 < u" for u v
    using that by (auto simp: sample_chain_def)
  show ?thesis
  proof (cases "a \<le> 1 \<and> 1 \<le> b")
    case True
    then have "[a..b] = [a..0] @ [1] @ [2..b]" using upto_split2 [of a 0 b] upto_rec1 [of 1 b] by (cases "a = 1") auto
    then have "raws sample_chain a b = concat (map (ch_logs sample_chain) [a..0]) @ ch_logs sample_chain 1 @ concat (map (ch_logs sample_chain) [2..b])"
      by (simp add: raws_def)
    moreover have "ch_logs sample_chain 1 = [sample_raw]" by (simp add: sample_chain_def)
    ultimately show ?thesis using True none [of 0 a] none [of b 2] by simp
  next
    case False
    then have "raws sample_chain a b = []" unfolding raws_def by (intro none) auto
    then show ?thesis using False by simp
  qed
qed

lemma sample_forks: "forks {sample_chain}"
  unfolding forks_def chain_ok_def same_history_def
  by (auto simp: sample_raws) (auto simp: sample_chain_def sample_raw_def split: if_splits)

lemma sample_lower: "lower ''s'' = ''s''" "lower ''t'' = ''t''" "lower ''h1'' = ''h1''"
  by (code_simp)+

lemma first_answer: "ans (Suc 0) = Inr v \<Longrightarrow> read_with f ans = Inr v"
  unfolding read_with_def by (subst with_retry.simps) simp

lemma first_block: "ans (Suc 0) = Inr b \<Longrightarrow> block_or_null ans = Inr (Some b)"
  unfolding block_or_null_def by (subst with_retry.simps) simp

lemma sample_read:
  "read_node (nd_block sample_node 0) = Inr \<lparr>bl_number = 0, bl_hash = ''h0'', bl_parentHash = [], bl_timestamp = 10\<rparr>"
  "block_or_null (nd_block sample_node 0) = Inr (Some \<lparr>bl_number = 0, bl_hash = ''h0'', bl_parentHash = [], bl_timestamp = 10\<rparr>)"
  "read_node (nd_block sample_node 1) = Inr \<lparr>bl_number = 1, bl_hash = ''h1'', bl_parentHash = ''h0'', bl_timestamp = 11\<rparr>"
  "read_node (nd_head sample_node) = Inr 1" "read_node (nd_tx sample_node x) = Inr []"
  unfolding read_node_def by (rule first_answer first_block, simp add: sample_node_def sample_chain_def)+

lemma sample_read_logs: "read_with f (nd_logs sample_node 1 1) = Inr [sample_raw]"
  by (rule first_answer) (simp add: sample_node_def sample_raws)

lemma sample_step:
  "\<exists>s' r. ingest_step sample_indexer sample_node sample_node sample_node 0 sample_ingest = (s', Inr r) \<and> sr_to r = 1
     \<and> map_option cp_lastBlock (st_state (in_store s') (1, ''s'')) = Some 1"
proof -
  let ?cp = "\<lparr>cp_chainId = 1, cp_settlement = ''s'', cp_fromBlock = 1, cp_lastBlock = 0, cp_lastHash = ''h0''\<rparr>"
  have cp: "checkpoint_of (ix_deployment sample_indexer) sample_node empty_store = Inr ?cp"
    by (simp add: checkpoint_of_def initial_def sample_indexer_def empty_store_def sample_read)
  have heights: "heights_of 1 [sample_raw] = [1]" by (simp add: heights_of_def sample_raw_def)
  have blocks: "read_blocks sample_node [1] = Inr [(1, \<lparr>bl_number = 1, bl_hash = ''h1'', bl_parentHash = ''h0'', bl_timestamp = 11\<rparr>)]"
    by (simp add: read_blocks_def sample_read)
  show ?thesis
    by (simp add: ingest_step_def cp sample_ingest_def sample_read, simp add: read_on_def safe_head_def sample_read sample_read_logs sample_indexer_def heights blocks)
       (simp add: sample_raw_def sort_log_def decode_log_def decoded_of_def sample_lower winning_solutions_def is_closing_def winning_step_def
         sample_read commit_def Let_def empty_store_def add_log_def has_log_def apply_log_def project_def project_settlement_def)
qed

lemma index_reflects_chain_witness:
  "\<exists>s' :: ingest. st_logs (in_store s') = map log_row_of (chain_index sample_indexer sample_chain 1 1) \<and> length (st_logs (in_store s')) = 1"
proof -
  obtain s' r where s: "ingest_step sample_indexer sample_node sample_node sample_node 0 sample_ingest = (s', Inr r)"
    and m: "map_option cp_lastBlock (st_state (in_store s') (1, ''s'')) = Some 1" using sample_step by blast
  obtain cp where cp: "st_state (in_store s') (1, ''s'') = Some cp" "cp_lastBlock cp = 1" using m by auto
  have d: "d_chainId (ix_deployment sample_indexer) = 1" "d_settlement (ix_deployment sample_indexer) = ''s''" "d_fromBlock (ix_deployment sample_indexer) = 1"
    by (simp_all add: sample_indexer_def)
  have "ingest_run sample_indexer {sample_chain} sample_ingest" by (rule Boot) (simp add: sample_ingest_def)
  then have "st_logs (in_store s') = map log_row_of (chain_index sample_indexer sample_chain 1 1)"
    using index_reflects_chain [OF _ sample_forks _ _ sample_truthful sample_truthful sample_truthful s, of cp] cp by (simp add: d)
  moreover have "length (chain_index sample_indexer sample_chain 1 1) = 1"
    by (simp add: chain_index_def sample_raws sort_all_def sort_log_def decode_log_def) (simp add: sample_indexer_def sample_raw_def sample_lower)
  ultimately show ?thesis by (intro exI [where x = s']) simp
qed

lemma step_within_range_witness:
  "\<exists>s' r. ingest_step sample_indexer sample_node sample_node sample_node 0 sample_ingest = (s', Inr r) \<and> sr_from r = 1 \<and> sr_to r \<le> 1"
proof -
  let ?cp = "\<lparr>cp_chainId = 1, cp_settlement = ''s'', cp_fromBlock = 1, cp_lastBlock = 0, cp_lastHash = ''h0''\<rparr>"
  obtain s' r where s: "ingest_step sample_indexer sample_node sample_node sample_node 0 sample_ingest = (s', Inr r)" "sr_to r = 1"
    using sample_step by blast
  have "checkpoint_of (ix_deployment sample_indexer) sample_node empty_store = Inr ?cp"
    by (simp add: checkpoint_of_def initial_def sample_indexer_def empty_store_def sample_read)
  then have "read_on sample_indexer sample_node ?cp None False sample_ingest = (s', Inr r)"
    using s(1) by (simp add: ingest_step_def sample_ingest_def sample_read)
  moreover have "safe_head (ix_confirmations sample_indexer) sample_node = Inr 1" by (simp add: safe_head_def sample_read sample_indexer_def)
  ultimately have "sr_from r = 1"
    using step_within_range [of sample_indexer sample_node ?cp None False sample_ingest s' r 1] by (simp add: sample_indexer_def)
  then show ?thesis using s by auto
qed

lemma failed_step_harmless_witness:
  "in_store (fst (ingest_step sample_indexer (sample_node\<lparr>nd_block := \<lambda>k i. Inl \<lparr>err_name = [], err_message = []\<rparr>\<rparr>) sample_node sample_node 0 sample_ingest)) = empty_store
   \<or> reflects sample_indexer sample_chain (in_store (fst (ingest_step sample_indexer (sample_node\<lparr>nd_block := \<lambda>k i. Inl \<lparr>err_name = [], err_message = []\<rparr>\<rparr>) sample_node sample_node 0 sample_ingest)))"
proof -
  let ?n = "sample_node\<lparr>nd_block := \<lambda>k i. Inl \<lparr>err_name = [], err_message = []\<rparr>\<rparr>"
  obtain s' res where s: "ingest_step sample_indexer ?n sample_node sample_node 0 sample_ingest = (s', res)" by fastforce
  have t: "truthful sample_chain ?n" using sample_truthful by (simp add: truthful_def missing_def)
  obtain e where "read_node (nd_block ?n 0) = Inl e"
    using with_retry_cases [of READ_ATTEMPTS "\<lambda>_. False" 1 "nd_block ?n 0"] by (auto simp: read_node_def read_with_def)
  then have "res = Inl (Rpc_failed e)"
    using s by (simp add: ingest_step_def checkpoint_of_def initial_def sample_indexer_def sample_ingest_def empty_store_def)
  then have f: "ingest_step sample_indexer ?n sample_node sample_node 0 sample_ingest = (s', Inl (Rpc_failed e))" using s by simp
  have run: "ingest_run sample_indexer {sample_chain} sample_ingest" by (rule Boot) (simp add: sample_ingest_def)
  have "in_store s' = in_store sample_ingest \<or> reflects sample_indexer sample_chain (in_store s')"
    by (rule failed_step_harmless [OF run sample_forks _ _ t sample_truthful sample_truthful f]) (simp_all add: sample_indexer_def)
  then show ?thesis using s by (simp add: sample_ingest_def)
qed

end
