(* ===== verification/Receipt.thy ===== *)
theory Receipt
  imports Decimal
begin

text \<open>
  indexer/src/receipt.ts and baseline.ts: the batch receipt, built from the rows of a batch and one
  quote per fill and per direction. A row is a record of its table's columns with the types of the
  schema, which is what \<^verbatim>\<open>big\<close> and \<^verbatim>\<open>String\<close> read out of it. The quote is the answer of the chain,
  a parameter. Encoded call data and the texts that describe a call are left out.
\<close>

section \<open>The facts of a batch\<close>

record row_place =
  pl_chainId :: int
  pl_block :: int
  pl_timestamp :: int
  pl_txHash :: string
  pl_logIndex :: int

record fill_fact =
  ff_intentHash :: string
  ff_owner :: string
  ff_sell :: string
  ff_buy :: string
  ff_executedSell :: int
  ff_executedBuy :: int
  ff_baselineBuy :: int
  ff_savingsUsd :: int
  ff_place :: row_place

record price_fact =
  pf_token :: string
  pf_price :: int
  pf_refPrice :: int
  pf_deviationBps :: int

record solution_fact =
  sf_solver :: string
  sf_hash :: string
  sf_claimedSavings :: int
  sf_accepted :: bool
  sf_rejection :: "string option"
  sf_place :: row_place

record route_fact =
  rf_adapter :: string
  rf_tokenIn :: string
  rf_tokenOut :: string
  rf_amountIn :: int
  rf_amountOut :: int

record failure_fact =
  cf_owner :: string
  cf_intentIndex :: int

record solution_intent =
  si_owner :: string
  si_receiver :: string
  si_sellToken :: string
  si_buyToken :: string
  si_sellAmount :: int

record solution_execution =
  se_intentIndex :: nat
  se_executedSell :: int
  se_executedBuy :: int

record solution_call =
  sc_adapter :: string
  sc_tokenIn :: string
  sc_tokenOut :: string
  sc_amountIn :: int
  sc_minOut :: int

record solution_json =
  sj_intents :: "solution_intent list"
  sj_executions :: "solution_execution list"
  sj_venueCalls :: "solution_call list"

record winning_fact =
  wf_hash :: string
  wf_solution :: solution_json

record quote_fact =
  qf_adapter :: string
  qf_sell :: string
  qf_buy :: string
  qf_amount :: int
  qf_block :: int
  qf_amountOut :: "int option"

record batch_fact =
  bf_outcome :: string
  bf_reason :: "string option"
  bf_intentCount :: int
  bf_nettedUsd :: "int option"
  bf_routedUsd :: "int option"
  bf_savingsUsd :: "int option"
  bf_solverFeeUsd :: "int option"
  bf_protocolFeeUsd :: "int option"
  bf_solver :: "string option"
  bf_place :: row_place

record batch_facts =
  bt_batch :: "batch_fact option"
  bt_fills :: "fill_fact list"
  bt_prices :: "price_fact list"
  bt_solutions :: "solution_fact list"
  bt_venueRoutes :: "route_fact list"
  bt_collectionFailures :: "failure_fact list"
  bt_winning :: "winning_fact option"
  bt_quotes :: "quote_fact list"

section \<open>Quotes\<close>

definition quote_block :: "batch_facts \<Rightarrow> fill_fact \<Rightarrow> int" where
  "quote_block facts f =
     (case (case bt_winning facts of None \<Rightarrow> None | Some w \<Rightarrow> find (\<lambda>s. same (sf_hash s) (wf_hash w)) (bt_solutions facts)) of
        Some s \<Rightarrow> pl_block (sf_place s) - 1
      | None \<Rightarrow> pl_block (ff_place f) - 1)"

record direction =
  dr_sell :: string
  dr_buy :: string
  dr_block :: int
  dr_fills :: nat
  dr_executedSell :: int
  dr_baselineBuy :: int

definition direction_key :: "string \<Rightarrow> string \<Rightarrow> string" where
  "direction_key sell buy = lower (sell @ '':'' @ buy)"

definition direction_step :: "batch_facts \<Rightarrow> (string \<times> direction) list \<Rightarrow> fill_fact \<Rightarrow> (string \<times> direction) list" where
  "direction_step facts out f =
     (let key = direction_key (ff_sell f) (ff_buy f);
          d = (case map_of out key of Some d \<Rightarrow> d
               | None \<Rightarrow> \<lparr>dr_sell = ff_sell f, dr_buy = ff_buy f, dr_block = quote_block facts f, dr_fills = 0, dr_executedSell = 0, dr_baselineBuy = 0\<rparr>)
      in AList.update key (d\<lparr>dr_fills := dr_fills d + 1, dr_executedSell := dr_executedSell d + ff_executedSell f,
           dr_baselineBuy := dr_baselineBuy d + ff_baselineBuy f\<rparr>) out)"

definition directions :: "batch_facts \<Rightarrow> direction list" where
  "directions facts = map snd (foldl (direction_step facts) [] (bt_fills facts))"

record baseline_call =
  bc_sell :: string
  bc_buy :: string
  bc_amount :: int
  bc_block :: int

definition quote_key :: "string \<Rightarrow> string \<Rightarrow> int \<Rightarrow> int \<Rightarrow> string \<Rightarrow> string" where
  "quote_key sell buy amount block adapter = lower (adapter @ '':'' @ sell @ '':'' @ buy @ '':'' @ decimal amount @ '':'' @ decimal block)"

definition fill_call :: "batch_facts \<Rightarrow> fill_fact \<Rightarrow> baseline_call" where
  "fill_call facts f = \<lparr>bc_sell = ff_sell f, bc_buy = ff_buy f, bc_amount = ff_executedSell f, bc_block = quote_block facts f\<rparr>"

definition direction_call :: "direction \<Rightarrow> baseline_call" where
  "direction_call d = \<lparr>bc_sell = dr_sell d, bc_buy = dr_buy d, bc_amount = dr_executedSell d, bc_block = dr_block d\<rparr>"

definition add_call :: "(string \<times> baseline_call) list \<Rightarrow> baseline_call \<Rightarrow> (string \<times> baseline_call) list" where
  "add_call calls c = AList.update (quote_key (bc_sell c) (bc_buy c) (bc_amount c) (bc_block c) []) c calls"

definition baseline_calls :: "batch_facts \<Rightarrow> baseline_call list" where
  "baseline_calls facts = map snd (foldl add_call [] (map (fill_call facts) (bt_fills facts) @ map direction_call (directions facts)))"

text \<open>A quote, a revert, or a state the node no longer holds.\<close>

datatype quoted = Quote int | Reverts | Unavailable

definition shown :: "quoted \<Rightarrow> string" where
  "shown q = (case q of Quote n \<Rightarrow> decimal n | Reverts \<Rightarrow> ''reverts'' | Unavailable \<Rightarrow> ''unavailable'')"

record token_meta =
  tm_symbol :: string
  tm_decimals :: int
  tm_pool :: "string option"

record receipt_context =
  rc_tokens :: "string \<Rightarrow> token_meta option"
  rc_quoteToken :: string
  rc_explorer :: string
  rc_baselineAdapter :: string
  rc_maxDeviationBps :: int
  rc_quote :: "string \<Rightarrow> string \<Rightarrow> int \<Rightarrow> int \<Rightarrow> int option option"

text \<open>\<open>rc_quote\<close> is None where the node throws, and Some None where the call reverts.\<close>

definition stored_quotes :: "batch_facts \<Rightarrow> (string \<times> int option) list" where
  "stored_quotes facts = foldl (\<lambda>m q. AList.update (quote_key (qf_sell q) (qf_buy q) (qf_amount q) (qf_block q) (qf_adapter q)) (qf_amountOut q) m) [] (bt_quotes facts)"

definition quote_of_call :: "batch_facts \<Rightarrow> receipt_context \<Rightarrow> baseline_call \<Rightarrow> quoted" where
  "quote_of_call facts ctx c =
     (case map_of (stored_quotes facts) (quote_key (bc_sell c) (bc_buy c) (bc_amount c) (bc_block c) (rc_baselineAdapter ctx)) of
        Some (Some n) \<Rightarrow> Quote n
      | Some None \<Rightarrow> Reverts
      | None \<Rightarrow> (case rc_quote ctx (bc_sell c) (bc_buy c) (bc_amount c) (bc_block c) of
                   Some (Some n) \<Rightarrow> Quote n | Some None \<Rightarrow> Reverts | None \<Rightarrow> Unavailable))"

section \<open>Figures\<close>

definition improvement_bps :: "int \<Rightarrow> int \<Rightarrow> int" where
  "improvement_bps executedBuy baselineBuy = (if baselineBuy = 0 then 0 else (executedBuy - baselineBuy) * 10000 sdiv baselineBuy)"

definition netting_ratio_bps :: "int \<Rightarrow> int \<Rightarrow> int" where
  "netting_ratio_bps netted routed = (let notional = netted + routed in if notional = 0 then 0 else netted * 10000 sdiv notional)"

text \<open>\<open>attribute\<close> takes its fills and routes as pairs of tokens with an amount.\<close>

type_synonym flow = "string \<times> string \<times> int"

definition same_flow :: "flow \<Rightarrow> flow \<Rightarrow> bool" where
  "same_flow g f \<longleftrightarrow> same (fst g) (fst f) \<and> same (fst (snd g)) (fst (snd f))"

definition flow_total :: "flow \<Rightarrow> flow list \<Rightarrow> int" where
  "flow_total f gs = foldl (\<lambda>s g. s + snd (snd g)) 0 (filter (\<lambda>g. same_flow g f) gs)"

definition attribute_fill :: "flow list \<Rightarrow> flow list \<Rightarrow> flow \<Rightarrow> int \<times> int" where
  "attribute_fill fills routes f =
     (let executed = snd (snd f); routed = flow_total f routes; direction = flow_total f fills;
          share = (if direction = 0 then 0 else routed * executed sdiv direction);
          routedSell = (if share > executed then executed else share)
      in (executed - routedSell, routedSell))"

definition attribute :: "flow list \<Rightarrow> flow list \<Rightarrow> (int \<times> int) list" where
  "attribute fills routes = map (attribute_fill fills routes) fills"

definition public_outcome :: "string \<Rightarrow> string option \<Rightarrow> string" where
  "public_outcome outcome reason =
     (if outcome = ''settled'' \<and> reason = Some ''savings below threshold'' then ''settled_at_venue'' else outcome)"

definition failure_code :: "string \<Rightarrow> string" where
  "failure_code reason =
     (if reason = ''winner never finalized'' then ''WinnerNeverFinalized''
      else if reason = ''intent could not be collected'' then ''IntentCollectionFailed'' else ''BatchPassthrough'')"

section \<open>The receipt\<close>

record token_ref =
  tk_address :: string
  tk_symbol :: string
  tk_decimals :: int
  tk_explorerUrl :: string

definition token_ref_of :: "receipt_context \<Rightarrow> string \<Rightarrow> token_ref" where
  "token_ref_of ctx address =
     (let meta = rc_tokens ctx (lower address)
      in \<lparr>tk_address = address, tk_symbol = (case meta of Some m \<Rightarrow> tm_symbol m | None \<Rightarrow> ''unknown''),
          tk_decimals = (case meta of Some m \<Rightarrow> tm_decimals m | None \<Rightarrow> 18), tk_explorerUrl = rc_explorer ctx @ ''/address/'' @ address\<rparr>)"

record fill_receipt =
  fr_intentHash :: string
  fr_owner :: string
  fr_receiver :: string
  fr_sellToken :: token_ref
  fr_buyToken :: token_ref
  fr_executedSell :: int
  fr_executedBuy :: int
  fr_baselineBuy :: int
  fr_savingsUsd :: int
  fr_improvementBps :: int
  fr_nettedSell :: int
  fr_routedSell :: int
  fr_partial :: bool
  fr_verifyBlock :: int
  fr_verifyExpected :: string
  fr_provenance :: row_place

definition execution_intent :: "solution_json \<Rightarrow> fill_fact \<Rightarrow> solution_intent option" where
  "execution_intent sol f =
     (case find (\<lambda>e. se_intentIndex e < length (sj_intents sol) \<and> same (si_owner (sj_intents sol ! se_intentIndex e)) (ff_owner f)
          \<and> se_executedSell e = ff_executedSell f \<and> se_executedBuy e = ff_executedBuy f) (sj_executions sol) of
        None \<Rightarrow> None
      | Some e \<Rightarrow> Some (sj_intents sol ! se_intentIndex e))"

definition fill_receipt_of :: "batch_facts \<Rightarrow> receipt_context \<Rightarrow> fill_fact \<times> int \<times> int \<Rightarrow> fill_receipt" where
  "fill_receipt_of facts ctx fa =
     (case fa of (f, netted, routed) \<Rightarrow>
        let intent = (case bt_winning facts of None \<Rightarrow> None | Some w \<Rightarrow> execution_intent (wf_solution w) f)
        in \<lparr>fr_intentHash = ff_intentHash f, fr_owner = ff_owner f,
            fr_receiver = (case intent of Some i \<Rightarrow> si_receiver i | None \<Rightarrow> ff_owner f),
            fr_sellToken = token_ref_of ctx (ff_sell f), fr_buyToken = token_ref_of ctx (ff_buy f),
            fr_executedSell = ff_executedSell f, fr_executedBuy = ff_executedBuy f, fr_baselineBuy = ff_baselineBuy f, fr_savingsUsd = ff_savingsUsd f,
            fr_improvementBps = improvement_bps (ff_executedBuy f) (ff_baselineBuy f), fr_nettedSell = netted, fr_routedSell = routed,
            fr_partial = (case intent of Some i \<Rightarrow> ff_executedSell f < si_sellAmount i | None \<Rightarrow> False),
            fr_verifyBlock = quote_block facts f, fr_verifyExpected = shown (quote_of_call facts ctx (fill_call facts f)),
            fr_provenance = ff_place f\<rparr>)"

record baseline_floor =
  fl_sellToken :: token_ref
  fl_buyToken :: token_ref
  fl_fills :: nat
  fl_executedSell :: int
  fl_baselineBuy :: int
  fl_expected :: string
  fl_holds :: "bool option"

record mismatch =
  mm_sell :: string
  mm_buy :: string
  mm_baselineBuy :: int
  mm_floor :: "int option"

definition floor_of :: "batch_facts \<Rightarrow> receipt_context \<Rightarrow> direction \<Rightarrow> baseline_floor \<times> mismatch option" where
  "floor_of facts ctx d =
     (let floor = quote_of_call facts ctx (direction_call d);
          holds = (case floor of Quote n \<Rightarrow> Some (dr_baselineBuy d \<ge> n) | _ \<Rightarrow> None)
      in (\<lparr>fl_sellToken = token_ref_of ctx (dr_sell d), fl_buyToken = token_ref_of ctx (dr_buy d), fl_fills = dr_fills d,
           fl_executedSell = dr_executedSell d, fl_baselineBuy = dr_baselineBuy d, fl_expected = shown floor, fl_holds = holds\<rparr>,
          if holds = Some False \<or> floor = Reverts
          then Some \<lparr>mm_sell = dr_sell d, mm_buy = dr_buy d, mm_baselineBuy = dr_baselineBuy d, mm_floor = (case floor of Quote n \<Rightarrow> Some n | _ \<Rightarrow> None)\<rparr>
          else None))"

record clearing_row =
  cl_token :: token_ref
  cl_price :: int
  cl_refPrice :: int
  cl_deviationBps :: int
  cl_withinBand :: bool

definition clearing_row_of :: "receipt_context \<Rightarrow> price_fact \<Rightarrow> clearing_row" where
  "clearing_row_of ctx p =
     (let price = pf_price p; ref = pf_refPrice p; diff = (if price > ref then price - ref else ref - price)
      in \<lparr>cl_token = token_ref_of ctx (pf_token p), cl_price = price, cl_refPrice = ref, cl_deviationBps = pf_deviationBps p,
          cl_withinBand = (diff * 10000 \<le> rc_maxDeviationBps ctx * ref)\<rparr>)"

record venue_row =
  vr_adapter :: string
  vr_pool :: string
  vr_tokenIn :: token_ref
  vr_tokenOut :: token_ref
  vr_amountIn :: int
  vr_minOut :: "int option"
  vr_amountOut :: int
  vr_explorerUrl :: string

definition venue_row_of :: "batch_facts \<Rightarrow> receipt_context \<Rightarrow> route_fact \<Rightarrow> venue_row" where
  "venue_row_of facts ctx r =
     (let call = (case bt_winning facts of None \<Rightarrow> None | Some w \<Rightarrow>
            find (\<lambda>v. same (sc_adapter v) (rf_adapter r) \<and> same (sc_tokenIn v) (rf_tokenIn r) \<and> same (sc_tokenOut v) (rf_tokenOut r)
              \<and> sc_amountIn v = rf_amountIn r) (sj_venueCalls (wf_solution w)));
          stock = (if same (rf_tokenIn r) (rc_quoteToken ctx) then rf_tokenOut r else rf_tokenIn r);
          pool = (case rc_tokens ctx (lower stock) of Some m \<Rightarrow> (case tm_pool m of Some p \<Rightarrow> p | None \<Rightarrow> []) | None \<Rightarrow> [])
      in \<lparr>vr_adapter = rf_adapter r, vr_pool = pool, vr_tokenIn = token_ref_of ctx (rf_tokenIn r), vr_tokenOut = token_ref_of ctx (rf_tokenOut r),
          vr_amountIn = rf_amountIn r, vr_minOut = map_option sc_minOut call, vr_amountOut = rf_amountOut r,
          vr_explorerUrl = rc_explorer ctx @ ''/address/'' @ (if pool = [] then rf_adapter r else pool)\<rparr>)"

record solution_row =
  sm_solver :: string
  sm_hash :: string
  sm_claimedSavings :: int
  sm_accepted :: bool
  sm_rejection :: "string option"
  sm_place :: row_place

definition solution_row_of :: "batch_facts \<Rightarrow> solution_fact \<Rightarrow> solution_row" where
  "solution_row_of facts s =
     (let won = (case bt_winning facts of None \<Rightarrow> sf_accepted s | Some w \<Rightarrow> lower (sf_hash s) = lower (wf_hash w))
      in \<lparr>sm_solver = sf_solver s, sm_hash = sf_hash s, sm_claimedSavings = sf_claimedSavings s, sm_accepted = won,
          sm_rejection = (if won then None else Some (case sf_rejection s of Some r \<Rightarrow> r | None \<Rightarrow> ''replaced by a better solution'')),
          sm_place = sf_place s\<rparr>)"

definition participants :: "batch_facts \<Rightarrow> string set" where
  "participants facts =
     (if bt_fills facts \<noteq> [] then set (map ff_owner (bt_fills facts))
      else case bt_winning facts of None \<Rightarrow> {} | Some w \<Rightarrow> set (map (\<lambda>i. lower (si_owner i)) (sj_intents (wf_solution w))))"

record failure_row =
  fa_code :: string
  fa_reason :: string

definition failure_of :: "batch_facts \<Rightarrow> string \<Rightarrow> string option \<Rightarrow> failure_row option" where
  "failure_of facts outcome reason =
     (if outcome = ''settled'' \<or> outcome = ''settled_at_venue'' then None
      else let why = (case reason of Some r \<Rightarrow> r | None \<Rightarrow> []);
               parts = why # map (\<lambda>c. ''owner '' @ cf_owner c @ '' could not be collected at intent '' @ decimal (cf_intentIndex c)) (bt_collectionFailures facts)
           in Some \<lparr>fa_code = failure_code why, fa_reason = concat (case filter (\<lambda>p. p \<noteq> []) parts of [] \<Rightarrow> [] | p # ps \<Rightarrow> p # map (\<lambda>q. ''. '' @ q) ps)\<rparr>)"

record receipt =
  re_batchId :: int
  re_outcome :: string
  re_intentCount :: int
  re_participantCount :: nat
  re_solver :: "string option"
  re_solutions :: "solution_row list"
  re_fills :: "fill_receipt list"
  re_floors :: "baseline_floor list"
  re_prices :: "clearing_row list"
  re_routes :: "venue_row list"
  re_notionalUsd :: int
  re_nettedUsd :: int
  re_routedUsd :: int
  re_nettingRatioBps :: int
  re_savingsUsd :: int
  re_solverFeeUsd :: int
  re_protocolFeeUsd :: int
  re_failure :: "failure_row option"
  re_place :: row_place

definition or_zero :: "int option \<Rightarrow> int" where
  "or_zero v = (case v of Some n \<Rightarrow> n | None \<Rightarrow> 0)"

definition build_receipt :: "int \<Rightarrow> batch_facts \<Rightarrow> receipt_context \<Rightarrow> (receipt \<times> mismatch list) option" where
  "build_receipt batchId facts ctx =
     (case bt_batch facts of
        None \<Rightarrow> None
      | Some b \<Rightarrow>
          let outcome = public_outcome (bf_outcome b) (bf_reason b);
              attributed = attribute (map (\<lambda>f. (ff_sell f, ff_buy f, ff_executedSell f)) (bt_fills facts))
                             (map (\<lambda>r. (rf_tokenIn r, rf_tokenOut r, rf_amountIn r)) (bt_venueRoutes facts));
              floors = map (floor_of facts ctx) (directions facts);
              netted = or_zero (bf_nettedUsd b); routed = or_zero (bf_routedUsd b);
              accepted = filter sf_accepted (bt_solutions facts)
          in Some (\<lparr>re_batchId = batchId, re_outcome = outcome, re_intentCount = bf_intentCount b, re_participantCount = card (participants facts),
                re_solver = (case bf_solver b of Some s \<Rightarrow> Some s | None \<Rightarrow> if accepted = [] then None else Some (sf_solver (last accepted))),
                re_solutions = map (solution_row_of facts) (bt_solutions facts),
                re_fills = map (fill_receipt_of facts ctx) (zip (bt_fills facts) attributed),
                re_floors = map fst floors, re_prices = map (clearing_row_of ctx) (bt_prices facts), re_routes = map (venue_row_of facts ctx) (bt_venueRoutes facts),
                re_notionalUsd = netted + routed, re_nettedUsd = netted, re_routedUsd = routed, re_nettingRatioBps = netting_ratio_bps netted routed,
                re_savingsUsd = or_zero (bf_savingsUsd b), re_solverFeeUsd = or_zero (bf_solverFeeUsd b), re_protocolFeeUsd = or_zero (bf_protocolFeeUsd b),
                re_failure = failure_of facts outcome (bf_reason b), re_place = bf_place b\<rparr>,
              List.map_filter snd floors))"

section \<open>Recording the quotes when a batch settles\<close>

text \<open>
  \<open>adapterAt\<close> is the baseline adapter of the settlement at a block and \<open>ask\<close> its quote, None where the
  node throws and Some None where the call reverts. One adapter read per block is kept.
\<close>

definition record_call :: "(int \<Rightarrow> string option) \<Rightarrow> (string \<Rightarrow> baseline_call \<Rightarrow> int option option) \<Rightarrow> (int \<times> string) list \<times> quote_fact list \<Rightarrow> baseline_call
    \<Rightarrow> (int \<times> string) list \<times> quote_fact list" where
  "record_call adapterAt ask acc c =
     (case (case map_of (fst acc) (bc_block c) of Some a \<Rightarrow> Some (a, fst acc)
              | None \<Rightarrow> map_option (\<lambda>a. (a, AList.update (bc_block c) a (fst acc))) (adapterAt (bc_block c))) of
        None \<Rightarrow> acc
      | Some (adapter, adapters) \<Rightarrow>
          (case ask adapter c of
             None \<Rightarrow> (adapters, snd acc)
           | Some amountOut \<Rightarrow>
               let q = \<lparr>qf_adapter = lower adapter, qf_sell = lower (bc_sell c), qf_buy = lower (bc_buy c), qf_amount = bc_amount c, qf_block = bc_block c, qf_amountOut = amountOut\<rparr>
               in (adapters, if list_ex (\<lambda>p. qf_adapter p = qf_adapter q \<and> qf_sell p = qf_sell q \<and> qf_buy p = qf_buy q \<and> qf_amount p = qf_amount q \<and> qf_block p = qf_block q) (snd acc)
                             then snd acc else snd acc @ [q])))"

definition record_baselines :: "(int \<Rightarrow> string option) \<Rightarrow> (string \<Rightarrow> baseline_call \<Rightarrow> int option option) \<Rightarrow> batch_facts \<Rightarrow> quote_fact list" where
  "record_baselines adapterAt ask facts = snd (foldl (record_call adapterAt ask) ([], bt_quotes facts) (baseline_calls facts))"


section \<open>Attribution\<close>

lemma foldl_sum: "foldl (\<lambda>s g. s + h g) (a :: int) gs = a + sum_list (map h gs)"
  by (induction gs arbitrary: a) auto

lemma flow_total_sum: "flow_total f gs = sum_list (map (\<lambda>g. snd (snd g)) (filter (\<lambda>g. same_flow g f) gs))"
  unfolding flow_total_def by (simp add: foldl_sum)

lemma flow_total_nonneg: "\<forall>g\<in>set gs. 0 \<le> snd (snd g) \<Longrightarrow> 0 \<le> flow_total f gs"
  unfolding flow_total_sum by (intro sum_list_nonneg) auto

lemma same_flow_total: "same_flow g f \<Longrightarrow> flow_total g gs = flow_total f gs"
proof -
  assume "same_flow g f"
  then have "(\<lambda>x. same_flow x g) = (\<lambda>x. same_flow x f)" by (auto simp: same_flow_def same_def)
  then show ?thesis by (simp add: flow_total_def)
qed

lemma same_flow_refl: "same_flow f f"
  by (simp add: same_flow_def)

lemma flow_part: "f \<in> set fills \<Longrightarrow> \<forall>g\<in>set fills. 0 \<le> snd (snd g) \<Longrightarrow> snd (snd f) \<le> flow_total f fills"
  unfolding flow_total_sum by (intro member_le_sum_list) (auto simp: same_flow_refl)

text \<open>Floor divided shares of a total add up to at most the total, and miss it by less than one each.\<close>

lemma floor_shares:
  fixes R D :: int
  assumes "0 < D" "0 \<le> R"
  shows "sum_list (map (\<lambda>e. R * e div D) es) * D \<le> R * sum_list es
    \<and> R * sum_list es \<le> (sum_list (map (\<lambda>e. R * e div D) es)) * D + int (length es) * (D - 1)"
proof (induction es)
  case (Cons e es)
  obtain q m where q: "R * e div D = q" and e: "R * e = q * D + m" and m: "0 \<le> m" "m \<le> D - 1"
    using assms(1) pos_mod_bound [of D "R * e"] pos_mod_sign [of D "R * e"] div_mult_mod_eq [of "R * e" D] by (metis zle_diff1_eq)
  have "int (length (e # es)) * (D - 1) = int (length es) * (D - 1) + (D - 1)" by (simp add: algebra_simps)
  then show ?case using Cons m by (simp add: q distrib_left distrib_right e del: length_Cons)
qed simp

lemma attribute_parts:
  assumes "f \<in> set fills" "\<forall>g\<in>set fills. 0 \<le> snd (snd g)" "\<forall>g\<in>set routes. 0 \<le> snd (snd g)"
  shows "fst (attribute_fill fills routes f) + snd (attribute_fill fills routes f) = snd (snd f)"
    "0 \<le> snd (attribute_fill fills routes f)" "0 \<le> fst (attribute_fill fills routes f)"
    "snd (attribute_fill fills routes f) \<le> (if flow_total f fills = 0 then 0 else flow_total f routes * snd (snd f) div flow_total f fills)"
    "flow_total f routes \<le> flow_total f fills \<Longrightarrow>
      snd (attribute_fill fills routes f) = (if flow_total f fills = 0 then 0 else flow_total f routes * snd (snd f) div flow_total f fills)"
proof -
  let ?D = "flow_total f fills" and ?R = "flow_total f routes" and ?e = "snd (snd f)"
  have pos: "0 \<le> ?D" "0 \<le> ?R" "0 \<le> ?e" using flow_total_nonneg assms by blast+
  have share: "?R * ?e sdiv ?D = ?R * ?e div ?D" using pos by simp
  show "fst (attribute_fill fills routes f) + snd (attribute_fill fills routes f) = ?e" by (simp add: attribute_fill_def Let_def)
  show "0 \<le> snd (attribute_fill fills routes f)" "0 \<le> fst (attribute_fill fills routes f)"
    using pos by (auto simp: attribute_fill_def Let_def)
  show "snd (attribute_fill fills routes f) \<le> (if ?D = 0 then 0 else ?R * ?e div ?D)"
    using pos by (auto simp: attribute_fill_def Let_def)
  assume le: "?R \<le> ?D"
  have "?R * ?e div ?D \<le> ?e" if "?D \<noteq> 0"
  proof -
    have "?R * ?e \<le> ?D * ?e" using le pos(3) by (rule mult_right_mono)
    then have "?R * ?e div ?D \<le> ?D * ?e div ?D" using pos(1) that by (intro zdiv_mono1) auto
    then show ?thesis using that by simp
  qed
  then show "snd (attribute_fill fills routes f) = (if ?D = 0 then 0 else ?R * ?e div ?D)"
    using pos by (cases "?D = 0") (auto simp: attribute_fill_def Let_def)
qed

text \<open>What the fills in the direction of \<open>f\<close> are said to have routed, together.\<close>

definition routed_of :: "flow list \<Rightarrow> flow list \<Rightarrow> flow \<Rightarrow> int" where
  "routed_of fills routes f = sum_list (map (\<lambda>g. snd (attribute_fill fills routes g)) (filter (\<lambda>g. same_flow g f) fills))"

lemma routed_bounds:
  assumes nn: "\<forall>g\<in>set fills. 0 \<le> snd (snd g)" "\<forall>g\<in>set routes. 0 \<le> snd (snd g)"
  shows "routed_of fills routes f \<le> flow_total f routes"
    and "flow_total f routes \<le> flow_total f fills \<Longrightarrow> 0 < flow_total f fills
      \<Longrightarrow> flow_total f routes < routed_of fills routes f + int (length (filter (\<lambda>g. same_flow g f) fills))"
proof -
  let ?D = "flow_total f fills" and ?R = "flow_total f routes" and ?mine = "filter (\<lambda>g. same_flow g f) fills"
  have D: "sum_list (map (\<lambda>g. snd (snd g)) ?mine) = ?D" by (simp add: flow_total_sum)
  have pos: "0 \<le> ?D" "0 \<le> ?R" using flow_total_nonneg nn by blast+
  have mine: "g \<in> set fills" "flow_total g fills = ?D" "flow_total g routes = ?R" if "g \<in> set ?mine" for g
    using that same_flow_total [of g f] by auto
  have up: "snd (attribute_fill fills routes g) \<le> (if ?D = 0 then 0 else ?R * snd (snd g) div ?D)" if "g \<in> set ?mine" for g
    using attribute_parts(4) [OF mine(1) [OF that] nn] unfolding mine(2) [OF that] mine(3) [OF that] .
  have shares: "sum_list (map (\<lambda>g. ?R * snd (snd g) div ?D) ?mine) = sum_list (map (\<lambda>e. ?R * e div ?D) (map (\<lambda>g. snd (snd g)) ?mine))"
    by (simp add: comp_def)
  have "routed_of fills routes f \<le> sum_list (map (\<lambda>g. if ?D = 0 then 0 else ?R * snd (snd g) div ?D) ?mine)"
    unfolding routed_of_def by (rule sum_list_mono) (use up in blast)
  also have "\<dots> \<le> ?R"
  proof (cases "?D = 0")
    case True
    then show ?thesis using pos by simp
  next
    case False
    then have "sum_list (map (\<lambda>g. ?R * snd (snd g) div ?D) ?mine) * ?D \<le> ?R * ?D"
      using floor_shares [of ?D ?R "map (\<lambda>g. snd (snd g)) ?mine"] pos D shares by simp
    then have "sum_list (map (\<lambda>g. ?R * snd (snd g) div ?D) ?mine) \<le> ?R" by (rule mult_right_le_imp_le) (use False pos in simp)
    then show ?thesis using False by simp
  qed
  finally show "routed_of fills routes f \<le> ?R" .
  assume le: "?R \<le> ?D" and D0: "0 < ?D"
  have "routed_of fills routes f = sum_list (map (\<lambda>g. ?R * snd (snd g) div ?D) ?mine)"
    unfolding routed_of_def
    by (rule arg_cong [where f = sum_list], rule map_cong [OF refl]) (use attribute_parts(5) [OF mine(1) nn] mine(2,3) le D0 in auto)
  then have "?R * ?D \<le> routed_of fills routes f * ?D + int (length ?mine) * (?D - 1)"
    using floor_shares [of ?D ?R "map (\<lambda>g. snd (snd g)) ?mine"] pos D0 D shares by simp
  moreover have "?mine \<noteq> []" using D D0 by auto
  then obtain n where n: "int (length ?mine) = n" "0 < n" by simp
  ultimately have "?R * ?D + n \<le> (routed_of fills routes f + n) * ?D" by (simp add: algebra_simps)
  then have "?R * ?D < (routed_of fills routes f + n) * ?D" using n(2) by linarith
  then have "?R * ?D < (routed_of fills routes f + int (length ?mine)) * ?D" by (simp only: n(1))
  then show "?R < routed_of fills routes f + int (length ?mine)" using D0 by (simp add: mult_less_cancel_right)
qed

section \<open>Which quotes a receipt asks for\<close>

lemma lower_append [simp]: "lower (a @ b) = lower a @ lower b"
  by (simp add: lower_def)

lemma lower_Cons [simp]: "lower (c # s) = lower_char c # lower s"
  by (simp add: lower_def)

lemma quote_key_lower: "quote_key (lower sell) (lower buy) n b (lower a) = quote_key sell buy n b a"
  by (simp add: quote_key_def)

definition call_key :: "baseline_call \<Rightarrow> string" where
  "call_key c = quote_key (bc_sell c) (bc_buy c) (bc_amount c) (bc_block c) []"

lemma update_keys: "fst ` set (AList.update k v xs) = insert k (fst ` set xs)"
  by (induction xs) auto

lemma update_mem: "x \<in> set (AList.update k v xs) \<Longrightarrow> x \<in> set xs \<or> x = (k, v)"
  by (induction xs) (auto split: if_splits)

lemma add_calls:
  shows "fst ` set (foldl add_call m cs) = fst ` set m \<union> call_key ` set cs"
    and "\<forall>(k, c)\<in>set m. k = call_key c \<Longrightarrow> \<forall>(k, c)\<in>set (foldl add_call m cs). k = call_key c"
proof (induction cs arbitrary: m)
  case (Cons c cs)
  { case 1 then show ?case using Cons(1) [of "add_call m c"] by (auto simp: add_call_def call_key_def update_keys) }
  { case 2
    have "\<forall>(k, c)\<in>set (add_call m c). k = call_key c"
      using 2 update_mem [of _ "call_key c" c m] by (auto simp: add_call_def call_key_def)
    then show ?case using Cons(2) by simp }
qed auto

lemma baseline_calls_cover:
  assumes "c \<in> fill_call facts ` set (bt_fills facts) \<union> direction_call ` set (directions facts)"
  shows "\<exists>c'\<in>set (baseline_calls facts). call_key c' = call_key c"
proof -
  let ?m = "foldl add_call [] (map (fill_call facts) (bt_fills facts) @ map direction_call (directions facts))"
  have "call_key c \<in> fst ` set ?m" using assms unfolding add_calls(1) by auto
  then obtain c' where "(call_key c, c') \<in> set ?m" by auto
  moreover have "\<forall>(k, c)\<in>set ?m. k = call_key c" by (rule add_calls(2)) simp
  ultimately have "call_key c' = call_key c" by auto
  moreover have "c' \<in> set (baseline_calls facts)" using \<open>(call_key c, c') \<in> set ?m\<close> unfolding baseline_calls_def by force
  ultimately show ?thesis by blast
qed

text \<open>A quote is recorded for a call when a row holds its tokens, amount and block for the adapter of the receipt.\<close>

definition recorded :: "batch_facts \<Rightarrow> string \<Rightarrow> baseline_call \<Rightarrow> bool" where
  "recorded facts adapter c \<longleftrightarrow> (\<exists>q\<in>set (bt_quotes facts). lower (qf_adapter q) = lower adapter \<and> lower (qf_sell q) = lower (bc_sell c)
     \<and> lower (qf_buy q) = lower (bc_buy c) \<and> qf_amount q = bc_amount c \<and> qf_block q = bc_block c)"

lemma stored_keys: "fst ` set (stored_quotes facts) = (\<lambda>q. quote_key (qf_sell q) (qf_buy q) (qf_amount q) (qf_block q) (qf_adapter q)) ` set (bt_quotes facts)"
proof -
  have "fst ` set (foldl (\<lambda>m q. AList.update (quote_key (qf_sell q) (qf_buy q) (qf_amount q) (qf_block q) (qf_adapter q)) (qf_amountOut q) m) m qs)
      = fst ` set m \<union> (\<lambda>q. quote_key (qf_sell q) (qf_buy q) (qf_amount q) (qf_block q) (qf_adapter q)) ` set qs" for m qs
    by (induction qs arbitrary: m) (auto simp: update_keys)
  from this [of "[]" "bt_quotes facts"] show ?thesis unfolding stored_quotes_def by simp
qed

lemma recorded_stored:
  assumes "recorded facts adapter c"
  shows "quote_key (bc_sell c) (bc_buy c) (bc_amount c) (bc_block c) adapter \<in> fst ` set (stored_quotes facts)"
proof -
  obtain q where q: "q \<in> set (bt_quotes facts)" "lower (qf_adapter q) = lower adapter" "lower (qf_sell q) = lower (bc_sell c)"
    "lower (qf_buy q) = lower (bc_buy c)" "qf_amount q = bc_amount c" "qf_block q = bc_block c"
    using assms by (auto simp: recorded_def)
  then have "quote_key (qf_sell q) (qf_buy q) (qf_amount q) (qf_block q) (qf_adapter q) = quote_key (bc_sell c) (bc_buy c) (bc_amount c) (bc_block c) adapter"
    by (simp add: quote_key_def)
  then show ?thesis using q(1) unfolding stored_keys by (metis (mono_tags, lifting) image_eqI)
qed

lemma call_key_adapter: "call_key c' = call_key c \<Longrightarrow> quote_key (bc_sell c') (bc_buy c') (bc_amount c') (bc_block c') a = quote_key (bc_sell c) (bc_buy c) (bc_amount c) (bc_block c) a"
  by (simp add: call_key_def quote_key_def)

lemma quote_recorded:
  assumes all: "\<forall>c\<in>set (baseline_calls facts). recorded facts (rc_baselineAdapter ctx) c"
    and c: "c \<in> fill_call facts ` set (bt_fills facts) \<union> direction_call ` set (directions facts)"
  shows "quote_of_call facts (ctx\<lparr>rc_quote := ask\<rparr>) c = quote_of_call facts ctx c"
proof -
  obtain c' where c': "c' \<in> set (baseline_calls facts)" "call_key c' = call_key c" using baseline_calls_cover [OF c] by blast
  have "quote_key (bc_sell c) (bc_buy c) (bc_amount c) (bc_block c) (rc_baselineAdapter ctx) \<in> fst ` set (stored_quotes facts)"
    using recorded_stored c' all call_key_adapter [OF c'(2)] by metis
  then have "map_of (stored_quotes facts) (quote_key (bc_sell c) (bc_buy c) (bc_amount c) (bc_block c) (rc_baselineAdapter ctx)) \<noteq> None"
    by (simp add: map_of_eq_None_iff)
  then show ?thesis by (auto simp: quote_of_call_def split: option.split)
qed


section \<open>Recording\<close>

definition asked :: "(int \<Rightarrow> string option) \<Rightarrow> (string \<Rightarrow> baseline_call \<Rightarrow> int option option) \<Rightarrow> string \<Rightarrow> baseline_call \<Rightarrow> bool" where
  "asked adapterAt ask adapter c \<longleftrightarrow> (\<exists>a. adapterAt (bc_block c) = Some a \<and> lower a = lower adapter \<and> ask a c \<noteq> None)"

definition row_for :: "string \<Rightarrow> baseline_call \<Rightarrow> quote_fact \<Rightarrow> bool" where
  "row_for adapter c q \<longleftrightarrow> lower (qf_adapter q) = lower adapter \<and> lower (qf_sell q) = lower (bc_sell c)
     \<and> lower (qf_buy q) = lower (bc_buy c) \<and> qf_amount q = bc_amount c \<and> qf_block q = bc_block c"

lemma record_call_parts:
  assumes ad: "\<forall>k a. map_of (fst acc) k = Some a \<longrightarrow> adapterAt k = Some a"
  shows "\<forall>k a. map_of (fst (record_call adapterAt ask acc c)) k = Some a \<longrightarrow> adapterAt k = Some a"
    and "set (snd acc) \<subseteq> set (snd (record_call adapterAt ask acc c))"
    and "asked adapterAt ask adapter c \<Longrightarrow> \<exists>q\<in>set (snd (record_call adapterAt ask acc c)). row_for adapter c q"
proof -
  show "\<forall>k a. map_of (fst (record_call adapterAt ask acc c)) k = Some a \<longrightarrow> adapterAt k = Some a"
    using ad by (auto simp: record_call_def Let_def update_conv' split: option.splits if_splits)
  show "set (snd acc) \<subseteq> set (snd (record_call adapterAt ask acc c))"
    by (auto simp: record_call_def Let_def split: option.splits)
  assume "asked adapterAt ask adapter c"
  then obtain a amt where a: "adapterAt (bc_block c) = Some a" "lower a = lower adapter" "ask a c = Some amt" by (auto simp: asked_def)
  define q where "q = \<lparr>qf_adapter = lower a, qf_sell = lower (bc_sell c), qf_buy = lower (bc_buy c), qf_amount = bc_amount c, qf_block = bc_block c, qf_amountOut = amt\<rparr>"
  define seen where "seen = list_ex (\<lambda>p. qf_adapter p = qf_adapter q \<and> qf_sell p = qf_sell q \<and> qf_buy p = qf_buy q \<and> qf_amount p = qf_amount q \<and> qf_block p = qf_block q) (snd acc)"
  have "(case map_of (fst acc) (bc_block c) of Some a \<Rightarrow> Some (a, fst acc)
      | None \<Rightarrow> map_option (\<lambda>a. (a, AList.update (bc_block c) a (fst acc))) (adapterAt (bc_block c))) \<noteq> None"
    using a(1) by (simp split: option.split)
  then obtain ads where "(case map_of (fst acc) (bc_block c) of Some a \<Rightarrow> Some (a, fst acc)
      | None \<Rightarrow> map_option (\<lambda>a. (a, AList.update (bc_block c) a (fst acc))) (adapterAt (bc_block c))) = Some (a, ads)"
    using ad a(1) by (auto split: option.splits)
  then have rows: "snd (record_call adapterAt ask acc c) = (if seen then snd acc else snd acc @ [q])"
    by (simp add: record_call_def a(3) Let_def q_def seen_def)
  show "\<exists>q\<in>set (snd (record_call adapterAt ask acc c)). row_for adapter c q"
  proof (cases seen)
    case True
    then obtain p where "p \<in> set (snd acc)" "row_for adapter c p"
      using a(2) by (auto simp: seen_def list_ex_iff row_for_def q_def)
    then show ?thesis using rows True by auto
  next
    case False
    then show ?thesis using rows a(2) by (auto simp: row_for_def q_def)
  qed
qed

lemma record_calls:
  assumes "\<forall>c\<in>set cs. asked adapterAt ask adapter c" "\<forall>k a. map_of (fst acc) k = Some a \<longrightarrow> adapterAt k = Some a"
  shows "set (snd acc) \<subseteq> set (snd (foldl (record_call adapterAt ask) acc cs))
    \<and> (\<forall>c\<in>set cs. \<exists>q\<in>set (snd (foldl (record_call adapterAt ask) acc cs)). row_for adapter c q)"
  using assms
proof (induction cs arbitrary: acc)
  case (Cons c cs)
  note p = record_call_parts [OF Cons.prems(2), where ask = ask and c = c]
  have "\<exists>q\<in>set (snd (record_call adapterAt ask acc c)). row_for adapter c q" by (rule p(3)) (use Cons.prems(1) in simp)
  moreover note Cons.IH [OF _ p(1)]
  ultimately show ?case using p(2) Cons.prems(1) by auto
qed simp

lemma record_baselines_recorded:
  assumes "\<forall>c\<in>set (baseline_calls facts). asked adapterAt ask adapter c" "c \<in> set (baseline_calls facts)"
  shows "recorded (facts\<lparr>bt_quotes := record_baselines adapterAt ask facts\<rparr>) adapter c"
  using record_calls [OF assms(1), of "([], bt_quotes facts)"] assms(2)
  by (auto simp: recorded_def record_baselines_def row_for_def)

lemma with_quotes:
  "quote_block (facts\<lparr>bt_quotes := qs\<rparr>) = quote_block facts" "directions (facts\<lparr>bt_quotes := qs\<rparr>) = directions facts"
  "fill_call (facts\<lparr>bt_quotes := qs\<rparr>) = fill_call facts" "baseline_calls (facts\<lparr>bt_quotes := qs\<rparr>) = baseline_calls facts"
proof -
  have b: "quote_block (facts\<lparr>bt_quotes := qs\<rparr>) = quote_block facts" by (rule ext) (simp add: quote_block_def cong: option.case_cong)
  have s: "direction_step (facts\<lparr>bt_quotes := qs\<rparr>) = direction_step facts" by (intro ext) (simp only: direction_step_def b)
  have d: "directions (facts\<lparr>bt_quotes := qs\<rparr>) = directions facts" by (simp add: directions_def s)
  have f: "fill_call (facts\<lparr>bt_quotes := qs\<rparr>) = fill_call facts" by (rule ext) (simp add: fill_call_def b)
  show "quote_block (facts\<lparr>bt_quotes := qs\<rparr>) = quote_block facts" "directions (facts\<lparr>bt_quotes := qs\<rparr>) = directions facts"
    "fill_call (facts\<lparr>bt_quotes := qs\<rparr>) = fill_call facts" "baseline_calls (facts\<lparr>bt_quotes := qs\<rparr>) = baseline_calls facts"
    by (simp_all add: b d f baseline_calls_def)
qed

lemma receipt_quotes:
  assumes "\<forall>c\<in>fill_call facts ` set (bt_fills facts) \<union> direction_call ` set (directions facts). quote_of_call facts (ctx\<lparr>rc_quote := ask\<rparr>) c = quote_of_call facts ctx c"
  shows "build_receipt b facts (ctx\<lparr>rc_quote := ask\<rparr>) = build_receipt b facts ctx"
proof -
  let ?ctx = "ctx\<lparr>rc_quote := ask\<rparr>"
  have token: "token_ref_of ?ctx = token_ref_of ctx" by (rule ext) (simp add: token_ref_of_def)
  have fill: "fill_receipt_of facts ?ctx (f, a) = fill_receipt_of facts ctx (f, a)" if "f \<in> set (bt_fills facts)" for f a
    using assms that by (simp add: fill_receipt_of_def token split: prod.split)
  have floor: "map (floor_of facts ?ctx) (directions facts) = map (floor_of facts ctx) (directions facts)"
    by (rule map_cong [OF refl]) (use assms in \<open>simp add: floor_of_def token\<close>)
  have fills: "map (fill_receipt_of facts ?ctx) (zip (bt_fills facts) as) = map (fill_receipt_of facts ctx) (zip (bt_fills facts) as)" for as
    by (rule map_cong [OF refl]) (use fill in \<open>auto dest: set_zip_leftD\<close>)
  have prices: "clearing_row_of ?ctx = clearing_row_of ctx" by (rule ext) (simp add: clearing_row_of_def token)
  have routes: "venue_row_of facts ?ctx = venue_row_of facts ctx" by (rule ext) (simp add: venue_row_of_def token)
  show ?thesis by (simp only: build_receipt_def floor fills prices routes)
qed

section \<open>What the receipt promises\<close>

text \<open>
  Attribution is exact: each fill's netted and routed parts are not negative and add up to what it
  sold; in each direction the routed parts never exceed what the venue took, and as long as the venue
  took no more than the fills sold they miss it by less than one unit per fill.
\<close>

theorem attribution_exact:
  assumes "\<forall>g\<in>set fills. 0 \<le> snd (snd g)" "\<forall>g\<in>set routes. 0 \<le> snd (snd g)" "f \<in> set fills"
  shows "(\<exists>netted r. attribute_fill fills routes f = (netted, r) \<and> 0 \<le> netted \<and> 0 \<le> r \<and> netted + r = snd (snd f))
    \<and> routed_of fills routes f \<le> flow_total f routes
    \<and> (flow_total f routes \<le> flow_total f fills \<and> 0 < flow_total f fills
         \<longrightarrow> flow_total f routes < routed_of fills routes f + int (length (filter (\<lambda>g. same_flow g f) fills)))"
proof -
  have "\<exists>netted r. attribute_fill fills routes f = (netted, r) \<and> 0 \<le> netted \<and> 0 \<le> r \<and> netted + r = snd (snd f)"
    using attribute_parts(1-3) [OF assms(3,1,2)] by (cases "attribute_fill fills routes f") auto
  then show ?thesis
    using routed_bounds [OF assms(1,2), of f] by blast
qed

text \<open>
  C32. What is recorded when a batch settles is all a receipt needs: if every quote the recorder asked
  for was answered, by the adapter the receipt names, then the receipt built from the stored rows is
  the same whatever the node answers later, or if it answers nothing.
\<close>

theorem recorded_receipt_needs_no_node:
  assumes "\<forall>c\<in>set (baseline_calls facts). \<exists>a. adapterAt (bc_block c) = Some a \<and> lower a = lower (rc_baselineAdapter ctx) \<and> ask a c \<noteq> None"
  shows "build_receipt b (facts\<lparr>bt_quotes := record_baselines adapterAt ask facts\<rparr>) (ctx\<lparr>rc_quote := node\<rparr>)
    = build_receipt b (facts\<lparr>bt_quotes := record_baselines adapterAt ask facts\<rparr>) ctx"
proof -
  let ?facts = "facts\<lparr>bt_quotes := record_baselines adapterAt ask facts\<rparr>"
  have "\<forall>c\<in>set (baseline_calls ?facts). recorded ?facts (rc_baselineAdapter ctx) c"
    using record_baselines_recorded [of facts adapterAt ask "rc_baselineAdapter ctx"] assms by (simp add: with_quotes asked_def)
  then show ?thesis by (intro receipt_quotes ballI) (rule quote_recorded)
qed

section \<open>Both properties at a concrete batch\<close>

lemma attribution_exact_witness:
  "attribute_fill [(''a'', ''b'', 3), (''A'', ''b'', 4)] [(''a'', ''B'', 5)] (''a'', ''b'', 3) = (1, 2)
    \<and> routed_of [(''a'', ''b'', 3), (''A'', ''b'', 4)] [(''a'', ''B'', 5)] (''a'', ''b'', 3) \<le> 5
    \<and> 5 < routed_of [(''a'', ''b'', 3), (''A'', ''b'', 4)] [(''a'', ''B'', 5)] (''a'', ''b'', 3) + 2"
proof -
  let ?fills = "[(''a'', ''b'', 3), (''A'', ''b'', 4)] :: flow list" and ?routes = "[(''a'', ''B'', 5)] :: flow list"
  let ?f = "(''a'', ''b'', 3) :: flow"
  have v: "attribute_fill ?fills ?routes ?f = (1, 2)" "flow_total ?f ?routes = 5" "flow_total ?f ?fills = 7"
    "int (length (filter (\<lambda>g. same_flow g ?f) ?fills)) = 2" by code_simp+
  have "\<forall>g\<in>set ?fills. 0 \<le> snd (snd g)" "\<forall>g\<in>set ?routes. 0 \<le> snd (snd g)" "?f \<in> set ?fills" by simp_all
  from attribution_exact [OF this] show ?thesis unfolding v by simp
qed

text \<open>A batch with one fill and no winner on record, its quote answered and then reverting on the node.\<close>

definition sample_place :: row_place where
  "sample_place = \<lparr>pl_chainId = 1, pl_block = 100, pl_timestamp = 5000, pl_txHash = ''0x01'', pl_logIndex = 2\<rparr>"

definition sample_facts :: batch_facts where
  "sample_facts = \<lparr>bt_batch = Some \<lparr>bf_outcome = ''settled'', bf_reason = None, bf_intentCount = 1, bf_nettedUsd = Some 7, bf_routedUsd = Some 3, bf_savingsUsd = Some 1,
       bf_solverFeeUsd = None, bf_protocolFeeUsd = None, bf_solver = None, bf_place = sample_place\<rparr>,
     bt_fills = [\<lparr>ff_intentHash = ''0xab'', ff_owner = ''0x0a'', ff_sell = ''0x0c'', ff_buy = ''0x0d'', ff_executedSell = 10, ff_executedBuy = 22,
       ff_baselineBuy = 20, ff_savingsUsd = 1, ff_place = sample_place\<rparr>],
     bt_prices = [], bt_solutions = [], bt_venueRoutes = [], bt_collectionFailures = [], bt_winning = None, bt_quotes = []\<rparr>"

definition sample_context :: receipt_context where
  "sample_context = \<lparr>rc_tokens = (\<lambda>_. None), rc_quoteToken = ''0x0d'', rc_explorer = [], rc_baselineAdapter = ''0xAD'', rc_maxDeviationBps = 100, rc_quote = (\<lambda>_ _ _ _. None)\<rparr>"

lemma recorded_receipt_needs_no_node_witness:
  "build_receipt 7 (sample_facts\<lparr>bt_quotes := record_baselines (\<lambda>_. Some ''0xad'') (\<lambda>_ _. Some (Some 20)) sample_facts\<rparr>)
      (sample_context\<lparr>rc_quote := \<lambda>_ _ _ _. Some None\<rparr>)
    = build_receipt 7 (sample_facts\<lparr>bt_quotes := record_baselines (\<lambda>_. Some ''0xad'') (\<lambda>_ _. Some (Some 20)) sample_facts\<rparr>) sample_context
   \<and> length (baseline_calls sample_facts) = 1"
proof -
  have "lower ''0xad'' = lower (rc_baselineAdapter sample_context)" by code_simp
  then have "\<forall>c\<in>set (baseline_calls sample_facts). \<exists>a. Some ''0xad'' = Some a \<and> lower a = lower (rc_baselineAdapter sample_context) \<and> Some (Some (20 :: int)) \<noteq> None"
    by simp
  moreover have "length (baseline_calls sample_facts) = 1" by code_simp
  ultimately show ?thesis
    using recorded_receipt_needs_no_node [of sample_facts "\<lambda>_. Some ''0xad''" sample_context "\<lambda>_ _. Some (Some 20)" 7 "\<lambda>_ _ _ _. Some None"] by simp
qed

end
