(* ===== verification/Solve.thy ===== *)
theory Solve
  imports ClearingFills Decimal
begin

text \<open>
  solver/src/solve.ts, with the checks of simulate.ts and baseline.ts a solution meets before it is
  sent: from signed intents and the prices of one block to a solution. \<open>quotes\<close> is the venue, read at
  that block: an exception, a revert by name, or what the amount returns. The properties compose the
  clearing, the allocation, the floor and the routing.
\<close>

section \<open>Inputs\<close>

type_synonym quotes = "address \<Rightarrow> address \<Rightarrow> int \<Rightarrow> js_error + (string + int)"

record signed_order =
  sg_intent :: intent
  sg_signature :: hex

record oracle_row =
  or_price :: int
  or_healthy :: bool

record inputs =
  np_block :: int
  np_session :: int
  np_maxDeviationBps :: int
  np_oracle :: "(string \<times> (string + oracle_row)) list"

text \<open>The reads of one block: a session read throws as it fails, a price read leaves the first line of its message.\<close>

record block_reads =
  br_sessionAt :: "int \<Rightarrow> js_error + int"
  br_maxDeviationBps :: "int \<Rightarrow> js_error + int"
  br_refPrice :: "address \<Rightarrow> string + int \<times> bool"
  br_decimals :: "address \<Rightarrow> string + nat"

definition oracle_entry :: "block_reads \<Rightarrow> address \<Rightarrow> string + oracle_row" where
  "oracle_entry reads token =
     bindE (br_refPrice reads token) (\<lambda>(price, healthy).
       bindE (br_decimals reads token) (\<lambda>decimals.
         Inr \<lparr>or_price = price * WAD sdiv 10 ^ decimals, or_healthy = healthy\<rparr>))"

definition read_inputs :: "block_reads \<Rightarrow> int \<Rightarrow> address list \<Rightarrow> int \<Rightarrow> js_error + inputs" where
  "read_inputs reads batchId tokens block =
     bindE (br_sessionAt reads batchId) (\<lambda>session.
       bindE (br_maxDeviationBps reads session) (\<lambda>maxDeviationBps.
         Inr \<lparr>np_block = block, np_session = session, np_maxDeviationBps = maxDeviationBps,
              np_oracle = foldl (\<lambda>oracle t. AList.update (lower t) (oracle_entry reads t) oracle) [] tokens\<rparr>))"

definition oracle_of :: "inputs \<Rightarrow> address \<Rightarrow> oracle_row option" where
  "oracle_of inp token =
     (case map_of (np_oracle inp) (lower token) of
        Some (Inr row) \<Rightarrow> if or_healthy row then Some row else None
      | _ \<Rightarrow> None)"

section \<open>Outcomes\<close>

datatype mode = Netted | Routed | Skipped

record pair_outcome =
  po_base :: address
  po_mode :: mode
  po_reason :: "string option"
  po_fills :: "fill list"
  po_baselines :: "(nat \<times> int) list"
  po_basePrice :: int
  po_venueCalls :: "venue_call list"

definition skipped :: "pair \<Rightarrow> string \<Rightarrow> pair_outcome" where
  "skipped pair reason =
     \<lparr>po_base = p_base pair, po_mode = Skipped, po_reason = Some reason, po_fills = [], po_baselines = [],
      po_basePrice = 0, po_venueCalls = []\<rparr>"

text \<open>A block of the code ends with a value, leaves with \<^verbatim>\<open>return skipped(...)\<close>, or throws.\<close>

datatype stop = Skip string | Throws js_error

fun throwing :: "js_error + 'a \<Rightarrow> stop + 'a" where
  "throwing (Inl e) = Inl (Throws e)"
| "throwing (Inr v) = Inr v"

fun finish :: "pair \<Rightarrow> stop + pair_outcome \<Rightarrow> js_error + pair_outcome" where
  "finish pair (Inl (Skip reason)) = Inr (skipped pair reason)"
| "finish pair (Inl (Throws e)) = Inl e"
| "finish pair (Inr out) = Inr out"

definition ask_quote :: "quotes \<Rightarrow> (string \<Rightarrow> string) \<Rightarrow> address \<Rightarrow> address \<Rightarrow> int \<Rightarrow> stop + int" where
  "ask_quote q reason tokenIn tokenOut amount =
     bindE (throwing (q tokenIn tokenOut amount)) (\<lambda>v.
       case v of Inl err \<Rightarrow> Inl (Skip (reason err)) | Inr out \<Rightarrow> Inr out)"

fun error_message :: "js_error \<Rightarrow> string" where
  "error_message (Thrown s) = s"
| "error_message RangeError = ''RangeError''"
| "error_message TypeError = ''TypeError''"

section \<open>Netting a pair\<close>

text \<open>\<^verbatim>\<open>byIndex.get(...)!\<close> and \<^verbatim>\<open>baselines.get(...)!\<close> of a key that is not there give undefined, and its use throws.\<close>

definition intent_at :: "pair \<Rightarrow> nat \<Rightarrow> stop + intent" where
  "intent_at pair k =
     (case map_of (rev (map (\<lambda>e. (b_index e, b_intent e)) (p_entries pair))) k of
        None \<Rightarrow> Inl (Throws TypeError) | Some i \<Rightarrow> Inr i)"

definition baseline_at :: "(nat \<times> int) list \<Rightarrow> nat \<Rightarrow> stop + int" where
  "baseline_at baselines k = (case map_of baselines k of None \<Rightarrow> Inl (Throws TypeError) | Some v \<Rightarrow> Inr v)"

definition quote_fill :: "quotes \<Rightarrow> pair \<Rightarrow> (nat \<times> int) list \<Rightarrow> fill \<Rightarrow> stop + (nat \<times> int) list" where
  "quote_fill q pair baselines f =
     bindE (intent_at pair (f_index f)) (\<lambda>i.
       bindE (ask_quote q (\<lambda>err. ''the venue cannot quote intent '' @ decimal (int (f_index f)) @ '': '' @ err)
                (i_sellToken i) (i_buyToken i) (f_executedSell f)) (\<lambda>out.
         if f_executedBuy f < out
         then Inl (Skip (''intent '' @ decimal (int (f_index f)) @ '' would get less than the venue gives, WorseThanBaseline''))
         else Inr (AList.update (f_index f) out baselines)))"

text \<open>One direction of the pair, named by the lower case of the token it sells.\<close>

definition sells_token :: "pair \<Rightarrow> string \<Rightarrow> fill \<Rightarrow> bool" where
  "sells_token pair sellToken f =
     (case intent_at pair (f_index f) of Inl _ \<Rightarrow> False | Inr i \<Rightarrow> same (i_sellToken i) sellToken)"

definition lift_direction :: "quotes \<Rightarrow> pair \<Rightarrow> fill list \<Rightarrow> (nat \<times> int) list \<Rightarrow> string \<Rightarrow> stop + (nat \<times> int) list" where
  "lift_direction q pair fills baselines sellToken =
     (let direction = filter (sells_token pair sellToken) fills in
      bindE (intent_at pair (f_index (hd direction))) (\<lambda>first.
        bindE (ask_quote q (\<lambda>err. ''the venue cannot quote the floor for '' @ sellToken @ '': '' @ err)
                 sellToken (i_buyToken first) (\<Sum>f\<leftarrow>direction. f_executedSell f)) (\<lambda>floor.
          bindE (mapE (\<lambda>f. baseline_at baselines (f_index f)) direction) (\<lambda>bs.
            bindE (throwing (raise_to_floor bs (map f_executedBuy direction) floor)) (\<lambda>raised.
              case raised of
                None \<Rightarrow> Inl (Skip ''the fills leave no room to lift their baselines to the venue floor, BaselineBelowVenue'')
              | Some rs \<Rightarrow> Inr (foldl (\<lambda>m (f, r). AList.update (f_index f) r m) baselines (zip direction rs)))))))"

definition route_async :: "pair \<Rightarrow> fill list \<Rightarrow> address \<Rightarrow> (venue_need \<Rightarrow> js_error + int) \<Rightarrow> js_error + venue_call list \<times> residual" where
  "route_async pair fills adapter minOut =
     bindE (route pair fills adapter n_needOut) (\<lambda>probe.
       case fst probe of
         [] \<Rightarrow> Inr probe
       | call # _ \<Rightarrow>
           bindE (minOut \<lparr>n_tokenIn = v_tokenIn call, n_tokenOut = v_tokenOut call, n_amountIn = v_amountIn call, n_needOut = v_minOut call\<rparr>)
             (\<lambda>resolved. route pair fills adapter (\<lambda>_. resolved)))"

text \<open>A venue that reverts on the residual counts as returning nothing, and its name is the reason given.\<close>

definition residual_quote :: "quotes \<Rightarrow> venue_need \<Rightarrow> js_error + int" where
  "residual_quote q need =
     bindE (q (n_tokenIn need) (n_tokenOut need) (n_amountIn need)) (\<lambda>v. Inr (case v of Inl _ \<Rightarrow> 0 | Inr out \<Rightarrow> out))"

definition quote_error :: "quotes \<Rightarrow> pair \<Rightarrow> fill list \<Rightarrow> address \<Rightarrow> string option" where
  "quote_error q pair fills adapter =
     (case route pair fills adapter n_needOut of
        Inr (call # _, _) \<Rightarrow>
          (case q (v_tokenIn call) (v_tokenOut call) (v_amountIn call) of Inr (Inl err) \<Rightarrow> Some err | _ \<Rightarrow> None)
      | _ \<Rightarrow> None)"

definition directions_of :: "pair \<Rightarrow> fill list \<Rightarrow> stop + string list" where
  "directions_of pair fills =
     bindE (mapE (\<lambda>f. intent_at pair (f_index f)) fills) (\<lambda>is. Inr (rev (remdups (rev (map (\<lambda>i. lower (i_sellToken i)) is)))))"

definition net_fills :: "quotes \<Rightarrow> address \<Rightarrow> pair \<Rightarrow> allocation \<Rightarrow> stop + pair_outcome" where
  "net_fills q adapter pair a =
     bindE (foldE (quote_fill q pair) [] (a_fills a)) (\<lambda>quoted.
       bindE (directions_of pair (a_fills a)) (\<lambda>sellTokens.
         bindE (foldE (lift_direction q pair (a_fills a)) quoted sellTokens) (\<lambda>baselines.
           case route_async pair (a_fills a) adapter (residual_quote q) of
             Inl e \<Rightarrow> Inl (Skip (case quote_error q pair (a_fills a) adapter of Some err \<Rightarrow> err | None \<Rightarrow> error_message e))
           | Inr routed \<Rightarrow>
               Inr \<lparr>po_base = p_base pair, po_mode = Netted, po_reason = None, po_fills = a_fills a, po_baselines = baselines,
                    po_basePrice = a_basePrice a, po_venueCalls = fst routed\<rparr>)))"

definition netted_steps :: "quotes \<Rightarrow> address \<Rightarrow> pair \<Rightarrow> reference \<Rightarrow> stop + pair_outcome" where
  "netted_steps q adapter pair ref =
     bindE (throwing (clear pair ref)) (\<lambda>clearing.
       case clearing of
         None \<Rightarrow> Inl (Skip ''no price in the band crosses the two sides'')
       | Some c \<Rightarrow>
           if c_executable c = 0 then Inl (Skip ''no price in the band crosses the two sides'')
           else bindE (throwing (allocate pair c ref 0)) (\<lambda>a.
             if a_fills a = [] then Inl (Skip ''the crossing leaves no fill the verifier would take'')
             else net_fills q adapter pair a))"

definition try_netted :: "quotes \<Rightarrow> address \<Rightarrow> pair \<Rightarrow> reference \<Rightarrow> js_error + pair_outcome" where
  "try_netted q adapter pair ref = finish pair (netted_steps q adapter pair ref)"

section \<open>Routing a side\<close>

text \<open>What the venue gave is shared by volume, the last intent taking what is left.\<close>

fun split_volume :: "int \<Rightarrow> int \<Rightarrow> int \<Rightarrow> book_entry list \<Rightarrow> js_error + fill list" where
  "split_volume out tot given [] = Inr []"
| "split_volume out tot given [e] =
     Inr [\<lparr>f_index = b_index e, f_executedSell = i_sellAmount (b_intent e), f_executedBuy = out - given\<rparr>]"
| "split_volume out tot given (e # d # es) =
     (if tot = 0 then Inl RangeError
      else let executedBuy = out * i_sellAmount (b_intent e) sdiv tot
           in bindE (split_volume out tot (given + executedBuy) (d # es)) (\<lambda>fs.
                Inr (\<lparr>f_index = b_index e, f_executedSell = i_sellAmount (b_intent e), f_executedBuy = executedBuy\<rparr> # fs)))"

definition breaks_limit :: "book_entry list \<Rightarrow> fill \<Rightarrow> bool" where
  "breaks_limit side f =
     (case find (\<lambda>e. b_index e = f_index f) side of
        None \<Rightarrow> False
      | Some e \<Rightarrow> f_executedBuy f = 0
          \<or> \<not> limit_respected (f_executedBuy f) (i_sellAmount (b_intent e)) (i_minBuyAmount (b_intent e)) (f_executedSell f))"

definition implied_price :: "bool \<Rightarrow> reference \<Rightarrow> fill \<Rightarrow> js_error + int" where
  "implied_price buying ref f =
     (if buying
      then (if f_executedBuy f = 0 then Inl RangeError else Inr (f_executedSell f * r_quotePrice ref sdiv f_executedBuy f))
      else (if f_executedSell f = 0 then Inl RangeError
            else Inr ((f_executedBuy f * r_quotePrice ref + f_executedSell f - 1) sdiv f_executedSell f)))"

definition worst_price :: "bool \<Rightarrow> int list \<Rightarrow> int" where
  "worst_price buying implied =
     (if buying then foldl (\<lambda>a b. if a < b then a else b) (hd implied) (tl implied)
      else foldl (\<lambda>a b. if a > b then a else b) (hd implied) (tl implied))"

definition at_uniform_price :: "bool \<Rightarrow> int \<Rightarrow> int \<Rightarrow> fill \<Rightarrow> bool" where
  "at_uniform_price buying quotePrice basePrice f =
     (case (if buying then (quotePrice, basePrice) else (basePrice, quotePrice)) of (sp, bp) \<Rightarrow>
        uniform_price_holds (f_executedSell f) (f_executedBuy f) sp bp FEE_CAP_NOTIONAL_BPS)"

definition routed_outcome :: "address \<Rightarrow> pair \<Rightarrow> reference \<Rightarrow> bool \<Rightarrow> address \<Rightarrow> address \<Rightarrow> int \<Rightarrow> int \<Rightarrow> fill list \<Rightarrow> stop + pair_outcome" where
  "routed_outcome adapter pair ref buying tokenIn tokenOut tot out fills =
     bindE (throwing (mapE (implied_price buying ref) fills)) (\<lambda>implied.
       let basePrice = worst_price buying implied in
       if \<not> within_band basePrice (r_basePrice ref) (r_maxDeviationBps ref)
       then Inl (Skip ''the venue price is outside the session band, PriceOutsideBand'')
       else case find (\<lambda>f. \<not> at_uniform_price buying (r_quotePrice ref) basePrice f) fills of
              Some f \<Rightarrow> Inl (Skip (''intent '' @ decimal (int (f_index f)) @ '' breaks the uniform price at the venue price, NonUniformPrice''))
            | None \<Rightarrow>
                Inr \<lparr>po_base = p_base pair, po_mode = Routed, po_reason = None, po_fills = fills,
                     po_baselines = map (\<lambda>f. (f_index f, f_executedBuy f)) fills, po_basePrice = basePrice,
                     po_venueCalls = [\<lparr>v_adapter = adapter, v_tokenIn = tokenIn, v_tokenOut = tokenOut, v_amountIn = tot, v_minOut = out\<rparr>]\<rparr>)"

fun route_passes :: "nat \<Rightarrow> quotes \<Rightarrow> address \<Rightarrow> pair \<Rightarrow> reference \<Rightarrow> bool \<Rightarrow> address \<Rightarrow> address \<Rightarrow> book_entry list \<Rightarrow> stop + pair_outcome" where
  "route_passes 0 q adapter pair ref buying tokenIn tokenOut side = Inl (Skip ''every intent's limit is above what the venue gives'')"
| "route_passes (Suc n) q adapter pair ref buying tokenIn tokenOut side =
     (if side = [] then Inl (Skip ''every intent's limit is above what the venue gives'')
      else let tot = (\<Sum>e\<leftarrow>side. i_sellAmount (b_intent e)) in
        bindE (ask_quote q (\<lambda>err. ''the venue cannot quote the routed volume: '' @ err) tokenIn tokenOut tot) (\<lambda>out.
          bindE (throwing (split_volume out tot 0 side)) (\<lambda>fills.
            case find (breaks_limit side) fills of
              Some broken \<Rightarrow> route_passes n q adapter pair ref buying tokenIn tokenOut (filter (\<lambda>e. b_index e \<noteq> f_index broken) side)
            | None \<Rightarrow> routed_outcome adapter pair ref buying tokenIn tokenOut tot out fills)))"

definition side_of :: "pair \<Rightarrow> bool \<Rightarrow> book_entry list" where
  "side_of pair buying = filter (\<lambda>e. same (i_sellToken (b_intent e)) (p_quote pair) = buying) (p_entries pair)"

definition side_usd :: "book_entry list \<Rightarrow> int \<Rightarrow> int" where
  "side_usd es price = (\<Sum>e\<leftarrow>es. i_sellAmount (b_intent e) * price sdiv WAD)"

definition try_routed :: "quotes \<Rightarrow> address \<Rightarrow> pair \<Rightarrow> reference \<Rightarrow> js_error + pair_outcome" where
  "try_routed q adapter pair ref =
     (let buys = side_of pair True; sells = side_of pair False;
          buying = (side_usd buys (r_quotePrice ref) \<ge> side_usd sells (r_basePrice ref));
          side = (if buying then buys else sells)
      in if side = [] then Inr (skipped pair ''nothing to route'')
         else finish pair (route_passes (length (p_entries pair) + 1) q adapter pair ref buying
                (if buying then p_quote pair else p_base pair) (if buying then p_base pair else p_quote pair) side))"

section \<open>Routing everything\<close>

fun joined :: "string \<Rightarrow> string list \<Rightarrow> string" where
  "joined sep [] = []"
| "joined sep [s] = s"
| "joined sep (s # t # ss) = s @ sep @ joined sep (t # ss)"

definition first_amount :: "pair_outcome \<Rightarrow> int" where
  "first_amount out = (case po_venueCalls out of [] \<Rightarrow> 0 | v # _ \<Rightarrow> v_amountIn v)"

definition merge_routed :: "pair \<Rightarrow> reference \<Rightarrow> pair_outcome \<Rightarrow> pair_outcome \<Rightarrow> pair_outcome" where
  "merge_routed pair ref buy sell =
     (let price = po_basePrice buy; fills = po_fills buy @ po_fills sell;
          selling = (\<lambda>f. list_ex (\<lambda>e. b_index e = f_index f) (side_of pair False))
      in if list_ex (\<lambda>f. \<not> at_uniform_price (\<not> selling f) (r_quotePrice ref) price f) fills
         then (if first_amount buy * r_quotePrice ref \<ge> first_amount sell * r_basePrice ref then buy else sell)
         else \<lparr>po_base = p_base pair, po_mode = Routed, po_reason = None, po_fills = fills,
               po_baselines = foldl (\<lambda>m (k, v). AList.update k v m) [] (po_baselines buy @ po_baselines sell),
               po_basePrice = price, po_venueCalls = po_venueCalls buy @ po_venueCalls sell\<rparr>)"

definition route_everything :: "quotes \<Rightarrow> address \<Rightarrow> pair \<Rightarrow> reference \<Rightarrow> js_error + pair_outcome" where
  "route_everything q adapter pair ref =
     bindE (mapE (\<lambda>es. try_routed q adapter (pair\<lparr>p_entries := es\<rparr>) ref) (filter (\<lambda>s. s \<noteq> []) [side_of pair True, side_of pair False])) (\<lambda>sides.
       Inr (case filter (\<lambda>out. po_mode out = Routed) sides of
              [] \<Rightarrow> skipped pair (joined ''; '' (map (\<lambda>out. case po_reason out of Some r \<Rightarrow> r | None \<Rightarrow> []) sides))
            | [out] \<Rightarrow> out
            | buy # sell # _ \<Rightarrow> merge_routed pair ref buy sell))"

section \<open>The solution\<close>

definition oracle_price :: "inputs \<Rightarrow> address \<Rightarrow> js_error + int" where
  "oracle_price inp t = (case map_of (np_oracle inp) (lower t) of Some (Inr row) \<Rightarrow> Inr (or_price row) | _ \<Rightarrow> Inl TypeError)"

definition assemble :: "int \<Rightarrow> signed_order list \<Rightarrow> address \<Rightarrow> address \<Rightarrow> inputs \<Rightarrow> pair_outcome list \<Rightarrow> js_error + solution" where
  "assemble batchId signed quoteToken solver inp outcomes =
     (let used = js_sort (\<lambda>a b. int (f_index a) - int (f_index b)) (concat (map po_fills outcomes));
          position = map_of (rev (map (\<lambda>(n, f). (f_index f, n)) (enumerate 0 used)));
          basePrice = map_of (rev (map (\<lambda>out. (lower (po_base out), po_basePrice out)) (filter (\<lambda>out. po_mode out \<noteq> Skipped) outcomes)));
          baselineByIndex = map_of (rev (concat (map po_baselines outcomes)))
      in bindE (mapE (\<lambda>f. read_at signed (f_index f)) used) (\<lambda>rows.
           let intents = map sg_intent rows;
               tokens = (if intents = [] then [] else order_tokens intents quoteToken)
           in bindE (mapE (\<lambda>t. if same t quoteToken then oracle_price inp t
                              else case basePrice (lower t) of Some p \<Rightarrow> Inr p | None \<Rightarrow> Inl TypeError) tokens) (\<lambda>prices.
                bindE (mapE (\<lambda>f. case position (f_index f) of None \<Rightarrow> Inl TypeError
                           | Some n \<Rightarrow> Inr \<lparr>e_intentIndex = int n, e_executedSell = f_executedSell f, e_executedBuy = f_executedBuy f\<rparr>) used) (\<lambda>executions.
                  bindE (mapE (\<lambda>f. case baselineByIndex (f_index f) of None \<Rightarrow> Inl TypeError | Some v \<Rightarrow> Inr v) used) (\<lambda>baselineQuotes.
                    bindE (if intents = [] then Inr 0 else claimed_savings executions baselineQuotes prices intents tokens) (\<lambda>savings.
                      Inr \<lparr>s_batchId = batchId, s_intents = intents, s_signatures = map sg_signature rows, s_tokens = tokens, s_prices = prices,
                           s_executions = executions, s_venueCalls = concat (map po_venueCalls outcomes), s_baselineQuotes = baselineQuotes,
                           s_claimedSavings = savings, s_solver = solver\<rparr>))))))"

datatype profile = Profile_a | Profile_b

record solver_plan =
  sp_solution :: solution
  sp_pairs :: "pair_outcome list"
  sp_unsupported :: "nat list"

definition solve_pair :: "quotes \<Rightarrow> address \<Rightarrow> inputs \<Rightarrow> profile \<Rightarrow> pair \<Rightarrow> js_error + pair_outcome" where
  "solve_pair q adapter inp profile pair =
     (case (oracle_of inp (p_quote pair), oracle_of inp (p_base pair)) of
        (Some qr, Some br) \<Rightarrow>
          let ref = \<lparr>r_quotePrice = or_price qr, r_basePrice = or_price br, r_maxDeviationBps = np_maxDeviationBps inp\<rparr> in
          if profile = Profile_b then route_everything q adapter pair ref
          else bindE (try_netted q adapter pair ref) (\<lambda>netted.
            if po_mode netted = Netted then Inr netted
            else bindE (try_routed q adapter pair ref) (\<lambda>routed.
              Inr (if po_mode routed = Routed then routed
                   else routed\<lparr>po_reason := Some ((case po_reason netted of Some r \<Rightarrow> r | None \<Rightarrow> []) @ '', and routing failed too: ''
                          @ (case po_reason routed of Some r \<Rightarrow> r | None \<Rightarrow> []))\<rparr>)))
      | _ \<Rightarrow> Inr (skipped pair ''a token in the pair has no healthy oracle price, Settlement would revert OracleUnhealthy''))"

definition solve :: "quotes \<Rightarrow> address \<Rightarrow> int \<Rightarrow> signed_order list \<Rightarrow> address \<Rightarrow> address \<Rightarrow> inputs \<Rightarrow> profile \<Rightarrow> js_error + solver_plan" where
  "solve q adapter batchId signed quoteToken solver inp profile =
     (let (pairs, unsupported) = pairs_of (map sg_intent signed) quoteToken in
      bindE (mapE (solve_pair q adapter inp profile) pairs) (\<lambda>outcomes.
        bindE (assemble batchId signed quoteToken solver inp outcomes) (\<lambda>s.
          Inr \<lparr>sp_solution = s, sp_pairs = outcomes, sp_unsupported = unsupported\<rparr>)))"

section \<open>A pair's book\<close>

text \<open>What \<open>pairs_of\<close> builds from signed intents that sell something: each entry exchanges the pair's two tokens.\<close>

definition trades :: "pair \<Rightarrow> intent \<Rightarrow> bool" where
  "trades pair i \<longleftrightarrow> (if same (i_sellToken i) (p_quote pair) then same (i_buyToken i) (p_base pair)
     else same (i_sellToken i) (p_base pair) \<and> same (i_buyToken i) (p_quote pair))"

definition book_ok :: "pair \<Rightarrow> bool" where
  "book_ok pair \<longleftrightarrow> valid_pair pair \<and> \<not> same (p_base pair) (p_quote pair)
     \<and> (\<forall>e\<in>set (p_entries pair). 0 < i_sellAmount (b_intent e) \<and> trades pair (b_intent e))"

definition caseless :: "quotes \<Rightarrow> bool" where
  "caseless q \<longleftrightarrow> (\<forall>a b a' b' n. same a a' \<longrightarrow> same b b' \<longrightarrow> q a b n = q a' b' n)"

lemma caselessD: "caseless q \<Longrightarrow> same a a' \<Longrightarrow> same b b' \<Longrightarrow> q a' b' n = q a b n"
  unfolding caseless_def by metis

definition unsigned :: "quotes \<Rightarrow> bool" where
  "unsigned q \<longleftrightarrow> (\<forall>a b n out. q a b n = Inr (Inr out) \<longrightarrow> 0 \<le> out)"

text \<open>The intent a fill is of, and whether that intent buys the base token.\<close>

definition filled :: "pair \<Rightarrow> fill \<Rightarrow> intent \<Rightarrow> bool" where
  "filled pair f i \<longleftrightarrow> (\<exists>e\<in>set (p_entries pair). b_index e = f_index f \<and> b_intent e = i)"

definition buys_base :: "pair \<Rightarrow> fill \<Rightarrow> bool" where
  "buys_base pair f = sells_token pair (p_quote pair) f"

lemma intent_at_filled: "valid_pair pair \<Longrightarrow> filled pair f i \<Longrightarrow> intent_at pair (f_index f) = Inr i"
proof -
  assume v: "valid_pair pair" and "filled pair f i"
  then obtain e where e: "e \<in> set (p_entries pair)" "b_index e = f_index f" "b_intent e = i" by (auto simp: filled_def)
  have "map_of (rev (map (\<lambda>e. (b_index e, b_intent e)) (p_entries pair))) (b_index e) = Some (b_intent e)"
  proof (rule map_of_is_SomeI)
    show "distinct (map fst (rev (map (\<lambda>e. (b_index e, b_intent e)) (p_entries pair))))"
      using v by (simp add: valid_pair_def comp_def rev_map [symmetric])
    show "(b_index e, b_intent e) \<in> set (rev (map (\<lambda>e. (b_index e, b_intent e)) (p_entries pair)))"
      unfolding set_rev set_map using e(1) by (rule imageI)
  qed
  then show ?thesis by (simp add: intent_at_def e)
qed

lemma filled_unique: "valid_pair pair \<Longrightarrow> filled pair f i \<Longrightarrow> filled pair f j \<Longrightarrow> i = j"
  using intent_at_filled by (metis Inr_inject)

lemma sells_token_filled: "valid_pair pair \<Longrightarrow> filled pair f i \<Longrightarrow> sells_token pair tok f = same (i_sellToken i) tok"
  by (simp add: sells_token_def intent_at_filled)

text \<open>Either way a fill's sell token is one of the two, so naming a direction by it splits the fills by side.\<close>

lemma sells_token_side:
  assumes "book_ok pair" "filled pair f i" "filled pair g j" "same tok (i_sellToken i)"
  shows "sells_token pair tok g \<longleftrightarrow> buys_base pair g = buys_base pair f"
proof -
  have v: "valid_pair pair" "\<not> same (p_base pair) (p_quote pair)" "trades pair i" "trades pair j"
    using assms(1-3) by (auto simp: book_ok_def filled_def)
  show ?thesis
    unfolding buys_base_def sells_token_filled [OF v(1) assms(2)] sells_token_filled [OF v(1) assms(3)]
    using v(2-4) assms(4) by (auto simp: trades_def same_def split: if_splits)
qed

section \<open>What an outcome promises\<close>

text \<open>Every fill passes the verifier's checks of one execution at the outcome's price.\<close>

definition fill_ok :: "pair \<Rightarrow> reference \<Rightarrow> int \<Rightarrow> fill \<Rightarrow> intent \<Rightarrow> bool" where
  "fill_ok pair ref price f i \<longleftrightarrow> 0 < f_executedSell f \<and> f_executedSell f \<le> i_sellAmount i
     \<and> (f_executedSell f = i_sellAmount i \<or> partial_fill (i_flags i)) \<and> f_executedBuy f \<noteq> 0
     \<and> limit_respected (f_executedBuy f) (i_sellAmount i) (i_minBuyAmount i) (f_executedSell f)
     \<and> at_uniform_price (same (i_sellToken i) (p_quote pair)) (r_quotePrice ref) price f"

definition baseline_of :: "(nat \<times> int) list \<Rightarrow> fill \<Rightarrow> int" where
  "baseline_of m f = (case map_of m (f_index f) of Some v \<Rightarrow> v | None \<Rightarrow> 0)"

text \<open>Each fill has a baseline no larger than what it receives, and nothing else has one.\<close>

definition baselines_ok :: "(nat \<times> int) list \<Rightarrow> fill list \<Rightarrow> bool" where
  "baselines_ok m fills \<longleftrightarrow> distinct (map fst m) \<and> fst ` set m = f_index ` set fills
     \<and> (\<forall>f\<in>set fills. baseline_of m f \<le> f_executedBuy f)"

text \<open>The baselines of a direction add up to what the venue gives for its whole volume.\<close>

definition floor_ok :: "quotes \<Rightarrow> pair \<Rightarrow> (nat \<times> int) list \<Rightarrow> fill list \<Rightarrow> bool \<Rightarrow> bool" where
  "floor_ok q pair m fills buying \<longleftrightarrow>
     (let D = filter (\<lambda>f. buys_base pair f = buying) fills in D \<noteq> [] \<longrightarrow>
        (\<exists>out. q (if buying then p_quote pair else p_base pair) (if buying then p_base pair else p_quote pair)
                 (\<Sum>f\<leftarrow>D. f_executedSell f) = Inr (Inr out) \<and> out \<le> (\<Sum>f\<leftarrow>D. baseline_of m f)))"

text \<open>The balance of a token after the fills and the venue calls, as \<open>residual\<close> signs it.\<close>

definition base_net :: "pair \<Rightarrow> fill list \<Rightarrow> int" where
  "base_net pair fills = (\<Sum>f\<leftarrow>fills. if buys_base pair f then - f_executedBuy f else f_executedSell f)"

definition quote_net :: "pair \<Rightarrow> fill list \<Rightarrow> int" where
  "quote_net pair fills = (\<Sum>f\<leftarrow>fills. if buys_base pair f then f_executedSell f else - f_executedBuy f)"

definition call_net :: "address \<Rightarrow> venue_call list \<Rightarrow> int" where
  "call_net tok calls = (\<Sum>v\<leftarrow>calls. (if same (v_tokenOut v) tok then v_minOut v else 0) - (if same (v_tokenIn v) tok then v_amountIn v else 0))"

definition calls_ok :: "pair \<Rightarrow> fill list \<Rightarrow> venue_call list \<Rightarrow> bool" where
  "calls_ok pair fills calls \<longleftrightarrow>
     (\<forall>v\<in>set calls. (v_tokenIn v = p_quote pair \<and> v_tokenOut v = p_base pair) \<or> (v_tokenIn v = p_base pair \<and> v_tokenOut v = p_quote pair))
     \<and> 0 \<le> base_net pair fills + call_net (p_base pair) calls \<and> 0 \<le> quote_net pair fills + call_net (p_quote pair) calls"

definition outcome_ok :: "quotes \<Rightarrow> pair \<Rightarrow> reference \<Rightarrow> pair_outcome \<Rightarrow> bool" where
  "outcome_ok q pair ref out \<longleftrightarrow> po_base out = p_base pair \<and> po_fills out \<noteq> []
     \<and> within_band (po_basePrice out) (r_basePrice ref) (r_maxDeviationBps ref)
     \<and> distinct (map f_index (po_fills out))
     \<and> (\<forall>f\<in>set (po_fills out). \<exists>i. filled pair f i \<and> fill_ok pair ref (po_basePrice out) f i)
     \<and> baselines_ok (po_baselines out) (po_fills out)
     \<and> (\<forall>buying. floor_ok q pair (po_baselines out) (po_fills out) buying)
     \<and> calls_ok pair (po_fills out) (po_venueCalls out)"

text \<open>An outcome is either that or skipped, with nothing in it.\<close>

definition outcome_sound :: "quotes \<Rightarrow> pair \<Rightarrow> reference \<Rightarrow> pair_outcome \<Rightarrow> bool" where
  "outcome_sound q pair ref out \<longleftrightarrow>
     (if po_mode out = Skipped then po_fills out = [] \<and> po_venueCalls out = [] \<and> po_baselines out = [] else outcome_ok q pair ref out)"

lemma skipped_sound: "outcome_sound q pair ref (skipped pair reason)"
  by (simp add: outcome_sound_def skipped_def)

section \<open>Netting keeps the promise\<close>

lemma ask_quote_Inr: "ask_quote q r a b n = Inr out \<longleftrightarrow> q a b n = Inr (Inr out)"
  by (cases "q a b n") (auto simp: ask_quote_def split: sum.splits)

lemma throwing_Inr [simp]: "throwing m = Inr v \<longleftrightarrow> m = Inr v"
  by (cases m) auto

lemma baseline_of_update: "baseline_of (AList.update k v m) f = (if f_index f = k then v else baseline_of m f)"
  by (simp add: baseline_of_def)

lemma quote_fill_Inr:
  "quote_fill q pair m f = Inr m' \<longleftrightarrow> (\<exists>i out. intent_at pair (f_index f) = Inr i
     \<and> q (i_sellToken i) (i_buyToken i) (f_executedSell f) = Inr (Inr out) \<and> out \<le> f_executedBuy f
     \<and> m' = AList.update (f_index f) out m)"
  unfolding quote_fill_def bindE_Inr_iff ask_quote_Inr by (auto simp: not_less)

lemma quote_fills:
  assumes "foldE (quote_fill q pair) m fills = Inr m'" "distinct (map f_index fills)" "distinct (map fst m)"
  shows "distinct (map fst m') \<and> fst ` set m' = fst ` set m \<union> f_index ` set fills
    \<and> (\<forall>f\<in>set fills. baseline_of m' f \<le> f_executedBuy f)
    \<and> (\<forall>g. f_index g \<notin> f_index ` set fills \<longrightarrow> baseline_of m' g = baseline_of m g)"
  using assms
proof (induction fills arbitrary: m)
  case (Cons f fills)
  then obtain out where i: "out \<le> f_executedBuy f" "foldE (quote_fill q pair) (AList.update (f_index f) out m) fills = Inr m'"
    by (auto simp: quote_fill_Inr)
  then have IH: "distinct (map fst m') \<and> fst ` set m' = fst ` set (AList.update (f_index f) out m) \<union> f_index ` set fills
    \<and> (\<forall>f\<in>set fills. baseline_of m' f \<le> f_executedBuy f)
    \<and> (\<forall>g. f_index g \<notin> f_index ` set fills \<longrightarrow> baseline_of m' g = baseline_of (AList.update (f_index f) out m) g)"
    using Cons.prems by (intro Cons.IH) (auto simp: store_laws)
  have "f_index f \<notin> f_index ` set fills" using Cons.prems(2) by auto
  then have "baseline_of m' f = out" using IH by (simp add: baseline_of_update)
  then show ?case using IH i(1) by (auto simp: store_laws baseline_of_update)
qed simp

text \<open>Writing the raised baselines of a direction back.\<close>

lemma write_back:
  assumes "length rs = length D" "distinct (map f_index D)" "f_index ` set D \<subseteq> fst ` set m" "distinct (map fst m)"
  shows "let m' = foldl (\<lambda>m (f, r). AList.update (f_index f) r m) m (zip D rs) in
    distinct (map fst m') \<and> fst ` set m' = fst ` set m \<and> map (baseline_of m') D = rs
    \<and> (\<forall>g. f_index g \<notin> f_index ` set D \<longrightarrow> baseline_of m' g = baseline_of m g)"
  using assms
proof (induction D arbitrary: m rs)
  case (Cons f D)
  obtain r rs' where rs: "rs = r # rs'" using Cons.prems(1) by (cases rs) auto
  let ?m = "AList.update (f_index f) r m" and ?m' = "foldl (\<lambda>m (f, r). AList.update (f_index f) r m) m (zip (f # D) rs)"
  have fresh: "f_index f \<notin> f_index ` set D" using Cons.prems(2) by auto
  have "distinct (map fst ?m') \<and> fst ` set ?m' = fst ` set ?m \<and> map (baseline_of ?m') D = rs'
    \<and> (\<forall>g. f_index g \<notin> f_index ` set D \<longrightarrow> baseline_of ?m' g = baseline_of ?m g)"
    using Cons.IH [of rs' ?m] Cons.prems rs by (simp add: Let_def store_laws subset_insertI2)
  moreover have "fst ` set ?m = fst ` set m" using Cons.prems(3) by (simp add: store_laws insert_absorb)
  ultimately show ?case using fresh rs by (auto simp: Let_def baseline_of_update)
qed (auto simp: Let_def)


lemma lift_direction_Inr:
  "lift_direction q pair fills m tok = Inr m' \<longleftrightarrow>
     (let D = filter (sells_token pair tok) fills in \<exists>i out bs rs. intent_at pair (f_index (hd D)) = Inr i
        \<and> q tok (i_buyToken i) (\<Sum>f\<leftarrow>D. f_executedSell f) = Inr (Inr out) \<and> mapE (\<lambda>f. baseline_at m (f_index f)) D = Inr bs
        \<and> raise_to_floor bs (map f_executedBuy D) out = Inr (Some rs)
        \<and> m' = foldl (\<lambda>m (f, r). AList.update (f_index f) r m) m (zip D rs))"
  unfolding lift_direction_def Let_def bindE_Inr_iff ask_quote_Inr throwing_Inr by (fastforce split: option.splits)

lemma baselines_read:
  "mapE (\<lambda>f. baseline_at m (f_index f)) D = Inr bs \<Longrightarrow> bs = map (baseline_of m) D"
  by (induction D arbitrary: bs) (auto simp: baseline_at_def baseline_of_def split: option.splits)

lemma filter_indices:
  assumes "distinct (map f_index fills)" "g \<in> set fills" "f_index g \<in> f_index ` set (filter P fills)"
  shows "P g"
  using assms by (auto simp: distinct_map inj_on_def)

lemma lifted:
  assumes "lift_direction q pair fills m tok = Inr m'" "baselines_ok m fills" "distinct (map f_index fills)"
  defines "D \<equiv> filter (sells_token pair tok) fills"
  shows "baselines_ok m' fills"
    "\<exists>i out. intent_at pair (f_index (hd D)) = Inr i \<and> q tok (i_buyToken i) (\<Sum>f\<leftarrow>D. f_executedSell f) = Inr (Inr out)
      \<and> out \<le> (\<Sum>f\<leftarrow>D. baseline_of m' f)"
    "\<And>g. g \<in> set fills \<Longrightarrow> \<not> sells_token pair tok g \<Longrightarrow> baseline_of m' g = baseline_of m g"
proof -
  obtain i out bs rs where l: "intent_at pair (f_index (hd D)) = Inr i"
    "q tok (i_buyToken i) (\<Sum>f\<leftarrow>D. f_executedSell f) = Inr (Inr out)" "mapE (\<lambda>f. baseline_at m (f_index f)) D = Inr bs"
    "raise_to_floor bs (map f_executedBuy D) out = Inr (Some rs)"
    "m' = foldl (\<lambda>m (f, r). AList.update (f_index f) r m) m (zip D rs)"
    using assms(1) by (auto simp: lift_direction_Inr Let_def D_def)
  note bs = baselines_read [OF l(3)]
  have r: "length rs = length D" "sum_list rs = max out (sum_list bs)" "\<forall>k<length D. rs ! k \<le> max (bs ! k) (f_executedBuy (D ! k))"
    using raise_to_floor_spec [OF _ l(4)] by (simp_all add: bs)
  have D: "distinct (map f_index D)" "f_index ` set D \<subseteq> fst ` set m" "distinct (map fst m)" "set D \<subseteq> set fills"
    using assms(2,3) by (auto simp: D_def baselines_ok_def distinct_map_filter)
  have w: "distinct (map fst m')" "fst ` set m' = fst ` set m" "map (baseline_of m') D = rs"
    "\<forall>g. f_index g \<notin> f_index ` set D \<longrightarrow> baseline_of m' g = baseline_of m g"
    using write_back [OF r(1) D(1-3)] l(5) by (simp_all add: Let_def)
  have other: "baseline_of m' g = baseline_of m g" if "g \<in> set fills" "\<not> sells_token pair tok g" for g
    using w(4) filter_indices [OF assms(3) that(1), of "sells_token pair tok"] that(2) unfolding D_def by blast
  have "baseline_of m' f \<le> f_executedBuy f" if f: "f \<in> set fills" for f
  proof (cases "sells_token pair tok f")
    case True
    then have "f \<in> set D" using f by (simp add: D_def)
    then obtain k where k: "k < length D" "D ! k = f" by (auto simp: in_set_conv_nth)
    then have "baseline_of m' f = rs ! k" "bs ! k = baseline_of m f" using arg_cong [OF w(3), of "\<lambda>xs. xs ! k"] bs by simp_all
    then show ?thesis using r(3) k assms(2) f by (force simp: baselines_ok_def)
  next
    case False
    then show ?thesis using other [OF f] assms(2) f by (simp add: baselines_ok_def)
  qed
  then show "baselines_ok m' fills" using w(1,2) assms(2) by (simp add: baselines_ok_def)
  show "\<exists>i out. intent_at pair (f_index (hd D)) = Inr i \<and> q tok (i_buyToken i) (\<Sum>f\<leftarrow>D. f_executedSell f) = Inr (Inr out)
      \<and> out \<le> (\<Sum>f\<leftarrow>D. baseline_of m' f)"
    using l(1,2) r(2) by (simp add: w(3))
  show "\<And>g. g \<in> set fills \<Longrightarrow> \<not> sells_token pair tok g \<Longrightarrow> baseline_of m' g = baseline_of m g" by (rule other)
qed

text \<open>The floor of a direction named by a token stays held while other directions are lifted.\<close>

definition lifted_to :: "quotes \<Rightarrow> pair \<Rightarrow> fill list \<Rightarrow> (nat \<times> int) list \<Rightarrow> string \<Rightarrow> bool" where
  "lifted_to q pair fills m tok \<longleftrightarrow>
     (let D = filter (sells_token pair tok) fills in \<exists>i out. intent_at pair (f_index (hd D)) = Inr i
        \<and> q tok (i_buyToken i) (\<Sum>f\<leftarrow>D. f_executedSell f) = Inr (Inr out) \<and> out \<le> (\<Sum>f\<leftarrow>D. baseline_of m f))"

lemma lift_directions:
  assumes "foldE (lift_direction q pair fills) m toks = Inr m'" "baselines_ok m fills" "distinct (map f_index fills)"
    "distinct toks" "\<forall>tok\<in>set toks. lower tok = tok"
  shows "baselines_ok m' fills \<and> (\<forall>tok\<in>set toks. lifted_to q pair fills m' tok)
    \<and> (\<forall>g\<in>set fills. (\<forall>tok\<in>set toks. \<not> sells_token pair tok g) \<longrightarrow> baseline_of m' g = baseline_of m g)"
  using assms
proof (induction toks arbitrary: m)
  case (Cons tok toks)
  then obtain m1 where m1: "lift_direction q pair fills m tok = Inr m1" "foldE (lift_direction q pair fills) m1 toks = Inr m'" by auto
  note one = lifted [OF m1(1) Cons.prems(2,3)]
  have IH: "baselines_ok m' fills \<and> (\<forall>tok\<in>set toks. lifted_to q pair fills m' tok)
    \<and> (\<forall>g\<in>set fills. (\<forall>tok\<in>set toks. \<not> sells_token pair tok g) \<longrightarrow> baseline_of m' g = baseline_of m1 g)"
    using Cons.prems m1(2) one(1) by (intro Cons.IH) auto
  have keep: "baseline_of m' g = baseline_of m1 g" if g: "g \<in> set fills" "sells_token pair tok g" for g
  proof -
    have "\<not> sells_token pair t g" if t: "t \<in> set toks" for t
    proof
      assume "sells_token pair t g"
      then have "lower t = lower tok" using g(2) by (auto simp: sells_token_def same_def split: sum.splits)
      moreover have "lower t = t" "lower tok = tok" "t \<noteq> tok" using Cons.prems(4,5) t by auto
      ultimately show False by simp
    qed
    then show ?thesis using IH g(1) by blast
  qed
  have "(\<Sum>f\<leftarrow>filter (sells_token pair tok) fills. baseline_of m' f) = (\<Sum>f\<leftarrow>filter (sells_token pair tok) fills. baseline_of m1 f)"
    by (rule arg_cong [where f = sum_list], rule map_cong) (auto simp: keep)
  then have "lifted_to q pair fills m' tok" using one(2) by (simp add: lifted_to_def Let_def)
  then show ?case using IH one(3) by auto
qed (auto simp: baselines_ok_def)

lemma lifted_floor:
  assumes "book_ok pair" "caseless q" "\<forall>f\<in>set fills. \<exists>i. filled pair f i"
    "\<forall>f\<in>set fills. \<forall>i. filled pair f i \<longrightarrow> lifted_to q pair fills m (lower (i_sellToken i))"
  shows "floor_ok q pair m fills buying"
proof (cases "filter (\<lambda>f. buys_base pair f = buying) fills")
  case Nil
  then show ?thesis by (simp add: floor_ok_def)
next
  case (Cons f fs)
  let ?D = "filter (\<lambda>f. buys_base pair f = buying) fills"
  have f: "f \<in> set ?D" unfolding Cons by simp
  then obtain i where i: "filled pair f i" "buys_base pair f = buying" "f \<in> set fills" using assms(3) by auto
  let ?t = "lower (i_sellToken i)"
  have v: "valid_pair pair" "trades pair i" using assms(1) i(1) by (auto simp: book_ok_def filled_def)
  have "sells_token pair ?t g = (buys_base pair g = buying)" if g: "g \<in> set fills" for g
  proof -
    obtain j where "filled pair g j" using assms(3) g by blast
    moreover have "same ?t (i_sellToken i)" by (simp add: same_def)
    ultimately show ?thesis using sells_token_side [OF assms(1) i(1)] i(2) by blast
  qed
  then have D: "filter (sells_token pair ?t) fills = ?D" by (intro filter_cong) simp_all
  obtain out where out: "q ?t (i_buyToken i) (\<Sum>f\<leftarrow>?D. f_executedSell f) = Inr (Inr out)" "out \<le> (\<Sum>f\<leftarrow>?D. baseline_of m f)"
  proof -
    have "lifted_to q pair fills m ?t" using assms(4) i(1,3) by blast
    then show thesis using that intent_at_filled [OF v(1) i(1)] Cons unfolding lifted_to_def Let_def D by auto
  qed
  have "buying = same (i_sellToken i) (p_quote pair)" using i(2) sells_token_filled [OF v(1) i(1)] by (simp add: buys_base_def)
  then have "same ?t (if buying then p_quote pair else p_base pair)" "same (i_buyToken i) (if buying then p_base pair else p_quote pair)"
    using v(2) by (auto simp: trades_def same_def split: if_splits)
  then have "q (if buying then p_quote pair else p_base pair) (if buying then p_base pair else p_quote pair) (\<Sum>f\<leftarrow>?D. f_executedSell f) = Inr (Inr out)"
    using caselessD [OF assms(2)] out(1) by simp
  then show ?thesis using out(2) unfolding floor_ok_def Let_def by blast
qed

lemma directions_of_Inr:
  assumes "directions_of pair fills = Inr toks"
  shows "distinct toks" "\<forall>tok\<in>set toks. lower tok = tok"
    "f \<in> set fills \<Longrightarrow> intent_at pair (f_index f) = Inr i \<Longrightarrow> lower (i_sellToken i) \<in> set toks"
proof -
  obtain ints where ints: "mapE (\<lambda>f. intent_at pair (f_index f)) fills = Inr ints" "toks = rev (remdups (rev (map (\<lambda>i. lower (i_sellToken i)) ints)))"
    using assms by (auto simp: directions_of_def)
  show "distinct toks" "\<forall>tok\<in>set toks. lower tok = tok" using ints(2) by auto
  assume f: "f \<in> set fills" "intent_at pair (f_index f) = Inr i"
  obtain k where k: "k < length fills" "fills ! k = f" using f(1) by (auto simp: in_set_conv_nth)
  then have "ints ! k = i" "k < length ints" using mapE_Inr_nth [OF ints(1) k(1)] f(2) mapE_Inr_length [OF ints(1)] by simp_all
  then have "i \<in> set ints" by (metis nth_mem)
  then show "lower (i_sellToken i) \<in> set toks" by (simp add: ints(2))
qed

text \<open>The residual is the net of the fills, and a route covers it.\<close>

lemma residual_net:
  assumes "book_ok pair" "\<forall>f\<in>set fills. \<exists>i. filled pair f i"
  shows "residual_of pair fills = Inr \<lparr>res_base = base_net pair fills, res_quote = quote_net pair fills\<rparr>"
proof -
  have "foldE (residual_step pair) (b, c) fills = Inr (b + base_net pair fills, c + quote_net pair fills)" for b c
    using assms(2)
  proof (induction fills arbitrary: b c)
    case (Cons f fills)
    obtain i where i: "filled pair f i" using Cons.prems by auto
    have v: "valid_pair pair" using assms(1) by (simp add: book_ok_def)
    have "map_of (rev (map (\<lambda>e. (b_index e, b_intent e)) (p_entries pair))) (f_index f) = Some i"
      using intent_at_filled [OF v i] by (auto simp: intent_at_def split: option.splits)
    moreover have "buys_base pair f = same (i_sellToken i) (p_quote pair)" by (simp add: buys_base_def sells_token_filled [OF v i])
    ultimately have "residual_step pair (b, c) f = Inr (if buys_base pair f then (b - f_executedBuy f, c + f_executedSell f) else (b + f_executedSell f, c - f_executedBuy f))"
      by (simp add: residual_step_def)
    then show ?case using Cons by (simp add: base_net_def quote_net_def)
  qed (simp add: base_net_def quote_net_def)
  from this [of 0 0] show ?thesis by (simp add: residual_of_def)
qed

lemma route_covers:
  assumes "route pair fills adapter minOut = Inr (calls, r)" "book_ok pair" "\<forall>f\<in>set fills. \<exists>i. filled pair f i"
  shows "calls_ok pair fills calls"
proof -
  have res: "residual_of pair fills = Inr \<lparr>res_base = base_net pair fills, res_quote = quote_net pair fills\<rparr>" by (rule residual_net [OF assms(2,3)])
  have apart: "\<not> same (p_base pair) (p_quote pair)" "\<not> same (p_quote pair) (p_base pair)" using assms(2) by (auto simp: book_ok_def same_def)
  consider "calls = []" "0 \<le> base_net pair fills" "0 \<le> quote_net pair fills"
    | v where "calls = [v]" "v_tokenIn v = p_base pair" "v_tokenOut v = p_quote pair" "v_amountIn v = base_net pair fills" "0 \<le> quote_net pair fills + v_minOut v"
    | v where "calls = [v]" "v_tokenIn v = p_quote pair" "v_tokenOut v = p_base pair" "v_amountIn v = quote_net pair fills" "0 \<le> base_net pair fills + v_minOut v"
    using assms(1) unfolding route_def res by (auto simp: Let_def split: if_splits)
  then show ?thesis by cases (auto simp: calls_ok_def call_net_def apart)
qed

lemma route_async_covers:
  assumes "route_async pair fills adapter minOut = Inr (calls, r)" "book_ok pair" "\<forall>f\<in>set fills. \<exists>i. filled pair f i"
  shows "calls_ok pair fills calls"
proof -
  obtain probe where p: "route pair fills adapter n_needOut = Inr probe"
    "(case fst probe of [] \<Rightarrow> Inr probe | call # _ \<Rightarrow>
        bindE (minOut \<lparr>n_tokenIn = v_tokenIn call, n_tokenOut = v_tokenOut call, n_amountIn = v_amountIn call, n_needOut = v_minOut call\<rparr>)
          (\<lambda>resolved. route pair fills adapter (\<lambda>_. resolved))) = Inr (calls, r)"
    using assms(1) unfolding route_async_def bindE_Inr_iff by blast
  then obtain mo where "route pair fills adapter mo = Inr (calls, r)" by (cases "fst probe") auto
  then show ?thesis by (rule route_covers [OF _ assms(2,3)])
qed


lemma clear_in_band:
  assumes "valid_reference ref" "clear pair ref = Inr (Some c)"
  shows "0 < c_price c" "in_band (c_price c) ref"
proof -
  have "foldl (keep_better (\<lambda>a b. better a b (r_basePrice ref * WAD div r_quotePrice ref)) (eligible ref (band_lo ref) (band_hi ref))
      (clearing_at (legs_of pair))) None (candidates_of ref (r_basePrice ref * WAD div r_quotePrice ref) (legs_of pair)) = Some c"
    using assms(2) by (simp add: clear_unfold [OF assms(1)] split: if_splits)
  then obtain x where "eligible ref (band_lo ref) (band_hi ref) x" "c = clearing_at (legs_of pair) x"
    using clearing_choice.keep_better_best by blast
  then show "0 < c_price c" "in_band (c_price c) ref" using eligible_iff [OF assms(1)] by (auto simp: clearing_at_def Let_def)
qed

lemma refusal_fill_ok:
  assumes "refusal i f (same (i_sellToken i) (p_quote pair)) (r_quotePrice ref) price = None" "0 < f_executedSell f"
  shows "fill_ok pair ref price f i"
  using assms by (auto simp: refusal_def fill_ok_def at_uniform_price_def Let_def split: if_splits)

lemma allocated_ok:
  assumes "book_ok pair" "valid_reference ref" "clear pair ref = Inr (Some c)" "allocate pair c ref 0 = Inr a"
  shows "within_band (a_basePrice a) (r_basePrice ref) (r_maxDeviationBps ref)" "distinct (map f_index (a_fills a))"
    "\<forall>f\<in>set (a_fills a). \<exists>i. filled pair f i \<and> fill_ok pair ref (a_basePrice a) f i"
proof -
  have v: "valid_pair pair" "0 < r_quotePrice ref" using assms(1,2) by (simp_all add: book_ok_def valid_reference_def)
  note c = clear_in_band [OF assms(2,3)]
  obtain a' where a': "allocate pair c ref 0 = Inr a'" "a_quotePrice a' = r_quotePrice ref"
    "a_basePrice a' = base_unit_price (c_price c) ref" "a_fills a' = [] \<or> (\<exists>live. settled_allocation pair a' 0 live)"
    by (rule allocate_settled [OF v less_imp_le [OF c(1)]])
  then have a: "a_quotePrice a = r_quotePrice ref" "a_basePrice a = base_unit_price (c_price c) ref"
    "a_fills a = [] \<or> (\<exists>live. settled_allocation pair a 0 live)" using assms(4) by auto
  show "within_band (a_basePrice a) (r_basePrice ref) (r_maxDeviationBps ref)" using c(2) a(2) by (simp add: in_band_def)
  show "distinct (map f_index (a_fills a))" using a(3) settled_distinct by auto
  show "\<forall>f\<in>set (a_fills a). \<exists>i. filled pair f i \<and> fill_ok pair ref (a_basePrice a) f i"
  proof
    fix f assume f: "f \<in> set (a_fills a)"
    then obtain live where live: "settled_allocation pair a 0 live" using a(3) by auto
    obtain e where e: "0 < f_executedSell f" "e \<in> set (p_entries pair)" "b_index e = f_index f"
      "refusal (b_intent e) f (same (i_sellToken (b_intent e)) (p_quote pair)) (a_quotePrice a) (a_basePrice a) = None"
      by (rule settled_fill [OF live f])
    then show "\<exists>i. filled pair f i \<and> fill_ok pair ref (a_basePrice a) f i" using refusal_fill_ok [of "b_intent e"] a(1) by (auto simp: filled_def)
  qed
qed

lemma netted_ok:
  assumes "netted_steps q adapter pair ref = Inr out" "book_ok pair" "valid_reference ref" "caseless q"
  shows "po_mode out = Netted" "outcome_ok q pair ref out"
proof -
  obtain c a m toks m' calls r where s: "clear pair ref = Inr (Some c)" "allocate pair c ref 0 = Inr a" "a_fills a \<noteq> []"
    "foldE (quote_fill q pair) [] (a_fills a) = Inr m" "directions_of pair (a_fills a) = Inr toks"
    "foldE (lift_direction q pair (a_fills a)) m toks = Inr m'" "route_async pair (a_fills a) adapter (residual_quote q) = Inr (calls, r)"
    "out = \<lparr>po_base = p_base pair, po_mode = Netted, po_reason = None, po_fills = a_fills a, po_baselines = m', po_basePrice = a_basePrice a, po_venueCalls = calls\<rparr>"
  proof -
    obtain cl where cl: "clear pair ref = Inr (Some cl)" "bindE (throwing (allocate pair cl ref 0)) (\<lambda>a.
        if a_fills a = [] then Inl (Skip ''the crossing leaves no fill the verifier would take'') else net_fills q adapter pair a) = Inr out"
      using assms(1) unfolding netted_steps_def bindE_Inr_iff throwing_Inr by (force split: option.split_asm if_split_asm)
    then obtain a where a: "allocate pair cl ref 0 = Inr a" "a_fills a \<noteq> []" "net_fills q adapter pair a = Inr out"
      by (auto split: if_split_asm)
    show thesis
    proof (cases "route_async pair (a_fills a) adapter (residual_quote q)")
      case (Inl e)
      then show thesis using a(3) by (simp add: net_fills_def)
    next
      case (Inr cr)
      then show thesis using that [OF cl(1) a(1,2)] a(3) by (cases cr) (auto simp: net_fills_def)
    qed
  qed
  note a = allocated_ok [OF assms(2,3) s(1,2)]
  have v: "valid_pair pair" using assms(2) by (simp add: book_ok_def)
  have filled: "\<forall>f\<in>set (a_fills a). \<exists>i. filled pair f i" using a(3) by blast
  have m: "baselines_ok m (a_fills a)" using quote_fills [OF s(4) a(2)] by (simp add: baselines_ok_def)
  note toks = directions_of_Inr [OF s(5)]
  have l: "baselines_ok m' (a_fills a)" "\<forall>tok\<in>set toks. lifted_to q pair (a_fills a) m' tok"
    using lift_directions [OF s(6) m a(2) toks(1,2)] by blast+
  have "\<forall>f\<in>set (a_fills a). \<forall>i. filled pair f i \<longrightarrow> lifted_to q pair (a_fills a) m' (lower (i_sellToken i))"
    using l(2) toks(3) intent_at_filled [OF v] by blast
  then have "floor_ok q pair m' (a_fills a) buying" for buying by (rule lifted_floor [OF assms(2,4) filled])
  then show "outcome_ok q pair ref out"
    using a l(1) route_async_covers [OF s(7) assms(2) filled] s(3) by (simp add: outcome_ok_def s(8))
  show "po_mode out = Netted" by (simp add: s(8))
qed

lemma try_netted_sound:
  assumes "try_netted q adapter pair ref = Inr out" "book_ok pair" "valid_reference ref" "caseless q"
  shows "outcome_sound q pair ref out" "po_mode out \<noteq> Routed"
proof -
  have "outcome_sound q pair ref out \<and> po_mode out \<noteq> Routed"
  proof (cases "netted_steps q adapter pair ref")
    case (Inl e)
    then show ?thesis using assms(1) by (cases e) (auto simp: try_netted_def outcome_sound_def skipped_def)
  next
    case (Inr o')
    then show ?thesis using assms(1) netted_ok [OF Inr assms(2-4)] by (simp add: try_netted_def outcome_sound_def)
  qed
  then show "outcome_sound q pair ref out" "po_mode out \<noteq> Routed" by blast+
qed

section \<open>Routing keeps the promise\<close>

text \<open>The split hands out everything the venue gave, whole orders only.\<close>

lemma split_volume_spec:
  assumes "split_volume out tot given side = Inr fills"
  shows "map f_index fills = map b_index side" "map f_executedSell fills = map (\<lambda>e. i_sellAmount (b_intent e)) side"
    "side \<noteq> [] \<Longrightarrow> (\<Sum>f\<leftarrow>fills. f_executedBuy f) = out - given"
proof -
  have "map f_index fills = map b_index side \<and> map f_executedSell fills = map (\<lambda>e. i_sellAmount (b_intent e)) side
    \<and> (side \<noteq> [] \<longrightarrow> (\<Sum>f\<leftarrow>fills. f_executedBuy f) = out - given)"
    using assms by (induction out tot given side arbitrary: fills rule: split_volume.induct) (auto simp: Let_def split: if_splits)
  then show "map f_index fills = map b_index side" "map f_executedSell fills = map (\<lambda>e. i_sellAmount (b_intent e)) side"
    "side \<noteq> [] \<Longrightarrow> (\<Sum>f\<leftarrow>fills. f_executedBuy f) = out - given" by blast+
qed

lemma routed_outcome_Inr:
  assumes "routed_outcome adapter pair ref buying tokenIn tokenOut tot out fills = Inr res"
  shows "within_band (po_basePrice res) (r_basePrice ref) (r_maxDeviationBps ref)"
    "\<forall>f\<in>set fills. at_uniform_price buying (r_quotePrice ref) (po_basePrice res) f"
    "po_mode res = Routed" "po_base res = p_base pair" "po_fills res = fills" "po_baselines res = map (\<lambda>f. (f_index f, f_executedBuy f)) fills"
    "po_venueCalls res = [\<lparr>v_adapter = adapter, v_tokenIn = tokenIn, v_tokenOut = tokenOut, v_amountIn = tot, v_minOut = out\<rparr>]"
  using assms unfolding routed_outcome_def bindE_Inr_iff Let_def by (auto split: if_splits option.splits simp: find_None_iff)

text \<open>One side of the book, all of it selling the same token.\<close>

definition one_side :: "pair \<Rightarrow> bool \<Rightarrow> book_entry list \<Rightarrow> bool" where
  "one_side pair buying side \<longleftrightarrow> set side \<subseteq> set (p_entries pair) \<and> distinct (map b_index side)
     \<and> (\<forall>e\<in>set side. same (i_sellToken (b_intent e)) (p_quote pair) = buying)"

lemma split_entry:
  assumes "split_volume out tot 0 side = Inr fills" "f \<in> set fills"
  obtains e where "e \<in> set side" "b_index e = f_index f" "f_executedSell f = i_sellAmount (b_intent e)"
proof -
  note s = split_volume_spec [OF assms(1)]
  obtain k where k: "k < length fills" "fills ! k = f" using assms(2) by (auto simp: in_set_conv_nth)
  have "length fills = length side" using s(1) by (metis length_map)
  then have "k < length side" using k(1) by simp
  moreover have "f_index f = b_index (side ! k)" "f_executedSell f = i_sellAmount (b_intent (side ! k))"
    using arg_cong [OF s(1), of "\<lambda>xs. xs ! k"] arg_cong [OF s(2), of "\<lambda>xs. xs ! k"] k \<open>k < length side\<close> by simp_all
  ultimately show thesis using that [of "side ! k"] by simp
qed

lemma split_routed_ok:
  assumes "book_ok pair" "one_side pair buying side" "side \<noteq> []" "split_volume out tot 0 side = Inr fills"
    "\<forall>f\<in>set fills. \<not> breaks_limit side f" "tot = (\<Sum>e\<leftarrow>side. i_sellAmount (b_intent e))"
    "tokenIn = (if buying then p_quote pair else p_base pair)" "tokenOut = (if buying then p_base pair else p_quote pair)"
    "q tokenIn tokenOut tot = Inr (Inr out)" "routed_outcome adapter pair ref buying tokenIn tokenOut tot out fills = Inr res"
  shows "po_mode res = Routed" "outcome_ok q pair ref res"
proof -
  note s = split_volume_spec [OF assms(4)] and r = routed_outcome_Inr [OF assms(10)]
  have side: "set side \<subseteq> set (p_entries pair)" "distinct (map b_index side)" "\<forall>e\<in>set side. same (i_sellToken (b_intent e)) (p_quote pair) = buying"
    using assms(2) by (auto simp: one_side_def)
  have v: "valid_pair pair" "\<not> same (p_base pair) (p_quote pair)" "\<not> same (p_quote pair) (p_base pair)" using assms(1) by (auto simp: book_ok_def same_def)
  have dist: "distinct (map f_index fills)" using side(2) s(1) by simp
  have ok: "\<exists>i. filled pair f i \<and> fill_ok pair ref (po_basePrice res) f i" and buys: "buys_base pair f = buying" if f: "f \<in> set fills" for f
  proof -
    obtain e where e: "e \<in> set side" "b_index e = f_index f" "f_executedSell f = i_sellAmount (b_intent e)" by (rule split_entry [OF assms(4) f])
    have "find (\<lambda>e. b_index e = f_index f) side = Some e"
      using e(1,2) side(2) by (induction side) (auto simp: rev_image_eqI)
    then have "f_executedBuy f \<noteq> 0 \<and> limit_respected (f_executedBuy f) (i_sellAmount (b_intent e)) (i_minBuyAmount (b_intent e)) (f_executedSell f)"
      using assms(5) f by (auto simp: breaks_limit_def)
    moreover have "0 < i_sellAmount (b_intent e)" "filled pair f (b_intent e)" "same (i_sellToken (b_intent e)) (p_quote pair) = buying"
      using assms(1) e side by (auto simp: book_ok_def filled_def)
    ultimately show "\<exists>i. filled pair f i \<and> fill_ok pair ref (po_basePrice res) f i" "buys_base pair f = buying"
      using r(2) f e(3) sells_token_filled [OF v(1)] by (auto simp: fill_ok_def buys_base_def)
  qed
  have sums: "(\<Sum>f\<leftarrow>fills. f_executedSell f) = tot" "(\<Sum>f\<leftarrow>fills. f_executedBuy f) = out"
    using s assms(3,6) by simp_all
  have side_fills: "filter (\<lambda>f. buys_base pair f = b) fills = (if b = buying then fills else [])" for b
    using buys by (auto simp: filter_empty_conv)
  have bl: "baseline_of (map (\<lambda>f. (f_index f, f_executedBuy f)) fills) f = f_executedBuy f" if f: "f \<in> set fills" for f
  proof -
    have "map_of (map (\<lambda>f. (f_index f, f_executedBuy f)) fills) (f_index f) = Some (f_executedBuy f)"
      by (rule map_of_is_SomeI) (use dist f in \<open>auto simp: comp_def\<close>)
    then show ?thesis by (simp add: baseline_of_def)
  qed
  have blsum: "(\<Sum>f\<leftarrow>fills. baseline_of (map (\<lambda>f. (f_index f, f_executedBuy f)) fills) f) = out"
    using bl sums(2) by (metis (mono_tags, lifting) map_eq_conv)
  have net: "base_net pair fills = (if buying then - out else tot)" "quote_net pair fills = (if buying then tot else - out)"
  proof -
    have "base_net pair fills = (\<Sum>f\<leftarrow>fills. if buying then - f_executedBuy f else f_executedSell f)"
      "quote_net pair fills = (\<Sum>f\<leftarrow>fills. if buying then f_executedSell f else - f_executedBuy f)"
      unfolding base_net_def quote_net_def by (rule arg_cong [where f = sum_list], rule map_cong, use buys in auto)+
    then show "base_net pair fills = (if buying then - out else tot)" "quote_net pair fills = (if buying then tot else - out)"
      using sums by (auto simp: uminus_sum_list_map comp_def)
  qed
  have "fills \<noteq> []" using s(1) assms(3) by auto
  then show "outcome_ok q pair ref res"
    unfolding outcome_ok_def r(4-7)
    using r(1) dist ok bl blsum sums net assms(7-9) v(2,3)
    by (auto simp: baselines_ok_def floor_ok_def Let_def side_fills calls_ok_def call_net_def comp_def image_image)
  show "po_mode res = Routed" by (rule r(3))
qed


lemma route_passes_ok:
  assumes "route_passes n q adapter pair ref buying tokenIn tokenOut side = Inr res" "book_ok pair" "one_side pair buying side"
    "tokenIn = (if buying then p_quote pair else p_base pair)" "tokenOut = (if buying then p_base pair else p_quote pair)"
  shows "po_mode res = Routed \<and> outcome_ok q pair ref res"
  using assms
proof (induction n arbitrary: side)
  case (Suc n)
  let ?tot = "\<Sum>e\<leftarrow>side. i_sellAmount (b_intent e)"
  have side: "side \<noteq> []" using Suc.prems(1) by auto
  then obtain out where out: "q tokenIn tokenOut ?tot = Inr (Inr out)" and rest: "bindE (throwing (split_volume out ?tot 0 side)) (\<lambda>fills.
      case find (breaks_limit side) fills of
        Some broken \<Rightarrow> route_passes n q adapter pair ref buying tokenIn tokenOut (filter (\<lambda>e. b_index e \<noteq> f_index broken) side)
      | None \<Rightarrow> routed_outcome adapter pair ref buying tokenIn tokenOut ?tot out fills) = Inr res"
    using Suc.prems(1) by (simp only: route_passes.simps Let_def if_False bindE_Inr_iff ask_quote_Inr) blast
  then obtain fills where fills: "split_volume out ?tot 0 side = Inr fills" by auto
  show ?case
  proof (cases "find (breaks_limit side) fills")
    case None
    have A: "\<forall>f\<in>set fills. \<not> breaks_limit side f" using None by (auto simp: find_None_iff)
    have B: "routed_outcome adapter pair ref buying tokenIn tokenOut ?tot out fills = Inr res" using rest fills None by simp
    show ?thesis
      using split_routed_ok [where q = q, OF Suc.prems(2,3) side fills A refl Suc.prems(4,5) out B] by simp
  next
    case (Some broken)
    have "one_side pair buying (filter (\<lambda>e. b_index e \<noteq> f_index broken) side)"
      using Suc.prems(3) by (auto simp: one_side_def distinct_map_filter)
    then show ?thesis using rest fills Some Suc.IH Suc.prems(2,4,5) by simp
  qed
qed simp

lemma side_of_one: "book_ok pair \<Longrightarrow> one_side pair buying (side_of pair buying)"
  by (auto simp: one_side_def side_of_def book_ok_def valid_pair_def distinct_map_filter)

lemma try_routed_sound:
  assumes "try_routed q adapter pair ref = Inr out" "book_ok pair"
  shows "outcome_sound q pair ref out" "po_mode out = Routed \<or> po_mode out = Skipped"
proof -
  define buying where "buying = (side_usd (side_of pair True) (r_quotePrice ref) \<ge> side_usd (side_of pair False) (r_basePrice ref))"
  have sides: "(if buying then side_of pair True else side_of pair False) = side_of pair buying" by simp
  have "outcome_sound q pair ref out \<and> (po_mode out = Routed \<or> po_mode out = Skipped)"
  proof (cases "side_of pair buying = []")
    case True
    then have "out = skipped pair ''nothing to route''" using assms(1) unfolding try_routed_def Let_def buying_def [symmetric] sides by simp
    then show ?thesis by (simp add: skipped_sound) (simp add: skipped_def)
  next
    case False
    let ?steps = "route_passes (length (p_entries pair) + 1) q adapter pair ref buying
       (if buying then p_quote pair else p_base pair) (if buying then p_base pair else p_quote pair) (side_of pair buying)"
    have fin: "finish pair ?steps = Inr out" using assms(1) False unfolding try_routed_def Let_def buying_def [symmetric] sides by simp
    show ?thesis
    proof (cases ?steps)
      case (Inl e)
      then show ?thesis using fin by (cases e) (auto simp: outcome_sound_def skipped_def)
    next
      case (Inr res)
      then show ?thesis using fin route_passes_ok [OF Inr assms(2) side_of_one [OF assms(2)] refl refl] by (simp add: outcome_sound_def)
    qed
  qed
  then show "outcome_sound q pair ref out" "po_mode out = Routed \<or> po_mode out = Skipped" by blast+
qed

text \<open>Routing one side of the book as a pair of its own.\<close>

lemma sub_book: "book_ok pair \<Longrightarrow> set es \<subseteq> set (p_entries pair) \<Longrightarrow> distinct (map b_index es) \<Longrightarrow> book_ok (pair\<lparr>p_entries := es\<rparr>)"
  by (auto simp: book_ok_def valid_pair_def trades_def)

lemma sub_filled: "filled (pair\<lparr>p_entries := es\<rparr>) f i \<Longrightarrow> set es \<subseteq> set (p_entries pair) \<Longrightarrow> filled pair f i"
  by (auto simp: filled_def)

lemma sub_outcome:
  assumes "outcome_ok q (pair\<lparr>p_entries := es\<rparr>) ref out" "book_ok pair" "set es \<subseteq> set (p_entries pair)" "distinct (map b_index es)"
  shows "outcome_ok q pair ref out"
proof -
  let ?sub = "pair\<lparr>p_entries := es\<rparr>"
  have sub: "book_ok ?sub" by (rule sub_book [OF assms(2-4)])
  have v: "valid_pair ?sub" "valid_pair pair" using sub assms(2) by (simp_all add: book_ok_def)
  have filled: "\<exists>i. filled ?sub f i \<and> filled pair f i \<and> fill_ok ?sub ref (po_basePrice out) f i" if "f \<in> set (po_fills out)" for f
    using assms(1) that sub_filled [OF _ assms(3)] unfolding outcome_ok_def by blast
  have side: "buys_base ?sub f = buys_base pair f" if f: "f \<in> set (po_fills out)" for f
  proof -
    obtain i where i: "filled ?sub f i" "filled pair f i" using filled [OF f] by blast
    show ?thesis unfolding buys_base_def sells_token_filled [OF v(1) i(1)] sells_token_filled [OF v(2) i(2)] by simp
  qed
  have "fill_ok ?sub ref p f i = fill_ok pair ref p f i" for p f i by (simp add: fill_ok_def)
  then have "\<forall>f\<in>set (po_fills out). \<exists>i. filled pair f i \<and> fill_ok pair ref (po_basePrice out) f i" using filled by metis
  moreover have "floor_ok q ?sub m (po_fills out) b = floor_ok q pair m (po_fills out) b" for m b
  proof -
    have "filter (\<lambda>f. buys_base ?sub f = b) (po_fills out) = filter (\<lambda>f. buys_base pair f = b) (po_fills out)"
      by (rule filter_cong) (use side in auto)
    then show ?thesis unfolding floor_ok_def by simp
  qed
  moreover have "base_net ?sub (po_fills out) = base_net pair (po_fills out)" "quote_net ?sub (po_fills out) = quote_net pair (po_fills out)"
    unfolding base_net_def quote_net_def by (rule arg_cong [where f = sum_list], rule map_cong, use side in auto)+
  then have "calls_ok ?sub (po_fills out) calls = calls_ok pair (po_fills out) calls" for calls by (simp add: calls_ok_def)
  ultimately show ?thesis using assms(1) unfolding outcome_ok_def by auto
qed

text \<open>Two routed sides fit together when one price suits every fill of both.\<close>

lemma sum_side: "(\<Sum>f\<leftarrow>fs. if P f then g f else h f) = (\<Sum>f\<leftarrow>filter P fs. g f) + (\<Sum>f\<leftarrow>filter (\<lambda>f. \<not> P f) fs. h f :: int)"
  by (induction fs) auto

lemma merge_ok:
  assumes "book_ok pair" "outcome_ok q pair ref buy" "outcome_ok q pair ref sell"
    "\<forall>f\<in>set (po_fills buy). buys_base pair f" "\<forall>f\<in>set (po_fills sell). \<not> buys_base pair f"
    "po_mode buy = Routed" "po_mode sell = Routed"
  shows "outcome_ok q pair ref (merge_routed pair ref buy sell)" "po_mode (merge_routed pair ref buy sell) = Routed"
proof -
  let ?fills = "po_fills buy @ po_fills sell"
  let ?bad = "list_ex (\<lambda>f. \<not> at_uniform_price (\<not> list_ex (\<lambda>e. b_index e = f_index f) (side_of pair False)) (r_quotePrice ref) (po_basePrice buy) f) ?fills"
  define mm where "mm = foldl (\<lambda>m (k, v). AList.update k v m) [] (po_baselines buy @ po_baselines sell)"
  have v: "valid_pair pair" using assms(1) by (simp add: book_ok_def)
  have f: "\<exists>i. filled pair f i \<and> fill_ok pair ref p f i" if "f \<in> set (po_fills o1)" "outcome_ok q pair ref o1" "p = po_basePrice o1" for f o1 p
    using that by (auto simp: outcome_ok_def)
  have selling: "list_ex (\<lambda>e. b_index e = f_index f) (side_of pair False) = (\<not> buys_base pair f)" if fl: "filled pair f i" for f i
  proof -
    obtain e where e: "e \<in> set (p_entries pair)" "b_index e = f_index f" "b_intent e = i" using fl by (auto simp: filled_def)
    have inj: "inj_on b_index (set (p_entries pair))" using v by (simp add: valid_pair_def distinct_map)
    have "e' = e" if e': "e' \<in> set (side_of pair False)" "b_index e' = f_index f" for e'
      using inj_onD [OF inj, of e' e] e' e by (simp add: side_of_def)
    then have "list_ex (\<lambda>e. b_index e = f_index f) (side_of pair False) = (e \<in> set (side_of pair False))"
      using e(2) unfolding list_ex_iff by metis
    then have "list_ex (\<lambda>e. b_index e = f_index f) (side_of pair False) = (\<not> same (i_sellToken i) (p_quote pair))"
      using e by (simp add: side_of_def)
    then show ?thesis by (simp add: buys_base_def sells_token_filled [OF v fl])
  qed
  have m: "distinct (map fst mm) \<and> (\<forall>k. map_of mm k = map_of (rev (po_baselines buy @ po_baselines sell)) k)"
  proof -
    have "distinct (map fst (foldl (\<lambda>m (k, v). AList.update k v m) m xs))
      \<and> (\<forall>k. map_of (foldl (\<lambda>m (k, v). AList.update k v m) m xs) k = (case map_of (rev xs) k of None \<Rightarrow> map_of m k | Some v \<Rightarrow> Some v))"
      if "distinct (map fst m)" for xs :: "(nat \<times> int) list" and m
      using that by (induction xs arbitrary: m) (auto simp: store_laws map_add_def split: option.splits)
    then have "distinct (map fst (foldl (\<lambda>m (k, v). AList.update k v m) [] xs))
      \<and> (\<forall>k. map_of (foldl (\<lambda>m (k, v). AList.update k v m) [] xs) k = map_of (rev xs) k)" for xs :: "(nat \<times> int) list"
      by (force split: option.splits)
    then show ?thesis unfolding mm_def by blast
  qed
  have keys: "fst ` set (po_baselines o1) = f_index ` set (po_fills o1)" "distinct (map fst (po_baselines o1))" "distinct (map f_index (po_fills o1))"
    "\<forall>f\<in>set (po_fills o1). baseline_of (po_baselines o1) f \<le> f_executedBuy f" if "outcome_ok q pair ref o1" for o1
    using that by (auto simp: outcome_ok_def baselines_ok_def)
  have apart: "f_index ` set (po_fills buy) \<inter> f_index ` set (po_fills sell) = {}"
  proof -
    have "f_index g \<noteq> f_index h" if gh: "g \<in> set (po_fills buy)" "h \<in> set (po_fills sell)" for g h
    proof
      assume eq: "f_index g = f_index h"
      obtain i where "filled pair g i" using f [OF gh(1) assms(2) refl] by blast
      moreover have "filled pair h i" using \<open>filled pair g i\<close> eq by (simp add: filled_def)
      ultimately show False using selling assms(4,5) gh eq by metis
    qed
    then show ?thesis by auto
  qed
  then have dist: "distinct (map fst (po_baselines buy @ po_baselines sell))" using keys [OF assms(2)] keys [OF assms(3)] by auto
  have look: "map_of mm k = map_of (po_baselines buy @ po_baselines sell) k" for k
  proof -
    have "map_of (rev xs) k = map_of xs k" if d: "distinct (map fst xs)" for xs :: "(nat \<times> int) list"
    proof (cases "map_of xs k")
      case None
      then have "map_of (rev xs) k = None" unfolding map_of_eq_None_iff by simp
      then show ?thesis using None by simp
    qed (use d in \<open>auto simp: rev_map [symmetric] intro!: map_of_is_SomeI dest: map_of_SomeD\<close>)
    from this [OF dist] show ?thesis using m by metis
  qed
  have bl: "baseline_of mm f = baseline_of (po_baselines buy) f" if "f \<in> set (po_fills buy)" for f
  proof -
    have "f_index f \<in> fst ` set (po_baselines buy)" using keys(1) [OF assms(2)] that by blast
    then obtain v where "map_of (po_baselines buy) (f_index f) = Some v" by (metis map_of_eq_None_iff not_None_eq)
    then show ?thesis by (simp add: baseline_of_def look)
  qed
  have bl': "baseline_of mm f = baseline_of (po_baselines sell) f" if "f \<in> set (po_fills sell)" for f
  proof -
    have "f_index f \<notin> fst ` set (po_baselines buy)" using keys(1) [OF assms(2)] apart that by blast
    then have "map_of (po_baselines buy) (f_index f) = None" by (simp add: map_of_eq_None_iff)
    then show ?thesis by (simp add: baseline_of_def look map_add_def)
  qed
  have merged: "merge_routed pair ref buy sell = (if ?bad then (if first_amount buy * r_quotePrice ref \<ge> first_amount sell * r_basePrice ref then buy else sell)
      else \<lparr>po_base = p_base pair, po_mode = Routed, po_reason = None, po_fills = ?fills, po_baselines = mm, po_basePrice = po_basePrice buy,
            po_venueCalls = po_venueCalls buy @ po_venueCalls sell\<rparr>)"
    by (simp only: merge_routed_def Let_def mm_def)
  show "po_mode (merge_routed pair ref buy sell) = Routed" by (simp add: merged assms(6,7))
  show "outcome_ok q pair ref (merge_routed pair ref buy sell)"
  proof (cases ?bad)
    case True
    then show ?thesis using assms(2,3) by (simp add: merged)
  next
    case False
    have uniform: "at_uniform_price (buys_base pair f) (r_quotePrice ref) (po_basePrice buy) f" if "f \<in> set ?fills" "filled pair f i" for f i
    proof -
      have "at_uniform_price (\<not> list_ex (\<lambda>e. b_index e = f_index f) (side_of pair False)) (r_quotePrice ref) (po_basePrice buy) f"
        using False that(1) unfolding list_ex_iff by blast
      then show ?thesis using selling [OF that(2)] by simp
    qed
    have fok: "\<exists>i. filled pair f i \<and> fill_ok pair ref (po_basePrice buy) f i" if fl: "f \<in> set ?fills" for f
    proof -
      obtain p i where i: "filled pair f i" "fill_ok pair ref p f i" using fl f assms(2,3) by auto blast+
      then have "buys_base pair f = same (i_sellToken i) (p_quote pair)" by (simp add: buys_base_def sells_token_filled [OF v])
      then have "fill_ok pair ref (po_basePrice buy) f i" using i uniform [OF fl i(1)] by (auto simp: fill_ok_def)
      then show ?thesis using i(1) by blast
    qed
    have dir: "filter (\<lambda>f. buys_base pair f = b) ?fills = (if b then po_fills buy else po_fills sell)" for b
      using assms(4,5) by (auto simp: filter_empty_conv filter_id_conv)
    have dir1: "filter (\<lambda>f. buys_base pair f = True) (po_fills buy) = po_fills buy" "filter (\<lambda>f. buys_base pair f = False) (po_fills sell) = po_fills sell"
      using assms(4,5) by (auto simp: filter_id_conv)
    have sums: "(\<Sum>f\<leftarrow>po_fills buy. baseline_of mm f) = (\<Sum>f\<leftarrow>po_fills buy. baseline_of (po_baselines buy) f)"
      "(\<Sum>f\<leftarrow>po_fills sell. baseline_of mm f) = (\<Sum>f\<leftarrow>po_fills sell. baseline_of (po_baselines sell) f)"
      by (rule arg_cong [where f = sum_list], rule map_cong, use bl bl' in auto)+
    have fb: "floor_ok q pair (po_baselines buy) (po_fills buy) True" "floor_ok q pair (po_baselines sell) (po_fills sell) False"
      using assms(2,3) by (simp_all add: outcome_ok_def)
    have "floor_ok q pair mm ?fills b" for b
      using fb unfolding floor_ok_def Let_def dir dir1 by (cases b) (simp_all add: sums)
    moreover have "baselines_ok mm ?fills"
    proof -
      have "fst ` set mm = f_index ` set ?fills"
        using look keys(1) [OF assms(2)] keys(1) [OF assms(3)] by (metis (no_types, lifting) dom_map_of_conv_image_fst dom_def Collect_cong image_Un set_append)
      then show ?thesis using m keys(4) [OF assms(2)] keys(4) [OF assms(3)] bl bl' by (auto simp: baselines_ok_def)
    qed
    moreover have "calls_ok pair ?fills (po_venueCalls buy @ po_venueCalls sell)"
      using assms(2,3) by (auto simp: outcome_ok_def calls_ok_def base_net_def quote_net_def call_net_def)
    moreover have "distinct (map f_index ?fills)" using keys(3) assms(2,3) apart by auto
    ultimately show ?thesis
      using fok assms(2) False unfolding merged by (simp add: outcome_ok_def)
  qed
qed

end
