(* ===== verification/SolvePlan.thy ===== *)
theory SolvePlan
  imports Solve
begin

text \<open>
  The plan as a whole: routing both sides of a pair, the outcomes of all pairs put into one solution
  by \<open>assemble\<close>, and the check of baseline.ts on the result. The lemmas carry what an outcome promises
  for its pair over to the arrays of the solution, where the verifier reads it.
\<close>

section \<open>Routing both sides\<close>

lemma routed_side:
  assumes "try_routed q adapter (pair\<lparr>p_entries := side_of pair b\<rparr>) ref = Inr out" "book_ok pair" "po_mode out = Routed"
  shows "outcome_ok q pair ref out" "\<forall>f\<in>set (po_fills out). buys_base pair f = b"
proof -
  have sub: "set (side_of pair b) \<subseteq> set (p_entries pair)" "distinct (map b_index (side_of pair b))"
    using assms(2) by (auto simp: side_of_def book_ok_def valid_pair_def distinct_map_filter)
  have ok: "outcome_ok q (pair\<lparr>p_entries := side_of pair b\<rparr>) ref out"
    using try_routed_sound(1) [OF assms(1) sub_book [OF assms(2) sub]] assms(3) by (simp add: outcome_sound_def)
  then show "outcome_ok q pair ref out" by (rule sub_outcome [OF _ assms(2) sub])
  show "\<forall>f\<in>set (po_fills out). buys_base pair f = b"
  proof
    fix f assume "f \<in> set (po_fills out)"
    then obtain i where i: "filled (pair\<lparr>p_entries := side_of pair b\<rparr>) f i" using ok by (auto simp: outcome_ok_def)
    have v: "valid_pair pair" using assms(2) by (simp add: book_ok_def)
    show "buys_base pair f = b"
      using i sells_token_filled [OF v sub_filled [OF i sub(1)]] by (auto simp: buys_base_def filled_def side_of_def)
  qed
qed

lemma route_everything_sound:
  assumes "route_everything q adapter pair ref = Inr out" "book_ok pair"
  shows "outcome_sound q pair ref out"
proof -
  let ?attempt = "\<lambda>b. try_routed q adapter (pair\<lparr>p_entries := side_of pair b\<rparr>) ref"
  define pick where "pick sides = (case filter (\<lambda>out. po_mode out = Routed) sides of
      [] \<Rightarrow> skipped pair (joined ''; '' (map (\<lambda>out. case po_reason out of Some r \<Rightarrow> r | None \<Rightarrow> []) sides))
    | [out] \<Rightarrow> out | buy # sell # _ \<Rightarrow> merge_routed pair ref buy sell)" for sides
  have one: "outcome_sound q pair ref (pick [o1])" if "?attempt b = Inr o1" for b o1
    using routed_side(1) [OF that assms(2)] skipped_sound by (simp add: pick_def outcome_sound_def)
  have two: "outcome_sound q pair ref (pick [o1, o2])" if t: "?attempt True = Inr o1" "?attempt False = Inr o2" for o1 o2
  proof (cases "po_mode o1 = Routed \<and> po_mode o2 = Routed")
    case True
    have m: "outcome_ok q pair ref (merge_routed pair ref o1 o2)" "po_mode (merge_routed pair ref o1 o2) = Routed"
      using merge_ok [OF assms(2)] routed_side [OF t(1) assms(2)] routed_side [OF t(2) assms(2)] True by simp_all
    then show ?thesis using True by (simp add: pick_def outcome_sound_def)
  next
    case False
    then show ?thesis using routed_side(1) [OF t(1) assms(2)] routed_side(1) [OF t(2) assms(2)] skipped_sound
      by (auto simp: pick_def outcome_sound_def)
  qed
  obtain sides where s: "mapE (\<lambda>es. try_routed q adapter (pair\<lparr>p_entries := es\<rparr>) ref) (filter (\<lambda>s. s \<noteq> []) [side_of pair True, side_of pair False]) = Inr sides"
    "out = pick sides"
    using assms(1) unfolding route_everything_def bindE_Inr_iff pick_def by blast
  have none: "outcome_sound q pair ref (pick [])" by (simp add: pick_def skipped_sound)
  show ?thesis unfolding s(2)
  proof (cases "side_of pair True = []"; cases "side_of pair False = []")
    assume "side_of pair True = []" "side_of pair False = []"
    then show "outcome_sound q pair ref (pick sides)" using s(1) none by simp
  next
    assume "side_of pair True = []" "side_of pair False \<noteq> []"
    then obtain o1 where "sides = [o1]" "?attempt False = Inr o1" using s(1) by auto
    then show "outcome_sound q pair ref (pick sides)" using one by blast
  next
    assume "side_of pair True \<noteq> []" "side_of pair False = []"
    then obtain o1 where "sides = [o1]" "?attempt True = Inr o1" using s(1) by auto
    then show "outcome_sound q pair ref (pick sides)" using one by blast
  next
    assume "side_of pair True \<noteq> []" "side_of pair False \<noteq> []"
    then obtain o1 o2 where "sides = [o1, o2]" "?attempt True = Inr o1" "?attempt False = Inr o2" using s(1) by auto
    then show "outcome_sound q pair ref (pick sides)" using two by blast
  qed
qed

section \<open>A pair is solved or skipped\<close>

definition inputs_ok :: "inputs \<Rightarrow> bool" where
  "inputs_ok inp \<longleftrightarrow> 0 \<le> np_maxDeviationBps inp \<and> np_maxDeviationBps inp \<le> 10000
     \<and> (\<forall>(t, r)\<in>set (np_oracle inp). case r of Inl _ \<Rightarrow> True | Inr row \<Rightarrow> or_healthy row \<longrightarrow> 0 < or_price row)"

definition reference_of :: "inputs \<Rightarrow> oracle_row \<Rightarrow> oracle_row \<Rightarrow> reference" where
  "reference_of inp qr br = \<lparr>r_quotePrice = or_price qr, r_basePrice = or_price br, r_maxDeviationBps = np_maxDeviationBps inp\<rparr>"

lemma oracle_of_pos:
  assumes "inputs_ok inp" "oracle_of inp t = Some row"
  shows "0 < or_price row"
proof -
  have m: "map_of (np_oracle inp) (lower t) = Some (Inr row)" "or_healthy row"
    using assms(2) by (auto simp: oracle_of_def split: option.splits sum.splits if_splits)
  have "(lower t, Inr row) \<in> set (np_oracle inp)" by (rule map_of_SomeD [OF m(1)])
  then show ?thesis using assms(1) m(2) by (auto simp: inputs_ok_def)
qed

text \<open>What one pair contributes: nothing, or an outcome good against the prices both tokens were read at.\<close>

definition pair_solved :: "quotes \<Rightarrow> inputs \<Rightarrow> pair \<Rightarrow> pair_outcome \<Rightarrow> bool" where
  "pair_solved q inp pair out \<longleftrightarrow>
     (if po_mode out = Skipped then po_fills out = [] \<and> po_venueCalls out = [] \<and> po_baselines out = []
      else (case (oracle_of inp (p_quote pair), oracle_of inp (p_base pair)) of
              (Some qr, Some br) \<Rightarrow> outcome_ok q pair (reference_of inp qr br) out | _ \<Rightarrow> False))"

lemma solve_pair_solved:
  assumes "solve_pair q adapter inp profile pair = Inr out" "book_ok pair" "caseless q" "inputs_ok inp"
  shows "pair_solved q inp pair out"
proof (cases "oracle_of inp (p_quote pair)"; cases "oracle_of inp (p_base pair)")
  fix qr br assume o: "oracle_of inp (p_quote pair) = Some qr" "oracle_of inp (p_base pair) = Some br"
  let ?ref = "reference_of inp qr br"
  have ref: "valid_reference ?ref"
    using assms(4) oracle_of_pos [OF assms(4) o(1)] oracle_of_pos [OF assms(4) o(2)]
    by (simp add: valid_reference_def reference_of_def inputs_ok_def)
  have run: "(if profile = Profile_b then route_everything q adapter pair ?ref
       else bindE (try_netted q adapter pair ?ref) (\<lambda>netted. if po_mode netted = Netted then Inr netted
         else bindE (try_routed q adapter pair ?ref) (\<lambda>routed. Inr (if po_mode routed = Routed then routed
                   else routed\<lparr>po_reason := Some ((case po_reason netted of Some r \<Rightarrow> r | None \<Rightarrow> []) @ '', and routing failed too: ''
                          @ (case po_reason routed of Some r \<Rightarrow> r | None \<Rightarrow> []))\<rparr>)))) = Inr out"
    using assms(1) unfolding solve_pair_def o reference_of_def Let_def by simp
  have reason: "outcome_sound q pair ?ref (r\<lparr>po_reason := x\<rparr>) = outcome_sound q pair ?ref r" for r x
    by (simp add: outcome_sound_def outcome_ok_def)
  have "outcome_sound q pair ?ref out"
  proof (cases "profile = Profile_b")
    case True
    then show ?thesis using run route_everything_sound [OF _ assms(2)] by simp
  next
    case False
    then obtain netted where n: "try_netted q adapter pair ?ref = Inr netted" using run by auto
    show ?thesis
    proof (cases "po_mode netted = Netted")
      case True
      then show ?thesis using run False n try_netted_sound(1) [OF n assms(2) ref assms(3)] by simp
    next
      case nn: False
      then obtain routed where r: "try_routed q adapter pair ?ref = Inr routed" using run False n by auto
      then show ?thesis using run False n nn try_routed_sound(1) [OF r assms(2)] reason by (auto split: if_splits)
    qed
  qed
  then show ?thesis by (simp add: pair_solved_def outcome_sound_def o)
qed (use assms(1) in \<open>auto simp: solve_pair_def pair_solved_def skipped_def\<close>)


section \<open>The pairs of a batch, solved\<close>

definition batch_ok :: "intent list \<Rightarrow> bool" where
  "batch_ok intents \<longleftrightarrow> (\<forall>i\<in>set intents. 0 < i_sellAmount i \<and> 0 \<le> i_minBuyAmount i)"

definition solved :: "quotes \<Rightarrow> inputs \<Rightarrow> intent list \<Rightarrow> address \<Rightarrow> (pair \<times> pair_outcome) list \<Rightarrow> bool" where
  "solved q inp intents quoteToken PO \<longleftrightarrow> distinct (concat (map (\<lambda>po. indices_of (fst po)) PO))
     \<and> distinct (map (\<lambda>po. lower (p_base (fst po))) PO)
     \<and> (\<forall>po\<in>set PO. book_ok (fst po) \<and> pair_ok quoteToken intents (lower (p_base (fst po))) (fst po) \<and> pair_solved q inp (fst po) (snd po))"

lemma distinct_concat_indices:
  assumes "pairs_of intents quote = (pairs, unsupported)"
  shows "distinct (concat (map indices_of pairs))"
proof -
  have "mset (concat (map indices_of pairs)) = (\<Sum>p\<in>#mset pairs. mset (indices_of p))"
    by (induction pairs) auto
  then have "mset (concat (map indices_of pairs) @ unsupported) = mset [0..<length intents]"
    using pairs_of_partition(1) [OF assms] by simp
  then have "distinct (concat (map indices_of pairs) @ unsupported)" using mset_eq_imp_distinct_iff distinct_upt by blast
  then show ?thesis by simp
qed

lemma pairs_have_entries:
  assumes "pairs_of intents quote = (pairs, unsupported)" "p \<in> set pairs"
  shows "p_entries p \<noteq> []"
proof -
  let ?full = "\<lambda>m. \<forall>kp\<in>set m. p_entries (snd kp) \<noteq> []"
  have step: "?full (fst (pairs_step quote acc ix))" if full: "?full (fst acc)" for acc ix
  proof -
    obtain m us n i where a: "acc = (m, us)" "ix = (n, i)" by (cases acc, cases ix)
    have "?full (AList.update k (p\<lparr>p_entries := es @ [e]\<rparr>) m)" for k p es e
      using full a(1) subsetD [OF set_update_subset_insert] by fastforce
    then show ?thesis using full by (simp add: a pairs_step_def Let_def)
  qed
  have "?full (fst (foldl (pairs_step quote) acc xs))" if "?full (fst acc)" for acc xs
    using that
  proof (induction xs arbitrary: acc)
    case (Cons x xs)
    show ?case unfolding foldl.simps by (rule Cons.IH [OF step [OF Cons.prems]])
  qed simp
  from this [of "([], [])" "enumerate 0 intents"] show ?thesis
    using assms by (auto simp: pairs_of_def split: prod.splits)
qed

lemma pair_book:
  assumes "pairs_of intents quote = (pairs, unsupported)" "batch_ok intents" "p \<in> set pairs"
  shows "book_ok p"
proof -
  have ok: "pair_ok quote intents (lower (p_base p)) p" using pairs_of_partition(2) [OF assms(1)] assms(3) by blast
  have "distinct (indices_of p)" using distinct_concat_indices [OF assms(1)] assms(3) by (simp add: distinct_concat_iff)
  moreover have "0 < i_sellAmount (b_intent e) \<and> 0 \<le> i_minBuyAmount (b_intent e)" if e: "e \<in> set (p_entries p)" for e
  proof -
    have "b_intent e \<in> set intents" using ok e by (auto simp: pair_ok_def entry_ok_def)
    then show ?thesis using assms(2) by (simp add: batch_ok_def)
  qed
  moreover have "trades p (b_intent e)" if e: "e \<in> set (p_entries p)" for e
  proof -
    have "same (i_sellToken (b_intent e)) quote \<noteq> same (i_buyToken (b_intent e)) quote" "p_quote p = quote"
      "same (base_token quote (b_intent e)) (p_base p)" using ok e by (auto simp: pair_ok_def entry_ok_def)
    then show ?thesis by (cases "same (i_sellToken (b_intent e)) quote") (simp_all add: trades_def base_token_def)
  qed
  moreover have "\<not> same (p_base p) (p_quote p)"
  proof -
    obtain e where e: "e \<in> set (p_entries p)"
      using pairs_have_entries [OF assms(1,3)] by (cases "p_entries p") auto
    then have i: "same (i_sellToken (b_intent e)) quote \<noteq> same (i_buyToken (b_intent e)) quote" "p_quote p = quote"
      "same (base_token quote (b_intent e)) (p_base p)" using ok by (auto simp: pair_ok_def entry_ok_def)
    show ?thesis
    proof
      assume "same (p_base p) (p_quote p)"
      then have "same (base_token quote (b_intent e)) quote" using i(2,3) by (metis same_trans)
      then show False using i(1) by (auto simp: base_token_def split: if_splits)
    qed
  qed
  ultimately show ?thesis by (auto simp: book_ok_def valid_pair_def less_imp_le)
qed


lemma distinct_concat_sub:
  assumes "list_all2 (\<lambda>xs ys. distinct xs \<and> set xs \<subseteq> set ys) xss yss" "distinct (concat yss)"
  shows "distinct (concat xss)" "set (concat xss) \<subseteq> set (concat yss)"
proof -
  have "distinct (concat xss) \<and> set (concat xss) \<subseteq> set (concat yss)"
    using assms by (induction rule: list_all2_induct) fastforce+
  then show "distinct (concat xss)" "set (concat xss) \<subseteq> set (concat yss)" by simp_all
qed

lemma solved_outcome:
  assumes "solved q inp intents quoteToken PO" "po \<in> set PO" "po_mode (snd po) \<noteq> Skipped"
  obtains qr br where "oracle_of inp quoteToken = Some qr" "oracle_of inp (p_base (fst po)) = Some br"
    "outcome_ok q (fst po) (reference_of inp qr br) (snd po)" "book_ok (fst po)" "p_quote (fst po) = quoteToken"
    "pair_ok quoteToken intents (lower (p_base (fst po))) (fst po)"
proof -
  have h: "book_ok (fst po)" "pair_ok quoteToken intents (lower (p_base (fst po))) (fst po)" "pair_solved q inp (fst po) (snd po)"
    using assms(1,2) by (auto simp: solved_def)
  moreover have "p_quote (fst po) = quoteToken" using h(2) by (simp add: pair_ok_def)
  ultimately show thesis using that assms(3)
    by (cases "oracle_of inp quoteToken"; cases "oracle_of inp (p_base (fst po))") (simp_all add: pair_solved_def)
qed

lemma solved_fill:
  assumes "solved q inp intents quoteToken PO" "po \<in> set PO" "f \<in> set (po_fills (snd po))"
  shows "po_mode (snd po) \<noteq> Skipped" "f_index f < length intents" "filled (fst po) f (intents ! f_index f)"
    "trades (fst po) (intents ! f_index f)" "f_index f \<in> set (indices_of (fst po))"
proof -
  show m: "po_mode (snd po) \<noteq> Skipped" using assms by (auto simp: solved_def pair_solved_def)
  obtain qr br where o: "outcome_ok q (fst po) (reference_of inp qr br) (snd po)" "book_ok (fst po)"
    "pair_ok quoteToken intents (lower (p_base (fst po))) (fst po)"
    using solved_outcome [OF assms(1,2) m] by metis
  obtain i where i: "filled (fst po) f i" using o(1) assms(3) by (auto simp: outcome_ok_def)
  then obtain e where e: "e \<in> set (p_entries (fst po))" "b_index e = f_index f" "b_intent e = i" by (auto simp: filled_def)
  then have "f_index f < length intents \<and> i = intents ! f_index f" using o(3) by (auto simp: pair_ok_def entry_ok_def)
  then show "f_index f < length intents" "filled (fst po) f (intents ! f_index f)" "trades (fst po) (intents ! f_index f)"
    using i e o(2) by (auto simp: book_ok_def)
  show "f_index f \<in> set (indices_of (fst po))" using e(1,2) by force
qed

lemma solved_distinct:
  assumes "solved q inp intents quoteToken PO"
  shows "distinct (map f_index (concat (map (\<lambda>po. po_fills (snd po)) PO)))"
    "distinct (map fst (concat (map (\<lambda>po. po_baselines (snd po)) PO)))"
proof -
  have d: "distinct (concat (map (\<lambda>po. indices_of (fst po)) PO))" using assms by (simp add: solved_def)
  have one: "distinct (map f_index (po_fills (snd po))) \<and> set (map f_index (po_fills (snd po))) \<subseteq> set (indices_of (fst po))
    \<and> distinct (map fst (po_baselines (snd po))) \<and> set (map fst (po_baselines (snd po))) \<subseteq> set (indices_of (fst po))" if po: "po \<in> set PO" for po
  proof (cases "po_mode (snd po) = Skipped")
    case True
    then show ?thesis using assms po by (auto simp: solved_def pair_solved_def)
  next
    case False
    then obtain qr br where o: "outcome_ok q (fst po) (reference_of inp qr br) (snd po)" using solved_outcome [OF assms po] by metis
    then have "f_index ` set (po_fills (snd po)) \<subseteq> set (indices_of (fst po))" using solved_fill(5) [OF assms po] by blast
    then show ?thesis using o by (simp add: outcome_ok_def baselines_ok_def)
  qed
  show "distinct (map f_index (concat (map (\<lambda>po. po_fills (snd po)) PO)))"
    unfolding map_concat using one by (intro distinct_concat_sub [OF _ d]) (auto simp: list_all2_conv_all_nth)
  show "distinct (map fst (concat (map (\<lambda>po. po_baselines (snd po)) PO)))"
    unfolding map_concat using one by (intro distinct_concat_sub [OF _ d]) (auto simp: list_all2_conv_all_nth)
qed

text \<open>Two contributions hold fills of different pairs, so a base token names the contribution.\<close>

lemma solved_base:
  assumes "solved q inp intents quoteToken PO" "po \<in> set PO" "po' \<in> set PO" "same (p_base (fst po)) (p_base (fst po'))"
  shows "po = po'"
  using assms by (auto simp: solved_def same_def distinct_map dest: inj_onD)

lemma map_of_rev_distinct: "distinct (map fst xs) \<Longrightarrow> map_of (rev xs) = map_of xs"
proof
  fix k assume d: "distinct (map fst xs)"
  show "map_of (rev xs) k = map_of xs k"
  proof (cases "map_of xs k")
    case None
    then have "map_of (rev xs) k = None" unfolding map_of_eq_None_iff by simp
    then show ?thesis using None by simp
  qed (use d in \<open>auto simp: rev_map [symmetric] intro!: map_of_is_SomeI dest: map_of_SomeD\<close>)
qed

text \<open>The two maps \<open>assemble\<close> builds: prices by base token, baselines by index.\<close>

lemma base_prices:
  assumes "solved q inp intents quoteToken PO"
  shows "map_of (rev (map (\<lambda>out. (lower (po_base out), po_basePrice out)) (filter (\<lambda>out. po_mode out \<noteq> Skipped) (map snd PO)))) k = Some p
    \<longleftrightarrow> (\<exists>po\<in>set PO. po_mode (snd po) \<noteq> Skipped \<and> lower (p_base (fst po)) = k \<and> po_basePrice (snd po) = p)"
proof -
  let ?live = "filter (\<lambda>po. po_mode (snd po) \<noteq> Skipped) PO"
  have b: "po_base (snd po) = p_base (fst po)" if "po \<in> set ?live" for po
    using that solved_outcome [OF assms, of po] by (auto simp: outcome_ok_def)
  have m: "map (\<lambda>out. (lower (po_base out), po_basePrice out)) (filter (\<lambda>out. po_mode out \<noteq> Skipped) (map snd PO))
      = map (\<lambda>po. (lower (p_base (fst po)), po_basePrice (snd po))) ?live"
    using b by (simp add: filter_map comp_def)
  have d: "distinct (map fst (map (\<lambda>po. (lower (p_base (fst po)), po_basePrice (snd po))) ?live))"
    using assms by (simp add: solved_def comp_def distinct_map_filter)
  show ?thesis unfolding m map_of_rev_distinct [OF d] using map_of_eq_Some_iff [OF d] by auto
qed

lemma baselines_by_index:
  assumes "solved q inp intents quoteToken PO" "po \<in> set PO" "f \<in> set (po_fills (snd po))"
  shows "map_of (rev (concat (map po_baselines (map snd PO)))) (f_index f) = Some (baseline_of (po_baselines (snd po)) f)"
proof -
  have d: "distinct (map fst (concat (map po_baselines (map snd PO))))" using solved_distinct(2) [OF assms(1)] by (simp add: comp_def)
  obtain qr br where o: "outcome_ok q (fst po) (reference_of inp qr br) (snd po)"
    using solved_outcome [OF assms(1,2) solved_fill(1) [OF assms]] by metis
  then have "f_index f \<in> fst ` set (po_baselines (snd po))" using assms(3) by (auto simp: outcome_ok_def baselines_ok_def)
  then obtain v where "map_of (po_baselines (snd po)) (f_index f) = Some v" by (metis map_of_eq_None_iff not_None_eq)
  then have "(f_index f, v) \<in> set (po_baselines (snd po))" "v = baseline_of (po_baselines (snd po)) f"
    by (auto simp: baseline_of_def dest: map_of_SomeD)
  then show ?thesis unfolding map_of_rev_distinct [OF d] using assms(2) by (intro map_of_is_SomeI [OF d]) auto
qed


section \<open>The solution they make\<close>

definition fills_in :: "(pair \<times> pair_outcome) list \<Rightarrow> fill list" where
  "fills_in PO = concat (map (\<lambda>po. po_fills (snd po)) PO)"

definition calls_in :: "(pair \<times> pair_outcome) list \<Rightarrow> venue_call list" where
  "calls_in PO = concat (map (\<lambda>po. po_venueCalls (snd po)) PO)"

text \<open>The price of a token: the oracle's for the quote token, else the one its pair settled on.\<close>

definition priced_at :: "inputs \<Rightarrow> address \<Rightarrow> (pair \<times> pair_outcome) list \<Rightarrow> address \<Rightarrow> int \<Rightarrow> bool" where
  "priced_at inp quoteToken PO t p \<longleftrightarrow> (if same t quoteToken then oracle_price inp t = Inr p
     else \<exists>po\<in>set PO. po_mode (snd po) \<noteq> Skipped \<and> same (p_base (fst po)) t \<and> po_basePrice (snd po) = p)"

definition placed :: "inputs \<Rightarrow> intent list \<Rightarrow> address \<Rightarrow> (pair \<times> pair_outcome) list \<Rightarrow> fill list \<Rightarrow> solution \<Rightarrow> bool" where
  "placed inp intents quoteToken PO used s \<longleftrightarrow> mset used = mset (fills_in PO) \<and> distinct (map f_index used)
     \<and> sorted (map f_index used)
     \<and> s_intents s = map (\<lambda>f. intents ! f_index f) used
     \<and> s_executions s = map (\<lambda>(n, f). \<lparr>e_intentIndex = int n, e_executedSell = f_executedSell f, e_executedBuy = f_executedBuy f\<rparr>) (enumerate 0 used)
     \<and> length (s_baselineQuotes s) = length used
     \<and> (\<forall>n<length used. \<forall>po\<in>set PO. used ! n \<in> set (po_fills (snd po)) \<longrightarrow> s_baselineQuotes s ! n = baseline_of (po_baselines (snd po)) (used ! n))
     \<and> s_tokens s = (if used = [] then [] else order_tokens (s_intents s) quoteToken)
     \<and> length (s_prices s) = length (s_tokens s)
     \<and> (\<forall>t<length (s_tokens s). priced_at inp quoteToken PO (s_tokens s ! t) (s_prices s ! t))
     \<and> s_venueCalls s = calls_in PO
     \<and> (if used = [] then s_claimedSavings s = 0
        else claimed_savings (s_executions s) (s_baselineQuotes s) (s_prices s) (s_intents s) (s_tokens s) = Inr (s_claimedSavings s))"

interpretation by_index: keyed_comparator "\<lambda>a b. int (f_index a) - int (f_index b)" f_index
  by unfold_locales simp_all

lemma mapE_all_Inr: "mapE f xs = Inr ys \<Longrightarrow> (\<And>x y. x \<in> set xs \<Longrightarrow> f x = Inr y \<Longrightarrow> y = g x) \<Longrightarrow> ys = map g xs"
  by (induction xs arbitrary: ys) auto

lemma places:
  assumes "distinct (map f_index used)" "n < length used"
  shows "map_of (rev (map (\<lambda>(n, f). (f_index f, n)) (enumerate 0 used))) (f_index (used ! n)) = Some n"
proof -
  let ?m = "map (\<lambda>(n, f). (f_index f, n)) (enumerate 0 used)"
  have d: "distinct (map fst ?m)"
  proof -
    have "map fst ?m = map f_index (map snd (enumerate 0 used))" by (rule nth_equalityI) (simp_all add: nth_enumerate_eq)
    then show ?thesis using assms(1) by (simp only: map_snd_enumerate)
  qed
  have "(n, used ! n) \<in> set (enumerate 0 used)" using assms(2) by (simp add: in_set_enumerate_eq)
  then have "(f_index (used ! n), n) \<in> set ?m" by force
  then show ?thesis unfolding map_of_rev_distinct [OF d] by (rule map_of_is_SomeI [OF d])
qed

lemma assemble_placed:
  assumes "assemble batchId signed quoteToken solver inp (map snd PO) = Inr s" "solved q inp (map sg_intent signed) quoteToken PO"
  shows "\<exists>used. placed inp (map sg_intent signed) quoteToken PO used s"
proof -
  let ?intents = "map sg_intent signed"
  define used where "used = js_sort (\<lambda>a b. int (f_index a) - int (f_index b)) (concat (map po_fills (map snd PO)))"
  let ?position = "map_of (rev (map (\<lambda>(n, f). (f_index f, n)) (enumerate 0 used)))"
  let ?basePrice = "map_of (rev (map (\<lambda>out. (lower (po_base out), po_basePrice out)) (filter (\<lambda>out. po_mode out \<noteq> Skipped) (map snd PO))))"
  let ?baselineByIndex = "map_of (rev (concat (map po_baselines (map snd PO))))"
  have fills: "concat (map po_fills (map snd PO)) = fills_in PO" by (simp add: fills_in_def comp_def)
  have u: "mset used = mset (fills_in PO)" "distinct (map f_index used)" "sorted (map f_index used)"
    using solved_distinct(1) [OF assms(2)] by_index.sorted_sort unfolding used_def fills by (simp_all add: fills_in_def)
  have inPO: "\<exists>po\<in>set PO. f \<in> set (po_fills (snd po))" if "f \<in> set used" for f
    using that u(1) by (auto simp: fills_in_def dest: mset_eq_setD)
  obtain rows prices executions baselineQuotes savings where a:
    "mapE (\<lambda>f. read_at signed (f_index f)) used = Inr rows"
    "mapE (\<lambda>t. if same t quoteToken then oracle_price inp t
               else case ?basePrice (lower t) of Some p \<Rightarrow> Inr p | None \<Rightarrow> Inl TypeError)
       (if map sg_intent rows = [] then [] else order_tokens (map sg_intent rows) quoteToken) = Inr prices"
    "mapE (\<lambda>f. case ?position (f_index f) of None \<Rightarrow> Inl TypeError
       | Some n \<Rightarrow> Inr \<lparr>e_intentIndex = int n, e_executedSell = f_executedSell f, e_executedBuy = f_executedBuy f\<rparr>) used = Inr executions"
    "mapE (\<lambda>f. case ?baselineByIndex (f_index f) of None \<Rightarrow> Inl TypeError | Some v \<Rightarrow> Inr v) used = Inr baselineQuotes"
    "(if map sg_intent rows = [] then Inr 0 else claimed_savings executions baselineQuotes prices (map sg_intent rows)
       (if map sg_intent rows = [] then [] else order_tokens (map sg_intent rows) quoteToken)) = Inr savings"
    "s = \<lparr>s_batchId = batchId, s_intents = map sg_intent rows, s_signatures = map sg_signature rows,
       s_tokens = (if map sg_intent rows = [] then [] else order_tokens (map sg_intent rows) quoteToken), s_prices = prices,
       s_executions = executions, s_venueCalls = concat (map po_venueCalls (map snd PO)), s_baselineQuotes = baselineQuotes,
       s_claimedSavings = savings, s_solver = solver\<rparr>"
    using assms(1) unfolding assemble_def Let_def bindE_Inr_iff used_def [symmetric] by (elim exE conjE) (erule that, assumption+, simp)
  have rows: "rows = map (\<lambda>f. signed ! f_index f) used" using a(1) by (rule mapE_all_Inr) simp
  have len: "f_index f < length signed" if "f \<in> set used" for f
    using inPO [OF that] solved_fill(2) [OF assms(2)] by auto
  have ints: "map sg_intent rows = map (\<lambda>f. ?intents ! f_index f) used" by (simp add: rows len)
  have nil: "rows = [] \<longleftrightarrow> used = []" by (simp add: rows)
  have "executions = map (\<lambda>(n, f). \<lparr>e_intentIndex = int n, e_executedSell = f_executedSell f, e_executedBuy = f_executedBuy f\<rparr>) (enumerate 0 used)"
  proof (rule nth_equalityI)
    show "length executions = length (map (\<lambda>(n, f). \<lparr>e_intentIndex = int n, e_executedSell = f_executedSell f, e_executedBuy = f_executedBuy f\<rparr>) (enumerate 0 used))"
      using mapE_Inr_length [OF a(3)] by simp
    fix n assume "n < length executions"
    then have n: "n < length used" using mapE_Inr_length [OF a(3)] by simp
    show "executions ! n = map (\<lambda>(n, f). \<lparr>e_intentIndex = int n, e_executedSell = f_executedSell f, e_executedBuy = f_executedBuy f\<rparr>) (enumerate 0 used) ! n"
      using mapE_Inr_nth [OF a(3) n] n by (simp add: places [OF u(2) n] nth_enumerate_eq)
  qed
  moreover have "baselineQuotes ! n = baseline_of (po_baselines (snd po)) (used ! n)"
    if "n < length used" "po \<in> set PO" "used ! n \<in> set (po_fills (snd po))" for n po
    using mapE_Inr_nth [OF a(4) that(1)] baselines_by_index [OF assms(2) that(2,3)] by simp
  moreover have "priced_at inp quoteToken PO (s_tokens s ! t) (prices ! t)" if t: "t < length (s_tokens s)" for t
  proof -
    have T: "s_tokens s = (if map sg_intent rows = [] then [] else order_tokens (map sg_intent rows) quoteToken)" by (simp add: a(6))
    have p: "(if same (s_tokens s ! t) quoteToken then oracle_price inp (s_tokens s ! t)
        else case ?basePrice (lower (s_tokens s ! t)) of Some p \<Rightarrow> Inr p | None \<Rightarrow> Inl TypeError) = Inr (prices ! t)"
      using mapE_Inr_nth [OF a(2) [folded T] t] by simp
    show ?thesis
    proof (cases "same (s_tokens s ! t) quoteToken")
      case True
      then show ?thesis using p by (simp add: priced_at_def)
    next
      case False
      then have "?basePrice (lower (s_tokens s ! t)) = Some (prices ! t)" using p by (auto split: option.splits)
      then show ?thesis using False unfolding priced_at_def base_prices [OF assms(2)] same_def by auto
    qed
  qed
  ultimately have "placed inp ?intents quoteToken PO used s"
    using u mapE_Inr_length [OF a(2)] mapE_Inr_length [OF a(4)] a(5)
    unfolding placed_def ints [symmetric] by (auto simp: a(6) calls_in_def comp_def nil)
  then show ?thesis by blast
qed

lemma pairs_solved:
  assumes "pairs_of (map sg_intent signed) quoteToken = (pairs, unsupported)" "mapE (solve_pair q adapter inp profile) pairs = Inr outcomes"
    "batch_ok (map sg_intent signed)" "caseless q" "inputs_ok inp"
  shows "solved q inp (map sg_intent signed) quoteToken (zip pairs outcomes)"
proof -
  let ?PO = "zip pairs outcomes"
  have len: "length outcomes = length pairs" using mapE_Inr_length [OF assms(2)] .
  then have outs: "map snd ?PO = outcomes" "map fst ?PO = pairs" by simp_all
  have "book_ok (fst po) \<and> pair_ok quoteToken (map sg_intent signed) (lower (p_base (fst po))) (fst po) \<and> pair_solved q inp (fst po) (snd po)"
    if po: "po \<in> set ?PO" for po
  proof -
    obtain k where "k < length ?PO" "?PO ! k = po" using po by (meson in_set_conv_nth)
    then have k: "k < length pairs" "po = (pairs ! k, outcomes ! k)" using len by simp_all
    have "pairs ! k \<in> set pairs" using k(1) by simp
    then show ?thesis
      using k pair_book [OF assms(1,3)] pairs_of_partition(2) [OF assms(1)] solve_pair_solved [OF mapE_Inr_nth [OF assms(2) k(1)] _ assms(4,5)] by simp
  qed
  moreover have "map (\<lambda>po. indices_of (fst po)) ?PO = map indices_of pairs" "map (\<lambda>po. lower (p_base (fst po))) ?PO = map (\<lambda>p. lower (p_base p)) pairs"
    using outs(2) by (metis (no_types, lifting) comp_apply map_eq_conv map_map)+
  ultimately show ?thesis
    using distinct_concat_indices [OF assms(1)] pairs_of_partition(3) [OF assms(1)] by (simp add: solved_def)
qed

lemma solve_placed:
  assumes "solve q adapter batchId signed quoteToken solver inp profile = Inr plan" "batch_ok (map sg_intent signed)" "caseless q" "inputs_ok inp"
  obtains PO used where "solved q inp (map sg_intent signed) quoteToken PO" "placed inp (map sg_intent signed) quoteToken PO used (sp_solution plan)"
    "map snd PO = sp_pairs plan"
proof -
  obtain pairs unsupported outcomes s where p: "pairs_of (map sg_intent signed) quoteToken = (pairs, unsupported)"
    "mapE (solve_pair q adapter inp profile) pairs = Inr outcomes" "assemble batchId signed quoteToken solver inp outcomes = Inr s"
    "plan = \<lparr>sp_solution = s, sp_pairs = outcomes, sp_unsupported = unsupported\<rparr>"
    using assms(1) by (auto simp: solve_def split: prod.splits)
  let ?PO = "zip pairs outcomes"
  have outs: "map snd ?PO = outcomes" using mapE_Inr_length [OF p(2)] by simp
  have sol: "solved q inp (map sg_intent signed) quoteToken ?PO" by (rule pairs_solved [OF p(1,2) assms(2-4)])
  obtain used where "placed inp (map sg_intent signed) quoteToken ?PO used s"
    using assemble_placed [of batchId signed quoteToken solver inp ?PO s, unfolded outs, OF p(3) sol] by blast
  then show thesis using that [OF sol] outs p(4) by simp
qed

section \<open>Reading the solution back\<close>

lemma foldE_total: "(\<And>s x. x \<in> set xs \<Longrightarrow> \<exists>s'. f s x = Inr s') \<Longrightarrow> \<exists>s'. foldE f s xs = Inr s'"
proof (induction xs arbitrary: s)
  case (Cons x xs)
  obtain s' where "f s x = Inr s'" using Cons.prems [of x s] by auto
  then show ?case using Cons.IH [of s'] Cons.prems by simp
qed simp

lemma placed_tokens:
  assumes "placed inp intents quoteToken PO used s"
  shows "distinct (map lower (s_tokens s))"
  using assms order_tokens_distinct by (auto simp: placed_def)

lemma token_place:
  assumes "distinct (map lower tokens)" "t < length tokens"
  shows "token_index tokens x = Inr t \<longleftrightarrow> same x (tokens ! t)"
  using token_index_unique [OF assms] token_index_Inr(2) [of tokens x t] by (auto intro: same_sym)

lemma used_fill:
  assumes "placed inp intents quoteToken PO used s" "f \<in> set used"
  obtains po where "po \<in> set PO" "f \<in> set (po_fills (snd po))"
  using assms by (auto simp: placed_def fills_in_def dest!: mset_eq_setD)

lemma fill_used:
  assumes "placed inp intents quoteToken PO used s" "po \<in> set PO" "f \<in> set (po_fills (snd po))"
  shows "f \<in> set used"
  using assms by (auto simp: placed_def fills_in_def dest!: mset_eq_setD)

text \<open>The tokens of a used fill, and the two tokens of a pair that contributed, are in the list.\<close>

lemma fill_tokens:
  assumes "placed inp intents quoteToken PO used s" "f \<in> set used"
  shows "\<exists>a. token_index (s_tokens s) (i_sellToken (intents ! f_index f)) = Inr a"
    "\<exists>b. token_index (s_tokens s) (i_buyToken (intents ! f_index f)) = Inr b"
proof -
  have "intents ! f_index f \<in> set (s_intents s)" using assms by (auto simp: placed_def)
  then have n: "i_sellToken (intents ! f_index f) \<in> set (tokens_named (s_intents s))" "i_buyToken (intents ! f_index f) \<in> set (tokens_named (s_intents s))"
    by auto
  have t: "s_tokens s = order_tokens (s_intents s) quoteToken" using assms by (auto simp: placed_def)
  show "\<exists>a. token_index (s_tokens s) (i_sellToken (intents ! f_index f)) = Inr a"
    "\<exists>b. token_index (s_tokens s) (i_buyToken (intents ! f_index f)) = Inr b"
    unfolding t using n order_tokens_complete by (blast intro: token_index_total)+
qed

lemma pair_tokens:
  assumes "solved q inp intents quoteToken PO" "placed inp intents quoteToken PO used s" "po \<in> set PO" "po_mode (snd po) \<noteq> Skipped"
  shows "\<exists>a. token_index (s_tokens s) quoteToken = Inr a" "\<exists>b. token_index (s_tokens s) (p_base (fst po)) = Inr b"
proof -
  obtain qr br where o: "outcome_ok q (fst po) (reference_of inp qr br) (snd po)" "p_quote (fst po) = quoteToken"
    using solved_outcome [OF assms(1,3,4)] by metis
  obtain f where f: "f \<in> set (po_fills (snd po))" using o(1) by (cases "po_fills (snd po)") (auto simp: outcome_ok_def)
  have u: "f \<in> set used" by (rule fill_used [OF assms(2,3) f])
  have tr: "trades (fst po) (intents ! f_index f)" by (rule solved_fill(4) [OF assms(1,3) f])
  have d: "distinct (map lower (s_tokens s))" by (rule placed_tokens [OF assms(2)])
  have via: "\<exists>b. token_index (s_tokens s) y = Inr b" if "token_index (s_tokens s) x = Inr a" "same x y" for x y a
  proof -
    have "a < length (s_tokens s)" "same y (s_tokens s ! a)" using token_index_Inr [OF that(1)] that(2) by (auto simp: same_def)
    then show ?thesis using token_place [OF d] by blast
  qed
  show "\<exists>a. token_index (s_tokens s) quoteToken = Inr a" "\<exists>b. token_index (s_tokens s) (p_base (fst po)) = Inr b"
    using fill_tokens [OF assms(2) u] via tr o(2) unfolding trades_def by (metis (full_types))+
qed

lemma price_base:
  assumes "solved q inp intents quoteToken PO" "placed inp intents quoteToken PO used s" "po \<in> set PO" "po_mode (snd po) \<noteq> Skipped"
    "token_index (s_tokens s) x = Inr t" "same x (p_base (fst po))"
  shows "s_prices s ! t = po_basePrice (snd po)"
proof -
  have t: "t < length (s_tokens s)" "same (s_tokens s ! t) (p_base (fst po))" using token_index_Inr [OF assms(5)] assms(6) by (auto simp: same_def)
  have "book_ok (fst po)" "p_quote (fst po) = quoteToken" using solved_outcome [OF assms(1,3,4)] by metis+
  then have nq: "\<not> same (s_tokens s ! t) quoteToken" using t(2) by (auto simp: book_ok_def same_def)
  have "priced_at inp quoteToken PO (s_tokens s ! t) (s_prices s ! t)" using assms(2) t(1) by (auto simp: placed_def)
  then obtain po' where "po' \<in> set PO" "same (p_base (fst po')) (s_tokens s ! t)" "po_basePrice (snd po') = s_prices s ! t"
    using nq by (auto simp: priced_at_def)
  then show ?thesis using solved_base [OF assms(1,3)] t(2) by (metis same_sym same_trans)
qed

lemma price_quote:
  assumes "placed inp intents quoteToken PO used s" "token_index (s_tokens s) x = Inr t" "same x quoteToken" "oracle_of inp quoteToken = Some qr"
  shows "s_prices s ! t = or_price qr"
proof -
  have t: "t < length (s_tokens s)" "same (s_tokens s ! t) quoteToken" using token_index_Inr [OF assms(2)] assms(3) by (auto simp: same_def)
  then have "oracle_price inp (s_tokens s ! t) = Inr (s_prices s ! t)" using assms(1) by (auto simp: placed_def priced_at_def)
  moreover have "lower (s_tokens s ! t) = lower quoteToken" using t(2) by (simp add: same_def)
  ultimately show ?thesis using assms(4) by (auto simp: oracle_price_def oracle_of_def split: option.splits sum.splits if_splits)
qed

text \<open>A sum over the executions is a sum over the fills they came from, pair by pair.\<close>

lemma sum_placed:
  assumes "placed inp intents quoteToken PO used s"
    "\<And>n. n < length used \<Longrightarrow> g n (s_executions s ! n) = h (used ! n)"
  shows "(\<Sum>(n, e)\<leftarrow>enumerate 0 (s_executions s). g n e) = (\<Sum>po\<leftarrow>PO. \<Sum>f\<leftarrow>po_fills (snd po). h f :: int)"
proof -
  have len: "length (s_executions s) = length used" using assms(1) by (simp add: placed_def)
  have "map (\<lambda>(n, e). g n e) (enumerate 0 (s_executions s)) = map h used"
    using assms(2) len by (intro nth_equalityI) (auto simp: nth_enumerate_eq)
  moreover have "(\<Sum>f\<leftarrow>used. h f) = (\<Sum>f\<leftarrow>fills_in PO. h f)"
    using assms(1) by (intro sum_list_mset_cong) (simp add: placed_def)
  moreover have "(\<Sum>f\<leftarrow>fills_in PO. h f) = (\<Sum>po\<leftarrow>PO. \<Sum>f\<leftarrow>po_fills (snd po). h f)"
    unfolding fills_in_def by (induction PO) simp_all
  ultimately show ?thesis by simp
qed

lemma placed_execution:
  assumes "placed inp intents quoteToken PO used s" "n < length used"
  shows "s_executions s ! n = \<lparr>e_intentIndex = int n, e_executedSell = f_executedSell (used ! n), e_executedBuy = f_executedBuy (used ! n)\<rparr>"
    "js_at (s_intents s) (int n) = Some (intents ! f_index (used ! n))"
  using assms by (auto simp: placed_def nth_enumerate_eq)


section \<open>What the verifier asks of one execution\<close>

definition execution_verified :: "solution \<Rightarrow> nat \<Rightarrow> bool" where
  "execution_verified s n =
     (let e = s_executions s ! n; i = s_intents s ! n in
      e_intentIndex e = int n \<and> 0 < e_executedSell e \<and> e_executedSell e \<le> i_sellAmount i
      \<and> (e_executedSell e = i_sellAmount i \<or> partial_fill (i_flags i)) \<and> e_executedBuy e \<noteq> 0
      \<and> limit_respected (e_executedBuy e) (i_sellAmount i) (i_minBuyAmount i) (e_executedSell e)
      \<and> s_baselineQuotes s ! n \<le> e_executedBuy e
      \<and> (case (token_index (s_tokens s) (i_sellToken i), token_index (s_tokens s) (i_buyToken i)) of
           (Inr a, Inr b) \<Rightarrow> a \<noteq> b
             \<and> uniform_price_holds (e_executedSell e) (e_executedBuy e) (s_prices s ! a) (s_prices s ! b) FEE_CAP_NOTIONAL_BPS
         | _ \<Rightarrow> False))"

lemma placed_verified:
  assumes "solved q inp intents quoteToken PO" "placed inp intents quoteToken PO used s" "n < length used"
  shows "execution_verified s n"
proof -
  let ?f = "used ! n" and ?i = "intents ! f_index (used ! n)"
  have fu: "?f \<in> set used" using assms(3) by simp
  obtain po where po: "po \<in> set PO" "?f \<in> set (po_fills (snd po))" by (rule used_fill [OF assms(2) fu])
  note sf = solved_fill [OF assms(1) po]
  obtain qr br where o: "oracle_of inp quoteToken = Some qr" "outcome_ok q (fst po) (reference_of inp qr br) (snd po)" "book_ok (fst po)"
    "p_quote (fst po) = quoteToken"
    by (rule solved_outcome [OF assms(1) po(1) sf(1)])
  have v: "valid_pair (fst po)" "\<not> same (p_base (fst po)) quoteToken" using o(3,4) by (simp_all add: book_ok_def)
  obtain j where "filled (fst po) ?f j" "fill_ok (fst po) (reference_of inp qr br) (po_basePrice (snd po)) ?f j"
    using o(2) po(2) by (auto simp: outcome_ok_def)
  then have ok: "fill_ok (fst po) (reference_of inp qr br) (po_basePrice (snd po)) ?f ?i"
    using filled_unique [OF v(1) sf(3)] by metis
  obtain a b where ab: "token_index (s_tokens s) (i_sellToken ?i) = Inr a" "token_index (s_tokens s) (i_buyToken ?i) = Inr b"
    using fill_tokens [OF assms(2) fu] by blast
  have bl: "s_baselineQuotes s ! n \<le> f_executedBuy ?f"
    using assms(2,3) po o(2) by (auto simp: placed_def outcome_ok_def baselines_ok_def)
  have prices: "if same (i_sellToken ?i) quoteToken then s_prices s ! a = or_price qr \<and> s_prices s ! b = po_basePrice (snd po)
    else s_prices s ! a = po_basePrice (snd po) \<and> s_prices s ! b = or_price qr"
    using sf(4) price_quote [OF assms(2) ab(1) _ o(1)] price_quote [OF assms(2) ab(2) _ o(1)]
      price_base [OF assms(1,2) po(1) sf(1) ab(1)] price_base [OF assms(1,2) po(1) sf(1) ab(2)]
    unfolding trades_def o(4) by (simp split: if_splits)
  have "a \<noteq> b"
  proof
    assume "a = b"
    then have "same (i_sellToken ?i) (i_buyToken ?i)" using token_index_Inr(2) [OF ab(1)] token_index_Inr(2) [OF ab(2)] by (simp add: same_def)
    then show False using sf(4) v(2) unfolding trades_def o(4) by (auto simp: same_def split: if_splits)
  qed
  moreover have "uniform_price_holds (f_executedSell ?f) (f_executedBuy ?f) (s_prices s ! a) (s_prices s ! b) FEE_CAP_NOTIONAL_BPS"
    using ok prices by (auto simp: fill_ok_def at_uniform_price_def reference_of_def o(4) split: if_splits)
  moreover have "s_intents s ! n = ?i" using assms(2,3) by (simp add: placed_def)
  ultimately show ?thesis
    using ok bl ab by (simp add: execution_verified_def Let_def placed_execution [OF assms(2,3)] fill_ok_def)
qed

text \<open>
  C2. Whatever solve returns, its arrays have one entry per fill and every execution passes the verifier's
  checks at the solution's own prices: it sells a positive amount within the signed size, all of it unless the
  intent allows a partial fill, respects the signed limit, trades two different tokens at the uniform price,
  and receives at least its baseline.
\<close>

theorem solve_executions_verified:
  assumes "solve q adapter batchId signed quoteToken solver inp profile = Inr plan" "batch_ok (map sg_intent signed)"
    "caseless q" "inputs_ok inp"
  shows "let s = sp_solution plan in length (s_intents s) = length (s_executions s) \<and> length (s_baselineQuotes s) = length (s_executions s)
    \<and> length (s_prices s) = length (s_tokens s) \<and> (\<forall>n<length (s_executions s). execution_verified s n)"
proof -
  obtain PO used where p: "solved q inp (map sg_intent signed) quoteToken PO" "placed inp (map sg_intent signed) quoteToken PO used (sp_solution plan)"
    by (rule solve_placed [OF assms])
  have "length (s_executions (sp_solution plan)) = length used" "length (s_intents (sp_solution plan)) = length used"
    using p(2) by (simp_all add: placed_def)
  then show ?thesis using placed_verified [OF p] p(2) by (simp add: Let_def placed_def)
qed

section \<open>Prices stay in the band\<close>

text \<open>
  Every price of a solution is within the session's deviation of a healthy oracle price of its token.
\<close>

theorem solve_prices_in_band:
  assumes "solve q adapter batchId signed quoteToken solver inp profile = Inr plan" "batch_ok (map sg_intent signed)"
    "caseless q" "inputs_ok inp" "t < length (s_tokens (sp_solution plan))"
  shows "\<exists>row. oracle_of inp (s_tokens (sp_solution plan) ! t) = Some row
    \<and> within_band (s_prices (sp_solution plan) ! t) (or_price row) (np_maxDeviationBps inp)"
proof -
  let ?s = "sp_solution plan"
  let ?t = "s_tokens ?s ! t"
  obtain PO used where p: "solved q inp (map sg_intent signed) quoteToken PO" "placed inp (map sg_intent signed) quoteToken PO used ?s"
    by (rule solve_placed [OF assms(1-4)])
  have at_t: "priced_at inp quoteToken PO ?t (s_prices ?s ! t)" using p(2) assms(5) unfolding placed_def by blast
  have same_oracle: "oracle_of inp x = oracle_of inp y" if "same x y" for x y using that by (simp add: oracle_of_def same_def)
  show ?thesis
  proof (cases "same ?t quoteToken")
    case True
    have "used \<noteq> []" using p(2) assms(5) by (auto simp: placed_def)
    then obtain po where po: "po \<in> set PO" "hd used \<in> set (po_fills (snd po))" using used_fill [OF p(2), of "hd used"] by auto
    obtain qr where o: "oracle_of inp quoteToken = Some qr"
      using solved_outcome [OF p(1) po(1) solved_fill(1) [OF p(1) po]] by metis
    have "token_index (s_tokens ?s) ?t = Inr t" using token_place [OF placed_tokens [OF p(2)] assms(5)] by simp
    then have "s_prices ?s ! t = or_price qr" using price_quote [OF p(2) _ True o] by blast
    moreover have "within_band (or_price qr) (or_price qr) (np_maxDeviationBps inp)"
      using assms(4) oracle_of_pos [OF assms(4) o] by (simp add: within_band_def inputs_ok_def)
    ultimately show ?thesis using same_oracle [OF True] o by auto
  next
    case False
    then obtain po where po: "po \<in> set PO" "po_mode (snd po) \<noteq> Skipped" "same (p_base (fst po)) ?t" "po_basePrice (snd po) = s_prices ?s ! t"
      using at_t by (auto simp: priced_at_def)
    obtain qr br where "oracle_of inp (p_base (fst po)) = Some br" "outcome_ok q (fst po) (reference_of inp qr br) (snd po)"
      using solved_outcome [OF p(1) po(1,2)] by metis
    then show ?thesis using po(4) same_oracle [OF po(3)] by (simp add: outcome_ok_def reference_of_def)
  qed
qed

section \<open>Nothing is created\<close>

text \<open>What the fills and calls of one pair move of a token.\<close>

definition moved :: "intent list \<Rightarrow> address \<Rightarrow> pair \<times> pair_outcome \<Rightarrow> int" where
  "moved intents tok po =
     (\<Sum>f\<leftarrow>po_fills (snd po). (if same (i_sellToken (intents ! f_index f)) tok then f_executedSell f else 0)
        - (if same (i_buyToken (intents ! f_index f)) tok then f_executedBuy f else 0)) + call_net tok (po_venueCalls (snd po))"

lemma moved_nonneg:
  assumes "solved q inp intents quoteToken PO" "po \<in> set PO"
  shows "0 \<le> moved intents tok po"
proof (cases "po_mode (snd po) = Skipped")
  case True
  then show ?thesis using assms by (auto simp: solved_def pair_solved_def moved_def call_net_def)
next
  case False
  obtain qr br where o: "outcome_ok q (fst po) (reference_of inp qr br) (snd po)" "book_ok (fst po)"
    using solved_outcome [OF assms False] by metis
  let ?p = "fst po" and ?fs = "po_fills (snd po)" and ?cs = "po_venueCalls (snd po)"
  have v: "valid_pair ?p" "\<not> same (p_base ?p) (p_quote ?p)" using o(2) by (simp_all add: book_ok_def)
  have side: "buys_base ?p f = same (i_sellToken (intents ! f_index f)) (p_quote ?p)" "trades ?p (intents ! f_index f)" if "f \<in> set ?fs" for f
    using solved_fill(3,4) [OF assms that] sells_token_filled [OF v(1)] by (auto simp: buys_base_def)
  have calls: "0 \<le> base_net ?p ?fs + call_net (p_base ?p) ?cs" "0 \<le> quote_net ?p ?fs + call_net (p_quote ?p) ?cs"
    "\<forall>v\<in>set ?cs. (v_tokenIn v = p_quote ?p \<and> v_tokenOut v = p_base ?p) \<or> (v_tokenIn v = p_base ?p \<and> v_tokenOut v = p_quote ?p)"
    using o(1) by (simp_all add: outcome_ok_def calls_ok_def)
  have fills: "(if same (i_sellToken (intents ! f_index f)) tok then f_executedSell f else 0)
        - (if same (i_buyToken (intents ! f_index f)) tok then f_executedBuy f else 0)
      = (if same tok (p_base ?p) then (if buys_base ?p f then - f_executedBuy f else f_executedSell f)
         else if same tok (p_quote ?p) then (if buys_base ?p f then f_executedSell f else - f_executedBuy f) else 0)" if f: "f \<in> set ?fs" for f
    using side [OF f] v(2) unfolding trades_def same_def by (cases "buys_base ?p f") auto
  have net: "call_net tok cs = (if same tok (p_base ?p) then call_net (p_base ?p) cs else if same tok (p_quote ?p) then call_net (p_quote ?p) cs else 0)"
    if "\<forall>v\<in>set cs. (v_tokenIn v = p_quote ?p \<and> v_tokenOut v = p_base ?p) \<or> (v_tokenIn v = p_base ?p \<and> v_tokenOut v = p_quote ?p)" for cs
    using that v(2) by (induction cs) (auto simp: call_net_def same_def)
  have "(\<Sum>f\<leftarrow>?fs. (if same (i_sellToken (intents ! f_index f)) tok then f_executedSell f else 0)
        - (if same (i_buyToken (intents ! f_index f)) tok then f_executedBuy f else 0))
      = (if same tok (p_base ?p) then base_net ?p ?fs else if same tok (p_quote ?p) then quote_net ?p ?fs else 0)"
    by (simp add: fills base_net_def quote_net_def cong: map_cong)
  then show ?thesis using calls(1,2) net [OF calls(3)] by (simp add: moved_def)
qed


lemma placed_balances:
  assumes "solved q inp intents quoteToken PO" "placed inp intents quoteToken PO used s"
  shows "\<exists>c. conservation (s_intents s) (s_executions s) (s_venueCalls s) (s_tokens s) = Inr c \<and> length c = length (s_tokens s)
    \<and> (\<forall>t<length (s_tokens s). c ! t = (\<Sum>po\<leftarrow>PO. moved intents (s_tokens s ! t) po))"
proof -
  let ?T = "s_tokens s" and ?I = "s_intents s"
  note d = placed_tokens [OF assms(2)]
  have exec: "\<exists>n<length used. e = s_executions s ! n" if "e \<in> set (s_executions s)" for e
  proof -
    have "length (s_executions s) = length used" using assms(2) by (simp add: placed_def)
    then show ?thesis using that unfolding in_set_conv_nth by metis
  qed
  have "\<exists>r. conservation_step ?I ?T acc e = Inr r" if e: "e \<in> set (s_executions s)" for acc e
  proof -
    obtain n where n: "n < length used" "e = s_executions s ! n" using exec [OF e] by blast
    obtain a b where "token_index ?T (i_sellToken (intents ! f_index (used ! n))) = Inr a" "token_index ?T (i_buyToken (intents ! f_index (used ! n))) = Inr b"
      using fill_tokens [OF assms(2) nth_mem [OF n(1)]] by blast
    then show ?thesis by (cases acc) (simp add: conservation_step_def n(2) placed_execution [OF assms(2) n(1)] del: js_at_Some_iff)
  qed
  then obtain p d' where pd: "foldE (conservation_step ?I ?T) (map (\<lambda>_. 0) ?T, map (\<lambda>_. 0) ?T) (s_executions s) = Inr (p, d')"
    using foldE_total [of "s_executions s"] by (metis surj_pair)
  have "\<exists>r. venue_step ?T ds v = Inr r" if v: "v \<in> set (s_venueCalls s)" for ds v
  proof -
    obtain po where po: "po \<in> set PO" "v \<in> set (po_venueCalls (snd po))" using v assms(2) by (auto simp: placed_def calls_in_def)
    then have live: "po_mode (snd po) \<noteq> Skipped" using assms(1) by (auto simp: solved_def pair_solved_def)
    obtain qr br where "outcome_ok q (fst po) (reference_of inp qr br) (snd po)" "p_quote (fst po) = quoteToken"
      using solved_outcome [OF assms(1) po(1) live] by metis
    then have "(v_tokenIn v = quoteToken \<and> v_tokenOut v = p_base (fst po)) \<or> (v_tokenIn v = p_base (fst po) \<and> v_tokenOut v = quoteToken)"
      using po(2) by (auto simp: outcome_ok_def calls_ok_def)
    then show ?thesis using pair_tokens [OF assms po(1) live] by (auto simp: venue_step_def Let_def)
  qed
  then obtain vd where "venue_deltas (s_venueCalls s) ?T = Inr vd"
    using foldE_total [of "s_venueCalls s" "venue_step ?T"] unfolding venue_deltas_def by metis
  then obtain c where c: "conservation ?I (s_executions s) (s_venueCalls s) ?T = Inr c" using pd by (auto simp: conservation_def)
  have "c ! t = (\<Sum>po\<leftarrow>PO. moved intents (?T ! t) po)" if t: "t < length ?T" for t
  proof -
    let ?sell = "\<lambda>f. if same (i_sellToken (intents ! f_index f)) (?T ! t) then f_executedSell f else 0"
    let ?buy = "\<lambda>f. if same (i_buyToken (intents ! f_index f)) (?T ! t) then f_executedBuy f else 0"
    have parts: "sold_of ?I ?T t (s_executions s ! n) = ?sell (used ! n)" "bought_of ?I ?T t (s_executions s ! n) = ?buy (used ! n)"
      if "n < length used" for n
      by (simp_all add: sold_of_def bought_of_def placed_execution [OF assms(2) that] token_place [OF d t] del: js_at_Some_iff)
    have enum: "(\<Sum>e\<leftarrow>es. g e) = (\<Sum>(n, e)\<leftarrow>enumerate 0 es. g e)" for g :: "execution \<Rightarrow> int" and es
      by (rule arg_cong [where f = sum_list]) (auto intro: nth_equalityI simp: nth_enumerate_eq)
    have "(\<Sum>e\<leftarrow>s_executions s. sold_of ?I ?T t e) = (\<Sum>po\<leftarrow>PO. \<Sum>f\<leftarrow>po_fills (snd po). ?sell f)"
      unfolding enum by (rule sum_placed [OF assms(2), where g = "\<lambda>n. sold_of ?I ?T t"]) (rule parts(1))
    moreover have "(\<Sum>e\<leftarrow>s_executions s. bought_of ?I ?T t e) = (\<Sum>po\<leftarrow>PO. \<Sum>f\<leftarrow>po_fills (snd po). ?buy f)"
      unfolding enum by (rule sum_placed [OF assms(2), where g = "\<lambda>n. bought_of ?I ?T t"]) (rule parts(2))
    moreover have "(\<Sum>v\<leftarrow>s_venueCalls s. routed_of ?T t v) = (\<Sum>po\<leftarrow>PO. call_net (?T ! t) (po_venueCalls (snd po)))"
    proof -
      have "s_venueCalls s = calls_in PO" using assms(2) by (simp add: placed_def)
      moreover have "(\<Sum>v\<leftarrow>calls_in PO. routed_of ?T t v) = (\<Sum>po\<leftarrow>PO. call_net (?T ! t) (po_venueCalls (snd po)))"
        unfolding calls_in_def by (induction PO) (simp_all add: call_net_def routed_of_def token_place [OF d t])
      ultimately show ?thesis by simp
    qed
    moreover have "(\<Sum>f\<leftarrow>fs. ?sell f - ?buy f) = (\<Sum>f\<leftarrow>fs. ?sell f) - (\<Sum>f\<leftarrow>fs. ?buy f)" for fs by (rule sum_list_subtractf)
    ultimately show ?thesis
      using conservation_nth(2) [OF c t] by (simp add: moved_def sum_list_addf sum_list_subtractf)
  qed
  then show ?thesis using c conservation_nth(1) [OF c]
    by (cases "?T = []") (auto simp: conservation_def)
qed

text \<open>
  C5. The executions and venue calls of a solution balance: conservation is computed without an error and no
  token is handed out that was not pulled from an intent or returned by the venue.
\<close>

theorem solve_conserves:
  assumes "solve q adapter batchId signed quoteToken solver inp profile = Inr plan" "batch_ok (map sg_intent signed)"
    "caseless q" "inputs_ok inp"
  shows "\<exists>surplus. conservation (s_intents (sp_solution plan)) (s_executions (sp_solution plan)) (s_venueCalls (sp_solution plan)) (s_tokens (sp_solution plan)) = Inr surplus
    \<and> (\<forall>amount\<in>set surplus. 0 \<le> amount)"
proof -
  obtain PO used where p: "solved q inp (map sg_intent signed) quoteToken PO" "placed inp (map sg_intent signed) quoteToken PO used (sp_solution plan)"
    by (rule solve_placed [OF assms])
  have "0 \<le> (\<Sum>po\<leftarrow>PO. moved (map sg_intent signed) tok po)" for tok
    by (rule sum_list_nonneg_int) (rule moved_nonneg [OF p(1)])
  then show ?thesis using placed_balances [OF p] by (metis in_set_conv_nth)
qed

section \<open>The venue's floor\<close>

record below_venue =
  fb_tokenIn :: address
  fb_tokenOut :: address
  fb_claimed :: int
  fb_floor :: int

record unquoted_direction =
  fu_tokenIn :: address
  fu_tokenOut :: address
  fu_error :: string

record floor_check =
  fc_priced :: bool
  fc_belowVenue :: "below_venue list"
  fc_unquoted :: "unquoted_direction list"

definition bump2 :: "int list list \<Rightarrow> nat \<Rightarrow> nat \<Rightarrow> int \<Rightarrow> int list list" where
  "bump2 m a b x = m[a := (m ! a)[b := m ! a ! b + x]]"

definition direction_sums :: "solution \<Rightarrow> int list list \<times> int list list \<Rightarrow> nat \<times> execution \<Rightarrow> js_error + int list list \<times> int list list" where
  "direction_sums s acc ke =
     (case (acc, ke) of ((sold, claimed), (k, e)) \<Rightarrow>
        case js_at (s_intents s) (e_intentIndex e) of
          None \<Rightarrow> Inl TypeError
        | Some i \<Rightarrow>
            bindE (token_index (s_tokens s) (i_sellToken i)) (\<lambda>si.
              bindE (token_index (s_tokens s) (i_buyToken i)) (\<lambda>bi.
                bindE (read_at (s_baselineQuotes s) k) (\<lambda>b.
                  Inr (bump2 sold si bi (e_executedSell e), bump2 claimed si bi b)))))"

definition floor_step :: "quotes \<Rightarrow> solution \<Rightarrow> int list list \<Rightarrow> int list list \<Rightarrow> floor_check \<Rightarrow> nat \<times> nat \<Rightarrow> js_error + floor_check" where
  "floor_step q s sold claimed out direction =
     (case direction of (si, bi) \<Rightarrow>
        if sold ! si ! bi = 0 then Inr out
        else let tokenIn = s_tokens s ! si; tokenOut = s_tokens s ! bi in
          bindE (q tokenIn tokenOut (sold ! si ! bi)) (\<lambda>quote.
            Inr (case quote of
                   Inl err \<Rightarrow> out\<lparr>fc_priced := False, fc_unquoted := fc_unquoted out @ [\<lparr>fu_tokenIn = tokenIn, fu_tokenOut = tokenOut, fu_error = err\<rparr>]\<rparr>
                 | Inr floor \<Rightarrow>
                     if claimed ! si ! bi < floor
                     then out\<lparr>fc_belowVenue := fc_belowVenue out
                            @ [\<lparr>fb_tokenIn = tokenIn, fb_tokenOut = tokenOut, fb_claimed = claimed ! si ! bi, fb_floor = floor\<rparr>]\<rparr>
                     else out)))"

definition check_baseline_floor :: "quotes \<Rightarrow> address \<Rightarrow> solution \<Rightarrow> js_error + floor_check" where
  "check_baseline_floor q adapter s =
     (if hex_value adapter = 0 then Inr \<lparr>fc_priced = False, fc_belowVenue = [], fc_unquoted = []\<rparr>
      else let n = length (s_tokens s); zeros = replicate n (replicate n 0) in
        bindE (foldE (direction_sums s) (zeros, zeros) (enumerate 0 (s_executions s))) (\<lambda>(sold, claimed).
          foldE (floor_step q s sold claimed) \<lparr>fc_priced = True, fc_belowVenue = [], fc_unquoted = []\<rparr> (List.product [0..<n] [0..<n])))"


text \<open>The two matrices hold, at a place, the sums of what goes from one token to the other.\<close>

definition square :: "nat \<Rightarrow> int list list \<Rightarrow> bool" where
  "square n m \<longleftrightarrow> length m = n \<and> (\<forall>row\<in>set m. length row = n)"

lemma bump2_entry:
  assumes "square n m" "a < n" "b < n"
  shows "square n (bump2 m a b x)" "i < n \<Longrightarrow> j < n \<Longrightarrow> bump2 m a b x ! i ! j = m ! i ! j + (if i = a \<and> j = b then x else 0)"
proof -
  have row: "length (m ! i) = n" if "i < n" for i using assms(1) that by (simp add: square_def)
  show "square n (bump2 m a b x)"
    using assms row [OF assms(2)] by (auto simp: square_def bump2_def dest!: subsetD [OF List.set_update_subset_insert])
  show "i < n \<Longrightarrow> j < n \<Longrightarrow> bump2 m a b x ! i ! j = m ! i ! j + (if i = a \<and> j = b then x else 0)"
    using assms row by (auto simp: bump2_def square_def nth_list_update)
qed

definition going :: "solution \<Rightarrow> nat \<Rightarrow> nat \<Rightarrow> execution \<Rightarrow> bool" where
  "going s a b e = (case js_at (s_intents s) (e_intentIndex e) of None \<Rightarrow> False
     | Some i \<Rightarrow> token_index (s_tokens s) (i_sellToken i) = Inr a \<and> token_index (s_tokens s) (i_buyToken i) = Inr b)"

lemma direction_step_entry:
  assumes "direction_sums s (sold, claimed) (k, e) = Inr (sold', claimed')" "square (length (s_tokens s)) sold" "square (length (s_tokens s)) claimed"
  shows "square (length (s_tokens s)) sold' \<and> square (length (s_tokens s)) claimed'
    \<and> (\<forall>i<length (s_tokens s). \<forall>j<length (s_tokens s).
         sold' ! i ! j = sold ! i ! j + (if going s i j e then e_executedSell e else 0)
         \<and> claimed' ! i ! j = claimed ! i ! j + (if going s i j e then s_baselineQuotes s ! k else 0))"
proof -
  obtain it a b where ab: "js_at (s_intents s) (e_intentIndex e) = Some it" "token_index (s_tokens s) (i_sellToken it) = Inr a"
    "token_index (s_tokens s) (i_buyToken it) = Inr b" "sold' = bump2 sold a b (e_executedSell e)" "claimed' = bump2 claimed a b (s_baselineQuotes s ! k)"
    using assms(1) by (auto simp: direction_sums_def simp del: js_at_Some_iff split: option.splits)
  have g: "going s i j e \<longleftrightarrow> i = a \<and> j = b" for i j by (auto simp: going_def ab(1-3) simp del: js_at_Some_iff)
  note lt = token_index_Inr(1) [OF ab(2)] token_index_Inr(1) [OF ab(3)]
  show ?thesis using bump2_entry [OF assms(2) lt] bump2_entry [OF assms(3) lt] by (simp add: g ab(4,5))
qed

lemma direction_fold:
  assumes "foldE (direction_sums s) (sold, claimed) kes = Inr (sold', claimed')" "square (length (s_tokens s)) sold" "square (length (s_tokens s)) claimed"
    "i < length (s_tokens s)" "j < length (s_tokens s)"
  shows "sold' ! i ! j = sold ! i ! j + (\<Sum>(k, e)\<leftarrow>kes. if going s i j e then e_executedSell e else 0)
    \<and> claimed' ! i ! j = claimed ! i ! j + (\<Sum>(k, e)\<leftarrow>kes. if going s i j e then s_baselineQuotes s ! k else 0)"
  using assms
proof (induction kes arbitrary: sold claimed)
  case (Cons ke kes)
  obtain k e where ke: "ke = (k, e)" by (cases ke)
  obtain s1 c1 where s1: "direction_sums s (sold, claimed) (k, e) = Inr (s1, c1)" "foldE (direction_sums s) (s1, c1) kes = Inr (sold', claimed')"
    using Cons.prems(1) by (auto simp: ke)
  note one = direction_step_entry [OF s1(1) Cons.prems(2,3)]
  show ?case using Cons.IH [OF s1(2) _ _ Cons.prems(4,5)] one Cons.prems(4,5) by (simp add: ke)
qed simp

lemma floor_clean:
  assumes "\<forall>d\<in>set ds. case d of (si, bi) \<Rightarrow> sold ! si ! bi = 0
    \<or> (\<exists>out. q (s_tokens s ! si) (s_tokens s ! bi) (sold ! si ! bi) = Inr (Inr out) \<and> out \<le> claimed ! si ! bi)"
  shows "foldE (floor_step q s sold claimed) fc ds = Inr fc"
  using assms by (induction ds) (auto simp: floor_step_def Let_def)

lemma sum_zero: "(\<And>x. x \<in> set xs \<Longrightarrow> g x = 0) \<Longrightarrow> (\<Sum>x\<leftarrow>xs. g x) = (0 :: int)"
  by (induction xs) auto

lemma sum_only:
  assumes "distinct xs" "x \<in> set xs" "\<And>y. y \<in> set xs \<Longrightarrow> y \<noteq> x \<Longrightarrow> g y = 0"
  shows "(\<Sum>y\<leftarrow>xs. g y) = (g x :: int)"
proof -
  have "(\<Sum>y\<leftarrow>xs. g y) = sum g (set xs)" by (rule sum_list_distinct_conv_sum_set [OF assms(1)])
  also have "\<dots> = sum g {x}" using assms by (intro sum.mono_neutral_right) auto
  finally show ?thesis by simp
qed

lemma direction_met:
  assumes "solved q inp intents quoteToken PO" "caseless q"
    "S = (\<Sum>po\<leftarrow>PO. \<Sum>f\<leftarrow>po_fills (snd po). if same (i_sellToken (intents ! f_index f)) x \<and> same (i_buyToken (intents ! f_index f)) y then f_executedSell f else 0)"
    "C = (\<Sum>po\<leftarrow>PO. \<Sum>f\<leftarrow>po_fills (snd po). if same (i_sellToken (intents ! f_index f)) x \<and> same (i_buyToken (intents ! f_index f)) y then baseline_of (po_baselines (snd po)) f else 0)"
    "S \<noteq> 0"
  shows "\<exists>out. q x y S = Inr (Inr out) \<and> out \<le> C"
proof -
  let ?goes = "\<lambda>f. same (i_sellToken (intents ! f_index f)) x \<and> same (i_buyToken (intents ! f_index f)) y"
  obtain po f0 where f0: "po \<in> set PO" "f0 \<in> set (po_fills (snd po))" "?goes f0"
  proof -
    have "S = 0" if none: "\<forall>po\<in>set PO. \<forall>f\<in>set (po_fills (snd po)). \<not> ?goes f"
      unfolding assms(3) by (intro sum_zero) (use none in auto)
    then show thesis using that assms(5) by blast
  qed
  let ?p = "fst po"
  have facts: "\<not> same (p_base (fst po')) quoteToken" "p_quote (fst po') = quoteToken" "valid_pair (fst po')"
    if "po' \<in> set PO" "f \<in> set (po_fills (snd po'))" for po' f
    using solved_outcome [OF assms(1) that(1) solved_fill(1) [OF assms(1) that]] by (metis book_ok_def)+
  note p = facts [OF f0(1,2)]
  have other: "\<not> ?goes f" if po': "po' \<in> set PO" "po' \<noteq> po" "f \<in> set (po_fills (snd po'))" for po' f
  proof
    assume "?goes f"
    then have "same (p_base (fst po')) (p_base ?p)"
      using f0(3) solved_fill(4) [OF assms(1) f0(1,2)] solved_fill(4) [OF assms(1) po'(1,3)] p facts [OF po'(1,3)]
      unfolding trades_def same_def by (auto split: if_splits)
    then show False using solved_base [OF assms(1) po'(1) f0(1)] po'(2) by blast
  qed
  have dist: "distinct PO" using assms(1) by (auto simp: solved_def distinct_map)
  have "S = (\<Sum>f\<leftarrow>po_fills (snd po). if ?goes f then f_executedSell f else 0)" "C = (\<Sum>f\<leftarrow>po_fills (snd po). if ?goes f then baseline_of (po_baselines (snd po)) f else 0)"
    unfolding assms(3,4) by (rule sum_only [OF dist f0(1)], use other in \<open>auto intro!: sum_zero\<close>)+
  moreover define b where "b = same x quoteToken"
  have side: "?goes f \<longleftrightarrow> buys_base ?p f = b" if f: "f \<in> set (po_fills (snd po))" for f
    using f0(3) solved_fill(4) [OF assms(1) f0(1,2)] solved_fill(3,4) [OF assms(1) f0(1) f] p(1,2) sells_token_filled [OF p(3)]
    unfolding buys_base_def b_def trades_def same_def by (auto split: if_splits)
  have as_filter: "(\<Sum>f\<leftarrow>po_fills (snd po). if ?goes f then h f else 0) = (\<Sum>f\<leftarrow>filter (\<lambda>f. buys_base ?p f = b) (po_fills (snd po)). h f)" for h :: "fill \<Rightarrow> int"
  proof -
    have "(\<Sum>f\<leftarrow>po_fills (snd po). if ?goes f then h f else 0) = (\<Sum>f\<leftarrow>po_fills (snd po). if buys_base ?p f = b then h f else 0)"
      by (rule arg_cong [where f = sum_list], rule map_cong) (auto simp: side)
    then show ?thesis by (simp add: sum_list_map_filter')
  qed
  ultimately have SC: "S = (\<Sum>f\<leftarrow>filter (\<lambda>f. buys_base ?p f = b) (po_fills (snd po)). f_executedSell f)"
    "C = (\<Sum>f\<leftarrow>filter (\<lambda>f. buys_base ?p f = b) (po_fills (snd po)). baseline_of (po_baselines (snd po)) f)" by simp_all
  obtain qr br where "outcome_ok q ?p (reference_of inp qr br) (snd po)"
    using solved_outcome [OF assms(1) f0(1) solved_fill(1) [OF assms(1) f0(1,2)]] by metis
  then have "floor_ok q ?p (po_baselines (snd po)) (po_fills (snd po)) b" by (simp add: outcome_ok_def)
  moreover have "filter (\<lambda>f. buys_base ?p f = b) (po_fills (snd po)) \<noteq> []" using side [OF f0(2)] f0(2,3) by (auto simp: filter_empty_conv)
  ultimately obtain out where out: "q (if b then p_quote ?p else p_base ?p) (if b then p_base ?p else p_quote ?p) S = Inr (Inr out)" "out \<le> C"
    unfolding floor_ok_def Let_def SC [symmetric] by blast
  have "same (if b then p_quote ?p else p_base ?p) x" "same (if b then p_base ?p else p_quote ?p) y"
    using f0(3) solved_fill(4) [OF assms(1) f0(1,2)] p(1,2) unfolding b_def trades_def same_def by (auto split: if_splits)
  then show ?thesis using out caselessD [OF assms(2)] by (metis same_sym)
qed


lemma placed_going:
  assumes "placed inp intents quoteToken PO used s" "n < length used" "a < length (s_tokens s)" "b < length (s_tokens s)"
  shows "going s a b (s_executions s ! n) \<longleftrightarrow>
    same (i_sellToken (intents ! f_index (used ! n))) (s_tokens s ! a) \<and> same (i_buyToken (intents ! f_index (used ! n))) (s_tokens s ! b)"
  using placed_execution [OF assms(1,2)] token_place [OF placed_tokens [OF assms(1)]] assms(3,4)
  by (simp add: going_def del: js_at_Some_iff)

lemma placed_floor:
  assumes "solved q inp intents quoteToken PO" "placed inp intents quoteToken PO used s" "caseless q" "hex_value adapter \<noteq> 0"
  shows "check_baseline_floor q adapter s = Inr \<lparr>fc_priced = True, fc_belowVenue = [], fc_unquoted = []\<rparr>"
proof -
  let ?T = "s_tokens s" and ?n = "length (s_tokens s)"
  let ?zeros = "replicate ?n (replicate ?n 0) :: int list list" and ?kes = "enumerate 0 (s_executions s)"
  define bl where "bl f = (case map_of (rev (concat (map po_baselines (map snd PO)))) (f_index f) of Some v \<Rightarrow> v | None \<Rightarrow> 0)" for f :: fill
  have len: "length (s_executions s) = length used" using assms(2) by (simp add: placed_def)
  have bl: "bl f = baseline_of (po_baselines (snd po)) f" if "po \<in> set PO" "f \<in> set (po_fills (snd po))" for po f
    using baselines_by_index [OF assms(1) that] by (simp add: bl_def)
  have bq: "s_baselineQuotes s ! n = bl (used ! n)" if n: "n < length used" for n
  proof -
    obtain po where po: "po \<in> set PO" "used ! n \<in> set (po_fills (snd po))" using used_fill [OF assms(2) nth_mem [OF n]] by blast
    then show ?thesis using assms(2) n bl [OF po] unfolding placed_def by metis
  qed
  have "\<exists>r. direction_sums s acc ke = Inr r" if ke: "ke \<in> set ?kes" for acc ke
  proof -
    obtain n where n: "n < length used" "ke = (n, s_executions s ! n)" using ke len by (auto simp: in_set_enumerate_eq)
    obtain a b where "token_index ?T (i_sellToken (intents ! f_index (used ! n))) = Inr a" "token_index ?T (i_buyToken (intents ! f_index (used ! n))) = Inr b"
      using fill_tokens [OF assms(2) nth_mem [OF n(1)]] by blast
    moreover have "read_at (s_baselineQuotes s) n = Inr (s_baselineQuotes s ! n)" using assms(2) n(1) by (simp add: placed_def)
    ultimately show ?thesis
      by (cases acc) (simp add: direction_sums_def n(2) placed_execution [OF assms(2) n(1)] del: js_at_Some_iff read_at_Inr_iff)
  qed
  then obtain sold claimed where m: "foldE (direction_sums s) (?zeros, ?zeros) ?kes = Inr (sold, claimed)"
    using foldE_total [of ?kes "direction_sums s"] by (metis surj_pair)
  have sq: "square ?n ?zeros" by (simp add: square_def)
  have "sold ! a ! b = 0 \<or> (\<exists>out. q (?T ! a) (?T ! b) (sold ! a ! b) = Inr (Inr out) \<and> out \<le> claimed ! a ! b)" if ab: "a < ?n" "b < ?n" for a b
  proof -
    let ?goes = "\<lambda>f. same (i_sellToken (intents ! f_index f)) (?T ! a) \<and> same (i_buyToken (intents ! f_index f)) (?T ! b)"
    have goes: "(if going s a b (s_executions s ! n) then e_executedSell (s_executions s ! n) else 0) = (if ?goes (used ! n) then f_executedSell (used ! n) else 0)"
      "(if going s a b (s_executions s ! n) then s_baselineQuotes s ! n else 0) = (if ?goes (used ! n) then bl (used ! n) else 0)" if "n < length used" for n
      unfolding placed_going [OF assms(2) that ab] by (simp_all add: placed_execution(1) [OF assms(2) that] bq [OF that])
    have S: "sold ! a ! b = (\<Sum>po\<leftarrow>PO. \<Sum>f\<leftarrow>po_fills (snd po). if ?goes f then f_executedSell f else 0)"
      using direction_fold [OF m sq sq ab] ab
        sum_placed [where g = "\<lambda>k e. if going s a b e then e_executedSell e else 0", OF assms(2) goes(1)] by simp
    have "claimed ! a ! b = (\<Sum>po\<leftarrow>PO. \<Sum>f\<leftarrow>po_fills (snd po). if ?goes f then bl f else 0)"
      using direction_fold [OF m sq sq ab] ab
        sum_placed [where g = "\<lambda>k e. if going s a b e then s_baselineQuotes s ! k else 0", OF assms(2) goes(2)] by simp
    also have "\<dots> = (\<Sum>po\<leftarrow>PO. \<Sum>f\<leftarrow>po_fills (snd po). if ?goes f then baseline_of (po_baselines (snd po)) f else 0)"
      by (intro arg_cong [where f = sum_list] map_cong refl) (auto simp: bl)
    finally show ?thesis using direction_met [OF assms(1,3) S] by blast
  qed
  then have "foldE (floor_step q s sold claimed) \<lparr>fc_priced = True, fc_belowVenue = [], fc_unquoted = []\<rparr> (List.product [0..<?n] [0..<?n])
      = Inr \<lparr>fc_priced = True, fc_belowVenue = [], fc_unquoted = []\<rparr>"
    by (intro floor_clean) auto
  then show ?thesis using assms(4) m by (simp add: check_baseline_floor_def Let_def)
qed

text \<open>
  C6. A solution clears the baseline floor it will be held to: asked again at the same block, every direction of
  every pair is quoted and none of them is claimed below the venue.
\<close>

theorem solve_meets_floor:
  assumes "solve q adapter batchId signed quoteToken solver inp profile = Inr plan" "batch_ok (map sg_intent signed)"
    "caseless q" "inputs_ok inp" "hex_value adapter \<noteq> 0"
  shows "check_baseline_floor q adapter (sp_solution plan) = Inr \<lparr>fc_priced = True, fc_belowVenue = [], fc_unquoted = []\<rparr>"
  by (rule solve_placed [OF assms(1-4)]) (rule placed_floor [OF _ _ assms(3,5)])

section \<open>Routing runs out of intents, never of passes\<close>

lemma broken_in_side:
  assumes "split_volume out tot given side = Inr fills" "find (breaks_limit side) fills = Some broken"
  shows "length (filter (\<lambda>e. b_index e \<noteq> f_index broken) side) < length side"
proof -
  have "breaks_limit side broken" using assms(2) by (simp add: find_Some_iff) metis
  then obtain e where "e \<in> set side" "b_index e = f_index broken"
    by (auto simp: breaks_limit_def find_Some_iff split: option.splits intro: nth_mem)
  then show ?thesis by (auto intro: length_filter_less)
qed

text \<open>
  The pass bound of tryRouted never decides anything: allowing more passes than there are intents on the
  side gives the same outcome, because every pass that does not end removes an intent.
\<close>

theorem route_passes_enough:
  "route_passes (length side + 1 + n) q adapter pair ref buying tokenIn tokenOut side
   = route_passes (length side + 1) q adapter pair ref buying tokenIn tokenOut side"
proof -
  have "route_passes (Suc m) q adapter pair ref buying tokenIn tokenOut side = route_passes (Suc k) q adapter pair ref buying tokenIn tokenOut side"
    if "length side \<le> m" "length side \<le> k" for m k
    using that
  proof (induction m arbitrary: k side)
    case (Suc m)
    let ?tot = "\<Sum>e\<leftarrow>side. i_sellAmount (b_intent e)"
    show ?case
    proof (cases "side = [] \<or> k = 0")
      case False
      then obtain j where j: "k = Suc j" by (cases k) auto
      have rec: "route_passes (Suc m) q adapter pair ref buying tokenIn tokenOut rest = route_passes (Suc j) q adapter pair ref buying tokenIn tokenOut rest"
        if "length rest < length side" for rest
        using Suc.prems that j by (intro Suc.IH) simp_all
      have fills: "(case find (breaks_limit side) fills of
            Some broken \<Rightarrow> route_passes (Suc m) q adapter pair ref buying tokenIn tokenOut (filter (\<lambda>e. b_index e \<noteq> f_index broken) side)
          | None \<Rightarrow> routed_outcome adapter pair ref buying tokenIn tokenOut ?tot out fills)
        = (case find (breaks_limit side) fills of
            Some broken \<Rightarrow> route_passes (Suc j) q adapter pair ref buying tokenIn tokenOut (filter (\<lambda>e. b_index e \<noteq> f_index broken) side)
          | None \<Rightarrow> routed_outcome adapter pair ref buying tokenIn tokenOut ?tot out fills)"
        if "split_volume out ?tot 0 side = Inr fills" for out fills
        using rec broken_in_side [OF that] by (auto split: option.splits)
      have cong: "bindE x f = bindE x g" if "\<And>v. x = Inr v \<Longrightarrow> f v = g v" for x and f g :: "'x \<Rightarrow> stop + pair_outcome"
        using that by (cases x) simp_all
      show ?thesis
        unfolding j route_passes.simps(2) [of "Suc m"] route_passes.simps(2) [of "Suc j"] Let_def
        using fills by (auto intro!: cong)
    qed (use Suc.prems in auto)
  qed simp
  then show ?thesis by simp
qed


section \<open>A batch\<close>

definition sample_venue :: quotes where
  "sample_venue a b n = Inr (Inr (if lower a = ''0xa'' then n sdiv 1100 else n * 900))"

definition sample_signed :: "signed_order list" where
  "sample_signed = map (\<lambda>i. \<lparr>sg_intent = i, sg_signature = ''0x''\<rparr>)
     [sample_intent ''0xa'' ''0xb'' 5025 5, sample_intent ''0xa'' ''0xb'' 10150 10, sample_intent ''0xb'' ''0xa'' 10 9900,
      sample_intent ''0xb'' ''0xa'' 7 7070]"

definition sample_inputs :: inputs where
  "sample_inputs = \<lparr>np_block = 7, np_session = 3, np_maxDeviationBps = 200,
     np_oracle = [(''0xa'', Inr \<lparr>or_price = 10 ^ 18, or_healthy = True\<rparr>), (''0xb'', Inr \<lparr>or_price = 10 ^ 21, or_healthy = True\<rparr>)]\<rparr>"

definition sample_fills :: "fill list" where
  "sample_fills = [\<lparr>f_index = 0, f_executedSell = 4000, f_executedBuy = 4\<rparr>, \<lparr>f_index = 1, f_executedSell = 6000, f_executedBuy = 6\<rparr>,
     \<lparr>f_index = 2, f_executedSell = 10, f_executedBuy = 10000\<rparr>]"

definition sample_plan :: solver_plan where
  "sample_plan = \<lparr>sp_solution = \<lparr>s_batchId = 60, s_intents = map sg_intent (take 3 sample_signed), s_signatures = [''0x'', ''0x'', ''0x''],
       s_tokens = [''0xa'', ''0xb''], s_prices = [10 ^ 18, 10 ^ 21],
       s_executions = map (\<lambda>f. \<lparr>e_intentIndex = int (f_index f), e_executedSell = f_executedSell f, e_executedBuy = f_executedBuy f\<rparr>) sample_fills,
       s_venueCalls = [], s_baselineQuotes = [4, 5, 9000], s_claimedSavings = 2000, s_solver = ''0x7''\<rparr>,
     sp_pairs = [\<lparr>po_base = ''0xb'', po_mode = Netted, po_reason = None, po_fills = sample_fills,
       po_baselines = [(0, 4), (1, 5), (2, 9000)], po_basePrice = 10 ^ 21, po_venueCalls = []\<rparr>],
     sp_unsupported = []\<rparr>"

lemma sample_solved: "solve sample_venue ''0x9'' 60 sample_signed ''0xa'' ''0x7'' sample_inputs Profile_a = Inr sample_plan"
  by code_simp

lemma sample_batch: "batch_ok (map sg_intent sample_signed)" "caseless sample_venue" "inputs_ok sample_inputs"
  by (code_simp, simp add: caseless_def sample_venue_def same_def, code_simp)

theorem solve_executions_verified_witness:
  "length (s_executions (sp_solution sample_plan)) = 3 \<and> execution_verified (sp_solution sample_plan) 2"
  using solve_executions_verified [OF sample_solved sample_batch] by (simp add: sample_plan_def sample_fills_def)

theorem solve_prices_in_band_witness:
  "within_band (s_prices (sp_solution sample_plan) ! 1) (10 ^ 21) 200"
proof -
  have t: "1 < length (s_tokens (sp_solution sample_plan))" by code_simp
  have o: "oracle_of sample_inputs (s_tokens (sp_solution sample_plan) ! 1) = Some \<lparr>or_price = 10 ^ 21, or_healthy = True\<rparr>" by code_simp
  have "np_maxDeviationBps sample_inputs = 200" by (simp add: sample_inputs_def)
  then show ?thesis using solve_prices_in_band [OF sample_solved sample_batch t] by (auto simp: o simp del: One_nat_def)
qed

theorem solve_conserves_witness:
  "conservation (s_intents (sp_solution sample_plan)) (s_executions (sp_solution sample_plan)) (s_venueCalls (sp_solution sample_plan))
     (s_tokens (sp_solution sample_plan)) = Inr [0, 0] \<and> (0::int) \<le> 0"
proof -
  have "conservation (s_intents (sp_solution sample_plan)) (s_executions (sp_solution sample_plan)) (s_venueCalls (sp_solution sample_plan))
     (s_tokens (sp_solution sample_plan)) = Inr [0, 0]" by code_simp
  then show ?thesis using solve_conserves [OF sample_solved sample_batch] by simp
qed

theorem solve_meets_floor_witness:
  "check_baseline_floor sample_venue ''0x9'' (sp_solution sample_plan) = Inr \<lparr>fc_priced = True, fc_belowVenue = [], fc_unquoted = []\<rparr>"
proof -
  have "hex_value ''0x9'' \<noteq> 0" by code_simp
  then show ?thesis by (rule solve_meets_floor [OF sample_solved sample_batch])
qed

end
