(* ===== verification/SolveTotal.thy ===== *)
theory SolveTotal
  imports SolvePlan
begin

text \<open>
  When solve throws: only when the venue's node does, as long as every intent sells something. The
  lemmas follow each branch of a pair and of \<open>assemble\<close>; the last section shows what one intent of
  amount zero does to the batch it joins, and applies the properties of \<open>SolvePlan\<close> to a batch.
\<close>

section \<open>Steps that may throw\<close>

definition throws :: "stop + 'a \<Rightarrow> bool" where
  "throws m \<longleftrightarrow> (case m of Inl (Throws e) \<Rightarrow> True | _ \<Rightarrow> False)"

definition answers :: "quotes \<Rightarrow> bool" where
  "answers q \<longleftrightarrow> (\<forall>a b n e. q a b n \<noteq> Inl e)"

lemma throws_simps [simp]: "throws (Inl x) \<longleftrightarrow> (\<exists>e. x = Throws e)" "\<not> throws (Inr v)"
  by (cases x) (simp_all add: throws_def)

lemma throws_bind: "throws (bindE m f) \<longleftrightarrow> throws m \<or> (\<exists>v. m = Inr v \<and> throws (f v))"
  by (cases m) (auto simp: throws_def split: stop.splits)

lemma throws_throwing: "throws (throwing m) \<longleftrightarrow> (\<exists>e. m = Inl e)"
  by (cases m) auto

lemma asks_quietly: "answers q \<Longrightarrow> \<not> throws (ask_quote q r a b n)"
  by (cases "q a b n") (auto simp: ask_quote_def answers_def split: sum.splits)

lemma finish_total: "\<not> throws m \<Longrightarrow> \<exists>out. finish pair m = Inr out"
  by (cases m) (auto simp: throws_def split: stop.splits)

lemma throws_mapE: "throws (mapE f xs) \<Longrightarrow> \<exists>x\<in>set xs. throws (f x)"
  by (induction xs) (auto simp: throws_bind)

lemma throws_foldE:
  assumes "throws (foldE f s xs)" "P s" "\<And>s x s'. P s \<Longrightarrow> x \<in> set xs \<Longrightarrow> f s x = Inr s' \<Longrightarrow> P s'"
  shows "\<exists>s x. P s \<and> x \<in> set xs \<and> throws (f s x)"
  using assms
proof (induction xs arbitrary: s)
  case (Cons x xs)
  show ?case
  proof (cases "throws (f s x)")
    case True
    then show ?thesis using Cons.prems(2) by auto
  next
    case False
    then obtain s' where s': "f s x = Inr s'" "throws (foldE f s' xs)" using Cons.prems(1) by (auto simp: throws_bind)
    have "P s'" using Cons.prems(3) [OF Cons.prems(2) _ s'(1)] by simp
    then have "\<exists>s x. P s \<and> x \<in> set xs \<and> throws (f s x)"
      by (rule Cons.IH [OF s'(2)]) (rule Cons.prems(3), simp_all)
    then show ?thesis by auto
  qed
qed simp

section \<open>A pair\<close>

lemma quiet_case: "\<not> throws (case r of None \<Rightarrow> Inl (Skip reason) | Some v \<Rightarrow> Inr (g v))"
  by (cases r) simp_all

lemma netted_quiet:
  assumes "book_ok pair" "valid_reference ref" "answers q"
  shows "\<not> throws (netted_steps q adapter pair ref)"
proof
  assume t: "throws (netted_steps q adapter pair ref)"
  obtain cl where cl: "clear pair ref = Inr cl" using clear_unfold [OF assms(2)] by blast
  obtain c where c: "cl = Some c" "throws (bindE (throwing (allocate pair c ref 0)) (\<lambda>a.
      if a_fills a = [] then Inl (Skip ''the crossing leaves no fill the verifier would take'') else net_fills q adapter pair a))"
    using t by (cases cl) (auto simp: netted_steps_def cl split: if_split_asm)
  have v: "valid_pair pair" "0 < r_quotePrice ref" using assms(1,2) by (simp_all add: book_ok_def valid_reference_def)
  have "0 < c_price c" using clear_in_band(1) [OF assms(2)] cl c(1) by simp
  then obtain a where a: "allocate pair c ref 0 = Inr a" using allocate_settled [OF v, of c 0] by (metis less_imp_le)
  note ok = allocated_ok [OF assms(1,2) cl [unfolded c(1)] a]
  have at_i: "\<exists>i. intent_at pair (f_index f) = Inr i" if "f \<in> set (a_fills a)" for f
    using ok(3) that intent_at_filled [OF v(1)] by blast
  have net: "throws (net_fills q adapter pair a)" using c(2) by (simp add: a split: if_split_asm)
  have quiet1: "\<not> throws (foldE (quote_fill q pair) [] (a_fills a))"
  proof
    assume "throws (foldE (quote_fill q pair) [] (a_fills a))"
    then obtain m f where "f \<in> set (a_fills a)" "throws (quote_fill q pair m f)" using throws_foldE [where P = "\<lambda>_. True"] by metis
    then show False using at_i asks_quietly [OF assms(3)] by (fastforce simp: quote_fill_def throws_bind split: if_splits)
  qed
  have quiet2: "\<not> throws (directions_of pair (a_fills a))"
    using throws_mapE at_i by (fastforce simp: directions_of_def throws_bind)
  show False
  proof (cases "foldE (quote_fill q pair) [] (a_fills a)")
    case Inl
    then show False using net quiet1 by (simp add: net_fills_def)
  next
    case (Inr m)
    have m: "baselines_ok m (a_fills a)" using quote_fills [OF Inr ok(2)] by (simp add: baselines_ok_def)
    show False
    proof (cases "directions_of pair (a_fills a)")
      case Inl
      then show False using net quiet2 Inr by (simp add: net_fills_def)
    next
      case toks: (Inr toks)
      have "throws (foldE (lift_direction q pair (a_fills a)) m toks)"
        using net Inr toks by (cases "route_async pair (a_fills a) adapter (residual_quote q)") (auto simp: net_fills_def throws_bind)
      then obtain m' tok where l: "baselines_ok m' (a_fills a)" "tok \<in> set toks" "throws (lift_direction q pair (a_fills a) m' tok)"
        using throws_foldE [where P = "\<lambda>m. baselines_ok m (a_fills a)", OF _ m] lifted(1) [OF _ _ ok(2)] by metis
      let ?D = "filter (sells_token pair tok) (a_fills a)"
      have "?D \<noteq> []"
      proof -
        obtain ints where ints: "mapE (\<lambda>f. intent_at pair (f_index f)) (a_fills a) = Inr ints" "toks = rev (remdups (rev (map (\<lambda>i. lower (i_sellToken i)) ints)))"
          using toks by (auto simp: directions_of_def)
        then obtain k where "k < length ints" and tok: "tok = lower (i_sellToken (ints ! k))" using l(2) by (auto simp: in_set_conv_nth)
        then have k: "k < length (a_fills a)" using mapE_Inr_length [OF ints(1)] by simp
        with tok mapE_Inr_nth [OF ints(1) k] have "sells_token pair tok (a_fills a ! k)" by (simp add: sells_token_def same_def)
        then show ?thesis using k by (auto simp: filter_empty_conv)
      qed
      then have "hd ?D \<in> set ?D" by (rule hd_in_set)
      then obtain i where i: "intent_at pair (f_index (hd ?D)) = Inr i" using at_i by auto
      have bs: "\<exists>bs. mapE (\<lambda>f. baseline_at m' (f_index f)) ?D = Inr bs"
      proof (rule mapE_total)
        fix f assume "f \<in> set ?D"
        then have "f_index f \<in> fst ` set m'" using l(1) by (auto simp: baselines_ok_def)
        then obtain v where "map_of m' (f_index f) = Some v" by (metis map_of_eq_None_iff not_None_eq)
        then show "\<exists>v. baseline_at m' (f_index f) = Inr v" by (simp add: baseline_at_def)
      qed
      then obtain bs where bs: "mapE (\<lambda>f. baseline_at m' (f_index f)) ?D = Inr bs" by blast
      have "length (map f_executedBuy ?D) = length bs" using mapE_Inr_length [OF bs] by simp
      then have "\<exists>r. raise_to_floor bs (map f_executedBuy ?D) fl = Inr r" for fl by (rule raise_to_floor_total)
      then show False
        using l(3) asks_quietly [OF assms(3)] quiet_case unfolding lift_direction_def Let_def i bindE.simps throws_bind bs throws_throwing
        by (metis Inr_not_Inl Inr_inject throws_simps(2))
    qed
  qed
qed

lemma split_volume_total: "tot \<noteq> 0 \<or> length side \<le> 1 \<Longrightarrow> \<exists>fills. split_volume out tot given side = Inr fills"
  by (induction out tot given side rule: split_volume.induct) (auto simp: Let_def)

lemma routed_quiet:
  assumes "\<forall>f\<in>set fills. 0 < f_executedSell f \<and> f_executedBuy f \<noteq> 0"
  shows "\<not> throws (routed_outcome adapter pair ref buying tokenIn tokenOut tot out fills)"
proof -
  have "\<exists>v. implied_price buying ref f = Inr v" if "f \<in> set fills" for f using assms that by (auto simp: implied_price_def)
  then obtain implied where "mapE (implied_price buying ref) fills = Inr implied" using mapE_total by metis
  then show ?thesis by (auto simp: routed_outcome_def Let_def split: option.splits)
qed

lemma route_quiet:
  assumes "\<forall>e\<in>set side. 0 < i_sellAmount (b_intent e)" "answers q" "distinct (map b_index side)"
  shows "\<not> throws (route_passes n q adapter pair ref buying tokenIn tokenOut side)"
  using assms(1,3)
proof (induction n arbitrary: side)
  case (Suc n)
  let ?tot = "\<Sum>e\<leftarrow>side. i_sellAmount (b_intent e)"
  show ?case
  proof (cases "side = []")
    case False
    then obtain e es where "side = e # es" by (cases side) auto
    then have tot: "?tot \<noteq> 0" using Suc.prems(1) sum_list_nonneg_int [of es "\<lambda>e. i_sellAmount (b_intent e)"] by force
    have step: "\<not> throws (case find (breaks_limit side) fills of
        Some broken \<Rightarrow> route_passes n q adapter pair ref buying tokenIn tokenOut (filter (\<lambda>e. b_index e \<noteq> f_index broken) side)
      | None \<Rightarrow> routed_outcome adapter pair ref buying tokenIn tokenOut ?tot out fills)" if fills: "split_volume out ?tot 0 side = Inr fills" for out fills
    proof (cases "find (breaks_limit side) fills")
      case None
      have "0 < f_executedSell f \<and> f_executedBuy f \<noteq> 0" if f: "f \<in> set fills" for f
      proof -
        obtain e where e: "e \<in> set side" "b_index e = f_index f" "f_executedSell f = i_sellAmount (b_intent e)" by (rule split_entry [OF fills f])
        then have "find (\<lambda>e. b_index e = f_index f) side \<noteq> None" by (auto simp: find_None_iff)
        moreover have "\<not> breaks_limit side f" using None f by (auto simp: find_None_iff)
        ultimately show ?thesis using e Suc.prems(1) by (auto simp: breaks_limit_def)
      qed
      then show ?thesis using routed_quiet None by simp
    next
      case (Some broken)
      then show ?thesis using Suc.IH [of "filter (\<lambda>e. b_index e \<noteq> f_index broken) side"] Suc.prems by (simp add: distinct_map_filter)
    qed
    show ?thesis
      unfolding route_passes.simps Let_def if_not_P [OF False] throws_bind throws_throwing
      using asks_quietly [OF assms(2)] split_volume_total tot step by (metis Inr_not_Inl throwing_Inr)
  qed simp
qed simp

lemma try_routed_total:
  assumes "book_ok pair" "answers q"
  shows "\<exists>out. try_routed q adapter pair ref = Inr out"
proof -
  have side: "\<forall>e\<in>set (side_of pair b). 0 < i_sellAmount (b_intent e)" "distinct (map b_index (side_of pair b))" for b
    using assms(1) by (auto simp: side_of_def book_ok_def valid_pair_def distinct_map_filter)
  show ?thesis
    unfolding try_routed_def Let_def
    using route_quiet [OF side(1) assms(2) side(2)] finish_total by (simp del: route_passes.simps)
qed

lemma solve_pair_total:
  assumes "book_ok pair" "inputs_ok inp" "answers q"
  shows "\<exists>out. solve_pair q adapter inp profile pair = Inr out"
proof (cases "oracle_of inp (p_quote pair)"; cases "oracle_of inp (p_base pair)")
  fix qr br assume o: "oracle_of inp (p_quote pair) = Some qr" "oracle_of inp (p_base pair) = Some br"
  let ?ref = "reference_of inp qr br"
  have ref: "valid_reference ?ref"
    using assms(2) oracle_of_pos [OF assms(2) o(1)] oracle_of_pos [OF assms(2) o(2)]
    by (simp add: valid_reference_def reference_of_def inputs_ok_def)
  have sub: "book_ok (pair\<lparr>p_entries := side_of pair b\<rparr>)" for b
    using assms(1) by (intro sub_book) (auto simp: side_of_def book_ok_def valid_pair_def distinct_map_filter)
  have "\<exists>out. route_everything q adapter pair ?ref = Inr out"
  proof -
    have "\<exists>sides. mapE (\<lambda>es. try_routed q adapter (pair\<lparr>p_entries := es\<rparr>) ?ref) (filter (\<lambda>s. s \<noteq> []) [side_of pair True, side_of pair False]) = Inr sides"
      by (rule mapE_total) (use try_routed_total [OF sub assms(3)] in \<open>auto split: if_split_asm\<close>)
    then show ?thesis by (auto simp: route_everything_def)
  qed
  then obtain every where "route_everything q adapter pair ?ref = Inr every" by blast
  moreover obtain netted where "try_netted q adapter pair ?ref = Inr netted" using finish_total [OF netted_quiet [OF assms(1) ref assms(3)]]
    unfolding try_netted_def by blast
  moreover obtain routed where "try_routed q adapter pair ?ref = Inr routed" using try_routed_total [OF assms(1,3)] by blast
  ultimately show ?thesis
    unfolding solve_pair_def o reference_of_def [symmetric] Let_def by (cases "profile = Profile_b"; cases "po_mode netted = Netted") simp_all
qed (auto simp: solve_pair_def)


section \<open>The solution\<close>

lemma token_priced:
  assumes "solved q inp intents quoteToken PO" "f \<in> set (fills_in PO)"
    "t \<in> set (order_tokens used_intents quoteToken)" "set used_intents \<subseteq> (\<lambda>f. intents ! f_index f) ` set (fills_in PO)"
  shows "\<exists>p. (if same t quoteToken then oracle_price inp t
    else case map_of (rev (map (\<lambda>out. (lower (po_base out), po_basePrice out)) (filter (\<lambda>out. po_mode out \<noteq> Skipped) (map snd PO)))) (lower t) of
      Some p \<Rightarrow> Inr p | None \<Rightarrow> Inl TypeError) = Inr p"
proof (cases "same t quoteToken")
  case True
  obtain po where po: "po \<in> set PO" "f \<in> set (po_fills (snd po))" using assms(2) by (auto simp: fills_in_def)
  obtain qr where "oracle_of inp quoteToken = Some qr" using solved_outcome [OF assms(1) po(1) solved_fill(1) [OF assms(1) po]] by metis
  then show ?thesis using True by (auto simp: oracle_of_def oracle_price_def same_def split: option.splits sum.splits)
next
  case False
  then obtain k where "(k, t) \<in> set (other_tokens used_intents quoteToken)" using assms(3) by (auto simp: order_tokens_def)
  moreover from this have "k = lower t" using other_tokens_keys by blast
  ultimately have "lower t \<in> fst ` set (other_tokens used_intents quoteToken)" by (metis fst_conv image_eqI)
  then obtain x where x: "lower t = lower x" "x \<in> set (tokens_named used_intents)" "\<not> same x quoteToken" unfolding other_tokens_dom by blast
  then obtain g po where g: "po \<in> set PO" "g \<in> set (po_fills (snd po))" "x = i_sellToken (intents ! f_index g) \<or> x = i_buyToken (intents ! f_index g)"
    using assms(4) by (fastforce simp: fills_in_def)
  note live = solved_fill(1) [OF assms(1) g(1,2)]
  have "p_quote (fst po) = quoteToken" using solved_outcome [OF assms(1) g(1) live] by metis
  then have "same x (p_base (fst po))" using solved_fill(4) [OF assms(1) g(1,2)] g(3) x(3) by (auto simp: trades_def same_def split: if_splits)
  then have "map_of (rev (map (\<lambda>out. (lower (po_base out), po_basePrice out)) (filter (\<lambda>out. po_mode out \<noteq> Skipped) (map snd PO)))) (lower t) = Some (po_basePrice (snd po))"
    unfolding base_prices [OF assms(1)] using g(1) live x(1) by (auto simp: same_def)
  then show ?thesis using False by simp
qed

lemma assemble_total:
  assumes "solved q inp (map sg_intent signed) quoteToken PO"
  shows "\<exists>s. assemble batchId signed quoteToken solver inp (map snd PO) = Inr s"
proof -
  let ?intents = "map sg_intent signed"
  define used where "used = js_sort (\<lambda>a b. int (f_index a) - int (f_index b)) (concat (map po_fills (map snd PO)))"
  have fills: "concat (map po_fills (map snd PO)) = fills_in PO" by (simp add: fills_in_def comp_def)
  have u: "set used = set (fills_in PO)" "distinct (map f_index used)"
    using solved_distinct(1) [OF assms] unfolding used_def fills by (simp_all add: fills_in_def)
  have inPO: "\<exists>po\<in>set PO. f \<in> set (po_fills (snd po))" if "f \<in> set used" for f using that u(1) by (auto simp: fills_in_def)
  have len: "f_index f < length signed" if "f \<in> set used" for f using inPO [OF that] solved_fill(2) [OF assms] by auto
  obtain rows where rows: "mapE (\<lambda>f. read_at signed (f_index f)) used = Inr rows" using mapE_total [of used] len by (metis read_at_Inr_iff)
  have rows': "rows = map (\<lambda>f. signed ! f_index f) used" using rows by (rule mapE_all_Inr) simp
  let ?ints = "map sg_intent rows"
  have ints: "?ints = map (\<lambda>f. ?intents ! f_index f) used" by (simp add: rows' len)
  define tokens where "tokens = (if ?ints = [] then [] else order_tokens ?ints quoteToken)"
  let ?price = "\<lambda>t. if same t quoteToken then oracle_price inp t
    else case map_of (rev (map (\<lambda>out. (lower (po_base out), po_basePrice out)) (filter (\<lambda>out. po_mode out \<noteq> Skipped) (map snd PO)))) (lower t) of
      Some p \<Rightarrow> Inr p | None \<Rightarrow> Inl TypeError"
  have "\<exists>p. ?price t = Inr p" if "t \<in> set tokens" for t
  proof -
    have ne: "used \<noteq> []" using that rows' by (auto simp: tokens_def split: if_splits)
    have t: "t \<in> set (order_tokens ?ints quoteToken)" using that by (simp add: tokens_def split: if_splits)
    have "hd used \<in> set (fills_in PO)" using hd_in_set [OF ne] u(1) by simp
    moreover have "set ?ints \<subseteq> (\<lambda>f. ?intents ! f_index f) ` set (fills_in PO)" unfolding ints set_map u(1) by (rule subset_refl)
    ultimately show ?thesis using token_priced [OF assms _ t] by blast
  qed
  then obtain prices where prices: "mapE ?price tokens = Inr prices" using mapE_total [of tokens ?price] by blast
  let ?exec = "\<lambda>f. case map_of (rev (map (\<lambda>(n, f). (f_index f, n)) (enumerate 0 used))) (f_index f) of None \<Rightarrow> Inl TypeError
    | Some n \<Rightarrow> Inr \<lparr>e_intentIndex = int n, e_executedSell = f_executedSell f, e_executedBuy = f_executedBuy f\<rparr>"
  have "\<exists>e. ?exec f = Inr e" if "f \<in> set used" for f
    using that places [OF u(2)] by (auto simp: in_set_conv_nth)
  then obtain executions where executions: "mapE ?exec used = Inr executions" using mapE_total [of used ?exec] by blast
  let ?base = "\<lambda>f. case map_of (rev (concat (map po_baselines (map snd PO)))) (f_index f) of None \<Rightarrow> Inl TypeError | Some v \<Rightarrow> Inr v"
  have "\<exists>v. ?base f = Inr v" if "f \<in> set used" for f using inPO [OF that] baselines_by_index [OF assms] by auto
  then obtain bqs where bqs: "mapE ?base used = Inr bqs" using mapE_total [of used ?base] by blast
  have lens: "length executions = length used" "length bqs = length used" "length prices = length tokens" "length ?ints = length used"
    using mapE_Inr_length [OF executions] mapE_Inr_length [OF bqs] mapE_Inr_length [OF prices] rows' by simp_all
  have "\<exists>v. execution_savings bqs prices ?ints tokens ke = Inr v" if ke: "ke \<in> set (enumerate 0 executions)" for ke
  proof -
    obtain n where n: "n < length used" "ke = (n, executions ! n)" using ke lens(1) by (auto simp: in_set_enumerate_eq)
    let ?f = "used ! n"
    have e: "executions ! n = \<lparr>e_intentIndex = int n, e_executedSell = f_executedSell ?f, e_executedBuy = f_executedBuy ?f\<rparr>"
      using mapE_Inr_nth [OF executions n(1)] by (simp add: places [OF u(2) n(1)])
    obtain po where po: "po \<in> set PO" "?f \<in> set (po_fills (snd po))" using inPO [OF nth_mem [OF n(1)]] by blast
    obtain qr br where o: "outcome_ok q (fst po) (reference_of inp qr br) (snd po)"
      using solved_outcome [OF assms po(1) solved_fill(1) [OF assms po]] by metis
    have "bqs ! n = baseline_of (po_baselines (snd po)) ?f" using mapE_Inr_nth [OF bqs n(1)] baselines_by_index [OF assms po] by simp
    then have b: "bqs ! n \<le> f_executedBuy ?f" using o po(2) by (auto simp: outcome_ok_def baselines_ok_def)
    have i: "?ints ! n \<in> set ?ints" using n(1) lens(4) by (metis nth_mem)
    then have "i_buyToken (?ints ! n) \<in> set (tokens_named ?ints)" by auto
    moreover have "tokens = order_tokens ?ints quoteToken" using i by (cases "?ints = []") (auto simp: tokens_def)
    ultimately obtain t where t: "token_index tokens (i_buyToken (?ints ! n)) = Inr t" using order_tokens_complete token_index_total by metis
    have "js_at ?ints (int n) = Some (?ints ! n)" "read_at bqs n = Inr (bqs ! n)" "read_at prices t = Inr (prices ! t)"
      using n(1) lens token_index_Inr(1) [OF t] by simp_all
    then show ?thesis using b t by (simp add: execution_savings_def n(2) e not_less del: js_at_Some_iff read_at_Inr_iff)
  qed
  then obtain vs where "mapE (execution_savings bqs prices ?ints tokens) (enumerate 0 executions) = Inr vs"
    using mapE_total [of "enumerate 0 executions" "execution_savings bqs prices ?ints tokens"] by blast
  then obtain savings where "claimed_savings executions bqs prices ?ints tokens = Inr savings" using claimed_savings_sum lens by metis
  then have "\<exists>savings. (if ?ints = [] then Inr 0 else claimed_savings executions bqs prices ?ints tokens) = Inr savings" by auto
  then show ?thesis
    unfolding assemble_def Let_def used_def [symmetric] rows bindE.simps tokens_def [symmetric] prices executions bqs by auto
qed

lemma solve_plan_exists:
  assumes "batch_ok (map sg_intent signed)" "caseless q" "answers q" "inputs_ok inp"
  shows "\<exists>plan. solve q adapter batchId signed quoteToken solver inp profile = Inr plan"
proof -
  obtain pairs unsupported where p: "pairs_of (map sg_intent signed) quoteToken = (pairs, unsupported)"
    by (cases "pairs_of (map sg_intent signed) quoteToken")
  note book = pair_book [OF p assms(1)]
  obtain outs where outs: "mapE (solve_pair q adapter inp profile) pairs = Inr outs"
    using mapE_total [of pairs] solve_pair_total [OF book assms(4,3)] by metis
  have "solved q inp (map sg_intent signed) quoteToken (zip pairs outs)" by (rule pairs_solved [OF p outs assms(1,2,4)])
  from assemble_total [OF this] obtain s where "assemble batchId signed quoteToken solver inp outs = Inr s"
    using mapE_Inr_length [OF outs] by auto
  then show ?thesis using p outs by (simp add: solve_def)
qed

text \<open>
  C7. solve returns a plan for every batch whose intents all sell a positive amount, as long as the node answers
  each quote with an amount or a named revert: no branch of the clearing, the allocation, the routing or the
  assembly throws.
\<close>

theorem solve_total:
  assumes "batch_ok (map sg_intent signed)" "caseless q" "answers q" "inputs_ok inp"
  shows "\<exists>plan. solve q adapter batchId signed quoteToken solver inp profile = Inr plan"
  using assms by (rule solve_plan_exists)

theorem solve_total_witness: "\<exists>plan. solve sample_venue ''0x9'' 60 sample_signed ''0xa'' ''0x7'' sample_inputs Profile_b = Inr plan"
  by (rule solve_total [OF sample_batch(1,2) _ sample_batch(3)]) (simp add: answers_def sample_venue_def)

section \<open>An intent of amount zero\<close>

text \<open>
  The coordinator admits an intent that sells nothing. Routed last on its side it receives what the
  shares left over, its price is that over zero, and the division throws out of solve: the plan of every
  other intent of the batch is lost with it. The three intents before it are solved without it.
\<close>

definition spare_venue :: quotes where
  "spare_venue a b n = Inr (Inr (if lower a = ''0xa'' then n sdiv 1100 else n * 900 + 1))"

definition crowd :: "signed_order list" where
  "crowd = map (\<lambda>n. \<lparr>sg_intent = sample_intent ''0xb'' ''0xa'' n (n * 800), sg_signature = ''0x''\<rparr>) [1000, 1000, 1000, 0]"

definition wide_inputs :: inputs where
  "wide_inputs = sample_inputs\<lparr>np_maxDeviationBps := 2000\<rparr>"

text \<open>
  One intent that sells nothing makes solve throw a RangeError for a batch it would otherwise solve.
\<close>

theorem zero_amount_stops_solve:
  "solve spare_venue ''0x9'' 60 crowd ''0xa'' ''0x7'' wide_inputs Profile_a = Inl RangeError
   \<and> (case solve spare_venue ''0x9'' 60 (take 3 crowd) ''0xa'' ''0x7'' wide_inputs Profile_a of
        Inr plan \<Rightarrow> length (s_executions (sp_solution plan)) = 3 | Inl _ \<Rightarrow> False)"
  by code_simp

end
