(* ===== verification/Effects.thy ===== *)
theory Effects
  imports Prelude
begin

text \<open>
  Code that awaits answers and changes state as it goes: a step over a state \<open>'s\<close> that ends with a
  value or an exception, and in either case leaves the state it reached. What a block of such steps may
  do to the state is proved once for every reflexive and transitive relation.
\<close>

type_synonym ('s, 'a) io = "'s \<Rightarrow> (js_error + 'a) \<times> 's"

definition pureS :: "'a \<Rightarrow> ('s, 'a) io" where
  "pureS v s = (Inr v, s)"

definition throwS :: "js_error \<Rightarrow> ('s, 'a) io" where
  "throwS e s = (Inl e, s)"

definition bindS :: "('s, 'a) io \<Rightarrow> ('a \<Rightarrow> ('s, 'b) io) \<Rightarrow> ('s, 'b) io" where
  "bindS m f s = (case m s of (Inl e, s') \<Rightarrow> (Inl e, s') | (Inr v, s') \<Rightarrow> f v s')"

text \<open>\<^verbatim>\<open>try { m } catch (e) { handler(e) }\<close>\<close>

definition catchS :: "('s, 'a) io \<Rightarrow> (js_error \<Rightarrow> ('s, 'a) io) \<Rightarrow> ('s, 'a) io" where
  "catchS m handler s = (case m s of (Inl e, s') \<Rightarrow> handler e s' | (Inr v, s') \<Rightarrow> (Inr v, s'))"

definition getS :: "('s \<Rightarrow> 'a) \<Rightarrow> ('s, 'a) io" where
  "getS f s = (Inr (f s), s)"

definition modS :: "('s \<Rightarrow> 's) \<Rightarrow> ('s, unit) io" where
  "modS f s = (Inr (), f s)"

definition whenS :: "bool \<Rightarrow> ('s, unit) io \<Rightarrow> ('s, unit) io" where
  "whenS c m = (if c then m else pureS ())"

definition liftE :: "js_error + 'a \<Rightarrow> ('s, 'a) io" where
  "liftE r s = (r, s)"

text \<open>\<^verbatim>\<open>for (const x of xs) { ... }\<close>, and the same loop collecting its values.\<close>

fun eachS :: "('a \<Rightarrow> ('s, unit) io) \<Rightarrow> 'a list \<Rightarrow> ('s, unit) io" where
  "eachS f [] = pureS ()"
| "eachS f (x # xs) = bindS (f x) (\<lambda>_. eachS f xs)"

fun mapS :: "('a \<Rightarrow> ('s, 'b) io) \<Rightarrow> 'a list \<Rightarrow> ('s, 'b list) io" where
  "mapS f [] = pureS []"
| "mapS f (x # xs) = bindS (f x) (\<lambda>y. bindS (mapS f xs) (\<lambda>ys. pureS (y # ys)))"

named_theorems io_simps \<open>unfolding of the primitive steps\<close>

lemmas [io_simps] = pureS_def throwS_def getS_def modS_def whenS_def liftE_def

lemma bindS_Inr: "bindS m f s = (Inr v, s'') \<longleftrightarrow> (\<exists>w s'. m s = (Inr w, s') \<and> f w s' = (Inr v, s''))"
  by (auto simp: bindS_def split: prod.splits sum.splits)

lemma bindS_eq: "m s = (Inr v, s') \<Longrightarrow> bindS m f s = f v s'" "m s = (Inl e, s') \<Longrightarrow> bindS m f s = (Inl e, s')"
  by (simp_all add: bindS_def)

lemma bindS_pure [simp]: "bindS (pureS v) f = f v"
  by (rule ext) (simp add: bindS_def pureS_def)

lemma bindS_get: "bindS (getS g) f s = f (g s) s"
  by (simp add: bindS_def getS_def)

lemma bindS_mod: "bindS (modS g) f s = f () (g s)"
  by (simp add: bindS_def modS_def)

lemma bindS_cases:
  assumes "\<And>e s'. m s = (Inl e, s') \<Longrightarrow> Q (Inl e, s')" "\<And>v s'. m s = (Inr v, s') \<Longrightarrow> Q (f v s')"
  shows "Q (bindS m f s)"
  using assms by (auto simp: bindS_def split: prod.split sum.split)

section \<open>What a step may do to the state\<close>

definition moves :: "('s \<Rightarrow> 's \<Rightarrow> bool) \<Rightarrow> ('s, 'a) io \<Rightarrow> bool" where
  "moves R m \<longleftrightarrow> (\<forall>s. R s (snd (m s)))"

lemma movesD: "moves R m \<Longrightarrow> m s = (r, s') \<Longrightarrow> R s s'"
  by (metis moves_def snd_conv)

lemma moves_weaken: "moves R m \<Longrightarrow> (\<And>s s'. R s s' \<Longrightarrow> R' s s') \<Longrightarrow> moves R' m"
  by (simp add: moves_def)

locale progress =
  fixes R :: "'s \<Rightarrow> 's \<Rightarrow> bool"
  assumes stays: "R s s" and goes_on: "R s s' \<Longrightarrow> R s' s'' \<Longrightarrow> R s s''"
begin

lemma moves_quiet: "moves R (pureS v)" "moves R (throwS e)" "moves R (getS f)" "moves R (liftE r)"
  by (simp_all add: moves_def io_simps stays)

lemma moves_mod: "(\<And>s. R s (f s)) \<Longrightarrow> moves R (modS f)"
  by (simp add: moves_def modS_def)

lemma moves_bind: "moves R m \<Longrightarrow> (\<And>v. moves R (f v)) \<Longrightarrow> moves R (bindS m f)"
  unfolding moves_def bindS_def by (auto split: prod.split sum.split) (metis goes_on snd_conv)+

lemma moves_get: "(\<And>s. R s (snd (f (g s) s))) \<Longrightarrow> moves R (bindS (getS g) f)"
  by (simp add: moves_def bindS_get)

lemma moves_catch: "moves R m \<Longrightarrow> (\<And>e. moves R (h e)) \<Longrightarrow> moves R (catchS m h)"
  unfolding moves_def catchS_def by (auto split: prod.split sum.split) (metis goes_on snd_conv)+

lemma moves_when: "moves R m \<Longrightarrow> moves R (whenS c m)"
  by (simp add: whenS_def moves_quiet)

lemma moves_each: "(\<And>x. x \<in> set xs \<Longrightarrow> moves R (f x)) \<Longrightarrow> moves R (eachS f xs)"
proof (induction xs)
  case (Cons x xs)
  have "moves R (f x)" "moves R (eachS f xs)" using Cons by simp_all
  then show ?case unfolding eachS.simps by (rule moves_bind)
qed (simp add: moves_quiet)

lemma moves_map: "(\<And>x. x \<in> set xs \<Longrightarrow> moves R (f x)) \<Longrightarrow> moves R (mapS f xs)"
proof (induction xs)
  case (Cons x xs)
  have "moves R (f x)" "moves R (mapS f xs)" using Cons by simp_all
  then show ?case unfolding mapS.simps by (intro moves_bind moves_quiet)
qed (simp add: moves_quiet)

lemmas moves_rules = moves_quiet moves_bind moves_catch moves_when moves_each moves_map

end

section \<open>Watching a world\<close>

text \<open>
  Beside the world stands a list of events. A call either leaves it alone or notes what its answer says
  happened, so a property of the list is a property of the calls a program makes, in their order.
\<close>

definition beside :: "('s, 'a) io \<Rightarrow> ('s \<times> 'e list, 'a) io" where
  "beside m st = (case m (fst st) of (r, s) \<Rightarrow> (r, (s, snd st)))"

definition noting :: "(js_error + 'a \<Rightarrow> 'e list) \<Rightarrow> ('s, 'a) io \<Rightarrow> ('s \<times> 'e list, 'a) io" where
  "noting note m st = (case m (fst st) of (r, s) \<Rightarrow> (r, (s, snd st @ note r)))"

lemma beside_run: "beside m (s, es) = (r, (s', es')) \<longleftrightarrow> m s = (r, s') \<and> es' = es"
  by (auto simp: beside_def split: prod.splits)

lemma noting_run: "noting note m (s, es) = (r, (s', es')) \<longleftrightarrow> m s = (r, s') \<and> es' = es @ note r"
  by (auto simp: noting_def split: prod.splits)

end
