(* ===== verification/Keeper.thy ===== *)
theory Keeper
  imports Effects Cross
begin

text \<open>
  solver/src/keeper.ts: the keeper that opens, publishes, freezes, crosses and executes auctions, block
  by block, from what it reads of the chain. Every call of the chain is a field of \<open>house\<close>, a step over a
  state nobody describes, so what is proved holds against every answer, including the ones that change
  between two reads. Log lines are left out.
\<close>

section \<open>The chain as the keeper sees it\<close>

type_synonym address = string
type_synonym hex = string

definition AUCTION_OPEN :: int where "AUCTION_OPEN = 2"
definition AUCTION_CLOSE :: int where "AUCTION_CLOSE = 4"
definition KIND_OPEN :: int where "KIND_OPEN = 0"
definition KIND_CLOSE :: int where "KIND_CLOSE = 1"
definition RESCAN :: int where "RESCAN = 32"
definition RELEASE_AFTER :: int where "RELEASE_AFTER = 1800"

datatype phase = NONE | DISCLOSURE | FROZEN | CROSSED | EXECUTED | ABORTED

definition phase_of :: "int \<Rightarrow> phase" where
  "phase_of k = (case js_at [NONE, DISCLOSURE, FROZEN, CROSSED, EXECUTED, ABORTED] k of None \<Rightarrow> NONE | Some p \<Rightarrow> p)"

record auction_state =
  au_token :: address
  au_kind :: int
  au_phase :: int
  au_collarBps :: int
  au_extensions :: int

record auction_timing =
  at_freeze :: int
  at_cross :: int
  at_reference :: int

record commitment_row =
  cm_owner :: address
  cm_buy :: bool
  cm_escrowed :: bool
  cm_cancelled :: bool
  cm_kind :: int
  cm_maxDevFromRefBps :: int
  cm_sellAmount :: int
  cm_limitPrice :: int
  cm_filledSell :: int

datatype action = Freeze | PublishIndicative | AbortAuction | SubmitCross int "cross_execution list" | Extend | ExecuteCross

datatype call = OpenAuction address int | Act int action | Approve address int

fun action_name :: "action \<Rightarrow> string" where
  "action_name Freeze = ''freeze''"
| "action_name PublishIndicative = ''publishIndicative''"
| "action_name AbortAuction = ''abortAuction''"
| "action_name (SubmitCross p e) = ''submitCross''"
| "action_name Extend = ''extend''"
| "action_name ExecuteCross = ''executeCross''"

text \<open>
  \<open>ho_simulate\<close> answers the name of the error a call fails with, \<open>ho_send\<close> the transaction or the reason
  nothing was sent, \<open>ho_receipt\<close> whether it succeeded, \<open>ho_replay\<close> the reason it did not. The reads are
  those of \<^verbatim>\<open>withRetry\<close>, so an exception is the one left after its attempts.
\<close>

record 's house =
  ho_timestamp :: "int \<Rightarrow> ('s, int) io"
  ho_session :: "int \<Rightarrow> ('s, int) io"
  ho_nextTransition :: "int \<Rightarrow> ('s, int) io"
  ho_allowed :: "address \<Rightarrow> ('s, bool) io"
  ho_bond :: "('s, int) io"
  ho_allowance :: "('s, int) io"
  ho_auctionIdOf :: "address \<Rightarrow> int \<Rightarrow> int \<Rightarrow> ('s, int) io"
  ho_auctionCount :: "('s, int) io"
  ho_auctionState :: "int \<Rightarrow> ('s, auction_state) io"
  ho_auctionTiming :: "int \<Rightarrow> ('s, auction_timing) io"
  ho_auctionResult :: "int \<Rightarrow> ('s, int) io"
  ho_openReference :: "address \<Rightarrow> int \<Rightarrow> ('s, int \<times> bool) io"
  ho_refPrice :: "address \<Rightarrow> ('s, int) io"
  ho_indicative :: "int \<Rightarrow> ('s, int) io"
  ho_bookLength :: "int \<Rightarrow> ('s, int) io"
  ho_bookAt :: "int \<Rightarrow> int \<Rightarrow> ('s, hex) io"
  ho_commitment :: "hex \<Rightarrow> ('s, commitment_row) io"
  ho_simulate :: "call \<Rightarrow> ('s, string option) io"
  ho_send :: "call \<Rightarrow> ('s, string + hex) io"
  ho_receipt :: "hex \<Rightarrow> ('s, bool) io"
  ho_replay :: "call \<Rightarrow> hex \<Rightarrow> ('s, string) io"

section \<open>What the keeper remembers\<close>

datatype key = ActionKey int string | OpenKey address int int

record 's keeper =
  ke_blocks :: nat
  ke_sent :: "(string \<times> nat) list"
  ke_reverted :: "(string \<times> nat) list"
  ke_releasedLog :: "(int \<times> phase) list"
  ke_refused :: "key list"
  ke_released :: "int list"
  ke_whyNot :: "(int \<times> string) list"
  ke_publishedAt :: "(int \<times> int) list"
  ke_chain :: 's

definition on_chain :: "('s, 'a) io \<Rightarrow> ('s keeper, 'a) io" where
  "on_chain m k = (case m (ke_chain k) of (r, s) \<Rightarrow> (r, k\<lparr>ke_chain := s\<rparr>))"

definition bump :: "(string \<times> nat) list \<Rightarrow> string \<Rightarrow> (string \<times> nat) list" where
  "bump m k = AList.update k ((case map_of m k of None \<Rightarrow> 0 | Some n \<Rightarrow> n) + 1) m"

definition set_add_new :: "'a \<Rightarrow> 'a list \<Rightarrow> 'a list" where
  "set_add_new x xs = (if x \<in> set xs then xs else xs @ [x])"

definition count_sent :: "string \<Rightarrow> 's keeper \<Rightarrow> 's keeper" where
  "count_sent name k = k\<lparr>ke_sent := bump (ke_sent k) name\<rparr>"

definition refuse :: "key \<Rightarrow> string \<Rightarrow> 's keeper \<Rightarrow> 's keeper" where
  "refuse key name k = k\<lparr>ke_refused := set_add_new key (ke_refused k), ke_reverted := bump (ke_reverted k) name\<rparr>"

section \<open>Acting\<close>

datatype sent_outcome = Landed hex | Failed string

definition send_and_wait :: "'s house \<Rightarrow> call \<Rightarrow> ('s keeper, sent_outcome) io" where
  "send_and_wait h c =
     bindS (on_chain (ho_send h c)) (\<lambda>r.
       case r of
         Inl reason \<Rightarrow> pureS (Failed reason)
       | Inr tx \<Rightarrow> bindS (on_chain (ho_receipt h tx)) (\<lambda>success.
           if success then pureS (Landed tx)
           else bindS (on_chain (ho_replay h c tx)) (\<lambda>reason. pureS (Failed reason))))"

text \<open>The pattern \<^verbatim>\<open>/^(TooEarly|AuctionStillLive)\b/\<close>: the name, and after it no letter, digit or underscore.\<close>

definition word_char :: "char \<Rightarrow> bool" where
  "word_char c = (let n = (of_char c :: nat) in (48 \<le> n \<and> n \<le> 57) \<or> (65 \<le> n \<and> n \<le> 90) \<or> (97 \<le> n \<and> n \<le> 122) \<or> n = 95)"

definition names_word :: "string \<Rightarrow> string \<Rightarrow> bool" where
  "names_word w s \<longleftrightarrow> take (length w) s = w \<and> (case drop (length w) s of [] \<Rightarrow> True | c # _ \<Rightarrow> \<not> word_char c)"

definition waits :: "string \<Rightarrow> bool" where
  "waits name \<longleftrightarrow> names_word ''TooEarly'' name \<or> names_word ''AuctionStillLive'' name"

datatype verdict = Sent | Waiting | Declined

definition act :: "'s house \<Rightarrow> int \<Rightarrow> action \<Rightarrow> ('s keeper, verdict) io" where
  "act h aid a =
     (let name = action_name a; key = ActionKey aid name in
      bindS (getS ke_refused) (\<lambda>refused.
        if key \<in> set refused then pureS Declined
        else bindS (on_chain (ho_simulate h (Act aid a))) (\<lambda>problem.
          case problem of
            Some reason \<Rightarrow>
              if waits reason then pureS Waiting
              else bindS (modS (refuse key name)) (\<lambda>_. pureS Declined)
          | None \<Rightarrow> bindS (send_and_wait h (Act aid a)) (\<lambda>outcome.
              case outcome of
                Landed tx \<Rightarrow> bindS (modS (count_sent name)) (\<lambda>_. pureS Sent)
              | Failed reason \<Rightarrow> bindS (modS (refuse key name)) (\<lambda>_. pureS Declined)))))"

definition publish :: "'s house \<Rightarrow> int \<Rightarrow> int \<Rightarrow> ('s keeper, unit) io" where
  "publish h aid T =
     bindS (getS (\<lambda>k. map_of (ke_publishedAt k) aid)) (\<lambda>seen.
       if seen = Some T then pureS ()
       else bindS (act h aid PublishIndicative) (\<lambda>v.
         whenS (v = Sent) (modS (\<lambda>k. k\<lparr>ke_publishedAt := AList.update aid T (ke_publishedAt k)\<rparr>))))"

section \<open>The reference and the book\<close>

definition reference_price :: "'s house \<Rightarrow> int \<Rightarrow> int \<Rightarrow> address \<Rightarrow> int \<Rightarrow> int \<Rightarrow> int \<Rightarrow> ('s keeper, int \<times> bool) io" where
  "reference_price h quoteUnit aid token kind crossAt extensions =
     (if extensions > 0 then
        bindS (on_chain (ho_auctionResult h aid)) (\<lambda>refPrice.
          if kind = KIND_CLOSE then pureS (refPrice, False)
          else bindS (on_chain (ho_openReference h token (crossAt sdiv 86400))) (\<lambda>(_, available). pureS (refPrice, \<not> available)))
      else if kind = KIND_OPEN then
        bindS (on_chain (ho_openReference h token (crossAt sdiv 86400))) (\<lambda>(openRef, available).
          if available then pureS (openRef * quoteUnit sdiv 10 ^ 18, False)
          else bindS (on_chain (ho_refPrice h token)) (\<lambda>price. pureS (price * quoteUnit sdiv 10 ^ 18, True)))
      else bindS (on_chain (ho_refPrice h token)) (\<lambda>price. pureS (price * quoteUnit sdiv 10 ^ 18, False)))"

definition book_row :: "'s house \<Rightarrow> int \<Rightarrow> int \<Rightarrow> ('s keeper, commitment) io" where
  "book_row h aid i =
     bindS (on_chain (ho_bookAt h aid i)) (\<lambda>hash.
       bindS (on_chain (ho_commitment h hash)) (\<lambda>c.
         pureS \<lparr>o_index = nat i, o_owner = cm_owner c, o_buy = cm_buy c, o_escrowed = cm_escrowed c, o_cancelled = cm_cancelled c,
                o_kind = cm_kind c, o_maxDevFromRefBps = cm_maxDevFromRefBps c, o_sellAmount = cm_sellAmount c,
                o_limitPrice = cm_limitPrice c, o_filledSell = cm_filledSell c\<rparr>))"

definition read_book :: "'s house \<Rightarrow> int \<Rightarrow> ('s keeper, commitment list) io" where
  "read_book h aid =
     bindS (on_chain (ho_bookLength h aid)) (\<lambda>length. mapS (\<lambda>i. book_row h aid i) (map int [0..<nat length]))"

section \<open>One auction, one block\<close>

definition disclosure_step :: "'s house \<Rightarrow> int \<Rightarrow> int \<Rightarrow> auction_timing \<Rightarrow> ('s keeper, unit) io" where
  "disclosure_step h aid T t =
     (if at_freeze t \<le> T \<and> T < at_cross t then bindS (act h aid Freeze) (\<lambda>_. pureS ())
      else if T < at_freeze t then publish h aid T
      else bindS (act h aid AbortAuction) (\<lambda>_. pureS ()))"

text \<open>When no cross can be submitted, the auction is extended, and when it cannot be extended, aborted.\<close>

definition give_up :: "'s house \<Rightarrow> int \<Rightarrow> ('s keeper, unit) io" where
  "give_up h aid =
     bindS (act h aid Extend) (\<lambda>v. if v = Sent then pureS () else bindS (act h aid AbortAuction) (\<lambda>_. pureS ()))"

definition cross_step :: "'s house \<Rightarrow> int \<Rightarrow> cross_plan \<Rightarrow> ('s keeper, unit) io" where
  "cross_step h aid plan =
     (case plan of
        Planned price m executions \<Rightarrow>
          bindS (act h aid (SubmitCross price executions)) (\<lambda>v. if v \<noteq> Declined then pureS () else give_up h aid)
      | Refused reason \<Rightarrow>
          bindS (modS (\<lambda>k. k\<lparr>ke_whyNot := AList.update aid reason (ke_whyNot k)\<rparr>)) (\<lambda>_. give_up h aid))"

definition frozen_step :: "'s house \<Rightarrow> int \<Rightarrow> int \<Rightarrow> int \<Rightarrow> auction_state \<Rightarrow> auction_timing \<Rightarrow> ('s keeper, unit) io" where
  "frozen_step h quoteUnit aid T a t =
     (if T < at_reference t then publish h aid T
      else bindS (reference_price h quoteUnit aid (au_token a) (au_kind a) (at_cross t) (au_extensions a)) (\<lambda>(ref, rooExcluded).
        bindS (on_chain (ho_indicative h aid)) (\<lambda>preferred.
          bindS (read_book h aid) (\<lambda>book.
            bindS (liftE (plan_cross book ref (au_collarBps a) rooExcluded preferred)) (\<lambda>plan. cross_step h aid plan)))))"

definition step_auction :: "'s house \<Rightarrow> int \<Rightarrow> int \<Rightarrow> int \<Rightarrow> ('s keeper, unit) io" where
  "step_auction h quoteUnit T aid =
     bindS (on_chain (ho_auctionState h aid)) (\<lambda>a.
       let phase = phase_of (au_phase a) in
       if phase = NONE \<or> phase = EXECUTED \<or> phase = ABORTED then pureS ()
       else bindS (on_chain (ho_auctionTiming h aid)) (\<lambda>t.
         bindS (getS ke_released) (\<lambda>released.
           if T > at_reference t + RELEASE_AFTER \<and> aid \<notin> set released
           then modS (\<lambda>k. k\<lparr>ke_released := ke_released k @ [aid], ke_releasedLog := ke_releasedLog k @ [(aid, phase)]\<rparr>)
           else if aid \<in> set released then pureS ()
           else if phase = DISCLOSURE then disclosure_step h aid T t
           else if phase = FROZEN then frozen_step h quoteUnit aid T a t
           else bindS (act h aid ExecuteCross) (\<lambda>_. pureS ()))))"

section \<open>One block\<close>

definition open_token :: "'s house \<Rightarrow> int \<Rightarrow> int \<Rightarrow> address \<Rightarrow> ('s keeper, unit) io" where
  "open_token h crossAt kind token =
     bindS (on_chain (ho_auctionIdOf h token (ymd_of crossAt) kind)) (\<lambda>aid.
       bindS (if aid = 0 then pureS 0 else bindS (on_chain (ho_auctionState h aid)) (\<lambda>a. pureS (au_phase a))) (\<lambda>phase.
         if phase \<noteq> 0 then pureS ()
         else let key = OpenKey token (ymd_of crossAt) kind in
           bindS (getS ke_refused) (\<lambda>refused.
             if key \<in> set refused then pureS ()
             else bindS (on_chain (ho_simulate h (OpenAuction token kind))) (\<lambda>problem.
               case problem of
                 Some reason \<Rightarrow> modS (\<lambda>k. k\<lparr>ke_refused := set_add_new key (ke_refused k)\<rparr>)
               | None \<Rightarrow> bindS (send_and_wait h (OpenAuction token kind)) (\<lambda>outcome.
                   case outcome of
                     Landed tx \<Rightarrow> modS (count_sent ''openAuction'')
                   | Failed reason \<Rightarrow> modS (refuse key ''openAuction''))))))"

definition kind_of_session :: "int \<Rightarrow> int option" where
  "kind_of_session session =
     (if session = AUCTION_OPEN then Some KIND_OPEN else if session = AUCTION_CLOSE then Some KIND_CLOSE else None)"

definition scanned :: "int \<Rightarrow> int list" where
  "scanned auctions = rev [max 1 (auctions - RESCAN + 1)..auctions]"

definition tick :: "'s house \<Rightarrow> address list \<Rightarrow> int \<Rightarrow> int \<Rightarrow> ('s keeper, unit) io" where
  "tick h toks quoteUnit block =
     bindS (on_chain (ho_timestamp h block)) (\<lambda>T.
       bindS (on_chain (ho_session h T)) (\<lambda>session.
         bindS (case kind_of_session session of
                  None \<Rightarrow> pureS ()
                | Some kind \<Rightarrow> bindS (on_chain (ho_nextTransition h T)) (\<lambda>crossAt. eachS (open_token h crossAt kind) toks)) (\<lambda>_.
           bindS (on_chain (ho_auctionCount h)) (\<lambda>auctions.
             eachS (\<lambda>aid. catchS (step_auction h quoteUnit T aid) (\<lambda>_. pureS ())) (scanned auctions)))))"

section \<open>The run\<close>

definition allowed_tokens :: "'s house \<Rightarrow> address list \<Rightarrow> ('s keeper, address list) io" where
  "allowed_tokens h listed =
     bindS (mapS (\<lambda>t. bindS (on_chain (ho_allowed h t)) (\<lambda>ok. pureS (t, ok))) listed) (\<lambda>rows.
       let toks = map fst (filter snd rows) in
       if toks = [] then throwS (Thrown ''AuctionHouse allows no token, so there is nothing to keep'') else pureS toks)"

definition approve_bonds :: "'s house \<Rightarrow> address \<Rightarrow> ('s keeper, unit) io" where
  "approve_bonds h house =
     bindS (on_chain (ho_bond h)) (\<lambda>bond.
       bindS (on_chain (ho_allowance h)) (\<lambda>allowance.
         if allowance < bond then bindS (send_and_wait h (Approve house (bond * 4))) (\<lambda>_. pureS ()) else pureS ()))"

text \<open>One turn of the loop: a block not seen before is ticked, and the run ends once its time is up.\<close>

definition poll_block :: "'s house \<Rightarrow> address list \<Rightarrow> int \<Rightarrow> int option \<Rightarrow> int \<Rightarrow> int option \<Rightarrow> ('s keeper, int option \<times> bool) io" where
  "poll_block h toks quoteUnit endAt n seen =
     (if seen = Some n then pureS (seen, True)
      else bindS (modS (\<lambda>k. k\<lparr>ke_blocks := ke_blocks k + 1\<rparr>)) (\<lambda>_.
        bindS (catchS (tick h toks quoteUnit n) (\<lambda>_. pureS ())) (\<lambda>_.
          case endAt of
            None \<Rightarrow> pureS (Some n, True)
          | Some e \<Rightarrow> bindS (on_chain (ho_timestamp h n)) (\<lambda>T. pureS (Some n, T < e)))))"

fun run_blocks :: "'s house \<Rightarrow> address list \<Rightarrow> int \<Rightarrow> int option \<Rightarrow> int list \<Rightarrow> int option \<Rightarrow> ('s keeper, unit) io" where
  "run_blocks h toks quoteUnit endAt [] seen = pureS ()"
| "run_blocks h toks quoteUnit endAt (n # ns) seen =
     bindS (poll_block h toks quoteUnit endAt n seen) (\<lambda>(seen', go_on).
       if go_on then run_blocks h toks quoteUnit endAt ns seen' else pureS ())"


section \<open>A chain that remembers what was sent to it\<close>

datatype event = Broadcast call | Mined

definition note_send :: "call \<Rightarrow> js_error + (string + hex) \<Rightarrow> event list" where
  "note_send c r = (case r of Inr (Inr tx) \<Rightarrow> [Broadcast c] | _ \<Rightarrow> [])"

definition note_receipt :: "js_error + bool \<Rightarrow> event list" where
  "note_receipt r = (if r = Inr True then [Mined] else [])"

definition traced :: "'s house \<Rightarrow> ('s \<times> event list) house" where
  "traced h =
     \<lparr>ho_timestamp = (\<lambda>n. beside (ho_timestamp h n)), ho_session = (\<lambda>T. beside (ho_session h T)),
      ho_nextTransition = (\<lambda>T. beside (ho_nextTransition h T)), ho_allowed = (\<lambda>t. beside (ho_allowed h t)),
      ho_bond = beside (ho_bond h), ho_allowance = beside (ho_allowance h),
      ho_auctionIdOf = (\<lambda>t d k. beside (ho_auctionIdOf h t d k)), ho_auctionCount = beside (ho_auctionCount h),
      ho_auctionState = (\<lambda>a. beside (ho_auctionState h a)), ho_auctionTiming = (\<lambda>a. beside (ho_auctionTiming h a)),
      ho_auctionResult = (\<lambda>a. beside (ho_auctionResult h a)), ho_openReference = (\<lambda>t d. beside (ho_openReference h t d)),
      ho_refPrice = (\<lambda>t. beside (ho_refPrice h t)), ho_indicative = (\<lambda>a. beside (ho_indicative h a)),
      ho_bookLength = (\<lambda>a. beside (ho_bookLength h a)), ho_bookAt = (\<lambda>a i. beside (ho_bookAt h a i)),
      ho_commitment = (\<lambda>x. beside (ho_commitment h x)), ho_simulate = (\<lambda>c. beside (ho_simulate h c)),
      ho_send = (\<lambda>c. noting (note_send c) (ho_send h c)), ho_receipt = (\<lambda>x. noting note_receipt (ho_receipt h x)),
      ho_replay = (\<lambda>c x. beside (ho_replay h c x))\<rparr>"

definition events :: "('s \<times> event list) keeper \<Rightarrow> event list" where
  "events k = snd (ke_chain k)"

text \<open>What the keeper holds besides the chain's state and its counters.\<close>

definition same_memory :: "'s keeper \<Rightarrow> 's keeper \<Rightarrow> bool" where
  "same_memory k k' \<longleftrightarrow> ke_refused k' = ke_refused k \<and> ke_released k' = ke_released k \<and> ke_publishedAt k' = ke_publishedAt k"

definition silent :: "('s \<times> event list) keeper \<Rightarrow> ('s \<times> event list) keeper \<Rightarrow> bool" where
  "silent k k' \<longleftrightarrow> same_memory k k' \<and> events k' = events k"

interpretation silence: progress silent
  by unfold_locales (auto simp: silent_def same_memory_def)

lemma silent_read: "moves silent (on_chain (beside m))"
  by (auto simp: moves_def on_chain_def beside_def silent_def same_memory_def events_def split: prod.split)

lemma traced_reads [simp]:
  "ho_timestamp (traced h) n = beside (ho_timestamp h n)" "ho_session (traced h) T = beside (ho_session h T)"
  "ho_nextTransition (traced h) T = beside (ho_nextTransition h T)" "ho_auctionIdOf (traced h) t d knd = beside (ho_auctionIdOf h t d knd)"
  "ho_auctionCount (traced h) = beside (ho_auctionCount h)" "ho_auctionState (traced h) a = beside (ho_auctionState h a)"
  "ho_auctionTiming (traced h) a = beside (ho_auctionTiming h a)" "ho_auctionResult (traced h) a = beside (ho_auctionResult h a)"
  "ho_openReference (traced h) t d = beside (ho_openReference h t d)" "ho_refPrice (traced h) t = beside (ho_refPrice h t)"
  "ho_indicative (traced h) a = beside (ho_indicative h a)" "ho_bookLength (traced h) a = beside (ho_bookLength h a)"
  "ho_bookAt (traced h) a i = beside (ho_bookAt h a i)" "ho_commitment (traced h) x = beside (ho_commitment h x)"
  "ho_simulate (traced h) c = beside (ho_simulate h c)" "ho_replay (traced h) c x = beside (ho_replay h c x)"
  "ho_send (traced h) c = noting (note_send c) (ho_send h c)" "ho_receipt (traced h) x = noting note_receipt (ho_receipt h x)"
  by (simp_all add: traced_def)

lemma silent_reference: "moves silent (reference_price (traced h) quoteUnit a t knd crossAt ext)"
  unfolding reference_price_def by (auto intro!: silence.moves_bind silent_read silence.moves_quiet split: prod.split)

lemma silent_book: "moves silent (read_book (traced h) a)"
  unfolding read_book_def book_row_def
  by (auto intro!: silence.moves_bind silence.moves_map silent_read silence.moves_quiet)

section \<open>One action\<close>

text \<open>A transaction is broadcast, and then mined with success or not.\<close>

lemma send_and_wait_events:
  assumes "send_and_wait (traced h) c k = (r, k')"
  obtains sent where "same_memory k k'" "events k' = events k @ sent" "sent \<in> {[], [Broadcast c], [Broadcast c, Mined]}"
    "Mined \<in> set sent \<longleftrightarrow> (\<exists>tx. r = Inr (Landed tx))"
proof -
  obtain r1 s1 where s1: "ho_send h c (fst (ke_chain k)) = (r1, s1)" by (cases "ho_send h c (fst (ke_chain k))")
  let ?k1 = "k\<lparr>ke_chain := (s1, snd (ke_chain k) @ note_send c r1)\<rparr>"
  have k1: "on_chain (ho_send (traced h) c) k = (r1, ?k1)" by (simp add: on_chain_def noting_def s1)
  consider e where "r1 = Inl e" | reason where "r1 = Inr (Inl reason)" | tx where "r1 = Inr (Inr tx)" by (metis sum.exhaust)
  then show thesis
  proof cases
    case 1
    then show thesis using assms k1 by (intro that [of "[]"]) (auto simp: send_and_wait_def bindS_def note_send_def same_memory_def events_def)
  next
    case 2
    then show thesis using assms k1
      by (intro that [of "[]"]) (auto simp: send_and_wait_def bindS_def note_send_def same_memory_def events_def io_simps)
  next
    case (3 tx)
    obtain r2 s2 where s2: "ho_receipt h tx s1 = (r2, s2)" by (cases "ho_receipt h tx s1")
    let ?k2 = "k\<lparr>ke_chain := (s2, snd (ke_chain k) @ [Broadcast c] @ note_receipt r2)\<rparr>"
    have k2: "on_chain (ho_receipt (traced h) tx) ?k1 = (r2, ?k2)" by (simp add: on_chain_def noting_def s2 3 note_send_def)
    have run: "send_and_wait (traced h) c k = bindS (on_chain (ho_receipt (traced h) tx)) (\<lambda>success.
           if success then pureS (Landed tx) else bindS (on_chain (ho_replay (traced h) c tx)) (\<lambda>reason. pureS (Failed reason))) ?k1"
      using k1 3 by (simp add: send_and_wait_def bindS_def)
    consider e where "r2 = Inl e" | "r2 = Inr True" | "r2 = Inr False" by (metis sum.exhaust)
    then show thesis
    proof cases
      case 1
      then have "r = Inl e" "k' = ?k2" using assms run k2 by (simp_all add: bindS_def)
      then show thesis using 1 by (intro that [of "[Broadcast c]"]) (auto simp: note_receipt_def same_memory_def events_def)
    next
      case 2
      then have "r = Inr (Landed tx)" "k' = ?k2" using assms run k2 by (simp_all add: bindS_def io_simps)
      then show thesis using 2 by (intro that [of "[Broadcast c, Mined]"]) (auto simp: note_receipt_def same_memory_def events_def)
    next
      case last: 3
      have fin: "bindS (on_chain (ho_replay (traced h) c tx)) (\<lambda>reason. pureS (Failed reason)) ?k2 = (r, k')"
        using assms run k2 last by (simp add: bindS_def)
      have "moves silent (bindS (on_chain (ho_replay (traced h) c tx)) (\<lambda>reason. pureS (Failed reason)))"
        by (auto intro!: silence.moves_bind silent_read silence.moves_quiet)
      then have "silent ?k2 (snd (bindS (on_chain (ho_replay (traced h) c tx)) (\<lambda>reason. pureS (Failed reason)) ?k2))"
        unfolding moves_def by blast
      then have "silent ?k2 k'" unfolding fin by simp
      moreover have "\<nexists>t. r = Inr (Landed t)" using fin by (auto simp: bindS_def pureS_def split: prod.splits sum.splits)
      ultimately show thesis using last by (intro that [of "[Broadcast c]"]) (auto simp: silent_def same_memory_def events_def note_receipt_def)
    qed
  qed
qed

lemma act_unfold:
  "act h a x k = (if ActionKey a (action_name x) \<in> set (ke_refused k) then (Inr Declined, k)
     else bindS (on_chain (ho_simulate h (Act a x))) (\<lambda>problem.
       case problem of
         Some reason \<Rightarrow>
           if waits reason then pureS Waiting
           else bindS (modS (refuse (ActionKey a (action_name x)) (action_name x))) (\<lambda>_. pureS Declined)
       | None \<Rightarrow> bindS (send_and_wait h (Act a x)) (\<lambda>outcome.
           case outcome of
             Landed tx \<Rightarrow> bindS (modS (count_sent (action_name x))) (\<lambda>_. pureS Sent)
           | Failed reason \<Rightarrow> bindS (modS (refuse (ActionKey a (action_name x)) (action_name x))) (\<lambda>_. pureS Declined))) k)"
  unfolding act_def Let_def bindS_get by (simp add: pureS_def)

lemma act_events:
  assumes "act (traced h) a x k = (r, k')"
  obtains sent where "events k' = events k @ sent" "sent \<in> {[], [Broadcast (Act a x)], [Broadcast (Act a x), Mined]}"
    "ke_released k' = ke_released k" "ke_publishedAt k' = ke_publishedAt k" "set (ke_refused k) \<subseteq> set (ke_refused k')"
    "Mined \<in> set sent \<longleftrightarrow> r = Inr Sent" "ActionKey a (action_name x) \<in> set (ke_refused k) \<Longrightarrow> sent = []"
    "r = Inr Declined \<Longrightarrow> ActionKey a (action_name x) \<in> set (ke_refused k')" "r = Inr Waiting \<Longrightarrow> sent = []"
proof -
  let ?key = "ActionKey a (action_name x)" and ?name = "action_name x"
  show thesis
  proof (cases "?key \<in> set (ke_refused k)")
    case True
    then have "r = Inr Declined" "k' = k" using assms by (simp_all add: act_unfold)
    then show thesis using True by (intro that [of "[]"]) simp_all
  next
    case False
    obtain r1 k1 where s1: "on_chain (ho_simulate (traced h) (Act a x)) k = (r1, k1)" by (cases "on_chain (ho_simulate (traced h) (Act a x)) k")
    have k1: "silent k k1" using movesD [OF silent_read] s1 by simp
    have refused: "set (ke_refused q) \<subseteq> set (ke_refused (refuse ?key ?name q))" "?key \<in> set (ke_refused (refuse ?key ?name q))" for q :: "('a \<times> event list) keeper"
      by (auto simp: refuse_def set_add_new_def)
    consider e where "r1 = Inl e" | reason where "r1 = Inr (Some reason)" | "r1 = Inr None" by (metis sum.exhaust option.exhaust)
    then show thesis
    proof cases
      case 1
      then have "r = Inl e" "k' = k1" using assms s1 False by (simp_all add: act_unfold bindS_def)
      then show thesis using k1 False by (intro that [of "[]"]) (auto simp: silent_def same_memory_def)
    next
      case (2 reason)
      then have "(if waits reason then pureS Waiting else bindS (modS (refuse ?key ?name)) (\<lambda>_. pureS Declined)) k1 = (r, k')"
        using assms s1 False by (simp add: act_unfold) (auto simp add: bindS_def split: if_splits)
      then have "r = Inr Waiting \<and> k' = k1 \<or> r = Inr Declined \<and> k' = refuse ?key ?name k1"
        by (auto simp: bindS_mod io_simps split: if_splits)
      then show thesis using k1 False refused [of k1]
        by (intro that [of "[]"]) (auto simp: silent_def same_memory_def events_def refuse_def)
    next
      case 3
      obtain r2 k2 where s2: "send_and_wait (traced h) (Act a x) k1 = (r2, k2)" by (cases "send_and_wait (traced h) (Act a x) k1")
      obtain sent where sent: "same_memory k1 k2" "events k2 = events k1 @ sent" "sent \<in> {[], [Broadcast (Act a x)], [Broadcast (Act a x), Mined]}"
        "Mined \<in> set sent \<longleftrightarrow> (\<exists>tx. r2 = Inr (Landed tx))" by (rule send_and_wait_events [OF s2])
      have rest: "(case r2 of Inl e \<Rightarrow> (Inl e, k2) | Inr (Landed tx) \<Rightarrow> (Inr Sent, count_sent ?name k2)
          | Inr (Failed reason) \<Rightarrow> (Inr Declined, refuse ?key ?name k2)) = (r, k')"
        using assms s1 s2 3 False unfolding act_unfold by (simp add: bindS_def) (auto simp: bindS_mod pureS_def split: sum.splits sent_outcome.splits)
      have memory: "ke_refused k2 = ke_refused k" "ke_released k2 = ke_released k" "ke_publishedAt k2 = ke_publishedAt k" "events k2 = events k @ sent"
        using k1 sent(1,2) by (auto simp: silent_def same_memory_def)
      have "events k' = events k2 \<and> ke_released k' = ke_released k2 \<and> ke_publishedAt k' = ke_publishedAt k2
        \<and> set (ke_refused k2) \<subseteq> set (ke_refused k') \<and> (r = Inr Sent \<longleftrightarrow> (\<exists>tx. r2 = Inr (Landed tx)))
        \<and> (r = Inr Declined \<longrightarrow> ?key \<in> set (ke_refused k')) \<and> r \<noteq> Inr Waiting"
        using rest by (auto simp: count_sent_def refuse_def set_add_new_def events_def split: sum.splits sent_outcome.splits)
      then show thesis using memory sent(3,4) False by (intro that [of sent]) auto
    qed
  qed
qed


section \<open>One auction in one block\<close>

text \<open>
  What a turn sends: transactions for its own auction, of actions it had not given up, and none after one
  that was mined with success.
\<close>

fun burst :: "nat \<Rightarrow> int \<Rightarrow> key list \<Rightarrow> event list \<Rightarrow> bool" where
  "burst n a refused [] \<longleftrightarrow> True"
| "burst (Suc n) a refused (Broadcast (Act b x) # es) \<longleftrightarrow>
     b = a \<and> ActionKey a (action_name x) \<notin> set refused \<and> (es = [Mined] \<or> burst n a refused es)"
| "burst n a refused (e # es) \<longleftrightarrow> False"

lemma burst_mono: "burst n a refused es \<Longrightarrow> n \<le> m \<Longrightarrow> set refused' \<subseteq> set refused \<Longrightarrow> burst m a refused' es"
proof (induction n a refused es arbitrary: m rule: burst.induct)
  case (2 n a refused b x es)
  then obtain j where "m = Suc j" by (cases m) auto
  then show ?case using 2 by auto
qed auto

lemma burst_append: "burst n a refused es \<Longrightarrow> Mined \<notin> set es \<Longrightarrow> burst m a refused es' \<Longrightarrow> burst (n + m) a refused (es @ es')"
  by (induction n a refused es rule: burst.induct) (auto intro: burst_mono)

definition turn :: "nat \<Rightarrow> int \<Rightarrow> ('s \<times> event list) keeper \<Rightarrow> ('s \<times> event list) keeper \<Rightarrow> event list \<Rightarrow> bool" where
  "turn n a k k' es \<longleftrightarrow> events k' = events k @ es \<and> burst n a (ke_refused k) es \<and> set (ke_refused k) \<subseteq> set (ke_refused k')
     \<and> ke_released k' = ke_released k"

lemma turn_quiet: "silent k k' \<Longrightarrow> turn n a k k' []"
  by (cases n) (auto simp: turn_def silent_def same_memory_def)

lemma turn_trans:
  assumes "turn n a k k1 es" "turn m a k1 k' es'" "Mined \<notin> set es"
  shows "turn (n + m) a k k' (es @ es')"
proof -
  have "burst m a (ke_refused k) es'" using assms by (auto simp: turn_def intro: burst_mono)
  then have "burst (n + m) a (ke_refused k) (es @ es')" using assms by (auto simp: turn_def intro: burst_append)
  then show ?thesis using assms by (auto simp: turn_def)
qed

lemma act_turn:
  assumes "act (traced h) a x k = (r, k')"
  obtains es where "turn 1 a k k' es" "Mined \<in> set es \<longleftrightarrow> r = Inr Sent" "ke_publishedAt k' = ke_publishedAt k" "r = Inr Waiting \<Longrightarrow> es = []"
    "es \<in> {[], [Broadcast (Act a x)], [Broadcast (Act a x), Mined]}"
proof -
  obtain es where es: "events k' = events k @ es" "es \<in> {[], [Broadcast (Act a x)], [Broadcast (Act a x), Mined]}"
    "ke_released k' = ke_released k" "ke_publishedAt k' = ke_publishedAt k" "set (ke_refused k) \<subseteq> set (ke_refused k')"
    "Mined \<in> set es \<longleftrightarrow> r = Inr Sent" "ActionKey a (action_name x) \<in> set (ke_refused k) \<Longrightarrow> es = []" "r = Inr Waiting \<Longrightarrow> es = []"
    using act_events [OF assms] by metis
  have "burst 1 a (ke_refused k) es" using es(2,7) by auto
  then have "turn 1 a k k' es" using es(1,3,5) by (simp add: turn_def)
  then show thesis using that es(2,4,6,8) by blast
qed

lemma turn_then:
  assumes "m k = (r0, k0)" "bindS m f k = (r, k')" "turn n a k k0 es"
    "\<And>e. r0 = Inl e \<Longrightarrow> Q (Inl e) es"
    "\<And>v. r0 = Inr v \<Longrightarrow> f v k0 = (r, k') \<Longrightarrow> \<exists>es'. turn j a k0 k' es' \<and> (es' = [] \<or> Mined \<notin> set es) \<and> Q r (es @ es')"
  shows "\<exists>es. turn (n + j) a k k' es \<and> Q r es"
proof (cases r0)
  case (Inl e)
  then have "r = Inl e" "k' = k0" using assms(1,2) by (simp_all add: bindS_def)
  then show ?thesis using assms(3,4) Inl by (auto simp: turn_def intro: burst_mono)
next
  case (Inr v)
  then have "f v k0 = (r, k')" using assms(1,2) by (simp add: bindS_def)
  then obtain es' where es': "turn j a k0 k' es'" "es' = [] \<or> Mined \<notin> set es" "Q r (es @ es')" using assms(5) Inr by blast
  have "turn (n + j) a k k' (es @ es')"
  proof (cases "Mined \<in> set es")
    case True
    then have "es' = []" using es'(2) by simp
    then show ?thesis using assms(3) es'(1) by (auto simp: turn_def intro: burst_mono)
  qed (rule turn_trans [OF assms(3) es'(1)])
  then show ?thesis using es'(3) by blast
qed

lemma give_up_turn:
  assumes "give_up (traced h) a k = (r, k')"
  shows "\<exists>es. turn 2 a k k' es \<and> (\<forall>c. Broadcast c \<in> set es \<longrightarrow> c = Act a Extend \<or> c = Act a AbortAuction)"
proof -
  let ?only = "\<lambda>es. \<forall>c. Broadcast c \<in> set es \<longrightarrow> c = Act a Extend \<or> c = Act a AbortAuction"
  obtain r0 k0 where a0: "act (traced h) a Extend k = (r0, k0)" by (cases "act (traced h) a Extend k")
  obtain es where es: "turn 1 a k k0 es" "Mined \<in> set es \<longleftrightarrow> r0 = Inr Sent" "es \<in> {[], [Broadcast (Act a Extend)], [Broadcast (Act a Extend), Mined]}"
    by (rule act_turn [OF a0])
  have "\<exists>es. turn (1 + 1) a k k' es \<and> ?only es"
  proof (rule turn_then [OF a0 assms [unfolded give_up_def] es(1), where Q = "\<lambda>_. ?only"])
    fix v assume v: "r0 = Inr v" "(if v = Sent then pureS () else bindS (act (traced h) a AbortAuction) (\<lambda>_. pureS ())) k0 = (r, k')"
    show "\<exists>es'. turn 1 a k0 k' es' \<and> (es' = [] \<or> Mined \<notin> set es) \<and> ?only (es @ es')"
    proof (cases "v = Sent")
      case True
      then have "k' = k0" using v(2) by (simp add: pureS_def)
      then show ?thesis using turn_quiet [OF silence.stays] es(3) by fastforce
    next
      case False
      obtain r1 k1 where a1: "act (traced h) a AbortAuction k0 = (r1, k1)" by (cases "act (traced h) a AbortAuction k0")
      then have "k' = k1" using v(2) False by (cases r1) (auto simp: bindS_def pureS_def)
      then obtain es' where "turn 1 a k0 k' es'" "es' \<in> {[], [Broadcast (Act a AbortAuction)], [Broadcast (Act a AbortAuction), Mined]}"
        using act_turn [OF a1] by metis
      moreover have "Mined \<notin> set es" using es(2) v(1) False by simp
      ultimately show ?thesis using es(3) by fastforce
    qed
  qed (use es(3) in auto)
  then show ?thesis by (simp add: numeral_2_eq_2)
qed

lemma cross_step_turn:
  assumes "cross_step (traced h) a plan k = (r, k')"
  shows "\<exists>es. turn 3 a k k' es \<and> (\<forall>c. Broadcast c \<in> set es \<longrightarrow> c = Act a Extend \<or> c = Act a AbortAuction
    \<or> (\<exists>price m ex. plan = Planned price m ex \<and> c = Act a (SubmitCross price ex)))"
proof (cases plan)
  case (Planned price m ex)
  let ?only = "\<lambda>es. \<forall>c. Broadcast c \<in> set es \<longrightarrow> c = Act a Extend \<or> c = Act a AbortAuction \<or> c = Act a (SubmitCross price ex)"
  obtain r0 k0 where a0: "act (traced h) a (SubmitCross price ex) k = (r0, k0)" by (cases "act (traced h) a (SubmitCross price ex) k")
  obtain es where es: "turn 1 a k k0 es" "Mined \<in> set es \<longleftrightarrow> r0 = Inr Sent"
    "es \<in> {[], [Broadcast (Act a (SubmitCross price ex))], [Broadcast (Act a (SubmitCross price ex)), Mined]}" by (rule act_turn [OF a0])
  have run: "bindS (act (traced h) a (SubmitCross price ex)) (\<lambda>v. if v \<noteq> Declined then pureS () else give_up (traced h) a) k = (r, k')"
    using assms by (simp add: cross_step_def Planned)
  have "\<exists>es. turn (1 + 2) a k k' es \<and> ?only es"
  proof (rule turn_then [OF a0 run es(1), where Q = "\<lambda>_. ?only"])
    fix v assume v: "r0 = Inr v" "(if v \<noteq> Declined then pureS () else give_up (traced h) a) k0 = (r, k')"
    show "\<exists>es'. turn 2 a k0 k' es' \<and> (es' = [] \<or> Mined \<notin> set es) \<and> ?only (es @ es')"
    proof (cases "v = Declined")
      case True
      then have "Mined \<notin> set es" using es(2) v(1) by simp
      then show ?thesis using give_up_turn [of h a k0 r k'] v(2) True es(3) by fastforce
    next
      case False
      then have "k' = k0" using v(2) by (simp add: pureS_def)
      then show ?thesis using turn_quiet [OF silence.stays] es(3) by fastforce
    qed
  qed (use es(3) in auto)
  then show ?thesis using Planned by (auto simp: numeral_3_eq_3 numeral_2_eq_2)
next
  case (Refused reason)
  let ?k = "k\<lparr>ke_whyNot := AList.update a reason (ke_whyNot k)\<rparr>"
  have "give_up (traced h) a ?k = (r, k')" using assms by (simp add: cross_step_def Refused bindS_mod)
  then obtain es where es: "turn 2 a ?k k' es" "\<forall>c. Broadcast c \<in> set es \<longrightarrow> c = Act a Extend \<or> c = Act a AbortAuction"
    using give_up_turn by blast
  then have "turn 3 a k k' es" by (auto simp: turn_def events_def intro: burst_mono)
  then show ?thesis using es(2) Refused by auto
qed


text \<open>What the phase and the times just read allow. A cross is one its own check accepted.\<close>

fun due :: "int \<Rightarrow> auction_state \<Rightarrow> auction_timing \<Rightarrow> action \<Rightarrow> bool" where
  "due T a t Freeze \<longleftrightarrow> phase_of (au_phase a) = DISCLOSURE \<and> at_freeze t \<le> T \<and> T < at_cross t"
| "due T a t PublishIndicative \<longleftrightarrow> phase_of (au_phase a) = DISCLOSURE \<and> T < at_freeze t \<or> phase_of (au_phase a) = FROZEN \<and> T < at_reference t"
| "due T a t AbortAuction \<longleftrightarrow> phase_of (au_phase a) = DISCLOSURE \<and> at_freeze t \<le> T \<and> at_cross t \<le> T
     \<or> phase_of (au_phase a) = FROZEN \<and> at_reference t \<le> T"
| "due T a t Extend \<longleftrightarrow> phase_of (au_phase a) = FROZEN \<and> at_reference t \<le> T"
| "due T a t (SubmitCross price ex) \<longleftrightarrow> phase_of (au_phase a) = FROZEN \<and> at_reference t \<le> T
     \<and> (\<exists>book ref roo. check_cross book ref roo price ex = Inr None)"
| "due T a t ExecuteCross \<longleftrightarrow> phase_of (au_phase a) = CROSSED"

lemma plan_checked: "plan_cross book ref collarBps roo preferred = Inr (Planned price m ex) \<Longrightarrow> check_cross book ref roo price ex = Inr None"
  by (auto simp: plan_cross_def plan_at_def Let_def split: prod.splits if_splits option.splits)

definition within :: "int \<Rightarrow> auction_state \<Rightarrow> auction_timing \<Rightarrow> int \<Rightarrow> ('s \<times> event list) keeper \<Rightarrow> ('s \<times> event list) keeper \<Rightarrow> bool" where
  "within T row t a k k' \<longleftrightarrow> (\<exists>es. turn 3 a k k' es \<and> (\<forall>c. Broadcast c \<in> set es \<longrightarrow> (\<exists>x. c = Act a x \<and> due T row t x)))"

lemma within_quiet: "silent k k' \<Longrightarrow> within T row t a k k'"
  unfolding within_def using turn_quiet [of k k' 3 a] by fastforce

lemma within_after: "silent k k0 \<Longrightarrow> within T row t a k0 k' \<Longrightarrow> within T row t a k k'"
  unfolding within_def silent_def same_memory_def turn_def by auto

lemma within_act:
  assumes "bindS (act (traced h) a x) (\<lambda>_. pureS ()) k = (r, k')" "due T row t x"
  shows "within T row t a k k'"
proof -
  obtain r0 k0 where a0: "act (traced h) a x k = (r0, k0)" by (cases "act (traced h) a x k")
  then have k': "k' = k0" using assms(1) by (cases r0) (auto simp: bindS_def pureS_def)
  obtain es where es: "turn 1 a k k0 es" "es \<in> {[], [Broadcast (Act a x)], [Broadcast (Act a x), Mined]}" by (rule act_turn [OF a0])
  have "turn 3 a k k' es" using es(1) by (auto simp: turn_def k' intro: burst_mono)
  then show ?thesis using es(2) assms(2) unfolding within_def by fastforce
qed

lemma within_publish:
  assumes "publish (traced h) a T k = (r, k')" "due T row t PublishIndicative"
  shows "within T row t a k k'"
proof (cases "map_of (ke_publishedAt k) a = Some T")
  case True
  then have "k' = k" using assms(1) by (simp add: publish_def bindS_get pureS_def)
  then show ?thesis using within_quiet [OF silence.stays] by simp
next
  case False
  obtain r0 k0 where a0: "act (traced h) a PublishIndicative k = (r0, k0)" by (cases "act (traced h) a PublishIndicative k")
  then have "k' = k0 \<or> k' = k0\<lparr>ke_publishedAt := AList.update a T (ke_publishedAt k0)\<rparr>"
    using assms(1) False by (cases r0) (auto simp: publish_def bindS_get io_simps bindS_def split: if_splits)
  moreover have "within T row t a k k0"
  proof -
    have "bindS (act (traced h) a PublishIndicative) (\<lambda>_. pureS ()) k = ((case r0 of Inl e \<Rightarrow> Inl e | Inr _ \<Rightarrow> Inr ()), k0)"
      by (cases r0) (simp_all add: bindS_def a0 pureS_def)
    then show ?thesis by (rule within_act [OF _ assms(2)])
  qed
  moreover have "within T row t a k (k0\<lparr>ke_publishedAt := m\<rparr>) = within T row t a k k0" for m
    by (simp add: within_def turn_def events_def)
  ultimately show ?thesis by auto
qed

lemma silently:
  assumes "moves silent m" "bindS m f k = (r, k')" "\<And>v k0. silent k k0 \<Longrightarrow> m k = (Inr v, k0) \<Longrightarrow> f v k0 = (r, k') \<Longrightarrow> within T row t a k0 k'"
  shows "within T row t a k k'"
proof -
  obtain r0 k0 where m: "m k = (r0, k0)" by (cases "m k")
  have s: "silent k k0" using movesD [OF assms(1) m] .
  show ?thesis
  proof (cases r0)
    case (Inl e)
    then show ?thesis using assms(2) m within_quiet [OF s] by (simp add: bindS_def)
  next
    case (Inr v)
    then have "within T row t a k0 k'" using assms(2) m s by (intro assms(3)) (simp_all add: bindS_def)
    then show ?thesis by (rule within_after [OF s])
  qed
qed

lemma frozen_within:
  assumes "frozen_step (traced h) quoteUnit a T row t k = (r, k')" "phase_of (au_phase row) = FROZEN"
  shows "within T row t a k k'"
proof (cases "T < at_reference t")
  case True
  then show ?thesis using assms within_publish [of h a T k r k'] by (simp add: frozen_step_def)
next
  case False
  have run: "bindS (reference_price (traced h) quoteUnit a (au_token row) (au_kind row) (at_cross t) (au_extensions row)) (\<lambda>(ref, rooExcluded).
        bindS (on_chain (ho_indicative (traced h) a)) (\<lambda>preferred.
          bindS (read_book (traced h) a) (\<lambda>book.
            bindS (liftE (plan_cross book ref (au_collarBps row) rooExcluded preferred)) (\<lambda>plan. cross_step (traced h) a plan)))) k = (r, k')"
    using assms(1) False by (simp add: frozen_step_def)
  show ?thesis
  proof (rule silently [OF silent_reference run], goal_cases)
    case (1 v k0)
    obtain ref roo where v: "v = (ref, roo)" by (cases v)
    show ?case
    proof (rule silently [OF silent_read 1(3) [unfolded v prod.case traced_reads]], goal_cases)
      case (1 preferred k1)
      show ?case
      proof (rule silently [OF silent_book 1(3)], goal_cases)
        case (1 book k2)
        show ?case
        proof (rule silently [OF silence.moves_quiet(4) 1(3)], goal_cases)
          case (1 plan k3)
          then have plan: "plan_cross book ref (au_collarBps row) roo preferred = Inr plan" by (simp add: liftE_def)
          obtain es where es: "turn 3 a k3 k' es" "\<forall>c. Broadcast c \<in> set es \<longrightarrow> c = Act a Extend \<or> c = Act a AbortAuction
            \<or> (\<exists>price m ex. plan = Planned price m ex \<and> c = Act a (SubmitCross price ex))" using cross_step_turn [OF 1(3)] by blast
          have "\<exists>x. c = Act a x \<and> due T row t x" if "Broadcast c \<in> set es" for c
            using es(2) that False assms(2) plan_checked plan by fastforce
          then show ?case using es(1) unfolding within_def by blast
        qed
      qed
    qed
  qed
qed

lemma disclosure_within:
  assumes "disclosure_step (traced h) a T t k = (r, k')" "phase_of (au_phase row) = DISCLOSURE"
  shows "within T row t a k k'"
proof -
  consider "at_freeze t \<le> T" "T < at_cross t" | "T < at_freeze t" | "at_freeze t \<le> T" "at_cross t \<le> T" by linarith
  then show ?thesis
  proof cases
    case 1
    show ?thesis by (rule within_act [of h a Freeze k r]) (use 1 assms in \<open>simp_all add: disclosure_step_def\<close>)
  next
    case 2
    show ?thesis by (rule within_publish [of h a T k r]) (use 2 assms in \<open>simp_all add: disclosure_step_def\<close>)
  next
    case 3
    show ?thesis by (rule within_act [of h a AbortAuction k r]) (use 3 assms in \<open>simp_all add: disclosure_step_def\<close>)
  qed
qed

text \<open>An action the chain's own answers call for, in a state it is asked for them.\<close>

definition called_for :: "'s house \<Rightarrow> int \<Rightarrow> int \<Rightarrow> 's \<Rightarrow> action \<Rightarrow> bool" where
  "called_for h T a s x \<longleftrightarrow> (\<exists>row s1 t s2. ho_auctionState h a s = (Inr row, s1) \<and> ho_auctionTiming h a s1 = (Inr t, s2)
     \<and> T \<le> at_reference t + RELEASE_AFTER \<and> due T row t x)"

definition stepped :: "'s house \<Rightarrow> int \<Rightarrow> int \<Rightarrow> ('s \<times> event list) keeper \<Rightarrow> ('s \<times> event list) keeper \<Rightarrow> bool" where
  "stepped h T a k k' \<longleftrightarrow> (\<exists>es. events k' = events k @ es \<and> burst 3 a (ke_refused k) es
     \<and> set (ke_refused k) \<subseteq> set (ke_refused k') \<and> set (ke_released k) \<subseteq> set (ke_released k')
     \<and> (a \<in> set (ke_released k) \<longrightarrow> es = [])
     \<and> (\<forall>c. Broadcast c \<in> set es \<longrightarrow> (\<exists>x. c = Act a x \<and> called_for h T a (fst (ke_chain k)) x)))"

lemma stepped_quiet: "silent k k' \<Longrightarrow> stepped h T a k k'"
  unfolding stepped_def silent_def same_memory_def by (intro exI [of _ "[]"]) simp

lemma on_chain_beside:
  assumes "on_chain (beside m) k = (r, k')"
  shows "silent k k'" "m (fst (ke_chain k)) = (r, fst (ke_chain k'))"
  using assms by (auto simp: on_chain_def beside_def silent_def same_memory_def events_def split: prod.splits)

lemma step_auction_stepped:
  assumes "step_auction (traced h) q T a k = (r, k')"
  shows "stepped h T a k k'"
proof -
  obtain r1 k1 where k1: "on_chain (beside (ho_auctionState h a)) k = (r1, k1)" by (cases "on_chain (beside (ho_auctionState h a)) k")
  show ?thesis
  proof (cases "\<exists>row. r1 = Inr row \<and> phase_of (au_phase row) \<notin> {NONE, EXECUTED, ABORTED}")
    case False
    then have "k' = k1" using assms k1 by (cases r1) (auto simp: step_auction_def bindS_def pureS_def)
    then show ?thesis using on_chain_beside [OF k1] stepped_quiet by simp
  next
    case True
    then obtain row where row: "r1 = Inr row" "phase_of (au_phase row) \<notin> {NONE, EXECUTED, ABORTED}" by blast
    obtain r2 k2 where k2: "on_chain (beside (ho_auctionTiming h a)) k1 = (r2, k2)" by (cases "on_chain (beside (ho_auctionTiming h a)) k1")
    have quiet: "silent k k2" using silence.goes_on on_chain_beside(1) [OF k1] on_chain_beside(1) [OF k2] by blast
    show ?thesis
    proof (cases r2)
      case (Inl e)
      then have "k' = k2" using assms k1 k2 row by (auto simp: step_auction_def bindS_def Let_def)
      then show ?thesis using quiet stepped_quiet by simp
    next
      case (Inr t)
      have run: "(if T > at_reference t + RELEASE_AFTER \<and> a \<notin> set (ke_released k2)
           then modS (\<lambda>k. k\<lparr>ke_released := ke_released k @ [a], ke_releasedLog := ke_releasedLog k @ [(a, phase_of (au_phase row))]\<rparr>)
           else if a \<in> set (ke_released k2) then pureS ()
           else if phase_of (au_phase row) = DISCLOSURE then disclosure_step (traced h) a T t
           else if phase_of (au_phase row) = FROZEN then frozen_step (traced h) q a T row t
           else bindS (act (traced h) a ExecuteCross) (\<lambda>_. pureS ())) k2 = (r, k')"
        using assms k1 k2 row Inr by (simp add: step_auction_def bindS_eq bindS_get Let_def)
      have released: "ke_released k2 = ke_released k" "ke_refused k2 = ke_refused k" "events k2 = events k"
        using quiet by (auto simp: silent_def same_memory_def)
      show ?thesis
      proof (cases "T > at_reference t + RELEASE_AFTER \<or> a \<in> set (ke_released k)")
        case True
        then have "events k' = events k \<and> ke_refused k' = ke_refused k \<and> set (ke_released k) \<subseteq> set (ke_released k')"
          using run released by (auto simp: io_simps events_def split: if_splits)
        then show ?thesis unfolding stepped_def by (intro exI [of _ "[]"]) simp
      next
        case False
        have "within T row t a k2 k'"
        proof -
          consider "phase_of (au_phase row) = DISCLOSURE" | "phase_of (au_phase row) = FROZEN" | "phase_of (au_phase row) = CROSSED"
            using row(2) by (cases "phase_of (au_phase row)") auto
          then show ?thesis
          proof cases
            case 1
            then show ?thesis using run False released disclosure_within [of h a T t k2 r k' row] by simp
          next
            case 2
            then show ?thesis using run False released frozen_within [of h q a T row t k2 r k'] by simp
          next
            case 3
            then show ?thesis using run False released within_act [of h a ExecuteCross k2 r k' T row t] by simp
          qed
        qed
        then obtain es where es: "turn 3 a k2 k' es" "\<forall>c. Broadcast c \<in> set es \<longrightarrow> (\<exists>x. c = Act a x \<and> due T row t x)"
          unfolding within_def by blast
        have "called_for h T a (fst (ke_chain k)) x" if "due T row t x" for x
          unfolding called_for_def using on_chain_beside(2) [OF k1] on_chain_beside(2) [OF k2] row(1) Inr False that by fastforce
        then show ?thesis using es released False unfolding stepped_def turn_def by fastforce
      qed
    qed
  qed
qed

text \<open>
  C11. One auction's turn in one block, against a chain that answers as it likes. It broadcasts at most
  three transactions, all for that auction and none after one that was mined with success; none is of an
  action given up before, and nothing is sent for an auction that was let go. Each one is called for by
  the phase and the times the chain answers in that turn: freezing between freezeAt and crossAt, an
  indicative before freezeAt or between the freeze and referenceAt, abort when the freeze was missed or
  after referenceAt, a cross only from referenceAt and only one its own check accepts, execution once
  crossed, and nothing more than half an hour after referenceAt. What was given up or let go stays so.
\<close>

theorem keeper_step_follows_chain:
  assumes "step_auction (traced h) quoteUnit T a k = (r, k')"
  shows "\<exists>es. events k' = events k @ es \<and> burst 3 a (ke_refused k) es
     \<and> set (ke_refused k) \<subseteq> set (ke_refused k') \<and> set (ke_released k) \<subseteq> set (ke_released k')
     \<and> (a \<in> set (ke_released k) \<longrightarrow> es = [])
     \<and> (\<forall>c. Broadcast c \<in> set es \<longrightarrow> (\<exists>x. c = Act a x \<and> called_for h T a (fst (ke_chain k)) x))"
  using step_auction_stepped [OF assms] unfolding stepped_def .

section \<open>A whole run\<close>

definition onward :: "('s \<times> event list) keeper \<Rightarrow> ('s \<times> event list) keeper \<Rightarrow> bool" where
  "onward k k' \<longleftrightarrow> (\<exists>es. events k' = events k @ es
     \<and> set (ke_refused k) \<subseteq> set (ke_refused k') \<and> set (ke_released k) \<subseteq> set (ke_released k')
     \<and> (\<forall>a x. Broadcast (Act a x) \<in> set es \<longrightarrow> ActionKey a (action_name x) \<notin> set (ke_refused k) \<and> a \<notin> set (ke_released k)))"

interpretation onwards: progress onward
proof
  show "onward k k" for k :: "('s \<times> event list) keeper" by (simp add: onward_def)
  show "onward k k''" if on: "onward k k'" "onward k' k''" for k k' k'' :: "('s \<times> event list) keeper"
  proof -
    obtain es es' where "events k' = events k @ es" "events k'' = events k' @ es'"
      "\<forall>a x. Broadcast (Act a x) \<in> set es \<longrightarrow> ActionKey a (action_name x) \<notin> set (ke_refused k) \<and> a \<notin> set (ke_released k)"
      "\<forall>a x. Broadcast (Act a x) \<in> set es' \<longrightarrow> ActionKey a (action_name x) \<notin> set (ke_refused k') \<and> a \<notin> set (ke_released k')"
      "set (ke_refused k) \<subseteq> set (ke_refused k')" "set (ke_released k) \<subseteq> set (ke_released k')"
      "set (ke_refused k') \<subseteq> set (ke_refused k'')" "set (ke_released k') \<subseteq> set (ke_released k'')"
      using on unfolding onward_def by metis
    then show ?thesis unfolding onward_def by (intro exI [of _ "es @ es'"]) fastforce
  qed
qed

lemma silent_onward: "silent k k' \<Longrightarrow> onward k k'"
  by (simp add: silent_def same_memory_def onward_def)

lemma onward_read: "moves onward (on_chain (beside m))"
  by (rule moves_weaken [OF silent_read silent_onward])

lemma burst_acts: "burst n a refused es \<Longrightarrow> Broadcast (Act b x) \<in> set es \<Longrightarrow> b = a \<and> ActionKey b (action_name x) \<notin> set refused"
  by (induction n a refused es rule: burst.induct) auto

lemma onward_step: "moves onward (step_auction (traced h) q T a)"
proof -
  have "onward k k'" if step: "step_auction (traced h) q T a k = (r, k')" for k r k'
  proof -
    obtain es where "events k' = events k @ es" "burst 3 a (ke_refused k) es" "set (ke_refused k) \<subseteq> set (ke_refused k')"
      "set (ke_released k) \<subseteq> set (ke_released k')" "a \<in> set (ke_released k) \<longrightarrow> es = []"
      using step_auction_stepped [OF step] unfolding stepped_def by blast
    then show ?thesis unfolding onward_def using burst_acts [of 3 a "ke_refused k" es] by (intro exI [of _ es]) fastforce
  qed
  then show ?thesis unfolding moves_def by (metis prod.collapse)
qed

lemma onward_send: "\<forall>a x. c \<noteq> Act a x \<Longrightarrow> moves onward (send_and_wait (traced h) c)"
proof -
  assume other: "\<forall>a x. c \<noteq> Act a x"
  have "onward k k'" if run: "send_and_wait (traced h) c k = (r, k')" for k r k'
  proof -
    obtain sent where "same_memory k k'" "events k' = events k @ sent" "sent \<in> {[], [Broadcast c], [Broadcast c, Mined]}"
      by (rule send_and_wait_events [OF run])
    then show ?thesis unfolding onward_def same_memory_def using other by (intro exI [of _ sent]) auto
  qed
  then show ?thesis unfolding moves_def by (metis prod.collapse)
qed

lemma onward_memory: "onward k (count_sent name k)" "onward k (refuse key name k)"
  "onward k (k\<lparr>ke_refused := set_add_new key (ke_refused k)\<rparr>)" "onward k (k\<lparr>ke_blocks := n\<rparr>)"
  by (auto simp: onward_def count_sent_def refuse_def set_add_new_def events_def)

lemmas onward_rules = onwards.moves_quiet onwards.moves_bind onwards.moves_catch onwards.moves_when onwards.moves_each onwards.moves_map
  onward_read onwards.moves_mod onward_memory

lemma onward_open: "moves onward (open_token (traced h) crossAt knd t)"
  unfolding open_token_def Let_def by (auto intro!: onward_rules onward_send split: option.split sent_outcome.split)

lemma onward_tick: "moves onward (tick (traced h) toks q n)"
  unfolding tick_def by (auto intro!: onward_rules onward_open onward_step split: option.split)

lemma onward_poll: "moves onward (poll_block (traced h) toks q endAt n seen)"
  unfolding poll_block_def by (auto intro!: onward_rules onward_tick split: option.split)

lemma onward_run: "moves onward (run_blocks (traced h) toks q endAt ns seen)"
  by (induction ns arbitrary: seen) (auto intro!: onwards.moves_quiet onwards.moves_bind onward_poll)

text \<open>
  C19. A whole run of the keeper, over any sequence of block numbers and against any answers: the
  actions given up for an auction and the auctions let go only grow, and once an action is given up for
  an auction, or the auction is let go, no transaction of that action for that auction is sent again.
\<close>

theorem keeper_never_goes_back:
  assumes "run_blocks (traced h) toks quoteUnit endAt ns seen k = (r, k')"
  shows "\<exists>es. events k' = events k @ es
     \<and> set (ke_refused k) \<subseteq> set (ke_refused k') \<and> set (ke_released k) \<subseteq> set (ke_released k')
     \<and> (\<forall>a x. Broadcast (Act a x) \<in> set es \<longrightarrow> ActionKey a (action_name x) \<notin> set (ke_refused k) \<and> a \<notin> set (ke_released k))"
  using movesD [OF onward_run assms] unfolding onward_def .

section \<open>A small chain\<close>

text \<open>
  A chain whose state counts the transactions sent to it: one frozen auction with a book that crosses,
  and the given answers to a simulation, to the nth transaction and to its receipt.
\<close>

definition sample_row :: "int \<Rightarrow> auction_state" where
  "sample_row phase = \<lparr>au_token = ''0xT'', au_kind = KIND_CLOSE, au_phase = phase, au_collarBps = 1000, au_extensions = 0\<rparr>"

definition sample_commitment :: "string \<Rightarrow> commitment_row" where
  "sample_commitment hash = (let c = sample_book ! length hash in
     \<lparr>cm_owner = o_owner c, cm_buy = o_buy c, cm_escrowed = o_escrowed c, cm_cancelled = o_cancelled c, cm_kind = o_kind c,
      cm_maxDevFromRefBps = o_maxDevFromRefBps c, cm_sellAmount = o_sellAmount c, cm_limitPrice = o_limitPrice c, cm_filledSell = o_filledSell c\<rparr>)"

definition sample_house :: "int \<Rightarrow> int \<Rightarrow> (call \<Rightarrow> string option) \<Rightarrow> (call \<Rightarrow> bool) \<Rightarrow> call list house" where
  "sample_house phase T problem lands =
     \<lparr>ho_timestamp = (\<lambda>_. pureS T), ho_session = (\<lambda>_. pureS 3), ho_nextTransition = (\<lambda>_. pureS (T + 1)), ho_allowed = (\<lambda>_. pureS True),
      ho_bond = pureS 5, ho_allowance = pureS 5, ho_auctionIdOf = (\<lambda>_ _ _. pureS 1), ho_auctionCount = pureS 1,
      ho_auctionState = (\<lambda>_. pureS (sample_row phase)),
      ho_auctionTiming = (\<lambda>_. pureS \<lparr>at_freeze = 100, at_cross = 200, at_reference = 300\<rparr>),
      ho_auctionResult = (\<lambda>_. pureS (10 ^ 18)), ho_openReference = (\<lambda>_ _. pureS (10 ^ 18, True)), ho_refPrice = (\<lambda>_. pureS (10 ^ 18)),
      ho_indicative = (\<lambda>_. pureS (10 ^ 18)), ho_bookLength = (\<lambda>_. pureS 4), ho_bookAt = (\<lambda>_ i. pureS (replicate (nat i) CHR ''h'')),
      ho_commitment = (\<lambda>x. pureS (sample_commitment x)), ho_simulate = (\<lambda>c. pureS (problem c)),
      ho_send = (\<lambda>c. bindS (modS (\<lambda>cs. cs @ [c])) (\<lambda>_. getS (\<lambda>cs. Inr (replicate (length cs) CHR ''t'')))),
      ho_receipt = (\<lambda>tx. getS (\<lambda>cs. lands (cs ! (length tx - 1)))), ho_replay = (\<lambda>_ _. pureS ''reverted'')\<rparr>"

definition fresh_keeper :: "('s \<times> event list) \<Rightarrow> ('s \<times> event list) keeper" where
  "fresh_keeper s = \<lparr>ke_blocks = 0, ke_sent = [], ke_reverted = [], ke_releasedLog = [], ke_refused = [], ke_released = [],
     ke_whyNot = [], ke_publishedAt = [], ke_chain = s\<rparr>"

definition event_names :: "event list \<Rightarrow> string list" where
  "event_names es = map (\<lambda>e. case e of Mined \<Rightarrow> ''mined'' | Broadcast (Act a x) \<Rightarrow> action_name x | Broadcast _ \<Rightarrow> ''other'') es"

definition ran :: "(js_error + 'a) \<times> ('s \<times> event list) keeper \<Rightarrow> string list" where
  "ran p = event_names (events (snd p))"

lemma crossing_turn:
  "ran (step_auction (traced (sample_house 2 400 (\<lambda>_. None) (\<lambda>c. c = Act 1 Extend))) (10 ^ 18) 400 1 (fresh_keeper ([], [])))
   = [''submitCross'', ''extend'', ''mined'']"
  by code_simp

text \<open>
  The header of keeper.ts promises at most one transaction per auction per block. A cross that passes its
  simulation and fails on chain is followed by an extension in the same turn.
\<close>

lemma two_transactions_in_one_turn:
  "ran (tick (traced (sample_house 2 400 (\<lambda>_. None) (\<lambda>c. c = Act 1 Extend))) [''0xT''] (10 ^ 18) 7 (fresh_keeper ([], [])))
   = [''submitCross'', ''extend'', ''mined'']"
  by code_simp

theorem keeper_step_follows_chain_witness:
  "let h = sample_house 2 400 (\<lambda>_. None) (\<lambda>c. c = Act 1 Extend);
       k' = snd (step_auction (traced h) (10 ^ 18) 400 1 (fresh_keeper ([], [])))
   in burst 3 1 [] (events k') \<and> called_for h 400 1 [] Extend"
proof -
  let ?h = "sample_house 2 400 (\<lambda>_. None) (\<lambda>c. c = Act 1 Extend)" and ?k = "fresh_keeper ([] :: call list, [] :: event list)"
  obtain r k' where run: "step_auction (traced ?h) (10 ^ 18) 400 1 ?k = (r, k')" by (cases "step_auction (traced ?h) (10 ^ 18) 400 1 ?k")
  obtain es where es: "events k' = events ?k @ es" "burst 3 1 (ke_refused ?k) es"
    "\<forall>c. Broadcast c \<in> set es \<longrightarrow> (\<exists>x. c = Act 1 x \<and> called_for ?h 400 1 (fst (ke_chain ?k)) x)"
    using keeper_step_follows_chain [OF run] by blast
  have "list_ex (\<lambda>e. e = Broadcast (Act 1 Extend)) (events (snd (step_auction (traced ?h) (10 ^ 18) 400 1 ?k)))" by code_simp
  then have "Broadcast (Act 1 Extend) \<in> set es" using es(1) run by (auto simp: list_ex_iff events_def fresh_keeper_def)
  then show ?thesis using es run by (auto simp: Let_def events_def fresh_keeper_def)
qed

theorem keeper_never_goes_back_witness:
  "let h = sample_house 4 400 (\<lambda>_. None) (\<lambda>_. True);
       k = (fresh_keeper ([], []))\<lparr>ke_refused := [ActionKey 1 ''executeCross'']\<rparr>;
       k' = snd (run_blocks (traced h) [''0xT''] (10 ^ 18) None [7, 8] None k)
   in Broadcast (Act 1 ExecuteCross) \<notin> set (events k') \<and> ke_blocks k' = 2"
proof -
  let ?h = "sample_house 4 400 (\<lambda>_. None) (\<lambda>_. True)"
  let ?k = "(fresh_keeper ([] :: call list, [] :: event list))\<lparr>ke_refused := [ActionKey 1 ''executeCross'']\<rparr>"
  obtain r k' where run: "run_blocks (traced ?h) [''0xT''] (10 ^ 18) None [7, 8] None ?k = (r, k')"
    by (cases "run_blocks (traced ?h) [''0xT''] (10 ^ 18) None [7, 8] None ?k")
  obtain es where "events k' = events ?k @ es"
    "\<forall>a x. Broadcast (Act a x) \<in> set es \<longrightarrow> ActionKey a (action_name x) \<notin> set (ke_refused ?k) \<and> a \<notin> set (ke_released ?k)"
    using keeper_never_goes_back [OF run] by blast
  moreover have "ke_blocks (snd (run_blocks (traced ?h) [''0xT''] (10 ^ 18) None [7, 8] None ?k)) = 2" by code_simp
  ultimately show ?thesis using run by (auto simp: Let_def events_def fresh_keeper_def)
qed

lemma act_simulation_fails:
  assumes "act (traced h) a x k = (r, k')" "ho_simulate h (Act a x) (fst (ke_chain k)) = (Inr (Some reason), s)" "\<not> waits reason"
  shows "r = Inr Declined" "ActionKey a (action_name x) \<in> set (ke_refused k')"
proof -
  have run: "on_chain (beside (ho_simulate h (Act a x))) k = (Inr (Some reason), k\<lparr>ke_chain := (s, snd (ke_chain k))\<rparr>)"
    using assms(2) by (simp add: on_chain_def beside_def)
  have "r = Inr Declined \<and> ActionKey a (action_name x) \<in> set (ke_refused k')"
  proof (cases "ActionKey a (action_name x) \<in> set (ke_refused k)")
    case True
    then show ?thesis using assms(1) by (auto simp: act_unfold)
  next
    case False
    then have "bindS (modS (refuse (ActionKey a (action_name x)) (action_name x))) (\<lambda>_. pureS Declined) (k\<lparr>ke_chain := (s, snd (ke_chain k))\<rparr>) = (r, k')"
      using assms(1,3) run by (simp add: act_unfold) (simp add: bindS_def)
    then show ?thesis by (auto simp: bindS_mod pureS_def refuse_def set_add_new_def)
  qed
  then show "r = Inr Declined" "ActionKey a (action_name x) \<in> set (ke_refused k')" by auto
qed

text \<open>
  One failed simulation of an action ends that action for its auction, whatever failed: unless the
  reason is one of the two that mean wait, the run that follows never sends it, so an unanswered call
  counts as a revert.
\<close>

theorem failed_simulation_is_final:
  assumes "act (traced h) a x k = (r, k1)" "ho_simulate h (Act a x) (fst (ke_chain k)) = (Inr (Some reason), s)" "\<not> waits reason"
    and "run_blocks (traced h) toks quoteUnit endAt ns seen k1 = (r', k')" "action_name y = action_name x"
  shows "\<exists>es. events k' = events k1 @ es \<and> Broadcast (Act a y) \<notin> set es"
proof -
  have "ActionKey a (action_name y) \<in> set (ke_refused k1)" using act_simulation_fails [OF assms(1-3)] assms(5) by simp
  moreover have "onward k1 k'" using movesD [OF onward_run assms(4)] .
  ultimately show ?thesis unfolding onward_def by blast
qed

theorem failed_simulation_is_final_witness:
  "let h = sample_house 4 400 (\<lambda>_. Some ''fetch failed'') (\<lambda>_. True);
       k1 = snd (act (traced h) 1 ExecuteCross (fresh_keeper ([], [])));
       k' = snd (run_blocks (traced h) [''0xT''] (10 ^ 18) None [7, 8] None k1)
   in \<exists>es. events k' = events k1 @ es \<and> Broadcast (Act 1 ExecuteCross) \<notin> set es"
proof -
  let ?h = "sample_house 4 400 (\<lambda>_. Some ''fetch failed'') (\<lambda>_. True)"
  have "\<not> waits ''fetch failed''" by code_simp
  moreover have "ho_simulate ?h (Act 1 ExecuteCross) (fst (ke_chain (fresh_keeper ([], [])))) = (Inr (Some ''fetch failed''), [])"
    by (simp add: sample_house_def fresh_keeper_def pureS_def)
  ultimately show ?thesis unfolding Let_def
    by (rule failed_simulation_is_final [OF prod.collapse [symmetric] _ _ prod.collapse [symmetric] refl, rotated])
qed

end
