(* ===== verification/Intent.thy ===== *)
theory Intent
  imports Complex_Main Decimal Solution
begin

text \<open>
  api/src/intent.ts, permit2.ts and errors.ts: how an intent that arrives as JSON is validated, kept
  and served, the signature as Permit2 reads it, the digest it is checked against, and the calldata
  of the escape hatch. The viem functions are parameters.
\<close>

section \<open>Errors\<close>

record http_error =
  status :: int
  code :: string
  message :: string
  detail :: "(string \<times> string) list"

definition fail :: "int \<Rightarrow> string \<Rightarrow> string \<Rightarrow> (string \<times> string) list \<Rightarrow> http_error" where
  "fail st c msg d = \<lparr>status = st, code = c, message = msg, detail = d\<rparr>"

definition bad_request :: "string \<Rightarrow> string \<Rightarrow> (string \<times> string) list \<Rightarrow> http_error" where
  "bad_request c msg d = fail 400 c msg d"

definition not_found :: "string \<Rightarrow> string \<Rightarrow> http_error" where
  "not_found c msg = fail 404 c msg []"

section \<open>The payload\<close>

text \<open>A JSON value. A number is the rational the double stands for; JSON has no NaN or infinity.\<close>

datatype json =
    JUndefined | JNull | JBool bool | JNumber rat | JString string
  | JArray "json list" | JObject "(string \<times> json) list"

definition field :: "(string \<times> json) list \<Rightarrow> string \<Rightarrow> json" where
  "field p name = (case map_of p name of None \<Rightarrow> JUndefined | Some v \<Rightarrow> v)"

definition intent_tuple :: "(string \<times> string) list" where
  "intent_tuple =
     [(''owner'', ''address''), (''receiver'', ''address''), (''sellToken'', ''address''), (''buyToken'', ''address''),
      (''sellAmount'', ''uint256''), (''minBuyAmount'', ''uint256''), (''validAfter'', ''uint32''), (''validUntil'', ''uint32''),
      (''flags'', ''uint8''), (''kind'', ''uint8''), (''maxDevFromRefBps'', ''uint16''), (''allowedSessions'', ''uint8''),
      (''batchSpan'', ''uint16''), (''nonce'', ''uint256'')]"

definition required :: "string list" where
  "required = map fst intent_tuple"

definition width :: "string \<Rightarrow> nat" where
  "width name = (case map_of (map (\<lambda>(n, t). (n, nat (decimal_value (drop 4 t))))
     (filter (\<lambda>(n, t). take 4 t = ''uint'') intent_tuple)) name of None \<Rightarrow> 0 | Some w \<Rightarrow> w)"

definition is_safe_integer :: "rat \<Rightarrow> bool" where
  "is_safe_integer q \<longleftrightarrow> snd (quotient_of q) = 1 \<and> \<bar>q\<bar> \<le> 2 ^ 53 - 1"

definition invalid :: "string \<Rightarrow> (string \<times> string) list \<Rightarrow> http_error" where
  "invalid msg d = bad_request ''COORDINATOR_INVALID_REQUEST'' msg d"

definition parse_uint :: "string \<Rightarrow> json \<Rightarrow> http_error + int" where
  "parse_uint name value =
     (let txt = (case value of
            JNumber q \<Rightarrow> if is_safe_integer q \<and> q \<ge> 0 then Some (decimal (fst (quotient_of q))) else None
          | JString s \<Rightarrow> if canonical_decimal s then Some s else None
          | _ \<Rightarrow> None)
      in case txt of
           None \<Rightarrow> Inl (invalid (''intent.'' @ name @ '' must be a non negative decimal integer'') [(''field'', name)])
         | Some t \<Rightarrow>
             let parsed = decimal_value t
             in if parsed \<ge> 2 ^ width name
                then Inl (invalid (''intent.'' @ name @ '' does not fit in uint'' @ decimal (int (width name))) [(''field'', name)])
                else Inr parsed)"

definition check_present :: "(string \<times> json) list \<Rightarrow> string \<Rightarrow> http_error + unit" where
  "check_present p name =
     (if field p name = JUndefined \<or> field p name = JNull then Inl (invalid (''intent.'' @ name @ '' is missing'') []) else Inr ())"

definition check_address :: "(string \<Rightarrow> bool) \<Rightarrow> (string \<times> json) list \<Rightarrow> string \<Rightarrow> http_error + string" where
  "check_address is_address p name =
     (case field p name of
        JString s \<Rightarrow> if is_address s then Inr s else Inl (invalid (''intent.'' @ name @ '' is not an address'') [])
      | _ \<Rightarrow> Inl (invalid (''intent.'' @ name @ '' is not an address'') []))"

text \<open>
  The numbers are parsed where the object that is returned names them, in this order. \<^verbatim>\<open>Number\<close> of a
  narrow one is exact, as its width is at most 32.
\<close>

definition number_fields :: "string list" where
  "number_fields = [''sellAmount'', ''minBuyAmount'', ''validAfter'', ''validUntil'', ''flags'', ''kind'',
     ''maxDevFromRefBps'', ''allowedSessions'', ''batchSpan'', ''nonce'']"

definition intent_of :: "string list \<Rightarrow> int list \<Rightarrow> intent" where
  "intent_of as ns =
     \<lparr>i_owner = as ! 0, i_receiver = as ! 1, i_sellToken = as ! 2, i_buyToken = as ! 3,
      i_sellAmount = ns ! 0, i_minBuyAmount = ns ! 1, i_validAfter = ns ! 2, i_validUntil = ns ! 3,
      i_flags = ns ! 4, i_kind = ns ! 5, i_maxDevFromRefBps = ns ! 6, i_allowedSessions = ns ! 7,
      i_batchSpan = ns ! 8, i_nonce = ns ! 9\<rparr>"

definition validate_intent_payload :: "(string \<Rightarrow> bool) \<Rightarrow> json \<Rightarrow> http_error + intent" where
  "validate_intent_payload is_address payload =
     (case payload of
        JObject p \<Rightarrow>
          bindE (mapE (check_present p) required) (\<lambda>_.
          bindE (mapE (check_address is_address p) [''owner'', ''receiver'', ''sellToken'', ''buyToken'']) (\<lambda>as.
          bindE (mapE (\<lambda>name. parse_uint name (field p name)) number_fields) (\<lambda>ns.
            Inr (intent_of as ns))))
      | _ \<Rightarrow> Inl (invalid ''intent is missing'' []))"

definition canonical_fields :: "(string \<Rightarrow> string) \<Rightarrow> intent \<Rightarrow> (string \<times> json) list" where
  "canonical_fields get_address i =
     [(''owner'', JString (get_address (i_owner i))), (''receiver'', JString (get_address (i_receiver i))),
       (''sellToken'', JString (get_address (i_sellToken i))), (''buyToken'', JString (get_address (i_buyToken i))),
       (''sellAmount'', JString (decimal (i_sellAmount i))), (''minBuyAmount'', JString (decimal (i_minBuyAmount i))),
       (''validAfter'', JNumber (of_int (i_validAfter i))), (''validUntil'', JNumber (of_int (i_validUntil i))),
       (''flags'', JNumber (of_int (i_flags i))), (''kind'', JNumber (of_int (i_kind i))),
       (''maxDevFromRefBps'', JNumber (of_int (i_maxDevFromRefBps i))), (''allowedSessions'', JNumber (of_int (i_allowedSessions i))),
       (''batchSpan'', JNumber (of_int (i_batchSpan i))), (''nonce'', JString (decimal (i_nonce i)))]"

definition canonical_payload :: "(string \<Rightarrow> string) \<Rightarrow> intent \<Rightarrow> json" where
  "canonical_payload get_address i = JObject (canonical_fields get_address i)"

text \<open>
  \<^verbatim>\<open>decodeIntent\<close> reads a payload of the shape that \<^verbatim>\<open>canonicalPayload\<close> builds: decimal text for the
  wide fields, numbers for the narrow ones. Other shapes are outside its type.
\<close>

definition text_of :: "json \<Rightarrow> string" where
  "text_of v = (case v of JString s \<Rightarrow> s | _ \<Rightarrow> [])"

definition number_of :: "json \<Rightarrow> int" where
  "number_of v = (case v of JNumber q \<Rightarrow> fst (quotient_of q) | JString s \<Rightarrow> decimal_value s | _ \<Rightarrow> 0)"

definition decode_intent :: "(string \<times> json) list \<Rightarrow> intent" where
  "decode_intent p =
     \<lparr>i_owner = text_of (field p ''owner''), i_receiver = text_of (field p ''receiver''),
      i_sellToken = text_of (field p ''sellToken''), i_buyToken = text_of (field p ''buyToken''),
      i_sellAmount = decimal_value (text_of (field p ''sellAmount'')), i_minBuyAmount = decimal_value (text_of (field p ''minBuyAmount'')),
      i_validAfter = number_of (field p ''validAfter''), i_validUntil = number_of (field p ''validUntil''),
      i_flags = number_of (field p ''flags''), i_kind = number_of (field p ''kind''),
      i_maxDevFromRefBps = number_of (field p ''maxDevFromRefBps''), i_allowedSessions = number_of (field p ''allowedSessions''),
      i_batchSpan = number_of (field p ''batchSpan''), i_nonce = decimal_value (text_of (field p ''nonce''))\<rparr>"

section \<open>The digest and the signature\<close>

datatype abi_value = ABytes32 string | AAddress string | AUint nat int

text \<open>The functions of viem that the code calls, and the recovery of an ECDSA signer.\<close>

record viem =
  isAddress :: "string \<Rightarrow> bool"
  getAddress :: "string \<Rightarrow> string"
  keccak256 :: "string \<Rightarrow> string"
  toHex :: "string \<Rightarrow> string"
  concatHex :: "string list \<Rightarrow> string"
  encodeAbiParameters :: "abi_value list \<Rightarrow> string"
  encodeSubmitIntent :: "intent \<Rightarrow> hex \<Rightarrow> hex"
  isHex :: "hex \<Rightarrow> bool"
  hex_size :: "hex \<Rightarrow> int"
  hex_byte :: "hex \<Rightarrow> int \<Rightarrow> int"
  expandCompact :: "hex \<Rightarrow> hex option"
  recoverAddress :: "hex \<Rightarrow> hex \<Rightarrow> address option"

definition INTENT_TYPE_STRING :: string where
  "INTENT_TYPE_STRING = ''Intent(address owner,address receiver,address sellToken,address buyToken,uint256 sellAmount,uint256 minBuyAmount,uint32 validAfter,uint32 validUntil,uint8 flags,uint8 kind,uint16 maxDevFromRefBps,uint8 allowedSessions,uint16 batchSpan,uint256 nonce)''"

definition TYPEHASH_STUB :: string where
  "TYPEHASH_STUB = ''PermitWitnessTransferFrom(TokenPermissions permitted,address spender,uint256 nonce,uint256 deadline,''"

definition TOKEN_PERMISSIONS_TYPEHASH :: "viem \<Rightarrow> string" where
  "TOKEN_PERMISSIONS_TYPEHASH v = keccak256 v (toHex v ''TokenPermissions(address token,uint256 amount)'')"

definition INTENT_TYPEHASH :: "viem \<Rightarrow> string" where
  "INTENT_TYPEHASH v = keccak256 v (toHex v INTENT_TYPE_STRING)"

definition intent_head :: "viem \<Rightarrow> intent \<Rightarrow> abi_value list" where
  "intent_head v i =
     [ABytes32 (INTENT_TYPEHASH v), AAddress (i_owner i), AAddress (i_receiver i), AAddress (i_sellToken i),
      AAddress (i_buyToken i), AUint 256 (i_sellAmount i), AUint 256 (i_minBuyAmount i)]"

definition intent_tail :: "intent \<Rightarrow> abi_value list" where
  "intent_tail i =
     [AUint 32 (i_validAfter i), AUint 32 (i_validUntil i), AUint 8 (i_flags i), AUint 8 (i_kind i),
      AUint 16 (i_maxDevFromRefBps i), AUint 8 (i_allowedSessions i), AUint 16 (i_batchSpan i), AUint 256 (i_nonce i)]"

definition intent_preimage :: "viem \<Rightarrow> intent \<Rightarrow> string" where
  "intent_preimage v i = concatHex v [encodeAbiParameters v (intent_head v i), encodeAbiParameters v (intent_tail i)]"

definition intent_hash :: "viem \<Rightarrow> intent \<Rightarrow> string" where
  "intent_hash v i = keccak256 v (intent_preimage v i)"

definition witness_digest :: "viem \<Rightarrow> string \<Rightarrow> string \<Rightarrow> intent \<Rightarrow> address \<Rightarrow> string" where
  "witness_digest v domainSeparator witnessTypeString i spender =
     (let witnessTypeHash = keccak256 v (toHex v (TYPEHASH_STUB @ witnessTypeString));
          permitted = keccak256 v (encodeAbiParameters v
            [ABytes32 (TOKEN_PERMISSIONS_TYPEHASH v), AAddress (i_sellToken i), AUint 256 (i_sellAmount i)]);
          dataHash = keccak256 v (encodeAbiParameters v
            [ABytes32 witnessTypeHash, ABytes32 permitted, AAddress spender, AUint 256 (i_nonce i),
             AUint 256 (i_validUntil i), ABytes32 (intent_hash v i)])
      in keccak256 v (concatHex v [''0x1901'', domainSeparator, dataHash]))"

definition permit2_eoa_signature :: "viem \<Rightarrow> hex \<Rightarrow> hex option" where
  "permit2_eoa_signature v signature =
     (let bytes = hex_size v signature
      in if bytes = 64 then expandCompact v signature
         else if bytes \<noteq> 65 then None
         else let b = hex_byte v signature 64 in if b = 27 \<or> b = 28 then Some signature else None)"

record escape_hatch =
  eh_to :: address
  eh_data :: hex
  eh_castCommand :: string
  eh_describes :: string

definition escape_hatch_for :: "viem \<Rightarrow> address \<Rightarrow> string \<Rightarrow> intent \<Rightarrow> hex \<Rightarrow> escape_hatch" where
  "escape_hatch_for v settlement publicRpc i signature =
     (let data = encodeSubmitIntent v i signature
      in \<lparr>eh_to = settlement, eh_data = data,
          eh_castCommand = ''cast send '' @ settlement @ '' '' @ data @ '' --rpc-url '' @ publicRpc @ '' --from '' @ i_owner i,
          eh_describes = ''Settlement.submitIntentOnchain''\<rparr>)"

text \<open>
  \<^verbatim>\<open>cachedWitness\<close> in \<^verbatim>\<open>witnessDigestNow\<close>: the promise of the two reads, named by the read that settles
  it. Asking starts a read only when there is none; a failed read is dropped if it is still the one
  kept.
\<close>

datatype 'a promise = Reading nat | Answered 'a

record 'a witness_cache =
  w_kept :: "'a promise option"
  w_started :: nat
  w_failed :: nat

definition ask_witness :: "'a witness_cache \<Rightarrow> 'a witness_cache" where
  "ask_witness c = (case w_kept c of
       None \<Rightarrow> c\<lparr>w_kept := Some (Reading (w_started c)), w_started := Suc (w_started c)\<rparr>
     | Some p \<Rightarrow> c)"

definition settle_witness :: "nat \<Rightarrow> 'a option \<Rightarrow> 'a witness_cache \<Rightarrow> 'a witness_cache" where
  "settle_witness n result c = (case result of
       None \<Rightarrow> c\<lparr>w_kept := (if w_kept c = Some (Reading n) then None else w_kept c), w_failed := Suc (w_failed c)\<rparr>
     | Some a \<Rightarrow> if w_kept c = Some (Reading n) then c\<lparr>w_kept := Some (Answered a)\<rparr> else c)"

section \<open>Validation and its round trips\<close>

lemma quotient_of_of_int [simp]: "quotient_of (of_int n) = (n, 1)"
  using quotient_of_int [of n] by (simp add: Rat.of_int_def)

lemma safe_integer_of_int [simp]: "is_safe_integer (of_int n) \<longleftrightarrow> \<bar>n\<bar> \<le> 2 ^ 53 - 1"
proof -
  have "\<bar>of_int n :: rat\<bar> \<le> 2 ^ 53 - 1 \<longleftrightarrow> (of_int \<bar>n\<bar> :: rat) \<le> of_int (2 ^ 53 - 1)" by simp
  then show ?thesis unfolding is_safe_integer_def of_int_le_iff by simp
qed

lemma safe_integer_iff: "is_safe_integer q \<longleftrightarrow> (\<exists>n. q = of_int n \<and> \<bar>n\<bar> \<le> 2 ^ 53 - 1)"
proof
  assume q: "is_safe_integer q"
  obtain a d where ad: "quotient_of q = (a, d)" by fastforce
  then have "q = of_int a" using q quotient_of_div by (fastforce simp: is_safe_integer_def)
  then show "\<exists>n. q = of_int n \<and> \<bar>n\<bar> \<le> 2 ^ 53 - 1" using q safe_integer_of_int by blast
qed (use safe_integer_of_int in blast)

text \<open>
  A numeric field is accepted exactly when it is an unsigned integer of its Solidity width,
  written as its one canonical decimal text or as a JSON number that a double holds exactly.
  Anything else is refused, so no two spellings reach the encoder and none overflows it.
\<close>

theorem parse_uint_exact:
  "parse_uint name value = Inr n \<longleftrightarrow>
     0 \<le> n \<and> n < 2 ^ width name \<and> (value = JString (decimal n) \<or> value = JNumber (of_int n) \<and> n \<le> 2 ^ 53 - 1)"
proof (cases "value")
  case (JNumber q)
  then show ?thesis
    by (auto simp: parse_uint_def safe_integer_iff Let_def split: if_splits)
next
  case (JString s)
  show ?thesis
  proof (cases "canonical_decimal s")
    case True
    have "decimal_value s = n \<and> 0 \<le> n \<longleftrightarrow> s = decimal n \<and> 0 \<le> n"
      using decimal_decimal_value [OF True] by auto
    moreover have "0 \<le> decimal_value s" using decimal_value_nonneg canonical_digits [OF True] by blast
    ultimately show ?thesis using JString True by (auto simp: parse_uint_def Let_def)
  next
    case False
    then have "s \<noteq> decimal n" if "0 \<le> n" using that canonical_decimal_decimal by blast
    then show ?thesis using JString False by (auto simp: parse_uint_def)
  qed
qed (auto simp: parse_uint_def)

definition in_width :: "intent \<Rightarrow> bool" where
  "in_width i \<longleftrightarrow> (\<forall>(n, w)\<in>set [(i_sellAmount i, 256), (i_minBuyAmount i, 256), (i_validAfter i, 32), (i_validUntil i, 32),
     (i_flags i, 8), (i_kind i, 8), (i_maxDevFromRefBps i, 16), (i_allowedSessions i, 8), (i_batchSpan i, 16), (i_nonce i, 256)].
     0 \<le> n \<and> n < 2 ^ w)"

lemma width_values:
  "width ''sellAmount'' = 256" "width ''minBuyAmount'' = 256" "width ''validAfter'' = 32" "width ''validUntil'' = 32"
  "width ''flags'' = 8" "width ''kind'' = 8" "width ''maxDevFromRefBps'' = 16" "width ''allowedSessions'' = 8"
  "width ''batchSpan'' = 16" "width ''nonce'' = 256"
  by code_simp+

lemmas validate_defs = validate_intent_payload_def number_fields_def

lemma check_address_Inr: "check_address ia p name = Inr a \<Longrightarrow> ia a"
  by (auto simp: check_address_def split: json.splits if_splits)

definition refused :: "http_error \<Rightarrow> bool" where
  "refused e \<longleftrightarrow> status e = 400 \<and> code e = ''COORDINATOR_INVALID_REQUEST''"

lemma refused_invalid [simp]: "refused (invalid m d)"
  by (simp add: refused_def invalid_def bad_request_def fail_def)

lemma mapE_Inl: "mapE f xs = Inl e \<Longrightarrow> \<exists>x\<in>set xs. f x = Inl e"
  by (induction xs) (auto simp: bindE_Inl_iff)

lemma field_refusals:
  "check_present p name = Inl e \<Longrightarrow> refused e" "check_address ia p name = Inl e \<Longrightarrow> refused e"
  "parse_uint name v = Inl e \<Longrightarrow> refused e"
  by (auto simp: check_present_def check_address_def parse_uint_def Let_def split: if_splits json.splits option.splits)

lemma validate_refuses: "validate_intent_payload ia payload = Inl e \<Longrightarrow> refused e"
  unfolding validate_intent_payload_def
  by (cases payload) (auto simp: bindE_Inl_iff simp del: mapE.simps dest!: mapE_Inl dest: field_refusals)

lemma validate_fields:
  "validate_intent_payload ia payload = Inr i \<Longrightarrow> \<exists>p as ns. payload = JObject p
     \<and> mapE (check_address ia p) [''owner'', ''receiver'', ''sellToken'', ''buyToken''] = Inr as
     \<and> mapE (\<lambda>name. parse_uint name (field p name)) number_fields = Inr ns \<and> i = intent_of as ns"
  unfolding validate_intent_payload_def by (cases payload) (auto simp del: mapE.simps)

lemma validate_fields_ok:
  assumes "validate_intent_payload ia payload = Inr i"
  shows "in_width i \<and> ia (i_owner i) \<and> ia (i_receiver i) \<and> ia (i_sellToken i) \<and> ia (i_buyToken i)"
proof -
  obtain p as ns where p: "payload = JObject p"
    "mapE (check_address ia p) [''owner'', ''receiver'', ''sellToken'', ''buyToken''] = Inr as"
    "mapE (\<lambda>name. parse_uint name (field p name)) number_fields = Inr ns"
    "i = intent_of as ns"
    using assms validate_fields by blast
  have a: "ia (as ! k)" if "k < 4" for k
    using mapE_Inr_nth [OF p(2), of k] that by (auto intro: check_address_Inr)
  have n: "0 \<le> ns ! k \<and> ns ! k < 2 ^ width (number_fields ! k)" if "k < 10" for k
    using mapE_Inr_nth [OF p(3), of k] that by (simp add: number_fields_def parse_uint_exact)
  have "in_width i"
    using n [of 0] n [of 1] n [of 2] n [of 3] n [of 4] n [of 5] n [of 6] n [of 7] n [of 8] n [of 9]
    by (simp add: in_width_def p(4) intent_of_def number_fields_def width_values)
  then show ?thesis using a by (simp add: p(4) intent_of_def)
qed

text \<open>
  C36. What validation lets through has four addresses and every number inside its Solidity width,
  and what it does not let through is refused with status 400, never as a failure of the node.
\<close>

theorem validate_in_width:
  "(case validate_intent_payload ia payload of
      Inr i \<Rightarrow> in_width i \<and> ia (i_owner i) \<and> ia (i_receiver i) \<and> ia (i_sellToken i) \<and> ia (i_buyToken i)
    | Inl e \<Rightarrow> refused e)"
proof (cases "validate_intent_payload ia payload")
  case (Inr i)
  then show ?thesis using validate_fields_ok [OF Inr] by simp
next
  case (Inl e)
  then show ?thesis using validate_refuses by simp
qed

definition addressed :: "(string \<Rightarrow> string) \<Rightarrow> intent \<Rightarrow> intent" where
  "addressed ga i = i\<lparr>i_owner := ga (i_owner i), i_receiver := ga (i_receiver i),
     i_sellToken := ga (i_sellToken i), i_buyToken := ga (i_buyToken i)\<rparr>"

lemma parse_text: "0 \<le> n \<Longrightarrow> n < 2 ^ width name \<Longrightarrow> parse_uint name (JString (decimal n)) = Inr n"
  by (simp add: parse_uint_exact)

lemma parse_number: "0 \<le> n \<Longrightarrow> n < 2 ^ width name \<Longrightarrow> width name \<le> 32 \<Longrightarrow> parse_uint name (JNumber (of_int n)) = Inr n"
proof -
  assume n: "0 \<le> n" "n < 2 ^ width name" "width name \<le> 32"
  have "(2 :: int) ^ width name \<le> 2 ^ 32" using n(3) by (rule power_increasing) simp
  then show ?thesis using n by (simp add: parse_uint_exact)
qed

lemma field_simps [simp]:
  "field ((n, v) # p) m = (if n = m then v else field p m)" "field [] m = JUndefined"
  by (auto simp: field_def)

lemma payload_reads_back:
  assumes "in_width i" "ia (ga (i_owner i))" "ia (ga (i_receiver i))" "ia (ga (i_sellToken i))" "ia (ga (i_buyToken i))"
  shows "validate_intent_payload ia (canonical_payload ga i) = Inr (addressed ga i)
    \<and> (\<exists>p. canonical_payload ga i = JObject p \<and> decode_intent p = addressed ga i)"
proof
  note n = assms(1) [unfolded in_width_def, simplified]
  have parsed: "parse_uint ''sellAmount'' (JString (decimal (i_sellAmount i))) = Inr (i_sellAmount i)"
    "parse_uint ''minBuyAmount'' (JString (decimal (i_minBuyAmount i))) = Inr (i_minBuyAmount i)"
    "parse_uint ''nonce'' (JString (decimal (i_nonce i))) = Inr (i_nonce i)"
    by (rule parse_text; use n in \<open>simp add: width_values\<close>)+
  moreover have "parse_uint ''validAfter'' (JNumber (of_int (i_validAfter i))) = Inr (i_validAfter i)"
    "parse_uint ''validUntil'' (JNumber (of_int (i_validUntil i))) = Inr (i_validUntil i)"
    "parse_uint ''flags'' (JNumber (of_int (i_flags i))) = Inr (i_flags i)"
    "parse_uint ''kind'' (JNumber (of_int (i_kind i))) = Inr (i_kind i)"
    "parse_uint ''maxDevFromRefBps'' (JNumber (of_int (i_maxDevFromRefBps i))) = Inr (i_maxDevFromRefBps i)"
    "parse_uint ''allowedSessions'' (JNumber (of_int (i_allowedSessions i))) = Inr (i_allowedSessions i)"
    "parse_uint ''batchSpan'' (JNumber (of_int (i_batchSpan i))) = Inr (i_batchSpan i)"
    by (rule parse_number; use n in \<open>simp add: width_values\<close>)+
  ultimately have nums: "mapE (\<lambda>name. parse_uint name (field p name)) number_fields = Inr
      [i_sellAmount i, i_minBuyAmount i, i_validAfter i, i_validUntil i, i_flags i, i_kind i, i_maxDevFromRefBps i,
       i_allowedSessions i, i_batchSpan i, i_nonce i]" if "p = canonical_fields ga i" for p
    using that by (simp add: canonical_fields_def number_fields_def)
  have "mapE (check_present p) required = Inr (map (\<lambda>_. ()) required)" if "p = canonical_fields ga i" for p
    using that by (simp add: canonical_fields_def required_def intent_tuple_def check_present_def)
  then show "validate_intent_payload ia (canonical_payload ga i) = Inr (addressed ga i)"
    using assms nums unfolding validate_intent_payload_def canonical_payload_def
    by (simp add: intent_of_def addressed_def check_address_def) (simp add: canonical_fields_def)
  show "\<exists>p. canonical_payload ga i = JObject p \<and> decode_intent p = addressed ga i"
    using n by (simp add: canonical_payload_def canonical_fields_def decode_intent_def addressed_def text_of_def number_of_def)
qed

text \<open>
  The payload the mempool keeps and every route serves reads back as the intent that was
  accepted, with its addresses in checksum form: validating it again succeeds and gives the same
  numbers, and so does \<^verbatim>\<open>decodeIntent\<close>.
\<close>

theorem canonical_payload_roundtrip:
  assumes "validate_intent_payload ia payload = Inr i" and "\<forall>a. ia a \<longrightarrow> ia (ga a)"
  shows "validate_intent_payload ia (canonical_payload ga i) = Inr (addressed ga i)
    \<and> (\<exists>p. canonical_payload ga i = JObject p \<and> decode_intent p = addressed ga i)"
  using assms validate_fields_ok [OF assms(1)] by (intro payload_reads_back) auto

section \<open>What a signature commits to\<close>

text \<open>
  The documented behaviour of the encoders on well formed values: words of 32 bytes, one per value,
  that determine it (an address up to case), joined in order; a hash is 32 bytes.
\<close>

definition hex_word :: "string \<Rightarrow> bool" where
  "hex_word s \<longleftrightarrow> length s = 66 \<and> take 2 s = ''0x''"

fun good_value :: "viem \<Rightarrow> abi_value \<Rightarrow> bool" where
  "good_value v (ABytes32 s) \<longleftrightarrow> hex_word s"
| "good_value v (AAddress a) \<longleftrightarrow> isAddress v a"
| "good_value v (AUint w n) \<longleftrightarrow> 0 \<le> n \<and> n < 2 ^ w \<and> w \<le> 256"

fun same_value :: "abi_value \<Rightarrow> abi_value \<Rightarrow> bool" where
  "same_value (ABytes32 s) (ABytes32 t) \<longleftrightarrow> s = t"
| "same_value (AAddress a) (AAddress b) \<longleftrightarrow> same a b"
| "same_value (AUint w n) (AUint w' m) \<longleftrightarrow> w = w' \<and> n = m"
| "same_value _ _ \<longleftrightarrow> False"

fun same_kind :: "abi_value \<Rightarrow> abi_value \<Rightarrow> bool" where
  "same_kind (ABytes32 s) (ABytes32 t) \<longleftrightarrow> True"
| "same_kind (AAddress a) (AAddress b) \<longleftrightarrow> True"
| "same_kind (AUint w n) (AUint w' m) \<longleftrightarrow> w = w'"
| "same_kind _ _ \<longleftrightarrow> False"

definition encoder_laws :: "viem \<Rightarrow> bool" where
  "encoder_laws v \<longleftrightarrow>
     (\<forall>vs ws. list_all (good_value v) vs \<and> list_all (good_value v) ws \<and> list_all2 same_kind vs ws \<longrightarrow>
        (encodeAbiParameters v vs = encodeAbiParameters v ws) = list_all2 same_value vs ws)
     \<and> (\<forall>vs. list_all (good_value v) vs \<longrightarrow>
          length (encodeAbiParameters v vs) = 2 + 64 * length vs \<and> take 2 (encodeAbiParameters v vs) = ''0x'')
     \<and> (\<forall>a b a' b'. list_all (\<lambda>s. take 2 s = ''0x'') [a, b, a', b'] \<and> length a = length a' \<and> concatHex v [a, b] = concatHex v [a', b']
          \<longrightarrow> a = a' \<and> b = b')
     \<and> (\<forall>x a b a' b'. list_all (\<lambda>s. take 2 s = ''0x'') [x, a, b, a', b'] \<and> length a = length a' \<and> concatHex v [x, a, b] = concatHex v [x, a', b']
          \<longrightarrow> a = a' \<and> b = b')
     \<and> (\<forall>x. hex_word (keccak256 v x))"

definition same_intent :: "intent \<Rightarrow> intent \<Rightarrow> bool" where
  "same_intent i j \<longleftrightarrow> same (i_owner i) (i_owner j) \<and> same (i_receiver i) (i_receiver j) \<and> same (i_sellToken i) (i_sellToken j)
     \<and> same (i_buyToken i) (i_buyToken j) \<and> (\<exists>o' r s b. i\<lparr>i_owner := o', i_receiver := r, i_sellToken := s, i_buyToken := b\<rparr>
        = j\<lparr>i_owner := o', i_receiver := r, i_sellToken := s, i_buyToken := b\<rparr>)"

definition encodable :: "viem \<Rightarrow> intent \<Rightarrow> bool" where
  "encodable v i \<longleftrightarrow> in_width i \<and> isAddress v (i_owner i) \<and> isAddress v (i_receiver i)
     \<and> isAddress v (i_sellToken i) \<and> isAddress v (i_buyToken i)"

lemma encode_eq:
  assumes "encoder_laws v" "list_all (good_value v) vs" "list_all (good_value v) ws" "list_all2 same_kind vs ws"
  shows "encodeAbiParameters v vs = encodeAbiParameters v ws \<longleftrightarrow> list_all2 same_value vs ws"
  using assms unfolding encoder_laws_def by blast

lemma encode_shape:
  assumes "encoder_laws v" "list_all (good_value v) vs"
  shows "length (encodeAbiParameters v vs) = 2 + 64 * length vs" "take 2 (encodeAbiParameters v vs) = ''0x''"
  using assms unfolding encoder_laws_def by blast+

lemma keccak_word: "encoder_laws v \<Longrightarrow> hex_word (keccak256 v x)"
  unfolding encoder_laws_def by blast

lemma join_two:
  assumes "encoder_laws v" "take 2 a = ''0x''" "take 2 b = ''0x''" "take 2 a' = ''0x''" "take 2 b' = ''0x''"
    "length a = length a'" "concatHex v [a, b] = concatHex v [a', b']"
  shows "a = a' \<and> b = b'"
proof -
  have "\<forall>a b a' b'. list_all (\<lambda>s. take 2 s = ''0x'') [a, b, a', b'] \<and> length a = length a' \<and> concatHex v [a, b] = concatHex v [a', b']
      \<longrightarrow> a = a' \<and> b = b'" using assms(1) unfolding encoder_laws_def by (elim conjE)
  from this [rule_format, of a b a' b'] show ?thesis using assms(2-) by simp
qed

lemma join_three:
  assumes "encoder_laws v" "take 2 x = ''0x''" "take 2 a = ''0x''" "take 2 b = ''0x''" "take 2 a' = ''0x''" "take 2 b' = ''0x''"
    "length a = length a'" "concatHex v [x, a, b] = concatHex v [x, a', b']"
  shows "a = a' \<and> b = b'"
proof -
  have "\<forall>x a b a' b'. list_all (\<lambda>s. take 2 s = ''0x'') [x, a, b, a', b'] \<and> length a = length a' \<and> concatHex v [x, a, b] = concatHex v [x, a', b']
      \<longrightarrow> a = a' \<and> b = b'" using assms(1) unfolding encoder_laws_def by (elim conjE)
  from this [rule_format, of x a b a' b'] show ?thesis using assms(2-) by simp
qed

lemma intent_good:
  assumes "encoder_laws v" "encodable v i"
  shows "list_all (good_value v) (intent_head v i)" "list_all (good_value v) (intent_tail i)"
  using assms keccak_word [OF assms(1)]
  by (auto simp: intent_head_def intent_tail_def encodable_def in_width_def INTENT_TYPEHASH_def)

lemma same_intent_values:
  "same_intent i j \<longleftrightarrow> list_all2 same_value (intent_head v i) (intent_head v j) \<and> list_all2 same_value (intent_tail i) (intent_tail j)"
  by (cases i; cases j) (auto simp: same_intent_def intent_head_def intent_tail_def)

text \<open>
  What \<^verbatim>\<open>intentHash\<close> hashes determines the intent: two well formed intents have the same preimage
  exactly when they agree in every field, addresses compared without case.
\<close>

theorem intent_preimage_exact:
  assumes "encoder_laws v" and "encodable v i" and "encodable v j"
  shows "intent_preimage v i = intent_preimage v j \<longleftrightarrow> same_intent i j"
proof -
  note gi = intent_good [OF assms(1,2)] and gj = intent_good [OF assms(1,3)]
  have kinds: "list_all2 same_kind (intent_head v i) (intent_head v j)" "list_all2 same_kind (intent_tail i) (intent_tail j)"
    by (auto simp: intent_head_def intent_tail_def)
  have eqs: "encodeAbiParameters v (intent_head v i) = encodeAbiParameters v (intent_head v j) \<and>
      encodeAbiParameters v (intent_tail i) = encodeAbiParameters v (intent_tail j) \<longleftrightarrow> same_intent i j"
    using encode_eq [OF assms(1) gi(1) gj(1) kinds(1)] encode_eq [OF assms(1) gi(2) gj(2) kinds(2)] same_intent_values by metis
  have len: "length (encodeAbiParameters v (intent_head v i)) = length (encodeAbiParameters v (intent_head v j))"
    using encode_shape(1) [OF assms(1) gi(1)] encode_shape(1) [OF assms(1) gj(1)] by (simp add: intent_head_def)
  note hd = encode_shape(2) [OF assms(1) gi(1)] encode_shape(2) [OF assms(1) gj(1)]
    and tl = encode_shape(2) [OF assms(1) gi(2)] encode_shape(2) [OF assms(1) gj(2)]
  show ?thesis
    unfolding intent_preimage_def using join_two [OF assms(1) hd(1) tl(1) hd(2) tl(2) len] eqs by metis
qed

text \<open>
  The digest an owner signs commits to the intent and to the contract that may spend it: if the
  digests of two well formed intents agree for one Permit2 domain, then the intents agree in every
  field and the spenders are one address, or else two different messages with one Keccak hash are
  at hand.
\<close>

theorem digest_binds_intent:
  assumes laws: "encoder_laws v" and i: "encodable v i" and j: "encodable v j"
    and sp: "isAddress v spender" "isAddress v spender'" and dom: "hex_word domainSeparator"
    and eq: "witness_digest v domainSeparator typ i spender = witness_digest v domainSeparator typ j spender'"
  shows "same_intent i j \<and> same spender spender' \<or> (\<exists>x y. x \<noteq> y \<and> keccak256 v x = keccak256 v y)"
proof (rule disjCI)
  assume "\<not> (\<exists>x y. x \<noteq> y \<and> keccak256 v x = keccak256 v y)"
  then have inj: "x = y" if "keccak256 v x = keccak256 v y" for x y using that by blast
  let ?types = "keccak256 v (toHex v (TYPEHASH_STUB @ typ))"
  let ?data = "\<lambda>k s. [ABytes32 ?types, ABytes32 (keccak256 v (encodeAbiParameters v
      [ABytes32 (TOKEN_PERMISSIONS_TYPEHASH v), AAddress (i_sellToken k), AUint 256 (i_sellAmount k)])),
      AAddress s, AUint 256 (i_nonce k), AUint 256 (i_validUntil k), ABytes32 (intent_hash v k)]"
  have "concatHex v [''0x1901'', domainSeparator, keccak256 v (encodeAbiParameters v (?data i spender))] =
      concatHex v [''0x1901'', domainSeparator, keccak256 v (encodeAbiParameters v (?data j spender'))]"
    using eq inj by (simp add: witness_digest_def Let_def)
  moreover have "take 2 (keccak256 v x) = ''0x''" for x using keccak_word [OF laws] by (simp add: hex_word_def)
  ultimately have "keccak256 v (encodeAbiParameters v (?data i spender)) = keccak256 v (encodeAbiParameters v (?data j spender'))"
    using join_three [OF laws, of "''0x1901''" domainSeparator _ domainSeparator] dom by (simp add: hex_word_def)
  then have enc: "encodeAbiParameters v (?data i spender) = encodeAbiParameters v (?data j spender')" by (rule inj)
  have "i_validUntil k < 2 ^ 256" if "in_width k" for k
    using that by (simp add: in_width_def)
  then have "list_all2 same_value (?data i spender) (?data j spender')"
    using enc encode_eq [OF laws, of "?data i spender" "?data j spender'"] keccak_word [OF laws] i j sp
    by (simp add: encodable_def in_width_def intent_hash_def)
  then have "intent_hash v i = intent_hash v j" "same spender spender'" by auto
  then show "same_intent i j \<and> same spender spender'"
    using inj intent_preimage_exact [OF laws i j] by (simp add: intent_hash_def)
qed

section \<open>The cached reads of the witness type\<close>

inductive witness_step :: "'a witness_cache \<times> nat set \<Rightarrow> 'a witness_cache \<times> nat set \<Rightarrow> bool" where
  Ask: "witness_step (c, live) (ask_witness c, if w_kept c = None then insert (w_started c) live else live)"
| Settle: "n \<in> live \<Longrightarrow> witness_step (c, live) (settle_witness n result c, live - {n})"

definition cold :: "'a witness_cache" where
  "cold = \<lparr>w_kept = None, w_started = 0, w_failed = 0\<rparr>"

definition witness_ok :: "'a witness_cache \<times> nat set \<Rightarrow> bool" where
  "witness_ok s = (case s of (c, live) \<Rightarrow> (case w_kept c of
       None \<Rightarrow> live = {} \<and> w_started c = w_failed c
     | Some (Reading n) \<Rightarrow> live = {n} \<and> w_started c = Suc (w_failed c)
     | Some (Answered a) \<Rightarrow> live = {} \<and> w_started c = Suc (w_failed c)))"

lemma witness_step_ok: "witness_step s s' \<Longrightarrow> witness_ok s \<Longrightarrow> witness_ok s'"
  by (induction rule: witness_step.induct)
    (auto simp: witness_ok_def ask_witness_def settle_witness_def split: option.splits promise.splits if_splits)

text \<open>
  However many requests ask for the digest at once, at most one pair of reads is in flight, and
  in all no more are started than one and those that failed.
\<close>

theorem witness_read_once:
  assumes "witness_step\<^sup>*\<^sup>* (cold, {}) (c, live)"
  shows "card live \<le> 1 \<and> w_started c \<le> Suc (w_failed c)"
proof -
  have "witness_ok (c, live)"
    using assms
  proof (induction rule: rtranclp_induct2)
    case (step c live c' live')
    then show ?case using witness_step_ok by blast
  qed (simp add: witness_ok_def cold_def)
  then show ?thesis by (auto simp: witness_ok_def split: option.splits promise.splits)
qed

section \<open>Witnesses\<close>

text \<open>An encoder of 64 digit words and a hash that keeps the first 64 digits, which satisfy the laws.\<close>

fun hex_digits :: "nat \<Rightarrow> nat \<Rightarrow> string" where
  "hex_digits 0 n = []"
| "hex_digits (Suc k) n = hex_digits k (n div 16) @ [char_of (48 + n mod 16)]"

fun sample_word :: "abi_value \<Rightarrow> string" where
  "sample_word (ABytes32 s) = drop 2 s"
| "sample_word (AAddress a) = replicate 24 CHR ''0'' @ lower (drop 2 a)"
| "sample_word (AUint w n) = hex_digits 64 (nat n)"

definition sample_viem :: viem where
  "sample_viem = \<lparr>isAddress = \<lambda>a. length a = 42 \<and> take 2 a = ''0x'', getAddress = lower,
     keccak256 = \<lambda>x. ''0x'' @ take 64 (drop 2 x @ replicate 64 CHR ''0''), toHex = \<lambda>s. ''0x'' @ s,
     concatHex = \<lambda>xs. ''0x'' @ concat (map (drop 2) xs), encodeAbiParameters = \<lambda>vs. ''0x'' @ concat (map sample_word vs),
     encodeSubmitIntent = \<lambda>i signature. ''0x'', isHex = \<lambda>h. True, hex_size = \<lambda>h. (int (length h) - 2) div 2, hex_byte = \<lambda>h n. 27,
     expandCompact = \<lambda>h. Some h, recoverAddress = \<lambda>d signature. None\<rparr>"

lemma hex_digits_length [simp]: "length (hex_digits k n) = k"
  by (induction k arbitrary: n) simp_all

lemma hex_digits_inj: "m < 16 ^ k \<Longrightarrow> n < 16 ^ k \<Longrightarrow> hex_digits k m = hex_digits k n \<Longrightarrow> m = n"
proof (induction k arbitrary: m n)
  case (Suc k)
  have d: "of_char (char_of (48 + x mod 16) :: char) = 48 + x mod 16" for x :: nat by (simp add: of_char_of)
  have "hex_digits k (m div 16) = hex_digits k (n div 16)" "m mod 16 = n mod 16"
    using Suc.prems(3) d [of m] d [of n] by auto
  moreover have "m div 16 < 16 ^ k" "n div 16 < 16 ^ k" using Suc.prems(1,2) by (simp_all add: less_mult_imp_div_less)
  ultimately show ?case using Suc.IH by (metis div_mult_mod_eq)
qed simp

lemma sample_word_length: "good_value sample_viem a \<Longrightarrow> length (sample_word a) = 64"
  by (cases a) (auto simp: hex_word_def sample_viem_def lower_def)

lemma prefixed: "take 2 s = ''0x'' \<Longrightarrow> take 2 t = ''0x'' \<Longrightarrow> drop 2 s = drop 2 t \<longleftrightarrow> s = t"
  by (metis append_take_drop_id)

lemma sample_word_eq:
  assumes "good_value sample_viem a" "good_value sample_viem b" "same_kind a b"
  shows "sample_word a = sample_word b \<longleftrightarrow> same_value a b"
proof (cases a)
  case (ABytes32 s)
  then show ?thesis using assms by (cases b) (auto simp: hex_word_def prefixed)
next
  case (AAddress s)
  then obtain t where t: "b = AAddress t" using assms(3) by (cases b) auto
  have "lower s = lower (take 2 s) @ lower (drop 2 s)" "lower t = lower (take 2 t) @ lower (drop 2 t)"
    by (simp_all add: lower_def flip: map_append)
  moreover have "length (lower (take 2 s)) = length (lower (take 2 t))" "take 2 s = take 2 t"
    using assms AAddress t by (simp_all add: sample_viem_def lower_def)
  ultimately show ?thesis using AAddress t by (simp add: same_def)
next
  case (AUint w n)
  then obtain m where m: "b = AUint w m" using assms(3) by (cases b) auto
  have bound: "nat k < 16 ^ 64" if "k < 2 ^ w" "w \<le> 256" for k :: int
  proof -
    have "(2 :: int) ^ w \<le> 2 ^ 256" using that(2) by (rule power_increasing) simp
    then show ?thesis using that(1) by simp
  qed
  have "nat n < 16 ^ 64" "nat m < 16 ^ 64" "0 \<le> n" "0 \<le> m" using assms AUint m bound by auto
  then show ?thesis using AUint m hex_digits_inj [of "nat n" 64 "nat m"] by auto
qed

lemma sample_words_eq:
  "list_all2 same_kind vs ws \<Longrightarrow> list_all (good_value sample_viem) vs \<Longrightarrow> list_all (good_value sample_viem) ws \<Longrightarrow>
   concat (map sample_word vs) = concat (map sample_word ws) \<longleftrightarrow> list_all2 same_value vs ws"
proof (induction vs ws rule: list_all2_induct)
  case (Cons a vs b ws)
  then have "length (sample_word a) = length (sample_word b)" by (simp add: sample_word_length)
  then show ?case using Cons sample_word_eq by simp
qed simp

lemma sample_words_length: "list_all (good_value sample_viem) vs \<Longrightarrow> length (concat (map sample_word vs)) = 64 * length vs"
  by (induction vs) (simp_all add: sample_word_length)

lemma sample_viem_laws: "encoder_laws sample_viem"
  unfolding encoder_laws_def
proof (intro conjI allI impI; (elim conjE)?)
  fix vs ws assume "list_all (good_value sample_viem) vs" "list_all (good_value sample_viem) ws" "list_all2 same_kind vs ws"
  then show "(encodeAbiParameters sample_viem vs = encodeAbiParameters sample_viem ws) = list_all2 same_value vs ws"
    using sample_words_eq by (simp add: sample_viem_def)
next
  fix vs assume "list_all (good_value sample_viem) vs"
  then show "length (encodeAbiParameters sample_viem vs) = 2 + 64 * length vs"
    using sample_words_length by (simp add: sample_viem_def)
qed (auto simp: sample_viem_def prefixed hex_word_def)

definition sample_payload :: "string \<Rightarrow> json" where
  "sample_payload owner = JObject [(''owner'', JString owner), (''receiver'', JString owner),
     (''sellToken'', JString (''0x'' @ replicate 40 CHR ''b'')), (''buyToken'', JString (''0x'' @ replicate 40 CHR ''c'')),
     (''sellAmount'', JString ''60''), (''minBuyAmount'', JNumber 1), (''validAfter'', JString ''0''), (''validUntil'', JNumber 1000),
     (''flags'', JNumber 1), (''kind'', JNumber 0), (''maxDevFromRefBps'', JNumber 0), (''allowedSessions'', JNumber 255),
     (''batchSpan'', JNumber 1), (''nonce'', JString ''7''), (''extra'', JBool True)]"

definition sample_decoded :: "string \<Rightarrow> intent" where
  "sample_decoded owner = \<lparr>i_owner = owner, i_receiver = owner, i_sellToken = ''0x'' @ replicate 40 CHR ''b'',
     i_buyToken = ''0x'' @ replicate 40 CHR ''c'', i_sellAmount = 60, i_minBuyAmount = 1, i_validAfter = 0, i_validUntil = 1000,
     i_flags = 1, i_kind = 0, i_maxDevFromRefBps = 0, i_allowedSessions = 255, i_batchSpan = 1, i_nonce = 7\<rparr>"

definition sample_upper :: string where "sample_upper = ''0x'' @ replicate 40 CHR ''A''"

lemma sample_validates:
  "validate_intent_payload (isAddress sample_viem) (sample_payload sample_upper) = Inr (sample_decoded sample_upper)"
  by code_simp

theorem canonical_payload_roundtrip_witness:
  "validate_intent_payload (isAddress sample_viem) (canonical_payload lower (sample_decoded sample_upper)) =
     Inr (sample_decoded (lower sample_upper))"
proof -
  have "\<forall>a. isAddress sample_viem a \<longrightarrow> isAddress sample_viem (lower a)"
    by (auto simp: sample_viem_def lower_def take_map lower_char_def)
  moreover have "addressed lower (sample_decoded sample_upper) = sample_decoded (lower sample_upper)" by code_simp
  ultimately show ?thesis using canonical_payload_roundtrip [OF sample_validates, of lower] by simp
qed

lemma sample_encodable: "encodable sample_viem (sample_decoded sample_upper)" "encodable sample_viem (sample_decoded (lower sample_upper))"
  by (simp_all add: encodable_def in_width_def sample_decoded_def sample_viem_def sample_upper_def lower_def lower_char_def)

theorem intent_preimage_exact_witness:
  "intent_preimage sample_viem (sample_decoded sample_upper) = intent_preimage sample_viem (sample_decoded (lower sample_upper))"
proof -
  have "same_intent (sample_decoded sample_upper) (sample_decoded (lower sample_upper))"
    by (simp add: same_intent_def sample_decoded_def same_def)
  then show ?thesis using intent_preimage_exact [OF sample_viem_laws sample_encodable] by simp
qed

theorem digest_binds_intent_witness:
  "same_intent (sample_decoded sample_upper) (sample_decoded sample_upper) \<and> same sample_upper (lower sample_upper)
    \<or> (\<exists>x y. x \<noteq> y \<and> keccak256 sample_viem x = keccak256 sample_viem y)"
proof (rule digest_binds_intent [OF sample_viem_laws sample_encodable(1,1), of _ _ "''0x'' @ replicate 64 CHR ''0''" "[]"])
  show "isAddress sample_viem sample_upper" "isAddress sample_viem (lower sample_upper)"
    by (simp_all add: sample_viem_def sample_upper_def lower_def lower_char_def)
  show "hex_word (''0x'' @ replicate 64 CHR ''0'')" by (simp add: hex_word_def)
  have "encodeAbiParameters sample_viem [p, q, AAddress (lower a), r, s, t] = encodeAbiParameters sample_viem [p, q, AAddress a, r, s, t]"
    for p q r s t a by (simp add: sample_viem_def lower_def drop_map comp_def)
  then show "witness_digest sample_viem (''0x'' @ replicate 64 CHR ''0'') [] (sample_decoded sample_upper) sample_upper
      = witness_digest sample_viem (''0x'' @ replicate 64 CHR ''0'') [] (sample_decoded sample_upper) (lower sample_upper)"
    unfolding witness_digest_def Let_def by metis
qed

theorem witness_read_once_witness:
  "w_started (settle_witness 0 None (ask_witness (ask_witness (cold :: int witness_cache)))) \<le> 2"
proof -
  let ?a = "ask_witness (cold :: int witness_cache)"
  have "witness_step (cold, {}) (?a, {0})" "witness_step (?a, {0}) (ask_witness ?a, {0})"
    using witness_step.Ask [of cold "{}"] witness_step.Ask [of ?a "{0}"] by (simp_all add: cold_def ask_witness_def)
  moreover have "witness_step (ask_witness ?a, {0}) (settle_witness 0 None (ask_witness ?a), {0} - {0})"
    by (rule witness_step.Settle) simp
  ultimately have "witness_step\<^sup>*\<^sup>* (cold, {}) (settle_witness 0 None (ask_witness ?a), {0} - {0})"
    by (meson rtranclp.rtrancl_into_rtrancl rtranclp.rtrancl_refl)
  then have "w_started (settle_witness 0 None (ask_witness ?a)) \<le> Suc (w_failed (settle_witness 0 None (ask_witness ?a)))"
    by (rule witness_read_once [THEN conjunct2])
  then show ?thesis by (simp add: cold_def settle_witness_def ask_witness_def)
qed

end
