(* ===== verification/Preflight.thy ===== *)
theory Preflight
  imports SolveTotal Intent
begin

text \<open>
  What the solver asks before it sends anything: solver/src/feed.ts, which turns the coordinator's frozen
  feed into signed intents and a plan, simulate.ts, which asks every check that can refuse the plan, and
  preflight.ts, which decides whether the solver may start at all. The answers of the chain are
  parameters; a failed call carries viem's error.
\<close>

unbundle bit_operations_syntax

section \<open>The coordinator's feed\<close>

text \<open>
  A decimal string or an integer, as the fields of a payload are typed. \<^verbatim>\<open>BigInt\<close> throws on anything
  else here; \<^verbatim>\<open>Number\<close> does not, but such a payload is outside its type.
\<close>

definition big_int :: "json \<Rightarrow> js_error + int" where
  "big_int v =
     (case v of
        JString s \<Rightarrow> if s \<noteq> [] \<and> list_all is_digit s then Inr (decimal_value s) else Inl (Thrown ''Cannot convert to a BigInt'')
      | JNumber q \<Rightarrow> if snd (quotient_of q) = 1 then Inr (fst (quotient_of q)) else Inl RangeError
      | _ \<Rightarrow> Inl TypeError)"

definition to_intent :: "(string \<times> json) list \<Rightarrow> js_error + intent" where
  "to_intent p =
     bindE (mapE (\<lambda>name. big_int (field p name)) number_fields) (\<lambda>ns.
       Inr (intent_of (map (\<lambda>name. text_of (field p name)) [''owner'', ''receiver'', ''sellToken'', ''buyToken'']) ns))"

record batch_body =
  bb_frozen :: bool
  bb_intents :: "((string \<times> json) list \<times> hex) list"

datatype feed_answer = NotOk int string | Body batch_body

definition read_feed :: "(int \<Rightarrow> js_error + feed_answer) \<Rightarrow> int \<Rightarrow> js_error + batch_body \<times> signed_order list" where
  "read_feed fetch batchId =
     bindE (fetch batchId) (\<lambda>res.
       case res of
         NotOk st text \<Rightarrow> Inl (Thrown (''GET /v1/batches/'' @ decimal batchId @ ''/intents answered '' @ decimal st @ '': '' @ text))
       | Body body \<Rightarrow> bindE (mapE (\<lambda>(p, signature). bindE (to_intent p) (\<lambda>i. Inr \<lparr>sg_intent = i, sg_signature = signature\<rparr>)) (bb_intents body)) (\<lambda>signed.
           Inr (body, signed)))"

definition tokens_of :: "signed_order list \<Rightarrow> address \<Rightarrow> address list" where
  "tokens_of signed quote =
     map snd (foldl (\<lambda>m t. AList.update (lower t) t m) [(lower quote, quote)]
       (concat (map (\<lambda>s. [i_sellToken (sg_intent s), i_buyToken (sg_intent s)]) signed)))"

definition solve_at :: "js_error + address \<Rightarrow> block_reads \<Rightarrow> quotes \<Rightarrow> address \<Rightarrow> int \<Rightarrow> signed_order list \<Rightarrow> address \<Rightarrow> int \<Rightarrow> profile
    \<Rightarrow> js_error + solver_plan \<times> inputs" where
  "solve_at quoteToken reads q adapter batchId signed solver block profile =
     bindE quoteToken (\<lambda>quote.
       bindE (read_inputs reads batchId (tokens_of signed quote) block) (\<lambda>inp.
         bindE (solve q adapter batchId signed quote solver inp profile) (\<lambda>plan. Inr (plan, inp))))"

section \<open>Naming a failure\<close>

text \<open>An item of an ABI: its type, its name and the types of its inputs.\<close>

record abi_item =
  ab_type :: string
  ab_name :: string
  ab_inputs :: "string list"

definition signature_of :: "abi_item \<Rightarrow> string" where
  "signature_of item = ab_name item @ ''('' @ joined '','' (ab_inputs item) @ '')''"

definition error_step :: "string list \<times> abi_item list \<Rightarrow> abi_item \<Rightarrow> string list \<times> abi_item list" where
  "error_step acc item =
     (case acc of (seen, out) \<Rightarrow>
        if ab_type item \<noteq> ''error'' \<or> signature_of item \<in> set seen then (seen, out)
        else (signature_of item # seen, out @ [item]))"

definition every_error :: "abi_item list list \<Rightarrow> abi_item list" where
  "every_error abis = snd (foldl error_step ([], []) (concat abis))"

text \<open>
  An error of viem is its message and the data of each error down its chain of causes; any other is an
  exception of the code. \<open>decode\<close> is \<^verbatim>\<open>decodeErrorResult\<close>, none where it throws.
\<close>

datatype chain_error = BaseError string "hex option list" | OtherError js_error

definition first_line :: "string \<Rightarrow> string" where
  "first_line s = takeWhile (\<lambda>c. c \<noteq> CHR ''\<newline>'') s"

definition revert_data :: "chain_error \<Rightarrow> hex option" where
  "revert_data e =
     (case e of
        BaseError m causes \<Rightarrow> (case filter (\<lambda>d. case d of None \<Rightarrow> False | Some x \<Rightarrow> take 2 x = ''0x'') causes of [] \<Rightarrow> None | d # _ \<Rightarrow> d)
      | OtherError _ \<Rightarrow> None)"

definition name_revert :: "(hex \<Rightarrow> (string \<times> string list) option) \<Rightarrow> chain_error \<Rightarrow> string" where
  "name_revert decode e =
     (case revert_data e of
        None \<Rightarrow> first_line (case e of BaseError m _ \<Rightarrow> m | OtherError x \<Rightarrow> error_message x)
      | Some d \<Rightarrow> (case decode d of
            None \<Rightarrow> ''unknown revert '' @ take 10 d
          | Some (name, args) \<Rightarrow> (if joined '', '' args \<noteq> [] then name @ ''('' @ joined '', '' args @ '')'' else name)))"

section \<open>The verifier and the simulation\<close>

record verify_args =
  vr_intents :: hex
  vr_executions :: hex
  vr_tokens :: "address list"
  vr_prices :: "int list"
  vr_deltas :: "int list"
  vr_oracle :: "int list"
  vr_baselines :: "int list"
  vr_deviation :: int
  vr_feeBps :: int

definition oracle_prices :: "solution \<Rightarrow> inputs \<Rightarrow> js_error + int list" where
  "oracle_prices s inp = mapE (oracle_price inp) (s_tokens s)"

fun caught :: "(hex \<Rightarrow> (string \<times> string list) option) \<Rightarrow> js_error + 'a \<Rightarrow> string + 'a" where
  "caught decode (Inl e) = Inl (name_revert decode (OtherError e))"
| "caught decode (Inr v) = Inr v"

definition verify_on_chain ::
  "(nat \<Rightarrow> nat \<Rightarrow> int \<Rightarrow> int \<Rightarrow> int \<Rightarrow> hex) \<Rightarrow> (int \<Rightarrow> int \<Rightarrow> int \<Rightarrow> hex) \<Rightarrow> (hex \<Rightarrow> (string \<times> string list) option)
    \<Rightarrow> (int \<Rightarrow> verify_args \<Rightarrow> chain_error + int) \<Rightarrow> solution \<Rightarrow> inputs \<Rightarrow> string + int" where
  "verify_on_chain encodeIntent encodeExecution decode verify s inp =
     bindE (caught decode (pack_intents encodeIntent (s_intents s) (s_tokens s))) (\<lambda>packed.
       bindE (caught decode (venue_deltas (s_venueCalls s) (s_tokens s))) (\<lambda>deltas.
         bindE (caught decode (oracle_prices s inp)) (\<lambda>oracle.
           case verify (np_block inp) \<lparr>vr_intents = packed, vr_executions = pack_executions encodeExecution (s_executions s),
                  vr_tokens = s_tokens s, vr_prices = s_prices s, vr_deltas = deltas, vr_oracle = oracle, vr_baselines = s_baselineQuotes s,
                  vr_deviation = np_maxDeviationBps inp, vr_feeBps = FEE_CAP_NOTIONAL_BPS\<rparr> of
             Inl e \<Rightarrow> Inl (name_revert decode e)
           | Inr savings \<Rightarrow> Inr savings)))"

section \<open>Exposure\<close>

definition SLOT_TODAY_INDEX :: int where "SLOT_TODAY_INDEX = 10"
definition SLOT_TODAY_GLOBAL :: int where "SLOT_TODAY_GLOBAL = 11"
definition SLOT_PER_TOKEN_ON_DAY :: int where "SLOT_PER_TOKEN_ON_DAY = 12"

text \<open>
  The reads at one block: a cap by its name, a storage slot, and the hashes that place an entry of a
  mapping: \<open>ex_inner\<close> of a day and the outer slot, \<open>ex_entry\<close> of a token and the inner slot.
\<close>

record exposure_reads =
  ex_cap :: "string \<Rightarrow> js_error + int"
  ex_slot :: "int \<Rightarrow> js_error + int option"
  ex_inner :: "int \<Rightarrow> int \<Rightarrow> js_error + int"
  ex_entry :: "address \<Rightarrow> int \<Rightarrow> js_error + int"

definition slot_value :: "exposure_reads \<Rightarrow> int \<Rightarrow> js_error + int" where
  "slot_value reads place = bindE (ex_slot reads place) (\<lambda>w. Inr (case w of None \<Rightarrow> 0 | Some v \<Rightarrow> v))"

definition exposure_state_at :: "exposure_reads \<Rightarrow> solution \<Rightarrow> int \<Rightarrow> js_error + exposure_state" where
  "exposure_state_at reads s finalizeAt =
     (let day = finalizeAt sdiv 86400 in
      bindE (ex_cap reads ''capPerBatchUsd'') (\<lambda>batchCap.
      bindE (ex_cap reads ''capPerTokenDailyUsd'') (\<lambda>tokenCap.
      bindE (ex_cap reads ''capGlobalDailyUsd'') (\<lambda>globalCap.
      bindE (slot_value reads SLOT_TODAY_INDEX) (\<lambda>todayIndex.
      bindE (slot_value reads SLOT_TODAY_GLOBAL) (\<lambda>todayGlobal.
      bindE (ex_inner reads day SLOT_PER_TOKEN_ON_DAY) (\<lambda>inner.
      bindE (mapE (\<lambda>t. bindE (ex_entry reads t inner) (slot_value reads)) (s_tokens s)) (\<lambda>perToken.
        Inr \<lparr>capPerBatchUsd = batchCap, capPerTokenDailyUsd = tokenCap, capGlobalDailyUsd = globalCap,
             globalToday = (if todayIndex AND 0xffffffff = day then todayGlobal else 0), perTokenToday = perToken\<rparr>))))))))"

section \<open>The fee\<close>

record fee_answer =
  fe_withheldUsd :: int
  fe_cap :: int
  fe_ok :: bool

definition withheld :: "int list \<Rightarrow> int list \<Rightarrow> js_error + int" where
  "withheld prices surplus =
     foldE (\<lambda>total (t, amount). if amount > 0 then bindE (read_at prices t) (\<lambda>p. Inr (total + amount * p sdiv WAD)) else Inr total)
       0 (enumerate 0 surplus)"

definition fee_check :: "solution \<Rightarrow> js_error + fee_answer" where
  "fee_check s =
     bindE (conservation (s_intents s) (s_executions s) (s_venueCalls s) (s_tokens s)) (\<lambda>surplus.
       bindE (withheld (s_prices s) surplus) (\<lambda>withheldUsd.
         bindE (exposure_notional (s_intents s) (s_executions s) (s_tokens s) (s_prices s)) (\<lambda>x.
           let cap = fee_cap (s_claimedSavings s + withheldUsd) (x_notionalUsd x) FEE_CAP_SHARE_BPS FEE_CAP_NOTIONAL_BPS
           in Inr \<lparr>fe_withheldUsd = withheldUsd, fe_cap = cap, fe_ok = (withheldUsd \<le> cap)\<rparr>)))"

record preflight_answer =
  pf_exposure :: "violation list"
  pf_fee :: fee_answer

definition preflight :: "exposure_reads \<Rightarrow> solution \<Rightarrow> inputs \<Rightarrow> int \<Rightarrow> js_error + preflight_answer" where
  "preflight reads s inp finalizeAt =
     bindE (exposure_state_at reads s finalizeAt) (\<lambda>state.
       bindE (exposure_notional (s_intents s) (s_executions s) (s_tokens s) (s_prices s)) (\<lambda>x.
         bindE (fee_check s) (\<lambda>fee.
           Inr \<lparr>pf_exposure = exposure_violations x (np_session inp) state, pf_fee = fee\<rparr>)))"

definition passes :: "preflight_answer \<Rightarrow> bool" where
  "passes pre \<longleftrightarrow> pf_exposure pre = [] \<and> fe_ok (pf_fee pre)"

definition simulate_submit :: "(hex \<Rightarrow> (string \<times> string list) option) \<Rightarrow> (solution \<Rightarrow> chain_error option) \<Rightarrow> solution \<Rightarrow> string option" where
  "simulate_submit decode call s = map_option (name_revert decode) (call s)"

section \<open>Whether the solver may start\<close>

definition GAS_PER_TX :: int where "GAS_PER_TX = 2000000"
definition TX_PER_HOUR :: int where "TX_PER_HOUR = 120"
definition HOURS_OF_GAS :: int where "HOURS_OF_GAS = 3"

definition min_gas_balance :: "int \<Rightarrow> int" where
  "min_gas_balance gasPrice = gasPrice * GAS_PER_TX * TX_PER_HOUR * HOURS_OF_GAS"

text \<open>What each problem says, without the advice that follows it.\<close>

datatype problem = UnderBond int int | UnbondRequested int | NotActive | UnderGas int int | CarriesCode hex

record registry_reads =
  rd_active :: bool
  rd_bonded :: int
  rd_unbondAvailableAt :: int
  rd_minBond :: int
  rd_balance :: int
  rd_code :: "hex option"
  rd_gasPrice :: int

definition bare_code :: "hex option \<Rightarrow> bool" where
  "bare_code c \<longleftrightarrow> c = None \<or> c = Some [] \<or> c = Some ''0x''"

definition readiness :: "registry_reads \<Rightarrow> problem list" where
  "readiness r =
     (let problems = (if rd_bonded r < rd_minBond r then [UnderBond (rd_bonded r) (rd_minBond r)] else [])
            @ (if rd_unbondAvailableAt r \<noteq> 0 then [UnbondRequested (rd_unbondAvailableAt r)] else []);
          problems = problems @ (if \<not> rd_active r \<and> problems = [] then [NotActive] else []);
          minGas = min_gas_balance (rd_gasPrice r)
      in problems @ (if rd_balance r < minGas then [UnderGas (rd_balance r) minGas] else [])
           @ (case rd_code r of Some c \<Rightarrow> if bare_code (Some c) then [] else [CarriesCode (take 10 c)] | None \<Rightarrow> []))"

definition assert_ready :: "registry_reads \<Rightarrow> js_error + registry_reads" where
  "assert_ready r = (if readiness r \<noteq> [] then Inl (Thrown ''solver refuses to start'') else Inr r)"

section \<open>The solver reads what was admitted\<close>

lemma big_int_simps [simp]:
  "0 \<le> n \<Longrightarrow> big_int (JString (decimal n)) = Inr n" "big_int (JNumber (of_int n)) = Inr n"
proof -
  show "big_int (JString (decimal n)) = Inr n" if "0 \<le> n"
  proof -
    have "list_all is_digit (decimal n)" by (rule canonical_digits) (simp add: that)
    moreover have "decimal n \<noteq> []" using canonical_decimal_decimal [OF that] by (auto simp: canonical_decimal_def)
    ultimately show ?thesis using that by (simp add: big_int_def)
  qed
qed (simp add: big_int_def)

lemma to_intent_canonical: "in_width i \<Longrightarrow> to_intent (canonical_fields ga i) = Inr (addressed ga i)"
  by (simp add: to_intent_def canonical_fields_def number_fields_def in_width_def intent_of_def addressed_def text_of_def)

text \<open>
  C31. The solver reads the frozen feed back exactly: when every entry the coordinator serves is the
  payload it keeps of an intent it accepted, the solver ends with the same intents, in the same order,
  addresses in checksum form and signatures untouched, and nothing throws.
\<close>

theorem solver_reads_admitted_intents:
  assumes "list_all (\<lambda>(i, signature). \<exists>payload. validate_intent_payload ia payload = Inr i) accepted"
    and "fetch batchId = Inr (Body \<lparr>bb_frozen = frozen, bb_intents = map (\<lambda>(i, signature). (canonical_fields ga i, signature)) accepted\<rparr>)"
  shows "\<exists>body. read_feed fetch batchId = Inr (body, map (\<lambda>(i, signature). \<lparr>sg_intent = addressed ga i, sg_signature = signature\<rparr>) accepted)"
proof -
  have "mapE (\<lambda>(p, signature). bindE (to_intent p) (\<lambda>i. Inr \<lparr>sg_intent = i, sg_signature = signature\<rparr>))
      (map (\<lambda>(i, signature). (canonical_fields ga i, signature)) accepted)
    = Inr (map (\<lambda>(i, signature). \<lparr>sg_intent = addressed ga i, sg_signature = signature\<rparr>) accepted)"
    using assms(1)
  proof (induction accepted)
    case (Cons x accepted)
    then obtain i sg payload where x: "x = (i, sg)" "validate_intent_payload ia payload = Inr i" by auto
    have "in_width i" using validate_fields_ok [OF x(2)] by blast
    then show ?case using Cons x(1) by (simp add: to_intent_canonical)
  qed simp
  then show ?thesis using assms(2) by (simp add: read_feed_def)
qed

section \<open>What is withheld\<close>

definition withheld_at :: "int \<Rightarrow> int \<Rightarrow> int" where
  "withheld_at price amount = (if amount > 0 then amount * price sdiv WAD else 0)"

lemma withheld_value:
  assumes "length surplus \<le> length prices"
  shows "withheld prices surplus = Inr (\<Sum>t<length surplus. withheld_at (prices ! t) (surplus ! t))"
proof -
  let ?step = "\<lambda>tot (t, amount). if amount > 0 then bindE (read_at prices t) (\<lambda>p. Inr (tot + amount * p sdiv WAD)) else Inr tot"
  have "foldE ?step a (enumerate k xs) = Inr (a + (\<Sum>t<length xs. withheld_at (prices ! (k + t)) (xs ! t)))"
    if "k + length xs \<le> length prices" for a k xs
    using that
  proof (induction xs arbitrary: a k)
    case (Cons x xs)
    have step: "?step a (k, x) = Inr (a + withheld_at (prices ! k) x)" using Cons.prems by (simp add: withheld_at_def read_at_def)
    have "foldE ?step (a + withheld_at (prices ! k) x) (enumerate (Suc k) xs)
        = Inr (a + withheld_at (prices ! k) x + (\<Sum>t<length xs. withheld_at (prices ! (Suc k + t)) (xs ! t)))"
      using Cons.prems by (intro Cons.IH) simp
    then show ?case using step by (simp add: sum.lessThan_Suc_shift del: prod.case sum.lessThan_Suc)
  qed simp
  from this [of 0 surplus 0] assms show ?thesis by (simp add: withheld_def)
qed

lemma sdiv_mono: "0 \<le> a \<Longrightarrow> a \<le> b \<Longrightarrow> 0 < c \<Longrightarrow> a sdiv c \<le> b sdiv (c :: int)"
  by (simp add: signed_divide_int_def sgn_if zdiv_mono1)

lemma withheld_at_mono: "a \<le> b \<Longrightarrow> 0 \<le> p \<Longrightarrow> withheld_at p a \<le> withheld_at p b"
proof -
  assume ab: "a \<le> b" "0 \<le> p"
  consider "b \<le> 0" | "a \<le> 0" "0 < b" | "0 < a" "0 < b" using ab by linarith
  then show ?thesis
  proof cases
    case 2
    then have "0 sdiv WAD \<le> b * p sdiv WAD" using ab by (intro sdiv_mono) simp_all
    then show ?thesis using 2 by (simp add: withheld_at_def)
  next
    case 3
    then have "a * p sdiv WAD \<le> b * p sdiv WAD" using ab by (intro sdiv_mono mult_right_mono) simp_all
    then show ?thesis using 3 by (simp add: withheld_at_def)
  qed (use ab in \<open>simp add: withheld_at_def\<close>)
qed

text \<open>The cap grows by at most a fifth of what the surplus grows by.\<close>

lemma share_slow: "0 \<le> d \<Longrightarrow> (x + d) * 2000 sdiv 10000 \<le> x * 2000 sdiv 10000 + (d :: int)"
proof -
  assume d: "0 \<le> d"
  have fifth: "y * 2000 sdiv 10000 = y sdiv 5" for y :: int
  proof -
    have "\<bar>y * 2000\<bar> div 10000 = \<bar>y\<bar> div 5" by (simp add: abs_mult)
    then show ?thesis by (simp add: signed_divide_int_def sgn_mult)
  qed
  have "(x + d) sdiv 5 \<le> x sdiv 5 + d"
    using d by (simp add: signed_divide_int_def sgn_if) linarith
  then show ?thesis unfolding fifth .
qed

lemma fee_cap_slow:
  assumes "w \<le> w'" "fee_cap (savings + w) n FEE_CAP_SHARE_BPS FEE_CAP_NOTIONAL_BPS < w"
  shows "fee_cap (savings + w') n FEE_CAP_SHARE_BPS FEE_CAP_NOTIONAL_BPS < w'"
  using assms share_slow [of "w' - w" "savings + w"] by (auto simp: fee_cap_def Let_def FEE_CAP_SHARE_BPS_def BPS_def split: if_splits)

text \<open>The same call on the venue, returning at least as much.\<close>

definition returns_more :: "venue_call \<Rightarrow> venue_call \<Rightarrow> bool" where
  "returns_more v v' \<longleftrightarrow> v_tokenIn v' = v_tokenIn v \<and> v_tokenOut v' = v_tokenOut v \<and> v_amountIn v' = v_amountIn v \<and> v_minOut v \<le> v_minOut v'"

lemma venue_deltas_more:
  assumes "list_all2 returns_more calls calls'" "foldE (venue_step ts) ds calls = Inr r"
  shows "\<exists>r'. foldE (venue_step ts) ds' calls' = Inr r'"
  using assms
proof (induction calls arbitrary: calls' ds ds')
  case (Cons v calls)
  obtain v' vs where cs: "calls' = v' # vs" "returns_more v v'" "list_all2 returns_more calls vs"
    using Cons.prems(1) by (auto simp: list_all2_Cons1)
  obtain d where d: "venue_step ts ds v = Inr d" "foldE (venue_step ts) d calls = Inr r" using Cons.prems(2) by auto
  obtain d' where d': "venue_step ts ds' v' = Inr d'" using d(1) cs(2) by (auto simp: venue_step_def Let_def returns_more_def)
  show ?case using Cons.IH [OF cs(3) d(2), of d'] by (simp add: cs(1) d')
qed simp

lemma conservation_more:
  assumes "conservation is es calls ts = Inr c" "list_all2 returns_more calls calls'"
  obtains c' where "conservation is es calls' ts = Inr c'" "length c = length ts" "length c' = length ts" "\<And>t. t < length ts \<Longrightarrow> c ! t \<le> c' ! t"
proof -
  have len: "length x = length ts" if "conservation is es cs ts = Inr x" for x cs
    using that by (auto simp: conservation_def)
  obtain c' where c': "conservation is es calls' ts = Inr c'"
    using assms(1) venue_deltas_more [OF assms(2)] unfolding conservation_def venue_deltas_def by fastforce
  have "(\<Sum>x\<leftarrow>calls. routed_of ts t x) \<le> (\<Sum>x\<leftarrow>calls'. routed_of ts t x)" for t
    using assms(2) by (induction rule: list_all2_induct) (auto simp: returns_more_def routed_of_def)
  then have "c ! t \<le> c' ! t" if "t < length ts" for t
    using conservation_nth(2) [OF assms(1) that] conservation_nth(2) [OF c' that] by simp
  then show thesis using that c' len [OF assms(1)] len [OF c'] by blast
qed

text \<open>
  The fee check refuses nothing the chain would accept: when a solution is over the fee cap with what
  its venue calls at least return, then however much more they return, what is withheld is no less and it
  is still over the cap, although the cap grows with it.
\<close>

theorem fee_refusal_is_final:
  assumes "fee_check s = Inr fee" "\<not> fe_ok fee" "list_all2 returns_more (s_venueCalls s) calls" "list_all (\<lambda>p. 0 \<le> p) (s_prices s)"
    and "length (s_prices s) = length (s_tokens s)"
  shows "\<exists>fee'. fee_check (s\<lparr>s_venueCalls := calls\<rparr>) = Inr fee' \<and> fe_withheldUsd fee \<le> fe_withheldUsd fee' \<and> \<not> fe_ok fee'"
proof -
  obtain c w x where f: "conservation (s_intents s) (s_executions s) (s_venueCalls s) (s_tokens s) = Inr c" "withheld (s_prices s) c = Inr w"
    "exposure_notional (s_intents s) (s_executions s) (s_tokens s) (s_prices s) = Inr x"
    "fee = \<lparr>fe_withheldUsd = w, fe_cap = fee_cap (s_claimedSavings s + w) (x_notionalUsd x) FEE_CAP_SHARE_BPS FEE_CAP_NOTIONAL_BPS,
       fe_ok = (w \<le> fee_cap (s_claimedSavings s + w) (x_notionalUsd x) FEE_CAP_SHARE_BPS FEE_CAP_NOTIONAL_BPS)\<rparr>"
    using assms(1) by (auto simp: fee_check_def Let_def)
  obtain c' where c': "conservation (s_intents s) (s_executions s) calls (s_tokens s) = Inr c'" "length c = length (s_tokens s)"
    "length c' = length (s_tokens s)" "\<And>t. t < length (s_tokens s) \<Longrightarrow> c ! t \<le> c' ! t"
    using conservation_more [OF f(1) assms(3)] by blast
  let ?w = "\<lambda>c. \<Sum>t<length (s_tokens s). withheld_at (s_prices s ! t) (c ! t)"
  have w: "w = ?w c" "withheld (s_prices s) c' = Inr (?w c')"
    using f(2) withheld_value [of c "s_prices s"] withheld_value [of c' "s_prices s"] c'(2,3) assms(5) by simp_all
  have "w \<le> ?w c'" unfolding w(1) by (rule sum_mono) (use c'(4) assms(4,5) in \<open>simp add: withheld_at_mono list_all_length\<close>)
  moreover have "fee_cap (s_claimedSavings s + w) (x_notionalUsd x) FEE_CAP_SHARE_BPS FEE_CAP_NOTIONAL_BPS < w" using assms(2) f(4) by simp
  ultimately show ?thesis using fee_cap_slow [of w "?w c'"] f(3,4) c'(1) w(2) by (simp add: fee_check_def Let_def not_le)
qed

section \<open>Planning never throws\<close>

lemma placed_exposure:
  assumes "solved q inp intents quoteToken PO" "placed inp intents quoteToken PO used s"
  shows "\<exists>x. exposure_notional (s_intents s) (s_executions s) (s_tokens s) (s_prices s) = Inr x"
proof -
  have step: "\<exists>r. exposure_step (s_intents s) (s_tokens s) (s_prices s) acc e = Inr r" if e: "e \<in> set (s_executions s)" for acc e
  proof -
    have "length (s_executions s) = length used" using assms(2) by (simp add: placed_def)
    then obtain n where n: "n < length used" "e = s_executions s ! n" using e unfolding in_set_conv_nth by metis
    obtain a where a: "token_index (s_tokens s) (i_sellToken (intents ! f_index (used ! n))) = Inr a"
      using fill_tokens [OF assms(2) nth_mem [OF n(1)]] by blast
    then have "a < length (s_prices s)" using token_index_Inr(1) [OF a] assms(2) by (simp add: placed_def)
    then have "read_at (s_prices s) a = Inr (s_prices s ! a)" by simp
    then show ?thesis
      by (cases acc) (simp add: exposure_step_def n(2) placed_execution [OF assms(2) n(1)] a Let_def del: js_at_Some_iff read_at_Inr_iff)
  qed
  show ?thesis using foldE_total [OF step, where s = "(0, map (\<lambda>_. 0) (s_tokens s))"]
    by (auto simp: exposure_notional_def)
qed

lemma placed_fee:
  assumes "solved q inp intents quoteToken PO" "placed inp intents quoteToken PO used s"
  shows "\<exists>fee. fee_check s = Inr fee"
proof -
  obtain c where c: "conservation (s_intents s) (s_executions s) (s_venueCalls s) (s_tokens s) = Inr c" "length c = length (s_tokens s)"
    using placed_balances [OF assms] by blast
  have "length (s_prices s) = length (s_tokens s)" using assms(2) by (simp add: placed_def)
  then have "\<exists>w. withheld (s_prices s) c = Inr w" using withheld_value [of c "s_prices s"] c(2) by simp
  then show ?thesis using c(1) placed_exposure [OF assms] by (auto simp: fee_check_def Let_def)
qed

text \<open>What the chain answers when nothing fails: sane prices and deviations, and the exposure counters.\<close>

definition reads_answer :: "block_reads \<Rightarrow> bool" where
  "reads_answer reads \<longleftrightarrow> (\<forall>b. \<exists>v. br_sessionAt reads b = Inr v) \<and> (\<forall>v. \<exists>d. br_maxDeviationBps reads v = Inr d \<and> 0 \<le> d \<and> d \<le> 10000)
     \<and> (\<forall>t row. oracle_entry reads t = Inr row \<longrightarrow> or_healthy row \<longrightarrow> 0 < or_price row)"

definition exposure_answers :: "exposure_reads \<Rightarrow> bool" where
  "exposure_answers ex \<longleftrightarrow> (\<forall>name. \<exists>v. ex_cap ex name = Inr v) \<and> (\<forall>k. \<exists>v. ex_slot ex k = Inr v) \<and> (\<forall>d k. \<exists>v. ex_inner ex d k = Inr v)
     \<and> (\<forall>t k. \<exists>v. ex_entry ex t k = Inr v)"

lemma oracle_rows:
  "(t, r) \<in> set (foldl (\<lambda>oracle t. AList.update (lower t) (oracle_entry reads t) oracle) m ts) \<Longrightarrow>
     (t, r) \<in> set m \<or> (\<exists>u\<in>set ts. r = oracle_entry reads u)"
proof (induction ts arbitrary: m)
  case (Cons u ts)
  then show ?case using set_update_subset_insert [of "lower u" "oracle_entry reads u" m] by fastforce
qed simp

lemma read_inputs_ok:
  assumes "reads_answer reads"
  obtains inp where "read_inputs reads batchId ts block = Inr inp" "inputs_ok inp" "np_block inp = block"
proof -
  obtain v d where v: "br_sessionAt reads batchId = Inr v" "br_maxDeviationBps reads v = Inr d" "0 \<le> d" "d \<le> 10000"
    using assms unfolding reads_answer_def by metis
  let ?inp = "\<lparr>np_block = block, np_session = v, np_maxDeviationBps = d,
    np_oracle = foldl (\<lambda>oracle t. AList.update (lower t) (oracle_entry reads t) oracle) [] ts\<rparr>"
  have "case r of Inl _ \<Rightarrow> True | Inr row \<Rightarrow> or_healthy row \<longrightarrow> 0 < or_price row" if "(t, r) \<in> set (np_oracle ?inp)" for t r
    using oracle_rows [of t r reads "[]" ts] that assms by (auto simp: reads_answer_def split: sum.split)
  then have "inputs_ok ?inp" using v unfolding inputs_ok_def by auto
  then show thesis using v by (intro that [of ?inp]) (simp_all add: read_inputs_def)
qed

lemma exposure_state_total: "exposure_answers ex \<Longrightarrow> \<exists>state. exposure_state_at ex s t = Inr state"
proof -
  assume ex: "exposure_answers ex"
  have slot: "\<exists>v. slot_value ex k = Inr v" for k
    using ex unfolding exposure_answers_def slot_value_def by (metis bindE.simps(2))
  have entry: "\<exists>ys. mapE (\<lambda>t. bindE (ex_entry ex t inner) (slot_value ex)) (s_tokens s) = Inr ys" for inner
  proof (rule mapE_total)
    show "\<exists>y. bindE (ex_entry ex t inner) (slot_value ex) = Inr y" for t
      using ex slot unfolding exposure_answers_def by (metis bindE.simps(2))
  qed
  show ?thesis unfolding exposure_state_at_def Let_def using ex slot entry unfolding exposure_answers_def by (metis bindE.simps(2))
qed

text \<open>
  C20. Planning never throws: for a batch whose intents all sell a positive amount, when the node answers
  every read with something sane, the solver ends with a plan and with the answer of every check that is
  asked before it is sent.
\<close>

theorem planning_never_throws:
  assumes "batch_ok (map sg_intent signed)" "caseless q" "answers q" "reads_answer reads" "exposure_answers ex"
  shows "\<exists>plan inp pre. solve_at (Inr quote) reads q adapter batchId signed solver block profile = Inr (plan, inp) \<and> np_block inp = block
    \<and> preflight ex (sp_solution plan) inp finalizeAt = Inr pre"
proof -
  obtain inp where inp: "read_inputs reads batchId (tokens_of signed quote) block = Inr inp" "inputs_ok inp" "np_block inp = block"
    by (rule read_inputs_ok [OF assms(4)])
  obtain plan where plan: "solve q adapter batchId signed quote solver inp profile = Inr plan"
    using solve_plan_exists [OF assms(1-3) inp(2)] by blast
  obtain PO used where p: "solved q inp (map sg_intent signed) quote PO" "placed inp (map sg_intent signed) quote PO used (sp_solution plan)"
    by (rule solve_placed [OF plan assms(1,2) inp(2)])
  obtain state x fee where "exposure_state_at ex (sp_solution plan) finalizeAt = Inr state"
    "exposure_notional (s_intents (sp_solution plan)) (s_executions (sp_solution plan)) (s_tokens (sp_solution plan)) (s_prices (sp_solution plan)) = Inr x"
    "fee_check (sp_solution plan) = Inr fee"
    using exposure_state_total [OF assms(5)] placed_exposure [OF p] placed_fee [OF p] by metis
  then show ?thesis using inp plan by (simp add: solve_at_def preflight_def)
qed

section \<open>What a pass means\<close>

lemma low_32 [simp]: "(v :: int) AND 0xffffffff = v mod 2 ^ 32"
proof -
  have "(0xffffffff :: int) = mask 32" by (simp add: mask_eq_exp_minus_1)
  moreover have "v AND mask 32 = v mod 2 ^ 32" by (simp only: take_bit_eq_mask [symmetric] take_bit_eq_mod)
  ultimately show ?thesis by (simp only:)
qed

text \<open>
  C21. No exposure violation is reported exactly when the solution fits, on the day finalize lands, under
  every cap scaled for the session: its notional under the cap of a batch, what was already settled that
  day plus its notional under the global cap, counting the stored total only if the stored day is that
  day, and for each of its tokens what was settled that day plus its own part under the cap of a token.
\<close>

theorem exposure_passes_exactly:
  assumes "preflight ex s inp finalizeAt = Inr pre"
    and "ex_cap ex ''capPerBatchUsd'' = Inr batchCap" "ex_cap ex ''capPerTokenDailyUsd'' = Inr tokenCap" "ex_cap ex ''capGlobalDailyUsd'' = Inr globalCap"
    and "ex_slot ex 10 = Inr (Some index)" "ex_slot ex 11 = Inr (Some global)" "ex_inner ex (finalizeAt sdiv 86400) 12 = Inr inner"
    and "mapE (\<lambda>t. bindE (ex_entry ex t inner) (slot_value ex)) (s_tokens s) = Inr spent"
    and "exposure_notional (s_intents s) (s_executions s) (s_tokens s) (s_prices s) = Inr x"
  shows "pf_exposure pre = [] \<longleftrightarrow> x_notionalUsd x \<le> batchCap * cap_scale (np_session inp) sdiv 2
    \<and> (if index mod 2 ^ 32 = finalizeAt sdiv 86400 then global else 0) + x_notionalUsd x \<le> globalCap * cap_scale (np_session inp) sdiv 2
    \<and> (\<forall>t<length (s_tokens s). spent ! t + x_perToken x ! t \<le> tokenCap * cap_scale (np_session inp) sdiv 2)"
proof -
  let ?state = "\<lparr>capPerBatchUsd = batchCap, capPerTokenDailyUsd = tokenCap, capGlobalDailyUsd = globalCap,
    globalToday = (if index mod 2 ^ 32 = finalizeAt sdiv 86400 then global else 0), perTokenToday = spent\<rparr>"
  have "exposure_state_at ex s finalizeAt = Inr ?state"
    using assms(2-8) by (simp add: exposure_state_at_def Let_def slot_value_def SLOT_TODAY_INDEX_def SLOT_TODAY_GLOBAL_def SLOT_PER_TOKEN_ON_DAY_def)
  then have pre: "pf_exposure pre = exposure_violations x (np_session inp) ?state" using assms(1,9) by (auto simp: preflight_def)
  have len: "length (x_perToken x) = length (s_tokens s)" "length spent = length (s_tokens s)"
    using exposure_notional_sum(2) [OF assms(9)] mapE_Inr_length [OF assms(8)] by simp_all
  have each: "concat (map (\<lambda>(t, usd). let tot = (case js_at spent (int t) of None \<Rightarrow> 0 | Some v \<Rightarrow> v) + usd in if tot > cap then [OverToken t tot cap] else [])
      (enumerate 0 (x_perToken x))) = [] \<longleftrightarrow> (\<forall>t<length (s_tokens s). spent ! t + x_perToken x ! t \<le> cap)" for cap
  proof -
    have "js_at spent (int t) = Some (spent ! t)" if "t < length (s_tokens s)" for t using that len by simp
    then have one: "(case (t, x_perToken x ! t) of (t, usd) \<Rightarrow> let tot = (case js_at spent (int t) of None \<Rightarrow> 0 | Some v \<Rightarrow> v) + usd in
        if tot > cap then [OverToken t tot cap] else []) = [] \<longleftrightarrow> spent ! t + x_perToken x ! t \<le> cap" if "t < length (s_tokens s)" for t
      using that by (simp add: Let_def not_less del: js_at_Some_iff)
    have all: "(\<forall>p\<in>set (enumerate 0 (x_perToken x)). P p) \<longleftrightarrow> (\<forall>t<length (s_tokens s). P (t, x_perToken x ! t))" for P
      using len by (auto simp: in_set_enumerate_eq)
    show ?thesis unfolding concat_eq_Nil_conv set_map ball_simps all using one by simp
  qed
  show ?thesis unfolding pre exposure_violations_def Let_def append_is_Nil_conv exposure_state.select_convs each [unfolded Let_def]
    by (simp add: not_less)
qed

text \<open>
  A solver starts exactly when the registry counts it: its bond is at least the minimum, no unbond is
  requested, it is active, its balance pays three hours of gas at today's price and its address has no code.
\<close>

theorem ready_exactly:
  "assert_ready r = Inr r \<longleftrightarrow> rd_minBond r \<le> rd_bonded r \<and> rd_unbondAvailableAt r = 0 \<and> rd_active r
     \<and> 720000000 * rd_gasPrice r \<le> rd_balance r \<and> rd_code r \<in> {None, Some [], Some ''0x''}"
  by (auto simp: assert_ready_def readiness_def Let_def min_gas_balance_def GAS_PER_TX_def TX_PER_HOUR_def HOURS_OF_GAS_def bare_code_def
      not_less mult.commute split: option.splits if_splits)

section \<open>Witnesses\<close>

theorem solver_reads_admitted_intents_witness:
  "\<exists>body. read_feed (\<lambda>b. Inr (Body \<lparr>bb_frozen = True, bb_intents = [(canonical_fields lower (sample_decoded sample_upper), ''0x1b'')]\<rparr>)) 60
     = Inr (body, [\<lparr>sg_intent = addressed lower (sample_decoded sample_upper), sg_signature = ''0x1b''\<rparr>])"
proof -
  have "list_all (\<lambda>(i, signature). \<exists>payload. validate_intent_payload (isAddress sample_viem) payload = Inr i) [(sample_decoded sample_upper, ''0x1b'')]"
    using sample_validates by auto
  from solver_reads_admitted_intents [OF this, of "\<lambda>b. Inr (Body \<lparr>bb_frozen = True, bb_intents = [(canonical_fields lower (sample_decoded sample_upper), ''0x1b'')]\<rparr>)" 60 True lower]
  show ?thesis by simp
qed

definition overpaid :: "int \<Rightarrow> venue_call list" where
  "overpaid n = [\<lparr>v_adapter = ''0x9'', v_tokenIn = ''0xb'', v_tokenOut = ''0xa'', v_amountIn = 0, v_minOut = n\<rparr>]"

theorem fee_refusal_is_final_witness:
  "\<exists>fee'. fee_check (sp_solution sample_plan\<lparr>s_venueCalls := overpaid 7000\<rparr>) = Inr fee' \<and> 5000 \<le> fe_withheldUsd fee' \<and> \<not> fe_ok fee'"
proof -
  let ?s = "sp_solution sample_plan\<lparr>s_venueCalls := overpaid 5000\<rparr>"
  have "case fee_check ?s of Inr fee \<Rightarrow> fe_withheldUsd fee = 5000 \<and> \<not> fe_ok fee | Inl _ \<Rightarrow> False" by code_simp
  then obtain fee where fee: "fee_check ?s = Inr fee" "fe_withheldUsd fee = 5000" "\<not> fe_ok fee" by (auto split: sum.splits)
  have "list_all2 returns_more (s_venueCalls ?s) (overpaid 7000)" by (simp add: overpaid_def returns_more_def)
  moreover have "list_all (\<lambda>p. 0 \<le> p) (s_prices ?s)" "length (s_prices ?s) = length (s_tokens ?s)" by (simp_all add: sample_plan_def)
  ultimately show ?thesis using fee_refusal_is_final [OF fee(1,3)] fee(2) by simp
qed

definition sample_reads :: block_reads where
  "sample_reads = \<lparr>br_sessionAt = (\<lambda>_. Inr 3), br_maxDeviationBps = (\<lambda>_. Inr 200),
     br_refPrice = (\<lambda>t. Inr (if lower t = ''0xa'' then 10 ^ 18 else 10 ^ 21, True)), br_decimals = (\<lambda>_. Inr 18)\<rparr>"

definition sample_exposure :: "int \<Rightarrow> exposure_reads" where
  "sample_exposure today = \<lparr>ex_cap = (\<lambda>_. Inr (10 ^ 22)), ex_slot = (\<lambda>k. Inr (Some (if k = 10 then today else if k = 11 then 10 ^ 22 else 5))),
     ex_inner = (\<lambda>d k. Inr (d + 100)), ex_entry = (\<lambda>t k. Inr (k + 1))\<rparr>"

lemma sample_answers: "answers sample_venue" "reads_answer sample_reads" "exposure_answers (sample_exposure d)"
  by (simp add: answers_def sample_venue_def, auto simp: reads_answer_def sample_reads_def oracle_entry_def WAD_def signed_divide_int_def exposure_answers_def
      sample_exposure_def)

theorem planning_never_throws_witness:
  "\<exists>plan inp pre. solve_at (Inr ''0xa'') sample_reads sample_venue ''0x9'' 60 sample_signed ''0x7'' 5 Profile_b = Inr (plan, inp) \<and> np_block inp = 5
    \<and> preflight (sample_exposure 0) (sp_solution plan) inp 71 = Inr pre"
  by (rule planning_never_throws [OF sample_batch(1,2) sample_answers])

theorem exposure_passes_exactly_witness:
  "case preflight (sample_exposure (2 ^ 40 + 1)) (sp_solution sample_plan) sample_inputs 71 of Inr pre \<Rightarrow> pf_exposure pre = [] | Inl _ \<Rightarrow> False"
proof -
  let ?s = "sp_solution sample_plan" and ?ex = "sample_exposure (2 ^ 40 + 1)"
  have "case preflight ?ex ?s sample_inputs 71 of Inr pre \<Rightarrow> True | Inl _ \<Rightarrow> False" by code_simp
  then obtain pre where pre: "preflight ?ex ?s sample_inputs 71 = Inr pre" by (auto split: sum.splits)
  have "case exposure_notional (s_intents ?s) (s_executions ?s) (s_tokens ?s) (s_prices ?s) of
      Inr x \<Rightarrow> x_notionalUsd x = 20000 \<and> x_perToken x = [10000, 10000] | Inl _ \<Rightarrow> False" by code_simp
  then obtain x where x: "exposure_notional (s_intents ?s) (s_executions ?s) (s_tokens ?s) (s_prices ?s) = Inr x"
    "x_notionalUsd x = 20000" "x_perToken x = [10000, 10000]" by (auto split: sum.splits)
  have len: "length (s_tokens ?s) = 2" by (simp add: sample_plan_def)
  have spent: "mapE (\<lambda>t. bindE (ex_entry ?ex t 100) (slot_value ?ex)) (s_tokens ?s) = Inr [5, 5]"
    by (simp add: sample_plan_def sample_exposure_def slot_value_def)
  have day: "(71 :: int) sdiv 86400 = 0" by (simp add: signed_divide_int_def)
  have "pf_exposure pre = []"
    using exposure_passes_exactly [OF pre _ _ _ _ _ _ spent x(1), of "10 ^ 22" "10 ^ 22" "10 ^ 22" "2 ^ 40 + 1" "10 ^ 22"]
    by (auto simp: sample_exposure_def x(2,3) len less_2_cases_iff cap_scale_def sample_inputs_def signed_divide_int_def day)
  then show ?thesis using pre by simp
qed

theorem too_little_gas:
  "readiness \<lparr>rd_active = True, rd_bonded = 500, rd_unbondAvailableAt = 0, rd_minBond = 500, rd_balance = 10, rd_code = None, rd_gasPrice = 1\<rparr>
   = [UnderGas 10 720000000]"
  by code_simp

end
