(* ===== verification/SolverStore.thy ===== *)
theory SolverStore
  imports Preflight
begin

text \<open>
  solver/src/store.ts: the record of every solution the solver submits, one file per batch, written
  through a temporary file and a rename, and read back only if its hash matches its bytes. The file
  system is the list of its files; JSON, the ABI encoding and keccak are parameters.
\<close>

section \<open>Records\<close>

datatype bstatus = Built | Submitted | Best | NotBest | Finalized | FinalizedPassthrough | FinalizedByOther | FinalizeReverted | Abandoned

text \<open>\<open>sr_solution\<close> is none in a file that carries no string there; the store itself always writes one.\<close>

record stored =
  sr_batchId :: string
  sr_status :: bstatus
  sr_solution :: "hex option"
  sr_hash :: hex
  sr_submitTx :: "hex option"
  sr_finalizeTx :: "hex option"
  sr_reason :: "string option"
  sr_updatedAt :: string

text \<open>
  \<open>cd_render\<close> and \<open>cd_parse\<close> are \<^verbatim>\<open>JSON.stringify\<close> and \<^verbatim>\<open>JSON.parse\<close> of a record, the second with the
  message it throws or none for the text \<^verbatim>\<open>null\<close>; \<open>cd_keccak\<close> throws on bytes that are not hexadecimal.
\<close>

record codec =
  cd_render :: "stored \<Rightarrow> string"
  cd_parse :: "string \<Rightarrow> string + stored option"
  cd_encode :: "solution \<Rightarrow> hex"
  cd_decode :: "hex \<Rightarrow> string + solution"
  cd_keccak :: "hex \<Rightarrow> js_error + hex"

type_synonym files = "(string \<times> string) list"

section \<open>Files\<close>

definition record_path :: "string \<Rightarrow> string" where
  "record_path batchId = batchId @ ''.json''"

definition tmp_path :: "string \<Rightarrow> string \<Rightarrow> string" where
  "tmp_path pid batchId = record_path batchId @ ''.'' @ pid @ ''.tmp''"

definition rename_file :: "string \<Rightarrow> string \<Rightarrow> files \<Rightarrow> files" where
  "rename_file a b fs = (case map_of fs a of None \<Rightarrow> fs | Some text \<Rightarrow> AList.update b text (AList.delete a fs))"

datatype file_op = Write_file string string | Rename_file string string

fun run_op :: "file_op \<Rightarrow> files \<Rightarrow> files" where
  "run_op (Write_file path text) fs = AList.update path text fs"
| "run_op (Rename_file a b) fs = rename_file a b fs"

text \<open>The calls of \<^verbatim>\<open>write\<close> that change the disk, in their order.\<close>

definition write_ops :: "codec \<Rightarrow> string \<Rightarrow> stored \<Rightarrow> file_op list" where
  "write_ops cd pid rec =
     (let target = record_path (sr_batchId rec); tmp = tmp_path pid (sr_batchId rec)
      in [Write_file tmp (cd_render cd rec), Rename_file tmp target])"

definition write_record :: "codec \<Rightarrow> string \<Rightarrow> stored \<Rightarrow> files \<Rightarrow> files" where
  "write_record cd pid rec fs = fold run_op (write_ops cd pid rec) fs"

definition read_record :: "codec \<Rightarrow> files \<Rightarrow> string \<Rightarrow> js_error + (string + stored \<times> solution)" where
  "read_record cd fs batchId =
     (case map_of fs (record_path batchId) of
        None \<Rightarrow> Inr (Inl ''unreadable record, ENOENT: no such file or directory'')
      | Some text \<Rightarrow> (case cd_parse cd text of
          Inl m \<Rightarrow> Inr (Inl (''unreadable record, '' @ first_line m))
        | Inr None \<Rightarrow> Inl TypeError
        | Inr (Some rec) \<Rightarrow> (case sr_solution rec of
            None \<Rightarrow> Inr (Inl ''record carries no solution bytes'')
          | Some bytes \<Rightarrow>
              if take 2 bytes \<noteq> ''0x'' then Inr (Inl ''record carries no solution bytes'')
              else bindE (cd_keccak cd bytes) (\<lambda>hash.
                if hash \<noteq> sr_hash rec
                then Inr (Inl (''stored hash '' @ sr_hash rec @ '' does not match the stored bytes, which hash to '' @ hash))
                else case cd_decode cd bytes of
                    Inl m \<Rightarrow> Inr (Inl (''stored bytes do not decode as a Solution, '' @ first_line m))
                  | Inr s \<Rightarrow>
                      if decimal (s_batchId s) \<noteq> batchId
                      then Inr (Inl (''record for '' @ batchId @ '' holds a solution for batch '' @ decimal (s_batchId s)))
                      else Inr (Inr (rec, s))))))"

definition store_built :: "codec \<Rightarrow> string \<Rightarrow> string \<Rightarrow> solution \<Rightarrow> files \<Rightarrow> js_error + files" where
  "store_built cd pid stamp s fs =
     bindE (cd_keccak cd (cd_encode cd s)) (\<lambda>hash.
       Inr (write_record cd pid \<lparr>sr_batchId = decimal (s_batchId s), sr_status = Built, sr_solution = Some (cd_encode cd s), sr_hash = hash,
              sr_submitTx = None, sr_finalizeTx = None, sr_reason = None, sr_updatedAt = stamp\<rparr> fs))"

definition store_update :: "codec \<Rightarrow> string \<Rightarrow> string \<Rightarrow> string \<Rightarrow> (stored \<Rightarrow> stored) \<Rightarrow> files \<Rightarrow> js_error + files" where
  "store_update cd pid stamp batchId patch fs =
     bindE (read_record cd fs batchId) (\<lambda>current.
       case current of
         Inl reason \<Rightarrow> Inl (Thrown (''cannot update batch '' @ batchId @ '': '' @ reason))
       | Inr (rec, s) \<Rightarrow> Inr (write_record cd pid ((patch rec)\<lparr>sr_updatedAt := stamp\<rparr>) fs))"

text \<open>The pattern \<^verbatim>\<open>/^[0-9]+\.json$/\<close>.\<close>

definition is_record_name :: "string \<Rightarrow> bool" where
  "is_record_name f \<longleftrightarrow> (let id = take (length f - 5) f in drop (length f - 5) f = ''.json'' \<and> id \<noteq> [] \<and> list_all is_digit id)"

definition batch_ids :: "files \<Rightarrow> string list" where
  "batch_ids fs = map (\<lambda>f. take (length f - 5) f) (filter is_record_name (map fst fs))"

section \<open>A crash in the middle of a write\<close>

text \<open>
  What a crash can leave of a sequence of calls: the effect of those before it, and of a write it cuts
  short a file with any text at all. A rename happens whole or not at all.
\<close>

inductive crashed :: "file_op list \<Rightarrow> files \<Rightarrow> files \<Rightarrow> bool" where
  stopped: "crashed ops fs fs"
| torn: "crashed (Write_file path text # ops) fs (AList.update path part fs)"
| went_on: "crashed ops (run_op op fs) fs' \<Longrightarrow> crashed (op # ops) fs fs'"

inductive_cases crashed_ConsE: "crashed (op # ops) fs fs'"
inductive_cases crashed_NilE: "crashed [] fs fs'"

lemma crashed_write:
  assumes "crashed (write_ops cd pid rec) fs fs'"
  obtains "fs' = fs" | part where "fs' = AList.update (tmp_path pid (sr_batchId rec)) part fs" | "fs' = write_record cd pid rec fs"
  using assms unfolding write_ops_def write_record_def Let_def
  by (auto elim!: crashed_ConsE crashed_NilE)

lemma tmp_not_record: "tmp_path pid b \<noteq> record_path c" "\<not> is_record_name (tmp_path pid b)"
proof -
  have last: "last (tmp_path pid b) = CHR ''p''" by (simp add: tmp_path_def)
  have "last (record_path c) = CHR ''n''" by (simp add: record_path_def)
  then show "tmp_path pid b \<noteq> record_path c" using last by auto
  show "\<not> is_record_name (tmp_path pid b)"
  proof
    let ?f = "tmp_path pid b"
    assume "is_record_name ?f"
    then have "?f = take (length ?f - 5) ?f @ ''.json''" unfolding is_record_name_def Let_def by (metis append_take_drop_id)
    then have "last ?f = CHR ''n''" by (metis last_appendR last.simps list.distinct(1))
    then show False using last by simp
  qed
qed

lemma map_of_written: "map_of (write_record cd pid rec fs) (record_path b) =
    (if b = sr_batchId rec then Some (cd_render cd rec) else map_of fs (record_path b))"
  using tmp_not_record(1) [of pid "sr_batchId rec" b]
  by (auto simp: write_record_def write_ops_def Let_def rename_file_def record_path_def)

lemma read_written_other: "b \<noteq> sr_batchId rec \<Longrightarrow> read_record cd (write_record cd pid rec fs) b = read_record cd fs b"
  by (simp add: read_record_def map_of_written)

lemma read_torn: "read_record cd (AList.update (tmp_path pid c) text fs) b = read_record cd fs b"
  using tmp_not_record(1) [of pid c b] by (auto simp: read_record_def)

section \<open>The bytes survive\<close>

text \<open>What the store relies on: JSON and the ABI read back what they wrote, and keccak takes the encoding.\<close>

definition codec_ok :: "codec \<Rightarrow> solution \<Rightarrow> bool" where
  "codec_ok cd s \<longleftrightarrow> (\<forall>rec. cd_parse cd (cd_render cd rec) = Inr (Some rec)) \<and> take 2 (cd_encode cd s) = ''0x''
     \<and> cd_decode cd (cd_encode cd s) = Inr s \<and> (\<exists>h. cd_keccak cd (cd_encode cd s) = Inr h)"

text \<open>The store can hand the finalizer the exact bytes that were submitted.\<close>

definition keeps :: "codec \<Rightarrow> files \<Rightarrow> solution \<Rightarrow> stored \<Rightarrow> bool" where
  "keeps cd fs s rec \<longleftrightarrow> read_record cd fs (decimal (s_batchId s)) = Inr (Inr (rec, s)) \<and> sr_solution rec = Some (cd_encode cd s)
     \<and> cd_keccak cd (cd_encode cd s) = Inr (sr_hash rec) \<and> sr_batchId rec = decimal (s_batchId s)"

lemma write_keeps:
  assumes "codec_ok cd s" "sr_solution rec = Some (cd_encode cd s)" "cd_keccak cd (cd_encode cd s) = Inr (sr_hash rec)"
    "sr_batchId rec = decimal (s_batchId s)"
  shows "keeps cd (write_record cd pid rec fs) s rec"
  using assms by (simp add: keeps_def read_record_def map_of_written codec_ok_def)

lemma built_keeps:
  assumes "codec_ok cd s"
  obtains fs' rec where "store_built cd pid stamp s fs = Inr fs'" "keeps cd fs' s rec" "sr_status rec = Built" "sr_submitTx rec = None"
    "\<And>b. b \<noteq> decimal (s_batchId s) \<Longrightarrow> read_record cd fs' b = read_record cd fs b"
proof -
  obtain h where h: "cd_keccak cd (cd_encode cd s) = Inr h" using assms by (auto simp: codec_ok_def)
  let ?rec = "\<lparr>sr_batchId = decimal (s_batchId s), sr_status = Built, sr_solution = Some (cd_encode cd s), sr_hash = h,
              sr_submitTx = None, sr_finalizeTx = None, sr_reason = None, sr_updatedAt = stamp\<rparr>"
  have "keeps cd (write_record cd pid ?rec fs) s ?rec" by (rule write_keeps [OF assms]) (simp_all add: h)
  then show thesis using h by (intro that [of "write_record cd pid ?rec fs" ?rec]) (simp_all add: store_built_def read_written_other)
qed

text \<open>A patch as the code makes one: of the status, the transactions and the reason.\<close>

definition patches :: "(stored \<Rightarrow> stored) \<Rightarrow> bool" where
  "patches p \<longleftrightarrow> (\<forall>rec. sr_batchId (p rec) = sr_batchId rec \<and> sr_solution (p rec) = sr_solution rec \<and> sr_hash (p rec) = sr_hash rec)"

lemma update_keeps:
  assumes "codec_ok cd s" "keeps cd fs s rec" "patches p"
  obtains fs' where "store_update cd pid stamp (decimal (s_batchId s)) p fs = Inr fs'" "keeps cd fs' s ((p rec)\<lparr>sr_updatedAt := stamp\<rparr>)"
    "\<And>b. b \<noteq> decimal (s_batchId s) \<Longrightarrow> read_record cd fs' b = read_record cd fs b"
proof -
  let ?rec = "(p rec)\<lparr>sr_updatedAt := stamp\<rparr>"
  have "keeps cd (write_record cd pid ?rec fs) s ?rec"
    by (rule write_keeps [OF assms(1)]) (use assms(2,3) in \<open>simp_all add: keeps_def patches_def\<close>)
  then show thesis using assms(2,3)
    by (intro that [of "write_record cd pid ?rec fs"]) (simp_all add: store_update_def keeps_def read_written_other patches_def)
qed

lemma batch_ids_file: "b \<in> set (batch_ids fs) \<longleftrightarrow> b \<noteq> [] \<and> list_all is_digit b \<and> record_path b \<in> fst ` set fs"
proof -
  have name: "is_record_name f \<longleftrightarrow> (\<exists>c. f = record_path c \<and> c \<noteq> [] \<and> list_all is_digit c)" for f
  proof
    assume n: "is_record_name f"
    then have "f = take (length f - 5) f @ ''.json''" unfolding is_record_name_def Let_def by (metis append_take_drop_id)
    then show "\<exists>c. f = record_path c \<and> c \<noteq> [] \<and> list_all is_digit c" using n unfolding record_path_def is_record_name_def Let_def by blast
  qed (auto simp: is_record_name_def record_path_def Let_def)
  have cut: "take (length (record_path c) - 5) (record_path c) = c" for c by (simp add: record_path_def)
  have inj: "record_path b = record_path c \<longleftrightarrow> b = c" for b c by (simp add: record_path_def)
  show ?thesis unfolding batch_ids_def set_map set_filter name by (auto simp: cut inj image_iff) (metis cut fst_conv)+
qed

text \<open>
  C22. A crash in the middle of a write loses nothing and leaves no half of a record: for every batch, a
  restart reads either exactly what was there before or, for the batch being written, the whole new
  record with its solution, and it lists no batch that was neither there nor being written.
\<close>

theorem crash_leaves_whole_records:
  assumes "crashed (write_ops cd pid rec) fs fs'" "codec_ok cd s"
    and "sr_solution rec = Some (cd_encode cd s)" "cd_keccak cd (cd_encode cd s) = Inr (sr_hash rec)" "sr_batchId rec = decimal (s_batchId s)"
  shows "(read_record cd fs' b = read_record cd fs b \<or> b = sr_batchId rec \<and> read_record cd fs' b = Inr (Inr (rec, s)))
    \<and> (b \<in> set (batch_ids fs') \<longrightarrow> b \<in> set (batch_ids fs) \<or> b = sr_batchId rec)"
  using assms(1)
proof (rule crashed_write)
  assume f: "fs' = write_record cd pid rec fs"
  have "read_record cd fs' (sr_batchId rec) = Inr (Inr (rec, s))"
    using write_keeps [OF assms(2-5)] assms(5) by (simp add: f keeps_def)
  moreover have "record_path b \<in> fst ` set fs \<or> b = sr_batchId rec" if "record_path b \<in> fst ` set fs'"
    using that by (metis f map_of_written map_of_eq_None_iff)
  ultimately show ?thesis using read_written_other [of b rec cd pid fs] by (auto simp: f batch_ids_file)
next
  fix part assume f: "fs' = AList.update (tmp_path pid (sr_batchId rec)) part fs"
  then show ?thesis using tmp_not_record(1) [of pid "sr_batchId rec" b] by (auto simp: read_torn batch_ids_file store_laws)
qed simp

section \<open>A codec\<close>

text \<open>A rendering that reads back: every character of a text follows an x, and a dot ends it.\<close>

definition put_text :: "string \<Rightarrow> string" where
  "put_text s = concat (map (\<lambda>c. [CHR ''x'', c]) s) @ ''.''"

fun take_text :: "string \<Rightarrow> string \<times> string" where
  "take_text (a # b # rest) = (if a = CHR ''x'' then (case take_text rest of (s, r) \<Rightarrow> (b # s, r)) else ([], b # rest))"
| "take_text s = ([], [])"

fun put_option :: "string option \<Rightarrow> string" where
  "put_option None = put_text ''n''"
| "put_option (Some s) = put_text (CHR ''s'' # s)"

fun option_of :: "string \<Rightarrow> string option" where
  "option_of (a # s) = (if a = CHR ''s'' then Some s else None)"
| "option_of [] = None"

definition statuses :: "bstatus list" where
  "statuses = [Built, Submitted, Best, NotBest, Finalized, FinalizedPassthrough, FinalizedByOther, FinalizeReverted, Abandoned]"

definition sample_render :: "stored \<Rightarrow> string" where
  "sample_render r = concat (map put_text [sr_batchId r, replicate (length (takeWhile (\<lambda>s. s \<noteq> sr_status r) statuses)) CHR ''i'', sr_hash r, sr_updatedAt r])
     @ concat (map put_option [sr_solution r, sr_submitTx r, sr_finalizeTx r, sr_reason r]) @ ''.''"

definition sample_parse :: "string \<Rightarrow> string + stored option" where
  "sample_parse t =
     (let (b, t) = take_text t; (st, t) = take_text t; (h, t) = take_text t; (u, t) = take_text t;
          (so, t) = take_text t; (su, t) = take_text t; (fi, t) = take_text t; (re, t) = take_text t
      in if t = [] then Inl ''Unexpected end of JSON input''
         else Inr (Some \<lparr>sr_batchId = b, sr_status = statuses ! length st, sr_solution = option_of so, sr_hash = h, sr_submitTx = option_of su,
                sr_finalizeTx = option_of fi, sr_reason = option_of re, sr_updatedAt = u\<rparr>))"

definition sample_codec :: codec where
  "sample_codec = \<lparr>cd_render = sample_render, cd_parse = sample_parse, cd_encode = (\<lambda>s. ''0xab''), cd_decode = (\<lambda>h. Inr (sp_solution sample_plan)),
     cd_keccak = (\<lambda>h. if list_all (\<lambda>c. c \<in> set ''0123456789abcdefx'') h then Inr (h @ ''f'') else Inl (Thrown ''Invalid byte sequence''))\<rparr>"

lemma take_put: "r \<noteq> [] \<Longrightarrow> take_text (put_text s @ r) = (s, r)"
proof -
  assume r: "r \<noteq> []"
  have "take_text (concat (map (\<lambda>c. [CHR ''x'', c]) s) @ CHR ''.'' # r) = (s, r)"
    using r by (induction s) (cases r, auto)
  then show ?thesis by (simp add: put_text_def)
qed

lemma take_put_option: "r \<noteq> [] \<Longrightarrow> \<exists>s. take_text (put_option v @ r) = (s, r) \<and> option_of s = v"
  by (cases v) (simp_all add: take_put)

lemma sample_codec_ok: "codec_ok sample_codec (sp_solution sample_plan)"
proof -
  have ne: "put_text s \<noteq> []" "put_option v \<noteq> []" for s v by (simp add: put_text_def) (cases v, simp_all add: put_text_def)
  have st: "statuses ! length (replicate (length (takeWhile (\<lambda>s. s \<noteq> x) statuses)) CHR ''i'') = x" for x
    by (cases x) (simp_all add: statuses_def)
  have "sample_parse (sample_render r) = Inr (Some r)" for r
  proof -
    obtain a b c d where o: "take_text (put_option (sr_solution r) @ put_option (sr_submitTx r) @ put_option (sr_finalizeTx r) @ put_option (sr_reason r) @ ''.'')
        = (a, put_option (sr_submitTx r) @ put_option (sr_finalizeTx r) @ put_option (sr_reason r) @ ''.'')" "option_of a = sr_solution r"
      "take_text (put_option (sr_submitTx r) @ put_option (sr_finalizeTx r) @ put_option (sr_reason r) @ ''.'')
        = (b, put_option (sr_finalizeTx r) @ put_option (sr_reason r) @ ''.'')" "option_of b = sr_submitTx r"
      "take_text (put_option (sr_finalizeTx r) @ put_option (sr_reason r) @ ''.'') = (c, put_option (sr_reason r) @ ''.'')" "option_of c = sr_finalizeTx r"
      "take_text (put_option (sr_reason r) @ ''.'') = (d, ''.'')" "option_of d = sr_reason r"
      using take_put_option ne by (metis append_is_Nil_conv list.distinct(1))
    show ?thesis by (simp add: sample_parse_def sample_render_def take_put ne o st [simplified])
  qed
  moreover have "cd_keccak sample_codec ''0xab'' = Inr ''0xabf''" by (simp add: sample_codec_def)
  ultimately show ?thesis by (simp add: codec_ok_def sample_codec_def)
qed

definition sample_record :: stored where
  "sample_record = \<lparr>sr_batchId = ''60'', sr_status = Built, sr_solution = Some ''0xab'', sr_hash = ''0xabf'', sr_submitTx = None, sr_finalizeTx = None,
     sr_reason = None, sr_updatedAt = ''now''\<rparr>"

theorem crash_leaves_whole_records_witness:
  "read_record sample_codec (AList.update (tmp_path ''9'' ''60'') ''x6x0'' []) ''60'' = Inr (Inl ''unreadable record, ENOENT: no such file or directory'')"
proof -
  have id: "decimal (s_batchId (sp_solution sample_plan)) = ''60''" by code_simp
  have "crashed (write_ops sample_codec ''9'' sample_record) [] (AList.update (tmp_path ''9'' ''60'') ''x6x0'' [])"
    using torn [of "tmp_path ''9'' ''60''" "cd_render sample_codec sample_record" "[Rename_file (tmp_path ''9'' ''60'') (record_path ''60'')]" "[]" "''x6x0''"]
    by (simp add: write_ops_def Let_def sample_record_def)
  from crash_leaves_whole_records [OF this sample_codec_ok, of "''60''"]
  have "read_record sample_codec (AList.update (tmp_path ''9'' ''60'') ''x6x0'' []) ''60'' = read_record sample_codec [] ''60''
    \<or> read_record sample_codec (AList.update (tmp_path ''9'' ''60'') ''x6x0'' []) ''60'' = Inr (Inr (sample_record, sp_solution sample_plan))"
    by (simp add: id) (auto simp: sample_record_def sample_codec_def)
  moreover have "read_record sample_codec [] ''60'' = Inr (Inl ''unreadable record, ENOENT: no such file or directory'')" by (simp add: read_record_def)
  ultimately show ?thesis using read_torn [of sample_codec "''9''" "''60''" "''x6x0''" "[]" "''60''"] by simp
qed

text \<open>Bytes that are not hexadecimal make \<^verbatim>\<open>read\<close> throw, where every other disagreement is an answer.\<close>

lemma bad_bytes_throw:
  "read_record sample_codec (write_record sample_codec ''9'' (sample_record\<lparr>sr_solution := Some ''0xzz''\<rparr>) []) ''60'' = Inl (Thrown ''Invalid byte sequence'')"
  by code_simp

end
