(* ===== verification/Submission.thy ===== *)
theory Submission
  imports SolverStore Effects
begin

text \<open>
  solver/src/send.ts, finalize.ts and recover.ts: one solution per batch sent while its window is open,
  finalized from the bytes the store kept once the window has closed, and taken up again after a restart.
  A call of the node is a step over a world nobody describes, and answers with what it reads or with the
  error it fails with; the store is the list of its files. Log lines are left out.
\<close>

section \<open>The node and the service\<close>

definition SOLVER_SOLUTION_WINDOW :: int where "SOLVER_SOLUTION_WINDOW = 10"
definition SOLVER_FINALIZE_DEADLINE :: int where "SOLVER_FINALIZE_DEADLINE = 300"
definition RECEIPT_GRACE_SECONDS :: int where "RECEIPT_GRACE_SECONDS = 5"
definition MAX_POLL_FAILURES :: nat where "MAX_POLL_FAILURES = 40"

definition NOT_THE_BEST :: hex where
  "NOT_THE_BEST = ''0x6e6f74207468652062657374'' @ replicate 40 CHR ''0''"

text \<open>The two transactions of Settlement the solver sends, and the events of a receipt it reads.\<close>

datatype settlement_call = SubmitSolution solution | Finalize solution

datatype settlement_event = SolutionRejected "hex option" | BatchSettled int | BatchPassthrough string
  | IntentCollectionFailed address int | IntentSettled | OtherEvent

record tx_receipt =
  rc_success :: bool
  rc_block :: int
  rc_logs :: "settlement_event list"

type_synonym ('w, 'a) asked = "('w, chain_error + 'a) io"

record 'w node =
  nd_timestamp :: "('w, int) asked"
  nd_call :: "settlement_call \<Rightarrow> int option \<Rightarrow> ('w, chain_error option) io"
  nd_estimate :: "settlement_call \<Rightarrow> ('w, int) asked"
  nd_nonce :: "('w, int) asked"
  nd_send :: "settlement_call \<Rightarrow> int \<Rightarrow> int \<Rightarrow> ('w, hex) asked"
  nd_receipt :: "hex \<Rightarrow> int \<Rightarrow> ('w, tx_receipt) asked"
  nd_best :: "int \<Rightarrow> ('w, hex \<times> int \<times> address) asked"
  nd_date :: "('w, string) io"

record 'w service =
  sv_files :: files
  sv_world :: 'w

text \<open>What does not change while the process runs: its account, its codec, its process id, its error decoder.\<close>

record setting =
  st_codec :: codec
  st_pid :: string
  st_account :: address
  st_decode :: "hex \<Rightarrow> (string \<times> string list) option"

definition on_world :: "('w, 'a) io \<Rightarrow> ('w service, 'a) io" where
  "on_world m k = (case m (sv_world k) of (r, w) \<Rightarrow> (r, k\<lparr>sv_world := w\<rparr>))"

definition thrown_as :: "chain_error \<Rightarrow> js_error" where
  "thrown_as e = (case e of BaseError m _ \<Rightarrow> Thrown m | OtherError x \<Rightarrow> x)"

definition message_of :: "chain_error \<Rightarrow> string" where
  "message_of e = error_message (thrown_as e)"

text \<open>An answer nobody catches, and one whose error goes to the caller as a value.\<close>

definition awaited :: "('w, 'a) asked \<Rightarrow> ('w service, 'a) io" where
  "awaited m = bindS (on_world m) (\<lambda>r. case r of Inl e \<Rightarrow> throwS (thrown_as e) | Inr v \<Rightarrow> pureS v)"

definition orElse :: "('s, chain_error + 'a) io \<Rightarrow> ('a \<Rightarrow> ('s, chain_error + 'b) io) \<Rightarrow> ('s, chain_error + 'b) io" where
  "orElse m f = bindS m (\<lambda>r. case r of Inl e \<Rightarrow> pureS (Inl e) | Inr v \<Rightarrow> f v)"

definition on_files :: "(files \<Rightarrow> js_error + files) \<Rightarrow> ('w service, unit) io" where
  "on_files f k = (case f (sv_files k) of Inl e \<Rightarrow> (Inl e, k) | Inr fs \<Rightarrow> (Inr (), k\<lparr>sv_files := fs\<rparr>))"

definition save_built :: "setting \<Rightarrow> 'w node \<Rightarrow> solution \<Rightarrow> ('w service, unit) io" where
  "save_built cfg n s = bindS (on_world (nd_date n)) (\<lambda>stamp. on_files (store_built (st_codec cfg) (st_pid cfg) stamp s))"

definition save :: "setting \<Rightarrow> 'w node \<Rightarrow> string \<Rightarrow> (stored \<Rightarrow> stored) \<Rightarrow> ('w service, unit) io" where
  "save cfg n batchId patch = bindS (on_world (nd_date n)) (\<lambda>stamp. on_files (store_update (st_codec cfg) (st_pid cfg) stamp batchId patch))"

section \<open>Sending\<close>

definition contains :: "string \<Rightarrow> string \<Rightarrow> bool" where
  "contains w s = list_ex (\<lambda>k. take (length w) (drop k s) = w) [0..<length s + 1]"

text \<open>The pattern \<^verbatim>\<open>/nonce too low|nonce has already been used/i\<close>.\<close>

definition is_nonce_too_low :: "chain_error \<Rightarrow> bool" where
  "is_nonce_too_low e \<longleftrightarrow> contains ''nonce too low'' (lower (message_of e)) \<or> contains ''nonce has already been used'' (lower (message_of e))"

definition send_attempt :: "'w node \<Rightarrow> settlement_call \<Rightarrow> int \<Rightarrow> ('w service, chain_error + hex) io" where
  "send_attempt n d gas_limit = orElse (on_world (nd_nonce n)) (\<lambda>nonce. on_world (nd_send n d gas_limit nonce))"

text \<open>The nonce is asked for outside the try, so only a refused send is tried again, and once.\<close>

definition send_to_settlement :: "'w node \<Rightarrow> settlement_call \<Rightarrow> ('w service, chain_error + hex) io" where
  "send_to_settlement n d =
     orElse (on_world (nd_estimate n d)) (\<lambda>gas.
       let gas_limit = gas * 6 sdiv 5 in
       orElse (on_world (nd_nonce n)) (\<lambda>nonce.
         bindS (on_world (nd_send n d gas_limit nonce)) (\<lambda>r.
           case r of
             Inr tx \<Rightarrow> pureS (Inr tx)
           | Inl e \<Rightarrow> if is_nonce_too_low e then send_attempt n d gas_limit else pureS (Inl e))))"

definition replay_revert :: "setting \<Rightarrow> 'w node \<Rightarrow> tx_receipt \<Rightarrow> settlement_call \<Rightarrow> ('w service, string) io" where
  "replay_revert cfg n rc d =
     bindS (on_world (nd_call n d (Some (rc_block rc)))) (\<lambda>r.
       pureS (case r of None \<Rightarrow> ''reverted on chain, and the replay on the same block passes'' | Some e \<Rightarrow> name_revert (st_decode cfg) e))"

datatype send_outcome = WindowMissed string | SimulationReverted string | SentBest hex int | SentNotBest hex int | SubmitReverted "hex option" string

definition set_status :: "bstatus \<Rightarrow> string \<Rightarrow> stored \<Rightarrow> stored" where
  "set_status st reason rec = rec\<lparr>sr_status := st, sr_reason := Some reason\<rparr>"

definition set_submitted :: "hex \<Rightarrow> stored \<Rightarrow> stored" where
  "set_submitted tx rec = rec\<lparr>sr_status := Submitted, sr_submitTx := Some tx\<rparr>"

fun rejection :: "settlement_event list \<Rightarrow> hex option option" where
  "rejection [] = None"
| "rejection (SolutionRejected r # es) = Some r"
| "rejection (e # es) = rejection es"

definition set_mined :: "hex option option \<Rightarrow> stored \<Rightarrow> stored" where
  "set_mined rejected rec = rec\<lparr>sr_status := (if rejected = Some (Some NOT_THE_BEST) then NotBest else Best),
     sr_reason := (case rejected of None \<Rightarrow> None
       | Some reason \<Rightarrow> Some (''rejected on chain, '' @ (case reason of Some r \<Rightarrow> r | None \<Rightarrow> ''undefined'')))\<rparr>"

text \<open>From the broadcast on: what the receipt, or its absence, makes of the record.\<close>

definition await_submit :: "setting \<Rightarrow> 'w node \<Rightarrow> solution \<Rightarrow> hex \<Rightarrow> ('w service, send_outcome) io" where
  "await_submit cfg n s tx =
     (let id = decimal (s_batchId s); solveEnd = s_batchId s + SOLVER_SOLUTION_WINDOW in
      bindS (save cfg n id (set_submitted tx)) (\<lambda>_.
      bindS (awaited (nd_timestamp n)) (\<lambda>time.
        let left = solveEnd - time + RECEIPT_GRACE_SECONDS in
        bindS (on_world (nd_receipt n tx ((if left > 1 then left else 1) * 1000))) (\<lambda>r.
          case r of
            Inl e \<Rightarrow> pureS (SubmitReverted (Some tx) (''no receipt inside the window, '' @ first_line (message_of e)))
          | Inr rc \<Rightarrow>
              if \<not> rc_success rc
              then bindS (replay_revert cfg n rc (SubmitSolution s)) (\<lambda>reason.
                bindS (save cfg n id (set_status Abandoned (''submit reverted, '' @ reason))) (\<lambda>_. pureS (SubmitReverted (Some tx) reason)))
              else let rejected = rejection (rc_logs rc) in
                bindS (save cfg n id (set_mined rejected)) (\<lambda>_.
                  pureS (if rejected = Some (Some NOT_THE_BEST) then SentNotBest tx (rc_block rc) else SentBest tx (rc_block rc)))))))"

definition broadcast :: "setting \<Rightarrow> 'w node \<Rightarrow> solution \<Rightarrow> ('w service, send_outcome) io" where
  "broadcast cfg n s =
     bindS (send_to_settlement n (SubmitSolution s)) (\<lambda>r.
       case r of
         Inl e \<Rightarrow> let reason = name_revert (st_decode cfg) e in
           bindS (save cfg n (decimal (s_batchId s)) (set_status Abandoned (''submit not sent, '' @ reason))) (\<lambda>_. pureS (SubmitReverted None reason))
       | Inr tx \<Rightarrow> await_submit cfg n s tx)"

definition submit :: "setting \<Rightarrow> 'w node \<Rightarrow> solution \<Rightarrow> ('w service, send_outcome) io" where
  "submit cfg n s =
     (let solveEnd = s_batchId s + SOLVER_SOLUTION_WINDOW in
      bindS (awaited (nd_timestamp n)) (\<lambda>time.
        if time > solveEnd then pureS (WindowMissed (''chain time '' @ decimal time @ '' is past solveEnd '' @ decimal solveEnd))
        else bindS (on_world (nd_call n (SubmitSolution s) None)) (\<lambda>sim.
          case sim of
            Some e \<Rightarrow> pureS (SimulationReverted (name_revert (st_decode cfg) e))
          | None \<Rightarrow> bindS (save_built cfg n s) (\<lambda>_. broadcast cfg n s))))"

section \<open>Waiting on blocks\<close>

text \<open>What viem's block watcher calls back with, and the promise of \<^verbatim>\<open>untilBlock\<close> between two callbacks.\<close>

datatype watch_event = Block int int | PollError chain_error

datatype watcher = Pending nat | Resolved "(int \<times> int) option" | Rejected chain_error

definition until_block :: "(int \<Rightarrow> bool) \<Rightarrow> int \<Rightarrow> watcher \<Rightarrow> watch_event \<Rightarrow> watcher" where
  "until_block ready deadline w ev =
     (case w of
        Pending failures \<Rightarrow>
          (case ev of
             Block number ts \<Rightarrow> if ts > deadline then Resolved None else if ready ts then Resolved (Some (number, ts)) else Pending 0
           | PollError e \<Rightarrow> if failures + 1 < MAX_POLL_FAILURES then Pending (failures + 1) else Rejected e)
      | _ \<Rightarrow> w)"

section \<open>Finalizing\<close>

record fin_outcome =
  fo_status :: bstatus
  fo_tx :: "hex option"
  fo_block :: "int option"
  fo_result :: string
  fo_intentsSettled :: nat
  fo_savingsUsd :: int

definition nothing_sent :: "bstatus \<Rightarrow> string \<Rightarrow> fin_outcome" where
  "nothing_sent st result = \<lparr>fo_status = st, fo_tx = None, fo_block = None, fo_result = result, fo_intentsSettled = 0, fo_savingsUsd = 0\<rparr>"

datatype try_outcome = Tried bool hex int string nat int | NotTried "hex option" string

fun settled_savings :: "settlement_event list \<Rightarrow> int option" where
  "settled_savings [] = None"
| "settled_savings (BatchSettled usd # es) = Some usd"
| "settled_savings (e # es) = settled_savings es"

fun passthrough_reason :: "settlement_event list \<Rightarrow> string option" where
  "passthrough_reason [] = None"
| "passthrough_reason (BatchPassthrough r # es) = Some r"
| "passthrough_reason (e # es) = passthrough_reason es"

definition failed_collections :: "settlement_event list \<Rightarrow> string list" where
  "failed_collections es = concat (map (\<lambda>e. case e of IntentCollectionFailed owner k \<Rightarrow> [owner @ '' at intent '' @ decimal k] | _ \<Rightarrow> []) es)"

definition settlement_result :: "settlement_event list \<Rightarrow> string" where
  "settlement_result es =
     (if settled_savings es \<noteq> None then ''BatchSettled''
      else case passthrough_reason es of
          None \<Rightarrow> ''no settlement event''
        | Some reason \<Rightarrow> ''BatchPassthrough \"'' @ reason @ ''\"''
            @ (if failed_collections es \<noteq> [] then '', collection failed for '' @ joined '', '' (failed_collections es) else []))"

definition mined_outcome :: "hex \<Rightarrow> tx_receipt \<Rightarrow> try_outcome" where
  "mined_outcome tx rc =
     Tried (settled_savings (rc_logs rc) \<noteq> None) tx (rc_block rc) (settlement_result (rc_logs rc))
       (length (filter (\<lambda>e. e = IntentSettled) (rc_logs rc))) (case settled_savings (rc_logs rc) of None \<Rightarrow> 0 | Some usd \<Rightarrow> usd)"

definition try_finalize :: "setting \<Rightarrow> 'w node \<Rightarrow> solution \<Rightarrow> ('w service, try_outcome) io" where
  "try_finalize cfg n s =
     bindS (on_world (nd_call n (Finalize s) None)) (\<lambda>sim.
       case sim of
         Some e \<Rightarrow> pureS (NotTried None (name_revert (st_decode cfg) e))
       | None \<Rightarrow> bindS (send_to_settlement n (Finalize s)) (\<lambda>r.
           case r of
             Inl e \<Rightarrow> pureS (NotTried None (name_revert (st_decode cfg) e))
           | Inr tx \<Rightarrow> bindS (awaited (nd_receipt n tx 30000)) (\<lambda>rc.
               if \<not> rc_success rc
               then bindS (replay_revert cfg n rc (Finalize s)) (\<lambda>reason. pureS (NotTried (Some tx) reason))
               else pureS (mined_outcome tx rc))))"

text \<open>
  The task between two blocks: waiting for the window to close, waiting for the block after a failed
  attempt, or over, with an outcome or with an exception.
\<close>

datatype finalizer = AwaitClose nat | AwaitRetry int string nat | Over fin_outcome | Threw js_error

definition set_final :: "fin_outcome \<Rightarrow> stored \<Rightarrow> stored" where
  "set_final o' rec = rec\<lparr>sr_status := fo_status o', sr_finalizeTx := fo_tx o', sr_reason := Some (fo_result o')\<rparr>"

definition fin_done :: "setting \<Rightarrow> 'w node \<Rightarrow> solution \<Rightarrow> fin_outcome \<Rightarrow> ('w service, finalizer) io" where
  "fin_done cfg n s o' = bindS (save cfg n (decimal (s_batchId s)) (set_final o')) (\<lambda>_. pureS (Over o'))"

definition fin_deadline :: "solution \<Rightarrow> int" where
  "fin_deadline s = s_batchId s + SOLVER_SOLUTION_WINDOW + SOLVER_FINALIZE_DEADLINE"

definition fin_attempt :: "setting \<Rightarrow> 'w node \<Rightarrow> solution \<Rightarrow> bool \<Rightarrow> ('w service, finalizer) io" where
  "fin_attempt cfg n s again =
     bindS (awaited (nd_timestamp n)) (\<lambda>head.
       if head > fin_deadline s
       then fin_done cfg n s (nothing_sent Abandoned (''deadline '' @ decimal (fin_deadline s) @ '' passed before finalize was sent''))
       else bindS (try_finalize cfg n s) (\<lambda>r.
         case r of
           Tried batchSettled tx block result intentsSettled savingsUsd \<Rightarrow>
             fin_done cfg n s \<lparr>fo_status = (if batchSettled then Finalized else FinalizedPassthrough), fo_tx = Some tx, fo_block = Some block,
               fo_result = result, fo_intentsSettled = intentsSettled, fo_savingsUsd = savingsUsd\<rparr>
         | NotTried tx err \<Rightarrow>
             if take 16 err = ''AlreadyFinalized'' then fin_done cfg n s ((nothing_sent FinalizedByOther err)\<lparr>fo_tx := tx\<rparr>)
             else if again
             then fin_done cfg n s ((nothing_sent FinalizeReverted (err @ '', intents ''
                    @ joined '' '' (map (\<lambda>(k, i). decimal (int k) @ '':'' @ i_owner i) (enumerate 0 (s_intents s)))))\<lparr>fo_tx := tx\<rparr>)
             else pureS (AwaitRetry head err 0)))"

definition fin_check :: "setting \<Rightarrow> 'w node \<Rightarrow> solution \<Rightarrow> ('w service, finalizer) io" where
  "fin_check cfg n s =
     bindS (\<lambda>k. (read_record (st_codec cfg) (sv_files k) (decimal (s_batchId s)), k)) (\<lambda>stored.
       bindS (awaited (nd_best n (s_batchId s))) (\<lambda>(hash, savings, winner).
         if lower winner \<noteq> lower (st_account cfg) \<or> (case stored of Inr (rec, s') \<Rightarrow> hash \<noteq> sr_hash rec | Inl _ \<Rightarrow> False)
         then fin_done cfg n s (nothing_sent NotBest (''bestSolution names '' @ winner @ '', hash '' @ hash))
         else fin_attempt cfg n s False))"

definition fin_react :: "setting \<Rightarrow> 'w node \<Rightarrow> solution \<Rightarrow> finalizer \<Rightarrow> watch_event \<Rightarrow> ('w service, finalizer) io" where
  "fin_react cfg n s st ev =
     (case st of
        AwaitClose failures \<Rightarrow> (case until_block (\<lambda>ts. ts > s_batchId s + SOLVER_SOLUTION_WINDOW) (fin_deadline s) (Pending failures) ev of
            Pending f \<Rightarrow> pureS (AwaitClose f)
          | Rejected e \<Rightarrow> throwS (thrown_as e)
          | Resolved None \<Rightarrow> fin_done cfg n s (nothing_sent Abandoned (''no block after solveEnd '' @ decimal (s_batchId s + SOLVER_SOLUTION_WINDOW)
                @ '' before the deadline '' @ decimal (fin_deadline s)))
          | Resolved (Some b) \<Rightarrow> fin_check cfg n s)
      | AwaitRetry head err failures \<Rightarrow> (case until_block (\<lambda>ts. ts > head) (fin_deadline s) (Pending failures) ev of
            Pending f \<Rightarrow> pureS (AwaitRetry head err f)
          | Rejected e \<Rightarrow> throwS (thrown_as e)
          | Resolved None \<Rightarrow> fin_done cfg n s (nothing_sent Abandoned (''deadline '' @ decimal (fin_deadline s) @ '' passed after finalize reverted '' @ err))
          | Resolved (Some b) \<Rightarrow> fin_attempt cfg n s True)
      | _ \<Rightarrow> pureS st)"

text \<open>The task up to its next wait: an exception nobody catches ends it.\<close>

definition fin_step :: "setting \<Rightarrow> 'w node \<Rightarrow> solution \<Rightarrow> finalizer \<times> 'w service \<Rightarrow> watch_event \<Rightarrow> finalizer \<times> 'w service" where
  "fin_step cfg n s p ev = (case fin_react cfg n s (fst p) ev (snd p) of (Inr st, k) \<Rightarrow> (st, k) | (Inl e, k) \<Rightarrow> (Threw e, k))"

definition finalize_won :: "setting \<Rightarrow> 'w node \<Rightarrow> solution \<Rightarrow> watch_event list \<Rightarrow> 'w service \<Rightarrow> finalizer \<times> 'w service" where
  "finalize_won cfg n s evs k = foldl (fin_step cfg n s) (AwaitClose 0, k) evs"

section \<open>After a restart\<close>

fun status_name :: "bstatus \<Rightarrow> string" where
  "status_name Built = ''built''"
| "status_name Submitted = ''submitted''"
| "status_name Best = ''best''"
| "status_name NotBest = ''not_best''"
| "status_name Finalized = ''finalized''"
| "status_name FinalizedPassthrough = ''finalized_passthrough''"
| "status_name FinalizedByOther = ''finalized_by_other''"
| "status_name FinalizeReverted = ''finalize_reverted''"
| "status_name Abandoned = ''abandoned''"

datatype recovered = HandedOn int solution | LetGo int string

text \<open>The service reads the head with retries, then walks the files: the ones it hands on become tasks of their own.\<close>

definition let_go_reason :: "bstatus \<Rightarrow> int \<Rightarrow> int \<Rightarrow> string" where
  "let_go_reason st deadline head =
     ''found at '' @ status_name st @ '' after a restart, deadline '' @ decimal deadline @ '' already passed at chain time '' @ decimal head"

definition recover_one :: "setting \<Rightarrow> 'w node \<Rightarrow> int \<Rightarrow> string \<Rightarrow> ('w service, recovered list) io" where
  "recover_one cfg n head bid =
     bindS (\<lambda>k. (read_record (st_codec cfg) (sv_files k) bid, k)) (\<lambda>read.
       case read of
         Inl reason \<Rightarrow> pureS []
       | Inr (rec, s) \<Rightarrow>
           if sr_status rec \<notin> {Built, Submitted, Best} then pureS []
           else let batchId = decimal_value bid; deadline = batchId + SOLVER_SOLUTION_WINDOW + SOLVER_FINALIZE_DEADLINE in
             if head > deadline
             then let result = let_go_reason (sr_status rec) deadline head in
               bindS (save cfg n bid (set_status Abandoned result)) (\<lambda>_. pureS [LetGo batchId result])
             else pureS [HandedOn batchId s])"

definition recover :: "setting \<Rightarrow> 'w node \<Rightarrow> ('w service, recovered list) io" where
  "recover cfg n =
     bindS (awaited (nd_timestamp n)) (\<lambda>head.
       bindS (getS (\<lambda>k. batch_ids (sv_files k))) (\<lambda>ids.
         bindS (mapS (recover_one cfg n head) ids) (\<lambda>rs. pureS (concat rs))))"

section \<open>A node that remembers what it was asked\<close>

text \<open>The heads and the winners it answered, every transaction handed to it and the ones it took.\<close>

datatype send_event = Head int | Named hex address | Sending settlement_call | Taken settlement_call

definition note_head :: "js_error + (chain_error + int) \<Rightarrow> send_event list" where
  "note_head r = (case r of Inr (Inr t) \<Rightarrow> [Head t] | _ \<Rightarrow> [])"

definition note_best :: "js_error + (chain_error + (hex \<times> int \<times> address)) \<Rightarrow> send_event list" where
  "note_best r = (case r of Inr (Inr (h, u, w)) \<Rightarrow> [Named h w] | _ \<Rightarrow> [])"

definition note_taken :: "settlement_call \<Rightarrow> js_error + (chain_error + hex) \<Rightarrow> send_event list" where
  "note_taken d r = Sending d # (case r of Inr (Inr tx) \<Rightarrow> [Taken d] | _ \<Rightarrow> [])"

definition watched :: "'w node \<Rightarrow> ('w \<times> send_event list) node" where
  "watched n =
     \<lparr>nd_timestamp = noting note_head (nd_timestamp n), nd_call = (\<lambda>d b. beside (nd_call n d b)), nd_estimate = (\<lambda>d. beside (nd_estimate n d)),
      nd_nonce = beside (nd_nonce n), nd_send = (\<lambda>d g x. noting (note_taken d) (nd_send n d g x)), nd_receipt = (\<lambda>tx t. beside (nd_receipt n tx t)),
      nd_best = (\<lambda>b. noting note_best (nd_best n b)), nd_date = beside (nd_date n)\<rparr>"

lemma watched_simps [simp]:
  "nd_timestamp (watched n) = noting note_head (nd_timestamp n)" "nd_call (watched n) d blk = beside (nd_call n d blk)"
  "nd_estimate (watched n) d = beside (nd_estimate n d)" "nd_nonce (watched n) = beside (nd_nonce n)"
  "nd_send (watched n) d g x = noting (note_taken d) (nd_send n d g x)" "nd_receipt (watched n) tx t = beside (nd_receipt n tx t)"
  "nd_best (watched n) b = noting note_best (nd_best n b)" "nd_date (watched n) = beside (nd_date n)"
  by (simp_all add: watched_def)

definition asked_of :: "('w \<times> send_event list) service \<Rightarrow> send_event list" where
  "asked_of k = snd (sv_world k)"

definition mute :: "('w \<times> send_event list) service \<Rightarrow> ('w \<times> send_event list) service \<Rightarrow> bool" where
  "mute k k' \<longleftrightarrow> asked_of k' = asked_of k \<and> sv_files k' = sv_files k"

interpretation muted: progress mute
  by unfold_locales (auto simp: mute_def)

lemma mute_read: "moves mute (on_world (beside m))"
  by (auto simp: moves_def on_world_def beside_def mute_def asked_of_def split: prod.split)

lemma mute_awaited: "moves mute (awaited (beside m))"
  unfolding awaited_def by (auto intro!: muted.moves_bind mute_read muted.moves_quiet split: sum.split)

lemma noted:
  assumes "on_world (noting note m) k = (r, k')"
  shows "asked_of k' = asked_of k @ note r" "sv_files k' = sv_files k"
  using assms by (auto simp: on_world_def noting_def asked_of_def split: prod.splits)

lemma noted_awaited:
  assumes "awaited (noting note m) k = (r, k')"
  obtains a where "asked_of k' = asked_of k @ note a" "sv_files k' = sv_files k" "\<forall>v. r = Inr v \<longleftrightarrow> a = Inr (Inr v)"
proof -
  obtain a k1 where a: "on_world (noting note m) k = (a, k1)" by (cases "on_world (noting note m) k")
  then have "(case a of Inl e \<Rightarrow> (Inl e, k1) | Inr (Inl e) \<Rightarrow> (Inl (thrown_as e), k1) | Inr (Inr v) \<Rightarrow> (Inr v, k1)) = (r, k')"
    using assms by (simp add: awaited_def bindS_def) (auto simp: io_simps split: sum.splits)
  then have "k' = k1" "\<forall>v. r = Inr v \<longleftrightarrow> a = Inr (Inr v)" by (auto split: sum.splits)
  then show thesis using noted [OF a] that by blast
qed

lemma on_files_run: "on_files f k = (r, k') \<Longrightarrow> asked_of k' = asked_of k \<and> (r = Inr () \<or> sv_files k' = sv_files k)
    \<and> (r = Inr () \<longrightarrow> f (sv_files k) = Inr (sv_files k'))"
  by (auto simp: on_files_def asked_of_def split: sum.splits)

lemma save_run:
  assumes "save cfg (watched n) b p k = (r, k')"
  shows "asked_of k' = asked_of k" "r \<noteq> Inr () \<Longrightarrow> sv_files k' = sv_files k"
    "r = Inr () \<Longrightarrow> \<exists>stamp. store_update (st_codec cfg) (st_pid cfg) stamp b p (sv_files k) = Inr (sv_files k')"
proof -
  obtain r1 k1 where d: "on_world (beside (nd_date n)) k = (r1, k1)" by (cases "on_world (beside (nd_date n)) k")
  have m: "mute k k1" using movesD [OF mute_read d] .
  have "(case r1 of Inl e \<Rightarrow> (Inl e, k1) | Inr stamp \<Rightarrow> on_files (store_update (st_codec cfg) (st_pid cfg) stamp b p) k1) = (r, k')"
    using assms d by (simp add: save_def bindS_def split: sum.splits)
  then have "asked_of k' = asked_of k1 \<and> (r \<noteq> Inr () \<longrightarrow> sv_files k' = sv_files k1)
    \<and> (r = Inr () \<longrightarrow> (\<exists>stamp. store_update (st_codec cfg) (st_pid cfg) stamp b p (sv_files k1) = Inr (sv_files k')))"
    using on_files_run [of _ k1 r k'] by (cases r1) fastforce+
  then show "asked_of k' = asked_of k" "r \<noteq> Inr () \<Longrightarrow> sv_files k' = sv_files k"
    "r = Inr () \<Longrightarrow> \<exists>stamp. store_update (st_codec cfg) (st_pid cfg) stamp b p (sv_files k) = Inr (sv_files k')"
    using m by (simp_all add: mute_def)
qed

section \<open>One transaction\<close>

text \<open>Handing a transaction to the node: not at all, once, or twice when the nonce was too low; nothing after it is taken.\<close>

definition tries :: "settlement_call \<Rightarrow> send_event list set" where
  "tries d = {[], [Sending d], [Sending d, Taken d], [Sending d, Sending d], [Sending d, Sending d, Taken d]}"

lemma one_send:
  assumes "on_world (noting (note_taken d) m) k = (r, k')"
  obtains "asked_of k' = asked_of k @ [Sending d]" "sv_files k' = sv_files k" "\<nexists>tx. r = Inr (Inr tx)"
  | tx where "asked_of k' = asked_of k @ [Sending d, Taken d]" "sv_files k' = sv_files k" "r = Inr (Inr tx)"
  using noted [OF assms] by (auto simp: note_taken_def split: sum.splits)

lemma attempt_tries:
  assumes "send_attempt (watched n) d gl k = (r, k')"
  obtains ts where "asked_of k' = asked_of k @ ts" "ts \<in> {[], [Sending d], [Sending d, Taken d]}" "sv_files k' = sv_files k"
    "Taken d \<in> set ts \<longleftrightarrow> (\<exists>tx. r = Inr (Inr tx))"
proof -
  obtain r1 k1 where x: "on_world (beside (nd_nonce n)) k = (r1, k1)" by (cases "on_world (beside (nd_nonce n)) k")
  have m: "mute k k1" using movesD [OF mute_read x] .
  show thesis
  proof (cases "\<exists>u. r1 = Inr (Inr u)")
    case False
    then have "k' = k1 \<and> (\<nexists>tx. r = Inr (Inr tx))" using assms x
      by (auto simp: send_attempt_def orElse_def bindS_def io_simps split: sum.splits)
    then show thesis using m by (intro that [of "[]"]) (auto simp: mute_def)
  next
    case True
    then obtain u where "r1 = Inr (Inr u)" by blast
    then have "on_world (noting (note_taken d) (nd_send n d gl u)) k1 = (r, k')" using assms x by (simp add: send_attempt_def orElse_def bindS_def)
    then show thesis
    proof (cases rule: one_send)
      case 1
      then show thesis using m by (intro that [of "[Sending d]"]) (auto simp: mute_def)
    next
      case (2 tx)
      then show thesis using m by (intro that [of "[Sending d, Taken d]"]) (auto simp: mute_def)
    qed
  qed
qed

lemma send_tries:
  assumes "send_to_settlement (watched n) d k = (r, k')"
  obtains ts where "asked_of k' = asked_of k @ ts" "ts \<in> tries d" "sv_files k' = sv_files k" "Taken d \<in> set ts \<longleftrightarrow> (\<exists>tx. r = Inr (Inr tx))"
proof -
  obtain r1 k1 where e: "on_world (beside (nd_estimate n d)) k = (r1, k1)" by (cases "on_world (beside (nd_estimate n d)) k")
  have m1: "mute k k1" using movesD [OF mute_read e] .
  show thesis
  proof (cases "\<exists>gas. r1 = Inr (Inr gas)")
    case False
    then have "k' = k1 \<and> (\<nexists>tx. r = Inr (Inr tx))" using assms e
      by (auto simp: send_to_settlement_def orElse_def bindS_def io_simps split: sum.splits)
    then show thesis using m1 by (intro that [of "[]"]) (auto simp: tries_def mute_def)
  next
    case True
    then obtain gas where gas: "r1 = Inr (Inr gas)" by blast
    let ?lim = "gas * 6 sdiv 5"
    obtain r2 k2 where x: "on_world (beside (nd_nonce n)) k1 = (r2, k2)" by (cases "on_world (beside (nd_nonce n)) k1")
    have m2: "mute k k2" using muted.goes_on [OF m1] movesD [OF mute_read x] by blast
    show thesis
    proof (cases "\<exists>v. r2 = Inr (Inr v)")
      case False
      then have "k' = k2 \<and> (\<nexists>tx. r = Inr (Inr tx))" using assms e gas x
        by (auto simp: send_to_settlement_def orElse_def bindS_def io_simps Let_def split: sum.splits)
      then show thesis using m2 by (intro that [of "[]"]) (auto simp: tries_def mute_def)
    next
      case True
      then obtain v where v: "r2 = Inr (Inr v)" by blast
      obtain r3 k3 where s: "on_world (noting (note_taken d) (nd_send n d ?lim v)) k2 = (r3, k3)" by (cases "on_world (noting (note_taken d) (nd_send n d ?lim v)) k2")
      have rest: "(case r3 of Inl e \<Rightarrow> (Inl e, k3) | Inr (Inr tx) \<Rightarrow> (Inr (Inr tx), k3)
          | Inr (Inl e) \<Rightarrow> if is_nonce_too_low e then send_attempt (watched n) d ?lim k3 else (Inr (Inl e), k3)) = (r, k')"
        using assms e gas x v s by (simp add: send_to_settlement_def orElse_def bindS_def Let_def) (auto simp: io_simps split: sum.splits if_splits)
      from s show thesis
      proof (cases rule: one_send)
        case (2 tx)
        then show thesis using rest m2 by (intro that [of "[Sending d, Taken d]"]) (auto simp: tries_def mute_def)
      next
        case 1
        show thesis
        proof (cases "\<exists>e. r3 = Inr (Inl e) \<and> is_nonce_too_low e")
          case False
          then have "k' = k3 \<and> r = r3" using rest 1(3) by (auto split: sum.splits)
          then show thesis using 1 m2 by (intro that [of "[Sending d]"]) (auto simp: tries_def mute_def)
        next
          case True
          then have "send_attempt (watched n) d ?lim k3 = (r, k')" using rest by auto
          then obtain ts where "asked_of k' = asked_of k3 @ ts" "ts \<in> {[], [Sending d], [Sending d, Taken d]}" "sv_files k' = sv_files k3"
            "Taken d \<in> set ts \<longleftrightarrow> (\<exists>tx. r = Inr (Inr tx))" by (rule attempt_tries)
          then show thesis using 1 m2 by (intro that [of "Sending d # ts"]) (auto simp: tries_def mute_def)
        qed
      qed
    qed
  qed
qed

section \<open>The finalizer between two blocks\<close>

lemma replay_mute: "moves mute (replay_revert cfg (watched n) rc d)"
  unfolding replay_revert_def by (auto intro!: muted.moves_bind mute_read muted.moves_quiet)

lemma try_finalize_tries:
  assumes "try_finalize cfg (watched n) s k = (r, k')"
  obtains ts where "asked_of k' = asked_of k @ ts" "ts \<in> tries (Finalize s)" "sv_files k' = sv_files k"
proof -
  obtain r1 k1 where c: "on_world (beside (nd_call n (Finalize s) None)) k = (r1, k1)" by (cases "on_world (beside (nd_call n (Finalize s) None)) k")
  have m1: "mute k k1" using movesD [OF mute_read c] .
  show thesis
  proof (cases "r1 = Inr None")
    case False
    then have "k' = k1" using assms c by (auto simp: try_finalize_def bindS_def io_simps split: sum.splits option.splits)
    then show thesis using m1 by (intro that [of "[]"]) (auto simp: tries_def mute_def)
  next
    case True
    obtain r2 k2 where s: "send_to_settlement (watched n) (Finalize s) k1 = (r2, k2)" by (cases "send_to_settlement (watched n) (Finalize s) k1")
    obtain ts where ts: "asked_of k2 = asked_of k1 @ ts" "ts \<in> tries (Finalize s)" "sv_files k2 = sv_files k1" by (rule send_tries [OF s])
    let ?rest = "\<lambda>tx. bindS (awaited (beside (nd_receipt n tx 30000))) (\<lambda>rc.
       if \<not> rc_success rc then bindS (replay_revert cfg (watched n) rc (Finalize s)) (\<lambda>reason. pureS (NotTried (Some tx) reason))
       else pureS (mined_outcome tx rc))"
    have quiet: "moves mute (?rest tx)" for tx
      by (auto intro!: muted.moves_bind mute_awaited replay_mute muted.moves_quiet)
    have "(case r2 of Inl e \<Rightarrow> (Inl e, k2) | Inr (Inl e) \<Rightarrow> (Inr (NotTried None (name_revert (st_decode cfg) e)), k2) | Inr (Inr tx) \<Rightarrow> ?rest tx k2) = (r, k')"
      using assms c s True by (simp add: try_finalize_def bindS_eq) (auto simp: bindS_def io_simps split: sum.splits)
    then have "mute k2 k'" using movesD [OF quiet] muted.stays by (auto split: sum.splits)
    then show thesis using m1 ts by (intro that [of ts]) (auto simp: mute_def)
  qed
qed

text \<open>What the store holds when a stretch of the task ends: the outcome written into the record, or everything as it was.\<close>

definition fin_ended :: "setting \<Rightarrow> solution \<Rightarrow> files \<Rightarrow> js_error + finalizer \<Rightarrow> files \<Rightarrow> bool" where
  "fin_ended cfg s fs r fs' \<longleftrightarrow>
     (case r of
        Inr (Over o') \<Rightarrow> \<exists>stamp. store_update (st_codec cfg) (st_pid cfg) stamp (decimal (s_batchId s)) (set_final o') fs = Inr fs'
      | _ \<Rightarrow> fs' = fs)"

lemma done_run:
  assumes "fin_done cfg (watched n) s o' k = (r, k')"
  shows "asked_of k' = asked_of k" "r = Inr (Over o') \<or> (\<exists>e. r = Inl e)" "fin_ended cfg s (sv_files k) r (sv_files k')"
proof -
  obtain r1 k1 where s: "save cfg (watched n) (decimal (s_batchId s)) (set_final o') k = (r1, k1)"
    by (cases "save cfg (watched n) (decimal (s_batchId s)) (set_final o') k")
  have "k' = k1" "r = (case r1 of Inl e \<Rightarrow> Inl e | Inr _ \<Rightarrow> Inr (Over o'))"
    using assms s by (auto simp: fin_done_def bindS_def pureS_def split: sum.splits)
  then show "asked_of k' = asked_of k" "r = Inr (Over o') \<or> (\<exists>e. r = Inl e)" "fin_ended cfg s (sv_files k) r (sv_files k')"
    using save_run [OF s] by (cases r1; simp add: fin_ended_def)+
qed

definition attempt_asks :: "solution \<Rightarrow> send_event list \<Rightarrow> bool" where
  "attempt_asks s as \<longleftrightarrow> as = [] \<or> (\<exists>t ts. as = Head t # ts \<and> ts \<in> tries (Finalize s) \<and> (ts \<noteq> [] \<longrightarrow> t \<le> fin_deadline s))"

definition past_close :: "js_error + finalizer \<Rightarrow> bool" where
  "past_close r \<longleftrightarrow> (case r of Inr (AwaitClose w) \<Rightarrow> False | _ \<Rightarrow> True)"

definition at_end :: "js_error + finalizer \<Rightarrow> bool" where
  "at_end r \<longleftrightarrow> (case r of Inr (AwaitClose w) \<Rightarrow> False | Inr (AwaitRetry h e w) \<Rightarrow> False | _ \<Rightarrow> True)"

lemma attempt_run:
  assumes "fin_attempt cfg (watched n) s again k = (r, k')"
  obtains as where "asked_of k' = asked_of k @ as" "attempt_asks s as" "fin_ended cfg s (sv_files k) r (sv_files k')"
    "past_close r" "again \<Longrightarrow> at_end r"
proof -
  obtain r1 k1 where h: "awaited (noting note_head (nd_timestamp n)) k = (r1, k1)" by (cases "awaited (noting note_head (nd_timestamp n)) k")
  obtain a where a: "asked_of k1 = asked_of k @ note_head a" "sv_files k1 = sv_files k" "\<forall>v. r1 = Inr v \<longleftrightarrow> a = Inr (Inr v)"
    by (rule noted_awaited [OF h])
  have ends: "past_close r \<and> at_end r" if "fin_done cfg (watched n) s o' k2 = (r, k')" for o' k2
    using done_run(2) [OF that] by (auto simp: past_close_def at_end_def)
  show thesis
  proof (cases r1)
    case (Inl e)
    then have "r = Inl e" "k' = k1" using assms h by (simp_all add: fin_attempt_def bindS_eq)
    moreover have "note_head a = []" using a(3) Inl by (auto simp: note_head_def split: sum.splits)
    ultimately show thesis using a by (intro that [of "[]"]) (simp_all add: attempt_asks_def fin_ended_def past_close_def at_end_def)
  next
    case (Inr t)
    then have as: "asked_of k1 = asked_of k @ [Head t]" using a by (simp add: note_head_def)
    show thesis
    proof (cases "t > fin_deadline s")
      case True
      then have d: "fin_done cfg (watched n) s (nothing_sent Abandoned (''deadline '' @ decimal (fin_deadline s) @ '' passed before finalize was sent'')) k1 = (r, k')"
        using assms h Inr by (simp add: fin_attempt_def bindS_eq)
      show thesis using done_run [OF d] ends [OF d] as a(2) by (intro that [of "[Head t]"]) (simp_all add: attempt_asks_def tries_def)
    next
      case False
      obtain r2 k2 where f: "try_finalize cfg (watched n) s k1 = (r2, k2)" by (cases "try_finalize cfg (watched n) s k1")
      obtain ts where ts: "asked_of k2 = asked_of k1 @ ts" "ts \<in> tries (Finalize s)" "sv_files k2 = sv_files k1" by (rule try_finalize_tries [OF f])
      have asks: "attempt_asks s (Head t # ts)" using ts(2) False by (simp add: attempt_asks_def)
      consider o' where "fin_done cfg (watched n) s o' k2 = (r, k')" | e where "r = Inl e" "k' = k2"
        | err where "r = Inr (AwaitRetry t err 0)" "k' = k2" "\<not> again"
        using assms h Inr False f by (simp add: fin_attempt_def bindS_eq)
          (auto simp: bindS_def pureS_def split: sum.splits try_outcome.splits if_splits)
      then show thesis
      proof cases
        case 1
        show thesis using done_run [OF 1] ends [OF 1] as a(2) ts asks by (intro that [of "Head t # ts"]) simp_all
      qed (use as a(2) ts asks in \<open>intro that [of "Head t # ts"]; simp add: fin_ended_def past_close_def at_end_def\<close>)+
    qed
  qed
qed

text \<open>
  The winner is asked for once and first. Only when it is this solver, with the hash of the stored bytes,
  is anything more asked for.
\<close>

definition won_by :: "setting \<Rightarrow> stored \<Rightarrow> hex \<Rightarrow> address \<Rightarrow> bool" where
  "won_by cfg rec h w \<longleftrightarrow> lower w = lower (st_account cfg) \<and> h = sr_hash rec"

definition asks :: "setting \<Rightarrow> solution \<Rightarrow> stored \<Rightarrow> send_event list \<Rightarrow> bool" where
  "asks cfg s rec es \<longleftrightarrow> es = [] \<or> (\<exists>h w as bs. es = Named h w # as @ bs \<and> attempt_asks s as \<and> attempt_asks s bs
     \<and> (as @ bs \<noteq> [] \<longrightarrow> won_by cfg rec h w))"

definition asked_once :: "setting \<Rightarrow> solution \<Rightarrow> stored \<Rightarrow> send_event list \<Rightarrow> bool" where
  "asked_once cfg s rec es \<longleftrightarrow> (\<exists>h w as. es = Named h w # as \<and> attempt_asks s as \<and> won_by cfg rec h w)"

lemma no_attempt [simp]: "attempt_asks s []"
  by (simp add: attempt_asks_def)

lemma asked_once_asks: "asked_once cfg s rec es \<Longrightarrow> attempt_asks s bs \<Longrightarrow> asks cfg s rec (es @ bs)"
  unfolding asked_once_def asks_def by fastforce

lemma check_run:
  assumes "fin_check cfg (watched n) s k = (r, k')" "keeps (st_codec cfg) (sv_files k) s rec"
  obtains as where "asked_of k' = asked_of k @ as" "asks cfg s rec as" "fin_ended cfg s (sv_files k) r (sv_files k')"
    "past_close r" "\<not> at_end r \<Longrightarrow> asked_once cfg s rec as"
proof -
  have read: "read_record (st_codec cfg) (sv_files k) (decimal (s_batchId s)) = Inr (Inr (rec, s))" using assms(2) by (simp add: keeps_def)
  let ?best = "awaited (noting note_best (nd_best n (s_batchId s)))"
  obtain r1 k1 where b: "?best k = (r1, k1)" by (cases "?best k")
  obtain a where a: "asked_of k1 = asked_of k @ note_best a" "sv_files k1 = sv_files k" "\<forall>v. r1 = Inr v \<longleftrightarrow> a = Inr (Inr v)"
    by (rule noted_awaited [OF b])
  show thesis
  proof (cases r1)
    case (Inl e)
    then have "r = Inl e" "k' = k1" using assms(1) b read by (simp_all add: fin_check_def bindS_def)
    moreover have "note_best a = []" using a(3) Inl by (auto simp: note_best_def split: sum.splits)
    ultimately show thesis using a by (intro that [of "[]"]) (simp_all add: asks_def fin_ended_def past_close_def at_end_def)
  next
    case (Inr v)
    obtain h u w where v: "v = (h, u, w)" by (cases v)
    have "a = Inr (Inr v)" using a(3) Inr by blast
    then have as: "asked_of k1 = asked_of k @ [Named h w]" using a(1) v by (simp add: note_best_def)
    show thesis
    proof (cases "won_by cfg rec h w")
      case False
      then have d: "fin_done cfg (watched n) s (nothing_sent NotBest (''bestSolution names '' @ w @ '', hash '' @ h)) k1 = (r, k')"
        using assms(1) b read Inr v by (auto simp: fin_check_def bindS_def won_by_def)
      have "past_close r" "at_end r" using done_run(2) [OF d] by (auto simp: past_close_def at_end_def)
      then show thesis using done_run [OF d] as a(2) by (intro that [of "[Named h w]"]) (auto simp: asks_def)
    next
      case True
      then have "fin_attempt cfg (watched n) s False k1 = (r, k')"
        using assms(1) b read Inr v by (simp add: fin_check_def bindS_def won_by_def)
      then obtain bs where "asked_of k' = asked_of k1 @ bs" "attempt_asks s bs" "fin_ended cfg s (sv_files k1) r (sv_files k')" "past_close r"
        by (rule attempt_run)
      moreover have "asks cfg s rec (Named h w # bs)" if "attempt_asks s bs" for bs
        unfolding asks_def using that True by (intro disjI2 exI [of _ h] exI [of _ w] exI [of _ bs] exI [of _ "[]"]) simp
      ultimately show thesis using as a(2) True by (intro that [of "Named h w # bs"]) (auto simp: asked_once_def)
    qed
  qed
qed

section \<open>The finalizer over any sequence of blocks\<close>

text \<open>Where the task stands after some callbacks, against the state it began in.\<close>

definition fin_inv :: "setting \<Rightarrow> solution \<Rightarrow> stored \<Rightarrow> ('w \<times> send_event list) service \<Rightarrow> finalizer \<Rightarrow> ('w \<times> send_event list) service \<Rightarrow> bool" where
  "fin_inv cfg s rec k0 st k \<longleftrightarrow> (\<exists>es. asked_of k = asked_of k0 @ es \<and> asks cfg s rec es
     \<and> (case st of AwaitClose w \<Rightarrow> es = [] | AwaitRetry h e w \<Rightarrow> asked_once cfg s rec es | _ \<Rightarrow> True)
     \<and> fin_ended cfg s (sv_files k0) (Inr st) (sv_files k))"

lemma fin_inv_start: "fin_inv cfg s rec k (AwaitClose 0) k"
  by (simp add: fin_inv_def asks_def fin_ended_def)

lemma react_close:
  assumes "fin_inv cfg s rec k0 (AwaitClose w) k" "fin_react cfg (watched n) s (AwaitClose w) ev k = (r, k')"
    "keeps (st_codec cfg) (sv_files k0) s rec"
  shows "fin_inv cfg s rec k0 (case r of Inl e \<Rightarrow> Threw e | Inr st \<Rightarrow> st) k'"
proof -
  have k: "asked_of k = asked_of k0" "sv_files k = sv_files k0" using assms(1) by (auto simp: fin_inv_def fin_ended_def)
  have quiet: "fin_inv cfg s rec k0 st k" if "case st of Over o' \<Rightarrow> False | AwaitRetry h e w \<Rightarrow> False | _ \<Rightarrow> True" for st
    using that k by (auto simp: fin_inv_def asks_def fin_ended_def split: finalizer.splits)
  consider (pending) f where "r = Inr (AwaitClose f)" "k' = k" | (threw) e where "r = Inl e" "k' = k"
    | (late) o' where "fin_done cfg (watched n) s o' k = (r, k')" | (closed) "fin_check cfg (watched n) s k = (r, k')"
    using assms(2) by (auto simp: fin_react_def io_simps split: watcher.splits option.splits)
  then show ?thesis
  proof cases
    case late
    then show ?thesis using done_run [OF late] k by (auto simp: fin_inv_def asks_def fin_ended_def split: sum.splits)
  next
    case closed
    have "keeps (st_codec cfg) (sv_files k) s rec" using assms(3) k(2) by simp
    then obtain as where as: "asked_of k' = asked_of k @ as" "asks cfg s rec as" "fin_ended cfg s (sv_files k) r (sv_files k')" "past_close r"
      "\<not> at_end r \<longrightarrow> asked_once cfg s rec as" using check_run [OF closed] by metis
    show ?thesis
    proof (cases r)
      case (Inl e)
      then show ?thesis using as k by (auto simp: fin_inv_def fin_ended_def)
    next
      case (Inr st)
      then show ?thesis using as k by (cases st) (auto simp: fin_inv_def fin_ended_def past_close_def at_end_def)
    qed
  qed (use quiet in \<open>simp_all\<close>)
qed

lemma react_retry:
  assumes "fin_inv cfg s rec k0 (AwaitRetry h e w) k" "fin_react cfg (watched n) s (AwaitRetry h e w) ev k = (r, k')"
  shows "fin_inv cfg s rec k0 (case r of Inl e \<Rightarrow> Threw e | Inr st \<Rightarrow> st) k'"
proof -
  obtain es where es: "asked_of k = asked_of k0 @ es" "asked_once cfg s rec es" "asks cfg s rec es" "sv_files k = sv_files k0"
    using assms(1) by (auto simp: fin_inv_def fin_ended_def)
  have quiet: "fin_inv cfg s rec k0 st k" if "case st of Over o' \<Rightarrow> False | AwaitClose w \<Rightarrow> False | _ \<Rightarrow> True" for st
    using that es by (auto simp: fin_inv_def fin_ended_def split: finalizer.splits)
  consider (pending) f where "r = Inr (AwaitRetry h e f)" "k' = k" | (threw) x where "r = Inl x" "k' = k"
    | (late) o' where "fin_done cfg (watched n) s o' k = (r, k')" | (block) "fin_attempt cfg (watched n) s True k = (r, k')"
    using assms(2) by (auto simp: fin_react_def io_simps split: watcher.splits option.splits)
  then show ?thesis
  proof cases
    case late
    then show ?thesis using done_run [OF late] es by (auto simp: fin_inv_def fin_ended_def split: sum.splits)
  next
    case block
    obtain as where as: "asked_of k' = asked_of k @ as" "attempt_asks s as" "fin_ended cfg s (sv_files k) r (sv_files k')" "at_end r"
      using attempt_run [OF block] by metis
    have full: "asks cfg s rec (es @ as)" by (rule asked_once_asks [OF es(2) as(2)])
    show ?thesis
    proof (cases r)
      case (Inl x)
      then show ?thesis using as es full by (auto simp: fin_inv_def fin_ended_def)
    next
      case (Inr st)
      then show ?thesis using as es full by (cases st) (auto simp: fin_inv_def fin_ended_def at_end_def)
    qed
  qed (use quiet in \<open>simp_all\<close>)
qed

lemma finalize_won_inv:
  assumes "finalize_won cfg (watched n) s evs k0 = (st, k)" "keeps (st_codec cfg) (sv_files k0) s rec"
  shows "fin_inv cfg s rec k0 st k"
proof -
  have step: "fin_inv cfg s rec k0 st' k'" if inv: "fin_inv cfg s rec k0 st k" and step: "fin_step cfg (watched n) s (st, k) ev = (st', k')" for st k ev st' k'
  proof -
    obtain r k1 where r: "fin_react cfg (watched n) s st ev k = (r, k1)" by (cases "fin_react cfg (watched n) s st ev k")
    then have e: "k' = k1" "st' = (case r of Inl e \<Rightarrow> Threw e | Inr st \<Rightarrow> st)" using step by (auto simp: fin_step_def split: sum.splits)
    show ?thesis
    proof (cases st)
      case (AwaitClose w)
      then show ?thesis using react_close [of cfg s rec k0 w k n ev r k1] inv r assms(2) e by simp
    next
      case (AwaitRetry h x w)
      then show ?thesis using react_retry [of cfg s rec k0 h x w k n ev r k1] inv r e by simp
    qed (use inv r e in \<open>auto simp: fin_react_def pureS_def\<close>)
  qed
  have "fin_inv cfg s rec k0 (fst (foldl (fin_step cfg (watched n) s) p evs)) (snd (foldl (fin_step cfg (watched n) s) p evs))"
    if "fin_inv cfg s rec k0 (fst p) (snd p)" for p
    using that
  proof (induction evs arbitrary: p)
    case (Cons ev evs)
    have "fin_inv cfg s rec k0 (fst (fin_step cfg (watched n) s p ev)) (snd (fin_step cfg (watched n) s p ev))"
      using step [OF Cons.prems, of ev] by (cases "fin_step cfg (watched n) s p ev") simp
    then show ?case using Cons.IH by simp
  qed simp
  from this [of "(AwaitClose 0, k0)"] show ?thesis
    using fin_inv_start [of cfg s rec k0] assms(1) by (simp add: finalize_won_def)
qed

section \<open>What finalizing promises\<close>

text \<open>
  C9. Whatever the node answers and whatever blocks or errors the watcher calls back with, the finalizer
  asks once who won and, unless the answer is this solver with the hash of the stored bytes, sends
  nothing; otherwise it makes at most two attempts, each only after a head that is not past the deadline,
  each handing its finalize to the node at most twice and no more once it is taken.
\<close>

theorem finalize_only_what_it_won:
  assumes "finalize_won cfg (watched n) s evs k = (st, k')" "keeps (st_codec cfg) (sv_files k) s rec"
  shows "\<exists>es. asked_of k' = asked_of k @ es \<and> (es = [] \<or> (\<exists>h w as bs. es = Named h w # as @ bs \<and> attempt_asks s as \<and> attempt_asks s bs
     \<and> (as @ bs \<noteq> [] \<longrightarrow> lower w = lower (st_account cfg) \<and> h = sr_hash rec)))"
  using finalize_won_inv [OF assms] unfolding fin_inv_def asks_def won_by_def by blast

lemma patches_final [simp]: "patches (set_final o')" "patches (set_status st reason)" "patches (set_submitted tx)" "patches (set_mined rej)"
  by (simp_all add: patches_def set_final_def set_status_def set_submitted_def set_mined_def)

text \<open>
  C17. A finalizer that ends with an outcome has written it down: the record still holds the exact bytes of
  the solution, with the status, the transaction and the reason of the outcome. Before that, and when an
  exception ends it, the record is as it was, so that a restart takes the batch up again.
\<close>

theorem finalize_writes_the_outcome:
  assumes "finalize_won cfg (watched n) s evs k = (st, k')" "keeps (st_codec cfg) (sv_files k) s rec" "codec_ok (st_codec cfg) s"
  shows "case st of
      Over o' \<Rightarrow> (\<exists>rec'. keeps (st_codec cfg) (sv_files k') s rec' \<and> sr_status rec' = fo_status o' \<and> sr_finalizeTx rec' = fo_tx o'
        \<and> sr_reason rec' = Some (fo_result o'))
    | _ \<Rightarrow> sv_files k' = sv_files k"
proof -
  have inv: "fin_ended cfg s (sv_files k) (Inr st) (sv_files k')" using finalize_won_inv [OF assms(1,2)] by (auto simp: fin_inv_def)
  show ?thesis
  proof (cases st)
    case (Over o')
    then obtain stamp where u: "store_update (st_codec cfg) (st_pid cfg) stamp (decimal (s_batchId s)) (set_final o') (sv_files k) = Inr (sv_files k')"
      using inv by (auto simp: fin_ended_def)
    obtain fs' where fs': "store_update (st_codec cfg) (st_pid cfg) stamp (decimal (s_batchId s)) (set_final o') (sv_files k) = Inr fs'"
      "keeps (st_codec cfg) fs' s ((set_final o' rec)\<lparr>sr_updatedAt := stamp\<rparr>)"
      by (rule update_keeps [OF assms(3,2) patches_final(1)])
    then have "keeps (st_codec cfg) (sv_files k') s ((set_final o' rec)\<lparr>sr_updatedAt := stamp\<rparr>)" using u by simp
    then show ?thesis using Over by (auto simp: set_final_def intro!: exI [of _ "(set_final o' rec)\<lparr>sr_updatedAt := stamp\<rparr>"])
  qed (use inv in \<open>simp_all add: fin_ended_def\<close>)
qed

fun ended :: "finalizer \<Rightarrow> bool" where
  "ended (Over o') \<longleftrightarrow> True"
| "ended (Threw e) \<longleftrightarrow> True"
| "ended st \<longleftrightarrow> False"

lemma ended_stays: "ended st \<Longrightarrow> fin_step cfg n s (st, k) ev = (st, k)"
  by (cases st) (simp_all add: fin_step_def fin_react_def pureS_def)

lemma ended_fold: "ended (fst p) \<Longrightarrow> foldl (fin_step cfg n s) p evs = p"
proof (induction evs)
  case (Cons ev evs)
  then show ?case using ended_stays [of "fst p" cfg n s "snd p" ev] by simp
qed simp

lemma done_ends: "ended (case fst (fin_done cfg n s o' k) of Inl e \<Rightarrow> Threw e | Inr st \<Rightarrow> st)"
  by (auto simp: fin_done_def bindS_def pureS_def split: prod.split sum.split)

lemma late_block_ends:
  assumes "ts > fin_deadline s"
  shows "ended (fst (fin_step cfg n s (st, k) (Block b ts)))"
proof (cases "ended st")
  case True
  then show ?thesis using ended_stays [OF True, of cfg n s k "Block b ts"] by simp
next
  case False
  have finish: "ended (fst (case fin_done cfg n s o' k of (Inr st, k) \<Rightarrow> (st, k) | (Inl e, k) \<Rightarrow> (Threw e, k)))" for o'
    using done_ends [of cfg n s o' k] by (auto split: prod.split sum.split)
  have "until_block ready (fin_deadline s) (Pending f) (Block b ts) = Resolved None" for ready f
    using assms by (simp add: until_block_def)
  then show ?thesis using False finish by (cases st) (auto simp: fin_step_def fin_react_def)
qed

lemma finalize_won_append:
  "finalize_won cfg n s (evs @ evs') k = foldl (fin_step cfg n s) (finalize_won cfg n s evs k) evs'"
  by (simp add: finalize_won_def)

lemma failing_polls:
  assumes "MAX_POLL_FAILURES \<le> f + length errs" "f < MAX_POLL_FAILURES"
  shows "ended (fst (foldl (fin_step cfg n s) (AwaitClose f, k) (map PollError errs)))
    \<and> ended (fst (foldl (fin_step cfg n s) (AwaitRetry h x f, k) (map PollError errs)))"
  using assms
proof (induction errs arbitrary: f)
  case (Cons e errs)
  show ?case
  proof (cases "f + 1 < MAX_POLL_FAILURES")
    case True
    then have "fin_step cfg n s (AwaitClose f, k) (PollError e) = (AwaitClose (Suc f), k)"
      "fin_step cfg n s (AwaitRetry h x f, k) (PollError e) = (AwaitRetry h x (Suc f), k)"
      by (simp_all add: fin_step_def fin_react_def until_block_def pureS_def)
    then show ?thesis using Cons.IH [of "Suc f"] Cons.prems True by simp
  next
    case False
    then have "fin_step cfg n s (AwaitClose f, k) (PollError e) = (Threw (thrown_as e), k)"
      "fin_step cfg n s (AwaitRetry h x f, k) (PollError e) = (Threw (thrown_as e), k)"
      by (simp_all add: fin_step_def fin_react_def until_block_def throwS_def)
    then show ?thesis by (simp add: ended_fold)
  qed
qed simp

text \<open>A task that waits has polls left before it gives the node up.\<close>

fun patient :: "finalizer \<Rightarrow> bool" where
  "patient (AwaitClose f) \<longleftrightarrow> f < MAX_POLL_FAILURES"
| "patient (AwaitRetry h e f) \<longleftrightarrow> f < MAX_POLL_FAILURES"
| "patient st \<longleftrightarrow> True"

definition stays_patient :: "('w service, finalizer) io \<Rightarrow> bool" where
  "stays_patient m \<longleftrightarrow> (\<forall>k st k'. m k = (Inr st, k') \<longrightarrow> patient st)"

lemma stays_patient_bind: "(\<And>v. stays_patient (f v)) \<Longrightarrow> stays_patient (bindS m f)"
  unfolding stays_patient_def bindS_Inr by blast

lemma stays_patient_pure: "patient st \<Longrightarrow> stays_patient (pureS st)" "stays_patient (throwS e)"
  by (simp_all add: stays_patient_def io_simps)

lemma react_patient: "patient st \<Longrightarrow> stays_patient (fin_react cfg n s st ev)"
proof -
  have d: "stays_patient (fin_done cfg n s o')" for o'
    unfolding fin_done_def by (intro stays_patient_bind stays_patient_pure) simp
  have a: "stays_patient (fin_attempt cfg n s again)" for again
    unfolding fin_attempt_def
    by (auto intro!: stays_patient_bind stays_patient_pure d simp: MAX_POLL_FAILURES_def split: try_outcome.split)
  have c: "stays_patient (fin_check cfg n s)"
    unfolding fin_check_def by (auto intro!: stays_patient_bind d a)
  show "stays_patient (fin_react cfg n s st ev)" if "patient st"
    using that by (cases st; cases ev)
      (auto simp: fin_react_def until_block_def MAX_POLL_FAILURES_def intro!: stays_patient_pure d a c)
qed

lemma won_patient: "patient (fst (finalize_won cfg n s evs k))"
proof -
  have step: "patient (fst (fin_step cfg n s p ev))" if "patient (fst p)" for p ev
    using react_patient [OF that, of cfg n s ev] by (auto simp: fin_step_def stays_patient_def split: prod.split sum.split)
  have "patient (fst p) \<Longrightarrow> patient (fst (foldl (fin_step cfg n s) p evs))" for p
    by (induction evs arbitrary: p) (simp_all add: step)
  then show ?thesis by (simp add: finalize_won_def MAX_POLL_FAILURES_def)
qed

text \<open>
  C23. No batch holds the finalizer for ever: whatever came before, the first block past its deadline ends
  the task, and so do forty failed polls in a row.
\<close>

theorem finalizer_lets_go:
  assumes "(\<exists>b ts. Block b ts \<in> set evs \<and> ts > fin_deadline s) \<or> (\<exists>pre errs post. length errs = 40 \<and> evs = pre @ map PollError errs @ post)"
  shows "ended (fst (finalize_won cfg n s evs k))"
  using assms
proof (elim disjE exE conjE)
  fix b ts assume b: "Block b ts \<in> set evs" "ts > fin_deadline s"
  then obtain pre post where "evs = pre @ Block b ts # post" by (meson split_list)
  then show ?thesis
    using late_block_ends [OF b(2), of cfg n "fst (finalize_won cfg n s pre k)" "snd (finalize_won cfg n s pre k)" b]
    by (simp add: finalize_won_append ended_fold)
next
  fix pre errs post assume e: "length errs = 40" "evs = pre @ map PollError errs @ post"
  obtain st k1 where p: "finalize_won cfg n s pre k = (st, k1)" by (cases "finalize_won cfg n s pre k")
  then have "patient st" using won_patient [of cfg n s pre k] by simp
  then have "ended (fst (foldl (fin_step cfg n s) (st, k1) (map PollError errs)))"
    using failing_polls [of _ errs cfg n s k1] e(1) ended_fold [of "(st, k1)"] by (cases st) (auto simp: MAX_POLL_FAILURES_def)
  then show ?thesis using p e(2) by (simp add: finalize_won_append ended_fold)
qed

section \<open>What submitting promises\<close>

text \<open>What the record says after the broadcast, for every way it can end.\<close>

definition outcome_recorded :: "js_error + send_outcome \<Rightarrow> stored \<Rightarrow> bool" where
  "outcome_recorded r rec \<longleftrightarrow>
     (case r of
        Inl e \<Rightarrow> sr_status rec \<in> {Built, Submitted}
      | Inr (SentBest tx b) \<Rightarrow> sr_status rec = Best \<and> sr_submitTx rec = Some tx
      | Inr (SentNotBest tx b) \<Rightarrow> sr_status rec = NotBest \<and> sr_submitTx rec = Some tx
      | Inr (SubmitReverted None reason) \<Rightarrow> sr_status rec = Abandoned \<and> sr_reason rec = Some (''submit not sent, '' @ reason)
      | Inr (SubmitReverted (Some tx) reason) \<Rightarrow> sr_submitTx rec = Some tx
          \<and> (sr_status rec = Submitted \<or> sr_status rec = Abandoned \<and> sr_reason rec = Some (''submit reverted, '' @ reason))
      | _ \<Rightarrow> False)"

lemma save_keeps:
  assumes "save cfg (watched n) (decimal (s_batchId s)) p k = (r, k')" "codec_ok (st_codec cfg) s" "keeps (st_codec cfg) (sv_files k) s rec" "patches p"
  shows "asked_of k' = asked_of k" "(\<exists>e. r = Inl e) \<and> keeps (st_codec cfg) (sv_files k') s rec
    \<or> r = Inr () \<and> (\<exists>stamp. keeps (st_codec cfg) (sv_files k') s ((p rec)\<lparr>sr_updatedAt := stamp\<rparr>))"
proof -
  show "asked_of k' = asked_of k" by (rule save_run(1) [OF assms(1)])
  show "(\<exists>e. r = Inl e) \<and> keeps (st_codec cfg) (sv_files k') s rec
    \<or> r = Inr () \<and> (\<exists>stamp. keeps (st_codec cfg) (sv_files k') s ((p rec)\<lparr>sr_updatedAt := stamp\<rparr>))"
  proof (cases r)
    case (Inl e)
    then show ?thesis using save_run(2) [OF assms(1)] assms(3) by simp
  next
    case (Inr u)
    then obtain stamp where st: "store_update (st_codec cfg) (st_pid cfg) stamp (decimal (s_batchId s)) p (sv_files k) = Inr (sv_files k')"
      using save_run(3) [OF assms(1)] by auto
    obtain fs' where "store_update (st_codec cfg) (st_pid cfg) stamp (decimal (s_batchId s)) p (sv_files k) = Inr fs'"
      "keeps (st_codec cfg) fs' s ((p rec)\<lparr>sr_updatedAt := stamp\<rparr>)" by (rule update_keeps [OF assms(2-4)])
    then show ?thesis using st Inr by auto
  qed
qed

definition recorded :: "setting \<Rightarrow> solution \<Rightarrow> (js_error + send_outcome) \<times> ('w \<times> send_event list) service \<Rightarrow> bool" where
  "recorded cfg s p \<longleftrightarrow> (\<exists>rec. keeps (st_codec cfg) (sv_files (snd p)) s rec \<and> outcome_recorded (fst p) rec)"

lemma recordedI: "keeps (st_codec cfg) (sv_files k) s rec \<Longrightarrow> outcome_recorded r rec \<Longrightarrow> recorded cfg s (r, k)"
  unfolding recorded_def by auto

lemma save_recorded:
  assumes "codec_ok (st_codec cfg) s" "keeps (st_codec cfg) (sv_files k) s rec" "patches p"
    and "\<And>e. outcome_recorded (Inl e) rec" "\<And>stamp. outcome_recorded (Inr out) ((p rec)\<lparr>sr_updatedAt := stamp\<rparr>)"
  shows "recorded cfg s (bindS (save cfg (watched n) (decimal (s_batchId s)) p) (\<lambda>_. pureS out) k)"
proof (rule bindS_cases)
  fix e k' assume s: "save cfg (watched n) (decimal (s_batchId s)) p k = (Inl e, k')"
  then have "keeps (st_codec cfg) (sv_files k') s rec" using save_keeps(2) [OF s assms(1-3)] by simp
  then show "recorded cfg s (Inl e, k')" using assms(4) by (rule recordedI)
next
  fix v k' assume s: "save cfg (watched n) (decimal (s_batchId s)) p k = (Inr v, k')"
  then obtain stamp where "keeps (st_codec cfg) (sv_files k') s ((p rec)\<lparr>sr_updatedAt := stamp\<rparr>)" using save_keeps(2) [OF s assms(1-3)] by auto
  then show "recorded cfg s (pureS out k')" unfolding pureS_def using assms(5) by (rule recordedI)
qed

text \<open>A record of a transaction that left: whatever keeps the code from going on, it stands as submitted.\<close>

definition awaiting :: "setting \<Rightarrow> solution \<Rightarrow> hex \<Rightarrow> files \<Rightarrow> bool" where
  "awaiting cfg s tx fs \<longleftrightarrow> (\<exists>rec. keeps (st_codec cfg) fs s rec \<and> sr_status rec = Submitted \<and> sr_submitTx rec = Some tx)"

lemma awaiting_recorded:
  "awaiting cfg s tx (sv_files k) \<Longrightarrow> recorded cfg s (Inl e, k)" "awaiting cfg s tx (sv_files k) \<Longrightarrow> recorded cfg s (Inr (SubmitReverted (Some tx) m), k)"
  by (auto simp: awaiting_def outcome_recorded_def intro: recordedI)

lemma save_awaiting:
  assumes "codec_ok (st_codec cfg) s" "awaiting cfg s tx (sv_files k)" "patches p"
    and "\<And>rec stamp. sr_submitTx rec = Some tx \<Longrightarrow> outcome_recorded (Inr out) ((p rec)\<lparr>sr_updatedAt := stamp\<rparr>)"
  shows "recorded cfg s (bindS (save cfg (watched n) (decimal (s_batchId s)) p) (\<lambda>_. pureS out) k)"
proof -
  obtain rec where rec: "keeps (st_codec cfg) (sv_files k) s rec" "sr_status rec = Submitted" "sr_submitTx rec = Some tx"
    using assms(2) by (auto simp: awaiting_def)
  show ?thesis by (rule save_recorded [OF assms(1) rec(1) assms(3)]) (use rec assms(4) in \<open>simp_all add: outcome_recorded_def\<close>)
qed

lemma mined_recorded:
  assumes "codec_ok (st_codec cfg) s" "awaiting cfg s tx (sv_files k)"
  shows "recorded cfg s ((if \<not> rc_success rc
              then bindS (replay_revert cfg (watched n) rc (SubmitSolution s)) (\<lambda>reason.
                bindS (save cfg (watched n) (decimal (s_batchId s)) (set_status Abandoned (''submit reverted, '' @ reason))) (\<lambda>_. pureS (SubmitReverted (Some tx) reason)))
              else bindS (save cfg (watched n) (decimal (s_batchId s)) (set_mined (rejection (rc_logs rc)))) (\<lambda>_.
                  pureS (if rejection (rc_logs rc) = Some (Some NOT_THE_BEST) then SentNotBest tx (rc_block rc) else SentBest tx (rc_block rc)))) k)"
proof (cases "rc_success rc")
  case True
  then show ?thesis by (simp add: save_awaiting [OF assms] outcome_recorded_def set_mined_def)
next
  case False
  have "recorded cfg s (bindS (replay_revert cfg (watched n) rc (SubmitSolution s)) (\<lambda>reason.
      bindS (save cfg (watched n) (decimal (s_batchId s)) (set_status Abandoned (''submit reverted, '' @ reason)))
        (\<lambda>_. pureS (SubmitReverted (Some tx) reason))) k)"
  proof (rule bindS_cases, goal_cases)
    case (1 e k')
    then have "mute k k'" using movesD [OF replay_mute] by metis
    then have "awaiting cfg s tx (sv_files k')" using assms(2) by (simp add: mute_def)
    then show ?case by (rule awaiting_recorded(1))
  next
    case (2 reason k')
    then have "mute k k'" using movesD [OF replay_mute] by metis
    then have "awaiting cfg s tx (sv_files k')" using assms(2) by (simp add: mute_def)
    then show ?case by (rule save_awaiting [OF assms(1)]) (simp_all add: outcome_recorded_def set_status_def)
  qed
  then show ?thesis using False by simp
qed

lemma await_recorded:
  assumes "codec_ok (st_codec cfg) s" "keeps (st_codec cfg) (sv_files k) s rec" "sr_status rec = Built"
  shows "recorded cfg s (await_submit cfg (watched n) s tx k)"
  unfolding await_submit_def Let_def
proof (rule bindS_cases, goal_cases)
  case (1 e k1)
  then show ?case using save_keeps(2) [OF 1 assms(1,2)] assms(3) by (auto simp: outcome_recorded_def intro: recordedI)
next
  case (2 u k1)
  then have k1: "awaiting cfg s tx (sv_files k1)"
    using save_keeps(2) [OF 2 assms(1,2)] by (fastforce simp: awaiting_def set_submitted_def)
  show ?case
  proof (rule bindS_cases, goal_cases)
    case (1 e k2)
    then have "sv_files k2 = sv_files k1" by (auto elim: noted_awaited)
    then have "awaiting cfg s tx (sv_files k2)" using k1 by simp
    then show ?case by (rule awaiting_recorded(1))
  next
    case (2 t k2)
    then have f2: "sv_files k2 = sv_files k1" by (auto elim: noted_awaited)
    show ?case
    proof (rule bindS_cases, goal_cases)
      case (1 e k3)
      then have "mute k2 k3" using movesD [OF mute_read] by simp
      then have "awaiting cfg s tx (sv_files k3)" using k1 f2 by (simp add: mute_def)
      then show ?case by (rule awaiting_recorded(1))
    next
      case (2 r k3)
      then have "mute k2 k3" using movesD [OF mute_read] by simp
      then have k3: "awaiting cfg s tx (sv_files k3)" using k1 f2 by (simp add: mute_def)
      show ?case
        using awaiting_recorded(2) [OF k3] mined_recorded [OF assms(1) k3, of _ n] by (cases r) (simp_all add: pureS_def)
    qed
  qed
qed

lemma broadcast_recorded:
  assumes "codec_ok (st_codec cfg) s" "keeps (st_codec cfg) (sv_files k) s rec" "sr_status rec = Built"
  shows "recorded cfg s (broadcast cfg (watched n) s k)"
  unfolding broadcast_def Let_def
proof (rule bindS_cases, goal_cases)
  case (1 e k1)
  obtain ts where "sv_files k1 = sv_files k" by (rule send_tries [OF 1])
  then show ?case using assms(2,3) by (auto simp: outcome_recorded_def intro: recordedI)
next
  case (2 r k1)
  obtain ts where f: "sv_files k1 = sv_files k" by (rule send_tries [OF 2])
  show ?case
  proof (cases r)
    case (Inl e)
    let ?reason = "name_revert (st_decode cfg) e"
    have "recorded cfg s (bindS (save cfg (watched n) (decimal (s_batchId s)) (set_status Abandoned (''submit not sent, '' @ ?reason)))
        (\<lambda>_. pureS (SubmitReverted None ?reason)) k1)"
      by (rule save_recorded [OF assms(1), of k1 rec]) (use assms(2,3) f in \<open>simp_all add: outcome_recorded_def set_status_def\<close>)
    then show ?thesis using Inl by simp
  next
    case (Inr tx)
    then show ?thesis using await_recorded [OF assms(1), of k1 rec n tx] assms(2,3) f by simp
  qed
qed

lemma save_built_run:
  assumes "save_built cfg (watched n) s k = (r, k')" "codec_ok (st_codec cfg) s"
  shows "asked_of k' = asked_of k \<and> ((\<exists>e. r = Inl e) \<and> sv_files k' = sv_files k
    \<or> r = Inr () \<and> (\<exists>rec. keeps (st_codec cfg) (sv_files k') s rec \<and> sr_status rec = Built))"
proof -
  obtain r1 k1 where d: "on_world (beside (nd_date n)) k = (r1, k1)" by (cases "on_world (beside (nd_date n)) k")
  have m: "mute k k1" using movesD [OF mute_read d] .
  show ?thesis
  proof (cases r1)
    case (Inl e)
    then have "r = Inl e" "k' = k1" using assms(1) d by (simp_all add: save_built_def bindS_def)
    then show ?thesis using m by (simp add: mute_def)
  next
    case (Inr stamp)
    obtain fs' rec where b: "store_built (st_codec cfg) (st_pid cfg) stamp s (sv_files k1) = Inr fs'" "keeps (st_codec cfg) fs' s rec" "sr_status rec = Built"
      by (rule built_keeps [OF assms(2)])
    then have "r = Inr ()" "k' = k1\<lparr>sv_files := fs'\<rparr>" using assms(1) d Inr by (simp_all add: save_built_def bindS_def on_files_def)
    then show ?thesis using m b by (auto simp: mute_def asked_of_def)
  qed
qed

text \<open>
  C10. The bytes are on disk before anything leaves: submit either ends with the store untouched and nothing
  handed to the node, or it reaches the broadcast in a state where the head just read is inside the window
  and the store reads the solution back, byte for byte, as built. And however the broadcast ends, timeouts
  and exceptions included, the store still reads it back, with what became of it.
\<close>

theorem submit_writes_first:
  assumes "submit cfg (watched n) s k = (r, k')" "codec_ok (st_codec cfg) s"
  shows "(sv_files k' = sv_files k \<and> (\<forall>d. Sending d \<notin> set (drop (length (asked_of k)) (asked_of k')))) \<or>
    (\<exists>k1 t rec0 rec. asked_of k1 = asked_of k @ [Head t] \<and> t \<le> s_batchId s + 10 \<and> keeps (st_codec cfg) (sv_files k1) s rec0
       \<and> sr_status rec0 = Built \<and> broadcast cfg (watched n) s k1 = (r, k')
       \<and> keeps (st_codec cfg) (sv_files k') s rec \<and> outcome_recorded r rec)"
proof -
  let ?ask = "awaited (noting note_head (nd_timestamp n))"
  obtain r1 k1 where h: "?ask k = (r1, k1)" by (cases "?ask k")
  obtain a where a: "asked_of k1 = asked_of k @ note_head a" "sv_files k1 = sv_files k" "\<forall>v. r1 = Inr v \<longleftrightarrow> a = Inr (Inr v)"
    by (rule noted_awaited [OF h])
  have heads: "\<forall>d. Sending d \<notin> set (note_head a)" by (auto simp: note_head_def split: sum.splits)
  show ?thesis
  proof (cases "\<exists>t. r1 = Inr t \<and> t \<le> s_batchId s + SOLVER_SOLUTION_WINDOW")
    case False
    then have "k' = k1" using assms(1) h by (auto simp: submit_def Let_def bindS_def pureS_def split: sum.splits)
    then show ?thesis using a heads by simp
  next
    case True
    then obtain t where t: "r1 = Inr t" "t \<le> s_batchId s + 10" by (auto simp: SOLVER_SOLUTION_WINDOW_def)
    then have head: "asked_of k1 = asked_of k @ [Head t]" using a by (simp add: note_head_def)
    let ?sim = "on_world (beside (nd_call n (SubmitSolution s) None))"
    obtain r2 k2 where c: "?sim k1 = (r2, k2)" by (cases "?sim k1")
    have m: "mute k1 k2" using movesD [OF mute_read c] .
    let ?save = "save_built cfg (watched n) s"
    obtain r3 k3 where b: "?save k2 = (r3, k3)" by (cases "?save k2")
    have run: "submit cfg (watched n) s k = (case r2 of Inl e \<Rightarrow> (Inl e, k2) | Inr (Some e) \<Rightarrow> (Inr (SimulationReverted (name_revert (st_decode cfg) e)), k2)
        | Inr None \<Rightarrow> (case r3 of Inl e \<Rightarrow> (Inl e, k3) | Inr _ \<Rightarrow> broadcast cfg (watched n) s k3))"
      using h t c b by (auto simp: submit_def Let_def bindS_def io_simps SOLVER_SOLUTION_WINDOW_def split: sum.splits option.splits)
    have saved: "asked_of k3 = asked_of k2 \<and> ((\<exists>e. r3 = Inl e) \<and> sv_files k3 = sv_files k2
      \<or> r3 = Inr () \<and> (\<exists>rec. keeps (st_codec cfg) (sv_files k3) s rec \<and> sr_status rec = Built))"
      by (rule save_built_run [OF b assms(2)])
    show ?thesis
    proof (cases "r2 = Inr None \<and> r3 = Inr ()")
      case False
      then have "sv_files k' = sv_files k \<and> asked_of k' = asked_of k @ [Head t]"
        using run assms(1) saved m head a(2) by (auto simp: mute_def split: sum.splits option.splits)
      then show ?thesis by simp
    next
      case True
      then obtain rec where rec: "keeps (st_codec cfg) (sv_files k3) s rec" "sr_status rec = Built" using saved by auto
      have "broadcast cfg (watched n) s k3 = (r, k')" using run assms(1) True by simp
      moreover have "recorded cfg s (r, k')" using broadcast_recorded [OF assms(2) rec, of n] calculation by simp
      moreover have "asked_of k3 = asked_of k @ [Head t]" using saved m head by (simp add: mute_def)
      ultimately show ?thesis using rec t(2) unfolding recorded_def by auto
    qed
  qed
qed

section \<open>What a restart takes up\<close>

text \<open>What a batch is owed by what the store says of it when the process starts, at a head.\<close>

definition owed :: "setting \<Rightarrow> files \<Rightarrow> int \<Rightarrow> string \<Rightarrow> recovered list" where
  "owed cfg fs head b =
     (case read_record (st_codec cfg) fs b of
        Inr (Inr (rec, s)) \<Rightarrow>
          if sr_status rec \<notin> {Built, Submitted, Best} then []
          else if head \<le> decimal_value b + 310 then [HandedOn (decimal_value b) s]
          else [LetGo (decimal_value b) (let_go_reason (sr_status rec) (decimal_value b + 310) head)]
      | _ \<Rightarrow> [])"

text \<open>Each record names the batch of its file, as the store writes it.\<close>

definition files_ok :: "codec \<Rightarrow> files \<Rightarrow> bool" where
  "files_ok cd fs \<longleftrightarrow> distinct (map fst fs) \<and> (\<forall>b rec s. read_record cd fs b = Inr (Inr (rec, s)) \<longrightarrow> sr_batchId rec = b)"

lemma batch_ids_distinct: "distinct (map fst fs) \<Longrightarrow> distinct (batch_ids fs)"
proof -
  assume "distinct (map fst fs)"
  moreover have "inj_on (\<lambda>f. take (length f - 5) f) {f. is_record_name f}"
  proof (rule inj_onI)
    fix f g assume fg: "f \<in> {f. is_record_name f}" "g \<in> {f. is_record_name f}" "take (length f - 5) f = take (length g - 5) g"
    then have "drop (length f - 5) f = drop (length g - 5) g" by (simp add: is_record_name_def Let_def)
    then show "f = g" using fg(3) by (metis append_take_drop_id)
  qed
  ultimately show ?thesis unfolding batch_ids_def
    by (subst distinct_map) (auto intro: inj_on_subset simp del: distinct_map)
qed

lemma updated_elsewhere:
  assumes "store_update cd pid stamp b p fs = Inr fs'" "read_record cd fs b = Inr (Inr (rec, s))" "sr_batchId rec = b" "patches p" "b' \<noteq> b"
  shows "read_record cd fs' b' = read_record cd fs b'"
proof -
  have "fs' = write_record cd pid ((p rec)\<lparr>sr_updatedAt := stamp\<rparr>) fs" using assms(1,2) by (simp add: store_update_def)
  then show ?thesis using assms(3-5) by (simp add: read_written_other patches_def)
qed

lemma recover_one_unfold:
  "recover_one cfg n head b k = (case read_record (st_codec cfg) (sv_files k) b of
       Inl e \<Rightarrow> (Inl e, k) | Inr (Inl reason) \<Rightarrow> (Inr [], k)
     | Inr (Inr (rec, s)) \<Rightarrow> if sr_status rec \<notin> {Built, Submitted, Best} then (Inr [], k)
         else if head \<le> decimal_value b + 310 then (Inr [HandedOn (decimal_value b) s], k)
         else (case save cfg n b (set_status Abandoned (let_go_reason (sr_status rec) (decimal_value b + 310) head)) k of
             (Inl e, k') \<Rightarrow> (Inl e, k') | (Inr u, k') \<Rightarrow> (Inr [LetGo (decimal_value b) (let_go_reason (sr_status rec) (decimal_value b + 310) head)], k')))"
  by (auto simp: recover_one_def bindS_def pureS_def Let_def SOLVER_SOLUTION_WINDOW_def SOLVER_FINALIZE_DEADLINE_def add.assoc split: sum.split prod.split)

lemma recover_one_owed:
  assumes "recover_one cfg n head b k = (Inr l, k')"
    and "\<And>rec s. read_record (st_codec cfg) (sv_files k) b = Inr (Inr (rec, s)) \<Longrightarrow> sr_batchId rec = b"
  shows "l = owed cfg (sv_files k) head b"
    "\<And>b'. b' \<noteq> b \<Longrightarrow> read_record (st_codec cfg) (sv_files k') b' = read_record (st_codec cfg) (sv_files k) b'"
proof -
  show "l = owed cfg (sv_files k) head b"
    using assms(1) by (auto simp: recover_one_unfold owed_def split: sum.splits if_splits prod.splits)
  show "read_record (st_codec cfg) (sv_files k') b' = read_record (st_codec cfg) (sv_files k) b'" if "b' \<noteq> b" for b'
  proof (cases "k' = k")
    case False
    then obtain rec s p u where rec: "read_record (st_codec cfg) (sv_files k) b = Inr (Inr (rec, s))" "save cfg n b p k = (Inr u, k')" "patches p"
      using assms(1) by (auto simp: recover_one_unfold split: sum.splits if_splits prod.splits)
    then obtain stamp where "store_update (st_codec cfg) (st_pid cfg) stamp b p (sv_files k) = Inr (sv_files k')"
      by (auto simp: save_def bindS_def on_world_def on_files_def split: prod.splits sum.splits)
    then show ?thesis by (rule updated_elsewhere [OF _ rec(1) assms(2) [OF rec(1)] rec(3) that])
  qed simp
qed

lemma owed_cong: "read_record (st_codec cfg) fs b = read_record (st_codec cfg) fs' b \<Longrightarrow> owed cfg fs head b = owed cfg fs' head b"
  by (simp add: owed_def)

lemma recover_walk:
  assumes "mapS (recover_one cfg n head) bs k = (Inr rs, k')" "distinct bs"
    and "\<And>b rec s. b \<in> set bs \<Longrightarrow> read_record (st_codec cfg) (sv_files k) b = Inr (Inr (rec, s)) \<Longrightarrow> sr_batchId rec = b"
  shows "rs = map (owed cfg (sv_files k) head) bs"
  using assms
proof (induction bs arbitrary: k rs)
  case (Cons b bs)
  obtain l k1 ls where one: "recover_one cfg n head b k = (Inr l, k1)" "mapS (recover_one cfg n head) bs k1 = (Inr ls, k')" "rs = l # ls"
    using Cons.prems(1) by (auto simp: bindS_Inr pureS_def)
  have here: "sr_batchId rec = b" if "read_record (st_codec cfg) (sv_files k) b = Inr (Inr (rec, s))" for rec s
    using that by (rule Cons.prems(3) [OF list.set_intros(1)])
  have first: "l = owed cfg (sv_files k) head b" by (rule recover_one_owed(1) [OF one(1) here])
  have same: "read_record (st_codec cfg) (sv_files k1) b' = read_record (st_codec cfg) (sv_files k) b'" if "b' \<in> set bs" for b'
    by (rule recover_one_owed(2) [OF one(1) here]) (use that Cons.prems(2) in auto)
  have "ls = map (owed cfg (sv_files k1) head) bs"
    by (rule Cons.IH [OF one(2)]) (use Cons.prems(2,3) same in auto)
  also have "\<dots> = map (owed cfg (sv_files k) head) bs" using same by (auto intro!: owed_cong)
  finally show ?case using first one(3) by simp
qed (simp add: pureS_def)

text \<open>
  C12. A restart takes up exactly what the previous process left open: of the files of the store, every
  readable record still built, submitted or best goes to the finalizer with the solution it holds while its
  deadline has not passed at the head just read, and is let go otherwise; every other one is left alone.
\<close>

theorem recover_exactly_what_is_owed:
  assumes "recover cfg n k = (Inr rs, k')" "files_ok (st_codec cfg) (sv_files k)"
  shows "\<exists>head w. nd_timestamp n (sv_world k) = (Inr (Inr head), w) \<and> rs = concat (map (owed cfg (sv_files k) head) (batch_ids (sv_files k)))"
proof -
  obtain head k1 where h: "awaited (nd_timestamp n) k = (Inr head, k1)" "bindS (mapS (recover_one cfg n head) (batch_ids (sv_files k1))) (\<lambda>rs. pureS (concat rs)) k1 = (Inr rs, k')"
    using assms(1) by (auto simp: recover_def bindS_Inr getS_def)
  then obtain ls where ls: "mapS (recover_one cfg n head) (batch_ids (sv_files k1)) k1 = (Inr ls, k')" "rs = concat ls" by (auto simp: bindS_Inr pureS_def)
  obtain w where w: "nd_timestamp n (sv_world k) = (Inr (Inr head), w)" "k1 = k\<lparr>sv_world := w\<rparr>"
    using h(1) by (auto simp: awaited_def bindS_def on_world_def io_simps split: prod.splits sum.splits)
  then have "ls = map (owed cfg (sv_files k1) head) (batch_ids (sv_files k1))"
    using recover_walk [OF ls(1)] assms(2) batch_ids_distinct by (simp add: files_ok_def)
  then show ?thesis using w ls(2) by simp
qed

section \<open>A small node\<close>

text \<open>
  A node whose world is its time and the number of transactions that reached it. It takes every
  transaction; whether it answers the one who sends it, and whether it answers for the receipt, is given.
\<close>

definition sample_receipt :: tx_receipt where
  "sample_receipt = \<lparr>rc_success = True, rc_block = 7, rc_logs = [IntentSettled, BatchSettled 2000]\<rparr>"

definition sample_node :: "bool \<Rightarrow> bool \<Rightarrow> (int \<times> nat) node" where
  "sample_node answers_send answers_receipt =
     \<lparr>nd_timestamp = getS (\<lambda>(t, l). Inr t), nd_call = (\<lambda>d b. pureS None), nd_estimate = (\<lambda>d. pureS (Inr 100)), nd_nonce = getS (\<lambda>(t, l). Inr (int l)),
      nd_send = (\<lambda>d g x. bindS (modS (\<lambda>(t, l). (t, l + 1)))
        (\<lambda>_. pureS (if answers_send then Inr ''0xf1'' else Inl (BaseError ''The request took too long to respond.'' [])))),
      nd_receipt = (\<lambda>tx ms. pureS (if answers_receipt then Inr sample_receipt else Inl (BaseError ''Timed out while waiting.'' []))),
      nd_best = (\<lambda>b. getS (\<lambda>(t, l). Inr (if 0 < l then (''0xabf'', 2000, ''0x7'') else (''0x0'', 0, ''0x0'')))),
      nd_date = pureS ''now''\<rparr>"

definition sample_setting :: setting where
  "sample_setting = \<lparr>st_codec = sample_codec, st_pid = ''9'', st_account = ''0x7'', st_decode = (\<lambda>_. None)\<rparr>"

definition idle :: "int \<Rightarrow> (int \<times> nat) service" where
  "idle t = \<lparr>sv_files = [], sv_world = (t, 0)\<rparr>"

definition status_of :: "files \<Rightarrow> string \<Rightarrow> bstatus option" where
  "status_of fs b = (case read_record sample_codec fs b of Inr (Inr (rec, s)) \<Rightarrow> Some (sr_status rec) | _ \<Rightarrow> None)"


text \<open>
  The receipt of a finalize does not come within its thirty seconds: the exception ends the task in the
  middle, with nothing written down, and no later block, not even past the deadline, has any effect.
\<close>

lemma late_receipt_ends_the_task:
  "let s = sp_solution sample_plan; k = snd (submit sample_setting (sample_node True True) s (idle 65));
       p = finalize_won sample_setting (sample_node True False) s [Block 1 71, Block 2 72, Block 3 400] k
   in fst p = Threw (Thrown ''Timed out while waiting.'') \<and> status_of (sv_files (snd p)) ''60'' = Some Best"
  by code_simp

definition best_record :: stored where
  "best_record = sample_record\<lparr>sr_status := Best, sr_submitTx := Some ''0xf1''\<rparr>"

definition won_service :: "((int \<times> nat) \<times> send_event list) service" where
  "won_service = \<lparr>sv_files = [(''60.json'', sample_render best_record)], sv_world = ((65, 1), [])\<rparr>"

lemma won_keeps: "keeps (st_codec sample_setting) (sv_files won_service) (sp_solution sample_plan) best_record"
  by code_simp

lemma sample_setting_codec: "codec_ok (st_codec sample_setting) (sp_solution sample_plan)"
  using sample_codec_ok by (simp add: sample_setting_def)

theorem finalize_only_what_it_won_witness:
  "\<exists>as bs. asked_of (snd (finalize_won sample_setting (watched (sample_node True True)) (sp_solution sample_plan) [Block 1 71] won_service))
     = Named ''0xabf'' ''0x7'' # as @ bs \<and> attempt_asks (sp_solution sample_plan) as \<and> attempt_asks (sp_solution sample_plan) bs \<and> as @ bs \<noteq> []"
proof -
  let ?s = "sp_solution sample_plan" and ?n = "sample_node True True"
  obtain st k' where run: "finalize_won sample_setting (watched ?n) ?s [Block 1 71] won_service = (st, k')"
    by (cases "finalize_won sample_setting (watched ?n) ?s [Block 1 71] won_service")
  have asked: "asked_of (snd (finalize_won sample_setting (watched ?n) ?s [Block 1 71] won_service))
    = [Named ''0xabf'' ''0x7'', Head 65, Sending (Finalize ?s), Taken (Finalize ?s)]" by code_simp
  have "asked_of won_service = []" by (simp add: asked_of_def won_service_def)
  then obtain es where "asked_of k' = es" "es = [] \<or> (\<exists>h w as bs. es = Named h w # as @ bs \<and> attempt_asks ?s as \<and> attempt_asks ?s bs
     \<and> (as @ bs \<noteq> [] \<longrightarrow> lower w = lower (st_account sample_setting) \<and> h = sr_hash best_record))"
    using finalize_only_what_it_won [OF run won_keeps] by auto
  moreover from this have es: "es = [Named ''0xabf'' ''0x7'', Head 65, Sending (Finalize ?s), Taken (Finalize ?s)]" using asked run by simp
  ultimately obtain h w as bs where parts: "es = Named h w # as @ bs" "attempt_asks ?s as" "attempt_asks ?s bs" by auto
  then have "es = Named ''0xabf'' ''0x7'' # as @ bs" "as @ bs \<noteq> []" using es by auto
  then show ?thesis using parts(2,3) \<open>asked_of k' = es\<close> run by (intro exI [of _ as] exI [of _ bs]) simp
qed

theorem finalize_writes_the_outcome_witness:
  "\<exists>rec'. keeps sample_codec (sv_files (snd (finalize_won sample_setting (watched (sample_node True True)) (sp_solution sample_plan) [Block 1 71] won_service)))
     (sp_solution sample_plan) rec' \<and> sr_status rec' = Finalized \<and> sr_finalizeTx rec' = Some ''0xf1'' \<and> sr_reason rec' = Some ''BatchSettled''"
proof -
  let ?s = "sp_solution sample_plan" and ?n = "sample_node True True"
  obtain st k' where run: "finalize_won sample_setting (watched ?n) ?s [Block 1 71] won_service = (st, k')"
    by (cases "finalize_won sample_setting (watched ?n) ?s [Block 1 71] won_service")
  have "fst (finalize_won sample_setting (watched ?n) ?s [Block 1 71] won_service) = Over \<lparr>fo_status = Finalized, fo_tx = Some ''0xf1'',
    fo_block = Some 7, fo_result = ''BatchSettled'', fo_intentsSettled = 1, fo_savingsUsd = 2000\<rparr>" by code_simp
  then have "st = Over \<lparr>fo_status = Finalized, fo_tx = Some ''0xf1'', fo_block = Some 7, fo_result = ''BatchSettled'', fo_intentsSettled = 1,
    fo_savingsUsd = 2000\<rparr>" using run by simp
  then show ?thesis using finalize_writes_the_outcome [OF run won_keeps sample_setting_codec] run by (simp add: sample_setting_def)
qed

theorem finalizer_lets_go_witness:
  "ended (fst (finalize_won sample_setting (sample_node False False) (sp_solution sample_plan)
     [PollError (BaseError ''fetch failed'' []), Block 1 60, Block 2 371] (idle 65)))"
proof -
  have "Block 2 371 \<in> set [PollError (BaseError ''fetch failed'' []), Block 1 60, Block 2 371]" by simp
  moreover have "371 > fin_deadline (sp_solution sample_plan)" by code_simp
  ultimately show ?thesis by (intro finalizer_lets_go) blast
qed

theorem submit_writes_first_witness:
  "\<exists>rec. keeps sample_codec (sv_files (snd (submit sample_setting (watched (sample_node True False)) (sp_solution sample_plan)
       \<lparr>sv_files = [], sv_world = ((70, 0), [])\<rparr>))) (sp_solution sample_plan) rec \<and> sr_submitTx rec = Some ''0xf1''"
proof -
  let ?s = "sp_solution sample_plan" and ?n = "sample_node True False" and ?k = "\<lparr>sv_files = [], sv_world = ((70 :: int, 0 :: nat), [])\<rparr>"
  obtain r k' where run: "submit sample_setting (watched ?n) ?s ?k = (r, k')" by (cases "submit sample_setting (watched ?n) ?s ?k")
  have asked: "asked_of (snd (submit sample_setting (watched ?n) ?s ?k)) = [Head 70, Sending (SubmitSolution ?s), Taken (SubmitSolution ?s), Head 70]"
    by code_simp
  have out: "fst (submit sample_setting (watched ?n) ?s ?k) = Inr (SubmitReverted (Some ''0xf1'') ''no receipt inside the window, Timed out while waiting.'')"
    by code_simp
  have start: "asked_of ?k = []" by (simp add: asked_of_def)
  have "Sending (SubmitSolution ?s) \<in> set (drop (length (asked_of ?k)) (asked_of k'))" using asked run start by simp
  then obtain rec where "keeps (st_codec sample_setting) (sv_files k') ?s rec" "outcome_recorded r rec"
    using submit_writes_first [OF run sample_setting_codec] by blast
  then show ?thesis using out run by (auto simp: outcome_recorded_def sample_setting_def)
qed

theorem recover_exactly_what_is_owed_witness:
  "fst (recover sample_setting (watched (sample_node True True)) won_service) = Inr [HandedOn 60 (sp_solution sample_plan)]"
proof -
  let ?n = "watched (sample_node True True)"
  have "fst (recover sample_setting ?n won_service) = Inr [HandedOn 60 (sp_solution sample_plan)]" by code_simp
  then obtain rs k' where run: "recover sample_setting ?n won_service = (Inr rs, k')" by (cases "recover sample_setting ?n won_service") auto
  have "b = ''60''" if "map_of (sv_files won_service) (record_path b) \<noteq> None" for b
  proof -
    have "record_path b = ''60'' @ ''.json''" using that by (simp add: won_service_def split: if_splits)
    then show ?thesis unfolding record_path_def by (rule append_same_eq [THEN iffD1])
  qed
  then have only: "read_record (st_codec sample_setting) (sv_files won_service) b = Inr (Inr (rec, s)) \<Longrightarrow> b = ''60''" for b rec s
    by (auto simp: read_record_def split: option.splits)
  have "read_record (st_codec sample_setting) (sv_files won_service) ''60'' = Inr (Inr (best_record, sp_solution sample_plan))" by code_simp
  moreover have "sr_batchId best_record = ''60''" by (simp add: best_record_def sample_record_def)
  ultimately have "sr_batchId rec = b" if "read_record (st_codec sample_setting) (sv_files won_service) b = Inr (Inr (rec, s))" for b rec s
    using that only [OF that] by simp
  moreover have "distinct (map fst (sv_files won_service))" by (simp add: won_service_def)
  ultimately have "files_ok (st_codec sample_setting) (sv_files won_service)" unfolding files_ok_def by blast
  then obtain head w where h: "nd_timestamp ?n (sv_world won_service) = (Inr (Inr head), w)"
    "rs = concat (map (owed sample_setting (sv_files won_service) head) (batch_ids (sv_files won_service)))"
    using recover_exactly_what_is_owed [OF run] by blast
  have "head = 65" using h(1) by (simp add: sample_node_def won_service_def noting_def getS_def)
  moreover have "concat (map (owed sample_setting (sv_files won_service) 65) (batch_ids (sv_files won_service))) = [HandedOn 60 (sp_solution sample_plan)]"
    by code_simp
  ultimately show ?thesis using run h(2) by simp
qed

end
