(* ===== verification/SolverRun.thy ===== *)
theory SolverRun
  imports Submission
begin

text \<open>
  solver/src/run.ts: one batch from the coordinator's frozen feed to its settlement, composed of the
  solver, the checks, the submission and the finalizer, and the service that follows the stream, keeps at
  most eight batches in flight and counts how each one ended. Wall clock figures are left out.
\<close>

section \<open>One batch\<close>

datatype line_status = Ended_as bstatus | Window_missed | Simulation_reverted | Submit_reverted | Empty | Infeasible | Failed_with_error

text \<open>The detail of a line: a text, the violations preflight found, or the intents that were dropped.\<close>

datatype line_detail = Text string | RefusedBy "violation list" bool | AllDropped "string list"

record batch_line =
  bl_batchId :: int
  bl_intents :: nat
  bl_status :: line_status
  bl_submitTx :: "hex option"
  bl_finalizeTx :: "hex option"
  bl_savingsUsd :: int
  bl_detail :: line_detail

text \<open>What a batch asks of the coordinator and the chain beside the transactions. What is read at one block is a function of it.\<close>

record 'w batch_reads =
  br_fetch :: "int \<Rightarrow> ('w, feed_answer) asked"
  br_nonceUsed :: "address \<Rightarrow> int \<Rightarrow> ('w, bool) asked"
  br_blockNumber :: "('w, int) asked"
  br_quoteToken :: "js_error + address"
  br_at :: "int \<Rightarrow> block_reads"
  br_quotes :: "int \<Rightarrow> quotes"
  br_exposure :: "int \<Rightarrow> exposure_reads"






definition blank_line :: "int \<Rightarrow> batch_line" where
  "blank_line batchId = \<lparr>bl_batchId = batchId, bl_intents = 0, bl_status = Failed_with_error, bl_submitTx = None, bl_finalizeTx = None,
     bl_savingsUsd = 0, bl_detail = Text []\<rparr>"




text \<open>The line of a batch once its finalizer is over, and of one that an exception ended.\<close>

definition error_line :: "int \<Rightarrow> js_error \<Rightarrow> batch_line" where
  "error_line batchId e = (blank_line batchId)\<lparr>bl_detail := Text (first_line (error_message e))\<rparr>"

definition final_line :: "batch_line \<Rightarrow> finalizer \<Rightarrow> batch_line option" where
  "final_line line st =
     (case st of
        Over fin \<Rightarrow> Some (line\<lparr>bl_status := Ended_as (fo_status fin), bl_finalizeTx := fo_tx fin, bl_savingsUsd := fo_savingsUsd fin, bl_detail := Text (fo_result fin)\<rparr>)
      | Threw e \<Rightarrow> Some (error_line (bl_batchId line) e)
      | _ \<Rightarrow> None)"

section \<open>What one batch may send\<close>

definition watched_reads :: "'w batch_reads \<Rightarrow> ('w \<times> send_event list) batch_reads" where
  "watched_reads rd = \<lparr>br_fetch = (\<lambda>b. beside (br_fetch rd b)), br_nonceUsed = (\<lambda>a x. beside (br_nonceUsed rd a x)),
     br_blockNumber = beside (br_blockNumber rd), br_quoteToken = br_quoteToken rd, br_at = br_at rd, br_quotes = br_quotes rd,
     br_exposure = br_exposure rd\<rparr>"

lemma watched_reads_simps [simp]:
  "br_fetch (watched_reads rd) b = beside (br_fetch rd b)" "br_nonceUsed (watched_reads rd) a x = beside (br_nonceUsed rd a x)"
  "br_blockNumber (watched_reads rd) = beside (br_blockNumber rd)" "br_quoteToken (watched_reads rd) = br_quoteToken rd"
  "br_at (watched_reads rd) = br_at rd" "br_quotes (watched_reads rd) = br_quotes rd" "br_exposure (watched_reads rd) = br_exposure rd"
  by (simp_all add: watched_reads_def)











section \<open>From the feed to the chain\<close>












section \<open>The service\<close>

definition MAX_TRACKED_BATCHES :: nat where "MAX_TRACKED_BATCHES = 8"

record run_state =
  rs_seen :: "string list"
  rs_inflight :: "int list"
  rs_processed :: nat
  rs_counts :: "(line_status \<times> nat) list"
  rs_lines :: "batch_line list"
  rs_stopping :: bool

definition count_status :: "line_status \<Rightarrow> (line_status \<times> nat) list \<Rightarrow> (line_status \<times> nat) list" where
  "count_status st m = AList.update st ((case map_of m st of None \<Rightarrow> 0 | Some n \<Rightarrow> n) + 1) m"

definition record_line :: "batch_line \<Rightarrow> run_state \<Rightarrow> run_state" where
  "record_line l rs = rs\<lparr>rs_processed := rs_processed rs + 1, rs_counts := count_status (bl_status l) (rs_counts rs), rs_lines := rs_lines rs @ [l]\<rparr>"

definition track :: "int \<Rightarrow> run_state \<Rightarrow> run_state" where
  "track b rs = rs\<lparr>rs_inflight := (if b \<in> set (rs_inflight rs) then rs_inflight rs else rs_inflight rs @ [b])\<rparr>"

definition task_over :: "int \<Rightarrow> batch_line \<Rightarrow> run_state \<Rightarrow> run_state" where
  "task_over b l rs = (record_line l rs)\<lparr>rs_inflight := removeAll b (rs_inflight rs)\<rparr>"

text \<open>A recovered batch is seen and tracked before the stream is joined.\<close>

definition resume :: "int \<Rightarrow> run_state \<Rightarrow> run_state" where
  "resume b rs = track b (rs\<lparr>rs_seen := decimal b # rs_seen rs\<rparr>)"

definition begin_run :: "int list \<Rightarrow> run_state" where
  "begin_run ids = fold resume ids \<lparr>rs_seen = [], rs_inflight = [], rs_processed = 0, rs_counts = [], rs_lines = [], rs_stopping = False\<rparr>"

definition too_many :: "int \<Rightarrow> nat \<Rightarrow> batch_line" where
  "too_many b intents = (blank_line b)\<lparr>bl_intents := intents, bl_status := Ended_as Abandoned, bl_detail := Text ''8 batches already in flight''\<rparr>"

definition on_close :: "string \<Rightarrow> nat \<Rightarrow> run_state \<Rightarrow> run_state" where
  "on_close bid intents rs =
     (if rs_stopping rs \<or> bid \<in> set (rs_seen rs) then rs
      else let rs = rs\<lparr>rs_seen := bid # rs_seen rs\<rparr>; b = decimal_value bid in
        if length (rs_inflight rs) \<ge> MAX_TRACKED_BATCHES then record_line (too_many b intents) rs else track b rs)"

text \<open>
  What happens while the service runs: the stream closes a batch, a task ends with the line of its batch,
  its own or the backstop's, and a signal or the end of its duration stops it.
\<close>

inductive run_step :: "run_state \<Rightarrow> run_state \<Rightarrow> bool" where
  Closes: "0 \<le> b \<Longrightarrow> run_step rs (on_close (decimal b) intents rs)"
| Ends: "b \<in> set (rs_inflight rs) \<Longrightarrow> bl_batchId l = b \<Longrightarrow> run_step rs (task_over b l rs)"
| Stops: "run_step rs (rs\<lparr>rs_stopping := True\<rparr>)"

inductive running :: "int list \<Rightarrow> run_state \<Rightarrow> bool" for ids where
  Begins: "running ids (begin_run ids)"
| Goes_on: "running ids rs \<Longrightarrow> run_step rs rs' \<Longrightarrow> running ids rs'"

definition run_inv :: "nat \<Rightarrow> run_state \<Rightarrow> bool" where
  "run_inv limit rs \<longleftrightarrow> distinct (map bl_batchId (rs_lines rs) @ rs_inflight rs)
     \<and> (\<forall>b\<in>set (map bl_batchId (rs_lines rs) @ rs_inflight rs). 0 \<le> b)
     \<and> set (rs_seen rs) = decimal ` set (map bl_batchId (rs_lines rs) @ rs_inflight rs)
     \<and> length (rs_inflight rs) \<le> limit
     \<and> rs_processed rs = length (rs_lines rs) \<and> distinct (map fst (rs_counts rs))
     \<and> (\<forall>st. (case map_of (rs_counts rs) st of None \<Rightarrow> 0 | Some n \<Rightarrow> n) = length (filter (\<lambda>l. bl_status l = st) (rs_lines rs)))"

lemma counted:
  assumes "\<forall>st. (case map_of m st of None \<Rightarrow> 0 | Some n \<Rightarrow> n) = length (filter (\<lambda>l. bl_status l = st) ls)" "distinct (map fst m)"
  shows "distinct (map fst (count_status (bl_status l) m))
    \<and> (\<forall>st. (case map_of (count_status (bl_status l) m) st of None \<Rightarrow> 0 | Some n \<Rightarrow> n) = length (filter (\<lambda>l. bl_status l = st) (ls @ [l])))"
  using assms by (auto simp: count_status_def distinct_keys_update)

lemma close_inv:
  assumes "run_inv limit rs" "0 \<le> b" "MAX_TRACKED_BATCHES \<le> limit"
  shows "run_inv limit (on_close (decimal b) intents rs)"
proof (cases "rs_stopping rs \<or> decimal b \<in> set (rs_seen rs)")
  case False
  have new: "b \<notin> set (map bl_batchId (rs_lines rs) @ rs_inflight rs)" using False assms(1) by (auto simp: run_inv_def)
  have c: "distinct (map fst (count_status (bl_status (too_many b intents)) (rs_counts rs)))
    \<and> (\<forall>st. (case map_of (count_status (bl_status (too_many b intents)) (rs_counts rs)) st of None \<Rightarrow> 0 | Some n \<Rightarrow> n)
        = length (filter (\<lambda>l. bl_status l = st) (rs_lines rs @ [too_many b intents])))"
    by (rule counted) (use assms(1) in \<open>simp_all add: run_inv_def\<close>)
  have id: "bl_batchId (too_many b intents) = b" by (simp add: too_many_def blank_line_def)
  show ?thesis
  proof (cases "length (rs_inflight rs) \<ge> MAX_TRACKED_BATCHES")
    case True
    then show ?thesis using False assms new c id unfolding run_inv_def on_close_def by (simp add: Let_def record_line_def)
  next
    case less: False
    then show ?thesis using False assms new unfolding run_inv_def on_close_def by (simp add: Let_def track_def)
  qed
qed (use assms(1) in \<open>auto simp: on_close_def\<close>)

lemma over_inv:
  assumes "run_inv limit rs" "b \<in> set (rs_inflight rs)" "bl_batchId l = b"
  shows "run_inv limit (task_over b l rs)"
proof -
  have c: "distinct (map fst (count_status (bl_status l) (rs_counts rs)))
    \<and> (\<forall>st. (case map_of (count_status (bl_status l) (rs_counts rs)) st of None \<Rightarrow> 0 | Some n \<Rightarrow> n)
        = length (filter (\<lambda>l. bl_status l = st) (rs_lines rs @ [l])))"
    by (rule counted) (use assms(1) in \<open>simp_all add: run_inv_def\<close>)
  have "length (removeAll b (rs_inflight rs)) \<le> limit" using assms(1) le_trans [OF length_removeAll_less_eq] by (auto simp: run_inv_def)
  then show ?thesis using assms c unfolding run_inv_def task_over_def by (simp add: record_line_def distinct_removeAll) auto
qed

lemma begin_inv:
  assumes "distinct ids" "\<forall>b\<in>set ids. 0 \<le> b"
  shows "run_inv (length ids) (begin_run ids)"
proof -
  have f: "rs_inflight (fold resume ids rs) = rs_inflight rs @ ids \<and> rs_seen (fold resume ids rs) = rev (map decimal ids) @ rs_seen rs
      \<and> rs_lines (fold resume ids rs) = rs_lines rs \<and> rs_processed (fold resume ids rs) = rs_processed rs \<and> rs_counts (fold resume ids rs) = rs_counts rs"
    if "distinct (rs_inflight rs @ ids)" for rs
    using that
  proof (induction ids arbitrary: rs)
    case (Cons b ids)
    then show ?case using Cons.IH [of "resume b rs"] by (auto simp: resume_def track_def)
  qed simp
  let ?rs0 = "\<lparr>rs_seen = [], rs_inflight = [], rs_processed = 0, rs_counts = [], rs_lines = [], rs_stopping = False\<rparr>"
  show ?thesis using f [of ?rs0] assms by (simp add: begin_run_def run_inv_def)
qed

lemma running_inv:
  assumes "running ids rs" "distinct ids" "\<forall>b\<in>set ids. 0 \<le> b"
  shows "run_inv (max 8 (length ids)) rs"
  using assms(1)
proof induction
  case Begins
  then show ?case using begin_inv [OF assms(2,3)] by (auto simp: run_inv_def)
next
  case (Goes_on rs rs')
  from Goes_on.hyps(2) show ?case
  proof (cases rule: run_step.cases)
    case (Closes b intents)
    then show ?thesis using close_inv [OF Goes_on.IH] by (simp add: MAX_TRACKED_BATCHES_def)
  next
    case (Ends b l)
    then show ?thesis using over_inv [OF Goes_on.IH] by simp
  next
    case Stops
    then show ?thesis using Goes_on.IH by (simp add: run_inv_def)
  qed
qed

lemma sum_of_counts:
  assumes "\<forall>st. (case map_of m st of None \<Rightarrow> 0 | Some n \<Rightarrow> n) = length (filter (\<lambda>l. f l = st) ls)" "distinct (map fst m)"
  shows "(\<Sum>(st, n)\<leftarrow>m. n) = length ls"
proof -
  have "(\<Sum>(st, n)\<leftarrow>m. n) = (\<Sum>st\<in>fst ` set m. length (filter (\<lambda>l. f l = st) ls))"
  proof -
    have "n = length (filter (\<lambda>l. f l = st) ls)" if "(st, n) \<in> set m" for st n
      using assms(1) [rule_format, of st] map_of_is_SomeI [OF assms(2) that] by simp
    then have "(\<Sum>(st, n)\<leftarrow>m. n) = (\<Sum>p\<leftarrow>m. length (filter (\<lambda>l. f l = fst p) ls))" by (intro arg_cong [where f = sum_list] map_cong) auto
    also have "\<dots> = (\<Sum>st\<leftarrow>map fst m. length (filter (\<lambda>l. f l = st) ls))" by (simp add: comp_def)
    also have "\<dots> = (\<Sum>st\<in>set (map fst m). length (filter (\<lambda>l. f l = st) ls))" by (rule sum_list_distinct_conv_sum_set [OF assms(2)])
    finally show ?thesis by simp
  qed
  also have "\<dots> = length ls"
  proof -
    have "f l \<in> fst ` set m" if "l \<in> set ls" for l
    proof (rule ccontr)
      assume "f l \<notin> fst ` set m"
      then have "map_of m (f l) = None" by (simp add: map_of_eq_None_iff)
      then have "filter (\<lambda>l'. f l' = f l) ls = []" using assms(1) [rule_format, of "f l"] by simp
      then show False using that by (auto simp: filter_empty_conv)
    qed
    then show ?thesis
    proof (induction ls)
      case (Cons l ls)
      have "(\<Sum>st\<in>fst ` set m. length (filter (\<lambda>l. f l = st) (l # ls)))
          = (\<Sum>st\<in>fst ` set m. (if f l = st then 1 else 0) + length (filter (\<lambda>l. f l = st) ls))" by (intro sum.cong) auto
      also have "\<dots> = 1 + length ls" using Cons by (simp add: sum.distrib)
      finally show ?case by simp
    qed simp
  qed
  finally show ?thesis .
qed

text \<open>
  C18. However the stream, the tasks and the signals interleave, the service accounts for every batch it
  took up or heard of exactly once, as a line or in flight, never both: it hears of a batch once whatever
  the stream repeats, holds at most eight in flight unless more were recovered, and the statuses it counts
  add up to the batches it processed, so its summary never reports a mismatch.
\<close>

theorem run_accounts_for_every_batch:
  assumes "running ids rs" "distinct ids" "\<forall>b\<in>set ids. 0 \<le> b"
  shows "distinct (map bl_batchId (rs_lines rs) @ rs_inflight rs)
    \<and> set (rs_seen rs) = decimal ` set (map bl_batchId (rs_lines rs) @ rs_inflight rs)
    \<and> length (rs_inflight rs) \<le> max 8 (length ids)
    \<and> rs_processed rs = length (rs_lines rs) \<and> (\<Sum>(st, c)\<leftarrow>rs_counts rs. c) = rs_processed rs"
  using running_inv [OF assms] sum_of_counts [of "rs_counts rs" bl_status "rs_lines rs"] unfolding run_inv_def by simp

theorem run_accounts_for_every_batch_witness:
  "let rs = on_close ''90'' 3 (task_over 60 (error_line 60 TypeError) (on_close ''120'' 2 (begin_run [60])))
   in rs_inflight rs = [120, 90] \<and> length (rs_inflight rs) \<le> max 8 (length [60]) \<and> (\<Sum>(st, c)\<leftarrow>rs_counts rs. c) = 1"
proof -
  let ?r1 = "on_close (decimal 120) 2 (begin_run [60])"
  let ?r2 = "task_over 60 (error_line 60 TypeError) ?r1"
  have "60 \<in> set (rs_inflight ?r1)" by code_simp
  moreover have "bl_batchId (error_line 60 TypeError) = 60" by (simp add: error_line_def blank_line_def)
  ultimately have "running [60] (on_close (decimal 90) 3 ?r2)"
    by (intro Goes_on [OF Goes_on [OF Goes_on [OF Begins Closes] Ends] Closes]) simp_all
  from run_accounts_for_every_batch [OF this]
  have "length (rs_inflight (on_close (decimal 90) 3 ?r2)) \<le> max 8 (length [60])"
    "(\<Sum>(st, c)\<leftarrow>rs_counts (on_close (decimal 90) 3 ?r2). c) = rs_processed (on_close (decimal 90) 3 ?r2)" by simp_all
  moreover have "decimal 90 = ''90''" "decimal 120 = ''120''" by code_simp+
  moreover have "rs_inflight (on_close ''90'' 3 (task_over 60 (error_line 60 TypeError) (on_close ''120'' 2 (begin_run [60])))) = [120, 90]"
    "rs_processed (on_close ''90'' 3 (task_over 60 (error_line 60 TypeError) (on_close ''120'' 2 (begin_run [60])))) = 1" by code_simp+
  ultimately show ?thesis by (simp add: Let_def)
qed

section \<open>A batch, from its feed\<close>









end
