(* ===== verification/Requests.thy ===== *)
theory Requests
  imports Decimal
begin

text \<open>
  What the routes read from the text of a request, as JavaScript reads it: \<^verbatim>\<open>String.trim\<close>,
  \<^verbatim>\<open>String.split\<close> and \<^verbatim>\<open>BigInt\<close> of a string. The same helpers read the list of RPC endpoints of
  packages/shared/rpc.ts, and the client address behind the proxy of api/src/routes/faucet.ts.
\<close>

definition is_space :: "char \<Rightarrow> bool" where
  "is_space c \<longleftrightarrow> (of_char c :: nat) \<in> {9, 10, 11, 12, 13, 32, 160}"

definition trim :: "string \<Rightarrow> string" where
  "trim s = rev (dropWhile is_space (rev (dropWhile is_space s)))"

fun split_on :: "char \<Rightarrow> string \<Rightarrow> string list" where
  "split_on c [] = [[]]"
| "split_on c (x # xs) = (if x = c then [] # split_on c xs else (x # hd (split_on c xs)) # tl (split_on c xs))"

text \<open>The digits of a literal in a base up to sixteen, none when there is none or another character.\<close>

definition digit_in :: "int \<Rightarrow> char \<Rightarrow> bool" where
  "digit_in base c \<longleftrightarrow> (is_digit c \<or> (97 \<le> (of_char (lower_char c) :: nat) \<and> (of_char (lower_char c) :: nat) \<le> 102)) \<and> hex_digit c < base"

definition digits_in :: "int \<Rightarrow> string \<Rightarrow> int option" where
  "digits_in base s = (if s \<noteq> [] \<and> list_all (digit_in base) s then Some (foldl (\<lambda>acc c. base * acc + hex_digit c) 0 s) else None)"

text \<open>\<^verbatim>\<open>BigInt(text)\<close>, none where it throws a SyntaxError. A sign goes with decimal digits only.\<close>

definition big_int_text :: "string \<Rightarrow> int option" where
  "big_int_text txt =
     (let s = trim txt; prefix = lower (take 2 s); rest = drop 2 s in
      if s = [] then Some 0
      else if prefix = ''0x'' then digits_in 16 rest
      else if prefix = ''0o'' then digits_in 8 rest
      else if prefix = ''0b'' then digits_in 2 rest
      else if hd s = CHR ''-'' then map_option uminus (digits_in 10 (tl s))
      else if hd s = CHR ''+'' then digits_in 10 (tl s)
      else digits_in 10 s)"

section \<open>Endpoints and addresses\<close>

text \<open>\<^verbatim>\<open>list.split(",").map(trim).filter(Boolean)\<close>\<close>

definition listed_words :: "string \<Rightarrow> string list" where
  "listed_words s = filter (\<lambda>w. w \<noteq> []) (map trim (split_on CHR '','' s))"

definition parse_rpc_list :: "string \<Rightarrow> js_error + string list" where
  "parse_rpc_list text = (if listed_words text = [] then Inl (Thrown ''no RPC url given'') else Inr (listed_words text))"

text \<open>The header comes once, several times, or not at all; \<open>fallback\<close> is the address of the socket.\<close>

definition client_ip :: "string list \<Rightarrow> string \<Rightarrow> string" where
  "client_ip forwarded fallback =
     (let header = concat (map (\<lambda>(k, h). if k = 0 then h else CHR '','' # h) (enumerate 0 forwarded))
      in case listed_words header of [] \<Rightarrow> fallback | ws \<Rightarrow> last ws)"

lemma split_on_append: "split_on c (s @ c # t) = split_on c s @ split_on c t"
proof -
  have "split_on c u \<noteq> []" for u by (cases u) simp_all
  then show ?thesis by (induction s) simp_all
qed

lemma split_on_word: "c \<notin> set t \<Longrightarrow> split_on c t = [t]"
  by (induction t) auto

lemma dropWhile_clean: "list_all (\<lambda>c. \<not> p c) s \<Longrightarrow> dropWhile p s = s"
  by (cases s) auto

lemma trim_clean: "list_all (\<lambda>c. \<not> is_space c) s \<Longrightarrow> trim s = s"
  by (simp add: trim_def dropWhile_clean list_all_rev)

text \<open>
  The address the limit is keyed by is the one the proxy itself appended: whatever the caller put into
  the header before it, the last entry wins.
\<close>

theorem client_ip_unforgeable:
  assumes "ip \<noteq> []" "list_all (\<lambda>c. \<not> is_space c \<and> c \<noteq> CHR '','') ip"
  shows "client_ip [ip] socket = ip" "client_ip [forged @ '','' @ ip] socket = ip" "client_ip [forged, ip] socket = ip"
proof -
  have t: "trim ip = ip" using assms(2) by (intro trim_clean) (auto simp: list_all_iff)
  have w: "split_on CHR '','' ip = [ip]" using assms(2) by (intro split_on_word) (auto simp: list_all_iff)
  have one: "listed_words ip = [ip]" using assms(1) by (simp add: listed_words_def w t)
  have more: "listed_words (forged @ CHR '','' # ip) = listed_words forged @ [ip]"
    using assms(1) by (simp add: listed_words_def split_on_append w t)
  show "client_ip [ip] socket = ip" by (simp add: client_ip_def one)
  show "client_ip [forged @ '','' @ ip] socket = ip" "client_ip [forged, ip] socket = ip"
    using more by (simp_all add: client_ip_def Let_def split: list.split) (metis last.simps last_snoc)+
qed

end
