(* ===== verification/IndexerRun.thy ===== *)
theory IndexerRun
  imports Complex_Main Ingest Requests
begin

text \<open>
  indexer/src/index.ts: the process around the ingest step. Its boot reads with their retries, the test
  for a fork, the deployment record and its first block, the depth it insists on, and the loop that
  steps, backs off and waits for the next block.
\<close>

section \<open>Boot reads\<close>

definition BACKOFF_START_MS :: int where "BACKOFF_START_MS = 1000"
definition BACKOFF_MAX_MS :: int where "BACKOFF_MAX_MS = 30000"
definition BOOT_ATTEMPTS :: nat where "BOOT_ATTEMPTS = 25"
definition BOOT_DELAY_MS :: int where "BOOT_DELAY_MS = 500"

definition boot_wait :: "nat \<Rightarrow> int" where
  "boot_wait attempt = min (BOOT_DELAY_MS * 2 ^ (attempt - 1)) BACKOFF_MAX_MS"

text \<open>The result and the waits between the attempts; \<open>answers\<close> has the first attempt at 1.\<close>

function boot_retry :: "nat \<Rightarrow> (nat \<Rightarrow> 'e + 'a) \<Rightarrow> ('e + 'a) \<times> int list" where
  "boot_retry attempt answers =
     (case answers attempt of
        Inr v \<Rightarrow> (Inr v, [])
      | Inl e \<Rightarrow>
          if attempt \<ge> BOOT_ATTEMPTS then (Inl e, [])
          else let (r, waits) = boot_retry (attempt + 1) answers in (r, boot_wait attempt # waits))"
  by pat_completeness auto
termination by (relation "measure (\<lambda>(k, _). BOOT_ATTEMPTS - k)") auto

declare boot_retry.simps [simp del]

definition boot_read :: "(nat \<Rightarrow> 'e + 'a) \<Rightarrow> 'e + 'a" where
  "boot_read answers = fst (boot_retry 1 answers)"

section \<open>The kind of node\<close>

text \<open>An error and its causes, as viem chains them.\<close>

record rpc_fault =
  rf_code :: "int option"
  rf_status :: "int option"
  rf_message :: "string option"

fun names_method :: "string \<Rightarrow> bool" where
  "names_method [] \<longleftrightarrow> False"
| "names_method (c # cs) \<longleftrightarrow>
     take 7 (c # cs) = ''method '' \<and> list_ex (\<lambda>w. sublist w (takeWhile (\<lambda>x. x \<noteq> CHR 0x0A \<and> x \<noteq> CHR 0x0D) (drop 7 (c # cs))))
       [''not found'', ''does not exist'', ''not supported'', ''is not available'']
     \<or> names_method cs"

definition denies_method :: "rpc_fault \<Rightarrow> bool" where
  "denies_method f \<longleftrightarrow> rf_code f = Some (-32601) \<or> rf_status f \<in> {Some 400, Some 404, Some 405}
     \<or> (case rf_message f of None \<Rightarrow> False | Some m \<Rightarrow> mentions [''unsupported method'', ''unknown method''] m \<or> names_method (lower m))"

definition unknown_method :: "rpc_fault list \<Rightarrow> bool" where
  "unknown_method faults \<longleftrightarrow> list_ex denies_method faults"

text \<open>An error that the probe takes for an answer is not thrown, so it is not retried.\<close>

definition probe :: "(nat \<Rightarrow> rpc_fault list + unit) \<Rightarrow> nat \<Rightarrow> rpc_fault list + bool" where
  "probe answers k = (case answers k of Inr _ \<Rightarrow> Inr True | Inl e \<Rightarrow> if unknown_method e then Inr False else Inl e)"

definition is_fork :: "(nat \<Rightarrow> rpc_fault list + unit) \<Rightarrow> rpc_fault list + bool" where
  "is_fork answers = boot_read (probe answers)"

definition fork_block :: "(nat \<Rightarrow> rpc_fault list + int option) \<Rightarrow> int \<Rightarrow> rpc_fault list + int" where
  "fork_block info pinned = bindE (boot_read info) (\<lambda>b. Inr (case b of Some n \<Rightarrow> if n \<noteq> 0 then n else pinned | None \<Rightarrow> pinned))"

section \<open>Depth\<close>

datatype boot_error = Unread "rpc_fault list" | Unsafe_confirmations string | Boot_threw js_error

definition lift_read :: "rpc_fault list + 'a \<Rightarrow> boot_error + 'a" where
  "lift_read r = (case r of Inl e \<Rightarrow> Inl (Unread e) | Inr v \<Rightarrow> Inr v)"

definition confirmations_for :: "(nat \<Rightarrow> rpc_fault list + unit) \<Rightarrow> int option \<Rightarrow> boot_error + int" where
  "confirmations_for answers requested =
     bindE (lift_read (is_fork answers)) (\<lambda>fork.
       case requested of
         None \<Rightarrow> if fork then Inr 0 else Inl (Unsafe_confirmations ''this node is not an anvil fork, so the indexer needs --confirmations <n>'')
       | Some n \<Rightarrow>
           if n < 0 then Inl (Unsafe_confirmations ''--confirmations is negative'')
           else if n = 0 \<and> \<not> fork then Inl (Unsafe_confirmations ''--confirmations 0 against a node that is not an anvil fork'')
           else Inr n)"

section \<open>The first block\<close>

text \<open>The loop narrows between two blocks that are not negative, so BigInt division is the floor.\<close>

function code_search :: "(int \<Rightarrow> 'e + bool) \<Rightarrow> int \<Rightarrow> int \<Rightarrow> 'e + int" where
  "code_search has_code lo hi =
     (if lo < hi
      then let mid = (lo + hi) div 2
           in bindE (has_code mid) (\<lambda>c. if c then code_search has_code lo mid else code_search has_code (mid + 1) hi)
      else Inr lo)"
  by pat_completeness auto
termination by (relation "measure (\<lambda>(_, lo, hi). nat (hi - lo))") auto

declare code_search.simps [simp del]

definition has_code :: "(int \<Rightarrow> nat \<Rightarrow> rpc_fault list + string option) \<Rightarrow> int \<Rightarrow> boot_error + bool" where
  "has_code codes block = bindE (lift_read (boot_read (codes block))) (\<lambda>code. Inr (code \<noteq> None \<and> code \<noteq> Some ''0x''))"

definition first_block_with_code :: "(nat \<Rightarrow> rpc_fault list + int) \<Rightarrow> (int \<Rightarrow> nat \<Rightarrow> rpc_fault list + string option) \<Rightarrow> boot_error + int" where
  "first_block_with_code head codes =
     bindE (lift_read (boot_read head)) (\<lambda>hi.
     bindE (has_code codes hi) (\<lambda>c.
       if \<not> c then Inl (Boot_threw (Thrown ''has no code at head, so this is not the chain it was deployed to''))
       else code_search (has_code codes) 0 hi))"

section \<open>The deployment record\<close>

definition INDEXED :: "(string \<times> string) list" where
  "INDEXED = [(''settlement'', ''Settlement''), (''sessions'', ''SessionManager''), (''oracle'', ''PriceOracle''),
     (''solvers'', ''SolverRegistry''), (''auctionHouse'', ''AuctionHouse''), (''mandates'', ''AgentMandate'')]"

record boot_world =
  bw_chainId :: "nat \<Rightarrow> rpc_fault list + int"
  bw_depth_probe :: "nat \<Rightarrow> rpc_fault list + unit"
  bw_record_probe :: "nat \<Rightarrow> rpc_fault list + unit"
  bw_forkBlock :: "nat \<Rightarrow> rpc_fault list + int option"
  bw_head :: "nat \<Rightarrow> rpc_fault list + int"
  bw_code :: "string \<Rightarrow> int \<Rightarrow> nat \<Rightarrow> rpc_fault list + string option"
  bw_file :: "string \<Rightarrow> js_error + row"
  bw_pinned :: int
  bw_root :: string
  bw_deployment :: "string option"
  bw_fromBlock :: "string option"

definition deployment_path :: "boot_world \<Rightarrow> bool \<Rightarrow> int \<Rightarrow> string" where
  "deployment_path w fork chainId =
     (case bw_deployment w of
        Some p \<Rightarrow> p
      | None \<Rightarrow> if fork then bw_root w @ ''/infra/fork-deployment.json''
                else bw_root w @ ''/contracts/deployments/'' @ decimal chainId @ ''.json'')"

definition big_int_or_throw :: "string \<Rightarrow> boot_error + int" where
  "big_int_or_throw txt = (case big_int_text txt of Some n \<Rightarrow> Inr n | None \<Rightarrow> Inl (Boot_threw (Thrown ''SyntaxError: Cannot convert to a BigInt'')))"

text \<open>\<^verbatim>\<open>String\<close> of the block in the record, which is a number or a text.\<close>

definition block_text :: "js \<Rightarrow> string" where
  "block_text v = (case v of Num n \<Rightarrow> decimal n | Str s \<Rightarrow> s | _ \<Rightarrow> ''null'')"

definition from_block_of :: "boot_world \<Rightarrow> bool \<Rightarrow> row \<Rightarrow> string \<Rightarrow> boot_error + int" where
  "from_block_of w fork record settlement =
     (if fork then bindE (lift_read (fork_block (bw_forkBlock w) (bw_pinned w))) (\<lambda>b. Inr (b + 1))
      else case bw_fromBlock w of
        Some (c # cs) \<Rightarrow> big_int_or_throw (c # cs)
      | _ \<Rightarrow>
          if row_get record ''deployBlock'' \<noteq> Undefined then big_int_or_throw (block_text (row_get record ''deployBlock''))
          else first_block_with_code (bw_head w) (bw_code w settlement))"

text \<open>\<^verbatim>\<open>contracts.set(address, key)\<close>: an address two keys share keeps its place and takes the later key.\<close>

definition contracts_of :: "row \<Rightarrow> (string \<times> string) list" where
  "contracts_of record =
     foldl (\<lambda>m (key, name). case row_get record key of Str a \<Rightarrow> AList.update (lower a) name m | _ \<Rightarrow> m) [] INDEXED"

definition load_deployment :: "boot_world \<Rightarrow> boot_error + deployment" where
  "load_deployment w =
     bindE (lift_read (boot_read (bw_chainId w))) (\<lambda>chainId.
     bindE (lift_read (is_fork (bw_record_probe w))) (\<lambda>fork.
     bindE (case bw_file w (deployment_path w fork chainId) of Inl e \<Rightarrow> Inl (Boot_threw e) | Inr r \<Rightarrow> Inr r) (\<lambda>record.
       case row_get record ''settlement'' of
         Str s \<Rightarrow>
           bindE (from_block_of w fork record (lower s)) (\<lambda>from.
             Inr \<lparr>d_chainId = chainId, d_settlement = lower s, d_contracts = contracts_of record, d_fromBlock = from\<rparr>)
       | _ \<Rightarrow> Inl (Boot_threw (Thrown ''names no settlement. run make deploy'')))))"

section \<open>The loop\<close>

text \<open>
  What one pass of the loop meets: the three views of the node an ingest step may have, the clock of the
  process, and then the timestamp of the newest block and the node that answers the head.
\<close>

record pass =
  pa_check :: node
  pa_rewind :: node
  pa_read :: node
  pa_now :: int
  pa_clock :: "rpc_error + int"
  pa_head :: node

record indexer_state =
  ru_ingest :: ingest
  ru_steps :: nat
  ru_logs :: nat
  ru_backoff :: int
  ru_last :: int
  ru_slept :: "int list"
  ru_awaited :: "int list"

datatype run_end = Running | Ended | Stopped step_error

definition fatal :: "step_error \<Rightarrow> bool" where
  "fatal e \<longleftrightarrow> (case e of
       Range_refused _ \<Rightarrow> True
     | Second_reset \<Rightarrow> True
     | Rpc_failed f \<Rightarrow> prefix ''second full reset'' (err_message f)
     | _ \<Rightarrow> False)"

definition back_off :: "indexer_state \<Rightarrow> indexer_state" where
  "back_off st = st\<lparr>ru_slept := ru_slept st @ [ru_backoff st], ru_backoff := min (ru_backoff st * 2) BACKOFF_MAX_MS\<rparr>"

definition run_failed :: "step_error \<Rightarrow> indexer_state \<Rightarrow> indexer_state \<times> run_end" where
  "run_failed e st = (if fatal e then (st, Stopped e) else (back_off st, Running))"

text \<open>\<^verbatim>\<open>done\<close>: the block asked for is reached, or the chain's clock is past the end.\<close>

definition run_done :: "int option \<Rightarrow> int option \<Rightarrow> rpc_error + int \<Rightarrow> int \<Rightarrow> rpc_error + bool" where
  "run_done untilBlock endAt clock lastBlock =
     (if case untilBlock of Some u \<Rightarrow> lastBlock \<ge> u | None \<Rightarrow> False then Inr True
      else case endAt of None \<Rightarrow> Inr False | Some t \<Rightarrow> bindE clock (\<lambda>now. Inr (now \<ge> t)))"

definition run_stepped :: "ingest \<Rightarrow> step_result \<Rightarrow> indexer_state \<Rightarrow> indexer_state" where
  "run_stepped s r st = st\<lparr>ru_ingest := s, ru_steps := Suc (ru_steps st), ru_logs := ru_logs st + sr_logs r, ru_last := sr_to r,
     ru_backoff := BACKOFF_START_MS\<rparr>"

text \<open>
  One pass. \<open>ru_awaited\<close> notes the block above which \<^verbatim>\<open>nextBlock\<close> waits before the next pass. The
  baselines stored after a step never fail it and are not part of this state.
\<close>

definition run_pass :: "indexer \<Rightarrow> int option \<Rightarrow> int option \<Rightarrow> pass \<Rightarrow> indexer_state \<Rightarrow> indexer_state \<times> run_end" where
  "run_pass ix untilBlock endAt p st =
     (case ingest_step ix (pa_check p) (pa_rewind p) (pa_read p) (pa_now p) (ru_ingest st) of
        (s, Inl e) \<Rightarrow> run_failed e (st\<lparr>ru_ingest := s\<rparr>)
      | (s, Inr r) \<Rightarrow>
          let st' = run_stepped s r st in
          case run_done untilBlock endAt (pa_clock p) (ru_last st') of
            Inl e \<Rightarrow> run_failed (Rpc_failed e) st'
          | Inr True \<Rightarrow> (st', Ended)
          | Inr False \<Rightarrow>
              (case safe_head (ix_confirmations ix) (pa_head p) of
                 Inl e \<Rightarrow> run_failed (Rpc_failed e) st'
               | Inr head \<Rightarrow> (if sr_to r \<ge> head then st'\<lparr>ru_awaited := ru_awaited st' @ [ru_last st' + ix_confirmations ix]\<rparr> else st', Running)))"

fun run_passes :: "indexer \<Rightarrow> int option \<Rightarrow> int option \<Rightarrow> pass list \<Rightarrow> indexer_state \<Rightarrow> indexer_state \<times> run_end" where
  "run_passes ix untilBlock endAt [] st = (st, Running)"
| "run_passes ix untilBlock endAt (p # ps) st =
     (case run_pass ix untilBlock endAt p st of
        (st', Running) \<Rightarrow> run_passes ix untilBlock endAt ps st'
      | (st', e) \<Rightarrow> (st', e))"

text \<open>\<^verbatim>\<open>BigInt(Math.round(minutes * 60))\<close> after the timestamp of the newest block.\<close>

definition end_at :: "rat option \<Rightarrow> rpc_fault list + int \<Rightarrow> boot_error + int option" where
  "end_at minutes clock =
     (case minutes of
        None \<Rightarrow> Inr None
      | Some m \<Rightarrow> bindE (lift_read clock) (\<lambda>t. Inr (Some (t + \<lfloor>m * 60 + 1 / 2\<rfloor>))))"

text \<open>
  \<^verbatim>\<open>run\<close>: the depth first, then the deployment, the end, the checkpoint, and the passes. \<open>new_ingest\<close> is the
  constructor of \<^verbatim>\<open>Ingest\<close> on a deployment and a depth; \<open>first\<close> the node the checkpoint is read from.
\<close>

definition run_indexer ::
  "boot_world \<Rightarrow> (deployment \<Rightarrow> int \<Rightarrow> indexer) \<Rightarrow> int option \<Rightarrow> rat option \<Rightarrow> int option \<Rightarrow> rpc_fault list + int \<Rightarrow> node \<Rightarrow> pass list
    \<Rightarrow> store \<Rightarrow> (boot_error + rpc_error) + indexer \<times> indexer_state \<times> run_end" where
  "run_indexer w new_ingest untilBlock minutes requested clock first ps st =
     (case bindE (confirmations_for (bw_depth_probe w) requested) (\<lambda>depth.
           bindE (load_deployment w) (\<lambda>d. bindE (end_at minutes clock) (\<lambda>e. Inr (new_ingest d depth, e)))) of
        Inl e \<Rightarrow> Inl (Inl e)
      | Inr (ix, endAt) \<Rightarrow>
          (case checkpoint_of (ix_deployment ix) first st of
             Inl e \<Rightarrow> Inl (Inr e)
           | Inr cp \<Rightarrow>
               Inr (ix, run_passes ix untilBlock endAt ps
                 \<lparr>ru_ingest = \<lparr>in_store = st, in_lastFullReset = 0\<rparr>, ru_steps = 0, ru_logs = 0, ru_backoff = BACKOFF_START_MS,
                  ru_last = cp_lastBlock cp, ru_slept = [], ru_awaited = []\<rparr>)))"


section \<open>Boot\<close>

lemma boot_retry_spec:
  "k \<le> BOOT_ATTEMPTS \<Longrightarrow> case boot_retry k answers of
      (Inr v, waits) \<Rightarrow> \<exists>i\<in>{k..BOOT_ATTEMPTS}. answers i = Inr v \<and> (\<forall>j\<in>{k..<i}. isl (answers j)) \<and> waits = map boot_wait [k..<i]
    | (Inl e, waits) \<Rightarrow> answers BOOT_ATTEMPTS = Inl e \<and> (\<forall>j\<in>{k..BOOT_ATTEMPTS}. isl (answers j)) \<and> waits = map boot_wait [k..<BOOT_ATTEMPTS]"
proof (induction k answers rule: boot_retry.induct)
  case (1 k answers)
  note unfold = boot_retry.simps [of k answers]
  show ?case
  proof (cases "answers k")
    case (Inr v)
    then show ?thesis using 1(2) by (auto simp: unfold intro!: bexI [of _ k])
  next
    case (Inl e)
    show ?thesis
    proof (cases "k \<ge> BOOT_ATTEMPTS")
      case True
      then have "k = BOOT_ATTEMPTS" using 1(2) by simp
      moreover have "boot_retry k answers = (Inl e, [])" using Inl True by (simp add: unfold)
      ultimately show ?thesis using Inl by simp
    next
      case False
      obtain r ws where r: "boot_retry (k + 1) answers = (r, ws)" by (rule prod.exhaust)
      note IH = 1(1) [OF Inl False, unfolded r]
      have step: "boot_retry k answers = (r, boot_wait k # ws)" using Inl False r by (simp add: unfold)
      have here: "isl (answers k)" using Inl by simp
      have ends: "[k..<i] = k # [k + 1..<i]" if "k < i" for i using that by (simp add: upt_conv_Cons)
      show ?thesis
      proof (cases r)
        case (Inl e')
        have rest: "\<forall>j\<in>{k + 1..BOOT_ATTEMPTS}. isl (answers j)" using IH Inl False by simp
        have "isl (answers j)" if "j \<in> {k..BOOT_ATTEMPTS}" for j using that here rest by (cases "j = k") auto
        then show ?thesis using IH Inl False step ends [of BOOT_ATTEMPTS] by simp
      next
        case (Inr v)
        obtain i where i: "i \<in> {k + 1..BOOT_ATTEMPTS}" "answers i = Inr v" "\<forall>j\<in>{k + 1..<i}. isl (answers j)" "ws = map boot_wait [k + 1..<i]"
          using IH Inr False by auto
        have "\<forall>j\<in>{k..<i}. isl (answers j)" using i(3) here by (auto simp: le_eq_less_or_eq Suc_le_eq)
        moreover have "boot_wait k # ws = map boot_wait [k..<i]" using i(1,4) ends [of i] by simp
        ultimately have "\<exists>i\<in>{k..BOOT_ATTEMPTS}. answers i = Inr v \<and> (\<forall>j\<in>{k..<i}. isl (answers j)) \<and> boot_wait k # ws = map boot_wait [k..<i]"
          using i(1,2) by (intro bexI [of _ i]) auto
        then show ?thesis unfolding step Inr by simp
      qed
    qed
  qed
qed

lemma boot_read_Inr: "boot_read answers = Inr v \<Longrightarrow> \<exists>i. answers i = Inr v"
  using boot_retry_spec [of 1 answers] by (auto simp: boot_read_def BOOT_ATTEMPTS_def split: prod.splits sum.splits)


text \<open>
  A boot read gives the first answer of its twenty five attempts, having waited twice as long before each
  attempt up to thirty seconds; it gives up only when all of them failed, after 571.5 seconds.
\<close>

theorem boot_read_patience:
  "case boot_retry 1 answers of
      (Inr v, waits) \<Rightarrow> (\<exists>i\<in>{1..25}. answers i = Inr v \<and> (\<forall>j\<in>{1..<i}. isl (answers j)) \<and> waits = map (\<lambda>k. min (500 * 2 ^ (k - 1)) 30000) [1..<i])
    | (Inl e, waits) \<Rightarrow> (\<forall>j\<in>{1..25}. isl (answers j)) \<and> answers 25 = Inl e \<and> sum_list waits = 571500"
proof -
  have u: "[1..<25] = [1, 2, 3, 4, 5, 6, 7, 8, 9, 10, 11, 12, 13, 14, 15, 16, 17, 18, 19, 20, 21, 22, 23, 24 :: nat]" by (simp add: upt_conv_Cons)
  have total: "sum_list (map boot_wait [1..<25]) = 571500" unfolding u by (simp add: boot_wait_def BOOT_DELAY_MS_def BACKOFF_MAX_MS_def)
  have w: "boot_wait = (\<lambda>k. min (500 * 2 ^ (k - 1)) 30000)" by (simp add: boot_wait_def BOOT_DELAY_MS_def BACKOFF_MAX_MS_def fun_eq_iff)
  show ?thesis using boot_retry_spec [of 1 answers] total unfolding w BOOT_ATTEMPTS_def by (auto split: prod.splits sum.splits)
qed

lemma is_fork_answered: "is_fork answers = Inr b \<Longrightarrow> (\<exists>i. (b \<and> answers i = Inr ()) \<or> (\<not> b \<and> (\<exists>e. answers i = Inl e \<and> unknown_method e)))"
proof -
  assume "is_fork answers = Inr b"
  then obtain i where i: "probe answers i = Inr b" using boot_read_Inr [of "probe answers" b] by (auto simp: is_fork_def)
  then have "(b \<and> answers i = Inr ()) \<or> (\<not> b \<and> (\<exists>e. answers i = Inl e \<and> unknown_method e))"
    by (auto simp: probe_def split: sum.splits if_splits)
  then show ?thesis by blast
qed

section \<open>The first block\<close>









text \<open>
  Against a live chain the indexer runs at a depth or not at all: when it runs at depth zero, the node
  itself answered the probe of a fork, and a node that only failed never counts as either kind.
\<close>

theorem live_chain_keeps_depth:
  assumes "run_indexer w new_ingest untilBlock minutes requested clock first ps st = Inr (ix, st', e)"
    and "\<And>d n. ix_confirmations (new_ingest d n) = n"
  shows "0 \<le> ix_confirmations ix \<and> (ix_confirmations ix = 0 \<longrightarrow> (\<exists>i. bw_depth_probe w i = Inr ()))
    \<and> (\<forall>n. requested = Some n \<longrightarrow> ix_confirmations ix = n)
    \<and> (requested = None \<longrightarrow> (\<exists>i. bw_depth_probe w i = Inr ()))"
proof -
  obtain depth d where d: "confirmations_for (bw_depth_probe w) requested = Inr depth" "ix = new_ingest d depth"
    using assms(1) by (auto simp: run_indexer_def split: sum.splits)
  obtain fork where f: "is_fork (bw_depth_probe w) = Inr fork" using d(1) by (auto simp: confirmations_for_def lift_read_def split: sum.splits)
  have "0 \<le> depth \<and> (depth = 0 \<longrightarrow> fork) \<and> (\<forall>n. requested = Some n \<longrightarrow> depth = n) \<and> (requested = None \<longrightarrow> fork)"
    using d(1) f by (auto simp: confirmations_for_def lift_read_def split: option.splits if_splits)
  then show ?thesis using is_fork_answered [OF f] d(2) assms(2) by auto
qed

section \<open>The loop\<close>




text \<open>What every pass keeps, the loop keeps.\<close>

lemma run_passes_inv:
  assumes "run_passes ix u t ps st = (st', e)" "P st"
    and "\<And>p s s' r. p \<in> set ps \<Longrightarrow> P s \<Longrightarrow> run_pass ix u t p s = (s', r) \<Longrightarrow> P s'"
  shows "P st'"
  using assms
proof (induction ps arbitrary: st)
  case (Cons p ps)
  obtain s r where s: "run_pass ix u t p st = (s, r)" by (rule prod.exhaust)
  then have "P s" using Cons.prems(2) Cons.prems(3) [of p st s r] by simp
  then show ?case using Cons.IH [of s] Cons.prems(1,3) s by (cases r) auto
qed simp


definition sane_backoff :: "indexer_state \<Rightarrow> bool" where
  "sane_backoff st \<longleftrightarrow> (\<forall>b\<in>insert (ru_backoff st) (set (ru_slept st)). 1000 \<le> b \<and> b \<le> 30000)"

lemma run_pass_backoff: "run_pass ix u t p st = (st', e) \<Longrightarrow> sane_backoff st \<Longrightarrow> sane_backoff st'"
  by (auto simp: run_pass_def run_failed_def back_off_def run_stepped_def sane_backoff_def Let_def BACKOFF_START_MS_def BACKOFF_MAX_MS_def
      split: prod.splits sum.splits if_splits bool.splits)

lemma run_pass_end:
  assumes "run_pass ix u t p st = (st', e)"
  shows "e = Running \<or> (e = Ended \<and> (\<exists>r. run_done u t (pa_clock p) (ru_last st') = Inr True)) \<or> (\<exists>f. e = Stopped f \<and> fatal f)"
  using assms
  by (auto simp: run_pass_def run_failed_def back_off_def run_stepped_def Let_def split: prod.splits sum.splits if_splits bool.splits)

lemma run_passes_end:
  "run_passes ix u t ps st = (st', e) \<Longrightarrow>
     e = Running \<or> (e = Ended \<and> (\<exists>p\<in>set ps. run_done u t (pa_clock p) (ru_last st') = Inr True)) \<or> (\<exists>f. e = Stopped f \<and> fatal f)"
proof (induction ps arbitrary: st)
  case (Cons p ps)
  obtain s r where s: "run_pass ix u t p st = (s, r)" by (rule prod.exhaust)
  show ?case
  proof (cases r)
    case Running
    then have "run_passes ix u t ps s = (st', e)" using Cons.prems s by simp
    then show ?thesis using Cons.IH by fastforce
  qed (use run_pass_end [OF s] Cons.prems s in auto)
qed simp

text \<open>
  The loop ends for a cause and never spins: it ends when the block asked for is indexed or the chain's
  clock has passed the end, it stops on a refused range, a second full reset or an error of that text,
  and each of its waits after a failure is between one and thirty seconds.
\<close>

theorem run_ends_for_cause:
  assumes "run_indexer w new_ingest untilBlock minutes requested clock first ps st0 = Inr (ix, st, e)"
  shows "(case e of
        Running \<Rightarrow> True
      | Ended \<Rightarrow> (\<exists>b. untilBlock = Some b \<and> b \<le> ru_last st)
          \<or> (\<exists>m t0. minutes = Some m \<and> clock = Inr t0 \<and> (\<exists>p now. p \<in> set ps \<and> pa_clock p = Inr now \<and> t0 + \<lfloor>m * 60 + 1 / 2\<rfloor> \<le> now))
      | Stopped f \<Rightarrow> fatal f)
    \<and> sane_backoff st"
proof -
  obtain endAt and cp :: checkpoint where e: "end_at minutes clock = Inr endAt"
    and run: "run_passes ix untilBlock endAt ps
      \<lparr>ru_ingest = \<lparr>in_store = st0, in_lastFullReset = 0\<rparr>, ru_steps = 0, ru_logs = 0, ru_backoff = BACKOFF_START_MS,
       ru_last = cp_lastBlock cp, ru_slept = [], ru_awaited = []\<rparr> = (st, e)"
    using assms unfolding run_indexer_def by (simp split: sum.splits prod.splits)
  have "sane_backoff st"
    by (rule run_passes_inv [OF run]) (auto simp: sane_backoff_def BACKOFF_START_MS_def dest: run_pass_backoff [unfolded sane_backoff_def])
  moreover have "case e of Running \<Rightarrow> True
      | Ended \<Rightarrow> (\<exists>b. untilBlock = Some b \<and> b \<le> ru_last st)
          \<or> (\<exists>m t0. minutes = Some m \<and> clock = Inr t0 \<and> (\<exists>p now. p \<in> set ps \<and> pa_clock p = Inr now \<and> t0 + \<lfloor>m * 60 + 1 / 2\<rfloor> \<le> now))
      | Stopped f \<Rightarrow> fatal f"
  proof (cases e)
    case Ended
    then obtain p where p: "p \<in> set ps" "run_done untilBlock endAt (pa_clock p) (ru_last st) = Inr True" using run_passes_end [OF run] by auto
    then show ?thesis using Ended e by (auto simp: run_done_def end_at_def lift_read_def split: option.splits if_splits sum.splits)
  qed (use run_passes_end [OF run] in auto)
  ultimately show ?thesis by blast
qed

text \<open>A pass during which the node fails every step, whatever the store holds, without refusing it.\<close>

definition dead_pass :: "indexer \<Rightarrow> pass \<Rightarrow> bool" where
  "dead_pass ix p \<longleftrightarrow> (\<forall>s. \<exists>s' e. ingest_step ix (pa_check p) (pa_rewind p) (pa_read p) (pa_now p) s = (s', Inl e) \<and> \<not> fatal e)"

lemma dead_pass_backs_off:
  "dead_pass ix p \<Longrightarrow> \<exists>s. run_pass ix u t p st = (back_off (st\<lparr>ru_ingest := s\<rparr>), Running)"
  by (auto simp: dead_pass_def run_pass_def run_failed_def dest!: spec [of _ "ru_ingest st"])

lemma backoff_power: "(n :: int) = min (1000 * 2 ^ k) 30000 \<Longrightarrow> min (n * 2) 30000 = min (1000 * 2 ^ Suc k) 30000"
  by auto

lemma dead_passes:
  assumes "\<And>p. p \<in> set ps \<Longrightarrow> dead_pass ix p" "ru_backoff st = min (1000 * 2 ^ k) 30000"
  shows "\<exists>st'. run_passes ix u t ps st = (st', Running) \<and> ru_steps st' = ru_steps st \<and> ru_last st' = ru_last st
    \<and> ru_slept st' = ru_slept st @ map (\<lambda>i. min (1000 * 2 ^ i) 30000) [k..<k + length ps]"
  using assms
proof (induction ps arbitrary: st k)
  case (Cons p ps)
  obtain s where s: "run_pass ix u t p st = (back_off (st\<lparr>ru_ingest := s\<rparr>), Running)"
    using dead_pass_backs_off [of ix p u t st] Cons.prems(1) by auto
  have "ru_backoff (back_off (st\<lparr>ru_ingest := s\<rparr>)) = min (1000 * 2 ^ Suc k) 30000"
    using backoff_power [OF Cons.prems(2)] by (simp add: back_off_def BACKOFF_MAX_MS_def)
  then obtain st' where "run_passes ix u t ps (back_off (st\<lparr>ru_ingest := s\<rparr>)) = (st', Running)"
    "ru_steps st' = ru_steps st" "ru_last st' = ru_last st"
    "ru_slept st' = (ru_slept st @ [ru_backoff st]) @ map (\<lambda>i. min (1000 * 2 ^ i) 30000) [Suc k..<Suc k + length ps]"
    using Cons.IH [of "back_off (st\<lparr>ru_ingest := s\<rparr>)" "Suc k"] Cons.prems(1) by (auto simp: back_off_def)
  moreover have "map (\<lambda>i. min (1000 * 2 ^ i) 30000 :: int) [k..<k + length (p # ps)]
      = min (1000 * 2 ^ k) 30000 # map (\<lambda>i. min (1000 * 2 ^ i) 30000) [Suc k..<Suc k + length ps]"
    using upt_conv_Cons [of k "k + length (p # ps)"] by simp
  ultimately show ?case using s Cons.prems(2) by simp
qed simp

text \<open>
  A node that is down for a while costs nothing but time: however many passes fail in a row after a step,
  the loop is still running where it was, and has waited one second, then twice as long each time, to
  thirty seconds.
\<close>

theorem outage_backs_off:
  assumes "\<And>p. p \<in> set ps \<Longrightarrow> dead_pass ix p"
  shows "\<exists>st'. run_passes ix untilBlock endAt ps (run_stepped s r st) = (st', Running)
    \<and> ru_steps st' = Suc (ru_steps st) \<and> ru_last st' = sr_to r
    \<and> ru_slept st' = ru_slept st @ map (\<lambda>i. min (1000 * 2 ^ i) 30000) [0..<length ps]"
  using dead_passes [of ps ix "run_stepped s r st" 0 untilBlock endAt] assms by (simp add: run_stepped_def BACKOFF_START_MS_def)


section \<open>Concrete runs\<close>

theorem boot_read_patience_witness:
  "fst (boot_retry 1 (\<lambda>i. if i < 3 then Inl ''down'' else Inr (7 :: int))) = Inr 7"
proof -
  obtain r ws where r: "boot_retry 1 (\<lambda>i. if i < 3 then Inl ''down'' else Inr (7 :: int)) = (r, ws)" by (rule prod.exhaust)
  have three: "\<not> isl (if (3 :: nat) < 3 then Inl ''down'' else Inr (7 :: int))" by simp
  show ?thesis
    using boot_read_patience [of "\<lambda>i. if i < 3 then Inl ''down'' else Inr (7 :: int)"] three unfolding r
    by (cases r) (auto split: if_splits dest: bspec [of _ _ 3])
qed


definition quiet_answer :: "'a \<Rightarrow> nat \<Rightarrow> rpc_fault list + 'a" where
  "quiet_answer v i = Inr v"

lemma boot_first: "answers (Suc 0) = Inr v \<Longrightarrow> boot_read answers = Inr v"
  unfolding boot_read_def by (subst boot_retry.simps) simp

lemma quiet_read [simp]: "boot_read (quiet_answer v) = Inr v"
  by (rule boot_first) (simp add: quiet_answer_def)

definition sample_world :: boot_world where
  "sample_world =
     \<lparr>bw_chainId = quiet_answer 1, bw_depth_probe = quiet_answer (), bw_record_probe = (\<lambda>i. Inl [\<lparr>rf_code = Some (-32601), rf_status = None, rf_message = None\<rparr>]),
      bw_forkBlock = quiet_answer None, bw_head = quiet_answer 9, bw_code = (\<lambda>a k. quiet_answer None),
      bw_file = (\<lambda>p. Inr [(''settlement'', Str ''s'')]), bw_pinned = 0, bw_root = ''.'', bw_deployment = None, bw_fromBlock = Some ''1''\<rparr>"

definition sample_new :: "deployment \<Rightarrow> int \<Rightarrow> indexer" where
  "sample_new d depth = sample_indexer\<lparr>ix_deployment := d, ix_confirmations := depth\<rparr>"

definition sample_pass :: pass where
  "sample_pass = \<lparr>pa_check = sample_node, pa_rewind = sample_node, pa_read = sample_node, pa_now = 0, pa_clock = Inr 11, pa_head = sample_node\<rparr>"

lemma sample_probe: "is_fork (bw_depth_probe sample_world) = Inr True" "is_fork (bw_record_probe sample_world) = Inr False"
  unfolding is_fork_def
  by (rule boot_first, simp add: probe_def sample_world_def quiet_answer_def unknown_method_def denies_method_def)+

lemma sample_load: "\<exists>d. load_deployment sample_world = Inr d \<and> d_fromBlock d = 1"
proof -
  have "big_int_text ''1'' = Some 1" by code_simp
  moreover have "bw_chainId sample_world = quiet_answer 1" "bw_fromBlock sample_world = Some ''1''"
    "bw_file sample_world p = Inr [(''settlement'', Str ''s'')]" for p by (simp_all add: sample_world_def)
  ultimately show ?thesis
    using sample_probe(2) by (simp add: load_deployment_def lift_read_def from_block_of_def big_int_or_throw_def row_get_def)
qed

lemma sample_process:
  "\<exists>ix st e. run_indexer sample_world sample_new (Some 1) None (Some 2) (Inr 0) sample_node [sample_pass] empty_store = Inr (ix, st, e)
     \<and> d_fromBlock (ix_deployment ix) = 1 \<and> ix_confirmations ix = 2"
proof -
  obtain d where d: "load_deployment sample_world = Inr d" "d_fromBlock d = 1" using sample_load by blast
  have c: "confirmations_for (bw_depth_probe sample_world) (Some 2) = Inr 2" using sample_probe(1) by (simp add: confirmations_for_def lift_read_def)
  obtain cp where "checkpoint_of d sample_node empty_store = Inr cp"
    using d(2) sample_read(1) by (auto simp: checkpoint_of_def initial_def empty_store_def)
  moreover obtain st e where "run_passes (sample_new d 2) (Some 1) None [sample_pass]
      \<lparr>ru_ingest = \<lparr>in_store = empty_store, in_lastFullReset = 0\<rparr>, ru_steps = 0, ru_logs = 0, ru_backoff = BACKOFF_START_MS,
       ru_last = cp_lastBlock cp, ru_slept = [], ru_awaited = []\<rparr> = (st, e)" by (rule prod.exhaust)
  ultimately show ?thesis using d c by (simp add: run_indexer_def end_at_def sample_new_def)
qed

theorem live_chain_keeps_depth_witness:
  "case run_indexer sample_world sample_new (Some 1) None (Some 2) (Inr 0) sample_node [sample_pass] empty_store of
     Inr (ix, st, e) \<Rightarrow> ix_confirmations ix = 2 | Inl f \<Rightarrow> False"
proof -
  obtain ix st e where r: "run_indexer sample_world sample_new (Some 1) None (Some 2) (Inr 0) sample_node [sample_pass] empty_store = Inr (ix, st, e)"
    using sample_process by blast
  show ?thesis using live_chain_keeps_depth [OF r] r by (simp add: sample_new_def)
qed


theorem run_ends_for_cause_witness:
  "case run_indexer sample_world sample_new (Some 1) None (Some 2) (Inr 0) sample_node [sample_pass] empty_store of
     Inr (ix, st, e) \<Rightarrow> sane_backoff st | Inl f \<Rightarrow> False"
proof -
  obtain ix st e where r: "run_indexer sample_world sample_new (Some 1) None (Some 2) (Inr 0) sample_node [sample_pass] empty_store = Inr (ix, st, e)"
    using sample_process by blast
  show ?thesis using run_ends_for_cause [OF r] r by simp
qed

definition silent_node :: node where
  "silent_node = \<lparr>nd_block = \<lambda>k i. Inl \<lparr>err_name = [], err_message = ''down''\<rparr>, nd_head = \<lambda>i. Inl \<lparr>err_name = [], err_message = ''down''\<rparr>,
     nd_logs = \<lambda>a b i. Inl \<lparr>err_name = [], err_message = ''down''\<rparr>, nd_tx = \<lambda>h i. Inl \<lparr>err_name = [], err_message = ''down''\<rparr>\<rparr>"

lemma silent_pass: "dead_pass ix (sample_pass\<lparr>pa_check := silent_node\<rparr>)"
proof -
  let ?e = "\<lparr>err_name = [], err_message = ''down''\<rparr>"
  have down: "with_retry a f k (nd_block silent_node b) = Inl ?e" for a f k b
    using with_retry_cases [of a f k "nd_block silent_node b"] by (auto simp: silent_node_def)
  have "block_or_null (nd_block silent_node b) = Inl ?e" for b by (simp add: block_or_null_def down missing_def)
  moreover have "initial d silent_node = Inl ?e" for d by (simp add: initial_def read_node_def read_with_def down Let_def)
  ultimately show ?thesis
    unfolding dead_pass_def by (auto simp: ingest_step_def checkpoint_of_def sample_pass_def fatal_def Let_def split: option.split)
qed

theorem outage_backs_off_witness:
  "ru_slept (fst (run_passes sample_indexer None None (replicate 7 (sample_pass\<lparr>pa_check := silent_node\<rparr>))
      (run_stepped sample_ingest \<lparr>sr_from = 1, sr_to = 1, sr_logs = 0, sr_undecoded = 0, sr_rewoundTo = None, sr_fullReset = False\<rparr>
        \<lparr>ru_ingest = sample_ingest, ru_steps = 0, ru_logs = 0, ru_backoff = 8000, ru_last = 0, ru_slept = [], ru_awaited = []\<rparr>)))
    = [1000, 2000, 4000, 8000, 16000, 30000, 30000]"
proof -
  have p: "dead_pass sample_indexer p" if "p \<in> set (replicate 7 (sample_pass\<lparr>pa_check := silent_node\<rparr>))" for p
    using that silent_pass by (simp split: if_splits)
  have seven: "[0..<7] = [0, 1, 2, 3, 4, 5, 6 :: nat]" by (simp add: upt_conv_Cons)
  show ?thesis
    using outage_backs_off [where ps = "replicate 7 (sample_pass\<lparr>pa_check := silent_node\<rparr>)" and ix = sample_indexer, OF p, where untilBlock = None and endAt = None and s = sample_ingest and r =
        "\<lparr>sr_from = 1, sr_to = 1, sr_logs = 0, sr_undecoded = 0, sr_rewoundTo = None, sr_fullReset = False\<rparr>"
        and st = "\<lparr>ru_ingest = sample_ingest, ru_steps = 0, ru_logs = 0, ru_backoff = 8000, ru_last = 0, ru_slept = [], ru_awaited = []\<rparr>"]
    by (auto simp: seven)
qed

end
