(* ===== verification/Reconcile.thy ===== *)
theory Reconcile
  imports IndexerRun "HOL-Library.Word" "HOL-Library.List_Lexorder" "HOL-Library.Char_ord"
begin

unbundle bit_operations_syntax

text \<open>
  indexer/src/reconcile.ts: the indexed rows against reads of the contracts at one block. The rows are
  the tables its queries select from, the chain is a record of reads that may throw, and every
  comparison becomes a check that matches, differs or could not be read.
\<close>

section \<open>The sample\<close>

text \<open>
  mulberry32, on words of 32 bits: \<^verbatim>\<open>Math.imul\<close>, \<^verbatim>\<open>^\<close> and \<^verbatim>\<open>>>> 0\<close> all keep the low 32 bits, and the sum in
  between is exact in a double. The draw is the word over 2 to the 32.
\<close>

definition rng :: "32 word \<Rightarrow> 32 word \<times> 32 word" where
  "rng a0 =
     (let a = a0 + 0x6d2b79f5;
          t1 = (a XOR drop_bit 15 a) * (a OR 1);
          t2 = t1 XOR (t1 + (t1 XOR drop_bit 7 t1) * (t1 OR 61))
      in (t2 XOR drop_bit 14 t2, a))"

definition swapped :: "nat \<Rightarrow> nat \<Rightarrow> 'a list \<Rightarrow> 'a list" where
  "swapped i j xs = xs[i := xs ! j, j := xs ! i]"

text \<open>\<^verbatim>\<open>Math.floor(next() * (i + 1))\<close>: the product is exact for lists of up to two million rows.\<close>

definition draw :: "32 word \<Rightarrow> nat \<Rightarrow> nat" where
  "draw u i = unat u * (i + 1) div 2 ^ 32"

fun shuffle :: "nat \<Rightarrow> 32 word \<Rightarrow> 'a list \<Rightarrow> 'a list" where
  "shuffle 0 a xs = xs"
| "shuffle (Suc i) a xs = (let (u, a') = rng a in shuffle i a' (swapped (Suc i) (draw u (Suc i)) xs))"

definition sample :: "'a list \<Rightarrow> nat \<Rightarrow> int \<Rightarrow> 'a list" where
  "sample rows n seed = take n (shuffle (length rows - 1) (word_of_int seed) rows)"

definition BASELINE_SEED :: int where "BASELINE_SEED = 20260925"

section \<open>Checks\<close>

datatype check_status = Matches | Differs | Unread_quote

record rec_check =
  rc_check :: string
  rc_subject :: string
  rc_db :: string
  rc_chain :: string
  rc_status :: check_status

definition compare :: "string \<Rightarrow> string \<Rightarrow> string \<Rightarrow> string \<Rightarrow> rec_check" where
  "compare check subject db chain =
     \<lparr>rc_check = check, rc_subject = subject, rc_db = db, rc_chain = chain, rc_status = (if lower db = lower chain then Matches else Differs)\<rparr>"

definition verdict :: "string \<Rightarrow> string \<Rightarrow> string \<Rightarrow> string \<Rightarrow> bool \<Rightarrow> rec_check" where
  "verdict check subject db chain ok =
     \<lparr>rc_check = check, rc_subject = subject, rc_db = db, rc_chain = chain, rc_status = (if ok then Matches else Differs)\<rparr>"

section \<open>The rows and the chain\<close>


record fill_row =
  rf_deployment :: string
  rf_batch :: int
  rf_sell :: string
  rf_buy :: string
  rf_executedSell :: int
  rf_baseline :: int
  rf_savings :: int
  rf_block :: int
  rf_log :: int









section \<open>Batches\<close>










section \<open>Solvers and tokens\<close>







section \<open>Baselines per direction\<close>

record fill_direction =
  di_batchId :: string
  di_sell :: string
  di_buy :: string
  di_block :: int
  di_fills :: nat
  di_executedSell :: int
  di_baselineBuy :: int

definition fill_direction_key :: "fill_row \<Rightarrow> string" where
  "fill_direction_key f = decimal (rf_batch f) @ '':'' @ lower (rf_sell f) @ '':'' @ lower (rf_buy f)"


definition new_direction :: "fill_row \<Rightarrow> int option \<Rightarrow> fill_direction" where
  "new_direction f submitted =
     \<lparr>di_batchId = decimal (rf_batch f), di_sell = lower (rf_sell f), di_buy = lower (rf_buy f),
      di_block = (case submitted of Some b \<Rightarrow> b | None \<Rightarrow> rf_block f) - 1, di_fills = 0, di_executedSell = 0, di_baselineBuy = 0\<rparr>"

definition add_fill :: "fill_row \<Rightarrow> fill_direction \<Rightarrow> fill_direction" where
  "add_fill f d = d\<lparr>di_fills := Suc (di_fills d), di_executedSell := di_executedSell d + rf_executedSell f,
     di_baselineBuy := di_baselineBuy d + rf_baseline f\<rparr>"

definition group_fill :: "(string \<times> fill_direction) list \<Rightarrow> fill_row \<times> int option \<Rightarrow> (string \<times> fill_direction) list" where
  "group_fill byKey fs =
     (case fs of (f, submitted) \<Rightarrow>
        let d = (case map_of byKey (fill_direction_key f) of Some d \<Rightarrow> d | None \<Rightarrow> new_direction f submitted)
        in AList.update (fill_direction_key f) (add_fill f d) byKey)"

definition fill_directions :: "(fill_row \<times> int option) list \<Rightarrow> fill_direction list" where
  "fill_directions fills = map snd (foldl group_fill [] fills)"


section \<open>The reconciliation\<close>



section \<open>What the sample is\<close>

lemma mset_swapped: "i < length xs \<Longrightarrow> j < length xs \<Longrightarrow> mset (swapped i j xs) = mset xs"
  unfolding swapped_def by (rule mset_swap)

lemma draw_bound: "draw u i \<le> i"
proof -
  have "unat u < 2 ^ LENGTH(32)" by (rule unsigned_less)
  then have "unat u * (i + 1) < 2 ^ 32 * (i + 1)" by (intro mult_less_mono1) simp_all
  then have "draw u i < i + 1" unfolding draw_def by (subst div_less_iff_less_mult) (simp_all add: mult.commute)
  then show ?thesis by simp
qed

lemma mset_shuffle: "k < length xs \<Longrightarrow> mset (shuffle k a xs) = mset xs"
proof (induction k arbitrary: a xs)
  case (Suc k)
  obtain u a' where r: "rng a = (u, a')" by (rule prod.exhaust)
  have "length (swapped (Suc k) (draw u (Suc k)) xs) = length xs" by (simp add: swapped_def)
  moreover have "mset (swapped (Suc k) (draw u (Suc k)) xs) = mset xs"
    using Suc.prems draw_bound [of u "Suc k"] by (intro mset_swapped) auto
  ultimately show ?case using Suc by (simp add: r)
qed simp

lemma sample_of: "\<exists>ys. mset ys = mset rows \<and> sample rows n seed = take n ys"
proof (cases "rows = []")
  case False
  then show ?thesis using mset_shuffle [of "length rows - 1" rows] unfolding sample_def by auto
qed (simp add: sample_def)

text \<open>
  The sample is honest: it draws rows of the list and none twice, as many as asked for or all there are,
  and swapping never reaches outside the part of the list that is still to be drawn from.
\<close>

theorem sample_draws:
  "mset (sample rows n seed) \<subseteq># mset rows \<and> length (sample rows n seed) = min n (length rows)
    \<and> (length rows \<le> n \<longrightarrow> mset (sample rows n seed) = mset rows)"
proof -
  obtain ys where ys: "mset ys = mset rows" "sample rows n seed = take n ys" using sample_of by blast
  have len: "length ys = length rows" using ys(1) by (rule mset_eq_length)
  have "mset (take n ys) \<subseteq># mset ys" by (metis append_take_drop_id mset_append mset_subset_eq_add_left)
  then show ?thesis using ys len by (auto simp: min_def)
qed

theorem sample_draws_witness:
  "mset (sample [1, 2, 3 :: int] 5 BASELINE_SEED) = {#1, 2, 3#}"
  using sample_draws [of "[1, 2, 3 :: int]" 5 BASELINE_SEED] by simp


section \<open>What a direction is\<close>

definition group_of :: "string \<Rightarrow> (fill_row \<times> int option) list \<Rightarrow> (fill_row \<times> int option) list" where
  "group_of k fs = filter (\<lambda>x. fill_direction_key (fst x) = k) fs"

definition summed :: "(fill_row \<times> int option) list \<Rightarrow> fill_direction" where
  "summed g = (new_direction (fst (hd g)) (snd (hd g)))\<lparr>di_fills := length g, di_executedSell := (\<Sum>x\<leftarrow>g. rf_executedSell (fst x)),
     di_baselineBuy := (\<Sum>x\<leftarrow>g. rf_baseline (fst x))\<rparr>"

lemma summed_snoc: "g \<noteq> [] \<Longrightarrow> summed (g @ [x]) = add_fill (fst x) (summed g)"
  by (simp add: summed_def add_fill_def)

lemma summed_one: "summed [x] = add_fill (fst x) (new_direction (fst x) (snd x))"
  by (simp add: summed_def add_fill_def new_direction_def)

lemma grouped:
  "map_of (foldl group_fill [] fs) k = (if group_of k fs = [] then None else Some (summed (group_of k fs)))
    \<and> distinct (map fst (foldl group_fill [] fs))"
proof (induction fs arbitrary: k rule: rev_induct)
  case (snoc x fs)
  let ?M = "foldl group_fill [] fs" and ?k = "fill_direction_key (fst x)"
  let ?d = "case map_of ?M ?k of Some d \<Rightarrow> d | None \<Rightarrow> new_direction (fst x) (snd x)"
  have step: "foldl group_fill [] (fs @ [x]) = AList.update ?k (add_fill (fst x) ?d) ?M"
    by (cases x) (simp add: group_fill_def Let_def split: option.split)
  have d: "add_fill (fst x) ?d = summed (group_of ?k fs @ [x])"
    using snoc [of ?k] by (cases "group_of ?k fs = []") (simp_all add: summed_one summed_snoc)
  have "group_of k (fs @ [x]) = (if ?k = k then group_of ?k fs @ [x] else group_of k fs)" by (simp add: group_of_def)
  then show ?case using snoc unfolding step d by (auto simp: update_conv distinct_update)
qed (simp add: group_of_def)

lemma takeWhile_clean: "c \<notin> set a \<Longrightarrow> takeWhile (\<lambda>x. x \<noteq> c) (a @ c # b) = a"
  by (induction a) auto

lemma split_first: "c \<notin> set a \<Longrightarrow> c \<notin> set a' \<Longrightarrow> a @ c # b = a' @ c # b' \<longleftrightarrow> a = a' \<and> b = b'"
proof
  assume c: "c \<notin> set a" "c \<notin> set a'" and eq: "a @ c # b = a' @ c # b'"
  have "a = a'" using takeWhile_clean [OF c(1), of b] takeWhile_clean [OF c(2), of b'] eq by simp
  then show "a = a' \<and> b = b'" using eq by simp
qed simp

lemma decimal_digits: "0 \<le> n \<Longrightarrow> list_all is_digit (decimal n)"
  by (rule canonical_digits) simp

lemma decimal_neg: "n < 0 \<Longrightarrow> decimal n = CHR ''-'' # decimal (- n)"
  by (simp add: decimal_def)

lemma not_digit: "\<not> is_digit CHR '':''" "\<not> is_digit CHR ''-''"
  by (simp_all add: is_digit_def)

lemma decimal_no_colon: "CHR '':'' \<notin> set (decimal n)"
proof -
  have pos: "CHR '':'' \<notin> set (decimal k)" if "0 \<le> k" for k
    using decimal_digits [OF that] not_digit by (auto simp: list_all_iff)
  show ?thesis by (cases "0 \<le> n") (simp_all add: pos decimal_neg)
qed

lemma decimal_signs: "0 \<le> m \<Longrightarrow> n < 0 \<Longrightarrow> decimal m \<noteq> decimal n"
proof
  assume n: "0 \<le> m" "n < 0" "decimal m = decimal n"
  have "list_all is_digit (CHR ''-'' # decimal (- n))" using decimal_digits [OF n(1)] n(3) decimal_neg [OF n(2)] by argo
  then show False using not_digit(2) by (simp only: list.pred_inject simp_thms)
qed

lemma decimal_eq_iff [simp]: "decimal m = decimal n \<longleftrightarrow> m = n"
proof
  assume eq: "decimal m = decimal n"
  consider "0 \<le> m" "0 \<le> n" | "m < 0" "n < 0" | "0 \<le> m" "n < 0" | "m < 0" "0 \<le> n" by linarith
  then show "m = n"
  proof cases
    case 1
    then show ?thesis using decimal_inj eq by blast
  next
    case 2
    then have "decimal (- m) = decimal (- n)" using eq decimal_neg [of m] decimal_neg [of n] by (metis list.inject)
    then show ?thesis using decimal_inj [of "- m" "- n"] 2 by simp
  qed (use decimal_signs eq in \<open>metis\<close>)+
qed simp

definition plain_tokens :: "fill_row \<Rightarrow> bool" where
  "plain_tokens f \<longleftrightarrow> CHR '':'' \<notin> set (lower (rf_sell f))"

lemma direction_key_iff:
  "plain_tokens f \<Longrightarrow> plain_tokens g \<Longrightarrow> fill_direction_key f = fill_direction_key g
    \<longleftrightarrow> decimal (rf_batch f) = decimal (rf_batch g) \<and> same (rf_sell f) (rf_sell g) \<and> same (rf_buy f) (rf_buy g)"
  using split_first [OF decimal_no_colon decimal_no_colon, of "rf_batch f" "lower (rf_sell f) @ '':'' @ lower (rf_buy f)" "rf_batch g"
      "lower (rf_sell g) @ '':'' @ lower (rf_buy g)"]
    split_first [of "CHR '':''" "lower (rf_sell f)" "lower (rf_sell g)" "lower (rf_buy f)" "lower (rf_buy g)"]
  by (simp add: fill_direction_key_def plain_tokens_def same_def)


text \<open>
  Grouping loses nothing and mixes nothing: no two directions have the same batch and tokens, and each
  one holds the number of fills of its batch and tokens, their whole volume and their whole baseline,
  at the block before the submission of the first.
\<close>

theorem directions_exact:
  assumes "\<And>x. x \<in> set fills \<Longrightarrow> plain_tokens (fst x)"
  shows "distinct (map (\<lambda>d. (di_batchId d, di_sell d, di_buy d)) (fill_directions fills))
    \<and> (\<forall>d\<in>set (fill_directions fills).
         let g = filter (\<lambda>x. decimal (rf_batch (fst x)) = di_batchId d \<and> lower (rf_sell (fst x)) = di_sell d \<and> lower (rf_buy (fst x)) = di_buy d) fills
         in g \<noteq> [] \<and> di_fills d = length g \<and> di_executedSell d = (\<Sum>x\<leftarrow>g. rf_executedSell (fst x)) \<and> di_baselineBuy d = (\<Sum>x\<leftarrow>g. rf_baseline (fst x))
           \<and> di_block d = (case snd (hd g) of Some b \<Rightarrow> b | None \<Rightarrow> rf_block (fst (hd g))) - 1)
    \<and> (\<forall>x\<in>set fills. \<exists>d\<in>set (fill_directions fills). decimal (rf_batch (fst x)) = di_batchId d \<and> lower (rf_sell (fst x)) = di_sell d
         \<and> lower (rf_buy (fst x)) = di_buy d)"
proof -
  let ?M = "foldl group_fill [] fills" and ?id = "\<lambda>d. (di_batchId d, di_sell d, di_buy d)"
  have entry: "d = summed (group_of k fills) \<and> group_of k fills \<noteq> []" if "(k, d) \<in> set ?M" for k d
    using map_of_is_SomeI [OF conjunct2 [OF grouped] that] grouped [of fills k] by (auto split: if_splits)
  have ident: "?id (summed g) = (decimal (rf_batch (fst (hd g))), lower (rf_sell (fst (hd g))), lower (rf_buy (fst (hd g))))" for g
    by (simp add: summed_def new_direction_def)
  have key: "fill_direction_key (fst (hd (group_of k fills))) = k \<and> hd (group_of k fills) \<in> set fills" if "group_of k fills \<noteq> []" for k
    using hd_in_set [OF that] by (simp add: group_of_def)
  have same_group: "group_of k fills = filter (\<lambda>x. decimal (rf_batch (fst x)) = di_batchId d \<and> lower (rf_sell (fst x)) = di_sell d \<and> lower (rf_buy (fst x)) = di_buy d) fills"
    if kd: "(k, d) \<in> set ?M" for k d
    unfolding group_of_def
  proof (rule filter_cong [OF refl])
    fix x assume x: "x \<in> set fills"
    note e = entry [OF kd]
    have "fill_direction_key (fst x) = k \<longleftrightarrow> fill_direction_key (fst x) = fill_direction_key (fst (hd (group_of k fills)))" using key [OF conjunct2 [OF e]] by simp
    also have "\<dots> \<longleftrightarrow> ?id d = (decimal (rf_batch (fst x)), lower (rf_sell (fst x)), lower (rf_buy (fst x)))"
      using direction_key_iff [OF assms [OF x] assms [OF conjunct2 [OF key [OF conjunct2 [OF e]]]]] ident [of "group_of k fills"] e
      by (auto simp: same_def)
    finally show "fill_direction_key (fst x) = k \<longleftrightarrow> decimal (rf_batch (fst x)) = di_batchId d \<and> lower (rf_sell (fst x)) = di_sell d \<and> lower (rf_buy (fst x)) = di_buy d"
      by auto
  qed
  have inj: "k = k'" if "(k, d) \<in> set ?M" "(k', d') \<in> set ?M" "?id d = ?id d'" for k d k' d'
  proof -
    have "group_of k fills = group_of k' fills" using same_group [OF that(1)] same_group [OF that(2)] that(3) by simp
    then show ?thesis using key [of k] key [of k'] entry [OF that(1)] by simp
  qed
  have "inj_on (?id \<circ> snd) (set ?M)"
  proof (rule inj_onI)
    fix a b assume ab: "a \<in> set ?M" "b \<in> set ?M" "(?id \<circ> snd) a = (?id \<circ> snd) b"
    have "fst a = fst b" using inj [of "fst a" "snd a" "fst b" "snd b"] ab by simp
    moreover have "snd a = summed (group_of (fst a) fills)" "snd b = summed (group_of (fst b) fills)"
      using entry [of "fst a" "snd a"] entry [of "fst b" "snd b"] ab(1,2) unfolding prod.collapse by blast+
    ultimately show "a = b" by (simp add: prod_eq_iff)
  qed
  moreover have "distinct ?M" using conjunct2 [OF grouped] by (rule distinct_map [THEN iffD1, THEN conjunct1])
  ultimately have "distinct (map ?id (fill_directions fills))" by (simp add: fill_directions_def distinct_map)
  moreover have "\<forall>d\<in>set (fill_directions fills).
       let g = filter (\<lambda>x. decimal (rf_batch (fst x)) = di_batchId d \<and> lower (rf_sell (fst x)) = di_sell d \<and> lower (rf_buy (fst x)) = di_buy d) fills
       in g \<noteq> [] \<and> di_fills d = length g \<and> di_executedSell d = (\<Sum>x\<leftarrow>g. rf_executedSell (fst x)) \<and> di_baselineBuy d = (\<Sum>x\<leftarrow>g. rf_baseline (fst x))
         \<and> di_block d = (case snd (hd g) of Some b \<Rightarrow> b | None \<Rightarrow> rf_block (fst (hd g))) - 1"
  proof
    fix d assume "d \<in> set (fill_directions fills)"
    then obtain k where kd: "(k, d) \<in> set ?M" by (auto simp: fill_directions_def)
    show "let g = filter (\<lambda>x. decimal (rf_batch (fst x)) = di_batchId d \<and> lower (rf_sell (fst x)) = di_sell d \<and> lower (rf_buy (fst x)) = di_buy d) fills
       in g \<noteq> [] \<and> di_fills d = length g \<and> di_executedSell d = (\<Sum>x\<leftarrow>g. rf_executedSell (fst x)) \<and> di_baselineBuy d = (\<Sum>x\<leftarrow>g. rf_baseline (fst x))
         \<and> di_block d = (case snd (hd g) of Some b \<Rightarrow> b | None \<Rightarrow> rf_block (fst (hd g))) - 1"
      unfolding same_group [OF kd, symmetric] Let_def using entry [OF kd] by (simp add: summed_def new_direction_def)
  qed
  moreover have "\<exists>d\<in>set (fill_directions fills). decimal (rf_batch (fst x)) = di_batchId d \<and> lower (rf_sell (fst x)) = di_sell d \<and> lower (rf_buy (fst x)) = di_buy d"
    if x: "x \<in> set fills" for x
  proof -
    let ?k = "fill_direction_key (fst x)"
    have "x \<in> set (group_of ?k fills)" using x by (simp add: group_of_def)
    then have "group_of ?k fills \<noteq> []" by auto
    then obtain d where kd: "(?k, d) \<in> set ?M" using grouped [of fills ?k] by (auto intro: map_of_SomeD)
    have "x \<in> set (group_of ?k fills)" using x by (simp add: group_of_def)
    then have "decimal (rf_batch (fst x)) = di_batchId d \<and> lower (rf_sell (fst x)) = di_sell d \<and> lower (rf_buy (fst x)) = di_buy d"
      unfolding same_group [OF kd] by simp
    moreover have "d \<in> set (fill_directions fills)" using kd by (force simp: fill_directions_def)
    ultimately show ?thesis by blast
  qed
  ultimately show ?thesis by blast
qed


section \<open>What a clean reconciliation vouches for\<close>

lemma lower_digit: "is_digit x \<Longrightarrow> lower_char x = x"
  by (auto simp: is_digit_def lower_char_def Let_def)

lemma lower_decimal [simp]: "lower (decimal n) = decimal n"
proof -
  have pos: "lower (decimal k) = decimal k" if "0 \<le> k" for k
    using decimal_digits [OF that] unfolding lower_def by (induction "decimal k" rule: list.induct) (simp_all add: map_idI lower_digit list_all_iff)
  have "lower (CHR ''-'' # s) = CHR ''-'' # lower s" for s by (simp add: lower_def lower_char_def)
  then show ?thesis by (cases "0 \<le> n") (simp_all add: pos decimal_neg)
qed


lemma compare_ok [simp]: "rc_status (compare c s d h) = Differs \<longleftrightarrow> lower d \<noteq> lower h"
  by (simp add: compare_def)

lemma verdict_ok [simp]: "rc_status (verdict c s d h ok) = Differs \<longleftrightarrow> \<not> ok"
  by (simp add: verdict_def)

definition clean :: "rec_check list \<Rightarrow> bool" where
  "clean checks \<longleftrightarrow> (\<forall>ch\<in>set checks. rc_status ch \<noteq> Differs)"

lemma clean_simps [simp]: "clean []" "clean (c # cs) \<longleftrightarrow> rc_status c \<noteq> Differs \<and> clean cs" "clean (xs @ ys) \<longleftrightarrow> clean xs \<and> clean ys"
  "clean (concat xss) \<longleftrightarrow> (\<forall>xs\<in>set xss. clean xs)"
  by (auto simp: clean_def)





section \<open>A concrete reconciliation\<close>

definition sample_fill :: "int \<Rightarrow> int \<Rightarrow> fill_row" where
  "sample_fill savings n = \<lparr>rf_deployment = ''s'', rf_batch = 7, rf_sell = ''0xAA'', rf_buy = ''0xbb'', rf_executedSell = 5, rf_baseline = 9,
     rf_savings = savings, rf_block = 3, rf_log = n\<rparr>"





theorem directions_exact_witness:
  "map (\<lambda>d. (di_fills d, di_executedSell d)) (fill_directions [(sample_fill 2 0, None), (sample_fill 3 1, Some 2)]) = [(2, 10)]
    \<and> distinct (map (\<lambda>d. (di_batchId d, di_sell d, di_buy d)) (fill_directions [(sample_fill 2 0, None), (sample_fill 3 1, Some 2)]))"
proof
  show "map (\<lambda>d. (di_fills d, di_executedSell d)) (fill_directions [(sample_fill 2 0, None), (sample_fill 3 1, Some 2)]) = [(2, 10)]" by code_simp
  have "CHR '':'' \<notin> set (lower ''0xAA'')" by code_simp
  then have p: "plain_tokens (sample_fill n k)" for n k by (simp add: plain_tokens_def sample_fill_def)
  show "distinct (map (\<lambda>d. (di_batchId d, di_sell d, di_buy d)) (fill_directions [(sample_fill 2 0, None), (sample_fill 3 1, Some 2)]))"
    by (rule conjunct1 [OF directions_exact]) (use p in auto)
qed

end
