(* ===== verification/Fixture.thy ===== *)
theory Fixture
  imports Requests
begin

text \<open>
  analytics/src/extract.ts: an hour of exported trades made into the fixture the replay signs again. The
  CSV reader, the money reader, the windows and the scale under the cap of one batch. The reading of an
  amount in exponent form goes through a double and is a parameter.
\<close>

section \<open>The export\<close>

definition QUOTE :: char where "QUOTE = CHR 0x22"
definition LF :: char where "LF = CHR 0x0A"
definition CR :: char where "CR = CHR 0x0D"

definition keep_row :: "string list \<Rightarrow> string list list \<Rightarrow> string list list" where
  "keep_row row rows = (if list_ex (\<lambda>f. f \<noteq> []) row then rows @ [row] else rows)"

text \<open>The loop of \<^verbatim>\<open>parseCsv\<close> over the characters left, with its four variables.\<close>

function csv_scan :: "string \<Rightarrow> bool \<Rightarrow> string \<Rightarrow> string list \<Rightarrow> string list list \<Rightarrow> string list list" where
  "csv_scan [] quoted field row rows = keep_row (row @ [field]) rows"
| "csv_scan (ch # cs) quoted field row rows =
     (if quoted then
        if ch = QUOTE \<and> take 1 cs = [QUOTE] then csv_scan (drop 1 cs) True (field @ [QUOTE]) row rows
        else if ch = QUOTE then csv_scan cs False field row rows
        else csv_scan cs True (field @ [ch]) row rows
      else if ch = QUOTE then csv_scan cs True field row rows
      else if ch = CHR '','' then csv_scan cs False [] (row @ [field]) rows
      else if ch = LF \<or> ch = CR then
        csv_scan (if ch = CR \<and> take 1 cs = [LF] then drop 1 cs else cs) False [] [] (keep_row (row @ [field]) rows)
      else csv_scan cs False (field @ [ch]) row rows)"
  by pat_completeness auto
termination by (relation "measure (\<lambda>(cs, _). length cs)") auto

type_synonym csv_record = "(string \<times> string) list"

definition csv_object :: "string list \<Rightarrow> string list \<Rightarrow> csv_record" where
  "csv_object head r = foldl (\<lambda>m (i, h). AList.update (trim h) (if i < length r then r ! i else []) m) [] (enumerate 0 head)"

definition parse_csv :: "string \<Rightarrow> csv_record list" where
  "parse_csv txt = (case csv_scan txt False [] [] [] of [] \<Rightarrow> [] | head # body \<Rightarrow> map (csv_object head) body)"

section \<open>Times\<close>

text \<open>
  \<^verbatim>\<open>Date.parse\<close> of the ISO text that the two replacements make of a Dune time: year, month, day, hour,
  minute, second and perhaps milliseconds, in UTC. Other texts are not a time here.
\<close>

definition days_of :: "int \<Rightarrow> int \<Rightarrow> int \<Rightarrow> int" where
  "days_of y m d =
     (let y' = (if m \<le> 2 then y - 1 else y); mp = (m + 9) mod 12
      in 365 * y' + y' div 4 - y' div 100 + y' div 400 + (153 * mp + 2) div 5 + d - 1 - 719468)"

definition fixed_number :: "nat \<Rightarrow> nat \<Rightarrow> string \<Rightarrow> int option" where
  "fixed_number from len s =
     (let t = take len (drop from s) in if length t = len \<and> list_all is_digit t then Some (decimal_value t) else None)"

definition date_parse :: "string \<Rightarrow> int option" where
  "date_parse s =
     (case (fixed_number 0 4 s, fixed_number 5 2 s, fixed_number 8 2 s, fixed_number 11 2 s, fixed_number 14 2 s, fixed_number 17 2 s) of
        (Some y, Some mo, Some d, Some h, Some mi, Some se) \<Rightarrow>
          let seps = map (\<lambda>i. s ! i) [4, 7, 10, 13, 16]; rest = drop 19 s;
              ms = (if rest = ''Z'' then Some 0 else if take 1 rest = ''.'' \<and> drop 4 rest = ''Z'' then fixed_number 20 3 s else None)
          in if seps = ''--T::'' \<and> 1 \<le> mo \<and> mo \<le> 12 \<and> 1 \<le> d \<and> d \<le> 31 \<and> h < 24 \<and> mi < 60 \<and> se < 60
             then map_option (\<lambda>m. ((days_of y mo d * 24 + h) * 60 + mi) * 60000 + se * 1000 + m) ms else None
      | _ \<Rightarrow> None)"

text \<open>\<^verbatim>\<open>s.replace(word, by)\<close> with two strings replaces the first occurrence.\<close>

fun replace_first :: "string \<Rightarrow> string \<Rightarrow> string \<Rightarrow> string" where
  "replace_first word by [] = (if word = [] then by else [])"
| "replace_first word by (c # cs) =
     (if take (length word) (c # cs) = word then by @ drop (length word) (c # cs) else c # replace_first word by cs)"

definition parse_dune_time :: "string \<Rightarrow> js_error + int" where
  "parse_dune_time s =
     (case date_parse (replace_first '' '' ''T'' (replace_first '' UTC'' ''Z'' (trim s))) of
        Some ms \<Rightarrow> Inr ms | None \<Rightarrow> Inl (Thrown ''cannot read the time''))"

section \<open>Money\<close>

definition digits1 :: "string \<Rightarrow> bool" where
  "digits1 s \<longleftrightarrow> s \<noteq> [] \<and> list_all is_digit s"

definition is_exp :: "char \<Rightarrow> bool" where
  "is_exp c \<longleftrightarrow> c = CHR ''e'' \<or> c = CHR ''E''"

text \<open>The parts of \<^verbatim>\<open>/^\d+(\.\d+)?(e[+-]?\d+)?$/i\<close>: before the point, after it, and after the e.\<close>

definition amount_parts :: "string \<Rightarrow> (string \<times> string option \<times> string option) option" where
  "amount_parts t =
     (let mantissa = takeWhile (\<lambda>c. \<not> is_exp c) t; tail = dropWhile (\<lambda>c. \<not> is_exp c) t;
          whole = takeWhile (\<lambda>c. c \<noteq> CHR ''.'') mantissa; point = dropWhile (\<lambda>c. c \<noteq> CHR ''.'') mantissa;
          unsigned = (case tl tail of [] \<Rightarrow> [] | c # cs \<Rightarrow> if c = CHR ''+'' \<or> c = CHR ''-'' then cs else c # cs)
      in if digits1 whole \<and> (point = [] \<or> digits1 (tl point)) \<and> (tail = [] \<or> digits1 unsigned)
         then Some (whole, if point = [] then None else Some (tl point), if tail = [] then None else Some (tl tail)) else None)"

definition to_micro :: "(string \<Rightarrow> int) \<Rightarrow> string \<Rightarrow> js_error + int" where
  "to_micro float_micro s =
     (let t = trim s in
      case amount_parts t of
        None \<Rightarrow> Inl (Thrown ''not a usd amount'')
      | Some (whole, frac, Some e) \<Rightarrow> Inr (float_micro t)
      | Some (whole, frac, None) \<Rightarrow>
          Inr (decimal_value whole * 1000000 + decimal_value (take 6 ((case frac of None \<Rightarrow> [] | Some f \<Rightarrow> f) @ ''000000''))))"

section \<open>The fixture\<close>

definition ALLOWLIST :: "string list" where "ALLOWLIST = [''NVDA'', ''AAPL'', ''TSLA'', ''GOOGL'']"
definition DEFAULT_BATCH_SECONDS :: int where "DEFAULT_BATCH_SECONDS = 45"
definition HALVED_SESSIONS :: "int list" where "HALVED_SESSIONS = [6, 7, 8]"
definition CAP_HEADROOM_BPS :: int where "CAP_HEADROOM_BPS = 9000"

definition REQUIRED :: "string list" where
  "REQUIRED = [''block_time'', ''tx_hash'', ''evt_index'', ''sym'', ''side'', ''amount_usd'', ''taker'', ''window_start'']"

definition batch_cap_usd_micro :: "int \<Rightarrow> int \<Rightarrow> int" where
  "batch_cap_usd_micro full session = (if session \<in> set HALVED_SESSIONS then full sdiv 2 else full)"

record base_trade =
  bt_at :: int
  bt_window :: int
  bt_sym :: string
  bt_side :: string
  bt_usd :: int
  bt_trader :: nat
  bt_txHash :: string
  bt_logIndex :: string

record fixture_trade =
  ft_at :: int
  ft_window :: int
  ft_sym :: string
  ft_side :: string
  ft_usdMicro :: int
  ft_usdMicroOriginal :: int
  ft_trader :: nat
  ft_txHash :: string
  ft_logIndex :: string

record fixture =
  fx_windowStart :: int
  fx_sourceTrades :: nat
  fx_cap :: int
  fx_fullCap :: "int option"
  fx_session :: "int option"
  fx_busiest :: int
  fx_numerator :: int
  fx_denominator :: int
  fx_batchSeconds :: int
  fx_traders :: nat
  fx_trades :: "fixture_trade list"

definition column :: "csv_record \<Rightarrow> string \<Rightarrow> string" where
  "column r k = (case map_of r k of Some v \<Rightarrow> v | None \<Rightarrow> [])"

text \<open>
  One row, with the takers seen so far in order of first appearance; the index of a log stays the text
  it is written as.
\<close>

definition base_row :: "(string \<Rightarrow> int) \<Rightarrow> int \<Rightarrow> int \<Rightarrow> string list \<Rightarrow> csv_record \<Rightarrow> js_error + base_trade \<times> string list" where
  "base_row float_micro start batchSeconds takers r =
     (let sym = trim (column r ''sym''); side = trim (column r ''side'') in
      if sym \<notin> set ALLOWLIST then Inl (Thrown ''outside allowlist v1.0'')
      else if side \<noteq> ''buy'' \<and> side \<noteq> ''sell'' then Inl (Thrown ''neither buy nor sell'')
      else bindE (parse_dune_time (column r ''block_time'')) (\<lambda>ms.
        let offset = (ms - start) div 1000 in
        if offset < 0 \<or> offset \<ge> 3600 then Inl (Thrown ''is outside the window'')
        else let taker = lower (trim (column r ''taker'')); takers' = (if taker \<in> set takers then takers else takers @ [taker]) in
          bindE (to_micro float_micro (column r ''amount_usd'')) (\<lambda>usd.
            Inr (\<lparr>bt_at = offset, bt_window = offset div batchSeconds, bt_sym = sym, bt_side = side, bt_usd = usd,
                  bt_trader = length (takeWhile (\<lambda>t. t \<noteq> taker) takers'), bt_txHash = lower (trim (column r ''tx_hash'')),
                  bt_logIndex = column r ''evt_index''\<rparr>, takers'))))"

fun base_rows :: "(string \<Rightarrow> int) \<Rightarrow> int \<Rightarrow> int \<Rightarrow> string list \<Rightarrow> csv_record list \<Rightarrow> js_error + base_trade list \<times> string list" where
  "base_rows float_micro start batchSeconds takers [] = Inr ([], takers)"
| "base_rows float_micro start batchSeconds takers (r # rs) =
     bindE (base_row float_micro start batchSeconds takers r) (\<lambda>(t, takers').
     bindE (base_rows float_micro start batchSeconds takers' rs) (\<lambda>(ts, takers'').
       Inr (t # ts, takers'')))"

definition window_sum :: "base_trade list \<Rightarrow> int \<Rightarrow> int" where
  "window_sum ts w = (\<Sum>t\<leftarrow>filter (\<lambda>t. bt_window t = w) ts. bt_usd t)"

definition busiest_window :: "base_trade list \<Rightarrow> int" where
  "busiest_window ts = foldl (\<lambda>a b. if b > a then b else a) 0 (map (window_sum ts) (remdups (map bt_window ts)))"

definition scaled_trade :: "int \<Rightarrow> int \<Rightarrow> base_trade \<Rightarrow> fixture_trade" where
  "scaled_trade num den t =
     \<lparr>ft_at = bt_at t, ft_window = bt_window t, ft_sym = bt_sym t, ft_side = bt_side t, ft_usdMicro = (bt_usd t * num) sdiv den,
      ft_usdMicroOriginal = bt_usd t, ft_trader = bt_trader t, ft_txHash = bt_txHash t, ft_logIndex = bt_logIndex t\<rparr>"

record extract_options =
  eo_cap :: int
  eo_batchSeconds :: "int option"
  eo_fullCap :: "int option"
  eo_session :: "int option"

definition extract_fixture :: "(string \<Rightarrow> int) \<Rightarrow> csv_record list \<Rightarrow> extract_options \<Rightarrow> js_error + fixture" where
  "extract_fixture float_micro rows opts =
     (case rows of
        [] \<Rightarrow> Inl (Thrown ''the export has no rows'')
      | first # _ \<Rightarrow>
          if list_ex (\<lambda>k. k \<notin> fst ` set first) REQUIRED then Inl (Thrown ''the export lacks columns. is it query 13'')
          else let batchSeconds = (case eo_batchSeconds opts of Some n \<Rightarrow> n | None \<Rightarrow> DEFAULT_BATCH_SECONDS) in
            bindE (parse_dune_time (column first ''window_start'')) (\<lambda>start.
            bindE (base_rows float_micro start batchSeconds [] rows) (\<lambda>(base, takers).
              let busiest = busiest_window base; target = (eo_cap opts * CAP_HEADROOM_BPS) sdiv 10000;
                  (num, den) = (if busiest > target then (target, busiest) else (1, 1))
              in Inr \<lparr>fx_windowStart = start, fx_sourceTrades = length rows, fx_cap = eo_cap opts, fx_fullCap = eo_fullCap opts,
                  fx_session = eo_session opts, fx_busiest = busiest, fx_numerator = num, fx_denominator = den, fx_batchSeconds = batchSeconds,
                  fx_traders = length takers, fx_trades = map (scaled_trade num den) base\<rparr>)))"

record fork_limits =
  fl_cap :: int
  fl_fullCap :: int
  fl_session :: int
  fl_batchSeconds :: int

text \<open>What the fork answers: the cap with 18 decimals, its session and the length of its batches.\<close>

definition limits_from_fork :: "int \<Rightarrow> int \<Rightarrow> int \<Rightarrow> js_error + fork_limits" where
  "limits_from_fork capPerBatchUsd session batchDuration =
     (let full = capPerBatchUsd sdiv 10 ^ 12 in
      if batchDuration = 0 then Inl (Thrown ''the fork is in an auction session, which runs no ordinary batch'')
      else Inr \<lparr>fl_cap = batch_cap_usd_micro full session, fl_fullCap = full, fl_session = session, fl_batchSeconds = batchDuration\<rparr>)"


section \<open>Reading back what was written\<close>

text \<open>A line as RFC 4180 writes it, every field quoted and the quotes inside doubled.\<close>

definition csv_field :: "string \<Rightarrow> string" where
  "csv_field f = QUOTE # concat (map (\<lambda>c. if c = QUOTE then [QUOTE, QUOTE] else [c]) f) @ [QUOTE]"

fun csv_line :: "string list \<Rightarrow> string" where
  "csv_line [] = []"
| "csv_line [f] = csv_field f @ [LF]"
| "csv_line (f # fs) = csv_field f @ CHR '','' # csv_line fs"

lemma csv_chars: "QUOTE \<noteq> CHR '',''" "QUOTE \<noteq> LF" "QUOTE \<noteq> CR" "CHR '','' \<noteq> QUOTE" "LF \<noteq> QUOTE" "LF \<noteq> CHR '',''" "CR \<noteq> QUOTE" "CR \<noteq> CHR '',''" "LF \<noteq> CR"
  by (simp_all add: QUOTE_def LF_def CR_def)

lemma scan_quoted:
  assumes "take 1 rest \<noteq> [QUOTE]"
  shows "csv_scan (concat (map (\<lambda>c. if c = QUOTE then [QUOTE, QUOTE] else [c]) f) @ QUOTE # rest) True acc row rows
    = csv_scan rest False (acc @ f) row rows"
proof (induction f arbitrary: acc)
  case (Cons c f)
  show ?case using Cons [of "acc @ [c]"] by (cases "c = QUOTE") simp_all
qed (use assms in simp)

lemma scan_field: "take 1 rest \<noteq> [QUOTE] \<Longrightarrow> csv_scan (csv_field f @ rest) False [] row rows = csv_scan rest False f row rows"
  using scan_quoted [of rest f "[]"] by (simp add: csv_field_def)

lemma scan_line: "fs \<noteq> [] \<Longrightarrow> csv_scan (csv_line fs @ rest) False [] row rows = csv_scan rest False [] [] (keep_row (row @ fs) rows)"
proof (induction fs arbitrary: row rule: csv_line.induct)
  case (2 f)
  then show ?case using scan_field [of "LF # rest" f row rows] csv_chars by simp
next
  case (3 f g fs)
  have "csv_scan (csv_line (f # g # fs) @ rest) False [] row rows = csv_scan (CHR '','' # csv_line (g # fs) @ rest) False f row rows"
    using scan_field [of "CHR '','' # csv_line (g # fs) @ rest" f row rows] csv_chars by simp
  also have "\<dots> = csv_scan (csv_line (g # fs) @ rest) False [] (row @ [f]) rows" using csv_chars by simp
  finally show ?case using 3 by simp
qed simp

text \<open>
  The reader recovers every table of fields, with whatever quotes, commas and line breaks inside them,
  from the text that quotes them; a line of empty fields is a line it skips.
\<close>

theorem csv_roundtrip:
  assumes "\<And>fs. fs \<in> set table \<Longrightarrow> list_ex (\<lambda>f. f \<noteq> []) fs"
  shows "csv_scan (concat (map csv_line table)) False [] [] [] = table"
proof -
  have "csv_scan (concat (map csv_line table)) False [] [] rows = rows @ table" for rows
    using assms
  proof (induction table arbitrary: rows)
    case (Cons fs table)
    have fs: "list_ex (\<lambda>f. f \<noteq> []) fs" using Cons.prems by simp
    then have "fs \<noteq> []" by auto
    then show ?case using Cons.IH [of "rows @ [fs]"] Cons.prems fs by (simp add: scan_line keep_row_def)
  qed (simp add: keep_row_def)
  then show ?thesis by simp
qed

theorem csv_roundtrip_witness:
  "csv_scan (concat (map csv_line [[''a,b'', [QUOTE, LF]], [[], ''c'']])) False [] [] [] = [[''a,b'', [QUOTE, LF]], [[], ''c'']]"
  by (rule csv_roundtrip) auto

section \<open>Money is truncated exactly\<close>

lemma digit_not_exp: "is_digit c \<Longrightarrow> \<not> is_exp c \<and> c \<noteq> CHR ''.'' \<and> \<not> is_space c"
  by (auto simp: is_digit_def is_exp_def is_space_def)

lemma digits_parts:
  "list_all is_digit w \<Longrightarrow> takeWhile (\<lambda>c. c \<noteq> CHR ''.'') (w @ CHR ''.'' # f) = w"
  "list_all is_digit w \<Longrightarrow> dropWhile (\<lambda>c. c \<noteq> CHR ''.'') (w @ CHR ''.'' # f) = CHR ''.'' # f"
  by (induction w) (auto dest: digit_not_exp)

lemma decimal_value_append: "decimal_value (a @ b) = decimal_value a * 10 ^ length b + decimal_value b"
proof (induction b rule: rev_induct)
  case (snoc c b)
  have "decimal_value (a @ b @ [c]) = 10 * decimal_value (a @ b) + (int (of_char c) - 48)"
    using decimal_value_snoc [of "a @ b" c] by simp
  then show ?case using snoc decimal_value_snoc [of b c] by (simp add: algebra_simps)
qed (simp add: decimal_value_def)

lemma decimal_value_below: "list_all is_digit f \<Longrightarrow> decimal_value f < 10 ^ length f"
proof (induction f rule: rev_induct)
  case (snoc c f)
  then have "(of_char c :: nat) \<le> 57" by (simp add: is_digit_def Let_def)
  then have "int (of_char c) - 48 \<le> 9" by linarith
  moreover have "decimal_value f + 1 \<le> 10 ^ length f" using snoc by simp
  ultimately show ?case using decimal_value_snoc [of f c] by simp
qed (simp add: decimal_value_def)

text \<open>
  An amount with any number of decimals is read to the millionth below it, never rounded up and never
  through a float: of the digits after the point exactly those beyond the sixth are dropped.
\<close>

theorem to_micro_truncates:
  assumes "digits1 whole" "digits1 f"
  shows "\<exists>m. to_micro float_micro (whole @ ''.'' @ f) = Inr m
    \<and> m * 10 ^ length f \<le> decimal_value (whole @ f) * 10 ^ 6 \<and> decimal_value (whole @ f) * 10 ^ 6 < (m + 1) * 10 ^ length f"
proof -
  let ?t = "whole @ CHR ''.'' # f"
  have w: "list_all is_digit whole" "whole \<noteq> []" and d: "list_all is_digit f" "f \<noteq> []" using assms by (simp_all add: digits1_def)
  have plain: "list_all (\<lambda>c. \<not> is_space c) ?t" "list_all (\<lambda>c. \<not> is_exp c) ?t"
    using w d digit_not_exp by (auto simp: list_all_iff is_space_def is_exp_def)
  have t: "trim ?t = ?t" by (rule trim_clean [OF plain(1)])
  have e: "takeWhile (\<lambda>c. \<not> is_exp c) ?t = ?t" "dropWhile (\<lambda>c. \<not> is_exp c) ?t = []"
    using plain(2) by (auto simp: takeWhile_eq_all_conv dropWhile_eq_Nil_conv list_all_iff)
  have parts: "amount_parts ?t = Some (whole, Some f, None)"
    unfolding amount_parts_def Let_def e digits_parts [OF w(1)] using assms by simp
  let ?m = "decimal_value whole * 1000000 + decimal_value (take 6 (f @ ''000000''))"
  have micro: "to_micro float_micro ?t = Inr ?m" by (simp add: to_micro_def t parts)
  have V: "decimal_value (whole @ f) = decimal_value whole * 10 ^ length f + decimal_value f" by (rule decimal_value_append)
  have "decimal_value (take 6 (f @ ''000000'')) * 10 ^ length f \<le> decimal_value f * 10 ^ 6
      \<and> decimal_value f * 10 ^ 6 < (decimal_value (take 6 (f @ ''000000'')) + 1) * 10 ^ length f"
  proof (cases "length f \<le> 6")
    case True
    let ?z = "take (6 - length f) ''000000''"
    have zero: "decimal_value (take k ''000000'') = 0" for k
    proof -
      have "''000000'' = replicate 6 (CHR ''0'')" by (simp add: numeral_eq_Suc)
      then have "take k ''000000'' = replicate (min k 6) (CHR ''0'')" by simp
      moreover have "decimal_value (replicate j (CHR ''0'')) = 0" for j by (induction j) (simp_all add: decimal_value_def)
      ultimately show ?thesis by simp
    qed
    have "length ?z = 6 - length f" by simp
    then have "decimal_value (f @ ?z) = decimal_value f * 10 ^ (6 - length f)" using zero by (simp add: decimal_value_append)
    moreover have "take 6 (f @ ''000000'') = f @ ?z" using True by simp
    moreover have "(10 :: int) ^ (6 - length f) * 10 ^ length f = 10 ^ 6" using True by (simp flip: power_add)
    moreover have "(0 :: int) < 10 ^ length f" by simp
    ultimately show ?thesis by (simp add: algebra_simps)
  next
    case False
    let ?a = "take 6 f" and ?b = "drop 6 f"
    have ab: "f = ?a @ ?b" "length ?b = length f - 6" by simp_all
    have "decimal_value f = decimal_value ?a * 10 ^ length ?b + decimal_value ?b" using decimal_value_append [of ?a ?b] by simp
    moreover have b: "list_all is_digit ?b" using d(1) by (auto simp: list_all_iff dest: in_set_dropD)
    moreover have "0 \<le> decimal_value ?b" "decimal_value ?b < 10 ^ length ?b" by (rule decimal_value_nonneg [OF b], rule decimal_value_below [OF b])
    moreover have lf: "length f = length ?b + 6" using False by simp
    have "(10 :: int) ^ length f = 10 ^ length ?b * 10 ^ 6" by (subst lf, rule power_add)
    moreover have "take 6 (f @ ''000000'') = ?a" using False by simp
    ultimately show ?thesis by (simp add: algebra_simps)
  qed
  then have "?m * 10 ^ length f \<le> decimal_value (whole @ f) * 10 ^ 6 \<and> decimal_value (whole @ f) * 10 ^ 6 < (?m + 1) * 10 ^ length f"
    unfolding V by (simp add: algebra_simps)
  then show ?thesis using micro by auto
qed

theorem to_micro_truncates_witness:
  "to_micro (\<lambda>s. 0) ''12.3456789'' = Inr 12345678
    \<and> (\<exists>m. to_micro (\<lambda>s. 0) ''12.3456789'' = Inr m \<and> m * 10 ^ 7 \<le> 123456789 * 10 ^ 6)"
proof -
  have d: "digits1 ''12''" "digits1 ''3456789''" by code_simp+
  have v: "decimal_value (''12'' @ ''3456789'') = 123456789" by code_simp
  have "to_micro (\<lambda>s. 0) ''12.3456789'' = Inr 12345678" by code_simp
  moreover have "\<exists>m. to_micro (\<lambda>s. 0) (''12'' @ ''.'' @ ''3456789'') = Inr m \<and> m * 10 ^ length ''3456789'' \<le> 123456789 * 10 ^ 6"
    using to_micro_truncates [OF d, of "\<lambda>s. 0"] unfolding v by blast
  ultimately show ?thesis by simp
qed


section \<open>The scale\<close>




lemma base_row_parts:
  assumes "base_row float_micro start n takers r = Inr (t, takers')"
  shows "(\<exists>s. to_micro float_micro s = Inr (bt_usd t)) \<and> bt_window t = bt_at t div n \<and> 0 \<le> bt_at t \<and> bt_at t < 3600
    \<and> takers' = (let k = lower (trim (column r ''taker'')) in if k \<in> set takers then takers else takers @ [k])
    \<and> bt_trader t = length (takeWhile (\<lambda>x. x \<noteq> lower (trim (column r ''taker''))) takers')
    \<and> bt_txHash t = lower (trim (column r ''tx_hash'')) \<and> bt_logIndex t = column r ''evt_index''"
  using assms by (auto simp: base_row_def Let_def split: if_splits)

lemma base_rows_all:
  "base_rows float_micro start n takers rs = Inr (ts, takers') \<Longrightarrow> length ts = length rs
    \<and> (\<forall>t\<in>set ts. (\<exists>s. to_micro float_micro s = Inr (bt_usd t)) \<and> bt_window t = bt_at t div n \<and> 0 \<le> bt_at t \<and> bt_at t < 3600)
    \<and> map bt_txHash ts = map (\<lambda>r. lower (trim (column r ''tx_hash''))) rs \<and> map bt_logIndex ts = map (\<lambda>r. column r ''evt_index'') rs"
proof (induction rs arbitrary: takers ts)
  case (Cons r rs)
  obtain t ks ts' where t: "base_row float_micro start n takers r = Inr (t, ks)" "base_rows float_micro start n ks rs = Inr (ts', takers')" "ts = t # ts'"
    using Cons.prems by auto
  show ?case using Cons.IH [OF t(2)] base_row_parts [OF t(1)] t(3) by simp
qed simp




text \<open>A trade is never mixed with another taker's: the index is the place of the taker among those seen.\<close>

definition taker_of :: "csv_record \<Rightarrow> string" where
  "taker_of r = lower (trim (column r ''taker''))"

lemma takeWhile_place: "k \<in> set xs \<Longrightarrow> length (takeWhile (\<lambda>x. x \<noteq> k) xs) < length xs \<and> xs ! length (takeWhile (\<lambda>x. x \<noteq> k) xs) = k"
  by (induction xs) auto

lemma takeWhile_extends: "k \<in> set xs \<Longrightarrow> takeWhile (\<lambda>x. x \<noteq> k) (xs @ ys) = takeWhile (\<lambda>x. x \<noteq> k) xs"
  by (induction xs) auto

lemma base_rows_takers:
  "base_rows float_micro start n takers rs = Inr (ts, takers') \<Longrightarrow> distinct takers \<Longrightarrow>
     distinct takers' \<and> (\<exists>ys. takers' = takers @ ys) \<and> set takers' = set takers \<union> set (map taker_of rs)
     \<and> map bt_trader ts = map (\<lambda>r. length (takeWhile (\<lambda>x. x \<noteq> taker_of r) takers')) rs"
proof (induction rs arbitrary: takers ts)
  case (Cons r rs)
  obtain t ks ts' where t: "base_row float_micro start n takers r = Inr (t, ks)" "base_rows float_micro start n ks rs = Inr (ts', takers')" "ts = t # ts'"
    using Cons.prems by auto
  have ks: "ks = (if taker_of r \<in> set takers then takers else takers @ [taker_of r])"
    "bt_trader t = length (takeWhile (\<lambda>x. x \<noteq> taker_of r) ks)"
    using base_row_parts [OF t(1)] by (simp_all add: taker_of_def Let_def)
  have IH: "distinct takers'" "\<exists>ys. takers' = ks @ ys" "set takers' = set ks \<union> set (map taker_of rs)"
    "map bt_trader ts' = map (\<lambda>r. length (takeWhile (\<lambda>x. x \<noteq> taker_of r) takers')) rs"
    using Cons.IH [OF t(2)] Cons.prems(2) ks(1) by auto
  obtain ys where ys: "takers' = ks @ ys" using IH(2) by blast
  have "taker_of r \<in> set ks" using ks(1) by simp
  then have "bt_trader t = length (takeWhile (\<lambda>x. x \<noteq> taker_of r) takers')" using ks(2) ys takeWhile_extends by simp
  then show ?case using IH ks(1) ys t(3) by auto
qed simp

text \<open>
  The traders of the fixture are numbered without a gap, and two trades have the same number exactly
  when the export has the same taker for both, in whatever case it writes the address.
\<close>

theorem traders_are_takers:
  assumes "extract_fixture float_micro rows opts = Inr fx" "i < length rows" "j < length rows"
  shows "ft_trader (fx_trades fx ! i) < fx_traders fx
    \<and> (ft_trader (fx_trades fx ! i) = ft_trader (fx_trades fx ! j) \<longleftrightarrow> taker_of (rows ! i) = taker_of (rows ! j))
    \<and> fx_traders fx = card (set (map taker_of rows))"
proof -
  let ?n = "case eo_batchSeconds opts of Some n \<Rightarrow> n | None \<Rightarrow> DEFAULT_BATCH_SECONDS"
  obtain start base takers where b: "base_rows float_micro start ?n [] rows = Inr (base, takers)"
    and fx: "fx_traders fx = length takers" "fx_trades fx = map (scaled_trade (fx_numerator fx) (fx_denominator fx)) base"
    using assms(1) unfolding extract_fixture_def Let_def by (auto simp del: base_rows.simps split: list.splits if_splits)
  have T: "distinct takers" "set takers = set (map taker_of rows)" "map bt_trader base = map (\<lambda>r. length (takeWhile (\<lambda>x. x \<noteq> taker_of r) takers)) rows"
    using base_rows_takers [OF b] by auto
  have len: "length base = length rows" using base_rows_all [OF b] by blast
  have at: "ft_trader (fx_trades fx ! k) = length (takeWhile (\<lambda>x. x \<noteq> taker_of (rows ! k)) takers)" if "k < length rows" for k
    using arg_cong [OF T(3), of "\<lambda>xs. xs ! k"] that len fx(2) by (simp add: scaled_trade_def)
  have place: "ft_trader (fx_trades fx ! k) < length takers \<and> takers ! ft_trader (fx_trades fx ! k) = taker_of (rows ! k)" if k: "k < length rows" for k
  proof -
    have "taker_of (rows ! k) \<in> set takers" using T(2) k by simp
    then show ?thesis unfolding at [OF k] by (rule takeWhile_place)
  qed
  have "ft_trader (fx_trades fx ! i) = ft_trader (fx_trades fx ! j) \<longleftrightarrow> taker_of (rows ! i) = taker_of (rows ! j)"
    using place [OF assms(2)] place [OF assms(3)] at [OF assms(2)] at [OF assms(3)] by metis
  then show ?thesis using place [OF assms(2)] fx(1) T(1,2) distinct_card [OF T(1)] by simp
qed

definition sample_csv :: csv_record where
  "sample_csv = [(''block_time'', ''2026-08-12 03:00:01.000 UTC''), (''tx_hash'', ''0xAB''), (''evt_index'', ''4''), (''sym'', ''NVDA''), (''side'', ''buy''),
     (''amount_usd'', ''30.5''), (''taker'', ''0xCC''), (''window_start'', ''2026-08-12 03:00:00.000 UTC'')]"

definition sample_options :: extract_options where
  "sample_options = \<lparr>eo_cap = 20000000, eo_batchSeconds = None, eo_fullCap = None, eo_session = None\<rparr>"

lemma sample_fixture: "\<exists>fx. extract_fixture (\<lambda>s. 0) [sample_csv, sample_csv] sample_options = Inr fx \<and> fx_busiest fx = 61000000"
proof -
  have "(case extract_fixture (\<lambda>s. 0) [sample_csv, sample_csv] sample_options of Inr fx \<Rightarrow> fx_busiest fx = 61000000 | Inl e \<Rightarrow> False)" by code_simp
  then show ?thesis by (auto split: sum.splits)
qed


theorem traders_are_takers_witness:
  "case extract_fixture (\<lambda>s. 0) [sample_csv, sample_csv] sample_options of
     Inr fx \<Rightarrow> ft_trader (fx_trades fx ! 0) = ft_trader (fx_trades fx ! 1) | Inl e \<Rightarrow> False"
proof -
  obtain fx where fx: "extract_fixture (\<lambda>s. 0) [sample_csv, sample_csv] sample_options = Inr fx" using sample_fixture by blast
  show ?thesis using traders_are_takers [OF fx, of 0 1] fx by simp
qed

end
