(* ===== verification/Replay.thy ===== *)
theory Replay
  imports Complex_Main Fixture
begin

text \<open>
  analytics/src/replay.ts: the harness that plays a fixture through a running stack. Which trades are
  due at a block, the intent one trade becomes, the loop over the blocks, the wait for the receipts and
  the netting they add up to. What the chain and the coordinator answer is a parameter of each trade.
\<close>

definition MAX_BATCH_SECONDS :: int where "MAX_BATCH_SECONDS = 180"
definition SETTLE_GRACE_SECONDS :: int where "SETTLE_GRACE_SECONDS = 150"
definition SHRINK_BPS :: int where "SHRINK_BPS = 9000"
definition MIN_BUY_BPS :: int where "MIN_BUY_BPS = 9900"

definition HARNESS_FAULTS :: "string list" where
  "HARNESS_FAULTS = [''NonceAlreadyUsed'', ''IntentExpired'', ''SessionNotAllowed'', ''BatchMisaligned'', ''BatchInGuardBand'',
     ''COORDINATOR_BAD_SIGNATURE'', ''COORDINATOR_INVALID_REQUEST'', ''COORDINATOR_UNKNOWN_OWNER'', ''COORDINATOR_PERMIT2_NOT_APPROVED'',
     ''COORDINATOR_INSUFFICIENT_BALANCE'', ''COORDINATOR_DUPLICATE_INTENT'']"

section \<open>Pace\<close>


definition window_mismatch :: "int \<Rightarrow> int \<Rightarrow> rat \<Rightarrow> bool" where
  "window_mismatch fixtureBatchSeconds chainBatchSeconds speed \<longleftrightarrow> of_int chainBatchSeconds * speed \<noteq> of_int fixtureBatchSeconds"

section \<open>One trade\<close>

record order =
  or_user :: string
  or_sell :: string
  or_buy :: string
  or_sellAmount :: int
  or_minBuy :: int
  or_nonce :: int

record reply =
  rp_ok :: bool
  rp_status :: int
  rp_batchId :: "string option"
  rp_code :: "string option"

record play_world =
  pw_venue :: "string \<Rightarrow> string \<Rightarrow> int \<Rightarrow> js_error + int"
  pw_balance :: "string \<Rightarrow> string \<Rightarrow> js_error + int"
  pw_nonce :: "string \<Rightarrow> js_error + int"
  pw_post :: "order \<Rightarrow> js_error + reply"

record summary =
  su_sent :: nat
  su_accepted :: nat
  su_rejected :: "(string \<times> nat) list"
  su_faults :: nat
  su_shrunk :: nat
  su_skipped :: nat
  su_played :: nat
  su_batches :: "string list"

definition empty_summary :: summary where
  "empty_summary = \<lparr>su_sent = 0, su_accepted = 0, su_rejected = [], su_faults = 0, su_shrunk = 0, su_skipped = 0, su_played = 0, su_batches = []\<rparr>"

record replay_setup =
  rs_users :: "string list"
  rs_tokens :: "(string \<times> string) list"
  rs_quote :: string

definition count_of :: "(string \<times> nat) list \<Rightarrow> string \<Rightarrow> nat" where
  "count_of m k = (case map_of m k of Some n \<Rightarrow> n | None \<Rightarrow> 0)"

definition accept_batch :: "string \<Rightarrow> summary \<Rightarrow> summary" where
  "accept_batch b s = s\<lparr>su_accepted := Suc (su_accepted s), su_batches := (if b \<in> set (su_batches s) then su_batches s else su_batches s @ [b])\<rparr>"

definition reject_code :: "string \<Rightarrow> summary \<Rightarrow> summary" where
  "reject_code code s = s\<lparr>su_rejected := AList.update code (Suc (count_of (su_rejected s) code)) (su_rejected s),
     su_faults := su_faults s + (if code \<in> set HARNESS_FAULTS then 1 else 0)\<rparr>"

definition record_reply :: "reply \<Rightarrow> summary \<Rightarrow> summary" where
  "record_reply r s =
     (let code = (case rp_code r of Some k \<Rightarrow> k | None \<Rightarrow> ''HTTP_'' @ decimal (rp_status r)) in
      case rp_batchId r of
        Some b \<Rightarrow> if rp_ok r \<and> b \<noteq> [] then accept_batch b s else reject_code code s
      | None \<Rightarrow> reject_code code s)"

text \<open>What is left to sell when the balance cannot cover the trade, and whether it had to shrink.\<close>

definition sized_order :: "int \<Rightarrow> int \<Rightarrow> int \<times> bool" where
  "sized_order balance amount = (if balance < amount then ((balance * SHRINK_BPS) sdiv 10000, True) else (amount, False))"

definition send_order :: "play_world \<Rightarrow> string \<Rightarrow> string \<Rightarrow> string \<Rightarrow> int \<Rightarrow> summary \<Rightarrow> js_error + summary \<times> order option" where
  "send_order w user sell buy amount s =
     bindE (pw_venue w sell buy amount) (\<lambda>out.
     bindE (pw_nonce w user) (\<lambda>nonce.
       let order = \<lparr>or_user = user, or_sell = sell, or_buy = buy, or_sellAmount = amount, or_minBuy = (out * MIN_BUY_BPS) sdiv 10000, or_nonce = nonce\<rparr>
       in bindE (pw_post w order) (\<lambda>r. Inr (record_reply r (s\<lparr>su_sent := Suc (su_sent s)\<rparr>), Some order))))"

definition size_and_send :: "play_world \<Rightarrow> string \<Rightarrow> string \<Rightarrow> string \<Rightarrow> int \<Rightarrow> summary \<Rightarrow> js_error + summary \<times> order option" where
  "size_and_send w user sell buy wanted s =
     bindE (pw_balance w sell user) (\<lambda>balance.
       case sized_order balance wanted of
         (amount, False) \<Rightarrow> send_order w user sell buy amount s
       | (amount, True) \<Rightarrow>
           if amount = 0 then Inr (s\<lparr>su_skipped := Suc (su_skipped s)\<rparr>, None)
           else send_order w user sell buy amount (s\<lparr>su_shrunk := Suc (su_shrunk s)\<rparr>))"

definition play :: "replay_setup \<Rightarrow> play_world \<Rightarrow> fixture_trade \<Rightarrow> summary \<Rightarrow> js_error + summary \<times> order option" where
  "play st w t s0 =
     (let s = s0\<lparr>su_played := Suc (su_played s0)\<rparr>; user = rs_users st ! (ft_trader t mod length (rs_users st)); usd = ft_usdMicro t in
      case map_of (rs_tokens st) (ft_sym t) of
        None \<Rightarrow> Inl (Thrown ''the deployment has no such token'')
      | Some stock \<Rightarrow>
          if usd = 0 then Inr (s, None)
          else if rs_users st = [] then Inl TypeError
          else if ft_side t = ''buy'' then size_and_send w user (rs_quote st) stock usd s
          else bindE (pw_venue w (rs_quote st) stock usd) (\<lambda>wanted. size_and_send w user stock (rs_quote st) wanted s))"

section \<open>The blocks\<close>





section \<open>The receipts\<close>

record receipt_answer =
  ra_status :: int
  ra_outcome :: string
  ra_netted :: int
  ra_routed :: int

definition final_answer :: "receipt_answer \<Rightarrow> bool" where
  "final_answer a \<longleftrightarrow> ra_status a = 200 \<and> ra_outcome a \<notin> {''collecting'', ''solving''}"

text \<open>One block of \<^verbatim>\<open>collect\<close>: what was found before a read throws stays found, and the block then decides nothing.\<close>

fun ask_all :: "(string \<Rightarrow> js_error + receipt_answer) \<Rightarrow> string list \<Rightarrow> (string \<times> receipt_answer) list \<Rightarrow> (string \<times> receipt_answer) list \<times> bool" where
  "ask_all ask [] found = (found, True)"
| "ask_all ask (b # bs) found =
     (if map_of found b \<noteq> None then ask_all ask bs found
      else case ask b of
             Inl e \<Rightarrow> (found, False)
           | Inr a \<Rightarrow> ask_all ask bs (if final_answer a then found @ [(b, a)] else found))"

definition collect_deadline :: "int list \<Rightarrow> int" where
  "collect_deadline ids = foldl (\<lambda>a b. if b > a then b else a) (hd ids) (tl ids) + MAX_BATCH_SECONDS + SETTLE_GRACE_SECONDS"

text \<open>The answer when the wait is over, none while it goes on. A batch's id is the text of its start time.\<close>

fun collect :: "string list \<Rightarrow> (string \<times> receipt_answer) list \<Rightarrow> (int \<times> (string \<Rightarrow> js_error + receipt_answer)) list \<Rightarrow> ((string \<times> receipt_answer) list \<times> string list) option" where
  "collect ids found [] = None"
| "collect ids found ((timestamp, ask) # blocks) =
     (case ask_all ask ids found of
        (found', heard) \<Rightarrow>
          if heard \<and> (length found' = length ids \<or> timestamp > collect_deadline (map decimal_value ids))
          then Some (found', filter (\<lambda>b. map_of found' b = None) ids)
          else collect ids found' blocks)"

definition collect_receipts :: "string list \<Rightarrow> (int \<times> (string \<Rightarrow> js_error + receipt_answer)) list \<Rightarrow> ((string \<times> receipt_answer) list \<times> string list) option" where
  "collect_receipts ids blocks = (if ids = [] then Some ([], []) else collect ids [] blocks)"

record netting =
  nt_netted :: int
  nt_routed :: int
  nt_ratioBps :: int
  nt_netting :: nat

definition netting_of :: "receipt_answer list \<Rightarrow> netting" where
  "netting_of receipts =
     (let netted = (\<Sum>r\<leftarrow>receipts. ra_netted r); routed = (\<Sum>r\<leftarrow>receipts. ra_routed r); total = netted + routed
      in \<lparr>nt_netted = netted, nt_routed = routed, nt_ratioBps = (if total = 0 then 0 else (netted * 10000) sdiv total),
          nt_netting = length (filter (\<lambda>r. ra_netted r > 0) receipts)\<rparr>)"

definition replay_exit :: "summary \<Rightarrow> netting \<Rightarrow> int" where
  "replay_exit s n = (if su_faults s = 0 \<and> nt_netting n > 0 then 0 else 1)"


section \<open>What is due\<close>


section \<open>The accounts of a replay\<close>





lemma send_order_parts:
  "send_order w user sell buy amount s = Inr (s', ord) \<Longrightarrow> \<exists>out r o'. ord = Some o' \<and> s' = record_reply r (s\<lparr>su_sent := Suc (su_sent s)\<rparr>)
     \<and> or_user o' = user \<and> or_sell o' = sell \<and> or_buy o' = buy \<and> or_sellAmount o' = amount
     \<and> pw_venue w sell buy amount = Inr out \<and> or_minBuy o' = (out * MIN_BUY_BPS) sdiv 10000 \<and> pw_nonce w user = Inr (or_nonce o')"
  by (auto simp: send_order_def Let_def)

lemma size_and_send_parts:
  "size_and_send w user sell buy wanted s = Inr (s', ord) \<Longrightarrow> \<exists>balance. pw_balance w sell user = Inr balance \<and>
     ((ord = None \<and> s' = s\<lparr>su_skipped := Suc (su_skipped s)\<rparr>)
      \<or> send_order w user sell buy (fst (sized_order balance wanted)) s = Inr (s', ord)
      \<or> send_order w user sell buy (fst (sized_order balance wanted)) (s\<lparr>su_shrunk := Suc (su_shrunk s)\<rparr>) = Inr (s', ord))"
proof -
  assume r: "size_and_send w user sell buy wanted s = Inr (s', ord)"
  obtain balance where b: "pw_balance w sell user = Inr balance" using r by (auto simp: size_and_send_def)
  obtain amount small where sz: "sized_order balance wanted = (amount, small)" by (rule prod.exhaust)
  show ?thesis using r b sz by (cases small) (auto simp: size_and_send_def split: if_splits)
qed

lemma play_parts:
  "play st w t s = Inr (s', ord) \<Longrightarrow> (ord = None \<and> s' = s\<lparr>su_played := Suc (su_played s)\<rparr>)
     \<or> (\<exists>user sell buy wanted. size_and_send w user sell buy wanted (s\<lparr>su_played := Suc (su_played s)\<rparr>) = Inr (s', ord))"
  by (auto simp: play_def Let_def split: option.splits if_splits)

lemma record_reply_keeps [simp]: "su_sent (record_reply r s) = su_sent s" "su_played (record_reply r s) = su_played s"
  by (auto simp: record_reply_def accept_batch_def reject_code_def Let_def split: option.split)






text \<open>
  No trade spends what its user does not have: an order that is posted sells at most the balance read
  for it, asks for one percent less than the venue quotes for exactly that amount, and carries the
  nonce the coordinator gave.
\<close>

theorem play_within_means:
  assumes "play st w t s = Inr (s', Some ord)" "\<And>k u b. pw_balance w k u = Inr b \<Longrightarrow> 0 \<le> b"
  shows "\<exists>balance out. pw_balance w (or_sell ord) (or_user ord) = Inr balance \<and> or_sellAmount ord \<le> balance
    \<and> pw_venue w (or_sell ord) (or_buy ord) (or_sellAmount ord) = Inr out \<and> or_minBuy ord = (out * 9900) sdiv 10000
    \<and> pw_nonce w (or_user ord) = Inr (or_nonce ord) \<and> su_sent s' = Suc (su_sent s)"
proof -
  have small: "fst (sized_order balance wanted) \<le> balance" if "0 \<le> balance" for balance wanted
    using that floor_share_le [of balance 9000 10000] by (simp add: sized_order_def SHRINK_BPS_def)
  obtain user sell buy wanted where "size_and_send w user sell buy wanted (s\<lparr>su_played := Suc (su_played s)\<rparr>) = Inr (s', Some ord)"
    using play_parts [OF assms(1)] by auto
  then obtain balance where b: "pw_balance w sell user = Inr balance"
    and o2: "send_order w user sell buy (fst (sized_order balance wanted)) (s\<lparr>su_played := Suc (su_played s)\<rparr>) = Inr (s', Some ord)
      \<or> send_order w user sell buy (fst (sized_order balance wanted)) (s\<lparr>su_played := Suc (su_played s), su_shrunk := Suc (su_shrunk s)\<rparr>) = Inr (s', Some ord)"
    using size_and_send_parts [of w user sell buy wanted "s\<lparr>su_played := Suc (su_played s)\<rparr>" s' "Some ord"] by auto
  obtain x :: summary where x: "su_sent x = su_sent s" "send_order w user sell buy (fst (sized_order balance wanted)) x = Inr (s', Some ord)"
    using o2 that [of "s\<lparr>su_played := Suc (su_played s)\<rparr>"] that [of "s\<lparr>su_played := Suc (su_played s), su_shrunk := Suc (su_shrunk s)\<rparr>"] by auto
  show ?thesis using send_order_parts [OF x(2)] b small [OF assms(2) [OF b], of wanted] x(1) by (auto simp: MIN_BUY_BPS_def)
qed

section \<open>The receipts\<close>

lemma ask_all_found:
  "ask_all ask bs found = (found', heard) \<Longrightarrow> \<exists>new. found' = found @ new \<and> set (map fst new) \<subseteq> set bs \<and> (\<forall>(b, a)\<in>set new. final_answer a)
     \<and> (distinct (map fst found) \<longrightarrow> distinct (map fst found'))"
proof (induction bs arbitrary: found)
  case (Cons b bs)
  show ?case
  proof (cases "map_of found b \<noteq> None")
    case True
    then show ?thesis using Cons.IH [of found] Cons.prems by auto
  next
    case False
    then have out: "b \<notin> fst ` set found" by (simp add: map_of_eq_None_iff)
    show ?thesis
    proof (cases "ask b")
      case (Inl e)
      then show ?thesis using False Cons.prems by auto
    next
      case (Inr a)
      let ?f = "if final_answer a then found @ [(b, a)] else found"
      obtain new where "found' = ?f @ new" "set (map fst new) \<subseteq> set bs" "\<forall>(b, a)\<in>set new. final_answer a"
        "distinct (map fst ?f) \<longrightarrow> distinct (map fst found')"
        using Cons.IH [of ?f] Cons.prems False Inr by auto
      then show ?thesis using out by (cases "final_answer a") auto
    qed
  qed
qed auto

text \<open>
  A wait that ends reports honestly: every receipt in it is of a batch it was asked about and is final,
  and what it lists as missing is exactly the rest; unless nothing is missing, a block past the deadline
  was seen.
\<close>

theorem collect_reports:
  assumes "collect_receipts ids blocks = Some (found, missing)" "ids \<noteq> []"
  shows "fst ` set found \<subseteq> set ids \<and> (\<forall>(b, a)\<in>set found. final_answer a) \<and> distinct (map fst found)
    \<and> set missing = set ids - fst ` set found
    \<and> (length found = length ids \<or> (\<exists>blk\<in>set blocks. fst blk > collect_deadline (map decimal_value ids)))"
proof -
  have "collect ids f bs = Some (found, missing) \<Longrightarrow> fst ` set f \<subseteq> set ids \<Longrightarrow> (\<forall>(b, a)\<in>set f. final_answer a) \<Longrightarrow> distinct (map fst f) \<Longrightarrow>
      fst ` set found \<subseteq> set ids \<and> (\<forall>(b, a)\<in>set found. final_answer a) \<and> distinct (map fst found)
      \<and> set missing = set ids - fst ` set found \<and> (length found = length ids \<or> (\<exists>blk\<in>set bs. fst blk > collect_deadline (map decimal_value ids)))" for f bs
  proof (induction bs arbitrary: f)
    case (Cons blk bs)
    obtain timestamp ask where blk: "blk = (timestamp, ask)" by (rule prod.exhaust)
    obtain f' heard where f': "ask_all ask ids f = (f', heard)" by (rule prod.exhaust)
    obtain new where new: "f' = f @ new" "set (map fst new) \<subseteq> set ids" "\<forall>(b, a)\<in>set new. final_answer a" "distinct (map fst f')"
      using ask_all_found [OF f'] Cons.prems(4) by blast
    have ok: "fst ` set f' \<subseteq> set ids" "\<forall>(b, a)\<in>set f'. final_answer a" using new Cons.prems(2,3) by auto
    show ?case
    proof (cases "heard \<and> (length f' = length ids \<or> timestamp > collect_deadline (map decimal_value ids))")
      case True
      then have "found = f'" "missing = filter (\<lambda>b. map_of f' b = None) ids" using Cons.prems(1) by (auto simp add: blk f')
      then show ?thesis using True ok new(4) blk by (auto simp: map_of_eq_None_iff)
    next
      case False
      then have "collect ids f' bs = Some (found, missing)" using Cons.prems(1) by (auto simp: blk f' split: if_splits)
      from Cons.IH [OF this ok new(4)] show ?thesis by auto
    qed
  qed simp
  then show ?thesis using assms by (simp add: collect_receipts_def)
qed

lemma ask_all_deaf: "b \<in> set bs \<Longrightarrow> map_of found b = None \<Longrightarrow> (\<And>k. isl (ask k)) \<Longrightarrow> \<not> snd (ask_all ask bs found)"
proof (induction bs)
  case (Cons k bs)
  show ?case
  proof (cases "map_of found k \<noteq> None")
    case True
    then have "b \<in> set bs" using Cons.prems(1,2) by auto
    then show ?thesis using Cons.IH Cons.prems True by simp
  next
    case False
    then show ?thesis using Cons.prems(3) [of k] by (cases "ask k") auto
  qed
qed simp

text \<open>
  But the grace does not bound the wait: while the coordinator cannot be read, a block past the deadline
  decides nothing, so the harness waits on however long the chain goes on.
\<close>

theorem collect_never_gives_up:
  assumes "ids \<noteq> []" "\<And>blk k. blk \<in> set blocks \<Longrightarrow> isl (snd blk k)"
  shows "collect_receipts ids blocks = None"
proof -
  have "collect ids [] blocks = None"
    using assms(2)
  proof (induction blocks)
    case (Cons blk blocks)
    obtain timestamp ask where blk: "blk = (timestamp, ask)" by (rule prod.exhaust)
    have ask: "isl (ask k)" for k using Cons.prems [of blk k] blk by simp
    have "ask_all ask ids [] = ([], False)" using assms(1) ask [of "hd ids"] by (cases ids; cases "ask (hd ids)") auto
    then show ?case using Cons by (simp add: blk)
  qed simp
  then show ?thesis using assms(1) by (simp add: collect_receipts_def)
qed

text \<open>The netting is a share of the volume in basis points, rounded down.\<close>

theorem netting_is_a_share:
  assumes "\<And>r. r \<in> set receipts \<Longrightarrow> 0 \<le> ra_netted r \<and> 0 \<le> ra_routed r"
  shows "0 \<le> nt_ratioBps (netting_of receipts) \<and> nt_ratioBps (netting_of receipts) \<le> 10000
    \<and> nt_ratioBps (netting_of receipts) * (nt_netted (netting_of receipts) + nt_routed (netting_of receipts)) \<le> nt_netted (netting_of receipts) * 10000
    \<and> (nt_netting (netting_of receipts) = 0 \<longleftrightarrow> nt_netted (netting_of receipts) = 0)"
proof -
  let ?n = "\<Sum>r\<leftarrow>receipts. ra_netted r" and ?r = "\<Sum>r\<leftarrow>receipts. ra_routed r"
  have pos: "0 \<le> ?n" "0 \<le> ?r" using assms by (auto intro!: sum_list_nonneg_int)
  have zero: "filter (\<lambda>r. ra_netted r > 0) receipts = [] \<longleftrightarrow> ?n = 0"
    using assms
  proof (induction receipts)
    case (Cons a receipts)
    have "0 \<le> ra_netted a" "0 \<le> (\<Sum>r\<leftarrow>receipts. ra_netted r)" using Cons.prems by (auto intro!: sum_list_nonneg_int)
    moreover have "filter (\<lambda>r. ra_netted r > 0) receipts = [] \<longleftrightarrow> (\<Sum>r\<leftarrow>receipts. ra_netted r) = 0" using Cons.IH Cons.prems by simp
    ultimately show ?case by auto
  qed simp
  have share: "?n * 10000 div (?n + ?r) \<le> 10000 \<and> ?n * 10000 div (?n + ?r) * (?n + ?r) \<le> ?n * 10000" if "?n + ?r \<noteq> 0"
    using floor_share_le [of 10000 ?n "?n + ?r"] floor_mult_le [of "?n + ?r" "?n * 10000"] pos that by (simp add: mult.commute)
  show ?thesis using pos share zero by (auto simp: netting_of_def Let_def)
qed


section \<open>A concrete replay\<close>

definition sample_setup :: replay_setup where
  "sample_setup = \<lparr>rs_users = [''0x1'', ''0x2''], rs_tokens = [(''NVDA'', ''0xa''), (''AAPL'', ''0xb'')], rs_quote = ''0xq''\<rparr>"

definition sample_trade :: "int \<Rightarrow> string \<Rightarrow> int \<Rightarrow> fixture_trade" where
  "sample_trade offset side usd = \<lparr>ft_at = offset, ft_window = offset div 45, ft_sym = ''NVDA'', ft_side = side, ft_usdMicro = usd, ft_usdMicroOriginal = usd,
     ft_trader = 3, ft_txHash = ''0xh'', ft_logIndex = ''1''\<rparr>"

definition sample_play :: play_world where
  "sample_play = \<lparr>pw_venue = (\<lambda>a b n. Inr (2 * n)), pw_balance = (\<lambda>a u. Inr 1000), pw_nonce = (\<lambda>u. Inr 0),
     pw_post = (\<lambda>o'. Inr \<lparr>rp_ok = True, rp_status = 202, rp_batchId = Some ''45'', rp_code = None\<rparr>)\<rparr>"


theorem play_within_means_witness:
  "case play sample_setup sample_play (sample_trade 0 ''buy'' 5000) empty_summary of
     Inr (s, Some o') \<Rightarrow> or_sellAmount o' \<le> 1000 \<and> or_sellAmount o' = 900 | _ \<Rightarrow> False"
proof -
  let ?p = "play sample_setup sample_play (sample_trade 0 ''buy'' 5000) empty_summary"
  have v: "case ?p of Inr (s, Some o') \<Rightarrow> or_sellAmount o' = 900 | _ \<Rightarrow> False" by code_simp
  then obtain s o' where r: "?p = Inr (s, Some o')" by (auto split: sum.splits option.splits)
  obtain balance where "pw_balance sample_play (or_sell o') (or_user o') = Inr balance" "or_sellAmount o' \<le> balance"
    using play_within_means [OF r] by (auto simp: sample_play_def)
  then show ?thesis using v r by (simp add: sample_play_def)
qed

definition settled_answer :: receipt_answer where
  "settled_answer = \<lparr>ra_status = 200, ra_outcome = ''settled'', ra_netted = 3, ra_routed = 1\<rparr>"

theorem collect_reports_witness:
  "collect_receipts [''45'', ''90''] [(100, \<lambda>b. if b = ''45'' then Inr settled_answer else Inl TypeError), (421, \<lambda>b. Inr (settled_answer\<lparr>ra_outcome := ''solving''\<rparr>))]
     = Some ([(''45'', settled_answer)], [''90'']) \<and> set [''90''] = set [''45'', ''90''] - {''45''}"
proof -
  let ?blocks = "[(100, \<lambda>b. if b = ''45'' then Inr settled_answer else Inl TypeError), (421, \<lambda>b. Inr (settled_answer\<lparr>ra_outcome := ''solving''\<rparr>))]"
  have "collect_deadline (map decimal_value [''45'', ''90'']) = 420" by code_simp
  then have run: "collect_receipts [''45'', ''90''] ?blocks = Some ([(''45'', settled_answer)], [''90''])"
    by (simp add: collect_receipts_def settled_answer_def final_answer_def)
  then show ?thesis using collect_reports [OF run] by simp
qed

theorem collect_never_gives_up_witness:
  "collect_receipts [''45''] [(10 ^ 12, \<lambda>b. Inl TypeError)] = None"
  using collect_never_gives_up [of "[''45'']" "[(10 ^ 12, \<lambda>b. Inl TypeError)]"] by simp

theorem netting_is_a_share_witness:
  "nt_ratioBps (netting_of [settled_answer, settled_answer]) \<le> 10000 \<and> nt_ratioBps (netting_of [settled_answer, settled_answer]) = 7500"
proof -
  have "nt_ratioBps (netting_of [settled_answer, settled_answer]) = 7500" by code_simp
  moreover have "nt_ratioBps (netting_of [settled_answer, settled_answer]) \<le> 10000"
    using netting_is_a_share [of "[settled_answer, settled_answer]"] by (simp add: settled_answer_def)
  ultimately show ?thesis by blast
qed

end
