(* ===== verification/Admission.thy ===== *)
theory Admission
  imports Intent Mempool
begin

unbundle bit_operations_syntax

text \<open>
  api/src/routes/intents.ts: the front door of the coordinator. The handler of POST /v1/intents is
  one function of what it reads from the chain, of the mempool when it looks up the owner's earlier
  intents and of the mempool at its end, since other requests run while it waits. The two GET
  handlers, which screen a batch and serve its feed, are split the same way.
\<close>

section \<open>What the handler reads\<close>

definition USDG_PEG_WARN_BPS :: int where "USDG_PEG_WARN_BPS = 200"
definition EIP1271_MAGIC :: string where "EIP1271_MAGIC = ''0x1626ba7e''"
definition DELEGATION_PREFIX :: string where "DELEGATION_PREFIX = ''0xef0100''"

text \<open>A request ends with an answer, with an HTTP error, or with the reason a chain read was rejected.\<close>

datatype failure = Http http_error | Read_failed string

definition is_collect_closed :: "int \<Rightarrow> int \<Rightarrow> bool" where
  "is_collect_closed batch chainTime \<longleftrightarrow> chainTime > batch"

record coordinator =
  viem_of :: viem
  domainSeparator :: string
  witnessTypeString :: string
  settlement :: address
  codeOf :: "address \<Rightarrow> hex option"
  isValidSignature :: "address \<Rightarrow> string \<Rightarrow> hex \<Rightarrow> hex option"
  tokenAllowed :: "address \<Rightarrow> string + bool"
  nonceBitmap :: "address \<Rightarrow> int \<Rightarrow> string + int"
  balanceOf :: "address \<Rightarrow> address \<Rightarrow> string + int"
  permit2Allowance :: "address \<Rightarrow> address \<Rightarrow> string + int"
  bestSolution :: "int \<Rightarrow> string + hex"
  priorReads :: token_reads
  calendar :: chain_reader

record submit_request =
  req_intent :: json
  req_signature :: "hex option"

section \<open>Signature\<close>

definition signature_refused :: "string \<Rightarrow> string \<Rightarrow> string \<Rightarrow> failure" where
  "signature_refused msg digest path =
     Http (fail 401 ''COORDINATOR_BAD_SIGNATURE'' msg [(''verifiedDigest'', digest), (''path'', path)])"

definition check_signature :: "coordinator \<Rightarrow> address \<Rightarrow> string \<Rightarrow> hex \<Rightarrow> failure + string" where
  "check_signature c owner digest signature =
     (let code = codeOf c owner;
          hasCode = (code \<noteq> None \<and> code \<noteq> Some '''' \<and> code \<noteq> Some ''0x'')
      in if \<not> hasCode then
           (case permit2_eoa_signature (viem_of c) signature of
              None \<Rightarrow> Inl (signature_refused ''Permit2 accepts 65 bytes with v at 27 or 28, or 64 bytes in EIP-2098 form, and this is neither'' digest ''eoa'')
            | Some s \<Rightarrow>
                let recovered = recoverAddress (viem_of c) digest s
                in if map_option lower recovered \<noteq> Some (lower owner)
                   then Inl (signature_refused (''recovered '' @ (case recovered of None \<Rightarrow> ''nothing'' | Some a \<Rightarrow> a) @ '', expected owner '' @ owner) digest ''eoa'')
                   else Inr ''eoa'')
         else
           let returned = isValidSignature c owner digest signature
           in if map_option lower returned \<noteq> Some EIP1271_MAGIC
              then let delegated = take 8 (lower (the code)) = DELEGATION_PREFIX
                   in Inl (signature_refused
                        (if delegated then ''owner carries an EIP-7702 delegation with no isValidSignature, docs/rencana-backend.md section 3C''
                         else ''isValidSignature did not return the EIP-1271 magic value'') digest ''erc1271'')
              else Inr ''erc1271'')"

section \<open>Steps 4 to 7\<close>

definition settled :: "string + 'a \<Rightarrow> failure + 'a" where
  "settled r = (case r of Inl reason \<Rightarrow> Inl (Read_failed reason) | Inr v \<Rightarrow> Inr v)"

definition not_allowed :: "string \<Rightarrow> address \<Rightarrow> failure" where
  "not_allowed side token = Http (bad_request ''TokenNotAllowed'' (side @ '' not allowed: '' @ token) [(''token'', token)])"

definition check_facts :: "coordinator \<Rightarrow> intent \<Rightarrow> failure + int \<times> int" where
  "check_facts c i =
     bindE (settled (tokenAllowed c (i_sellToken i))) (\<lambda>sellAllowed.
     if \<not> sellAllowed then Inl (not_allowed ''sellToken'' (i_sellToken i)) else
     bindE (settled (tokenAllowed c (i_buyToken i))) (\<lambda>buyAllowed.
     if \<not> buyAllowed then Inl (not_allowed ''buyToken'' (i_buyToken i)) else
     bindE (settled (nonceBitmap c (i_owner i) (nonce_word (i_nonce i)))) (\<lambda>bitmap.
     bindE (settled (balanceOf c (i_sellToken i) (i_owner i))) (\<lambda>balance.
     bindE (settled (permit2Allowance c (i_sellToken i) (i_owner i))) (\<lambda>allowance.
     if nonce_bit bitmap (i_nonce i) then
       Inl (Http (fail 409 ''NonceAlreadyUsed'' (''nonce '' @ decimal (i_nonce i) @ '' already used by '' @ i_owner i)
         [(''owner'', i_owner i), (''nonce'', decimal (i_nonce i))]))
     else if balance < i_sellAmount i then
       Inl (Http (bad_request ''COORDINATOR_INSUFFICIENT_BALANCE'' (''owner holds '' @ decimal balance @ '', sellAmount needs '' @ decimal (i_sellAmount i))
         [(''balance'', decimal balance), (''sellAmount'', decimal (i_sellAmount i))]))
     else if allowance < i_sellAmount i then
       Inl (Http (bad_request ''COORDINATOR_PERMIT2_NOT_APPROVED'' (''Permit2 allowance is '' @ decimal allowance @ '', sellAmount needs '' @ decimal (i_sellAmount i))
         [(''allowance'', decimal allowance), (''sellAmount'', decimal (i_sellAmount i))]))
     else Inr (balance, allowance))))))"

section \<open>What earlier intents hold\<close>

definition first_seen :: "'a list \<Rightarrow> 'a list" where
  "first_seen xs = rev (remdups (rev xs))"

definition unwinnable_batches :: "coordinator \<Rightarrow> int \<Rightarrow> int list \<Rightarrow> failure + int set" where
  "unwinnable_batches c time batches =
     foldE (\<lambda>u b. if time \<le> b + SOLUTION_WINDOW then Inr u
       else bindE (settled (bestSolution c b)) (\<lambda>winner. Inr (if hex_value winner = 0 then insert b u else u))) {} (first_seen batches)"

text \<open>\<open>priorFacts\<close> is absent when the owner had no earlier intent, as the code reads none then.\<close>

definition prior_facts :: "coordinator \<Rightarrow> (signed_intent \<times> int) list \<Rightarrow> owner_facts option" where
  "prior_facts c prior = (if prior = [] then None else Some (read_facts (priorReads c) (map fst prior)))"

definition still_holds :: "owner_facts option \<Rightarrow> int set \<Rightarrow> address \<Rightarrow> signed_intent \<times> int \<Rightarrow> bool" where
  "still_holds facts unwinnable owner e \<longleftrightarrow> snd e \<notin> unwinnable
     \<and> \<not> (case facts of None \<Rightarrow> False | Some f \<Rightarrow> nonce_used f owner (i_nonce (g_intent (fst e))))"

definition held_amount :: "owner_facts option \<Rightarrow> int set \<Rightarrow> address \<Rightarrow> (signed_intent \<times> int) list \<Rightarrow> int" where
  "held_amount facts unwinnable owner es =
     foldl (\<lambda>held e. if still_holds facts unwinnable owner e then held + g_sellAmount (fst e) else held) 0 es"

section \<open>Step 8: the window\<close>

definition reason_name :: "no_batch_reason \<Rightarrow> string" where
  "reason_name r = (case r of Auction_phase \<Rightarrow> ''auction_phase'' | Guard_band \<Rightarrow> ''guard_band''
     | Window_closed \<Rightarrow> ''window_closed'' | Search_exhausted \<Rightarrow> ''search_exhausted'')"

definition window_at :: "chain_reader \<Rightarrow> intent \<Rightarrow> int \<Rightarrow> failure + batch_window" where
  "window_at reader i time =
     (case open_lookup reader time of
        No_batch r _ \<Rightarrow> Inl (Http (fail 503 ''COORDINATOR_NO_OPEN_BATCH'' (''no batch open right now: '' @ reason_name r) [(''reason'', reason_name r)]))
      | Batch w \<Rightarrow>
          if i_validAfter i > collectEnd w then
            Inl (Http (bad_request ''IntentExpired'' ''intent is not valid yet at this batch's collectEnd''
              [(''validAfter'', decimal (i_validAfter i)), (''validUntil'', decimal (i_validUntil i)), (''collectEnd'', decimal (collectEnd w))]))
          else if i_validUntil i \<le> collectEnd w + SOLUTION_WINDOW then
            Inl (Http (bad_request ''IntentExpired'' ''intent expires before this batch's solving window closes, so no solution could collect it''
              [(''validUntil'', decimal (i_validUntil i)), (''solveEnd'', decimal (collectEnd w + SOLUTION_WINDOW)), (''collectEnd'', decimal (collectEnd w))]))
          else if (i_allowedSessions i AND push_bit (nat (window_session w)) 1) = 0 then
            Inl (Http (bad_request ''SessionNotAllowed'' (''session '' @ decimal (window_session w) @ '' is not in allowedSessions'')
              [(''session'', decimal (window_session w)), (''allowedSessions'', decimal (i_allowedSessions i))]))
          else Inr w)"

text \<open>
  The loop that chooses the window again while chain time keeps passing its end. \<open>n\<close> is how many
  choices are left, two at first; \<open>nows\<close> are the timestamps the loop reads, in order.
\<close>

fun settle_window :: "nat \<Rightarrow> chain_reader \<Rightarrow> intent \<Rightarrow> int list \<Rightarrow> batch_window \<Rightarrow> failure + batch_window \<times> int" where
  "settle_window n reader i [] w = Inl (Read_failed ''stamp'')"
| "settle_window n reader i (now # nows) w =
     (if now < collectEnd w then Inr (w, now)
      else case n of
             0 \<Rightarrow> Inl (Http (fail 503 ''COORDINATOR_NO_OPEN_BATCH'' ''chain time kept passing collectEnd while this intent was checked'' [(''reason'', ''window_closed'')]))
           | Suc m \<Rightarrow> bindE (window_at reader i now) (settle_window m reader i nows))"

section \<open>Step 9: admission\<close>

record submit_response =
  sr_intentHash :: string
  sr_batchId :: string
  sr_collectEndsAt :: int
  sr_solveEndsAt :: int
  sr_status :: intent_status
  sr_verifiedDigest :: string

record intent_added =
  ia_at :: int
  ia_batchId :: string
  ia_intentHash :: string
  ia_counts :: "nat \<times> nat"
  ia_owner :: address

definition duplicate_error :: "api_error \<Rightarrow> string \<Rightarrow> signed_intent \<Rightarrow> mempool \<Rightarrow> http_error" where
  "duplicate_error dup hash signed p =
     (case (get_by_hash p hash, map_of (byOwnerNonce p) (key_of signed)) of
        (None, Some (other, _)) \<Rightarrow>
          fail 409 dup (''owner '' @ g_owner signed @ '' already used nonce '' @ decimal (i_nonce (g_intent signed)) @ '' on intent '' @ other) [(''intentHash'', other)]
      | _ \<Rightarrow> fail 409 dup (''intent '' @ hash @ '' was already accepted'') [(''intentHash'', hash)])"

definition admission_tail ::
  "coordinator \<Rightarrow> intent \<Rightarrow> string \<Rightarrow> string \<Rightarrow> hex \<Rightarrow> string \<Rightarrow> int \<Rightarrow> int set \<Rightarrow> owner_facts option \<Rightarrow> int \<times> int \<Rightarrow> batch_window
    \<Rightarrow> mempool \<Rightarrow> failure + submit_response \<times> intent_added \<times> mempool" where
  "admission_tail c i hash digest signature kind receivedAt unwinnable facts funds w p =
     (let held = held_amount facts unwinnable (i_owner i) (committed p (i_owner i) (i_sellToken i));
          balance = fst funds; allowance = snd funds
      in if balance < held + i_sellAmount i then
           Inl (Http (bad_request ''COORDINATOR_INSUFFICIENT_BALANCE''
             (''owner holds '' @ decimal balance @ '', of which '' @ decimal held @ '' is committed to earlier intents, and sellAmount needs '' @ decimal (i_sellAmount i))
             [(''balance'', decimal balance), (''committed'', decimal held), (''sellAmount'', decimal (i_sellAmount i))]))
         else if allowance < held + i_sellAmount i then
           Inl (Http (bad_request ''COORDINATOR_PERMIT2_NOT_APPROVED''
             (''Permit2 allowance is '' @ decimal allowance @ '', of which '' @ decimal held @ '' is committed to earlier intents, and sellAmount needs '' @ decimal (i_sellAmount i))
             [(''allowance'', decimal allowance), (''committed'', decimal held), (''sellAmount'', decimal (i_sellAmount i))]))
         else
           let signed = \<lparr>g_hash = hash, g_intent = addressed (getAddress (viem_of c)) i, g_signature = signature, g_kind = kind, g_receivedAt = receivedAt\<rparr>
           in case admit hash signed (batchId w) p of
                Inl dup \<Rightarrow> Inl (Http (duplicate_error dup hash signed p))
              | Inr p' \<Rightarrow> Inr (\<lparr>sr_intentHash = hash, sr_batchId = decimal (batchId w), sr_collectEndsAt = collectEnd w, sr_solveEndsAt = solveEnd w,
                    sr_status = Pending, sr_verifiedDigest = digest\<rparr>,
                  \<lparr>ia_at = receivedAt, ia_batchId = decimal (batchId w), ia_intentHash = hash, ia_counts = counts p' (batchId w), ia_owner = i_owner i\<rparr>, p'))"

text \<open>
  The handler. \<open>time\<close> is the block it starts at, \<open>p\<close> the mempool when it looks up the earlier intents
  and \<open>p'\<close> the mempool once the last timestamp of \<open>nows\<close> is read; nothing waits after that.
\<close>

definition submit_intent ::
  "coordinator \<Rightarrow> submit_request \<Rightarrow> int \<Rightarrow> int list \<Rightarrow> mempool \<Rightarrow> mempool \<Rightarrow> failure + submit_response \<times> intent_added \<times> mempool" where
  "submit_intent c req time nows p p' =
     (let refuse = \<lambda>msg. Inl (Http (bad_request ''COORDINATOR_INVALID_REQUEST'' msg []))
      in case req_signature req of
           None \<Rightarrow> refuse ''body needs an intent and a hex signature''
         | Some signature \<Rightarrow>
             if signature = '''' \<or> \<not> isHex (viem_of c) signature then refuse ''body needs an intent and a hex signature''
             else case validate_intent_payload (isAddress (viem_of c)) (req_intent req) of
               Inl e \<Rightarrow> Inl (Http e)
             | Inr i \<Rightarrow>
                 if hex_value (i_receiver i) = 0 then refuse ''receiver is the zero address, and paying it reverts the whole batch''
                 else if same (i_sellToken i) (i_buyToken i) then refuse ''sellToken and buyToken are the same token''
                 else
                   let hash = intent_hash (viem_of c) i;
                       digest = witness_digest (viem_of c) (domainSeparator c) (witnessTypeString c) i (settlement c)
                   in bindE (check_signature c (i_owner i) digest signature) (\<lambda>kind.
                      bindE (check_facts c i) (\<lambda>funds.
                      let prior = committed p (i_owner i) (i_sellToken i) in
                      bindE (unwinnable_batches c time (map snd prior)) (\<lambda>unwinnable.
                      bindE (window_at (calendar c) i time) (\<lambda>w0.
                      bindE (settle_window 2 (calendar c) i nows w0) (\<lambda>(w, now).
                      admission_tail c i hash digest signature kind time unwinnable (prior_facts c prior) funds w p'))))))"

section \<open>Screening a batch and the status of an intent\<close>

text \<open>
  \<^verbatim>\<open>screenBatch\<close> copies the list, waits for the reads and then takes out what they refuse. \<open>p\<close> is the
  mempool when it copies, \<open>p'\<close> when the reads are back.
\<close>

definition screen_batch :: "token_reads \<Rightarrow> int \<Rightarrow> mempool \<Rightarrow> mempool \<Rightarrow> mempool" where
  "screen_batch chain b p p' =
     (let xs = get_by_batch p b
      in if xs = [] then p'
         else foldl (\<lambda>q w. withdraw (wd_hash w) (wd_rejection w) q) p' (snd (screen xs (read_facts chain xs))))"

definition hash_pattern :: "string \<Rightarrow> bool" where
  "hash_pattern s \<longleftrightarrow> length s = 66 \<and> take 2 s = ''0x''
     \<and> list_all (\<lambda>c. is_digit c \<or> (let n = (of_char (lower_char c) :: nat) in 97 \<le> n \<and> n \<le> 102)) (drop 2 s)"

record fill_row =
  fill_partial :: bool

record status_response =
  st_hash :: string
  st_state :: intent_status
  st_intent :: intent
  st_batchId :: int
  st_fill :: "fill_row option"
  st_why :: "api_error option"
  st_hatch :: escape_hatch

definition intent_status_of :: "coordinator \<Rightarrow> int \<Rightarrow> string \<Rightarrow> (string \<Rightarrow> fill_row option) \<Rightarrow> string \<Rightarrow> int \<Rightarrow> mempool
    \<Rightarrow> failure + status_response \<times> mempool" where
  "intent_status_of c retention publicRpc fillFor raw now p =
     (if \<not> hash_pattern raw then Inl (Http (not_found ''COORDINATOR_INVALID_REQUEST'' (''not an intent hash: '' @ raw)))
      else
        let p1 = sweep retention now p
        in case get_by_hash p1 (lower raw) of
             None \<Rightarrow> Inl (Http (not_found ''COORDINATOR_INVALID_REQUEST'' (''no intent known for '' @ raw)))
           | Some x \<Rightarrow>
               let p2 = (if st_status x = Pending \<and> \<not> is_collect_closed (st_batch x) now
                         then screen_batch (priorReads c) (st_batch x) p1 p1 else p1);
                   x2 = (case get_by_hash p2 (lower raw) of Some y \<Rightarrow> y | None \<Rightarrow> x);
                   hatch = escape_hatch_for (viem_of c) (settlement c) publicRpc (g_intent (st_signed x)) (g_signature (st_signed x));
                   fill = fillFor (g_hash (st_signed x))
               in Inr (\<lparr>st_hash = g_hash (st_signed x),
                        st_state = (case fill of Some f \<Rightarrow> if fill_partial f then Partially_settled else Settled | None \<Rightarrow> st_status x2),
                        st_intent = g_intent (st_signed x), st_batchId = st_batch x, st_fill = fill,
                        st_why = st_rejection x2, st_hatch = hatch\<rparr>, p2))"

section \<open>The feed of a batch\<close>




record price_row =
  pr_token :: address
  pr_symbol :: string
  pr_decimals :: int
  pr_price :: int
  pr_refPrice :: int
  pr_healthy :: bool
  pr_updatedAt :: int




definition peg_warning :: "address \<Rightarrow> price_row list \<Rightarrow> bool" where
  "peg_warning quote rows =
     (case find (\<lambda>r. pr_token r = quote) rows of
        None \<Rightarrow> False
      | Some r \<Rightarrow> let price = pr_price r; peg = 10 ^ 30; drift = (if price > peg then price - peg else peg - price)
                  in drift * 10000 > peg * USDG_PEG_WARN_BPS)"





section \<open>What an accepted request has passed\<close>

lemma submit_success:
  assumes "submit_intent c req time nows p p' = Inr (resp, ev, q)"
  obtains i signature kind funds unwinnable w0 w now where
    "req_signature req = Some signature" "validate_intent_payload (isAddress (viem_of c)) (req_intent req) = Inr i"
    "hex_value (i_receiver i) \<noteq> 0" "\<not> same (i_sellToken i) (i_buyToken i)"
    "check_signature c (i_owner i) (witness_digest (viem_of c) (domainSeparator c) (witnessTypeString c) i (settlement c)) signature = Inr kind"
    "check_facts c i = Inr funds"
    "unwinnable_batches c time (map snd (committed p (i_owner i) (i_sellToken i))) = Inr unwinnable"
    "window_at (calendar c) i time = Inr w0" "settle_window 2 (calendar c) i nows w0 = Inr (w, now)"
    "admission_tail c i (intent_hash (viem_of c) i) (witness_digest (viem_of c) (domainSeparator c) (witnessTypeString c) i (settlement c))
       signature kind time unwinnable (prior_facts c (committed p (i_owner i) (i_sellToken i))) funds w p' = Inr (resp, ev, q)"
  using assms by (auto simp: submit_intent_def Let_def split: option.splits if_splits sum.splits prod.splits)


lemma admission_tailE:
  assumes "admission_tail c i hash digest signature kind receivedAt unwinnable facts funds w p = Inr (resp, ev, q)"
  obtains signed where "signed = \<lparr>g_hash = hash, g_intent = addressed (getAddress (viem_of c)) i, g_signature = signature, g_kind = kind, g_receivedAt = receivedAt\<rparr>"
    "admit hash signed (batchId w) p = Inr q" "sr_intentHash resp = hash" "sr_batchId resp = decimal (batchId w)" "sr_verifiedDigest resp = digest"
    "held_amount facts unwinnable (i_owner i) (committed p (i_owner i) (i_sellToken i)) + i_sellAmount i \<le> fst funds"
    "held_amount facts unwinnable (i_owner i) (committed p (i_owner i) (i_sellToken i)) + i_sellAmount i \<le> snd funds"
  using assms by (auto simp: admission_tail_def Let_def split: if_splits sum.splits)

lemma window_atE:
  assumes "window_at reader i time = Inr w"
  shows "open_lookup reader time = Batch w" "i_validAfter i \<le> collectEnd w" "collectEnd w + SOLUTION_WINDOW < i_validUntil i"
    "i_allowedSessions i AND push_bit (nat (window_session w)) 1 \<noteq> 0"
  using assms by (auto simp: window_at_def split: batch_lookup.splits if_splits)

lemma settle_windowE:
  assumes "settle_window n reader i nows w0 = Inr (w, now)" "window_at reader i time = Inr w0"
  shows "\<exists>at0\<in>insert time (set nows). window_at reader i at0 = Inr w \<and> now \<in> set nows \<and> now < collectEnd w"
  using assms
proof (induction n reader i nows w0 arbitrary: time rule: settle_window.induct)
  case (2 n reader i now' nows w0)
  show ?case
  proof (cases "now' < collectEnd w0")
    case True
    then show ?thesis using 2 by auto
  next
    case False
    then obtain k w1 where k: "n = Suc k" "window_at reader i now' = Inr w1" "settle_window k reader i nows w1 = Inr (w, now)"
      using 2(2) by (cases n) auto
    then show ?thesis using "2.IH" [OF False k(1) k(3) k(2)] by auto
  qed
qed simp

text \<open>
  C13. An intent is accepted only on a signature Permit2 would take: for an owner without code one
  that recovers the owner from the witness digest of this very intent and the Settlement contract,
  for an owner with code the EIP-1271 answer of that contract on the digest. What the client claims
  plays no part, and the hash answered is the hash of the validated intent.
\<close>

theorem submit_signed:
  assumes "submit_intent c req time nows p p' = Inr (resp, ev, q)"
  shows "\<exists>i signature. req_signature req = Some signature \<and> validate_intent_payload (isAddress (viem_of c)) (req_intent req) = Inr i
    \<and> sr_intentHash resp = intent_hash (viem_of c) i
    \<and> sr_verifiedDigest resp = witness_digest (viem_of c) (domainSeparator c) (witnessTypeString c) i (settlement c)
    \<and> (if codeOf c (i_owner i) \<in> {None, Some '''', Some ''0x''}
       then \<exists>s owner. permit2_eoa_signature (viem_of c) signature = Some s
              \<and> recoverAddress (viem_of c) (sr_verifiedDigest resp) s = Some owner \<and> same owner (i_owner i)
       else \<exists>magic. isValidSignature c (i_owner i) (sr_verifiedDigest resp) signature = Some magic \<and> lower magic = EIP1271_MAGIC)"
proof -
  obtain i signature kind funds unwinnable w0 w now where s: "req_signature req = Some signature"
    "validate_intent_payload (isAddress (viem_of c)) (req_intent req) = Inr i"
    "check_signature c (i_owner i) (witness_digest (viem_of c) (domainSeparator c) (witnessTypeString c) i (settlement c)) signature = Inr kind"
    "admission_tail c i (intent_hash (viem_of c) i) (witness_digest (viem_of c) (domainSeparator c) (witnessTypeString c) i (settlement c))
       signature kind time unwinnable (prior_facts c (committed p (i_owner i) (i_sellToken i))) funds w p' = Inr (resp, ev, q)"
    by (rule submit_success [OF assms])
  have r: "sr_intentHash resp = intent_hash (viem_of c) i"
    "sr_verifiedDigest resp = witness_digest (viem_of c) (domainSeparator c) (witnessTypeString c) i (settlement c)"
    by (rule admission_tailE [OF s(4)]; simp)+
  have "if codeOf c (i_owner i) \<in> {None, Some '''', Some ''0x''}
       then \<exists>t owner. permit2_eoa_signature (viem_of c) signature = Some t
              \<and> recoverAddress (viem_of c) (sr_verifiedDigest resp) t = Some owner \<and> same owner (i_owner i)
       else \<exists>magic. isValidSignature c (i_owner i) (sr_verifiedDigest resp) signature = Some magic \<and> lower magic = EIP1271_MAGIC"
    using s(3) unfolding r(2) [symmetric] by (auto simp: check_signature_def same_def Let_def split: if_splits option.splits)
  then show ?thesis using s(1,2) r by blast
qed

lemma protective_bit: "0 \<le> n \<Longrightarrow> n < 2 ^ 8 \<Longrightarrow> n AND push_bit 8 1 = (0 :: int)"
  unfolding push_bit_of_1 and_exp_eq_0_iff_not_bit bit_iff_odd by simp

text \<open>
  The batch an intent joins is one Settlement accepts and is still collecting at the last
  timestamp read, the intent is valid at its end and past the whole solution window, its session is
  one the owner allowed and never PROTECTIVE, and the mempool changes by exactly one admission.
\<close>

theorem submit_joins_open_batch:
  assumes "submit_intent c req time nows p (pm_pool m) = Inr (resp, ev, q)"
    and "valid_reader (calendar c)" and "0 \<le> time" and "\<forall>t\<in>set nows. 0 \<le> t"
  shows "\<exists>i b now. sr_batchId resp = decimal b \<and> now \<in> set nows \<and> now < b \<and> is_valid_batch_id (calendar c) b
    \<and> i_validAfter i \<le> b \<and> b + 10 < i_validUntil i \<and> validate_intent_payload (isAddress (viem_of c)) (req_intent req) = Inr i
    \<and> i_allowedSessions i AND push_bit (nat (sessionAt (calendar c) b)) 1 \<noteq> 0
    \<and> sessionAt (calendar c) b \<noteq> session_number PROTECTIVE \<and> pool_step retention m (m\<lparr>pm_pool := q\<rparr>)"
proof -
  obtain i signature kind funds unwinnable w0 w now where s:
    "validate_intent_payload (isAddress (viem_of c)) (req_intent req) = Inr i"
    "window_at (calendar c) i time = Inr w0" "settle_window 2 (calendar c) i nows w0 = Inr (w, now)"
    "admission_tail c i (intent_hash (viem_of c) i) (witness_digest (viem_of c) (domainSeparator c) (witnessTypeString c) i (settlement c))
       signature kind time unwinnable (prior_facts c (committed p (i_owner i) (i_sellToken i))) funds w (pm_pool m) = Inr (resp, ev, q)"
    by (rule submit_success [OF assms(1)])
  obtain at0 where wh: "at0 \<in> insert time (set nows)" "window_at (calendar c) i at0 = Inr w" "now \<in> set nows" "now < collectEnd w"
    using settle_windowE [OF s(3,2)] by blast
  note w = window_atE [OF wh(2)]
  have "0 \<le> at0" using wh(1) assms(3,4) by auto
  note v = open_lookup_valid [OF w(1) assms(2) this]
  have shape: "collectEnd w = batchId w" "window_session w = sessionAt (calendar c) (batchId w)"
    using arg_cong [OF v(3), of collectEnd] arg_cong [OF v(3), of window_session] by (simp_all add: window_of_def)
  have "in_width i" using validate_fields_ok [OF s(1)] by blast
  then have "sessionAt (calendar c) (batchId w) \<noteq> 8"
    using w(4) protective_bit [of "i_allowedSessions i"] by (auto simp: shape in_width_def)
  moreover obtain signed where "g_hash signed = intent_hash (viem_of c) i" "admit (intent_hash (viem_of c) i) signed (batchId w) (pm_pool m) = Inr q"
    "sr_batchId resp = decimal (batchId w)" by (rule admission_tailE [OF s(4)]) (rule that, simp_all)
  ultimately show ?thesis
    using s(1) wh(3,4) v(1) w(2-4) pool_step.Admit [of signed "batchId w" m q retention] by (auto simp: shape SOLUTION_WINDOW_def)
qed

section \<open>Cover for what an owner has signed\<close>





section \<open>Screening through the mempool\<close>

lemma screen_withdrawn_split:
  "distinct (map g_hash xs) \<Longrightarrow>
   let t = foldl (screen_step facts) \<lparr>sc_drawn = [], sc_keep = [], sc_withdrawn = []\<rparr> xs
   in sc_keep t = filter (\<lambda>s. g_hash s \<notin> wd_hash ` set (sc_withdrawn t)) xs \<and> wd_hash ` set (sc_withdrawn t) \<subseteq> g_hash ` set xs"
proof (induction xs rule: rev_induct)
  case (snoc s xs)
  define t where "t = foldl (screen_step facts) \<lparr>sc_drawn = [], sc_keep = [], sc_withdrawn = []\<rparr> xs"
  have ih: "sc_keep t = filter (\<lambda>s. g_hash s \<notin> wd_hash ` set (sc_withdrawn t)) xs"
    "wd_hash ` set (sc_withdrawn t) \<subseteq> g_hash ` set xs" using snoc by (simp_all add: Let_def t_def)
  have ne: "g_hash u \<noteq> g_hash s" if "u \<in> set xs" for u using snoc.prems that by (auto simp: image_iff)
  then have cong: "filter (\<lambda>u. g_hash u \<notin> insert (g_hash s) (wd_hash ` set (sc_withdrawn t))) xs
      = filter (\<lambda>u. g_hash u \<notin> wd_hash ` set (sc_withdrawn t)) xs" by (intro filter_cong) auto
  have new: "g_hash s \<notin> wd_hash ` set (sc_withdrawn t)" using subsetD [OF ih(2)] ne by (metis imageE)
  show ?case
  proof (cases "screen_rejection facts (already_drawn (sc_drawn t) s) s")
    case None
    have "screen_step facts t s = t\<lparr>sc_drawn := AList.update (draw_key s) (already_drawn (sc_drawn t) s + g_sellAmount s) (sc_drawn t),
        sc_keep := sc_keep t @ [s]\<rparr>" by (simp add: screen_step_def None Let_def)
    then show ?thesis using ih new unfolding Let_def foldl_append foldl.simps t_def [symmetric] by auto
  next
    case (Some r)
    have "screen_step facts t s = t\<lparr>sc_withdrawn := sc_withdrawn t @
        [\<lparr>wd_hash = g_hash s, wd_owner = g_owner s, wd_rejection = r\<rparr>]\<rparr>" by (simp add: screen_step_def Some Let_def)
    then have step: "sc_keep (screen_step facts t s) = sc_keep t"
      "wd_hash ` set (sc_withdrawn (screen_step facts t s)) = insert (g_hash s) (wd_hash ` set (sc_withdrawn t))" by simp_all
    show ?thesis unfolding Let_def foldl_append foldl.simps t_def [symmetric] step using ih cong by auto
  qed
qed simp

lemma get_by_batch_withdraw:
  assumes "listed_pending p"
  shows "get_by_batch (withdraw h r p) b = filter (\<lambda>s. g_hash s \<noteq> h) (get_by_batch p b)"
proof (cases "\<exists>x. map_of (byHash p) h = Some x \<and> st_status x = Pending")
  case True
  then obtain x where x: "map_of (byHash p) h = Some x" "st_status x = Pending" by blast
  have "g_hash s \<noteq> h" if "s \<in> set (get_by_batch p b)" "b \<noteq> st_batch x" for s
    using get_by_batch_listed(2) [OF assms that(1)] that(2) x(1) by auto
  then have other: "filter (\<lambda>s. g_hash s \<noteq> h) (get_by_batch p b) = get_by_batch p b" if "b \<noteq> st_batch x"
    using that by (auto simp: filter_id_conv)
  show ?thesis
    using other listed_pendingD(1) [OF assms]
    by (auto simp: get_by_batch_def withdraw_reads(2) [OF x] splice_out_distinct split: option.splits)
next
  case False
  then have "g_hash s \<noteq> h" if "s \<in> set (get_by_batch p b)" for s
    using get_by_batch_listed(2) [OF assms that] by auto
  then have "filter (\<lambda>s. g_hash s \<noteq> h) (get_by_batch p b) = get_by_batch p b" by (auto simp: filter_id_conv)
  then show ?thesis using withdraw_idle [of p h r] False by fastforce
qed

lemma get_by_batch_withdraws:
  "listed_pending p \<Longrightarrow> get_by_batch (foldl (\<lambda>q w. withdraw (wd_hash w) (wd_rejection w) q) p ws) b
     = filter (\<lambda>s. g_hash s \<notin> wd_hash ` set ws) (get_by_batch p b)"
proof (induction ws arbitrary: p)
  case (Cons w ws)
  then show ?case using listed_withdraw get_by_batch_withdraw by (auto intro: filter_cong)
qed simp


text \<open>
  Screening a batch through the mempool leaves in its list exactly what the screening keeps, in
  the order it keeps it: the withdrawals of the refused hashes and the pure screening agree.
\<close>

theorem screen_batch_keeps:
  assumes "pool_reachable retention m" and "0 \<le> retention"
  shows "get_by_batch (screen_batch chain b (pm_pool m) (pm_pool m)) b
    = fst (screen (get_by_batch (pm_pool m) b) (read_facts chain (get_by_batch (pm_pool m) b)))"
proof -
  have lp: "listed_pending (pm_pool m)" using reachable_ok [OF assms] by (simp add: pool_ok_def)
  let ?xs = "get_by_batch (pm_pool m) b"
  have "fst (screen ?xs facts) = filter (\<lambda>s. g_hash s \<notin> wd_hash ` set (snd (screen ?xs facts))) ?xs" for facts
    using screen_withdrawn_split [OF get_by_batch_listed(1) [OF lp], of facts b] by (simp add: screen_def Let_def)
  then show ?thesis
    using get_by_batch_withdraws [OF lp] by (auto simp: screen_batch_def Let_def screen_def)
qed

text \<open>
  A status lookup of an intent whose collection is over changes nothing but the sweep, so it can
  never take an intent out of what solvers were already given, and it answers the rejection on
  record.
\<close>

theorem status_leaves_frozen_batch:
  assumes "intent_status_of c retention rpc fillFor raw now p = Inr (r, q)" and "is_collect_closed (st_batchId r) now"
  shows "q = sweep retention now p \<and> (\<exists>x. get_by_hash q (lower raw) = Some x \<and> st_hash r = g_hash (st_signed x) \<and> st_why r = st_rejection x)"
  using assms by (auto simp: intent_status_of_def Let_def split: if_splits option.splits)


section \<open>Witnesses\<close>

definition sample_coordinator :: coordinator where
  "sample_coordinator = \<lparr>viem_of = sample_viem\<lparr>recoverAddress := \<lambda>d s. Some sample_upper\<rparr>, domainSeparator = ''0x'', witnessTypeString = [],
     settlement = ''0x5e'', codeOf = \<lambda>a. None, isValidSignature = \<lambda>a d s. None, tokenAllowed = \<lambda>t. Inr True,
     nonceBitmap = \<lambda>a w. Inr 0, balanceOf = \<lambda>t a. Inr 100, permit2Allowance = \<lambda>t a. Inr 90, bestSolution = \<lambda>b. Inr ''0x0'',
     priorReads = sample_chain, calendar = sample_calendar\<rparr>"

definition sample_signature :: string where
  "sample_signature = ''0x'' @ replicate 130 CHR ''1''"

definition sample_request :: submit_request where
  "sample_request = \<lparr>req_intent = sample_payload sample_upper, req_signature = Some sample_signature\<rparr>"

lemma sample_fields:
  "req_intent sample_request = sample_payload sample_upper" "req_signature sample_request = Some sample_signature"
  "calendar sample_coordinator = sample_calendar" "isAddress (viem_of sample_coordinator) = isAddress sample_viem"
  "isHex (viem_of sample_coordinator) sample_signature" "sample_signature \<noteq> []"
  "i_receiver (sample_decoded sample_upper) = sample_upper" "i_owner (sample_decoded sample_upper) = sample_upper"
  "i_sellAmount (sample_decoded sample_upper) = 60" "committed empty_pool a t = []"
  by (simp_all add: sample_request_def sample_coordinator_def sample_viem_def sample_signature_def sample_decoded_def
      committed_def empty_pool_def)

lemma sample_receiver: "hex_value sample_upper \<noteq> 0"
proof -
  have "hex_digit CHR ''A'' = 10" by code_simp
  then show ?thesis by (simp add: hex_value_def sample_upper_def eval_nat_numeral)
qed

lemma sample_signature_size: "permit2_eoa_signature (viem_of sample_coordinator) sample_signature = Some sample_signature"
  by (simp add: permit2_eoa_signature_def sample_coordinator_def sample_viem_def sample_signature_def Let_def)

lemma sample_tokens: "\<not> same (i_sellToken (sample_decoded sample_upper)) (i_buyToken (sample_decoded sample_upper))"
  by (simp add: same_def lower_def lower_char_def sample_decoded_def)

lemma sample_facts_read: "check_facts sample_coordinator (sample_decoded sample_upper) = Inr (100, 90)"
  by (simp add: check_facts_def sample_coordinator_def sample_decoded_def settled_def nonce_bit_def)

lemma sample_window: "window_at sample_calendar (sample_decoded sample_upper) 100 = Inr (window_of 135 45 0 10)"
  by code_simp

lemma sample_checked: "check_signature sample_coordinator sample_upper d sample_signature = Inr ''eoa''"
  using sample_signature_size by (simp add: check_signature_def) (simp add: sample_coordinator_def)

lemma sample_submit:
  obtains resp ev q where "submit_intent sample_coordinator sample_request 100 [101] empty_pool empty_pool = Inr (resp, ev, q)"
proof -
  have tail: "\<exists>r. admission_tail sample_coordinator (sample_decoded sample_upper) h d sg k 100 u f (100, 90) (window_of 135 45 0 10) empty_pool = Inr r" for h d sg k u f
    by (simp add: admission_tail_def sample_fields held_amount_def Let_def admit_def) (simp add: empty_pool_def)
  have "settle_window 2 sample_calendar (sample_decoded sample_upper) [101] (window_of 135 45 0 10) = Inr (window_of 135 45 0 10, 101)"
    by (simp add: window_of_def)
  moreover have "unwinnable_batches sample_coordinator 100 [] = Inr {}" by (simp add: unwinnable_batches_def first_seen_def)
  ultimately have "\<exists>r. submit_intent sample_coordinator sample_request 100 [101] empty_pool empty_pool = Inr r"
    using tail sample_receiver sample_tokens
    by (simp add: submit_intent_def sample_fields sample_validates Let_def sample_checked sample_facts_read sample_window del: settle_window.simps)
  then show thesis using that by (metis prod_cases3)
qed

lemma sample_submit_started:
  obtains resp ev q where "submit_intent sample_coordinator sample_request 100 [101] empty_pool (pm_pool (started 0)) = Inr (resp, ev, q)"
  by (rule sample_submit) (rule that, simp add: started_def)

lemma sample_validated: "validate_intent_payload (isAddress (viem_of sample_coordinator)) (req_intent sample_request) = Inr (sample_decoded sample_upper)"
  by (simp add: sample_fields sample_validates)

lemma sample_calendar_valid: "valid_reader (calendar sample_coordinator)"
  by (simp add: sample_coordinator_def valid_reader_def sample_calendar_def sample_reader_def)

theorem submit_signed_witness:
  "\<exists>resp :: submit_response. sr_intentHash resp = intent_hash (viem_of sample_coordinator) (sample_decoded sample_upper)"
proof -
  obtain resp ev q where "submit_intent sample_coordinator sample_request 100 [101] empty_pool empty_pool = Inr (resp, ev, q)" by (rule sample_submit)
  from submit_signed [OF this] show ?thesis unfolding sample_validated sum.inject by (elim exE conjE) (rule exI [of _ resp], simp)
qed

theorem submit_joins_open_batch_witness:
  "\<exists>b. 101 < b \<and> is_valid_batch_id sample_calendar b \<and> b + 10 < 1000"
proof -
  obtain resp ev q where s: "submit_intent sample_coordinator sample_request 100 [101] empty_pool (pm_pool (started 0)) = Inr (resp, ev, q)"
    by (rule sample_submit_started)
  have "i_validUntil (sample_decoded sample_upper) = 1000" by (simp add: sample_decoded_def)
  then show ?thesis using submit_joins_open_batch [OF s sample_calendar_valid]
    unfolding sample_validated sum.inject sample_fields(3) by auto
qed


theorem screen_batch_keeps_witness:
  "map g_hash (get_by_batch (screen_batch sample_chain 135 (pm_pool sample_machine) (pm_pool sample_machine)) 135) = [''h1'']"
proof -
  have "map g_hash (fst (screen (get_by_batch (pm_pool sample_machine) 135) (read_facts sample_chain (get_by_batch (pm_pool sample_machine) 135)))) = [''h1'']"
    by code_simp
  then show ?thesis using screen_batch_keeps [OF sample_reachable] by simp
qed




definition sample_h1 :: string where "sample_h1 = ''0x'' @ replicate 64 CHR ''1''"

theorem status_leaves_frozen_batch_witness:
  "\<exists>r. intent_status_of sample_coordinator 86400 ''rpc'' (\<lambda>h. None) sample_h1 140 (admitted empty_pool (sample_signed sample_h1 ''0xAB'' 60 1, 135))
     = Inr (r, sweep 86400 140 (admitted empty_pool (sample_signed sample_h1 ''0xAB'' 60 1, 135)))"
proof -
  let ?p = "admitted empty_pool (sample_signed sample_h1 ''0xAB'' 60 1, 135)"
  have r: "case intent_status_of sample_coordinator 86400 ''rpc'' (\<lambda>h. None) sample_h1 140 ?p of
      Inr (r, q) \<Rightarrow> is_collect_closed (st_batchId r) 140 | Inl _ \<Rightarrow> False" by code_simp
  then obtain r q where "intent_status_of sample_coordinator 86400 ''rpc'' (\<lambda>h. None) sample_h1 140 ?p = Inr (r, q)"
    "is_collect_closed (st_batchId r) 140" by (auto split: sum.splits)
  then show ?thesis using status_leaves_frozen_batch by blast
qed

end
