(* ===== verification/Nonces.thy ===== *)
theory Nonces
  imports Admission Requests
begin

unbundle bit_operations_syntax

text \<open>
  api/src/routes/nonces.ts: the nonce an owner signs next, read from Permit2's bitmap and from what the
  mempool still holds for the owner, and the call that cancels a nonce.
\<close>

definition MAX_WORDS :: nat where "MAX_WORDS = 4"

definition first_free_bit :: "int \<Rightarrow> int \<Rightarrow> int set \<Rightarrow> nat option" where
  "first_free_bit bitmap word held =
     find_index (\<lambda>j. drop_bit j bitmap smod 2 = 0 \<and> word * 256 + int j \<notin> held) [0..<256]"

text \<open>The loop over the words, with what it scanned so far; it stops at the first free bit.\<close>

fun scan_words :: "(int \<Rightarrow> string + int) \<Rightarrow> int set \<Rightarrow> int list \<Rightarrow> failure + (int \<times> int) list \<times> int option" where
  "scan_words bitmap held [] = Inr ([], None)"
| "scan_words bitmap held (word # ws) =
     bindE (settled (bitmap word)) (\<lambda>b.
       case first_free_bit b word held of
         Some j \<Rightarrow> Inr ([(word, b)], Some (word * 256 + int j))
       | None \<Rightarrow> bindE (scan_words bitmap held ws) (\<lambda>(scanned, next). Inr ((word, b) # scanned, next)))"

record cancel_call =
  cc_nonce :: string
  cc_used :: bool
  cc_word :: int
  cc_mask :: int
  cc_castCommand :: string

record nonce_response =
  nr_owner :: address
  nr_next :: string
  nr_scannedWords :: "(string \<times> string) list"
  nr_cancel :: "cancel_call option"

text \<open>A shift by a negative count shifts the other way, and \<^verbatim>\<open>%\<close> keeps the sign of the nonce.\<close>

definition shift_right :: "int \<Rightarrow> int \<Rightarrow> int" where
  "shift_right n k = (if 0 \<le> k then drop_bit (nat k) n else push_bit (nat (- k)) n)"

definition cancel_nonce :: "coordinator \<Rightarrow> address \<Rightarrow> string \<Rightarrow> address \<Rightarrow> string \<Rightarrow> failure + cancel_call" where
  "cancel_nonce c permit2 publicRpc owner asked =
     (case big_int_text asked of
        None \<Rightarrow> Inl (Http (bad_request ''COORDINATOR_INVALID_REQUEST'' ''nonce is a decimal string'' [(''nonce'', asked)]))
      | Some nonce \<Rightarrow>
          let word = drop_bit 8 nonce; j = nonce smod 256; mask = shift_right 1 (- j) in
          bindE (settled (nonceBitmap c owner word)) (\<lambda>bitmap.
            Inr \<lparr>cc_nonce = decimal nonce, cc_used = (shift_right bitmap j smod 2 = 1), cc_word = word, cc_mask = mask,
              cc_castCommand = ''cast send '' @ permit2 @ '' \"invalidateUnorderedNonces(uint256,uint256)\" \"'' @ decimal word @ ''\" \"'' @ decimal mask
                @ ''\" --rpc-url '' @ publicRpc @ '' --from '' @ owner\<rparr>))"

text \<open>The sweep is the only change the route makes, and it happens before the first read.\<close>

definition nonce_route :: "coordinator \<Rightarrow> int \<Rightarrow> address \<Rightarrow> string \<Rightarrow> string \<Rightarrow> string option \<Rightarrow> int \<Rightarrow> mempool \<Rightarrow> (failure + nonce_response) \<times> mempool" where
  "nonce_route c retention permit2 publicRpc owner asked time p =
     (if \<not> isAddress (viem_of c) owner
      then (Inl (Http (bad_request ''COORDINATOR_INVALID_REQUEST'' (''not an address: '' @ owner) [(''owner'', owner)])), p)
      else let address = getAddress (viem_of c) owner; p = sweep retention time p; held = held_nonces p address in
        (bindE (scan_words (nonceBitmap c address) held (map int [0..<MAX_WORDS])) (\<lambda>(scanned, next).
           case next of
             None \<Rightarrow> Inl (Http (bad_request ''COORDINATOR_INVALID_REQUEST''
               (''every nonce in the first 4 words is used or held by a pending intent for '' @ address) [(''owner'', address)]))
           | Some nonce \<Rightarrow>
               let response = \<lparr>nr_owner = address, nr_next = decimal nonce, nr_scannedWords = map (\<lambda>(w, b). (decimal w, decimal b)) scanned, nr_cancel = None\<rparr> in
               case asked of
                 None \<Rightarrow> Inr response
               | Some txt \<Rightarrow> bindE (cancel_nonce c permit2 publicRpc address txt) (\<lambda>call. Inr (response\<lparr>nr_cancel := Some call\<rparr>))), p))"

section \<open>The next nonce is the least free one\<close>

text \<open>A nonce is taken when Permit2's bitmap marks it or an accepted intent of the owner holds it.\<close>

definition taken :: "(int \<Rightarrow> string + int) \<Rightarrow> int set \<Rightarrow> int \<Rightarrow> bool" where
  "taken bitmap held n \<longleftrightarrow> n \<in> held \<or> (\<exists>b. bitmap (nonce_word n) = Inr b \<and> nonce_bit b n)"

lemma word_and_bit: "0 \<le> word \<Longrightarrow> j < 256 \<Longrightarrow> nonce_word (word * 256 + int j) = word"
  "0 \<le> word \<Longrightarrow> j < 256 \<Longrightarrow> nonce_bit b (word * 256 + int j) \<longleftrightarrow> drop_bit j b smod 2 = 1"
  by (simp_all add: nonce_word_def nonce_bit_def drop_bit_eq_div)

lemma smod_two: "0 \<le> x \<Longrightarrow> x smod 2 = 0 \<longleftrightarrow> \<not> x smod (2 :: int) = 1"
  by simp

lemma first_free_bit_spec:
  assumes "bitmap word = Inr b" "0 \<le> b" "0 \<le> word"
  shows "first_free_bit b word held = Some j \<Longrightarrow> j < 256 \<and> \<not> taken bitmap held (word * 256 + int j)
      \<and> (\<forall>k<j. taken bitmap held (word * 256 + int k))"
    and "first_free_bit b word held = None \<Longrightarrow> k < 256 \<Longrightarrow> taken bitmap held (word * 256 + int k)"
proof -
  have free: "(drop_bit k b smod 2 = 0 \<and> word * 256 + int k \<notin> held) \<longleftrightarrow> \<not> taken bitmap held (word * 256 + int k)" if "k < 256" for k
    using assms that by (auto simp: taken_def word_and_bit smod_two)
  show "j < 256 \<and> \<not> taken bitmap held (word * 256 + int j) \<and> (\<forall>k<j. taken bitmap held (word * 256 + int k))"
    if "first_free_bit b word held = Some j"
  proof -
    from find_index_Some [OF that [unfolded first_free_bit_def]]
    have j: "j < 256" "drop_bit j b smod 2 = 0 \<and> word * 256 + int j \<notin> held"
      "k < j \<Longrightarrow> \<not> (drop_bit k b smod 2 = 0 \<and> word * 256 + int k \<notin> held)" for k by auto
    have "\<not> taken bitmap held (word * 256 + int j)" using free [OF j(1)] j(2) by metis
    moreover have "taken bitmap held (word * 256 + int k)" if "k < j" for k using free [of k] j(1) j(3) [OF that] that by auto
    ultimately show ?thesis using j(1) by blast
  qed
  show "taken bitmap held (word * 256 + int k)" if "first_free_bit b word held = None" "k < 256"
    using that free [of k] unfolding first_free_bit_def find_index_None_iff by auto
qed

lemma scan_words_spec:
  assumes "scan_words bitmap held (map int [w..<m]) = Inr (scanned, next)" "\<And>k b. bitmap k = Inr b \<Longrightarrow> 0 \<le> b"
    and "\<And>n. 0 \<le> n \<Longrightarrow> n < 256 * int w \<Longrightarrow> taken bitmap held n" "w \<le> m"
  shows "case next of
      Some n \<Rightarrow> 0 \<le> n \<and> n < 256 * int m \<and> \<not> taken bitmap held n \<and> (\<forall>k. 0 \<le> k \<longrightarrow> k < n \<longrightarrow> taken bitmap held k)
    | None \<Rightarrow> (\<forall>k. 0 \<le> k \<longrightarrow> k < 256 * int m \<longrightarrow> taken bitmap held k)"
  using assms(1,3,4)
proof (induction "m - w" arbitrary: w scanned)
  case 0
  then show ?case by auto
next
  case (Suc d)
  then have w: "map int [w..<m] = int w # map int [Suc w..<m]" by (simp add: upt_conv_Cons)
  obtain b where b: "bitmap (int w) = Inr b" using Suc.prems(1) by (auto simp: w settled_def split: sum.splits)
  have inside: "k < 256 * int w \<or> (\<exists>i<256. k = int w * 256 + int i)" if "k < 256 * int (Suc w)" for k
    using that by (cases "k < 256 * int w") (auto intro!: exI [of _ "nat (k - int w * 256)"])
  show ?case
  proof (cases "first_free_bit b (int w) held")
    case (Some j)
    then have "next = Some (int w * 256 + int j)" using Suc.prems(1) by (auto simp: w b settled_def)
    moreover have s: "j < 256" "\<not> taken bitmap held (int w * 256 + int j)" "\<forall>k<j. taken bitmap held (int w * 256 + int k)"
      using first_free_bit_spec(1) [where bitmap = bitmap and word = "int w", OF b assms(2) [OF b] of_nat_0_le_iff Some] by auto
    moreover have "taken bitmap held k" if "0 \<le> k" "k < int w * 256 + int j" for k
      using inside [of k] that s(1,3) Suc.prems(2) [of k] by auto
    ultimately show ?thesis using Suc.hyps(2) by auto
  next
    case None
    then obtain rest where rest: "scan_words bitmap held (map int [Suc w..<m]) = Inr (rest, next)"
      using Suc.prems(1) by (auto simp: w b settled_def)
    have "taken bitmap held k" if "0 \<le> k" "k < 256 * int (Suc w)" for k
      using inside [OF that(2)] that(1) first_free_bit_spec(2) [where bitmap = bitmap and word = "int w", OF b assms(2) [OF b] of_nat_0_le_iff None] Suc.prems(2) [of k] by auto
    then show ?thesis using Suc.hyps(1) [of "Suc w"] rest Suc.hyps(2) by auto
  qed
qed

lemma held_nonces_iff: "n \<in> held_nonces p owner \<longleftrightarrow> map_of (byOwnerNonce p) (lower owner, n) \<noteq> None"
  by (force simp: held_nonces_def map_of_eq_None_iff image_iff)

text \<open>
  C26. The nonce the route serves is the least one of the first 1024 that is neither used on chain nor held by
  an intent the coordinator still keeps, and the route refuses exactly when there is none. Signed into an
  intent, it passes both of the coordinator's own nonce checks: the bitmap does not mark it, and the
  mempool, as the route left it, does not refuse the intent for its nonce.
\<close>

theorem next_nonce_admitted:
  assumes "nonce_route c retention permit2 rpc owner None time p = (r, p')" "isAddress (viem_of c) owner"
    and "\<And>w. \<exists>b. nonceBitmap c (getAddress (viem_of c) owner) w = Inr b \<and> 0 \<le> b"
  shows "case r of
      Inl e \<Rightarrow> \<forall>n. 0 \<le> n \<longrightarrow> n < 1024 \<longrightarrow> taken (nonceBitmap c (getAddress (viem_of c) owner)) (held_nonces p' (getAddress (viem_of c) owner)) n
    | Inr res \<Rightarrow> (\<exists>n b. nr_next res = decimal n \<and> 0 \<le> n \<and> n < 1024
        \<and> nonceBitmap c (getAddress (viem_of c) owner) (nonce_word n) = Inr b \<and> \<not> nonce_bit b n
        \<and> (\<forall>k. 0 \<le> k \<longrightarrow> k < n \<longrightarrow> taken (nonceBitmap c (getAddress (viem_of c) owner)) (held_nonces p' (getAddress (viem_of c) owner)) k)
        \<and> (\<forall>h signed b. same (g_owner signed) (getAddress (viem_of c) owner) \<and> i_nonce (g_intent signed) = n \<and> get_by_hash p' h = None
            \<longrightarrow> (\<exists>q. admit h signed b p' = Inr q)))"
proof -
  let ?a = "getAddress (viem_of c) owner"
  let ?bm = "nonceBitmap c ?a"
  let ?held = "held_nonces p' ?a"
  have p': "p' = sweep retention time p" using assms(1,2) by (simp add: nonce_route_def Let_def)
  have total: "\<exists>y. scan_words ?bm held ws = Inr y" for held ws
  proof (induction ws)
    case (Cons w ws)
    obtain b where "?bm w = Inr b" using assms(3) by blast
    then show ?case using Cons by (auto simp: settled_def split: option.split)
  qed simp
  obtain scanned nxt where s: "scan_words ?bm ?held (map int [0..<MAX_WORDS]) = Inr (scanned, nxt)" using total by fastforce
  have nonneg: "0 \<le> b" if "?bm k = Inr b" for k b using assms(3) [of k] that by auto
  have spec: "case nxt of
      Some n \<Rightarrow> 0 \<le> n \<and> n < 256 * int MAX_WORDS \<and> \<not> taken ?bm ?held n \<and> (\<forall>k. 0 \<le> k \<longrightarrow> k < n \<longrightarrow> taken ?bm ?held k)
    | None \<Rightarrow> (\<forall>k. 0 \<le> k \<longrightarrow> k < 256 * int MAX_WORDS \<longrightarrow> taken ?bm ?held k)"
    by (rule scan_words_spec [OF s nonneg]) simp_all
  show ?thesis
  proof (cases nxt)
    case None
    then have "\<exists>e. r = Inl e" using assms(1,2) s by (auto simp: nonce_route_def Let_def p')
    then show ?thesis using spec None by (auto simp: MAX_WORDS_def)
  next
    case (Some n)
    then obtain res where res: "r = Inr res" "nr_next res = decimal n"
      using assms(1,2) s by (auto simp: nonce_route_def Let_def p')
    obtain b where b: "?bm (nonce_word n) = Inr b" using assms(3) by blast
    have n: "0 \<le> n" "n < 1024" "\<not> taken ?bm ?held n" "\<forall>k. 0 \<le> k \<longrightarrow> k < n \<longrightarrow> taken ?bm ?held k"
      using spec Some by (simp_all add: MAX_WORDS_def)
    have "\<exists>q. admit h signed bid p' = Inr q"
      if "same (g_owner signed) ?a" "i_nonce (g_intent signed) = n" "get_by_hash p' h = None" for h signed bid
    proof -
      have "map_of (byOwnerNonce p') (key_of signed) = None"
        using n(3) that(1,2) held_nonces_iff [of n p' ?a] unfolding taken_def same_def owner_nonce_key_def by metis
      then show ?thesis using that(3) by (simp add: admit_def get_by_hash_def)
    qed
    then show ?thesis using res n b by (auto simp: taken_def)
  qed
qed

section \<open>Witness\<close>

definition sample_bitmaps :: coordinator where
  "sample_bitmaps = sample_coordinator\<lparr>nonceBitmap := \<lambda>a w. Inr 5\<rparr>"

definition sample_asked :: "(failure + nonce_response) \<times> mempool" where
  "sample_asked = nonce_route sample_bitmaps 86400 ''0xp2'' ''rpc'' sample_upper None 100 (admitted empty_pool (sample_signed ''h1'' (lower sample_upper) 60 1, 135))"

theorem next_nonce_admitted_witness:
  "\<exists>res n. fst sample_asked = Inr res \<and> nr_next res = ''3'' \<and> nr_next res = decimal n \<and> n < 1024 \<and> \<not> nonce_bit 5 n"
proof -
  have c: "nonceBitmap sample_bitmaps a w = Inr 5" "isAddress (viem_of sample_bitmaps) sample_upper" for a w
    by (simp_all add: sample_bitmaps_def sample_coordinator_def sample_viem_def sample_upper_def)
  have "case fst sample_asked of Inr res \<Rightarrow> nr_next res = ''3'' | Inl _ \<Rightarrow> False" by code_simp
  then obtain res where res: "fst sample_asked = Inr res" "nr_next res = ''3''" by (auto split: sum.splits)
  then have "nonce_route sample_bitmaps 86400 ''0xp2'' ''rpc'' sample_upper None 100 (admitted empty_pool (sample_signed ''h1'' (lower sample_upper) 60 1, 135))
      = (Inr res, snd sample_asked)" by (metis prod.collapse sample_asked_def)
  from next_nonce_admitted [OF this c(2)] obtain n where "nr_next res = decimal n" "n < 1024" "\<not> nonce_bit 5 n" using c(1) by auto
  then show ?thesis using res by blast
qed

end
