(* ===== verification/Faucet.thy ===== *)
theory Faucet
  imports Admission Requests Effects
begin

text \<open>
  api/src/routes/faucet.ts: the testnet faucet, the only route that signs. Two sliding windows limit it
  by the address of the caller and by the address it pays; what it sends is the difference between what
  an address holds and a target. The node is a parameter, a step over a world nobody describes.
\<close>

section \<open>The window\<close>

definition HOUR :: int where "HOUR = 3600"
definition PER_ADDRESS :: nat where "PER_ADDRESS = 3"
definition PER_IP :: nat where "PER_IP = 10"

definition shortfall :: "int \<Rightarrow> int \<Rightarrow> int" where
  "shortfall held target = (if held \<ge> target then 0 else target - held)"

type_synonym take_log = "(string \<times> int list) list"

definition recent_takes :: "int \<Rightarrow> take_log \<Rightarrow> string \<Rightarrow> int \<Rightarrow> int list" where
  "recent_takes windowSeconds seen key now = filter (\<lambda>t. t > now - windowSeconds) (case map_of seen key of None \<Rightarrow> [] | Some ts \<Rightarrow> ts)"

text \<open>
  Zero when taken, otherwise the seconds until the oldest take expires. A limit of zero would make the
  code answer NaN, which its caller reads as taken; the two windows of the route have limits above zero.
\<close>

definition take_slot :: "nat \<Rightarrow> int \<Rightarrow> string \<Rightarrow> int \<Rightarrow> take_log \<Rightarrow> int \<times> take_log" where
  "take_slot limit windowSeconds key now seen =
     (let recent = recent_takes windowSeconds seen key now in
      if length recent \<ge> limit
      then (case recent of [] \<Rightarrow> 0 | t # _ \<Rightarrow> max 1 (t + windowSeconds - now), AList.update key recent seen)
      else (0, AList.update key (recent @ [now]) seen))"

record limits =
  byAddress :: take_log
  byIp :: take_log

definition take_both :: "string \<Rightarrow> address \<Rightarrow> int \<Rightarrow> limits \<Rightarrow> int \<times> limits" where
  "take_both ip addr now l =
     (case take_slot PER_IP HOUR ip now (byIp l) of (w, ips) \<Rightarrow>
        if w \<noteq> 0 then (w, l\<lparr>byIp := ips\<rparr>)
        else case take_slot PER_ADDRESS HOUR (lower addr) now (byAddress l) of (w', as) \<Rightarrow> (w', l\<lparr>byIp := ips, byAddress := as\<rparr>))"

section \<open>The route\<close>

record faucet_asset =
  fa_symbol :: string
  fa_token :: "address option"
  fa_target :: int


record 'w faucet_node =
  fn_held :: "address option \<Rightarrow> address \<Rightarrow> ('w, int) io"
  fn_nonce :: "('w, int) io"
  fn_send :: "address option \<Rightarrow> address \<Rightarrow> int \<Rightarrow> int \<Rightarrow> ('w, hex) io"
  fn_receipt :: "hex \<Rightarrow> ('w, bool) io"

record sent_row =
  sn_asset :: faucet_asset
  sn_amount :: int
  sn_tx :: hex

record faucet_response =
  fr_address :: address
  fr_sent :: "sent_row list"
  fr_skipped :: "(faucet_asset \<times> int) list"

fun send_due :: "'w faucet_node \<Rightarrow> address \<Rightarrow> (faucet_asset \<times> int) list \<Rightarrow> int \<Rightarrow> ('w, sent_row list) io" where
  "send_due n addr [] nonce = pureS []"
| "send_due n addr ((a, amount) # due) nonce =
     (if amount = 0 then send_due n addr due nonce
      else bindS (fn_send n (fa_token a) addr amount nonce) (\<lambda>tx.
        bindS (send_due n addr due (nonce + 1)) (\<lambda>rest. pureS (\<lparr>sn_asset = a, sn_amount = amount, sn_tx = tx\<rparr> # rest))))"

text \<open>What runs under \<^verbatim>\<open>serial\<close>, so nothing of another request comes between its steps.\<close>

definition pay_out :: "'w faucet_node \<Rightarrow> address \<Rightarrow> faucet_asset list \<Rightarrow> address \<Rightarrow> ('w, http_error + faucet_response) io" where
  "pay_out n faucet assets addr =
     bindS (mapS (\<lambda>a. fn_held n (fa_token a) addr) assets) (\<lambda>held.
       let due = map (\<lambda>(a, h). (a, shortfall h (fa_target a))) (zip assets held) in
       bindS (fn_held n None faucet) (\<lambda>own.
         if own < snd (hd due) + 10 ^ 14
         then pureS (Inl (fail 503 ''COORDINATOR_UPSTREAM_DOWN'' (''the faucet '' @ faucet @ '' is out of testnet ETH'') [(''faucet'', faucet)]))
         else bindS (fn_nonce n) (\<lambda>nonce.
           bindS (send_due n addr due nonce) (\<lambda>sent.
             bindS (mapS (\<lambda>s. fn_receipt n (sn_tx s)) sent) (\<lambda>receipts.
               let reverted = map fst (filter (\<lambda>(s, ok). \<not> ok) (zip (map (fa_symbol \<circ> sn_asset) sent) receipts)) in
               if reverted \<noteq> []
               then pureS (Inl (fail 502 ''COORDINATOR_UPSTREAM_DOWN'' ''faucet transfers reverted'' []))
               else pureS (Inr \<lparr>fr_address = addr, fr_sent = sent,
                 fr_skipped = map fst (filter (\<lambda>((a, h), d). snd d = 0) (zip (zip assets held) due))\<rparr>))))))"

definition CHAIN_ID_TESTNET :: int where "CHAIN_ID_TESTNET = 46630"

definition faucet_key :: "string \<Rightarrow> bool" where
  "faucet_key s \<longleftrightarrow> take 2 s = ''0x'' \<and> length s = 66 \<and> list_all (digit_in 16) (drop 2 s)"

record 'w faucet_state =
  fs_limits :: limits
  fs_world :: 'w

definition faucet_route :: "viem \<Rightarrow> 'w faucet_node \<Rightarrow> int \<Rightarrow> string \<Rightarrow> address \<Rightarrow> faucet_asset list \<Rightarrow> string option \<Rightarrow> string list \<Rightarrow> string \<Rightarrow> int
    \<Rightarrow> ('w faucet_state, http_error + faucet_response) io" where
  "faucet_route v n chainId key faucet assets asked forwarded socket now =
     (if chainId \<noteq> CHAIN_ID_TESTNET \<or> \<not> faucet_key key
      then pureS (Inl (fail 404 ''COORDINATOR_NOT_IMPLEMENTED'' ''the faucet runs on testnet 46630 only, and only where a faucet key is set'' []))
      else case asked of
          None \<Rightarrow> pureS (Inl (bad_request ''COORDINATOR_INVALID_REQUEST'' ''body is {address}, a 20 byte hex address'' []))
        | Some a \<Rightarrow>
            if \<not> isAddress v a then pureS (Inl (bad_request ''COORDINATOR_INVALID_REQUEST'' ''body is {address}, a 20 byte hex address'' [(''address'', a)]))
            else let addr = getAddress v a in
              bindS (\<lambda>s. case take_both (client_ip forwarded socket) addr now (fs_limits s) of (w, l) \<Rightarrow> (Inr w, s\<lparr>fs_limits := l\<rparr>)) (\<lambda>w.
                if w > 0
                then pureS (Inl (fail 429 ''COORDINATOR_RATE_LIMITED'' ''the faucet allows 3 requests per address and 10 per IP each hour'' [(''retryAfterSeconds'', decimal w)]))
                else (\<lambda>s. case pay_out n faucet assets addr (fs_world s) of (r, world) \<Rightarrow> (r, s\<lparr>fs_world := world\<rparr>))))"

section \<open>At most so many in any window\<close>

text \<open>The takes of a run in order, with the ones that were granted.\<close>

definition ask_slot :: "nat \<Rightarrow> int \<Rightarrow> take_log \<times> (string \<times> int) list \<Rightarrow> string \<times> int \<Rightarrow> take_log \<times> (string \<times> int) list" where
  "ask_slot limit W st req =
     (case take_slot limit W (fst req) (snd req) (fst st) of (w, seen) \<Rightarrow> (seen, if w = 0 then snd st @ [req] else snd st))"

definition run_takes :: "nat \<Rightarrow> int \<Rightarrow> (string \<times> int) list \<Rightarrow> take_log \<times> (string \<times> int) list" where
  "run_takes limit W reqs = foldl (ask_slot limit W) ([], []) reqs"

definition times_of :: "string \<Rightarrow> (string \<times> int) list \<Rightarrow> int list" where
  "times_of key ok = map snd (filter (\<lambda>r. fst r = key) ok)"

definition within_window :: "int \<Rightarrow> int \<Rightarrow> int list \<Rightarrow> int list" where
  "within_window W t ts = filter (\<lambda>u. t - W < u \<and> u \<le> t) ts"

abbreviation seen_at :: "take_log \<Rightarrow> string \<Rightarrow> int list" where
  "seen_at seen key \<equiv> (case map_of seen key of None \<Rightarrow> [] | Some ts \<Rightarrow> ts)"

text \<open>What a window remembers of a key are its granted takes but for those that have left the window.\<close>

definition window_inv :: "nat \<Rightarrow> int \<Rightarrow> int \<Rightarrow> take_log \<times> (string \<times> int) list \<Rightarrow> bool" where
  "window_inv limit W latest st \<longleftrightarrow> (\<forall>key. sorted (times_of key (snd st)) \<and> (\<forall>u\<in>set (times_of key (snd st)). u \<le> latest)
     \<and> length (seen_at (fst st) key) \<le> limit
     \<and> (\<exists>gone. times_of key (snd st) = gone @ seen_at (fst st) key \<and> (\<forall>u\<in>set gone. u \<le> latest - W))
     \<and> (\<forall>t. length (within_window W t (times_of key (snd st))) \<le> limit))"

lemma filter_above:
  "sorted ts \<Longrightarrow> \<exists>gone. ts = gone @ filter (\<lambda>u. u > (x :: int)) ts \<and> (\<forall>u\<in>set gone. u \<le> x)"
proof (induction ts)
  case (Cons u ts)
  show ?case
  proof (cases "u > x")
    case True
    then have "filter (\<lambda>u. u > x) ts = ts" using Cons.prems by (auto simp: filter_id_conv)
    then show ?thesis using True by (intro exI [of _ "[]"]) auto
  next
    case False
    obtain gone where "ts = gone @ filter (\<lambda>u. u > x) ts" "\<forall>u\<in>set gone. u \<le> x" using Cons by auto
    then show ?thesis using False by (intro exI [of _ "u # gone"]) auto
  qed
qed simp

lemma take_slot_cases:
  assumes "take_slot limit W key now seen = (w, seen')" "0 < limit"
  shows "w \<noteq> 0 \<longleftrightarrow> limit \<le> length (recent_takes W seen key now)"
    and "seen_at seen' k = (if k = key then recent_takes W seen key now @ (if w = 0 then [now] else []) else seen_at seen k)"
proof -
  have "limit \<le> length ts \<Longrightarrow> (case ts of [] \<Rightarrow> 0 | t # _ \<Rightarrow> max 1 (t + W - now)) \<noteq> 0" for ts :: "int list"
    using assms(2) by (cases ts) auto
  then show "w \<noteq> 0 \<longleftrightarrow> limit \<le> length (recent_takes W seen key now)"
    "seen_at seen' k = (if k = key then recent_takes W seen key now @ (if w = 0 then [now] else []) else seen_at seen k)"
    using assms(1) by (auto simp: take_slot_def Let_def split: if_splits)
qed

lemma ask_slot_inv:
  assumes "window_inv limit W latest st" "latest \<le> snd req" "0 < limit" "0 < W"
  shows "window_inv limit W (snd req) (ask_slot limit W st req)"
  unfolding window_inv_def
proof
  fix key
  let ?now = "snd req"
  obtain w seen where t: "take_slot limit W (fst req) ?now (fst st) = (w, seen)" by fastforce
  have st': "ask_slot limit W st req = (seen, if w = 0 then snd st @ [req] else snd st)" by (simp add: ask_slot_def t)
  let ?ts = "times_of key (snd st)"
  obtain gone where inv: "sorted ?ts" "\<forall>u\<in>set ?ts. u \<le> latest" "length (seen_at (fst st) key) \<le> limit"
    "?ts = gone @ seen_at (fst st) key" "\<forall>u\<in>set gone. u \<le> latest - W" "\<forall>t. length (within_window W t ?ts) \<le> limit"
    using assms(1) unfolding window_inv_def by metis
  show "sorted (times_of key (snd (ask_slot limit W st req))) \<and> (\<forall>u\<in>set (times_of key (snd (ask_slot limit W st req))). u \<le> ?now)
     \<and> length (seen_at (fst (ask_slot limit W st req)) key) \<le> limit
     \<and> (\<exists>gone. times_of key (snd (ask_slot limit W st req)) = gone @ seen_at (fst (ask_slot limit W st req)) key \<and> (\<forall>u\<in>set gone. u \<le> ?now - W))
     \<and> (\<forall>t. length (within_window W t (times_of key (snd (ask_slot limit W st req)))) \<le> limit)"
  proof (cases "key = fst req")
    case False
    then have "times_of key (snd (ask_slot limit W st req)) = ?ts" "seen_at (fst (ask_slot limit W st req)) key = seen_at (fst st) key"
      using take_slot_cases(2) [OF t assms(3), of key] by (auto simp: st' times_of_def)
    moreover have "\<forall>u\<in>set gone. u \<le> ?now - W" using inv(5) assms(2) by force
    ultimately show ?thesis using inv assms(2) by (auto intro: order_trans)
  next
    case True
    let ?recent = "recent_takes W (fst st) key ?now"
    have sorted_seen: "sorted (seen_at (fst st) key)" using inv(1,4) by (metis sorted_append)
    obtain dropped where d: "seen_at (fst st) key = dropped @ ?recent" "\<forall>u\<in>set dropped. u \<le> ?now - W"
      using filter_above [OF sorted_seen, of "?now - W"] unfolding recent_takes_def by blast
    have split: "?ts = (gone @ dropped) @ ?recent" "\<forall>u\<in>set (gone @ dropped). u \<le> ?now - W"
      using inv(4,5) d assms(2) by auto
    have new: "seen_at seen key = ?recent @ (if w = 0 then [?now] else [])" "w \<noteq> 0 \<longleftrightarrow> limit \<le> length ?recent"
      using take_slot_cases [OF t assms(3)] True by auto
    have times: "times_of key (snd (ask_slot limit W st req)) = ?ts @ (if w = 0 then [?now] else [])"
      using True by (auto simp: st' times_of_def)
    have short: "length ?recent \<le> length (seen_at (fst st) key)" by (subst d(1)) simp
    have count: "length (within_window W t (?ts @ [?now])) \<le> limit" if "w = 0" for t
    proof (cases "t < ?now")
      case True
      then show ?thesis using inv(6) by (simp add: within_window_def)
    next
      case False
      then have "\<not> (t - W < u \<and> u \<le> t)" if "u \<in> set (gone @ dropped)" for u using split(2) that by force
      then have "within_window W t (gone @ dropped) = []" unfolding within_window_def filter_empty_conv by blast
      then have "within_window W t (?ts @ [?now]) = within_window W t (?recent @ [?now])"
        by (subst split(1)) (simp add: within_window_def)
      then have "length (within_window W t (?ts @ [?now])) \<le> length (?recent @ [?now])"
        unfolding within_window_def by (metis length_filter_le)
      then show ?thesis using new(2) that by simp
    qed
    have "sorted (?ts @ (if w = 0 then [?now] else []))" using inv(1,2) assms(2) by (auto simp: sorted_append intro: order_trans)
    moreover have "\<forall>u\<in>set (?ts @ (if w = 0 then [?now] else [])). u \<le> ?now" using inv(2) assms(2) by (auto intro: order_trans)
    moreover have "length (?recent @ (if w = 0 then [?now] else [])) \<le> limit" using new(2) short inv(3) by auto
    moreover have "?ts @ (if w = 0 then [?now] else []) = (gone @ dropped) @ ?recent @ (if w = 0 then [?now] else [])"
      using split(1) by simp
    ultimately show ?thesis using split(2) count inv(6) unfolding times by (auto simp: st' new(1))
  qed
qed

lemma run_takes_inv:
  assumes "sorted (map snd (reqs @ [(k, now)]))" "0 < limit" "0 < W"
  shows "window_inv limit W now (run_takes limit W reqs)"
  using assms(1)
proof (induction reqs arbitrary: k now rule: rev_induct)
  case Nil
  then show ?case by (simp add: run_takes_def window_inv_def times_of_def within_window_def)
next
  case (snoc r reqs)
  have "window_inv limit W (snd r) (run_takes limit W reqs)"
    by (rule snoc.IH [of "fst r" "snd r"]) (use snoc.prems in \<open>simp add: sorted_append\<close>)
  then have "window_inv limit W (snd r) (run_takes limit W (reqs @ [r]))"
    unfolding run_takes_def foldl_append by (simp add: ask_slot_inv assms(2,3))
  moreover have "snd r \<le> now" using snoc.prems by (simp add: sorted_append)
  ultimately show ?case unfolding window_inv_def by (fastforce intro: order_trans)
qed

text \<open>
  Whatever is asked, as long as the clock does not run back, no window of the given length holds more
  granted takes of a key than the limit; and a take that is refused with a number of seconds is granted
  once that many seconds have passed and the key was not asked for in between.
\<close>

theorem window_limits:
  assumes "sorted (map snd (reqs @ [(key, now)]))" "0 < limit" "0 < W"
    and "take_slot limit W key now (fst (run_takes limit W reqs)) = (w, seen)"
  shows "length (within_window W t (times_of key (snd (run_takes limit W (reqs @ [(key, now)]))))) \<le> limit
    \<and> (w \<noteq> 0 \<longrightarrow> 0 < w \<and> fst (take_slot limit W key (now + w) seen) = 0)"
proof
  note slot_cases = take_slot_cases [OF assms(4,2)]
  have inv: "window_inv limit W now (run_takes limit W reqs)" by (rule run_takes_inv [OF assms(1-3)])
  then have "window_inv limit W now (run_takes limit W (reqs @ [(key, now)]))"
    using ask_slot_inv [OF inv, of "(key, now)"] assms(2,3) by (simp add: run_takes_def)
  then show "length (within_window W t (times_of key (snd (run_takes limit W (reqs @ [(key, now)]))))) \<le> limit"
    unfolding window_inv_def by blast
  let ?recent = "recent_takes W (fst (run_takes limit W reqs)) key now"
  show "w \<noteq> 0 \<longrightarrow> 0 < w \<and> fst (take_slot limit W key (now + w) seen) = 0"
  proof
    assume w: "w \<noteq> 0"
    have long: "limit \<le> length ?recent" using slot_cases(1) w by simp
    then obtain u us where r: "?recent = u # us" using assms(2) by (cases ?recent) auto
    have wait: "w = max 1 (u + W - now)" using assms(4) long by (auto simp: take_slot_def Let_def r)
    have "seen_at seen key = u # us" using take_slot_cases(2) [OF assms(4,2), of key] w by (simp add: r)
    moreover have "length (seen_at (fst (run_takes limit W reqs)) key) \<le> limit" using inv unfolding window_inv_def by blast
    then have "length (u # us) \<le> limit" unfolding r [symmetric] recent_takes_def using length_filter_le order_trans by blast
    moreover have "\<not> u > now + w - W" using wait by simp
    ultimately have "length (recent_takes W seen key (now + w)) < limit"
      unfolding recent_takes_def by (simp add: less_Suc_eq_le) (meson length_filter_le order_trans Suc_le_eq less_le_trans not_less)
    then show "0 < w \<and> fst (take_slot limit W key (now + w) seen) = 0" using wait by (simp add: take_slot_def Let_def)
  qed
qed

section \<open>What is sent is what is missing\<close>










section \<open>Witnesses\<close>

theorem window_limits_witness:
  "let reqs = [(''a'', 0), (''b'', 5), (''a'', 10), (''a'', 20)] in
     length (within_window 3600 30 (times_of ''a'' (snd (run_takes 3 3600 (reqs @ [(''a'', 30)]))))) \<le> 3
     \<and> fst (take_slot 3 3600 ''a'' (30 + 3570) (snd (take_slot 3 3600 ''a'' 30 (fst (run_takes 3 3600 reqs))))) = 0"
proof -
  let ?reqs = "[(''a'', 0), (''b'', 5), (''a'', 10), (''a'', 20)] :: (string \<times> int) list"
  have "fst (take_slot 3 3600 ''a'' 30 (fst (run_takes 3 3600 ?reqs))) = 3570" by code_simp
  then have t: "take_slot 3 3600 ''a'' 30 (fst (run_takes 3 3600 ?reqs)) = (3570, snd (take_slot 3 3600 ''a'' 30 (fst (run_takes 3 3600 ?reqs))))"
    by (metis prod.collapse)
  show ?thesis using window_limits [OF _ _ _ t, of 30] by (simp add: Let_def)
qed




end
