(* ===== verification/Gate.thy ===== *)
theory Gate
  imports Admission Requests
begin

text \<open>
  The allowlist gate, twice: app/src/lib/allowlist-gate.ts in the web application and
  api/src/routes/allowlist.ts in the coordinator. Both read the same facts of a token and say whether it
  is a Stock Token. A read at the block is a parameter and answers with a value or with the error it failed with.
\<close>

definition STOCK_TOKEN_BEACON :: address where
  "STOCK_TOKEN_BEACON = ''0xe10b6f6b275de231345c20d14ab812db62151b00''"

definition STOCK_TOKENS :: "(string \<times> address) list" where
  "STOCK_TOKENS = [(''NVDA'', ''0xd0601ce157db5bdc3162bbac2a2c8af5320d9eec''), (''AAPL'', ''0xaf3d76f1834a1d425780943c99ea8a608f8a93f9''),
     (''TSLA'', ''0x322f0929c4625ed5bad873c95208d54e1c003b2d''), (''GOOGL'', ''0x2e0847e8910a9732eb3fb1bb4b70a580adad4fe3'')]"

definition IMPOSTOR_GME :: address where
  "IMPOSTOR_GME = ''0xc2362aff2a2a4cc1f48cf3dab2c4e2605eb94ba3''"

definition ONE :: int where "ONE = 10 ^ 18"

section \<open>Failures\<close>

text \<open>An error of viem: the name and the decoded error name of each error down its chain of causes, and its texts.\<close>

record read_error =
  re_chain :: "(string \<times> string option) list"
  re_short :: "string option"
  re_message :: "string option"

fun revert_name :: "(string \<times> string option) list \<Rightarrow> string option" where
  "revert_name [] = None"
| "revert_name ((name, errorName) # causes) =
     (case errorName of
        Some n \<Rightarrow> Some n
      | None \<Rightarrow> if name = ''ContractFunctionRevertedError'' then Some ''reverted'' else revert_name causes)"

fun is_revert :: "(string \<times> string option) list \<Rightarrow> bool" where
  "is_revert [] \<longleftrightarrow> False"
| "is_revert ((name, errorName) # causes) \<longleftrightarrow>
     (if name = ''ContractFunctionRevertedError'' then True
      else if name = ''HttpRequestError'' \<or> name = ''TimeoutError'' then False
      else is_revert causes)"

datatype 'a outcome = Read 'a | Reverted string | Unreadable string

definition attempt :: "read_error + 'a \<Rightarrow> 'a outcome" where
  "attempt work =
     (case work of
        Inr v \<Rightarrow> Read v
      | Inl e \<Rightarrow>
          if is_revert (re_chain e) then Reverted (case revert_name (re_chain e) of Some n \<Rightarrow> n | None \<Rightarrow> ''reverted'')
          else Unreadable (case re_short e of Some s \<Rightarrow> s
            | None \<Rightarrow> (case re_message e of Some m \<Rightarrow> take 90 m | None \<Rightarrow> ''endpoint did not answer'')))"

definition value_of :: "'a outcome \<Rightarrow> 'a option" where
  "value_of outcome = (case outcome of Read v \<Rightarrow> Some v | _ \<Rightarrow> None)"

section \<open>The gate of the web application\<close>

record token_source =
  ts_code :: "address \<Rightarrow> read_error + hex option"
  ts_slot :: "address \<Rightarrow> read_error + hex option"
  ts_name :: "address \<Rightarrow> read_error + string"
  ts_symbol :: "address \<Rightarrow> read_error + string"
  ts_decimals :: "address \<Rightarrow> read_error + int"
  ts_totalSupply :: "address \<Rightarrow> read_error + int"
  ts_uiMultiplier :: "address \<Rightarrow> read_error + int"

definition last_chars :: "nat \<Rightarrow> string \<Rightarrow> string" where
  "last_chars n s = drop (length s - n) s"

definition beacon_from_slot :: "(string \<Rightarrow> string) \<Rightarrow> hex option \<Rightarrow> address option" where
  "beacon_from_slot get_address word =
     (case word of
        None \<Rightarrow> None
      | Some w \<Rightarrow>
          if length w < 42 then None
          else let tail = last_chars 40 w in if list_all (\<lambda>c. c = CHR ''0'') tail then None else Some (get_address (''0x'' @ tail)))"

datatype check_state = Pass | Miss | Unknown

record check =
  ck_id :: string
  ck_state :: check_state
  ck_reading :: string

datatype gate_verdict = Admitted | Turned_away | Undecided

record token_report =
  tr_listed :: bool
  tr_requested :: string
  tr_address :: address
  tr_name :: "string option"
  tr_symbol :: "string option"
  tr_decimals :: "int option"
  tr_totalSupply :: "int option"
  tr_codeBytes :: "int option"
  tr_beacon :: "address option"
  tr_uiMultiplier :: "int option"
  tr_checks :: "check list"
  tr_verdict :: gate_verdict

definition beacon_check :: "(string \<Rightarrow> string) \<Rightarrow> hex option outcome \<Rightarrow> address option \<Rightarrow> check" where
  "beacon_check get_address slot beacon =
     \<lparr>ck_id = ''beacon'',
      ck_state = (case slot of Unreadable d \<Rightarrow> Unknown | _ \<Rightarrow> if beacon = Some (get_address STOCK_TOKEN_BEACON) then Pass else Miss),
      ck_reading = (case slot of Unreadable d \<Rightarrow> d | _ \<Rightarrow> (case beacon of Some b \<Rightarrow> b | None \<Rightarrow> ''empty''))\<rparr>"

definition multiplier_check :: "int outcome \<Rightarrow> check" where
  "multiplier_check m =
     \<lparr>ck_id = ''multiplier'',
      ck_state = (case m of Unreadable d \<Rightarrow> Unknown | Read v \<Rightarrow> if v \<ge> ONE then Pass else Miss | Reverted n \<Rightarrow> Miss),
      ck_reading = (case m of Unreadable d \<Rightarrow> d | Read v \<Rightarrow> decimal v | Reverted n \<Rightarrow> ''no such function'')\<rparr>"

definition verdict_of :: "check list \<Rightarrow> gate_verdict" where
  "verdict_of checks =
     (if list_ex (\<lambda>c. ck_state c = Unknown) checks then Undecided
      else if list_all (\<lambda>c. ck_state c = Pass) checks then Admitted else Turned_away)"

text \<open>\<open>size\<close> is viem's count of the bytes of a hexadecimal string, \<^verbatim>\<open>ceil((length - 2) / 2)\<close>.\<close>

definition inspect :: "(string \<Rightarrow> string) \<Rightarrow> token_source \<Rightarrow> string \<Rightarrow> address \<Rightarrow> bool \<Rightarrow> token_report" where
  "inspect get_address src requested addr listed =
     (let code = attempt (ts_code src addr); slot = attempt (ts_slot src addr); multiplier = attempt (ts_uiMultiplier src addr);
          beacon = (case slot of Read w \<Rightarrow> beacon_from_slot get_address w | _ \<Rightarrow> None);
          checks = [beacon_check get_address slot beacon, multiplier_check multiplier]
      in \<lparr>tr_listed = listed, tr_requested = requested, tr_address = addr, tr_name = value_of (attempt (ts_name src addr)),
          tr_symbol = value_of (attempt (ts_symbol src addr)), tr_decimals = value_of (attempt (ts_decimals src addr)),
          tr_totalSupply = value_of (attempt (ts_totalSupply src addr)),
          tr_codeBytes = (case code of Read c \<Rightarrow> Some (case c of Some (x # xs) \<Rightarrow> (int (length (x # xs)) - 1) div 2 | _ \<Rightarrow> 0) | _ \<Rightarrow> None),
          tr_beacon = beacon, tr_uiMultiplier = value_of multiplier, tr_checks = checks, tr_verdict = verdict_of checks\<rparr>)"

definition run_gate :: "(string \<Rightarrow> string) \<Rightarrow> token_source \<Rightarrow> token_report list" where
  "run_gate get_address src =
     map (\<lambda>(requested, addr, listed). inspect get_address src requested addr listed)
       (map (\<lambda>(symbol, a). (symbol, get_address a, True)) STOCK_TOKENS @ [(''GME'', get_address IMPOSTOR_GME, False)])"

section \<open>The gate of the coordinator\<close>

record allowlist_entry =
  al_symbol :: string
  al_address :: address
  al_pass :: bool
  al_beacon :: hex
  al_beaconPass :: bool
  al_multiplier :: "string option"
  al_multiplierPass :: bool
  al_codeSize :: int
  al_codePass :: bool
  al_reasons :: "string list"

definition ZERO_WORD :: hex where
  "ZERO_WORD = ''0x'' @ replicate 64 CHR ''0''"

text \<open>A failed read is caught here and taken for a word of zeros, an absent function and no code.\<close>

definition coordinator_inspect :: "token_source \<Rightarrow> address \<Rightarrow> string \<Rightarrow> allowlist_entry" where
  "coordinator_inspect src addr symbol =
     (let slot = (case ts_slot src addr of Inl e \<Rightarrow> Some ZERO_WORD | Inr w \<Rightarrow> w);
          multiplier = (case ts_uiMultiplier src addr of Inl e \<Rightarrow> None | Inr v \<Rightarrow> Some v);
          code = (case ts_code src addr of Inl e \<Rightarrow> None | Inr c \<Rightarrow> c);
          actualBeacon = (case slot of Some w \<Rightarrow> if length w = 66 then ''0x'' @ drop 26 w else ''0x'' | None \<Rightarrow> ''0x'');
          beaconPass = (lower actualBeacon = lower STOCK_TOKEN_BEACON);
          multiplierPass = (case multiplier of None \<Rightarrow> False | Some m \<Rightarrow> m \<ge> ONE);
          codeSize = (case code of Some (c # cs) \<Rightarrow> (int (length (c # cs)) - 2) div 2 | _ \<Rightarrow> 0);
          codePass = (codeSize > 100)
      in \<lparr>al_symbol = symbol, al_address = addr, al_pass = (beaconPass \<and> multiplierPass \<and> codePass), al_beacon = actualBeacon,
          al_beaconPass = beaconPass, al_multiplier = map_option decimal multiplier, al_multiplierPass = multiplierPass,
          al_codeSize = codeSize, al_codePass = codePass,
          al_reasons = (if beaconPass then [] else [''ERC-1967 beacon slot does not hold the Stock Token beacon''])
            @ (if multiplierPass then [] else [if multiplier = None then ''uiMultiplier() is absent'' else ''uiMultiplier() is below 1e18''])
            @ (if codePass then [] else [''code is '' @ decimal codeSize @ '' bytes, too small for a beacon proxy''])\<rparr>)"

definition allowlist_route :: "viem \<Rightarrow> token_source \<Rightarrow> (string \<times> address) list \<Rightarrow> string option \<Rightarrow> http_error + allowlist_entry list" where
  "allowlist_route v src toks extra =
     (let listed = map (\<lambda>(symbol, a). coordinator_inspect src a symbol) toks in
      case extra of
        None \<Rightarrow> Inr listed
      | Some t \<Rightarrow>
          if \<not> isAddress v t then Inl (bad_request ''COORDINATOR_INVALID_REQUEST'' (''not an address: '' @ t) [(''token'', t)])
          else if t = [] \<or> list_ex (\<lambda>(symbol, a). same a (getAddress v t)) toks then Inr listed
          else let a = getAddress v t; symbol = (case ts_symbol src a of Inl e \<Rightarrow> ''unknown'' | Inr s \<Rightarrow> s)
               in Inr (listed @ [coordinator_inspect src a symbol]))"

section \<open>What the two gates promise\<close>

text \<open>What viem's checksum does: it only changes the case of the letters.\<close>

definition only_case :: "(string \<Rightarrow> string) \<Rightarrow> bool" where
  "only_case f \<longleftrightarrow> (\<forall>a b. f a = f b \<longleftrightarrow> same a b)"

text \<open>A storage word as the node answers it: \<^verbatim>\<open>0x\<close> and sixty four digits.\<close>

definition holds_beacon :: "hex \<Rightarrow> bool" where
  "holds_beacon w \<longleftrightarrow> length w = 66 \<and> same (drop 26 w) (drop 2 STOCK_TOKEN_BEACON)"

definition word_sized :: "read_error + hex option \<Rightarrow> bool" where
  "word_sized r \<longleftrightarrow> (case r of Inr (Some w) \<Rightarrow> length w = 66 | _ \<Rightarrow> True)"

text \<open>Neither a revert nor a dropped request: the read came back, or the contract itself refused it.\<close>

definition answered :: "read_error + 'a \<Rightarrow> bool" where
  "answered r \<longleftrightarrow> (case r of Inr v \<Rightarrow> True | Inl e \<Rightarrow> is_revert (re_chain e))"

text \<open>A source that answers every token alike: its beacon slot, its multiplier and two hundred bytes of code.\<close>

definition answers :: "read_error + hex option \<Rightarrow> read_error + int \<Rightarrow> token_source" where
  "answers slot multiplier =
     \<lparr>ts_code = (\<lambda>a. Inr (Some (replicate 402 CHR ''0''))), ts_slot = (\<lambda>a. slot), ts_name = (\<lambda>a. Inr ''Apple''), ts_symbol = (\<lambda>a. Inr ''AAPL''),
      ts_decimals = (\<lambda>a. Inr 18), ts_totalSupply = (\<lambda>a. Inr 0), ts_uiMultiplier = (\<lambda>a. multiplier)\<rparr>"

definition real_slot :: hex where
  "real_slot = ''0x'' @ replicate 24 CHR ''0'' @ drop 2 STOCK_TOKEN_BEACON"

definition timed_out :: read_error where
  "timed_out = \<lparr>re_chain = [(''ContractFunctionExecutionError'', None), (''TimeoutError'', None)], re_short = None, re_message = Some ''slow''\<rparr>"

lemma lower_only_case: "only_case lower"
  by (simp add: only_case_def same_def)

lemma real_slot_shape: "length real_slot = 66" "holds_beacon real_slot"
  by code_simp+

lemma timed_out_dropped: "\<not> is_revert (re_chain timed_out)"
  by (simp add: timed_out_def)

lemma answers_simps [simp]:
  "ts_slot (answers s m) a = s" "ts_uiMultiplier (answers s m) a = m" "ts_code (answers s m) a = Inr (Some (replicate 402 CHR ''0''))"
  by (simp_all add: answers_def)

lemma attempt_cases:
  "(\<exists>d. attempt r = Unreadable d) \<longleftrightarrow> \<not> answered r" "attempt r = Read v \<longleftrightarrow> r = Inr v"
  by (auto simp: attempt_def answered_def split: sum.splits)

lemma same_append: "length a = length b \<Longrightarrow> same (a @ c) (b @ d) \<longleftrightarrow> same a b \<and> same c d"
  by (simp add: same_def lower_def)

lemma beacon_of_word:
  assumes "only_case f" "length w = 66"
  shows "beacon_from_slot f (Some w) = Some (f STOCK_TOKEN_BEACON) \<longleftrightarrow> holds_beacon w"
proof -
  have tail: "last_chars 40 w = drop 26 w" using assms(2) by (simp add: last_chars_def)
  have b: "STOCK_TOKEN_BEACON = ''0x'' @ drop 2 STOCK_TOKEN_BEACON" by (simp add: STOCK_TOKEN_BEACON_def)
  have "f (''0x'' @ drop 26 w) = f STOCK_TOKEN_BEACON \<longleftrightarrow> same (''0x'' @ drop 26 w) STOCK_TOKEN_BEACON"
    using assms(1) unfolding only_case_def by blast
  also have "\<dots> \<longleftrightarrow> same (''0x'' @ drop 26 w) (''0x'' @ drop 2 STOCK_TOKEN_BEACON)" by (rule arg_cong2 [where f = same, OF refl b])
  also have "\<dots> \<longleftrightarrow> same (drop 26 w) (drop 2 STOCK_TOKEN_BEACON)" using same_append [of "''0x''" "''0x''"] by (simp only: same_refl simp_thms)
  also have "\<dots> \<longleftrightarrow> holds_beacon w" using assms(2) by (simp only: holds_beacon_def simp_thms)
  finally have eq: "f (''0x'' @ drop 26 w) = f STOCK_TOKEN_BEACON \<longleftrightarrow> holds_beacon w" .
  have "\<not> holds_beacon w" if z: "list_all (\<lambda>c. c = CHR ''0'') (drop 26 w)"
  proof
    assume "holds_beacon w"
    then have "hd (lower (drop 26 w)) = hd (lower (drop 2 STOCK_TOKEN_BEACON))" by (simp add: holds_beacon_def same_def)
    moreover have "drop 26 w \<noteq> []" using assms(2) by simp
    then have "hd (drop 26 w) = CHR ''0''" using z by (cases "drop 26 w") auto
    ultimately show False using \<open>drop 26 w \<noteq> []\<close> by (simp add: lower_def hd_map STOCK_TOKEN_BEACON_def lower_char_def)
  qed
  then show ?thesis using eq assms(2) by (auto simp: beacon_from_slot_def Let_def tail)
qed

lemma beacon_state:
  assumes "only_case f" "word_sized r"
  defines "c \<equiv> beacon_check f (attempt r) (case attempt r of Read w \<Rightarrow> beacon_from_slot f w | _ \<Rightarrow> None)"
  shows "ck_state c = Unknown \<longleftrightarrow> \<not> answered r" "ck_state c = Pass \<longleftrightarrow> (\<exists>w. r = Inr (Some w) \<and> holds_beacon w)"
proof -
  consider e where "r = Inl e" | "r = Inr None" | w where "r = Inr (Some w)" by (metis option.exhaust sum.exhaust)
  then have "(ck_state c = Unknown \<longleftrightarrow> \<not> answered r) \<and> (ck_state c = Pass \<longleftrightarrow> (\<exists>w. r = Inr (Some w) \<and> holds_beacon w))"
  proof cases
    case (3 w)
    then have "length w = 66" using assms(2) by (simp add: word_sized_def)
    then show ?thesis using 3 beacon_of_word [OF assms(1)] by (simp add: c_def beacon_check_def attempt_def answered_def)
  qed (simp_all add: c_def beacon_check_def attempt_def answered_def beacon_from_slot_def)
  then show "ck_state c = Unknown \<longleftrightarrow> \<not> answered r" "ck_state c = Pass \<longleftrightarrow> (\<exists>w. r = Inr (Some w) \<and> holds_beacon w)" by simp_all
qed

lemma multiplier_state:
  "ck_state (multiplier_check (attempt r)) = Unknown \<longleftrightarrow> \<not> answered r"
  "ck_state (multiplier_check (attempt r)) = Pass \<longleftrightarrow> (\<exists>m. r = Inr m \<and> 10 ^ 18 \<le> m)"
  by (cases r; auto simp: multiplier_check_def attempt_def answered_def ONE_def)+

lemma gate_decides:
  assumes "only_case f" "word_sized (ts_slot src a)"
  shows "case tr_verdict (inspect f src requested a listed) of
      Undecided \<Rightarrow> \<not> answered (ts_slot src a) \<or> \<not> answered (ts_uiMultiplier src a)
    | Admitted \<Rightarrow> (\<exists>w m. ts_slot src a = Inr (Some w) \<and> holds_beacon w \<and> ts_uiMultiplier src a = Inr m \<and> 10 ^ 18 \<le> m)
    | Turned_away \<Rightarrow> answered (ts_slot src a) \<and> answered (ts_uiMultiplier src a)
        \<and> \<not> (\<exists>w m. ts_slot src a = Inr (Some w) \<and> holds_beacon w \<and> ts_uiMultiplier src a = Inr m \<and> 10 ^ 18 \<le> m)"
proof -
  let ?slot = "attempt (ts_slot src a)" and ?m = "attempt (ts_uiMultiplier src a)"
  let ?beacon = "case ?slot of Read w \<Rightarrow> beacon_from_slot f w | _ \<Rightarrow> None"
  note b = beacon_state [OF assms]
  have m: "ck_state (multiplier_check ?m) = Unknown \<longleftrightarrow> \<not> answered (ts_uiMultiplier src a)"
    "ck_state (multiplier_check ?m) = Pass \<longleftrightarrow> (\<exists>m. ts_uiMultiplier src a = Inr m \<and> 10 ^ 18 \<le> m)"
    by (rule multiplier_state)+
  have v: "tr_verdict (inspect f src requested a listed) = verdict_of [beacon_check f ?slot ?beacon, multiplier_check ?m]"
    by (simp add: inspect_def Let_def)
  show ?thesis unfolding v using b m by (auto simp: verdict_of_def split: gate_verdict.split if_splits)
qed

text \<open>
  The gate of the application never turns a read that failed into an accusation: it is undecided exactly
  when one of the two reads it decides by was dropped, and when both were answered it admits a token
  exactly if its beacon slot holds the Stock Token beacon and its multiplier answers at least one.
\<close>

theorem gate_decides_on_answers:
  assumes "only_case f" "word_sized (ts_slot src a)"
  shows "case tr_verdict (inspect f src requested a listed) of
      Undecided \<Rightarrow> \<not> answered (ts_slot src a) \<or> \<not> answered (ts_uiMultiplier src a)
    | Admitted \<Rightarrow> (\<exists>w m. ts_slot src a = Inr (Some w) \<and> holds_beacon w \<and> ts_uiMultiplier src a = Inr m \<and> 10 ^ 18 \<le> m)
    | Turned_away \<Rightarrow> answered (ts_slot src a) \<and> answered (ts_uiMultiplier src a)
        \<and> \<not> (\<exists>w m. ts_slot src a = Inr (Some w) \<and> holds_beacon w \<and> ts_uiMultiplier src a = Inr m \<and> 10 ^ 18 \<le> m)"
  using gate_decides [OF assms] .

theorem gate_decides_on_answers_witness:
  "tr_verdict (inspect lower (answers (Inr (Some real_slot)) (Inr (10 ^ 18))) ''AAPL'' ''0xaa'' True) = Admitted"
proof -
  have *: "answered (Inr (Some real_slot) :: read_error + hex option)" "answered (Inr (10 ^ 18) :: read_error + int)" by (simp_all add: answered_def)
  show ?thesis
    using gate_decides_on_answers [of lower "answers (Inr (Some real_slot)) (Inr (10 ^ 18))" "''0xaa''" "''AAPL''" True] * real_slot_shape
    by (simp add: lower_only_case word_sized_def split: gate_verdict.splits)
qed

lemma admitted_iff:
  assumes "only_case f" "word_sized (ts_slot src a)"
  shows "tr_verdict (inspect f src requested a listed) = Admitted
    \<longleftrightarrow> (\<exists>w m. ts_slot src a = Inr (Some w) \<and> holds_beacon w \<and> ts_uiMultiplier src a = Inr m \<and> 10 ^ 18 \<le> m)"
proof -
  have ans: "answered (ts_slot src a)" "answered (ts_uiMultiplier src a)" if "ts_slot src a = Inr (Some w)" "ts_uiMultiplier src a = Inr m" for w m
    using that by (simp_all add: answered_def)
  show ?thesis
    using gate_decides [OF assms, of requested listed] ans
    by (cases "tr_verdict (inspect f src requested a listed)"; simp; blast)
qed

lemma beacon_passes:
  "length w = 66 \<Longrightarrow> lower (''0x'' @ drop 26 w) = lower STOCK_TOKEN_BEACON \<longleftrightarrow> holds_beacon w"
proof -
  assume w: "length w = 66"
  have b: "STOCK_TOKEN_BEACON = ''0x'' @ drop 2 STOCK_TOKEN_BEACON" by (simp add: STOCK_TOKEN_BEACON_def)
  have "same (''0x'' @ drop 26 w) STOCK_TOKEN_BEACON \<longleftrightarrow> same (''0x'' @ drop 26 w) (''0x'' @ drop 2 STOCK_TOKEN_BEACON)"
    by (rule arg_cong2 [where f = same, OF refl b])
  also have "\<dots> \<longleftrightarrow> holds_beacon w" using same_append [of "''0x''" "''0x''"] w by (simp only: holds_beacon_def same_refl simp_thms)
  finally show ?thesis by (simp add: same_def)
qed

text \<open>
  C37. The two gates agree on every token whose reads come back: the coordinator passes exactly the tokens the
  application admits and that carry more than a hundred bytes of code.
\<close>

theorem gates_agree:
  assumes "only_case f" "ts_slot src a = Inr (Some w)" "length w = 66" "ts_code src a = Inr bytecode" "even (length (case bytecode of None \<Rightarrow> [] | Some c \<Rightarrow> c))"
  shows "al_pass (coordinator_inspect src a symbol) \<longleftrightarrow> tr_verdict (inspect f src requested a listed) = Admitted
    \<and> (\<exists>n. tr_codeBytes (inspect f src requested a listed) = Some n \<and> 100 < n)"
proof -
  have v: "tr_verdict (inspect f src requested a listed) = Admitted \<longleftrightarrow> holds_beacon w \<and> (\<exists>m. ts_uiMultiplier src a = Inr m \<and> 10 ^ 18 \<le> m)"
    using admitted_iff [OF assms(1), of src a requested listed] assms(2,3) by (simp add: word_sized_def)
  have bytes: "tr_codeBytes (inspect f src requested a listed) = Some (case bytecode of Some (x # xs) \<Rightarrow> (int (length (x # xs)) - 1) div 2 | _ \<Rightarrow> 0)"
    using assms(4) by (simp add: inspect_def Let_def attempt_def)
  have "(int (length (x # xs)) - 1) div 2 = (int (length (x # xs)) - 2) div 2" if "bytecode = Some (x # xs)" for x xs
  proof -
    have "odd (length xs)" using assms(5) that by simp
    then obtain k where "length xs = 2 * k + 1" by (rule oddE)
    then show ?thesis by simp
  qed
  then have size: "(case bytecode of Some (x # xs) \<Rightarrow> (int (length (x # xs)) - 1) div 2 | _ \<Rightarrow> 0)
      = (case bytecode of Some (x # xs) \<Rightarrow> (int (length (x # xs)) - 2) div 2 | _ \<Rightarrow> 0)" by (auto split: option.split list.split)
  have m: "(case (case ts_uiMultiplier src a of Inl e \<Rightarrow> None | Inr v \<Rightarrow> Some v) of None \<Rightarrow> False | Some m \<Rightarrow> ONE \<le> m)
      \<longleftrightarrow> (\<exists>m. ts_uiMultiplier src a = Inr m \<and> 10 ^ 18 \<le> m)" by (auto simp: ONE_def split: sum.split)
  show ?thesis unfolding v bytes size
    using beacon_passes [OF assms(3)] m by (simp add: coordinator_inspect_def Let_def assms(2-4) del: power_numeral)
qed

theorem gates_agree_witness:
  "al_pass (coordinator_inspect (answers (Inr (Some real_slot)) (Inr (10 ^ 18))) ''0xaa'' ''AAPL'') = True"
proof -
  let ?src = "answers (Inr (Some real_slot)) (Inr (10 ^ 18))"
  have "tr_verdict (inspect lower ?src ''AAPL'' ''0xaa'' True) = Admitted"
    using admitted_iff [of lower ?src "''0xaa''" "''AAPL''" True] real_slot_shape by (simp add: lower_only_case word_sized_def)
  moreover have "tr_codeBytes (inspect lower ?src ''AAPL'' ''0xaa'' True) = Some 200"
    by (simp add: inspect_def Let_def attempt_def list.case_eq_if del: replicate.simps)
  ultimately show ?thesis
    using gates_agree [of lower ?src "''0xaa''" real_slot "Some (replicate 402 CHR ''0'')" "''AAPL''" "''AAPL''" True] real_slot_shape
    by (simp add: lower_only_case del: replicate.simps)
qed

text \<open>
  They part on a read that was dropped: whatever the token, one request the node did not answer makes the
  coordinator reject it, saying that its beacon slot holds something else or that its multiplier is
  absent, where the application leaves it undecided.
\<close>

theorem dropped_read_condemns:
  assumes "ts_slot src a = Inl e \<and> \<not> is_revert (re_chain e) \<or> ts_uiMultiplier src a = Inl e \<and> \<not> is_revert (re_chain e)"
  shows "\<not> al_pass (coordinator_inspect src a symbol) \<and> tr_verdict (inspect f src requested a listed) = Undecided
    \<and> (''ERC-1967 beacon slot does not hold the Stock Token beacon'' \<in> set (al_reasons (coordinator_inspect src a symbol))
      \<or> ''uiMultiplier() is absent'' \<in> set (al_reasons (coordinator_inspect src a symbol)))"
proof -
  have u: "tr_verdict (inspect f src requested a listed) = Undecided"
    using assms by (auto simp: inspect_def Let_def verdict_of_def beacon_check_def multiplier_check_def attempt_def)
  have "\<not> holds_beacon ZERO_WORD" by code_simp
  then have z: "lower (''0x'' @ drop 26 ZERO_WORD) \<noteq> lower STOCK_TOKEN_BEACON" using beacon_passes [of ZERO_WORD] by (simp add: ZERO_WORD_def)
  have "\<not> al_beaconPass (coordinator_inspect src a symbol) \<or> \<not> al_multiplierPass (coordinator_inspect src a symbol) \<and> ts_uiMultiplier src a = Inl e"
    using assms z by (auto simp: coordinator_inspect_def Let_def ZERO_WORD_def)
  then show ?thesis using u by (auto simp: coordinator_inspect_def Let_def)
qed

theorem dropped_read_condemns_witness:
  "tr_verdict (inspect lower (answers (Inr (Some real_slot)) (Inl timed_out)) ''AAPL'' ''0xaa'' True) = Undecided
    \<and> \<not> al_pass (coordinator_inspect (answers (Inr (Some real_slot)) (Inl timed_out)) ''0xaa'' ''AAPL'')"
  using dropped_read_condemns [of "answers (Inr (Some real_slot)) (Inl timed_out)" "''0xaa''" timed_out "''AAPL''" lower "''AAPL''" True] timed_out_dropped
  by simp

end
