(* ===== verification/AppIntent.thy ===== *)
theory AppIntent
  imports Admission "HOL-Library.List_Lexorder" "HOL-Library.Char_ord"
begin

unbundle bit_operations_syntax

text \<open>
  app/src/lib/intent.ts and app/src/lib/permit2.ts: the intents the web application builds, the payload
  it posts, the typed data the wallet signs, and the two facts it checks on chain before it lets a
  wallet sign at all.
\<close>

section \<open>Building an intent\<close>

definition INTENT_TYPES :: "(string \<times> string) list" where
  "INTENT_TYPES =
     [(''owner'', ''address''), (''receiver'', ''address''), (''sellToken'', ''address''), (''buyToken'', ''address''), (''sellAmount'', ''uint256''),
      (''minBuyAmount'', ''uint256''), (''validAfter'', ''uint32''), (''validUntil'', ''uint32''), (''flags'', ''uint8''), (''kind'', ''uint8''),
      (''maxDevFromRefBps'', ''uint16''), (''allowedSessions'', ''uint8''), (''batchSpan'', ''uint16''), (''nonce'', ''uint256'')]"

text \<open>\<^verbatim>\<open>IntentFlags\<close> and \<^verbatim>\<open>IntentKind\<close> of packages/shared/types.ts.\<close>

definition PARTIAL_FILL :: int where "PARTIAL_FILL = 1"
definition AUCTION_FLAG :: int where "AUCTION_FLAG = 4"
definition INTENT_KIND_SPOT :: int where "INTENT_KIND_SPOT = 0"
definition INTENT_KIND_MOO :: int where "INTENT_KIND_MOO = 1"
definition INTENT_KIND_LOO :: int where "INTENT_KIND_LOO = 2"

definition ALL_TRADING_SESSIONS :: int where
  "ALL_TRADING_SESSIONS = the (session_mask CLOSED_OVERNIGHT) OR the (session_mask PRE_MARKET) OR the (session_mask OPEN) OR the (session_mask POST_MARKET) OR the (session_mask CLOSED_WEEKEND)"

record build_input =
  bi_owner :: address
  bi_sellToken :: address
  bi_buyToken :: address
  bi_sellAmount :: int
  bi_minBuyAmount :: int
  bi_toleranceBps :: int
  bi_partialFill :: bool
  bi_nonce :: int
  bi_chainTime :: int
  bi_collectEndsAt :: int
  bi_validForSeconds :: int
  bi_batchSpan :: int

definition build_intent :: "build_input \<Rightarrow> intent" where
  "build_intent b =
     \<lparr>i_owner = bi_owner b, i_receiver = bi_owner b, i_sellToken = bi_sellToken b, i_buyToken = bi_buyToken b, i_sellAmount = bi_sellAmount b,
      i_minBuyAmount = bi_minBuyAmount b, i_validAfter = min (bi_chainTime b) (bi_collectEndsAt b),
      i_validUntil = max (bi_chainTime b + bi_validForSeconds b) (bi_collectEndsAt b), i_flags = (if bi_partialFill b then PARTIAL_FILL else 0),
      i_kind = INTENT_KIND_SPOT, i_maxDevFromRefBps = bi_toleranceBps b, i_allowedSessions = ALL_TRADING_SESSIONS, i_batchSpan = bi_batchSpan b,
      i_nonce = bi_nonce b\<rparr>"

definition AFTER_CROSS_SECONDS :: int where "AFTER_CROSS_SECONDS = 3600"

datatype cross = Opening | Closing

definition build_auction_intent :: "address \<Rightarrow> address \<Rightarrow> address \<Rightarrow> int \<Rightarrow> int \<Rightarrow> cross \<Rightarrow> int \<Rightarrow> int \<Rightarrow> intent" where
  "build_auction_intent owner sellToken buyToken sellAmount minBuyAmount cross crossAt nonce =
     \<lparr>i_owner = owner, i_receiver = owner, i_sellToken = sellToken, i_buyToken = buyToken, i_sellAmount = sellAmount, i_minBuyAmount = minBuyAmount,
      i_validAfter = 0, i_validUntil = crossAt + AFTER_CROSS_SECONDS, i_flags = AUCTION_FLAG, i_kind = (if minBuyAmount = 0 then INTENT_KIND_MOO else INTENT_KIND_LOO),
      i_maxDevFromRefBps = 0, i_allowedSessions = (case cross of Opening \<Rightarrow> the (session_mask AUCTION_OPEN) | Closing \<Rightarrow> the (session_mask AUCTION_CLOSE)),
      i_batchSpan = 1, i_nonce = nonce\<rparr>"

definition serialize_intent :: "intent \<Rightarrow> json" where
  "serialize_intent i = JObject
     [(''owner'', JString (i_owner i)), (''receiver'', JString (i_receiver i)), (''sellToken'', JString (i_sellToken i)), (''buyToken'', JString (i_buyToken i)),
      (''sellAmount'', JString (decimal (i_sellAmount i))), (''minBuyAmount'', JString (decimal (i_minBuyAmount i))),
      (''validAfter'', JNumber (of_int (i_validAfter i))), (''validUntil'', JNumber (of_int (i_validUntil i))),
      (''flags'', JNumber (of_int (i_flags i))), (''kind'', JNumber (of_int (i_kind i))), (''maxDevFromRefBps'', JNumber (of_int (i_maxDevFromRefBps i))),
      (''allowedSessions'', JNumber (of_int (i_allowedSessions i))), (''batchSpan'', JNumber (of_int (i_batchSpan i))), (''nonce'', JString (decimal (i_nonce i)))]"

section \<open>What the wallet signs\<close>

definition TOKEN_PERMISSIONS_TYPE :: "(string \<times> string) list" where
  "TOKEN_PERMISSIONS_TYPE = [(''token'', ''address''), (''amount'', ''uint256'')]"

definition PERMIT2_WITNESS_TYPES :: "(string \<times> (string \<times> string) list) list" where
  "PERMIT2_WITNESS_TYPES =
     [(''PermitWitnessTransferFrom'', [(''permitted'', ''TokenPermissions''), (''spender'', ''address''), (''nonce'', ''uint256''), (''deadline'', ''uint256''), (''witness'', ''Intent'')]),
      (''TokenPermissions'', TOKEN_PERMISSIONS_TYPE), (''Intent'', INTENT_TYPES)]"

fun joined :: "string \<Rightarrow> string list \<Rightarrow> string" where
  "joined sep [] = []"
| "joined sep [x] = x"
| "joined sep (x # y # zs) = x @ sep @ joined sep (y # zs)"

definition typed_fields :: "(string \<times> string) list \<Rightarrow> string" where
  "typed_fields fs = joined '','' (map (\<lambda>(name, ty). ty @ '' '' @ name) fs)"

definition witness_type_string :: string where
  "witness_type_string = ''Intent witness)Intent('' @ typed_fields INTENT_TYPES @ '')TokenPermissions(address token,uint256 amount)''"



record signing_check =
  sc_spender :: address
  sc_expected :: hex
  sc_separator :: "hex option"
  sc_witness :: "string option"
  sc_ok :: bool
  sc_problem :: "string option"

text \<open>
  \<open>hash_domain\<close> is viem's separator of the domain named Permit2 with a chain and a contract; the two
  reads answer with a text or with the error they failed with.
\<close>

definition signing_context :: "(int \<Rightarrow> address \<Rightarrow> hex) \<Rightarrow> int \<Rightarrow> address \<Rightarrow> address \<Rightarrow> string + hex \<Rightarrow> string + string \<Rightarrow> signing_check" where
  "signing_context hash_domain chainId spender permit2 separator witness =
     (let expected = hash_domain chainId permit2;
          p1 = (case separator of Inl e \<Rightarrow> Some (''Permit2 did not answer DOMAIN_SEPARATOR. '' @ e) | Inr _ \<Rightarrow> None);
          p2 = (case witness of Inl e \<Rightarrow> (case p1 of Some p \<Rightarrow> Some p | None \<Rightarrow> Some (''Settlement did not answer WITNESS_TYPE_STRING. '' @ e)) | Inr _ \<Rightarrow> p1);
          p3 = (case separator of Inr s \<Rightarrow> if p2 = None \<and> s \<noteq> expected then Some (''Permit2 reports domain separator '' @ s @ '', this app builds '' @ expected) else p2 | Inl _ \<Rightarrow> p2);
          p4 = (case witness of Inr t \<Rightarrow> if p3 = None \<and> t \<noteq> witness_type_string then Some ''Settlement WITNESS_TYPE_STRING does not match the Intent type this app signs'' else p3 | Inl _ \<Rightarrow> p3)
      in \<lparr>sc_spender = spender, sc_expected = expected, sc_separator = (case separator of Inr s \<Rightarrow> Some s | Inl _ \<Rightarrow> None),
          sc_witness = (case witness of Inr t \<Rightarrow> Some t | Inl _ \<Rightarrow> None), sc_ok = (p4 = None), sc_problem = p4\<rparr>)"

section \<open>From the application to the coordinator\<close>

lemma serialized: "serialize_intent i = canonical_payload (\<lambda>a. a) i"
  by (simp add: serialize_intent_def canonical_payload_def canonical_fields_def)

lemma session_masks: "ALL_TRADING_SESSIONS = 107" "the (session_mask AUCTION_OPEN) = 4" "the (session_mask AUCTION_CLOSE) = 16"
  by (simp_all add: ALL_TRADING_SESSIONS_def)

text \<open>What a form hands over: amounts that fit a word, a tolerance and a span that fit sixteen bits, times of this century.\<close>

definition fits :: "build_input \<Rightarrow> bool" where
  "fits b \<longleftrightarrow> 0 \<le> bi_sellAmount b \<and> bi_sellAmount b < 2 ^ 256 \<and> 0 \<le> bi_minBuyAmount b \<and> bi_minBuyAmount b < 2 ^ 256
     \<and> 0 \<le> bi_nonce b \<and> bi_nonce b < 2 ^ 256 \<and> 0 \<le> bi_toleranceBps b \<and> bi_toleranceBps b < 2 ^ 16
     \<and> 0 \<le> bi_batchSpan b \<and> bi_batchSpan b < 2 ^ 16 \<and> 0 \<le> bi_chainTime b \<and> 0 \<le> bi_validForSeconds b \<and> 0 \<le> bi_collectEndsAt b
     \<and> bi_chainTime b + bi_validForSeconds b < 2 ^ 32 \<and> bi_collectEndsAt b < 2 ^ 32"

lemma built_in_width: "fits b \<Longrightarrow> in_width (build_intent b)"
  unfolding fits_def in_width_def build_intent_def session_masks PARTIAL_FILL_def INTENT_KIND_SPOT_def by auto

text \<open>
  What the application posts is what the coordinator reads: an intent built from a form that fits its
  fields passes validation and comes out as the very intent the wallet signed, number for number.
\<close>

theorem posted_intent_reads_back:
  assumes "fits b" "ia (bi_owner b)" "ia (bi_sellToken b)" "ia (bi_buyToken b)"
  shows "validate_intent_payload ia (serialize_intent (build_intent b)) = Inr (build_intent b)"
proof -
  let ?i = "build_intent b"
  have a: "ia (i_owner ?i)" "ia (i_receiver ?i)" "ia (i_sellToken ?i)" "ia (i_buyToken ?i)" using assms(2-4) by (simp_all add: build_intent_def)
  have "validate_intent_payload ia (canonical_payload (\<lambda>a. a) ?i) = Inr (addressed (\<lambda>a. a) ?i)"
    using payload_reads_back [of ?i ia "\<lambda>a. a"] built_in_width [OF assms(1)] a by blast
  then show ?thesis by (simp add: serialized addressed_def)
qed

text \<open>
  The window the application writes is good for the batch it was built for exactly when its validity
  outlives that batch's solving window; stretching it to the end of collection, as the code does for a
  shorter one, never makes it acceptable.
\<close>

theorem built_window_accepted:
  assumes "open_lookup reader time = Batch w" "collectEnd w = bi_collectEndsAt b" "window_session w = session_number s"
  shows "(window_at reader (build_intent b) time = Inr w \<longleftrightarrow>
        collectEnd w + 10 < bi_chainTime b + bi_validForSeconds b \<and> s \<in> {CLOSED_OVERNIGHT, PRE_MARKET, OPEN, POST_MARKET, CLOSED_WEEKEND})
    \<and> (bi_chainTime b + bi_validForSeconds b \<le> collectEnd w + 10 \<longrightarrow>
        (\<exists>e. window_at reader (build_intent b) time = Inl (Http e) \<and> code e = ''IntentExpired''))"
proof -
  let ?i = "build_intent b"
  have v: "i_validAfter ?i \<le> collectEnd w" "i_validUntil ?i \<le> collectEnd w + SOLUTION_WINDOW \<longleftrightarrow> bi_chainTime b + bi_validForSeconds b \<le> collectEnd w + 10"
    using assms(2) by (auto simp: build_intent_def SOLUTION_WINDOW_def)
  have mask: "i_allowedSessions ?i AND push_bit (nat (window_session w)) 1 = 0 \<longleftrightarrow> s \<notin> {CLOSED_OVERNIGHT, PRE_MARKET, OPEN, POST_MARKET, CLOSED_WEEKEND}"
    using assms(3) by (cases s) (simp_all add: build_intent_def session_masks)
  show ?thesis using v mask assms(1) by (auto simp: window_at_def bad_request_def fail_def)
qed

section \<open>From the wallet to the coordinator\<close>

text \<open>EIP-712: the text of a struct type, and of a primary type followed by the others it uses, by name.\<close>

definition struct_text :: "string \<Rightarrow> (string \<times> string) list \<Rightarrow> string" where
  "struct_text name fs = name @ ''('' @ typed_fields fs @ '')''"

definition encode_type :: "(string \<times> (string \<times> string) list) list \<Rightarrow> string \<Rightarrow> string" where
  "encode_type types primary =
     concat (map (\<lambda>name. struct_text name (case map_of types name of Some fs \<Rightarrow> fs | None \<Rightarrow> []))
       (primary # sort (filter (\<lambda>n. n \<noteq> primary) (map fst types))))"

text \<open>
  The field list is written out in three places that have to agree: the type the wallet hashes, made
  from the list of the application, is the type the coordinator hashes, and its tail is the constant
  the Settlement contract publishes.
\<close>

theorem signed_type_is_checked_type:
  "encode_type PERMIT2_WITNESS_TYPES ''PermitWitnessTransferFrom'' = TYPEHASH_STUB @ witness_type_string
    \<and> struct_text ''Intent'' INTENT_TYPES = INTENT_TYPE_STRING
    \<and> witness_type_string = ''Intent witness)Intent(address owner,address receiver,'' @ ''address sellToken,address buyToken,uint256 sellAmount,uint256 minBuyAmount,uint32 validAfter,''
        @ ''uint32 validUntil,uint8 flags,uint8 kind,uint16 maxDevFromRefBps,uint8 allowedSessions,'' @ ''uint16 batchSpan,uint256 nonce)TokenPermissions(address token,uint256 amount)''"
  by code_simp







text \<open>
  The wallet is opened for signing only on agreement: both reads answered, Permit2's separator is the one
  the application builds for this chain and contract, and Settlement's witness type is the one it
  signs. Otherwise there is a problem to show.
\<close>

theorem signs_only_on_agreement:
  "(sc_ok (signing_context hash_domain chainId spender permit2 separator witness)
      \<longleftrightarrow> separator = Inr (hash_domain chainId permit2) \<and> witness = Inr witness_type_string)
    \<and> sc_ok (signing_context hash_domain chainId spender permit2 separator witness)
      = (sc_problem (signing_context hash_domain chainId spender permit2 separator witness) = None)
    \<and> sc_spender (signing_context hash_domain chainId spender permit2 separator witness) = spender"
  unfolding signing_context_def Let_def by (cases separator; cases witness) simp_all

text \<open>
  A commitment to a cross is what the auction asks for: it names one auction session and only that, it
  outlives the cross by an hour, and it is a limit order exactly when it carries a price.
\<close>

theorem auction_intent_fits_cross:
  assumes "i = build_auction_intent owner sell buy amount least cross crossAt nonce"
  shows "(i_allowedSessions i = the (session_mask AUCTION_OPEN) \<longleftrightarrow> cross = Opening) \<and> (i_allowedSessions i = the (session_mask AUCTION_CLOSE) \<longleftrightarrow> cross = Closing)
    \<and> (i_allowedSessions i AND the (session_mask AUCTION_OPEN) = 0 \<or> i_allowedSessions i AND the (session_mask AUCTION_CLOSE) = 0)
    \<and> i_allowedSessions i AND ALL_TRADING_SESSIONS = 0
    \<and> crossAt < i_validUntil i \<and> (i_kind i = INTENT_KIND_LOO \<longleftrightarrow> least \<noteq> 0) \<and> (i_kind i = INTENT_KIND_MOO \<longleftrightarrow> least = 0) \<and> i_receiver i = owner"
  unfolding assms by (cases cross) (simp_all add: build_auction_intent_def session_masks AFTER_CROSS_SECONDS_def INTENT_KIND_LOO_def INTENT_KIND_MOO_def)

section \<open>A concrete form\<close>

definition sample_form :: build_input where
  "sample_form = \<lparr>bi_owner = ''0xaa'', bi_sellToken = ''0xbb'', bi_buyToken = ''0xcc'', bi_sellAmount = 5, bi_minBuyAmount = 0, bi_toleranceBps = 50,
     bi_partialFill = True, bi_nonce = 7, bi_chainTime = 1000, bi_collectEndsAt = 1030, bi_validForSeconds = 900, bi_batchSpan = 1\<rparr>"

theorem posted_intent_reads_back_witness:
  "validate_intent_payload (\<lambda>a. take 2 a = ''0x'') (serialize_intent (build_intent sample_form)) = Inr (build_intent sample_form)"
  using posted_intent_reads_back [of sample_form "\<lambda>a. take 2 a = ''0x''"] by (simp add: sample_form_def fits_def)


theorem auction_intent_fits_cross_witness:
  "i_kind (build_auction_intent ''0xaa'' ''0xbb'' ''0xcc'' 5 0 Opening 1000 1) = INTENT_KIND_MOO"
  using auction_intent_fits_cross [OF refl, of "''0xaa''" "''0xbb''" "''0xcc''" 5 0 Opening 1000 1] by blast


definition sample_form_now :: build_input where
  "sample_form_now = sample_form\<lparr>bi_chainTime := 100, bi_collectEndsAt := 135\<rparr>"

theorem built_window_accepted_witness:
  "window_at sample_reader (build_intent sample_form_now) 100 = Inr (window_of 135 45 0 10)
    \<and> (\<exists>e. window_at sample_reader (build_intent (sample_form_now\<lparr>bi_validForSeconds := 30\<rparr>)) 100 = Inl (Http e) \<and> code e = ''IntentExpired'')"
proof
  have w: "open_lookup sample_reader 100 = Batch (window_of 135 45 0 10)" by code_simp
  have e: "collectEnd (window_of 135 45 0 10) = 135" "window_session (window_of 135 45 0 10) = session_number CLOSED_OVERNIGHT"
    by (simp_all add: window_of_def)
  show "window_at sample_reader (build_intent sample_form_now) 100 = Inr (window_of 135 45 0 10)"
    using built_window_accepted [OF w _ e(2), of sample_form_now] e(1) by (simp add: sample_form_now_def sample_form_def)
  show "\<exists>e. window_at sample_reader (build_intent (sample_form_now\<lparr>bi_validForSeconds := 30\<rparr>)) 100 = Inl (Http e) \<and> code e = ''IntentExpired''"
    using built_window_accepted [OF w _ e(2), of "sample_form_now\<lparr>bi_validForSeconds := 30\<rparr>"] e(1) by (simp add: sample_form_now_def sample_form_def)
qed

end
