(* ===== verification/Spec2Isabelle.thy ===== *)
theory Spec2Isabelle
  imports ClearingFills SolverMath V3Swap Cross Lifecycle Ingest Receipt SolveTotal Keeper SolverRun Reconcile Replay Nonces Faucet Gate AppIntent
begin

text \<open>
  Nokturn: a batch exchange for tokenised stocks, the TypeScript around its contracts.

  \<^bold>\<open>The program.\<close> A wallet signs an intent in the web application (\<^verbatim>\<open>app/\<close>). The coordinator (\<^verbatim>\<open>api/\<close>) admits it
  into the mempool of an open batch, screens the batch when its collection ends and serves it as a feed
  that no longer changes. A solver (\<^verbatim>\<open>solver/\<close>) reads the feed, clears each pair at one price inside the
  session's band, routes the residual through a venue, checks the plan against every rule of the
  contracts, submits it and, if it won, finalizes it; its keeper drives the opening and closing auctions.
  The indexer (\<^verbatim>\<open>indexer/\<close>) copies the contracts' events into tables, follows reorganisations, builds
  receipts and reconciles its rows with the chain. The analytics harness (\<^verbatim>\<open>analytics/\<close>) turns exported
  trades into a fixture and replays it through all of this. \<^verbatim>\<open>packages/shared/\<close> holds what they have in
  common: the batch timetable, the enumerations and the RPC helpers.

  \<^bold>\<open>Theories.\<close> Each opens with the files it models.
  \<^item> Common ground: \<open>Prelude\<close> (BigInt division, insertion ordered maps, \<^verbatim>\<open>Array.sort\<close>, the two binary
    searches, the result type of code that throws), \<open>Decimal\<close>, \<open>Requests\<close>, \<open>Effects\<close> (steps that await
    answers and change a state), \<open>Solution\<close>, \<open>BatchId\<close>.
  \<^item> Coordinator: \<open>Intent\<close> (intent.ts, permit2.ts, errors.ts), \<open>Screen\<close> (revalidate.ts), \<open>Mempool\<close>
    (mempool.ts), \<open>Admission\<close> (routes/intents.ts), \<open>Lifecycle\<close> (lifecycle.ts, routes/session.ts), \<open>Nonces\<close>,
    \<open>Faucet\<close>, \<open>Gate\<close> (routes/allowlist.ts, beside the gate of the application).
  \<^item> Solver: \<open>SolverMath\<close> (math.ts), \<open>ClearingPrice\<close> and \<open>ClearingFills\<close> (clearing.ts), \<open>V3Ticks\<close> and \<open>V3Swap\<close>
    (v3math.ts), \<open>Solve\<close>, \<open>SolvePlan\<close> and \<open>SolveTotal\<close> (solve.ts, baseline.ts), \<open>Preflight\<close> (feed.ts, simulate.ts,
    preflight.ts), \<open>SolverStore\<close> (store.ts), \<open>Submission\<close> (send.ts, finalize.ts, recover.ts), \<open>SolverRun\<close>
    (run.ts), \<open>Cross\<close> (cross.ts), \<open>Keeper\<close> (keeper.ts).
  \<^item> Indexer: \<open>IndexRows\<close> (project.ts), \<open>IndexStore\<close> (store.ts), \<open>Ingest\<close> (ingest.ts), \<open>IndexerRun\<close> (index.ts),
    \<open>Receipt\<close> (receipt.ts, baseline.ts), \<open>Reconcile\<close> (reconcile.ts).
  \<^item> Application and analytics: \<open>AppIntent\<close> (lib/intent.ts, lib/permit2.ts), \<open>Gate\<close> (lib/allowlist-gate.ts),
    \<open>Fixture\<close> (extract.ts), \<open>Replay\<close> (replay.ts).

  \<^bold>\<open>How the code is read.\<close> A BigInt is \<open>int\<close>, with \<open>sdiv\<close> and \<open>smod\<close> for its truncating division; where the
  code masks or counts bits the model does too. A string is a list of characters, a \<^verbatim>\<open>Map\<close> an association
  list in insertion order, an object a record, a union a datatype. A throw is \<open>Inl\<close>, and an early return a
  branch. A handler is cut at its waits when other requests can run between; the order in which they
  run is then a step relation (\<open>pool_step\<close>, \<open>life_step\<close>, \<open>store_run\<close>, \<open>ingest_run\<close>, \<open>run_step\<close>). A node that is
  read many times answers as it likes each time: it is a step over a state nobody describes
  (\<open>Effects\<close>, \<open>Keeper\<close>, \<open>Submission\<close>, \<open>Faucet\<close>) or a list of answers, one per attempt (\<open>Ingest\<close>, \<open>IndexerRun\<close>).

  \<^bold>\<open>Lemmas.\<close> The locales of \<open>Prelude\<close> state what a sort by a key, a choice by a preference and a binary
  search need of their order, and are interpreted on the comparators and predicates of the code;
  \<open>progress\<close> in \<open>Effects\<close> states what a block of steps may do to the state, and is interpreted on the
  transactions a solver or keeper has sent. On these rest the groups of properties:
  \<^item> clearing and planning: the price maximises volume over the band, an allocation passes the
    verifier's checks, the plan conserves every token, meets the baseline floor, and is always found
    when the node answers;
  \<^item> admission: an intent is accepted only if signed, covered by balance and allowance beside what its owner already
    holds, and in time for its batch; a frozen feed is the same for everyone who asks; the intents a
    solver reads are those admitted; the digest the wallet signs is the digest that is checked;
  \<^item> sending: the run submits only sound solutions, writes before it sends, finalizes only what it won,
    keeps whole records through a crash and takes up exactly what it owes after a restart; the
    keeper sends what the chain's phase calls for and never twice;
  \<^item> indexing: the tables mirror one of the chains the node has shown, through failures, restarts and
    reorganisations; a clean reconciliation vouches for the rows; receipts need no node once recorded;
  \<^item> the rest: nonces, faucet, token gates, fixtures and the accounts of a replay.

  \<^bold>\<open>Bounds and fuel.\<close> \<open>search_least\<close> and its dual, and \<open>code_search\<close>, end by a measure. The search for the next
  batch takes the code's bound on its steps. \<open>swap_loop\<close> has the code's 128 steps as fuel. \<open>route_passes\<close>
  gets one pass more than the pair has entries, and every pass drops one, so the empty side is reached
  before the fuel is. \<open>settle_window\<close> has the code's two rounds, \<open>scan_words\<close> the code's four words and
  \<open>boot_retry\<close> its twenty five attempts. Loops that follow blocks for ever are functions of the list of blocks
  seen so far, so what is shown of them holds at every moment.

  \<^bold>\<open>Parameters.\<close> Code outside the repository: keccak, address checksums, ABI encoding and the recovery of a
  signer (viem), JSON, the file system's names, the decoding of logs, the chain's calendar and every
  answer of a node, and the double an exponent amount is read through. Hypotheses on them state what
  the code relies on, such as an encoding that reads back, and have witnesses on concrete functions.

  \<^bold>\<open>Not modelled.\<close> The contracts in Solidity and their Stylus port in Rust, which have suites of their own
  (their arithmetic is modelled where the solver mirrors it); React pages and wallet plumbing; the HTTP
  and WebSocket servers, the configuration, and routes that only shape rows or reads into JSON; the
  SQL of the database store, whose operations are those of the store in memory; migrations, health and
  metrics; the reads of a live Uniswap pool; log lines and reports; deployment and test scripts;
  generated ABIs.
\<close>

end
